(* ===== verification/Prelude.thy ===== *)
theory Prelude
  imports Main "HOL-Library.Word" "HOL-Library.AList"
begin

text \<open>
  Shared vocabulary of the development: the machine integers of the Rust code, the outcome of a
  fallible operation, the checked and saturating arithmetic of the standard library, the
  big-endian integer encodings, and the generic list and association-list lemmas the components
  share.

  \<^item> \<open>u8\<close>, \<open>u16\<close>, \<open>u32\<close>, \<open>u64\<close> are words of that width. Lengths and counts (\<open>usize\<close>) are
    natural numbers; where the code saturates or checks them, the bound \<open>usize_max\<close> (a 64-bit
    target) is written out.
  \<^item> a Rust \<open>Result<T, E>\<close> is \<open>'e + 'a\<close> with \<open>Inl\<close> for \<open>Err\<close>; an operation that can also panic
    returns an \<open>outcome\<close>, where \<open>Panic\<close> is a value of its own.
\<close>

unbundle bit_operations_syntax

section \<open>Collections of facts\<close>

named_theorems result_simps \<open>unfolding the error-handling combinators\<close>
named_theorems const_defs \<open>the numeric constants of the protocol\<close>

section \<open>Types\<close>

type_synonym u8 = "8 word"
type_synonym u16 = "16 word"
type_synonym u32 = "32 word"
type_synonym u64 = "64 word"
type_synonym bytes = "u8 list"

datatype ('e, 'a) outcome = Panic | Err 'e | Ok 'a

section \<open>Errors as values\<close>

text \<open>The \<open>?\<close> operator: leave with the error, otherwise go on with the value.\<close>

definition and_then :: "'e + 'a \<Rightarrow> ('a \<Rightarrow> 'e + 'b) \<Rightarrow> 'e + 'b" where
  [result_simps]: "and_then r f = (case r of Inl e \<Rightarrow> Inl e | Inr a \<Rightarrow> f a)"

definition map_err :: "('e \<Rightarrow> 'f) \<Rightarrow> 'e + 'a \<Rightarrow> 'f + 'a" where
  [result_simps]: "map_err g r = (case r of Inl e \<Rightarrow> Inl (g e) | Inr a \<Rightarrow> Inr a)"

definition ok_or :: "'e \<Rightarrow> 'a option \<Rightarrow> 'e + 'a" where
  [result_simps]: "ok_or e x = (case x of None \<Rightarrow> Inl e | Some a \<Rightarrow> Inr a)"

definition ensure :: "bool \<Rightarrow> 'e \<Rightarrow> 'e + unit" where
  [result_simps]: "ensure b e = (if b then Inr () else Inl e)"

definition is_ok :: "'e + 'a \<Rightarrow> bool" where
  [result_simps]: "is_ok r = (case r of Inl _ \<Rightarrow> False | Inr _ \<Rightarrow> True)"

lemma and_then_simps [simp]:
  "and_then (Inl e) f = Inl e"
  "and_then (Inr a) f = f a"
  by (simp_all add: and_then_def)

lemma and_then_eq_Inr: "and_then r f = Inr b \<longleftrightarrow> (\<exists>a. r = Inr a \<and> f a = Inr b)"
  by (cases r) auto

lemma and_then_eq_Inl: "and_then r f = Inl e \<longleftrightarrow> r = Inl e \<or> (\<exists>a. r = Inr a \<and> f a = Inl e)"
  by (cases r) auto

lemma and_then_cong [fundef_cong]:
  "r = r' \<Longrightarrow> (\<And>a. r' = Inr a \<Longrightarrow> f a = f' a) \<Longrightarrow> and_then r f = and_then r' f'"
  by (cases r') auto

lemma ok_or_simps [simp]:
  "ok_or e None = Inl e"
  "ok_or e (Some a) = Inr a"
  "ok_or e x = Inr b \<longleftrightarrow> x = Some b"
  by (auto simp: ok_or_def split: option.splits)

lemma ensure_simps [simp]:
  "ensure b e = Inr u \<longleftrightarrow> b"
  "ensure b e = Inl e' \<longleftrightarrow> \<not> b \<and> e' = e"
  "ensure True e = Inr ()"
  "ensure False e = Inl e"
  by (auto simp: ensure_def)

lemma map_err_simps [simp]:
  "map_err g (Inl e) = Inl (g e)"
  "map_err g (Inr a) = Inr a"
  "map_err g r = Inr b \<longleftrightarrow> r = Inr b"
  by (auto simp: map_err_def split: sum.splits)

lemma is_ok_simps [simp]: "is_ok (Inr a)" "\<not> is_ok (Inl e)"
  by (simp_all add: is_ok_def)

text \<open>A \<open>for\<close> loop that pushes one result per element and leaves with the first error.\<close>

fun map_result :: "('a \<Rightarrow> 'e + 'b) \<Rightarrow> 'a list \<Rightarrow> 'e + 'b list" where
  "map_result f [] = Inr []"
| "map_result f (x # xs) = and_then (f x) (\<lambda>y. and_then (map_result f xs) (\<lambda>ys. Inr (y # ys)))"

lemma map_result_Inr_iff:
  "map_result f xs = Inr ys \<longleftrightarrow> length ys = length xs \<and> (\<forall>i < length xs. f (xs ! i) = Inr (ys ! i))"
proof (induction xs arbitrary: ys)
  case Nil
  then show ?case by auto
next
  case (Cons x xs)
  show ?case
  proof (cases ys)
    case Nil
    then show ?thesis by (auto simp: and_then_eq_Inr)
  next
    case (Cons y ys')
    then show ?thesis
      by (auto simp: and_then_eq_Inr Cons.IH nth_Cons split: nat.splits)
  qed
qed

lemma map_result_map: "(\<And>x. x \<in> set xs \<Longrightarrow> f x = Inr (g x)) \<Longrightarrow> map_result f xs = Inr (map g xs)"
  by (induction xs) auto

section \<open>Arithmetic of the standard library\<close>

definition usize_max :: nat where
  [const_defs]: "usize_max = 2 ^ 64 - 1"

definition sat_add :: "nat \<Rightarrow> nat \<Rightarrow> nat" where
  "sat_add a b = min (a + b) usize_max"

definition usize_checked_add :: "nat \<Rightarrow> nat \<Rightarrow> nat option" where
  "usize_checked_add a b = (if a + b \<le> usize_max then Some (a + b) else None)"

definition checked_add :: "'a::len word \<Rightarrow> 'a word \<Rightarrow> 'a word option" where
  "checked_add a b = (if unat a + unat b < 2 ^ LENGTH('a) then Some (a + b) else None)"

definition checked_sub :: "'a::len word \<Rightarrow> 'a word \<Rightarrow> 'a word option" where
  "checked_sub a b = (if b \<le> a then Some (a - b) else None)"

lemma unat_lt: "unat (w :: 'a::len word) < 2 ^ LENGTH('a)"
  by (rule unsigned_less)

lemma unat_of_nat_u32: "n < 2 ^ 32 \<Longrightarrow> unat (of_nat n :: u32) = n"
  by (simp add: unat_of_nat)

lemma sat_add_eq [simp]: "a + b \<le> usize_max \<Longrightarrow> sat_add a b = a + b"
  by (simp add: sat_add_def)

lemma sat_add_le: "sat_add a b \<le> m \<Longrightarrow> m < usize_max \<Longrightarrow> sat_add a b = a + b"
  by (simp add: sat_add_def min_def split: if_splits)

lemma checked_add_Some: "checked_add a b = Some c \<Longrightarrow> unat c = unat a + unat b"
  by (auto simp: checked_add_def unat_word_ariths split: if_splits)

lemma checked_add_eq_Some:
  "checked_add a b = Some c \<longleftrightarrow> unat a + unat b < 2 ^ LENGTH('a) \<and> c = a + (b :: 'a::len word)"
  by (auto simp: checked_add_def)

lemma checked_sub_Some: "checked_sub a b = Some c \<Longrightarrow> unat c = unat a - unat b \<and> unat b \<le> unat a"
  by (auto simp: checked_sub_def unat_sub word_le_nat_alt split: if_splits)

section \<open>Big-endian integers\<close>

text \<open>
  \<open>to_be n w\<close> is \<open>to_be_bytes\<close> of an \<open>n\<close>-byte integer, \<open>from_be\<close> is \<open>from_be_bytes\<close>: the
  first byte is the most significant one.
\<close>

fun to_be :: "nat \<Rightarrow> nat \<Rightarrow> bytes" where
  "to_be 0 v = []"
| "to_be (Suc n) v = to_be n (v div 256) @ [of_nat (v mod 256)]"

definition from_be :: "bytes \<Rightarrow> nat" where
  "from_be bs = foldl (\<lambda>acc b. acc * 256 + unat b) 0 bs"

definition be16 :: "u16 \<Rightarrow> bytes" where "be16 w = to_be 2 (unat w)"
definition be32 :: "u32 \<Rightarrow> bytes" where "be32 w = to_be 4 (unat w)"
definition be64 :: "u64 \<Rightarrow> bytes" where "be64 w = to_be 8 (unat w)"

definition un_be16 :: "bytes \<Rightarrow> u16" where "un_be16 bs = of_nat (from_be bs)"
definition un_be32 :: "bytes \<Rightarrow> u32" where "un_be32 bs = of_nat (from_be bs)"
definition un_be64 :: "bytes \<Rightarrow> u64" where "un_be64 bs = of_nat (from_be bs)"

lemma length_to_be [simp]: "length (to_be n v) = n"
  by (induction n arbitrary: v) auto

lemma to_be_numeral:
  "to_be (numeral k) v = to_be (pred_numeral k) (v div 256) @ [of_nat (v mod 256)]"
  unfolding numeral_eq_Suc [of k] by (rule to_be.simps)

lemma from_be_snoc [simp]: "from_be (bs @ [b]) = from_be bs * 256 + unat b"
  by (simp add: from_be_def)

lemma from_be_Nil [simp]: "from_be [] = 0"
  by (simp add: from_be_def)

lemma unat_of_nat_mod_256 [simp]: "unat (of_nat (v mod 256) :: u8) = v mod 256"
  by (simp add: unat_of_nat)

lemma from_be_to_be: "from_be (to_be n v) = v mod 256 ^ n"
proof (induction n arbitrary: v)
  case 0
  show ?case by simp
next
  case (Suc n)
  have "v mod 256 ^ Suc n = (v div 256) mod 256 ^ n * 256 + v mod 256"
    by (simp add: mod_mult2_eq mult.commute)
  then show ?case by (simp only: to_be.simps from_be_snoc Suc.IH unat_of_nat_mod_256)
qed

lemma from_be_less: "from_be bs < 256 ^ length bs"
proof (induction bs rule: rev_induct)
  case Nil
  show ?case by simp
next
  case (snoc b bs)
  have "unat b < 256" using unat_lt [of b] by simp
  with snoc.IH have "from_be bs * 256 + unat b < (from_be bs + 1) * 256" by simp
  also have "\<dots> \<le> 256 ^ length bs * 256"
    using snoc.IH by (intro mult_right_mono) auto
  finally show ?case by (simp add: mult.commute)
qed

lemma to_be_from_be: "to_be (length bs) (from_be bs) = bs"
proof (induction bs rule: rev_induct)
  case Nil
  show ?case by simp
next
  case (snoc b bs)
  have b: "unat b < 256" using unat_lt [of b] by simp
  then have "(from_be bs * 256 + unat b) div 256 = from_be bs"
    and "(from_be bs * 256 + unat b) mod 256 = unat b"
    by simp_all
  with snoc.IH show ?case by simp
qed

lemma length_be [simp]: "length (be16 a) = 2" "length (be32 b) = 4" "length (be64 c) = 8"
  by (simp_all add: be16_def be32_def be64_def)

lemma un_be_be [simp]: "un_be16 (be16 a) = a" "un_be32 (be32 b) = b" "un_be64 (be64 c) = c"
  using unat_lt [of a] unat_lt [of b] unat_lt [of c]
  by (simp_all add: un_be16_def be16_def un_be32_def be32_def un_be64_def be64_def
      from_be_to_be)

lemma be_un_be [simp]:
  "length bs = 2 \<Longrightarrow> be16 (un_be16 bs) = bs"
  "length bs = 4 \<Longrightarrow> be32 (un_be32 bs) = bs"
  "length bs = 8 \<Longrightarrow> be64 (un_be64 bs) = bs"
  using from_be_less [of bs] to_be_from_be [of bs]
  by (simp_all add: un_be16_def be16_def un_be32_def be32_def un_be64_def be64_def
      unat_of_nat)

lemma be_neq_Nil [simp]: "be16 a \<noteq> []" "be32 b \<noteq> []" "be64 c \<noteq> []"
  by (metis length_be list.size(3) zero_neq_numeral)+

section \<open>Lists and association lists\<close>

lemma take_append_exact [simp]: "length xs = n \<Longrightarrow> take n (xs @ ys) = xs"
  by simp

lemma drop_append_exact [simp]: "length xs = n \<Longrightarrow> drop n (xs @ ys) = ys"
  by simp

text \<open>\<open>&xs[a..b]\<close> for \<open>a \<le> b \<le> xs.len()\<close>.\<close>

definition slice :: "'a list \<Rightarrow> nat \<Rightarrow> nat \<Rightarrow> 'a list" where
  "slice xs a b = take (b - a) (drop a xs)"

lemma length_slice [simp]: "length (slice xs a b) = min (b - a) (length xs - a)"
  by (simp add: slice_def)

lemma slice_suffix:
  assumes "slice xs a b = ys @ zs" "b \<le> length xs"
  shows "slice xs (b - length zs) b = zs"
proof (cases "a \<le> b")
  case True
  have "length ys + length zs = b - a"
    using arg_cong [OF assms(1), of length] assms(2) True by simp
  then have b: "b - length zs = a + length ys" "b - (a + length ys) = length zs"
    using True by simp_all
  have "drop (length ys) (slice xs a b) = zs" using assms(1) by simp
  then show ?thesis
    using b by (simp add: slice_def drop_take add.commute)
next
  case False
  with assms show ?thesis by (auto simp: slice_def)
qed

lemma slice_append_exact [simp]:
  "a = length xs \<Longrightarrow> b = a + length ys \<Longrightarrow> slice (xs @ ys @ zs) a b = ys"
  by (simp add: slice_def)

lemma sum_list_filter_le: "sum_list (map f (filter P xs)) \<le> (sum_list (map f xs) :: nat)"
  by (induction xs) auto

lemma sum_list_update:
  fixes f :: "'v \<Rightarrow> nat"
  assumes "distinct (map fst m)"
  shows "sum_list (map (f \<circ> snd) (AList.update k v m)) + (case map_of m k of None \<Rightarrow> 0 | Some w \<Rightarrow> f w)
    = sum_list (map (f \<circ> snd) m) + f v"
  using assms
proof (induction m)
  case Nil
  show ?case by simp
next
  case (Cons p m)
  show ?case
  proof (cases "fst p = k")
    case True
    then show ?thesis by (cases p) (simp add: dom_map_of_conv_image_fst split: option.split)
  next
    case False
    with Cons show ?thesis by (cases p) (auto split: option.splits)
  qed
qed

lemma in_set_update: "x \<in> set (AList.update k v m) \<Longrightarrow> x = (k, v) \<or> x \<in> set m"
  by (induction m) (auto split: if_splits)

lemma length_update:
  "length (AList.update k v m) = (if k \<in> fst ` set m then length m else Suc (length m))"
  by (induction m) auto

section \<open>The codec interface\<close>

text \<open>
  What every wire format of the program promises its users: over the byte strings that fit its
  carrier, decoding inverts encoding and accepts nothing but encodings of typed values.
\<close>

locale byte_codec =
  fixes enc :: "'a \<Rightarrow> 'e + bytes"
    and dec :: "bytes \<Rightarrow> 'e + 'a"
    and typed :: "'a \<Rightarrow> bool"
    and fits :: "bytes \<Rightarrow> bool"
  assumes law: "fits bs \<Longrightarrow> dec bs = Inr a \<longleftrightarrow> enc a = Inr bs \<and> typed a"
begin

lemma dec_enc: "enc a = Inr bs \<Longrightarrow> typed a \<Longrightarrow> fits bs \<Longrightarrow> dec bs = Inr a"
  using law by blast

lemma enc_dec: "dec bs = Inr a \<Longrightarrow> fits bs \<Longrightarrow> enc a = Inr bs"
  using law by blast

lemma dec_typed: "dec bs = Inr a \<Longrightarrow> fits bs \<Longrightarrow> typed a"
  using law by blast

lemma enc_injective:
  "enc a = Inr bs \<Longrightarrow> enc b = Inr bs \<Longrightarrow> typed a \<Longrightarrow> typed b \<Longrightarrow> fits bs \<Longrightarrow> a = b"
  using law [of bs a] law [of bs b] by simp

lemma dec_injective: "dec bs = Inr a \<Longrightarrow> dec cs = Inr a \<Longrightarrow> fits bs \<Longrightarrow> fits cs \<Longrightarrow> bs = cs"
  using law [of bs a] law [of cs a] by simp

end

end
