(* ===== verification/Strings.thy ===== *)
theory Strings
  imports Prelude
begin

text \<open>
  Strings as the Rust code has them: a \<open>str\<close> is a byte sequence that is valid UTF-8. The
  standard library's UTF-8 validation and \<open>chars()\<close> iteration are modelled by \<open>utf8_chars\<close>,
  which returns the Unicode scalar values or \<open>None\<close>; \<open>from_utf8\<close> is the fallible conversion
  from bytes. The ASCII predicates, \<open>split\<close>, \<open>split_once\<close>, \<open>lines\<close> and \<open>trim\<close> are the ones the
  sources call.
\<close>

type_synonym rstr = bytes

definition lit :: "string \<Rightarrow> rstr" where
  "lit s = map of_char s"

lemma length_lit [simp]: "length (lit s) = length s"
  by (simp add: lit_def)

section \<open>UTF-8\<close>

definition in_range :: "nat \<Rightarrow> nat \<Rightarrow> u8 \<Rightarrow> bool" where
  "in_range lo hi b \<longleftrightarrow> lo \<le> unat b \<and> unat b \<le> hi"

definition cont :: "u8 \<Rightarrow> nat" where
  "cont b = unat b - 0x80"

text \<open>The second byte's range depends on the first (no overlong forms, no surrogates).\<close>

definition second_of_three :: "nat \<Rightarrow> u8 \<Rightarrow> bool" where
  "second_of_three n b = (if n = 0xE0 then in_range 0xA0 0xBF b
     else if n = 0xED then in_range 0x80 0x9F b else in_range 0x80 0xBF b)"

definition second_of_four :: "nat \<Rightarrow> u8 \<Rightarrow> bool" where
  "second_of_four n b = (if n = 0xF0 then in_range 0x90 0xBF b
     else if n = 0xF4 then in_range 0x80 0x8F b else in_range 0x80 0xBF b)"

fun utf8_chars :: "bytes \<Rightarrow> nat list option" where
  "utf8_chars [] = Some []"
| "utf8_chars (b # bs) =
     (if unat b < 0x80 then map_option ((#) (unat b)) (utf8_chars bs)
      else if in_range 0xC2 0xDF b then
        (case bs of
           c1 # r \<Rightarrow> if in_range 0x80 0xBF c1
             then map_option ((#) ((unat b - 0xC0) * 64 + cont c1)) (utf8_chars r) else None
         | _ \<Rightarrow> None)
      else if in_range 0xE0 0xEF b then
        (case bs of
           c1 # c2 # r \<Rightarrow> if second_of_three (unat b) c1 \<and> in_range 0x80 0xBF c2
             then map_option ((#) (((unat b - 0xE0) * 64 + cont c1) * 64 + cont c2)) (utf8_chars r)
             else None
         | _ \<Rightarrow> None)
      else if in_range 0xF0 0xF4 b then
        (case bs of
           c1 # c2 # c3 # r \<Rightarrow>
             if second_of_four (unat b) c1 \<and> in_range 0x80 0xBF c2 \<and> in_range 0x80 0xBF c3
             then map_option ((#) ((((unat b - 0xF0) * 64 + cont c1) * 64 + cont c2) * 64 + cont c3))
               (utf8_chars r)
             else None
         | _ \<Rightarrow> None)
      else None)"

definition from_utf8 :: "bytes \<Rightarrow> rstr option" where
  "from_utf8 bs = (if utf8_chars bs = None then None else Some bs)"

definition chars :: "rstr \<Rightarrow> nat list" where
  "chars s = (case utf8_chars s of None \<Rightarrow> [] | Some cs \<Rightarrow> cs)"

lemma from_utf8_Some [simp]: "from_utf8 bs = Some s \<longleftrightarrow> utf8_chars bs \<noteq> None \<and> s = bs"
  by (auto simp: from_utf8_def)

text \<open>Pure ASCII bytes are valid UTF-8 and decode to themselves.\<close>

lemma utf8_chars_ascii: "\<forall>b \<in> set bs. unat b < 0x80 \<Longrightarrow> utf8_chars bs = Some (map unat bs)"
  by (induction bs) auto

lemma from_utf8_ascii: "\<forall>b \<in> set bs. unat b < 0x80 \<Longrightarrow> from_utf8 bs = Some bs"
  by (simp add: from_utf8_def utf8_chars_ascii)

text \<open>Conversely, a string whose scalar values are all ASCII has exactly these bytes.\<close>

lemma utf8_chars_ascii_inv:
  assumes "utf8_chars bs = Some cs" "\<forall>c \<in> set cs. c < 0x80"
  shows "cs = map unat bs"
  using assms
proof (induction bs arbitrary: cs rule: utf8_chars.induct)
  case 1
  then show ?case by simp
next
  case (2 b bs)
  show ?case
  proof (cases "unat b < 0x80")
    case True
    with 2 show ?thesis by auto
  next
    case False
    with "2.prems" have False
      by (auto simp: in_range_def second_of_three_def second_of_four_def cont_def
          split: if_splits list.splits)
    then show ?thesis ..
  qed
qed

lemma map_unat_inj: "map unat bs = map unat (cs :: bytes) \<Longrightarrow> bs = cs"
  by (rule map_injective [OF _ injI]) auto

section \<open>ASCII and Unicode predicates\<close>

definition is_ascii_digit :: "u8 \<Rightarrow> bool" where
  "is_ascii_digit b \<longleftrightarrow> in_range 48 57 b"

definition is_ascii_lowercase :: "u8 \<Rightarrow> bool" where
  "is_ascii_lowercase b \<longleftrightarrow> in_range 97 122 b"

definition to_ascii_lowercase :: "u8 \<Rightarrow> u8" where
  "to_ascii_lowercase b = (if in_range 65 90 b then b + 32 else b)"

text \<open>\<open>char::is_whitespace\<close> (the Unicode \<open>White_Space\<close> property) and \<open>char::is_control\<close> (\<open>Cc\<close>).\<close>

definition is_whitespace :: "nat \<Rightarrow> bool" where
  "is_whitespace c \<longleftrightarrow> (9 \<le> c \<and> c \<le> 13) \<or> c = 32 \<or> c = 0x85 \<or> c = 0xA0 \<or> c = 0x1680
     \<or> (0x2000 \<le> c \<and> c \<le> 0x200A) \<or> c = 0x2028 \<or> c = 0x2029 \<or> c = 0x202F \<or> c = 0x205F \<or> c = 0x3000"

definition is_control :: "nat \<Rightarrow> bool" where
  "is_control c \<longleftrightarrow> c < 32 \<or> (127 \<le> c \<and> c < 160)"

definition trim :: "nat list \<Rightarrow> nat list" where
  "trim cs = rev (dropWhile is_whitespace (rev (dropWhile is_whitespace cs)))"

lemma dropWhile_id_iff: "dropWhile P xs = xs \<longleftrightarrow> xs = [] \<or> \<not> P (hd xs)"
proof (cases xs)
  case (Cons x ys)
  have "length (dropWhile P ys) \<le> length ys" by (rule length_dropWhile_le)
  then have "dropWhile P ys \<noteq> x # ys" by auto
  with Cons show ?thesis by simp
qed simp

lemma trim_id_iff: "trim cs = cs \<longleftrightarrow> cs = [] \<or> \<not> is_whitespace (hd cs) \<and> \<not> is_whitespace (last cs)"
proof (cases "cs = [] \<or> \<not> is_whitespace (hd cs)")
  case True
  then have "dropWhile is_whitespace cs = cs" by (simp add: dropWhile_id_iff)
  then have "trim cs = cs \<longleftrightarrow> dropWhile is_whitespace (rev cs) = rev cs"
    by (metis rev_rev_ident trim_def)
  with True show ?thesis by (auto simp: dropWhile_id_iff hd_rev)
next
  case False
  then have "length (dropWhile is_whitespace cs) < length cs"
    by (cases cs) (auto simp: le_imp_less_Suc length_dropWhile_le)
  moreover have "length (trim cs) \<le> length (dropWhile is_whitespace cs)"
    unfolding trim_def by (metis length_dropWhile_le length_rev)
  ultimately have "trim cs \<noteq> cs" by auto
  with False show ?thesis by auto
qed

section \<open>Splitting\<close>

text \<open>\<open>str::split(sep)\<close> for a one-byte separator: always at least one field.\<close>

fun split_on :: "u8 \<Rightarrow> bytes \<Rightarrow> bytes list" where
  "split_on s [] = [[]]"
| "split_on s (b # bs) =
     (if b = s then [] # split_on s bs
      else (case split_on s bs of f # fs \<Rightarrow> (b # f) # fs | [] \<Rightarrow> [[b]]))"

text \<open>\<open>str::split_once(sep)\<close>: the parts around the first separator.\<close>

fun split_once :: "u8 \<Rightarrow> bytes \<Rightarrow> (bytes \<times> bytes) option" where
  "split_once s [] = None"
| "split_once s (b # bs) =
     (if b = s then Some ([], bs)
      else (case split_once s bs of None \<Rightarrow> None | Some (l, r) \<Rightarrow> Some (b # l, r)))"

lemma split_on_neq_Nil [simp]: "split_on s bs \<noteq> []"
  by (cases bs) (auto split: list.splits)

lemma split_on_no_sep: "s \<notin> set bs \<Longrightarrow> split_on s bs = [bs]"
  by (induction bs) auto

lemma split_on_append: "s \<notin> set bs \<Longrightarrow> split_on s (bs @ s # cs) = bs # split_on s cs"
  by (induction bs) auto

lemma split_once_Some: "split_once s bs = Some (l, r) \<Longrightarrow> bs = l @ s # r \<and> s \<notin> set l"
  by (induction bs arbitrary: l) (auto split: if_splits option.splits)

lemma split_once_append: "s \<notin> set l \<Longrightarrow> split_once s (l @ s # r) = Some (l, r)"
  by (induction l) auto

end
