(* ===== verification/Identifiers.thy ===== *)
theory Identifiers
  imports Strings
begin

text \<open>
  \<open>rust/src/permissions.rs\<close>, \<open>rust/src/ids.rs\<close> and \<open>rust/src/stream_title.rs\<close>: the validated
  scalar types every other component carries. A newtype with a private field is a one-constructor
  datatype, and the values its constructors can build are the ones satisfying the \<open>valid_\<close>
  predicate. The base64url engine is third-party code: it enters as the parameter \<open>decode_slice\<close>
  (\<open>decode_slice text capacity\<close> is the decoded bytes when they fit the output buffer).
\<close>

section \<open>Link permissions\<close>

datatype link_permissions = LinkPermissions (perm_bits: u8)

datatype permissions_error =
    PermEmpty
  | UnknownPermission nat
  | DuplicatePermission nat
  | OwnerCannotBeCombined

definition OWNER :: u8 where "OWNER = 0b001"
definition READ :: u8 where "READ = 0b010"
definition WRITE :: u8 where "WRITE = 0b100"

lemmas perm_consts = OWNER_def READ_def WRITE_def

definition permissions_new :: "u8 \<Rightarrow> link_permissions option" where
  "permissions_new bits =
     (if bits = 0 \<or> bits AND NOT (OWNER OR READ OR WRITE) \<noteq> 0
         \<or> (bits AND OWNER \<noteq> 0 \<and> bits \<noteq> OWNER)
      then None else Some (LinkPermissions bits))"

definition owner_perm :: link_permissions where "owner_perm = LinkPermissions OWNER"
definition read_perm :: link_permissions where "read_perm = LinkPermissions READ"
definition write_perm :: link_permissions where "write_perm = LinkPermissions WRITE"
definition read_write_perm :: link_permissions where "read_write_perm = LinkPermissions (READ OR WRITE)"

lemmas perm_defs = owner_perm_def read_perm_def write_perm_def read_write_perm_def

definition allows_owner :: "link_permissions \<Rightarrow> bool" where
  "allows_owner p = (perm_bits p AND OWNER \<noteq> 0)"

definition allows_read :: "link_permissions \<Rightarrow> bool" where
  "allows_read p = (allows_owner p \<or> perm_bits p AND READ \<noteq> 0)"

definition allows_write :: "link_permissions \<Rightarrow> bool" where
  "allows_write p = (allows_owner p \<or> perm_bits p AND WRITE \<noteq> 0)"

text \<open>\<open>as_str\<close>: the last arm is \<open>unreachable!()\<close>, a panic.\<close>

definition permissions_as_str :: "link_permissions \<Rightarrow> (unit, rstr) outcome" where
  "permissions_as_str p =
     (if perm_bits p = OWNER then Ok (lit ''o'')
      else if perm_bits p = READ then Ok (lit ''r'')
      else if perm_bits p = WRITE then Ok (lit ''w'')
      else if perm_bits p = READ OR WRITE then Ok (lit ''rw'')
      else Panic)"

definition permission_bit :: "nat \<Rightarrow> u8 option" where
  "permission_bit ch = (if ch = 111 then Some OWNER else if ch = 114 then Some READ
     else if ch = 119 then Some WRITE else None)"

fun permissions_loop :: "u8 \<Rightarrow> nat list \<Rightarrow> permissions_error + u8" where
  "permissions_loop bits [] = Inr bits"
| "permissions_loop bits (ch # cs) =
     (case permission_bit ch of
        None \<Rightarrow> Inl (UnknownPermission ch)
      | Some flag \<Rightarrow> if bits AND flag \<noteq> 0 then Inl (DuplicatePermission ch)
          else permissions_loop (bits OR flag) cs)"

definition permissions_from_str :: "rstr \<Rightarrow> permissions_error + link_permissions" where
  "permissions_from_str input =
     (if input = [] then Inl PermEmpty
      else and_then (permissions_loop 0 (chars input))
        (\<lambda>bits. ok_or OwnerCannotBeCombined (permissions_new bits)))"

text \<open>The four values that exist.\<close>

definition valid_permissions :: "link_permissions \<Rightarrow> bool" where
  "valid_permissions p \<longleftrightarrow> p \<in> {owner_perm, read_perm, write_perm, read_write_perm}"

lemma low_bits_cases:
  fixes b :: u8
  assumes "b AND NOT 7 = 0"
  shows "b \<in> {0, 1, 2, 3, 4, 5, 6, 7}"
proof -
  have "b = b AND 7 OR b AND NOT 7"
    by (simp flip: bit.conj_disj_distrib)
  with assms have "b = b AND 7" by simp
  then have "b \<le> 7" by (metis word_and_le1)
  then have "unat b \<le> 7" by (simp add: word_le_nat_alt)
  then have "unat b \<in> {0, 1, 2, 3, 4, 5, 6, 7}" by auto
  then have "(of_nat (unat b) :: u8) \<in> of_nat ` {0, 1, 2, 3, 4, 5, 6, 7}" by (rule imageI)
  then show ?thesis by simp
qed

lemma unknown_bits_mask: "NOT (OWNER OR READ OR WRITE) = NOT 7"
  by (simp add: perm_consts)

lemma permissions_new_Some: "permissions_new b = Some p \<Longrightarrow> valid_permissions p"
  using low_bits_cases [of b]
  by (auto simp: permissions_new_def unknown_bits_mask valid_permissions_def perm_defs perm_consts split: if_splits)

lemma or_and_eq_0: "(a OR b) AND c = 0 \<longleftrightarrow> a AND c = 0 \<and> b AND (c :: 'a::len word) = 0"
  by (auto simp: bit_eq_iff bit_simps)

text \<open>A successful scan reads distinct known letters, so at most three of them.\<close>

lemma permission_bit_cases:
  "permission_bit c = Some f \<Longrightarrow> (c = 111 \<and> f = 1) \<or> (c = 114 \<and> f = 2) \<or> (c = 119 \<and> f = 4)"
  by (auto simp: permission_bit_def perm_consts split: if_splits)

lemma permissions_loop_flags:
  assumes "permissions_loop bits cs = Inr b" "c \<in> set cs"
  shows "\<exists>f. permission_bit c = Some f \<and> bits AND f = 0"
  using assms
proof (induction bits cs rule: permissions_loop.induct)
  case (1 bits)
  then show ?case by simp
next
  case (2 bits ch cs)
  then obtain f where f: "permission_bit ch = Some f" "bits AND f = 0"
    "permissions_loop (bits OR f) cs = Inr b"
    by (auto split: option.splits if_splits)
  show ?case
  proof (cases "c = ch")
    case True
    with f show ?thesis by auto
  next
    case False
    with "2.prems" have "c \<in> set cs" by simp
    with "2.IH" [OF f(1)] f obtain g where "permission_bit c = Some g" "(bits OR f) AND g = 0"
      by auto
    then show ?thesis by (auto simp: or_and_eq_0)
  qed
qed

lemma permissions_loop_distinct: "permissions_loop bits cs = Inr b \<Longrightarrow> distinct cs"
proof (induction bits cs rule: permissions_loop.induct)
  case (2 bits ch cs)
  then obtain f where f: "permission_bit ch = Some f" "permissions_loop (bits OR f) cs = Inr b"
    by (auto split: option.splits if_splits)
  have "ch \<notin> set cs"
  proof
    assume "ch \<in> set cs"
    with permissions_loop_flags [OF f(2)] f(1) have "(bits OR f) AND f = 0" by fastforce
    then have "f = 0" by (simp add: or_and_eq_0)
    with permission_bit_cases [OF f(1)] show False by auto
  qed
  with "2.IH" [OF f(1)] f "2.prems" show ?case by (auto split: if_splits)
qed simp

definition parsed_permissions :: "(string \<times> link_permissions) list" where
  "parsed_permissions = [(''o'', owner_perm), (''r'', read_perm), (''w'', write_perm),
     (''rw'', read_write_perm), (''wr'', read_write_perm)]"

lemma permissions_loop_short:
  assumes "permissions_loop 0 cs = Inr b" "cs \<noteq> []" "permissions_new b = Some p"
  shows "(cs, p) \<in> (\<lambda>(s, p). (map unat (lit s), p)) ` set parsed_permissions"
proof -
  have sub: "set cs \<subseteq> {111, 114, 119}"
    using permissions_loop_flags [OF assms(1)] permission_bit_cases by blast
  have "length cs = card (set cs)"
    using permissions_loop_distinct [OF assms(1)] by (simp add: distinct_card)
  also have "\<dots> \<le> 3" using card_mono [OF _ sub] by simp
  finally have "length cs \<le> 3" .
  then have "cs = [cs ! 0] \<or> cs = [cs ! 0, cs ! 1] \<or> cs = [cs ! 0, cs ! 1, cs ! 2]"
    using assms(2) by (cases cs; cases "tl cs"; cases "tl (tl cs)") auto
  with sub consider
      x where "cs = [x]" "x \<in> {111, 114, 119}"
    | x y where "cs = [x, y]" "x \<in> {111, 114, 119}" "y \<in> {111, 114, 119}"
    | x y z where "cs = [x, y, z]" "x \<in> {111, 114, 119}" "y \<in> {111, 114, 119}" "z \<in> {111, 114, 119}"
    by (metis insert_subset list.simps(15))
  then show ?thesis
  proof cases
    case 1
    with assms show ?thesis
      by (auto simp: permission_bit_def perm_consts perm_defs permissions_new_def lit_def parsed_permissions_def)
  next
    case 2
    with assms show ?thesis
      by (auto simp: permission_bit_def perm_consts perm_defs permissions_new_def lit_def parsed_permissions_def)
  next
    case 3
    with assms show ?thesis
      by (auto simp: permission_bit_def perm_consts permissions_new_def)
  qed
qed

lemma parsed_permissions_ok:
  "(s, p) \<in> set parsed_permissions \<Longrightarrow> permissions_from_str (lit s) = Inr p"
  by (auto simp: parsed_permissions_def permissions_from_str_def chars_def lit_def
      permission_bit_def perm_consts perm_defs permissions_new_def)

lemma permissions_from_str_parsed:
  assumes "permissions_from_str input = Inr p"
  shows "\<exists>s. input = lit s \<and> (s, p) \<in> set parsed_permissions"
proof -
  obtain b where b: "permissions_loop 0 (chars input) = Inr b" "permissions_new b = Some p"
    using assms by (auto simp: permissions_from_str_def and_then_eq_Inr split: if_splits)
  have "chars input \<noteq> []"
    using b by (auto simp: permissions_new_def)
  then obtain cs where cs: "utf8_chars input = Some cs" "chars input = cs"
    by (auto simp: chars_def split: option.splits)
  from permissions_loop_short [OF b(1) \<open>chars input \<noteq> []\<close> b(2)]
  obtain s where s: "chars input = map unat (lit s)" "(s, p) \<in> set parsed_permissions"
    by auto
  have "\<forall>c \<in> set cs. c < 0x80"
    using s cs by (auto simp: parsed_permissions_def lit_def)
  then have "cs = map unat input" by (rule utf8_chars_ascii_inv [OF cs(1)])
  with s cs have "input = lit s" by (metis map_unat_inj)
  with s show ?thesis by blast
qed

text \<open>The permission grammar. Parsing a permission text succeeds for exactly the five texts
  \<open>o\<close>, \<open>r\<close>, \<open>w\<close>, \<open>rw\<close> and \<open>wr\<close>, with the permission each one names; every other input
  (an unknown letter, a repeated one, an owner letter combined with another, the empty text) is
  an error.\<close>

theorem permissions_from_str_iff:
  "permissions_from_str input = Inr p
     \<longleftrightarrow> (\<exists>s. input = lit s \<and> (s, p) \<in> set parsed_permissions)"
  using permissions_from_str_parsed parsed_permissions_ok by blast

text \<open>\<open>as_str\<close> never reaches its \<open>unreachable!\<close> arm on a parsed permission, and the canonical
  text it prints parses back to the same permission.\<close>

theorem permissions_roundtrip:
  assumes "permissions_from_str input = Inr p"
  shows "\<exists>s. permissions_as_str p = Ok s \<and> permissions_from_str s = Inr p"
proof -
  obtain t where "(t, p) \<in> set parsed_permissions"
    using permissions_from_str_parsed [OF assms] by blast
  moreover have "\<forall>(t, p) \<in> set parsed_permissions. \<exists>s. permissions_as_str p = Ok (lit s)
      \<and> (s, p) \<in> set parsed_permissions"
    by (auto simp: parsed_permissions_def permissions_as_str_def perm_consts perm_defs)
  ultimately show ?thesis using parsed_permissions_ok by fastforce
qed

theorem permissions_roundtrip_witness:
  "\<exists>s. permissions_as_str read_write_perm = Ok s \<and> permissions_from_str s = Inr read_write_perm"
  by (rule permissions_roundtrip [OF parsed_permissions_ok [of "''wr''"]])
    (simp add: parsed_permissions_def)

section \<open>Link identifiers\<close>

datatype link_id = LinkId (link_id_str: rstr)

datatype link_id_error = LinkIdError

definition MAX_LINK_ID_LEN :: nat where "MAX_LINK_ID_LEN = 64"

definition is_segment :: "u8 \<Rightarrow> bool" where
  "is_segment b \<longleftrightarrow> is_ascii_lowercase b \<or> is_ascii_digit b"

text \<open>The checks run left to right and stop at the first that holds, so the indexing in the
  third and fourth happens on a nonempty text only.\<close>

definition link_id_from_str :: "rstr \<Rightarrow> link_id_error + link_id" where
  "link_id_from_str value =
     (if value = [] \<or> length value > MAX_LINK_ID_LEN
         \<or> \<not> is_segment (value ! 0)
         \<or> \<not> is_segment (value ! (length value - 1))
         \<or> \<not> list_all (\<lambda>b. is_segment b \<or> b = 45) value
      then Inl LinkIdError else Inr (LinkId value))"

section \<open>Link secrets\<close>

text \<open>\<open>dec text n\<close> stands for \<open>URL_SAFE_NO_PAD.decode_slice\<close> into a buffer of \<open>n\<close> bytes.\<close>

type_synonym base64_decoder = "rstr \<Rightarrow> nat \<Rightarrow> bytes option"

datatype link_secret = LinkSecret (expose_secret: rstr)

datatype link_secret_error = LinkSecretError

definition BASE64URL_24_ENCODED_LEN :: nat where [const_defs]: "BASE64URL_24_ENCODED_LEN = 32"
definition BASE64URL_32_ENCODED_LEN :: nat where [const_defs]: "BASE64URL_32_ENCODED_LEN = 43"

definition is_canonical_base64url_32 :: "base64_decoder \<Rightarrow> rstr \<Rightarrow> bool" where
  "is_canonical_base64url_32 dec value =
     (if length value \<noteq> BASE64URL_32_ENCODED_LEN then False else dec value 32 \<noteq> None)"

definition is_canonical_base64url_24 :: "base64_decoder \<Rightarrow> rstr \<Rightarrow> bool" where
  "is_canonical_base64url_24 dec value =
     (if length value \<noteq> BASE64URL_24_ENCODED_LEN then False else dec value 24 \<noteq> None)"

definition link_secret_from_str :: "base64_decoder \<Rightarrow> rstr \<Rightarrow> link_secret_error + link_secret" where
  "link_secret_from_str dec value =
     (if \<not> is_canonical_base64url_24 dec value then Inl LinkSecretError else Inr (LinkSecret value))"

text \<open>The secrets that exist: a \<open>str\<close> (hence valid UTF-8) that passed the parser.\<close>

definition valid_link_secret :: "base64_decoder \<Rightarrow> link_secret \<Rightarrow> bool" where
  "valid_link_secret dec s \<longleftrightarrow> utf8_chars (expose_secret s) \<noteq> None
     \<and> is_canonical_base64url_24 dec (expose_secret s)"

lemma link_secret_from_str_Inr:
  "link_secret_from_str dec v = Inr s \<longleftrightarrow> is_canonical_base64url_24 dec v \<and> s = LinkSecret v"
  by (auto simp: link_secret_from_str_def)

lemma valid_link_secret_parse:
  "valid_link_secret dec s \<Longrightarrow> link_secret_from_str dec (expose_secret s) = Inr s"
  by (simp add: valid_link_secret_def link_secret_from_str_Inr)

lemma valid_link_secret_length: "valid_link_secret dec s \<Longrightarrow> length (expose_secret s) = 32"
  by (simp add: valid_link_secret_def is_canonical_base64url_24_def BASE64URL_24_ENCODED_LEN_def
      split: if_splits)

section \<open>Writer identities\<close>

text \<open>Sixteen bytes each; \<open>from_bytes\<close> takes a \<open>[u8; 16]\<close>, so the length is part of the type.\<close>

definition WRITER_ID_BYTE_LEN :: nat where [const_defs]: "WRITER_ID_BYTE_LEN = 16"

datatype writer_id = WriterId (writer_id_bytes: bytes)
datatype client_writer_id = ClientWriterId (client_writer_id_bytes: bytes)

definition valid_writer_id :: "writer_id \<Rightarrow> bool" where
  "valid_writer_id w \<longleftrightarrow> length (writer_id_bytes w) = WRITER_ID_BYTE_LEN"

definition valid_client_writer_id :: "client_writer_id \<Rightarrow> bool" where
  "valid_client_writer_id w \<longleftrightarrow> length (client_writer_id_bytes w) = WRITER_ID_BYTE_LEN"

section \<open>Stream titles\<close>

datatype stream_title = StreamTitle (title_str: rstr)

datatype stream_title_error = TitleLength | SurroundingWhitespace | ForbiddenCharacter

definition MAX_STREAM_TITLE_CODE_POINTS :: nat where "MAX_STREAM_TITLE_CODE_POINTS = 120"

definition forbidden_title_char :: "nat \<Rightarrow> bool" where
  "forbidden_title_char c \<longleftrightarrow> is_control c \<or> c = 0x2028 \<or> c = 0x2029"

definition stream_title_from_str :: "rstr \<Rightarrow> stream_title_error + stream_title" where
  "stream_title_from_str input =
     (let len = length (chars input) in
      if \<not> (1 \<le> len \<and> len \<le> MAX_STREAM_TITLE_CODE_POINTS) then Inl TitleLength
      else if trim (chars input) \<noteq> chars input then Inl SurroundingWhitespace
      else if list_ex forbidden_title_char (chars input) then Inl ForbiddenCharacter
      else Inr (StreamTitle input))"

text \<open>A link ID parses exactly when it is 1 to 64 lowercase letters, digits or hyphens with no
  hyphen at either end, and the parsed value is the text itself.\<close>

theorem link_id_from_str_iff:
  "link_id_from_str v = Inr i
     \<longleftrightarrow> i = LinkId v \<and> v \<noteq> [] \<and> length v \<le> 64 \<and> hd v \<noteq> 45 \<and> last v \<noteq> 45
       \<and> set v \<subseteq> {b. 97 \<le> unat b \<and> unat b \<le> 122 \<or> 48 \<le> unat b \<and> unat b \<le> 57 \<or> b = 45}"
proof -
  define S where "S = {b :: u8. 97 \<le> unat b \<and> unat b \<le> 122 \<or> 48 \<le> unat b \<and> unat b \<le> 57 \<or> b = 45}"
  have seg: "is_segment b \<longleftrightarrow> b \<noteq> 45 \<and> b \<in> S" for b
    by (auto simp: S_def is_segment_def is_ascii_lowercase_def is_ascii_digit_def in_range_def)
  have "45 \<in> S" by (simp add: S_def)
  then have all: "list_all (\<lambda>b. is_segment b \<or> b = 45) v \<longleftrightarrow> set v \<subseteq> S"
    by (auto simp: list_all_iff seg)
  show ?thesis
  proof (cases "v = []")
    case False
    then have "v ! 0 = hd v" "v ! (length v - 1) = last v"
      and "set v \<subseteq> S \<Longrightarrow> hd v \<in> S \<and> last v \<in> S"
      by (simp_all add: hd_conv_nth last_conv_nth subset_iff)
    with False show ?thesis
      unfolding link_id_from_str_def MAX_LINK_ID_LEN_def all unfolding seg S_def [symmetric]
      by auto
  qed (simp add: link_id_from_str_def)
qed

text \<open>A stream title parses exactly when it has 1 to 120 code points, neither its first nor its
  last one is white space, and none of them is a control character or a line or paragraph
  separator.\<close>

theorem stream_title_from_str_iff:
  "stream_title_from_str s = Inr t
     \<longleftrightarrow> t = StreamTitle s \<and> 1 \<le> length (chars s) \<and> length (chars s) \<le> 120
       \<and> \<not> is_whitespace (hd (chars s)) \<and> \<not> is_whitespace (last (chars s))
       \<and> set (chars s) \<inter> ({c. is_control c} \<union> {0x2028, 0x2029}) = {}"
  by (auto simp: stream_title_from_str_def MAX_STREAM_TITLE_CODE_POINTS_def Let_def list_ex_iff
      forbidden_title_char_def trim_id_iff)

end
