(* ===== verification/Frames.thy ===== *)
theory Frames
  imports Identifiers
begin

text \<open>
  The types, limits and validators of \<open>rust/src/protocol/ws/frame.rs\<close>: part headers, physical
  records, read and append batches, the record splitter, and the cursors the decoders use
  (\<open>FrameDecoder\<close>, \<open>RecordBodyRanges\<close>). The \<open>bytes\<close> crate's \<open>Bytes\<close> is represented by the bytes
  it holds, so a zero-copy slice and its copy are the same value.
\<close>

section \<open>Limits\<close>

definition MAX_SAFE_INTEGER_U64 :: nat where [const_defs]: "MAX_SAFE_INTEGER_U64 = 2 ^ 53 - 1"
definition MAX_RECORD_PAYLOAD_BYTES :: nat where [const_defs]: "MAX_RECORD_PAYLOAD_BYTES = 512 * 1024"
definition MAX_APPEND_FRAME_RECORDS :: nat where [const_defs]: "MAX_APPEND_FRAME_RECORDS = 128"
definition MAX_READ_FRAME_RECORDS :: nat where [const_defs]: "MAX_READ_FRAME_RECORDS = 1000"
definition MAX_FRAME_PAYLOAD_BYTES :: nat where [const_defs]: "MAX_FRAME_PAYLOAD_BYTES = 1024 * 1024"
definition FRAME_OPERATION_LEN :: nat where [const_defs]: "FRAME_OPERATION_LEN = 1"
definition RECORD_LENGTH_LEN :: nat where [const_defs]: "RECORD_LENGTH_LEN = 4"
definition APPEND_RECORD_HEADER_LEN :: nat where [const_defs]: "APPEND_RECORD_HEADER_LEN = 8 + 4"
definition READ_RECORD_HEADER_LEN :: nat where
  [const_defs]: "READ_RECORD_HEADER_LEN = 8 + 8 + WRITER_ID_BYTE_LEN + 8 + 4"
definition MAX_ENCODED_FRAME_BYTES :: nat where
  [const_defs]: "MAX_ENCODED_FRAME_BYTES = FRAME_OPERATION_LEN
     + MAX_READ_FRAME_RECORDS * (RECORD_LENGTH_LEN + READ_RECORD_HEADER_LEN)
     + MAX_FRAME_PAYLOAD_BYTES"

section \<open>Errors\<close>

text \<open>\<open>InvalidUtf8\<close> drops the position that the standard library's error carries; \<open>'j\<close> is the JSON
  library's error.\<close>

datatype 'j frame_codec_error =
    EmptyFrame
  | UnknownOperation u8
  | UnknownOpenReadFlags u8
  | UnknownOpenWriteFlags u8
  | ExpectedNextSeqNumOutOfRange u64
  | InvalidLinkSecret
  | WriterSequenceExhausted
  | UnknownStreamKind u8
  | InvalidRecordLength
  | EmptyAppendBatch
  | InvalidBatchRecordCount nat nat
  | NonContiguousReadBatch
  | BatchPayloadTooLarge nat nat
  | TruncatedFrame u8 nat
  | TrailingBytes u8 nat
  | InvalidUtf8
  | InvalidStreamMetadata 'j
  | RecordTooLarge nat nat
  | PartIndexTooLarge u32

section \<open>Part headers\<close>

datatype part_header = PartHeader (raw: u32)

definition FINAL_BIT :: u32 where "FINAL_BIT = 0x80000000"
definition MAX_INDEX :: u32 where "MAX_INDEX = 0x7fffffff"

definition part_new :: "u32 \<Rightarrow> bool \<Rightarrow> 'j frame_codec_error + part_header" where
  "part_new index fin =
     (if index > MAX_INDEX then Inl (PartIndexTooLarge index)
      else Inr (PartHeader ((if fin then FINAL_BIT else 0) OR index)))"

definition unsplit :: part_header where "unsplit = PartHeader FINAL_BIT"

definition part_index :: "part_header \<Rightarrow> u32" where "part_index p = raw p AND MAX_INDEX"

definition is_final :: "part_header \<Rightarrow> bool" where "is_final p = (raw p AND FINAL_BIT \<noteq> 0)"

lemma max_index_mask: "MAX_INDEX = mask 31"
  by (simp add: MAX_INDEX_def mask_eq_exp_minus_1)

lemma final_bit_exp: "FINAL_BIT = push_bit 31 1"
  by (simp add: FINAL_BIT_def push_bit_eq_mult)

lemma part_index_le: "part_index p \<le> MAX_INDEX"
  unfolding part_index_def by (rule word_and_le1)

lemma le_max_index: "i \<le> MAX_INDEX \<longleftrightarrow> i AND MAX_INDEX = i"
proof
  assume "i \<le> MAX_INDEX"
  then have "unat i < 2 ^ 31" by (simp add: word_le_nat_alt MAX_INDEX_def)
  then have "unat (i AND MAX_INDEX) = unat i"
    by (simp add: max_index_mask flip: take_bit_eq_mask unsigned_take_bit_eq)
      (simp add: take_bit_nat_eq_self unsigned_take_bit_eq)
  then show "i AND MAX_INDEX = i" by (simp add: word_unat_eq_iff)
next
  assume "i AND MAX_INDEX = i"
  then show "i \<le> MAX_INDEX" by (metis word_and_le1)
qed

lemma final_and_max: "FINAL_BIT AND MAX_INDEX = 0" "MAX_INDEX AND FINAL_BIT = 0"
  by (simp_all add: FINAL_BIT_def MAX_INDEX_def)

lemma part_new_index: "part_new i b = Inr p \<Longrightarrow> part_index p = i"
  by (auto simp: part_new_def part_index_def bit.conj_disj_distrib2 final_and_max le_max_index
      not_less split: if_splits)

lemma part_new_final: "part_new i b = Inr p \<Longrightarrow> is_final p = b"
proof -
  assume p: "part_new i b = Inr p"
  then have "i AND MAX_INDEX = i" by (auto simp: part_new_def not_less le_max_index split: if_splits)
  then have "i AND FINAL_BIT = 0" by (metis and.assoc and.right_neutral and_zero_eq final_and_max(2))
  with p show ?thesis
    by (auto simp: part_new_def is_final_def bit.conj_disj_distrib2 FINAL_BIT_def split: if_splits)
qed

lemma part_new_ok: "i \<le> MAX_INDEX \<Longrightarrow> \<exists>p. part_new i b = Inr p"
  by (simp add: part_new_def not_less)

lemma unsplit_simps [simp]: "part_index unsplit = 0" "is_final unsplit"
  by (simp_all add: unsplit_def part_index_def is_final_def FINAL_BIT_def MAX_INDEX_def)

section \<open>Records and batches\<close>

text \<open>\<open>ReadRecord\<close> borrows its payload and \<open>OwnedReadRecord\<close> owns it; both hold the same values.\<close>

record read_record =
  rr_seq_num :: u64
  rr_timestamp_ms :: u64
  rr_writer_id :: writer_id
  rr_writer_seq_num :: u64
  rr_part :: part_header
  rr_data :: bytes

record record_meta =
  rm_seq_num :: u64
  rm_timestamp_ms :: u64
  rm_writer_id :: writer_id
  rm_writer_seq_num :: u64
  rm_part :: part_header
  rm_data_start :: u32
  rm_data_len :: u32

record read_batch =
  batch_payload :: bytes
  batch_metas :: "record_meta list"

record append_record =
  ar_writer_seq_num :: u64
  ar_part :: part_header
  ar_data :: bytes

record record_payload =
  rp_part :: part_header
  rp_data :: bytes

text \<open>An \<open>AppendBatch\<close> is its nonempty record list; the field is private to its constructors.\<close>

datatype append_batch = AppendBatch (batch_payloads: "record_payload list")

record caught_up_position =
  cu_next_seq_num :: u64
  cu_last_timestamp_ms :: u64

section \<open>Validators\<close>

definition validate_record_len :: "nat \<Rightarrow> 'j frame_codec_error + unit" where
  "validate_record_len len =
     (if len > MAX_RECORD_PAYLOAD_BYTES then Inl (RecordTooLarge len MAX_RECORD_PAYLOAD_BYTES) else Inr ())"

definition validate_writer_seq_num :: "u64 \<Rightarrow> 'j frame_codec_error + unit" where
  "validate_writer_seq_num v = (if v = - 1 then Inl WriterSequenceExhausted else Inr ())"

definition validate_expected_next_seq_num :: "u64 \<Rightarrow> 'j frame_codec_error + unit" where
  "validate_expected_next_seq_num v =
     (if unat v > MAX_SAFE_INTEGER_U64 then Inl (ExpectedNextSeqNumOutOfRange v) else Inr ())"

definition validate_batch_count :: "nat \<Rightarrow> nat \<Rightarrow> 'j frame_codec_error + unit" where
  "validate_batch_count record_count maximum_records =
     (if record_count = 0 \<or> record_count > maximum_records
      then Inl (InvalidBatchRecordCount record_count maximum_records) else Inr ())"

definition validate_batch :: "nat \<Rightarrow> nat \<Rightarrow> nat \<Rightarrow> 'j frame_codec_error + unit" where
  "validate_batch record_count payload_bytes maximum_records =
     and_then (validate_batch_count record_count maximum_records)
       (\<lambda>_. if payload_bytes > MAX_FRAME_PAYLOAD_BYTES
            then Inl (BatchPayloadTooLarge payload_bytes MAX_FRAME_PAYLOAD_BYTES) else Inr ())"

fun contiguous_loop :: "u64 option \<Rightarrow> u64 list \<Rightarrow> 'j frame_codec_error + unit" where
  "contiguous_loop previous [] = Inr ()"
| "contiguous_loop previous (seq_num # rest) =
     (if (case previous of None \<Rightarrow> False | Some p \<Rightarrow> checked_add p 1 \<noteq> Some seq_num)
      then Inl NonContiguousReadBatch else contiguous_loop (Some seq_num) rest)"

definition validate_sequence_contiguous :: "u64 list \<Rightarrow> 'j frame_codec_error + unit" where
  "validate_sequence_contiguous seq_nums = contiguous_loop None seq_nums"

lemma validate_record_len_Inr [simp]: "validate_record_len n = Inr u \<longleftrightarrow> n \<le> MAX_RECORD_PAYLOAD_BYTES"
  by (auto simp: validate_record_len_def)

lemma validate_writer_seq_num_Inr [simp]: "validate_writer_seq_num v = Inr u \<longleftrightarrow> v \<noteq> - 1"
  by (auto simp: validate_writer_seq_num_def)

lemma validate_expected_Inr [simp]:
  "validate_expected_next_seq_num v = Inr u \<longleftrightarrow> unat v \<le> MAX_SAFE_INTEGER_U64"
  by (auto simp: validate_expected_next_seq_num_def)

lemma validate_batch_count_Inr [simp]: "validate_batch_count n mx = Inr u \<longleftrightarrow> 0 < n \<and> n \<le> mx"
  by (auto simp: validate_batch_count_def)

lemma validate_batch_Inr [simp]:
  "validate_batch n b mx = Inr u \<longleftrightarrow> 0 < n \<and> n \<le> mx \<and> b \<le> MAX_FRAME_PAYLOAD_BYTES"
  by (auto simp: validate_batch_def and_then_eq_Inr)

text \<open>The sequence numbers are those of consecutive positions, with no wrap past \<open>u64::MAX\<close>.\<close>

definition contiguous :: "u64 list \<Rightarrow> bool" where
  "contiguous ss \<longleftrightarrow> (\<forall>i < length ss. unat (ss ! i) = unat (ss ! 0) + i)"

lemma contiguous_Nil [simp]: "contiguous []"
  by (simp add: contiguous_def)

lemma contiguous_Cons:
  "contiguous (s # ss) \<longleftrightarrow> (case ss of [] \<Rightarrow> True | t # _ \<Rightarrow> unat t = unat s + 1) \<and> contiguous ss"
proof (cases ss)
  case Nil
  then show ?thesis by (simp add: contiguous_def)
next
  case (Cons t ts)
  show ?thesis
  proof
    assume c: "contiguous (s # ss)"
    then have *: "unat ((s # ss) ! i) = unat s + i" if "i < Suc (length ss)" for i
      using that by (simp add: contiguous_def)
    from * [of 1] Cons have "unat t = unat s + 1" by simp
    moreover have "unat (ss ! i) = unat (ss ! 0) + i" if "i < length ss" for i
      using * [of "Suc i"] * [of 1] that Cons by simp
    ultimately show "(case ss of [] \<Rightarrow> True | t # _ \<Rightarrow> unat t = unat s + 1) \<and> contiguous ss"
      using Cons by (simp add: contiguous_def)
  next
    assume a: "(case ss of [] \<Rightarrow> True | t # _ \<Rightarrow> unat t = unat s + 1) \<and> contiguous ss"
    then have "unat ((s # ss) ! i) = unat s + i" if "i < Suc (length ss)" for i
      using that Cons by (cases i) (auto simp: contiguous_def)
    then show "contiguous (s # ss)" by (simp add: contiguous_def)
  qed
qed

lemma checked_add_one: "checked_add p 1 = Some (s :: u64) \<longleftrightarrow> unat s = unat p + 1"
proof
  assume "checked_add p 1 = Some s"
  then show "unat s = unat p + 1" by (drule_tac checked_add_Some) simp
next
  assume a: "unat s = unat p + 1"
  then have "unat p + 1 < 2 ^ 64" using unat_lt [of s] by simp
  then have "unat (p + 1) = unat p + 1" by (simp add: unat_word_ariths)
  with a have "s = p + 1" by (simp add: word_unat_eq_iff)
  with \<open>unat p + 1 < 2 ^ 64\<close> show "checked_add p 1 = Some s" by (simp add: checked_add_eq_Some)
qed

lemma contiguous_loop_Some:
  "contiguous_loop (Some p) ss = Inr u \<longleftrightarrow> contiguous (p # ss)"
  by (induction ss arbitrary: p) (auto simp: contiguous_Cons checked_add_one)

lemma validate_contiguous_Inr [simp]: "validate_sequence_contiguous ss = Inr u \<longleftrightarrow> contiguous ss"
  by (cases ss) (auto simp: validate_sequence_contiguous_def contiguous_loop_Some)

section \<open>Read batches\<close>

text \<open>\<open>ReadBatch::record\<close> slices the shared buffer, and slicing out of range panics.\<close>

definition meta_in_bounds :: "bytes \<Rightarrow> record_meta \<Rightarrow> bool" where
  "meta_in_bounds payload rm \<longleftrightarrow> unat (rm_data_start rm) + unat (rm_data_len rm) \<le> length payload"

definition meta_data :: "bytes \<Rightarrow> record_meta \<Rightarrow> bytes" where
  "meta_data payload rm = take (unat (rm_data_len rm)) (drop (unat (rm_data_start rm)) payload)"

definition meta_record :: "bytes \<Rightarrow> record_meta \<Rightarrow> read_record" where
  "meta_record payload rm = \<lparr>rr_seq_num = rm_seq_num rm, rr_timestamp_ms = rm_timestamp_ms rm,
     rr_writer_id = rm_writer_id rm, rr_writer_seq_num = rm_writer_seq_num rm, rr_part = rm_part rm,
     rr_data = meta_data payload rm\<rparr>"

definition batch_record :: "read_batch \<Rightarrow> record_meta \<Rightarrow> (unit, read_record) outcome" where
  "batch_record b rm =
     (if meta_in_bounds (batch_payload b) rm then Ok (meta_record (batch_payload b) rm) else Panic)"

definition record_count :: "read_batch \<Rightarrow> nat" where
  "record_count b = length (batch_metas b)"

definition batch_first :: "read_batch \<Rightarrow> (unit, read_record) outcome" where
  "batch_first b = (case batch_metas b of [] \<Rightarrow> Panic | rm # _ \<Rightarrow> batch_record b rm)"

definition batch_last :: "read_batch \<Rightarrow> (unit, read_record) outcome" where
  "batch_last b = (if batch_metas b = [] then Panic else batch_record b (last (batch_metas b)))"

text \<open>\<open>Iter\<close>: the batch and the records left; \<open>next\<close> takes the front one, \<open>next_back\<close> the last.\<close>

record batch_iter =
  it_batch :: read_batch
  it_records :: "record_meta list"

definition batch_iter :: "read_batch \<Rightarrow> batch_iter" where
  "batch_iter b = \<lparr>it_batch = b, it_records = batch_metas b\<rparr>"

definition iter_next :: "batch_iter \<Rightarrow> (unit, read_record) outcome option \<times> batch_iter" where
  "iter_next it = (case it_records it of
       [] \<Rightarrow> (None, it)
     | rm # rest \<Rightarrow> (Some (batch_record (it_batch it) rm), it\<lparr>it_records := rest\<rparr>))"

definition iter_next_back :: "batch_iter \<Rightarrow> (unit, read_record) outcome option \<times> batch_iter" where
  "iter_next_back it = (if it_records it = [] then (None, it)
     else (Some (batch_record (it_batch it) (last (it_records it))),
           it\<lparr>it_records := butlast (it_records it)\<rparr>))"

text \<open>The records of a batch whose layout is in bounds, as \<open>iter\<close> yields them.\<close>

definition batch_records :: "read_batch \<Rightarrow> read_record list" where
  "batch_records b = map (meta_record (batch_payload b)) (batch_metas b)"

text \<open>\<open>PartialEq\<close> compares the records, not the backing buffers.\<close>

definition batch_eq :: "read_batch \<Rightarrow> read_batch \<Rightarrow> bool" where
  "batch_eq a b \<longleftrightarrow> map (batch_record a) (batch_metas a) = map (batch_record b) (batch_metas b)"

text \<open>What every constructor establishes.\<close>

definition wf_read_batch :: "read_batch \<Rightarrow> bool" where
  "wf_read_batch b \<longleftrightarrow> 0 < record_count b \<and> record_count b \<le> MAX_READ_FRAME_RECORDS
     \<and> (\<forall>rm \<in> set (batch_metas b). meta_in_bounds (batch_payload b) rm
          \<and> unat (rm_data_len rm) \<le> MAX_RECORD_PAYLOAD_BYTES)
     \<and> sum_list (map (unat \<circ> rm_data_len) (batch_metas b)) \<le> MAX_FRAME_PAYLOAD_BYTES
     \<and> contiguous (map rm_seq_num (batch_metas b))"

fun check_record_lens :: "nat \<Rightarrow> read_record list \<Rightarrow> 'j frame_codec_error + nat" where
  "check_record_lens payload_bytes [] = Inr payload_bytes"
| "check_record_lens payload_bytes (r # rs) =
     and_then (validate_record_len (length (rr_data r)))
       (\<lambda>_. check_record_lens (sat_add payload_bytes (length (rr_data r))) rs)"

fun push_metas :: "bytes \<Rightarrow> record_meta list \<Rightarrow> read_record list \<Rightarrow> bytes \<times> record_meta list" where
  "push_metas payload metas [] = (payload, metas)"
| "push_metas payload metas (r # rs) =
     push_metas (payload @ rr_data r)
       (metas @ [\<lparr>rm_seq_num = rr_seq_num r, rm_timestamp_ms = rr_timestamp_ms r,
          rm_writer_id = rr_writer_id r, rm_writer_seq_num = rr_writer_seq_num r,
          rm_part = rr_part r, rm_data_start = of_nat (length payload),
          rm_data_len = of_nat (length (rr_data r))\<rparr>]) rs"

definition from_parts :: "bytes \<Rightarrow> record_meta list \<Rightarrow> read_batch" where
  "from_parts payload records = \<lparr>batch_payload = payload, batch_metas = records\<rparr>"

definition try_from_records :: "read_record list \<Rightarrow> 'j frame_codec_error + read_batch" where
  "try_from_records records =
     and_then (validate_batch_count (length records) MAX_READ_FRAME_RECORDS) (\<lambda>_.
     and_then (check_record_lens 0 records) (\<lambda>payload_bytes.
     and_then (validate_batch (length records) payload_bytes MAX_READ_FRAME_RECORDS) (\<lambda>_.
     and_then (validate_sequence_contiguous (map rr_seq_num records)) (\<lambda>_.
     Inr (case push_metas [] [] records of (payload, metas) \<Rightarrow> from_parts payload metas)))))"

fun check_metas :: "nat \<Rightarrow> nat \<Rightarrow> record_meta list \<Rightarrow> 'j frame_codec_error + nat" where
  "check_metas payload_len payload_bytes [] = Inr payload_bytes"
| "check_metas payload_len payload_bytes (r # rs) =
     and_then (validate_record_len (unat (rm_data_len r))) (\<lambda>_.
       if unat (rm_data_start r) + unat (rm_data_len r) > payload_len then Inl InvalidRecordLength
       else check_metas payload_len (sat_add payload_bytes (unat (rm_data_len r))) rs)"

definition try_from_parts :: "bytes \<Rightarrow> record_meta list \<Rightarrow> 'j frame_codec_error + read_batch" where
  "try_from_parts payload records =
     and_then (validate_batch_count (length records) MAX_READ_FRAME_RECORDS) (\<lambda>_.
     and_then (check_metas (length payload) 0 records) (\<lambda>payload_bytes.
     and_then (validate_batch (length records) payload_bytes MAX_READ_FRAME_RECORDS) (\<lambda>_.
     and_then (validate_sequence_contiguous (map rm_seq_num records)) (\<lambda>_.
     Inr (from_parts payload records)))))"

lemma batch_eq_refl [simp]: "batch_eq b b"
  by (simp add: batch_eq_def)

lemma batch_eq_wf:
  "wf_read_batch a \<Longrightarrow> wf_read_batch b \<Longrightarrow> batch_eq a b \<longleftrightarrow> batch_records a = batch_records b"
proof -
  have ok: "map (batch_record c) (batch_metas c) = map Ok (batch_records c)" if "wf_read_batch c" for c
    using that by (auto simp: wf_read_batch_def batch_record_def batch_records_def)
  assume "wf_read_batch a" "wf_read_batch b"
  then show ?thesis
    unfolding batch_eq_def by (simp add: ok inj_map_eq_map inj_def)
qed

lemma batch_records_simps:
  "length (batch_records b) = record_count b"
  "map rr_seq_num (batch_records b) = map rm_seq_num (batch_metas b)"
  by (simp_all add: batch_records_def record_count_def meta_record_def)

text \<open>The bounds a delivered batch obeys, over the records it delivers.\<close>

definition bounded_records :: "read_record list \<Rightarrow> bool" where
  "bounded_records rs \<longleftrightarrow> 0 < length rs \<and> length rs \<le> MAX_READ_FRAME_RECORDS
     \<and> (\<forall>r \<in> set rs. length (rr_data r) \<le> MAX_RECORD_PAYLOAD_BYTES)
     \<and> sum_list (map (length \<circ> rr_data) rs) \<le> MAX_FRAME_PAYLOAD_BYTES
     \<and> contiguous (map rr_seq_num rs)"

lemma frame_payload_lt: "MAX_FRAME_PAYLOAD_BYTES < usize_max" "MAX_FRAME_PAYLOAD_BYTES < 2 ^ 32"
  by (simp_all add: const_defs)

lemma check_record_lens_Inr:
  assumes "p \<le> usize_max"
  shows "check_record_lens p rs = Inr t \<longleftrightarrow> (\<forall>r \<in> set rs. length (rr_data r) \<le> MAX_RECORD_PAYLOAD_BYTES)
     \<and> t = min (p + sum_list (map (length \<circ> rr_data) rs)) usize_max"
  using assms
proof (induction rs arbitrary: p)
  case Nil
  then show ?case by auto
next
  case (Cons r rs)
  have "sat_add p (length (rr_data r)) \<le> usize_max" by (simp add: sat_add_def)
  from Cons.IH [OF this] show ?case
    by (auto simp: and_then_eq_Inr sat_add_def min_def)
qed

lemma check_metas_Inr:
  assumes "p \<le> usize_max"
  shows "check_metas n p rs = Inr t \<longleftrightarrow>
     (\<forall>r \<in> set rs. unat (rm_data_len r) \<le> MAX_RECORD_PAYLOAD_BYTES
        \<and> unat (rm_data_start r) + unat (rm_data_len r) \<le> n)
     \<and> t = min (p + sum_list (map (unat \<circ> rm_data_len) rs)) usize_max"
  using assms
proof (induction rs arbitrary: p)
  case Nil
  then show ?case by auto
next
  case (Cons r rs)
  have "sat_add p (unat (rm_data_len r)) \<le> usize_max" by (simp add: sat_add_def)
  from Cons.IH [OF this] show ?case
    by (auto simp: and_then_eq_Inr sat_add_def min_def)
qed

lemma meta_record_append:
  "meta_in_bounds p rm \<Longrightarrow> meta_record (p @ q) rm = meta_record p rm"
  "meta_in_bounds p rm \<Longrightarrow> meta_in_bounds (p @ q) rm"
  by (simp_all add: meta_record_def meta_in_bounds_def meta_data_def)

lemma push_metas_spec:
  assumes "push_metas p ms rs = (p', ms')"
    and "length p + sum_list (map (length \<circ> rr_data) rs) < 2 ^ 32"
    and "\<forall>rm \<in> set ms. meta_in_bounds p rm"
  shows "(\<forall>rm \<in> set ms'. meta_in_bounds p' rm)
     \<and> map (meta_record p') ms' = map (meta_record p) ms @ rs"
  using assms
proof (induction rs arbitrary: p ms)
  case Nil
  then show ?case by simp
next
  case (Cons r rs)
  let ?rm = "\<lparr>rm_seq_num = rr_seq_num r, rm_timestamp_ms = rr_timestamp_ms r,
          rm_writer_id = rr_writer_id r, rm_writer_seq_num = rr_writer_seq_num r,
          rm_part = rr_part r, rm_data_start = of_nat (length p),
          rm_data_len = of_nat (length (rr_data r))\<rparr>"
  have n: "unat (of_nat (length p) :: u32) = length p"
    "unat (of_nat (length (rr_data r)) :: u32) = length (rr_data r)"
    using Cons.prems(2) by (simp_all add: unat_of_nat)
  have rm: "meta_in_bounds (p @ rr_data r) ?rm" "meta_record (p @ rr_data r) ?rm = r"
    by (simp_all add: meta_in_bounds_def meta_record_def meta_data_def n)
  have "map (meta_record p') ms' = map (meta_record (p @ rr_data r)) (ms @ [?rm]) @ rs
      \<and> (\<forall>rm \<in> set ms'. meta_in_bounds p' rm)"
    using Cons.IH [of "p @ rr_data r" "ms @ [?rm]"] Cons.prems rm
    by (auto simp: meta_record_append algebra_simps)
  moreover have "map (meta_record (p @ rr_data r)) ms = map (meta_record p) ms"
    using Cons.prems(3) by (simp add: meta_record_append)
  ultimately show ?case using rm by simp
qed

lemma wf_batch_of_records:
  assumes "\<forall>rm \<in> set (batch_metas b). meta_in_bounds (batch_payload b) rm"
  shows "wf_read_batch b \<longleftrightarrow> bounded_records (batch_records b)"
proof -
  have len: "length (meta_data (batch_payload b) rm) = unat (rm_data_len rm)"
    if "rm \<in> set (batch_metas b)" for rm
    using assms that by (auto simp: meta_data_def meta_in_bounds_def)
  then have "sum_list (map (length \<circ> rr_data) (batch_records b))
      = sum_list (map (unat \<circ> rm_data_len) (batch_metas b))"
    by (auto simp: batch_records_def meta_record_def o_def intro!: arg_cong [of _ _ sum_list])
  moreover have "(\<forall>r \<in> set (batch_records b). length (rr_data r) \<le> MAX_RECORD_PAYLOAD_BYTES)
      \<longleftrightarrow> (\<forall>rm \<in> set (batch_metas b). unat (rm_data_len rm) \<le> MAX_RECORD_PAYLOAD_BYTES)"
    using len by (auto simp: batch_records_def meta_record_def)
  moreover note batch_records_simps [of b]
  ultimately show ?thesis
    using assms unfolding wf_read_batch_def bounded_records_def by auto
qed

lemma try_from_records_Inr:
  "try_from_records rs = Inr b \<longleftrightarrow> bounded_records rs
     \<and> b = (case push_metas [] [] rs of (payload, metas) \<Rightarrow> from_parts payload metas)"
  using frame_payload_lt
  by (auto simp: try_from_records_def and_then_eq_Inr check_record_lens_Inr bounded_records_def)

lemma try_from_records_batch:
  assumes "try_from_records rs = Inr b"
  shows "wf_read_batch b \<and> batch_records b = rs"
proof -
  obtain p ms where pm: "push_metas [] [] rs = (p, ms)" by force
  with assms have b: "bounded_records rs" "b = from_parts p ms"
    by (auto simp: try_from_records_Inr)
  have "sum_list (map (length \<circ> rr_data) rs) < 2 ^ 32"
    using b(1) frame_payload_lt by (auto simp: bounded_records_def)
  with push_metas_spec [OF pm] have "\<forall>rm \<in> set ms. meta_in_bounds p rm" "map (meta_record p) ms = rs"
    by simp_all
  with b show ?thesis
    by (simp add: wf_batch_of_records batch_records_def from_parts_def)
qed

lemma try_from_parts_Inr:
  "try_from_parts p ms = Inr b \<longleftrightarrow> wf_read_batch (from_parts p ms) \<and> b = from_parts p ms"
  using frame_payload_lt
  by (auto simp: try_from_parts_def and_then_eq_Inr check_metas_Inr wf_read_batch_def from_parts_def
      record_count_def meta_in_bounds_def)

text \<open>Building a read batch from owned records succeeds exactly when there are 1 to 1000 of them,
  none is over 512 KiB, together they are at most 1 MiB and their sequence numbers are
  consecutive; the batch then upholds the bounded-batch invariant (every payload range lies in
  the shared buffer) and delivers exactly the records it was given.\<close>

theorem try_from_records_spec:
  "case (try_from_records rs :: 'a frame_codec_error + read_batch) of
     Inr b \<Rightarrow> bounded_records rs \<and> wf_read_batch b \<and> batch_records b = rs
   | Inl _ \<Rightarrow> \<not> bounded_records rs"
proof (cases "try_from_records rs :: 'a frame_codec_error + read_batch")
  case (Inl e)
  then show ?thesis using try_from_records_Inr [of rs, where 'a = 'a] by auto
next
  case (Inr b)
  then show ?thesis
    using iffD1 [OF try_from_records_Inr Inr] try_from_records_batch [OF Inr] by simp
qed

text \<open>The checked constructor for prepared layouts accepts a payload buffer and record metadata
  exactly when the batch they form is well formed, so no record it hands out can be sliced out
  of the buffer's range.\<close>

theorem try_from_parts_spec:
  "case (try_from_parts p ms :: 'a frame_codec_error + read_batch) of
     Inr b \<Rightarrow> b = from_parts p ms \<and> wf_read_batch b
       \<and> map (batch_record b) (batch_metas b) = map Ok (batch_records b)
   | Inl _ \<Rightarrow> \<not> wf_read_batch (from_parts p ms)"
proof -
  have *: "map (batch_record b) (batch_metas b) = map Ok (batch_records b)" if "wf_read_batch b" for b
    using that by (auto simp: wf_read_batch_def batch_record_def batch_records_def)
  show ?thesis
  proof (cases "try_from_parts p ms :: 'a frame_codec_error + read_batch")
    case (Inl e)
    then show ?thesis using try_from_parts_Inr [of p ms, where 'a = 'a] by auto
  next
    case (Inr b)
    then show ?thesis using iffD1 [OF try_from_parts_Inr Inr] * [of b] by simp
  qed
qed

section \<open>Splitting a logical record\<close>

definition div_ceil :: "nat \<Rightarrow> nat \<Rightarrow> nat" where
  "div_ceil a b = (if a mod b > 0 then a div b + 1 else a div b)"

definition split_part :: "bytes \<Rightarrow> nat \<Rightarrow> nat \<Rightarrow> 'j frame_codec_error + record_payload" where
  "split_part data part_count index =
     (let start = index * MAX_RECORD_PAYLOAD_BYTES;
          stop = min (length data) (start + MAX_RECORD_PAYLOAD_BYTES) in
      and_then (part_new (of_nat index) (index = part_count - 1)) (\<lambda>part.
      Inr \<lparr>rp_part = part, rp_data = take (stop - start) (drop start data)\<rparr>))"

definition split_record_payloads :: "bytes \<Rightarrow> 'j frame_codec_error + record_payload list" where
  "split_record_payloads data =
     (let part_count = max (div_ceil (length data) MAX_RECORD_PAYLOAD_BYTES) 1 in
      if part_count > unat MAX_INDEX + 1
      then Inl (PartIndexTooLarge (if part_count - 1 < 2 ^ 32 then of_nat (part_count - 1) else - 1))
      else if part_count = 1 then Inr [\<lparr>rp_part = unsplit, rp_data = data\<rparr>]
      else map_result (split_part data part_count) [0..<part_count])"

fun check_payload_lens :: "record_payload list \<Rightarrow> 'j frame_codec_error + unit" where
  "check_payload_lens [] = Inr ()"
| "check_payload_lens (r # rs) =
     and_then (validate_record_len (length (rp_data r))) (\<lambda>_. check_payload_lens rs)"

definition append_batch_from_records :: "record_payload list \<Rightarrow> 'j frame_codec_error + append_batch" where
  "append_batch_from_records records =
     (if records = [] then Inl EmptyAppendBatch
      else and_then (check_payload_lens records) (\<lambda>_. Inr (AppendBatch records)))"

definition append_batch_single :: "part_header \<Rightarrow> bytes \<Rightarrow> 'j frame_codec_error + append_batch" where
  "append_batch_single part data = append_batch_from_records [\<lparr>rp_part = part, rp_data = data\<rparr>]"

definition split_logical :: "bytes \<Rightarrow> 'j frame_codec_error + append_batch" where
  "split_logical data = and_then (split_record_payloads data) append_batch_from_records"

definition wf_append_batch :: "append_batch \<Rightarrow> bool" where
  "wf_append_batch b \<longleftrightarrow> batch_payloads b \<noteq> []
     \<and> (\<forall>r \<in> set (batch_payloads b). length (rp_data r) \<le> MAX_RECORD_PAYLOAD_BYTES)"

lemma check_payload_lens_Inr:
  "check_payload_lens rs = Inr u \<longleftrightarrow> (\<forall>r \<in> set rs. length (rp_data r) \<le> MAX_RECORD_PAYLOAD_BYTES)"
  by (induction rs) (auto simp: and_then_eq_Inr)

lemma append_batch_from_records_Inr:
  "append_batch_from_records rs = Inr b \<longleftrightarrow> b = AppendBatch rs \<and> wf_append_batch b"
  by (auto simp: append_batch_from_records_def and_then_eq_Inr check_payload_lens_Inr wf_append_batch_def)

text \<open>What a logical reader expects of the physical parts of one logical record.\<close>

definition split_of :: "bytes \<Rightarrow> record_payload list \<Rightarrow> bool" where
  "split_of data rs \<longleftrightarrow> rs \<noteq> [] \<and> concat (map rp_data rs) = data
     \<and> (\<forall>i < length rs. unat (part_index (rp_part (rs ! i))) = i
          \<and> is_final (rp_part (rs ! i)) = (i = length rs - 1)
          \<and> length (rp_data (rs ! i)) \<le> MAX_RECORD_PAYLOAD_BYTES
          \<and> (1 < length rs \<longrightarrow> rp_data (rs ! i) \<noteq> []))"

lemma div_ceil_le: "0 < b \<Longrightarrow> a \<le> div_ceil a b * b"
proof -
  assume "0 < b"
  then have "a mod b < b" by simp
  moreover have "a = a div b * b + a mod b" by simp
  ultimately show ?thesis unfolding div_ceil_def by (simp only: add_mult_distrib split: if_splits) linarith
qed

lemma div_ceil_less: "0 < b \<Longrightarrow> i < div_ceil a b \<Longrightarrow> i * b < a"
proof -
  assume "0 < b" and i: "i < div_ceil a b"
  have a: "a = a div b * b + a mod b" by simp
  show "i * b < a"
  proof (cases "a mod b > 0")
    case True
    with i have "i \<le> a div b" by (simp add: div_ceil_def)
    then have "i * b \<le> a div b * b" by (rule mult_le_mono1)
    with a True show ?thesis by linarith
  next
    case False
    with i have "i < a div b" by (simp add: div_ceil_def)
    then have "i * b < a div b * b" using \<open>0 < b\<close> by simp
    with a show ?thesis by linarith
  qed
qed

lemma concat_chunks:
  "concat (map (\<lambda>i. take m (drop (i * m) xs)) [0..<n]) = take (n * m) xs"
  by (induction n) (simp_all add: take_add [symmetric] add.commute)

abbreviation part_payload :: "bytes \<Rightarrow> nat \<Rightarrow> bytes" where
  "part_payload data i \<equiv> take MAX_RECORD_PAYLOAD_BYTES (drop (i * MAX_RECORD_PAYLOAD_BYTES) data)"

lemma split_part_ok:
  assumes "i < n" "n \<le> unat MAX_INDEX + 1" "i * MAX_RECORD_PAYLOAD_BYTES \<le> length data"
  shows "\<exists>rp. (split_part data n i :: 'j frame_codec_error + record_payload) = Inr rp \<and> unat (part_index (rp_part rp)) = i
    \<and> is_final (rp_part rp) = (i = n - 1) \<and> rp_data rp = part_payload data i"
proof -
  have i: "unat (of_nat i :: u32) = i" "(of_nat i :: u32) \<le> MAX_INDEX"
    using assms(1,2) by (simp_all add: unat_of_nat word_le_nat_alt MAX_INDEX_def)
  obtain part where part: "part_new (of_nat i) (i = n - 1) = (Inr part :: 'j frame_codec_error + part_header)"
    using part_new_ok [OF i(2)] by blast
  have "take (min (length data) (i * MAX_RECORD_PAYLOAD_BYTES + MAX_RECORD_PAYLOAD_BYTES)
      - i * MAX_RECORD_PAYLOAD_BYTES) (drop (i * MAX_RECORD_PAYLOAD_BYTES) data) = part_payload data i"
    using assms(3) by (simp add: min_def)
  with part i part_new_index [OF part] part_new_final [OF part] show ?thesis
    by (simp add: split_part_def Let_def)
qed

lemma split_of_parts:
  assumes n: "n = div_ceil (length data) MAX_RECORD_PAYLOAD_BYTES" "1 < n" "n \<le> unat MAX_INDEX + 1"
  shows "\<exists>rs. (map_result (split_part data n) [0..<n] :: 'j frame_codec_error + record_payload list) = Inr rs \<and> split_of data rs"
proof -
  have pos: "0 < MAX_RECORD_PAYLOAD_BYTES" by (simp add: const_defs)
  have lt: "i * MAX_RECORD_PAYLOAD_BYTES < length data" if "i < n" for i
    using div_ceil_less [OF pos] that n(1) by simp
  have "\<exists>rp. (split_part data n i :: 'j frame_codec_error + record_payload) = Inr rp
      \<and> unat (part_index (rp_part rp)) = i
      \<and> is_final (rp_part rp) = (i = n - 1) \<and> rp_data rp = part_payload data i" if "i < n" for i
    by (rule split_part_ok [OF that n(3) less_imp_le [OF lt [OF that]]])
  then obtain g where g: "\<And>i. i < n \<Longrightarrow> split_part data n i = (Inr (g i) :: 'j frame_codec_error + record_payload) \<and> unat (part_index (rp_part (g i))) = i
      \<and> is_final (rp_part (g i)) = (i = n - 1) \<and> rp_data (g i) = part_payload data i"
    by metis
  have "map_result (split_part data n) [0..<n]
      = (Inr (map g [0..<n]) :: 'j frame_codec_error + record_payload list)"
    by (rule map_result_map) (simp add: g)
  moreover have "concat (map rp_data (map g [0..<n])) = concat (map (part_payload data) [0..<n])"
    by (auto simp: g intro!: arg_cong [of _ _ concat])
  moreover have "concat (map (part_payload data) [0..<n]) = data"
    using div_ceil_le [OF pos, of "length data"] n(1) by (simp add: concat_chunks)
  moreover have "part_payload data i \<noteq> []" if "i < n" for i
    using lt [OF that] pos by simp
  ultimately have "split_of data (map g [0..<n])"
    unfolding split_of_def using g n(2) by simp
  with \<open>map_result (split_part data n) [0..<n] = _\<close> show ?thesis by blast
qed

lemma split_record_payloads_cases:
  "(\<exists>rs. split_record_payloads data = (Inr rs :: 'j frame_codec_error + record_payload list) \<and> split_of data rs)
   \<or> (\<exists>i. split_record_payloads data = (Inl (PartIndexTooLarge i) :: 'j frame_codec_error + record_payload list)
        \<and> length data > 2 ^ 31 * MAX_RECORD_PAYLOAD_BYTES)"
proof -
  let ?n = "div_ceil (length data) MAX_RECORD_PAYLOAD_BYTES"
  have pos: "0 < MAX_RECORD_PAYLOAD_BYTES" by (simp add: const_defs)
  consider "?n \<le> 1" | "1 < ?n" "?n \<le> unat MAX_INDEX + 1" | "?n > unat MAX_INDEX + 1" by linarith
  then show ?thesis
  proof cases
    case 1
    have "length data \<le> ?n * MAX_RECORD_PAYLOAD_BYTES" by (rule div_ceil_le [OF pos])
    also have "\<dots> \<le> 1 * MAX_RECORD_PAYLOAD_BYTES" using 1 by (rule mult_le_mono1)
    finally have "split_of data [\<lparr>rp_part = unsplit, rp_data = data\<rparr>]" by (simp add: split_of_def)
    moreover have "max ?n 1 = 1" using 1 by simp
    ultimately show ?thesis
      unfolding split_record_payloads_def Let_def by simp
  next
    case 2
    obtain rs where "map_result (split_part data ?n) [0..<?n]
        = (Inr rs :: 'j frame_codec_error + record_payload list)" "split_of data rs"
      using split_of_parts [OF refl 2] by blast
    moreover have "max ?n 1 = ?n" using 2 by simp
    ultimately show ?thesis
      using 2 unfolding split_record_payloads_def Let_def by simp
  next
    case 3
    then have "2 ^ 31 < ?n" by (simp add: MAX_INDEX_def)
    then have "length data > 2 ^ 31 * MAX_RECORD_PAYLOAD_BYTES" by (rule div_ceil_less [OF pos])
    moreover have "max ?n 1 = ?n" using 3 by simp
    ultimately show ?thesis using 3 unfolding split_record_payloads_def Let_def by simp
  qed
qed

lemma split_of_wf: "split_of data rs \<Longrightarrow> wf_append_batch (AppendBatch rs)"
  by (auto simp: split_of_def wf_append_batch_def in_set_conv_nth)

text \<open>Splitting one logical record. Any payload of at most \<open>2^31\<close> parts is split into a valid
  append batch whose parts, in order, concatenate to the payload, are numbered 0, 1, 2 and so on,
  are each at most 512 KiB, nonempty when there are several, and with the final bit on the last
  one only; a longer payload is the only one refused.\<close>

theorem split_logical_spec:
  "case (split_logical data :: 'a frame_codec_error + append_batch) of
     Inr b \<Rightarrow> split_of data (batch_payloads b) \<and> wf_append_batch b
   | Inl e \<Rightarrow> (\<exists>i. e = PartIndexTooLarge i) \<and> length data > 2 ^ 31 * MAX_RECORD_PAYLOAD_BYTES"
proof -
  consider rs where "split_record_payloads data = (Inr rs :: 'a frame_codec_error + record_payload list)"
      "split_of data rs"
    | i where "split_record_payloads data
        = (Inl (PartIndexTooLarge i) :: 'a frame_codec_error + record_payload list)"
      "length data > 2 ^ 31 * MAX_RECORD_PAYLOAD_BYTES"
    using split_record_payloads_cases [of data] by blast
  then show ?thesis
  proof cases
    case 1
    then have "append_batch_from_records rs = (Inr (AppendBatch rs) :: 'a frame_codec_error + append_batch)"
      by (simp add: append_batch_from_records_Inr split_of_wf)
    with 1 show ?thesis by (simp add: split_logical_def split_of_wf)
  next
    case 2
    then show ?thesis by (simp add: split_logical_def)
  qed
qed

section \<open>Decoding cursors\<close>

record frame_decoder =
  fd_op :: u8
  remaining :: bytes

definition frame_decoder_new :: "u8 \<Rightarrow> bytes \<Rightarrow> frame_decoder" where
  "frame_decoder_new op body = \<lparr>fd_op = op, remaining = body\<rparr>"

text \<open>\<open>take\<close> returns the field and the decoder past it. Its \<open>expect\<close> converts a slice of exactly
  \<open>n\<close> bytes to an array of \<open>n\<close> bytes, which cannot fail.\<close>

definition fd_take :: "nat \<Rightarrow> frame_decoder \<Rightarrow> 'j frame_codec_error + bytes \<times> frame_decoder" where
  "fd_take n d =
     (if n \<le> length (remaining d)
      then Inr (take n (remaining d), d\<lparr>remaining := drop n (remaining d)\<rparr>)
      else Inl (TruncatedFrame (fd_op d) (n - length (remaining d))))"

definition fd_byte :: "frame_decoder \<Rightarrow> 'j frame_codec_error + u8 \<times> frame_decoder" where
  "fd_byte d = and_then (fd_take 1 d) (\<lambda>(bs, d). Inr (bs ! 0, d))"

definition fd_u32 :: "frame_decoder \<Rightarrow> 'j frame_codec_error + u32 \<times> frame_decoder" where
  "fd_u32 d = and_then (fd_take 4 d) (\<lambda>(bs, d). Inr (un_be32 bs, d))"

definition fd_u64 :: "frame_decoder \<Rightarrow> 'j frame_codec_error + u64 \<times> frame_decoder" where
  "fd_u64 d = and_then (fd_take 8 d) (\<lambda>(bs, d). Inr (un_be64 bs, d))"

definition fd_finish :: "frame_decoder \<Rightarrow> 'j frame_codec_error + unit" where
  "fd_finish d =
     (if remaining d = [] then Inr () else Inl (TrailingBytes (fd_op d) (length (remaining d))))"

text \<open>Reading a field that was written at the front, and what a successful read says of the input.\<close>

abbreviation decoder_at :: "u8 \<Rightarrow> bytes \<Rightarrow> frame_decoder" where
  "decoder_at op bs \<equiv> \<lparr>fd_op = op, remaining = bs\<rparr>"

lemma fd_take_append [simp]:
  "length xs = n \<Longrightarrow> fd_take n (decoder_at op (xs @ ys)) = Inr (xs, decoder_at op ys)"
  by (simp add: fd_take_def)

lemma fd_reads [simp]:
  "fd_byte (decoder_at op (b # ys)) = Inr (b, decoder_at op ys)"
  "fd_u32 (decoder_at op (be32 w @ ys)) = Inr (w, decoder_at op ys)"
  "fd_u64 (decoder_at op (be64 v @ ys)) = Inr (v, decoder_at op ys)"
  "fd_u64 (decoder_at op (be64 v)) = Inr (v, decoder_at op [])"
  unfolding fd_byte_def fd_u32_def fd_u64_def by (simp_all add: fd_take_def)

lemma fd_take_Inr:
  "fd_take n d = Inr (bs, d') \<longleftrightarrow> length bs = n \<and> remaining d = bs @ remaining d' \<and> fd_op d' = fd_op d"
  by (cases d; cases d') (auto simp: fd_take_def)

lemma fd_byte_Inr: "fd_byte d = Inr (b, d') \<longleftrightarrow> remaining d = b # remaining d' \<and> fd_op d' = fd_op d"
  by (auto simp: fd_byte_def and_then_eq_Inr fd_take_Inr length_Suc_conv split: prod.splits
      intro!: exI [of _ "[b]"])

lemma fd_u32_Inr:
  "fd_u32 d = Inr (w, d') \<longleftrightarrow> remaining d = be32 w @ remaining d' \<and> fd_op d' = fd_op d"
  by (auto simp: fd_u32_def and_then_eq_Inr fd_take_Inr split: prod.splits intro!: exI [of _ "be32 w"])

lemma fd_u64_Inr:
  "fd_u64 d = Inr (w, d') \<longleftrightarrow> remaining d = be64 w @ remaining d' \<and> fd_op d' = fd_op d"
  by (auto simp: fd_u64_def and_then_eq_Inr fd_take_Inr split: prod.splits intro!: exI [of _ "be64 w"])

lemma fd_finish_Inr [simp]: "fd_finish d = Inr u \<longleftrightarrow> remaining d = []"
  by (simp add: fd_finish_def)

lemma frame_decoder_new_simps [simp]:
  "frame_decoder_new op body = decoder_at op body"
  by (simp add: frame_decoder_new_def)

lemmas fd_Inr = fd_take_Inr fd_byte_Inr fd_u32_Inr fd_u64_Inr

text \<open>\<open>RecordBodyRanges\<close>: the iterator over length-prefixed bodies.\<close>

record body_ranges =
  br_input :: bytes
  br_offset :: nat
  br_count :: nat
  br_maximum :: nat

definition record_body_ranges :: "bytes \<Rightarrow> nat \<Rightarrow> body_ranges" where
  "record_body_ranges input maximum_records =
     \<lparr>br_input = input, br_offset = 1, br_count = 0, br_maximum = maximum_records\<rparr>"

text \<open>\<open>advance\<close> changes the iterator also on the way to an error; \<open>input[0]\<close> is read when the
  offset is inside the input only, so it exists.\<close>

definition br_advance :: "body_ranges \<Rightarrow> ('j frame_codec_error + nat \<times> nat) \<times> body_ranges" where
  "br_advance r =
     (if br_count r = br_maximum r
      then (Inl (InvalidBatchRecordCount (br_maximum r + 1) (br_maximum r)), r)
      else case fd_u32 (frame_decoder_new (br_input r ! 0) (drop (br_offset r) (br_input r))) of
          Inl e \<Rightarrow> (Inl e, r)
        | Inr (len, _) \<Rightarrow>
            let r = r\<lparr>br_offset := br_offset r + 4\<rparr>;
                len = unat len in
            (case usize_checked_add (br_offset r) len of
               None \<Rightarrow> (Inl InvalidRecordLength, r)
             | Some stop \<Rightarrow>
                 if \<not> stop \<le> length (br_input r) then (Inl InvalidRecordLength, r)
                 else if len = 0 then (Inl InvalidRecordLength, r)
                 else (Inr (br_offset r, stop), r\<lparr>br_offset := stop, br_count := br_count r + 1\<rparr>)))"

definition br_next :: "body_ranges \<Rightarrow> ('j frame_codec_error + nat \<times> nat) option \<times> body_ranges" where
  "br_next r =
     (if br_offset r \<ge> length (br_input r) then (None, r)
      else case br_advance r of
          (Inl e, r) \<Rightarrow> (Some (Inl e), r\<lparr>br_offset := length (br_input r)\<rparr>)
        | (Inr rg, r) \<Rightarrow> (Some (Inr rg), r))"

lemma br_next_offset:
  "br_next r = (Some (Inr rg), r') \<Longrightarrow> br_offset r < br_offset r'
     \<and> br_offset r < length (br_input r) \<and> br_input r' = br_input r"
  by (auto simp: br_next_def br_advance_def Let_def usize_checked_add_def split: if_splits sum.splits)

text \<open>\<open>for range in record_body_ranges(..) { let (start, end) = range?; .. }\<close> over an accumulator.\<close>

function for_ranges :: "('a \<Rightarrow> nat \<times> nat \<Rightarrow> 'j frame_codec_error + 'a) \<Rightarrow> body_ranges \<Rightarrow> 'a
    \<Rightarrow> 'j frame_codec_error + 'a" where
  "for_ranges body r acc =
     (case br_next r of
        (None, _) \<Rightarrow> Inr acc
      | (Some (Inl e), _) \<Rightarrow> Inl e
      | (Some (Inr rg), r') \<Rightarrow> and_then (body acc rg) (\<lambda>acc'. for_ranges body r' acc'))"
  by pat_completeness auto
termination
  by (relation "measure (\<lambda>(_, r, _). length (br_input r) - br_offset r)")
    (auto dest!: sym [of _ "br_next _"] br_next_offset)

declare for_ranges.simps [simp del]

text \<open>The body ranges still to come are exactly the length-prefixed segments of the rest of the input.\<close>

lemma br_next_Inr:
  "br_next r = (Some (Inr (a, b)), r') \<longleftrightarrow>
     (\<exists>w rest. drop (br_offset r) (br_input r) = be32 w @ rest \<and> 0 < unat w \<and> unat w \<le> length rest
        \<and> br_count r \<noteq> br_maximum r \<and> a = br_offset r + 4 \<and> b = a + unat w \<and> b \<le> usize_max
        \<and> r' = r\<lparr>br_offset := b, br_count := br_count r + 1\<rparr>)" (is "?L \<longleftrightarrow> ?R")
proof
  assume ?L
  then obtain w d where w: "fd_u32 (decoder_at (br_input r ! 0) (drop (br_offset r) (br_input r)))
      = (Inr (w, d) :: 'a frame_codec_error + _)"
    and off: "\<not> length (br_input r) \<le> br_offset r" "br_count r \<noteq> br_maximum r"
    and le: "br_offset r + 4 + unat w \<le> usize_max" "br_offset r + 4 + unat w \<le> length (br_input r)"
      "0 < unat w" "a = br_offset r + 4" "b = br_offset r + 4 + unat w"
      "r' = r\<lparr>br_offset := b, br_count := br_count r + 1\<rparr>"
    by (cases "fd_u32 (decoder_at (br_input r ! 0) (drop (br_offset r) (br_input r)))
          :: 'a frame_codec_error + _")
      (auto simp: br_next_def br_advance_def Let_def usize_checked_add_def split: if_splits)
  have "drop (br_offset r) (br_input r) = be32 w @ remaining d"
    using w by (simp add: fd_u32_Inr)
  moreover have "length (remaining d) = length (br_input r) - br_offset r - 4"
    using arg_cong [OF calculation, of length] by simp
  ultimately show ?R using off le by auto
next
  assume ?R
  then obtain w rest where *: "drop (br_offset r) (br_input r) = be32 w @ rest" "0 < unat w"
    "unat w \<le> length rest" "br_count r \<noteq> br_maximum r" "a = br_offset r + 4" "b = a + unat w"
    "b \<le> usize_max" "r' = r\<lparr>br_offset := b, br_count := br_count r + 1\<rparr>"
    by blast
  have "length (br_input r) - br_offset r = 4 + length rest"
    using arg_cong [OF *(1), of length] by simp
  with * show ?L
    by (simp add: br_next_def br_advance_def Let_def usize_checked_add_def)
qed

lemma br_next_None: "br_next r = (None, r') \<longleftrightarrow> length (br_input r) \<le> br_offset r \<and> r' = r"
  by (auto simp: br_next_def split: prod.splits sum.splits)

lemma for_ranges_invariant:
  assumes "for_ranges body r acc = (Inr out :: 'j frame_codec_error + 'a)" "I r acc"
    and "\<And>r acc a b r' acc'. I r acc
      \<Longrightarrow> br_next r = (Some (Inr (a, b) :: 'j frame_codec_error + nat \<times> nat), r')
      \<Longrightarrow> body acc (a, b) = Inr acc' \<Longrightarrow> I r' acc'"
  shows "\<exists>r'. I r' out \<and> length (br_input r') \<le> br_offset r'"
  using assms
proof (induction body r acc rule: for_ranges.induct)
  case (1 body r acc)
  obtain x r' where x: "br_next r = (x :: ('j frame_codec_error + nat \<times> nat) option, r')" by force
  show ?case
  proof (cases x)
    case None
    with x have "length (br_input r) \<le> br_offset r" by (simp add: br_next_None)
    moreover have "out = acc" using x None "1.prems"(1) by (simp add: for_ranges.simps [of body r])
    ultimately show ?thesis using "1.prems"(2) by blast
  next
    case (Some y)
    with x "1.prems"(1) obtain a b acc' where y: "y = Inr (a, b)" "body acc (a, b) = Inr acc'"
      "for_ranges body r' acc' = Inr out"
      by (auto simp: for_ranges.simps [of body r] and_then_eq_Inr split: sum.splits)
    have n: "br_next r = (Some (Inr (a, b) :: 'j frame_codec_error + nat \<times> nat), r')"
      using x Some y by simp
    have "I r' acc'" using "1.prems"(3) [OF "1.prems"(2) n y(2)] .
    then show ?thesis
      by (rule "1.IH" [OF n [symmetric] refl refl y(2) y(3)]) (rule "1.prems"(3))
  qed
qed

end
