(* ===== verification/LogicalRecords.thy ===== *)
theory LogicalRecords
  imports Frames
begin

text \<open>
  \<open>rust/src/logical_records.rs\<close>: reassembly of logical records from physical ones. The writer table
  (a \<open>HashMap\<close>) is an association list with distinct keys; \<open>push_record\<close> takes \<open>&mut self\<close>, so
  its model returns the assembler it leaves behind together with the result, on errors too.
  The payload cursor \<open>ChunkedBytes\<close> and the comparison of payloads can panic on a broken cursor and
  return an \<open>outcome\<close>.
\<close>

section \<open>Types\<close>

definition DEFAULT_MAX_RECORD_REASSEMBLY_BYTES :: nat where
  [const_defs]: "DEFAULT_MAX_RECORD_REASSEMBLY_BYTES = MAX_RECORD_PAYLOAD_BYTES * 32"
definition MAX_RECORD_WRITER_STATES :: nat where [const_defs]: "MAX_RECORD_WRITER_STATES = 4096"
definition MAX_RECORD_TOTAL_PENDING_PARTS :: nat where
  [const_defs]: "MAX_RECORD_TOTAL_PENDING_PARTS = 16384"

datatype logical_record_error =
    ReassemblyLimitExceeded nat nat
  | WriterStateLimitExceeded nat nat
  | TotalPendingPartsLimitExceeded nat nat

record chunked_bytes =
  cb_chunks :: "bytes list"
  cb_index :: nat
  cb_offset :: nat
  cb_remaining :: nat

datatype logical_record_data = Borrowed bytes | Owned bytes | Chunked chunked_bytes

datatype logical_record = LogicalRecord (record_data: logical_record_data)

record pending_record =
  p_start_seq_num :: u64
  p_next_part_index :: u32
  p_len :: nat
  p_part_count :: nat
  p_chunks :: "bytes list"

record writer_state =
  highest_seq :: "u64 option"
  pending :: "pending_record option"

record pending_totals =
  t_bytes :: nat
  t_parts :: nat

record assembler =
  max_reassembly_bytes :: nat
  writers :: "(writer_id \<times> writer_state) list"
  totals :: pending_totals

definition writer_state_default :: writer_state where
  "writer_state_default = \<lparr>highest_seq = None, pending = None\<rparr>"

definition with_max_reassembly_bytes :: "nat \<Rightarrow> assembler" where
  "with_max_reassembly_bytes n =
     \<lparr>max_reassembly_bytes = n, writers = [], totals = \<lparr>t_bytes = 0, t_parts = 0\<rparr>\<rparr>"

definition assembler_default :: assembler where
  "assembler_default = with_max_reassembly_bytes DEFAULT_MAX_RECORD_REASSEMBLY_BYTES"

section \<open>Pending totals\<close>

definition with_added :: "pending_totals \<Rightarrow> pending_record \<Rightarrow> nat \<Rightarrow> logical_record_error + pending_totals" where
  "with_added t p mx =
     (let bs = sat_add (t_bytes t) (p_len p) in
      if bs > mx then Inl (ReassemblyLimitExceeded bs mx)
      else let parts = sat_add (t_parts t) (p_part_count p) in
        if parts > MAX_RECORD_TOTAL_PENDING_PARTS
        then Inl (TotalPendingPartsLimitExceeded parts MAX_RECORD_TOTAL_PENDING_PARTS)
        else Inr \<lparr>t_bytes = bs, t_parts = parts\<rparr>)"

text \<open>Natural-number subtraction is the code's \<open>saturating_sub\<close>; its two \<open>debug_assert!\<close>s are the
  predicate \<open>removable\<close>.\<close>

definition removable :: "pending_totals \<Rightarrow> pending_record \<Rightarrow> bool" where
  "removable t p \<longleftrightarrow> p_len p \<le> t_bytes t \<and> p_part_count p \<le> t_parts t"

definition totals_remove :: "pending_totals \<Rightarrow> pending_record \<Rightarrow> pending_totals" where
  "totals_remove t p = \<lparr>t_bytes = t_bytes t - p_len p, t_parts = t_parts t - p_part_count p\<rparr>"

definition check_reassembly_len :: "nat \<Rightarrow> nat \<Rightarrow> logical_record_error + unit" where
  "check_reassembly_len len mx = (if len > mx then Inl (ReassemblyLimitExceeded len mx) else Inr ())"

definition take_pending :: "writer_state \<Rightarrow> pending_totals
    \<Rightarrow> pending_record option \<times> writer_state \<times> pending_totals" where
  "take_pending w t = (case pending w of
       None \<Rightarrow> (None, w, t)
     | Some p \<Rightarrow> (Some p, w\<lparr>pending := None\<rparr>, totals_remove t p))"

definition clear_pending :: "writer_state \<Rightarrow> pending_totals \<Rightarrow> writer_state \<times> pending_totals" where
  "clear_pending w t = (case take_pending w t of (_, w, t) \<Rightarrow> (w, t))"

section \<open>Pushing one record\<close>

definition from_ordered_chunks :: "bytes list \<Rightarrow> nat \<Rightarrow> logical_record_data" where
  "from_ordered_chunks chunks len = (case chunks of
       [] \<Rightarrow> Owned []
     | [c] \<Rightarrow> Owned c
     | _ \<Rightarrow> Chunked \<lparr>cb_chunks = chunks, cb_index = 0, cb_offset = 0, cb_remaining = len\<rparr>)"

definition push_chunk :: "bytes list \<Rightarrow> bytes \<Rightarrow> bytes list" where
  "push_chunk chunks data = (if data = [] then chunks else chunks @ [data])"

text \<open>A first part: drop what was pending and start over.\<close>

definition push_first_part :: "nat \<Rightarrow> writer_state \<Rightarrow> pending_totals \<Rightarrow> read_record \<Rightarrow> u64
    \<Rightarrow> writer_state \<times> pending_totals \<times> (logical_record_error + logical_record option)" where
  "push_first_part mx w t r start_seq_num =
     (case clear_pending w t of (w, t) \<Rightarrow>
      let p = \<lparr>p_start_seq_num = start_seq_num, p_next_part_index = 1, p_len = length (rr_data r),
                p_part_count = 1, p_chunks = push_chunk [] (rr_data r)\<rparr> in
      case with_added t p mx of
        Inl e \<Rightarrow> (w, t, Inl e)
      | Inr t' \<Rightarrow> (w\<lparr>pending := Some p\<rparr>, t', Inr None))"

text \<open>A later part: it must continue the pending record, which leaves the totals while it is worked
  on and returns to them only if it stays pending.\<close>

definition push_next_part :: "nat \<Rightarrow> writer_state \<Rightarrow> pending_totals \<Rightarrow> read_record \<Rightarrow> u64 \<Rightarrow> u32
    \<Rightarrow> writer_state \<times> pending_totals \<times> (logical_record_error + logical_record option)" where
  "push_next_part mx w t r start_seq_num index =
     (case take_pending w t of
        (None, w, t) \<Rightarrow> (w, t, Inr None)
      | (Some p, w, t) \<Rightarrow>
          if p_start_seq_num p \<noteq> start_seq_num \<or> p_next_part_index p \<noteq> index then (w, t, Inr None)
          else (case and_then (ok_or (ReassemblyLimitExceeded usize_max mx)
                    (usize_checked_add (p_len p) (length (rr_data r))))
                  (\<lambda>len. and_then (check_reassembly_len len mx) (\<lambda>_. Inr len)) of
              Inl e \<Rightarrow> (w, t, Inl e)
            | Inr len \<Rightarrow>
                let p = p\<lparr>p_len := len, p_part_count := sat_add (p_part_count p) 1,
                          p_chunks := push_chunk (p_chunks p) (rr_data r)\<rparr> in
                if is_final (rr_part r)
                then (w, t, Inr (Some (LogicalRecord (from_ordered_chunks (p_chunks p) (p_len p)))))
                else (case checked_add index 1 of
                    None \<Rightarrow> (w, t, Inr None)
                  | Some nxt \<Rightarrow>
                      let p = p\<lparr>p_next_part_index := nxt\<rparr> in
                      (case with_added t p mx of
                         Inl e \<Rightarrow> (w, t, Inl e)
                       | Inr t' \<Rightarrow> (w\<lparr>pending := Some p\<rparr>, t', Inr None)))))"

definition push_to_writer :: "nat \<Rightarrow> writer_state \<Rightarrow> pending_totals \<Rightarrow> read_record
    \<Rightarrow> writer_state \<times> pending_totals \<times> (logical_record_error + logical_record option)" where
  "push_to_writer mx w t r =
     (if (case highest_seq w of None \<Rightarrow> False | Some h \<Rightarrow> rr_writer_seq_num r \<le> h) then (w, t, Inr None)
      else let w = w\<lparr>highest_seq := Some (rr_writer_seq_num r)\<rparr> in
        if rr_part r = unsplit then
          (case clear_pending w t of (w, t) \<Rightarrow> (w, t, Inr (Some (LogicalRecord (Borrowed (rr_data r))))))
        else (case checked_sub (rr_writer_seq_num r) (ucast (part_index (rr_part r))) of
            None \<Rightarrow> (case clear_pending w t of (w, t) \<Rightarrow> (w, t, Inr None))
          | Some start_seq_num \<Rightarrow>
              if part_index (rr_part r) = 0 then push_first_part mx w t r start_seq_num
              else push_next_part mx w t r start_seq_num (part_index (rr_part r))))"

definition push_record :: "assembler \<Rightarrow> read_record
    \<Rightarrow> assembler \<times> (logical_record_error + logical_record option)" where
  "push_record a r =
     (let writer_count = length (writers a);
          go = (\<lambda>w. case push_to_writer (max_reassembly_bytes a) w (totals a) r of (w', t', result) \<Rightarrow>
            (a\<lparr>writers := AList.update (rr_writer_id r) w' (writers a), totals := t'\<rparr>, result)) in
      case map_of (writers a) (rr_writer_id r) of
        Some w \<Rightarrow> go w
      | None \<Rightarrow>
          if writer_count \<ge> MAX_RECORD_WRITER_STATES
          then (a, Inl (WriterStateLimitExceeded (sat_add writer_count 1) MAX_RECORD_WRITER_STATES))
          else go writer_state_default)"

text \<open>A reader pushes every record it is delivered.\<close>

fun push_records :: "assembler \<Rightarrow> read_record list
    \<Rightarrow> assembler \<times> (logical_record_error + logical_record option) list" where
  "push_records a [] = (a, [])"
| "push_records a (r # rs) =
     (case push_record a r of (a', x) \<Rightarrow> case push_records a' rs of (a'', xs) \<Rightarrow> (a'', x # xs))"

section \<open>Splitting with baked-in sequence numbers\<close>

definition split_logical_record :: "u64 \<Rightarrow> bytes \<Rightarrow> 'j frame_codec_error + append_record list" where
  "split_logical_record writer_start data =
     and_then (split_record_payloads data) (\<lambda>payloads.
     and_then (ok_or WriterSequenceExhausted (checked_add writer_start (of_nat (length payloads)))) (\<lambda>_.
     Inr (map (\<lambda>(index, payload). \<lparr>ar_writer_seq_num = writer_start + of_nat index,
                 ar_part = rp_part payload, ar_data = rp_data payload\<rparr>)
            (enumerate 0 payloads))))"

section \<open>Payload cursors\<close>

text \<open>\<open>chunk\<close> and \<open>advance\<close> index the chunk list, and \<open>advance\<close> asserts its bound.\<close>

definition cb_chunk :: "chunked_bytes \<Rightarrow> (unit, bytes) outcome" where
  "cb_chunk c =
     (if cb_remaining c = 0 then Ok []
      else if cb_index c < length (cb_chunks c) \<and> cb_offset c \<le> length (cb_chunks c ! cb_index c)
      then Ok (drop (cb_offset c) (cb_chunks c ! cb_index c)) else Panic)"

function cb_advance_loop :: "nat \<Rightarrow> chunked_bytes \<Rightarrow> (unit, chunked_bytes) outcome" where
  "cb_advance_loop cnt c =
     (if cnt = 0 then Ok c
      else if \<not> cb_index c < length (cb_chunks c) then Panic
      else if length (cb_chunks c ! cb_index c) < cb_offset c then Panic
      else let current_remaining = length (cb_chunks c ! cb_index c) - cb_offset c in
        if cnt < current_remaining then Ok (c\<lparr>cb_offset := cb_offset c + cnt\<rparr>)
        else cb_advance_loop (cnt - current_remaining) (c\<lparr>cb_index := cb_index c + 1, cb_offset := 0\<rparr>))"
  by pat_completeness auto
termination
  by (relation "measure (\<lambda>(_, c). length (cb_chunks c) - cb_index c)") auto

declare cb_advance_loop.simps [simp del]

definition cb_advance :: "nat \<Rightarrow> chunked_bytes \<Rightarrow> (unit, chunked_bytes) outcome" where
  "cb_advance cnt c =
     (if cnt \<le> cb_remaining c then cb_advance_loop cnt (c\<lparr>cb_remaining := cb_remaining c - cnt\<rparr>)
      else Panic)"

fun cb_concat_loop :: "nat \<Rightarrow> bytes \<Rightarrow> bytes list \<Rightarrow> bytes" where
  "cb_concat_loop offset data [] = data"
| "cb_concat_loop offset data (chunk # chunks) =
     cb_concat_loop offset (data @ (if data = [] \<and> offset > 0 then drop offset chunk else chunk)) chunks"

definition cb_into_bytes :: "chunked_bytes \<Rightarrow> bytes" where
  "cb_into_bytes c = (case drop (cb_index c) (cb_chunks c) of
       [chunk] \<Rightarrow> drop (cb_offset c) chunk
     | chunks \<Rightarrow> cb_concat_loop (cb_offset c) [] chunks)"

definition data_remaining :: "logical_record_data \<Rightarrow> nat" where
  "data_remaining d = (case d of Borrowed s \<Rightarrow> length s | Owned b \<Rightarrow> length b | Chunked c \<Rightarrow> cb_remaining c)"

definition data_chunk :: "logical_record_data \<Rightarrow> (unit, bytes) outcome" where
  "data_chunk d = (case d of Borrowed s \<Rightarrow> Ok s | Owned b \<Rightarrow> Ok b | Chunked c \<Rightarrow> cb_chunk c)"

definition data_advance :: "nat \<Rightarrow> logical_record_data \<Rightarrow> (unit, logical_record_data) outcome" where
  "data_advance cnt d = (case d of
       Borrowed s \<Rightarrow> if cnt \<le> length s then Ok (Borrowed (drop cnt s)) else Panic
     | Owned b \<Rightarrow> if cnt \<le> length b then Ok (Owned (drop cnt b)) else Panic
     | Chunked c \<Rightarrow> (case cb_advance cnt c of Ok c' \<Rightarrow> Ok (Chunked c') | _ \<Rightarrow> Panic))"

definition data_into_owned :: "logical_record_data \<Rightarrow> logical_record_data" where
  "data_into_owned d = (case d of Borrowed s \<Rightarrow> Owned s | Owned b \<Rightarrow> Owned b | Chunked c \<Rightarrow> Chunked c)"

definition data_into_bytes :: "logical_record_data \<Rightarrow> bytes" where
  "data_into_bytes d = (case d of Borrowed s \<Rightarrow> s | Owned b \<Rightarrow> b | Chunked c \<Rightarrow> cb_into_bytes c)"

lemma cb_advance_loop_remaining: "cb_advance_loop n c = Ok c' \<Longrightarrow> cb_remaining c' = cb_remaining c"
proof (induction n c rule: cb_advance_loop.induct)
  case (1 n c)
  let ?cur = "length (cb_chunks c ! cb_index c) - cb_offset c"
  show ?case
  proof (cases "n = 0 \<or> n < ?cur")
    case True
    with "1.prems" show ?thesis by (auto simp: cb_advance_loop.simps [of n c] Let_def split: if_splits)
  next
    case False
    then have n: "n \<noteq> 0" "\<not> n < ?cur" by simp_all
    with "1.prems" have i: "\<not> \<not> cb_index c < length (cb_chunks c)"
        "\<not> length (cb_chunks c ! cb_index c) < cb_offset c"
      and go: "cb_advance_loop (n - ?cur) (c\<lparr>cb_index := cb_index c + 1, cb_offset := 0\<rparr>) = Ok c'"
      by (auto simp: cb_advance_loop.simps [of n c] Let_def split: if_splits)
    show ?thesis using "1.IH" [OF n(1) i refl n(2) go] by simp
  qed
qed

lemma diff_less_pos: "0 < k \<Longrightarrow> k \<le> m \<Longrightarrow> m - k < (m :: nat)"
  by simp

lemma data_advance_remaining:
  "data_advance n d = Ok d' \<Longrightarrow> n \<le> data_remaining d \<and> data_remaining d' = data_remaining d - n"
  by (auto simp: data_advance_def data_remaining_def cb_advance_def cb_advance_loop_remaining
      split: logical_record_data.splits if_splits outcome.splits)

text \<open>\<open>PartialEq for LogicalRecordData\<close>: compare the shared front chunk, advance both, repeat.\<close>

function data_eq_loop :: "logical_record_data \<Rightarrow> logical_record_data \<Rightarrow> (unit, bool) outcome" where
  "data_eq_loop this other =
     (case data_chunk this of
        Ok left \<Rightarrow>
          (case data_chunk other of
             Ok right \<Rightarrow>
               if left = [] \<and> right = [] then Ok True
               else let shared = min (length left) (length right) in
                 if shared = 0 \<or> take shared left \<noteq> take shared right then Ok False
                 else (case data_advance shared this of
                     Ok this' \<Rightarrow>
                       (case data_advance shared other of
                          Ok other' \<Rightarrow> data_eq_loop this' other'
                        | _ \<Rightarrow> Panic)
                   | _ \<Rightarrow> Panic)
           | _ \<Rightarrow> Panic)
      | _ \<Rightarrow> Panic)"
  by pat_completeness auto
termination
  by (relation "measure (\<lambda>(this, _). data_remaining this)")
    (auto dest!: data_advance_remaining split: if_splits intro!: diff_less_pos)

declare data_eq_loop.simps [simp del]

definition data_eq :: "logical_record_data \<Rightarrow> logical_record_data \<Rightarrow> (unit, bool) outcome" where
  "data_eq this other =
     (if data_remaining this \<noteq> data_remaining other then Ok False else data_eq_loop this other)"

section \<open>Cursors denote byte strings\<close>

definition wf_cursor :: "chunked_bytes \<Rightarrow> bool" where
  "wf_cursor c \<longleftrightarrow> [] \<notin> set (cb_chunks c)
     \<and> (if cb_index c < length (cb_chunks c) then cb_offset c < length (cb_chunks c ! cb_index c)
        else cb_index c = length (cb_chunks c) \<and> cb_offset c = 0)"

definition cb_content :: "chunked_bytes \<Rightarrow> bytes" where
  "cb_content c = drop (cb_offset c) (concat (drop (cb_index c) (cb_chunks c)))"

definition wf_chunked :: "chunked_bytes \<Rightarrow> bool" where
  "wf_chunked c \<longleftrightarrow> wf_cursor c \<and> cb_remaining c = length (cb_content c)"

definition wf_data :: "logical_record_data \<Rightarrow> bool" where
  "wf_data d = (case d of Chunked c \<Rightarrow> wf_chunked c | _ \<Rightarrow> True)"

definition data_content :: "logical_record_data \<Rightarrow> bytes" where
  "data_content d = (case d of Borrowed s \<Rightarrow> s | Owned b \<Rightarrow> b | Chunked c \<Rightarrow> cb_content c)"

lemma cb_content_unfold:
  assumes "cb_index c < length (cb_chunks c)" "cb_offset c \<le> length (cb_chunks c ! cb_index c)"
  shows "cb_content c = drop (cb_offset c) (cb_chunks c ! cb_index c) @ concat (drop (Suc (cb_index c)) (cb_chunks c))"
  using assms by (simp add: cb_content_def flip: Cons_nth_drop_Suc)

lemma wf_cursor_next:
  "wf_cursor c \<Longrightarrow> cb_index c < length (cb_chunks c)
     \<Longrightarrow> wf_cursor (c\<lparr>cb_index := Suc (cb_index c), cb_offset := 0\<rparr>)"
  by (auto simp: wf_cursor_def) (metis length_greater_0_conv nth_mem)

lemma cb_advance_loop_spec:
  assumes "wf_cursor c" "n \<le> length (cb_content c)"
  shows "\<exists>c'. cb_advance_loop n c = Ok c' \<and> wf_cursor c' \<and> cb_content c' = drop n (cb_content c)"
  using assms
proof (induction n c rule: cb_advance_loop.induct)
  case (1 n c)
  show ?case
  proof (cases "n = 0")
    case True
    with "1.prems" show ?thesis by (simp add: cb_advance_loop.simps)
  next
    case False
    with "1.prems" have i: "cb_index c < length (cb_chunks c)"
      by (auto simp: wf_cursor_def cb_content_def split: if_splits)
    then have o: "cb_offset c < length (cb_chunks c ! cb_index c)"
      using "1.prems"(1) by (simp add: wf_cursor_def)
    let ?cur = "length (cb_chunks c ! cb_index c) - cb_offset c"
    let ?c = "c\<lparr>cb_index := cb_index c + 1, cb_offset := 0\<rparr>"
    have content: "cb_content c = drop (cb_offset c) (cb_chunks c ! cb_index c) @ cb_content ?c"
      using cb_content_unfold [OF i less_imp_le [OF o]] by (simp add: cb_content_def)
    show ?thesis
    proof (cases "n < ?cur")
      case True
      have "cb_content (c\<lparr>cb_offset := cb_offset c + n\<rparr>) = drop n (cb_content c)"
        by (simp add: cb_content_def add.commute)
      moreover have "wf_cursor (c\<lparr>cb_offset := cb_offset c + n\<rparr>)"
        using "1.prems"(1) i True by (simp add: wf_cursor_def)
      ultimately show ?thesis using True False i o by (simp add: cb_advance_loop.simps [of n c])
    next
      case n: False
      have "wf_cursor ?c" using wf_cursor_next [OF "1.prems"(1) i] by simp
      moreover have "n - ?cur \<le> length (cb_content ?c)" using "1.prems"(2) content by simp
      ultimately obtain c' where "cb_advance_loop (n - ?cur) ?c = Ok c'" "wf_cursor c'"
        "cb_content c' = drop (n - ?cur) (cb_content ?c)"
        using "1.IH" [OF False _ _ refl n] i o by auto
      moreover have "drop n (cb_content c) = drop (n - ?cur) (cb_content ?c)"
        using n unfolding content by (simp add: drop_append)
      ultimately show ?thesis using n False i o by (simp add: cb_advance_loop.simps [of n c])
    qed
  qed
qed

lemma data_remaining_content: "wf_data d \<Longrightarrow> data_remaining d = length (data_content d)"
  by (auto simp: wf_data_def data_remaining_def data_content_def wf_chunked_def split: logical_record_data.splits)

lemma data_advance_spec:
  assumes "wf_data d" "n \<le> length (data_content d)"
  shows "\<exists>d'. data_advance n d = Ok d' \<and> wf_data d' \<and> data_content d' = drop n (data_content d)"
proof (cases d)
  case (Chunked c)
  then have w: "wf_cursor c" "cb_remaining c = length (cb_content c)" "n \<le> length (cb_content c)"
    using assms by (simp_all add: wf_data_def wf_chunked_def data_content_def)
  let ?c = "c\<lparr>cb_remaining := cb_remaining c - n\<rparr>"
  have "wf_cursor ?c" "cb_content ?c = cb_content c"
    using w(1) by (simp_all add: wf_cursor_def cb_content_def)
  with w(3) obtain c' where c': "cb_advance_loop n ?c = Ok c'" "wf_cursor c'" "cb_content c' = drop n (cb_content c)"
    using cb_advance_loop_spec [of ?c n] by auto
  then have "cb_remaining c' = length (cb_content c')"
    using cb_advance_loop_remaining [OF c'(1)] w(2) by simp
  with c' w show ?thesis
    by (simp add: Chunked data_advance_def cb_advance_def wf_data_def wf_chunked_def data_content_def)
qed (use assms in \<open>simp_all add: data_advance_def wf_data_def data_content_def\<close>)

lemma data_chunk_spec:
  assumes "wf_data d"
  shows "\<exists>l r. data_chunk d = Ok l \<and> data_content d = l @ r \<and> (l = [] \<longrightarrow> data_content d = [])"
proof (cases d)
  case (Chunked c)
  then have w: "wf_cursor c" "cb_remaining c = length (cb_content c)"
    using assms by (simp_all add: wf_data_def wf_chunked_def)
  show ?thesis
  proof (cases "cb_remaining c = 0")
    case True
    with w show ?thesis by (simp add: Chunked data_chunk_def cb_chunk_def data_content_def)
  next
    case False
    with w have i: "cb_index c < length (cb_chunks c)" "cb_offset c < length (cb_chunks c ! cb_index c)"
      by (auto simp: wf_cursor_def cb_content_def split: if_splits)
    with False show ?thesis
      using cb_content_unfold [of c] by (simp add: Chunked data_chunk_def cb_chunk_def data_content_def)
  qed
qed (simp_all add: data_chunk_def data_content_def)

lemma cb_concat_loop_nonempty: "data \<noteq> [] \<or> offset = 0 \<Longrightarrow> cb_concat_loop offset data cs = data @ concat cs"
  by (induction cs arbitrary: data) auto

lemma cb_into_bytes_content:
  assumes "wf_cursor c"
  shows "cb_into_bytes c = cb_content c"
proof (cases "drop (cb_index c) (cb_chunks c)")
  case Nil
  then show ?thesis by (simp add: cb_into_bytes_def cb_content_def)
next
  case (Cons x xs)
  then have i: "cb_index c < length (cb_chunks c)" by (metis drop_all list.distinct(1) not_le)
  then have "x = cb_chunks c ! cb_index c" using Cons by (metis hd_drop_conv_nth list.sel(1))
  then have x: "cb_offset c < length x" using assms i by (simp add: wf_cursor_def)
  then have "cb_concat_loop (cb_offset c) [] (x # xs) = drop (cb_offset c) x @ concat xs"
    by (cases "cb_offset c = 0") (simp_all add: cb_concat_loop_nonempty)
  with x show ?thesis
    by (cases xs) (simp_all add: cb_into_bytes_def cb_content_def Cons)
qed

lemma data_eq_loop_spec:
  assumes "wf_data a" "wf_data b"
  shows "data_eq_loop a b = Ok (data_content a = data_content b)"
  using assms
proof (induction a b rule: data_eq_loop.induct)
  case (1 a b)
  obtain l r where l: "data_chunk a = Ok l" "data_content a = l @ r" "l = [] \<longrightarrow> data_content a = []"
    using data_chunk_spec [OF "1.prems"(1)] by blast
  obtain l' r' where l': "data_chunk b = Ok l'" "data_content b = l' @ r'" "l' = [] \<longrightarrow> data_content b = []"
    using data_chunk_spec [OF "1.prems"(2)] by blast
  let ?n = "min (length l) (length l')"
  show ?case
  proof (cases "?n = 0 \<or> take ?n l \<noteq> take ?n l'")
    case True
    then have "l = [] \<and> l' = [] \<or> (data_content a = data_content b \<longleftrightarrow> False)"
    proof (cases "?n = 0")
      case True
      then have "l = [] \<or> l' = []" by (simp add: min_def split: if_splits)
      with l l' show ?thesis by auto
    next
      case False
      with True have "take ?n l \<noteq> take ?n l'" by simp
      moreover have "take ?n (data_content a) = take ?n l" "take ?n (data_content b) = take ?n l'"
        by (simp_all add: l(2) l'(2))
      ultimately show ?thesis by metis
    qed
    with True l l' show ?thesis
      by (subst data_eq_loop.simps) (auto simp: Let_def)
  next
    case False
    then have n: "\<not> (?n = 0 \<or> take ?n l \<noteq> take ?n l')" "\<not> (l = [] \<and> l' = [])" by auto
    have le: "?n \<le> length (data_content a)" "?n \<le> length (data_content b)"
      by (simp_all add: l(2) l'(2) min_le_iff_disj)
    obtain a' where a': "data_advance ?n a = Ok a'" "wf_data a'" "data_content a' = drop ?n (data_content a)"
      using data_advance_spec [OF "1.prems"(1) le(1)] by blast
    obtain b' where b': "data_advance ?n b = Ok b'" "wf_data b'" "data_content b' = drop ?n (data_content b)"
      using data_advance_spec [OF "1.prems"(2) le(2)] by blast
    have "data_eq_loop a' b' = Ok (data_content a' = data_content b')"
      using "1.IH" [OF l(1) l'(1) n(2) refl n(1) a'(1) b'(1)] a'(2) b'(2) by simp
    moreover have "data_content a' = data_content b' \<longleftrightarrow> data_content a = data_content b"
    proof -
      have "take ?n (data_content a) = take ?n (data_content b)" using n(1) by (simp add: l(2) l'(2))
      then show ?thesis unfolding a'(3) b'(3) by (metis append_take_drop_id)
    qed
    ultimately show ?thesis
      using l(1) l'(1) n a'(1) b'(1) unfolding data_eq_loop.simps [of a b]
      by (simp add: Let_def) (simp add: min_def)
  qed
qed

lemma from_ordered_chunks_wf:
  assumes "[] \<notin> set cs" "n = sum_list (map length cs)"
  shows "wf_data (from_ordered_chunks cs n) \<and> data_content (from_ordered_chunks cs n) = concat cs"
proof (cases cs rule: remdups_adj.cases)
  case (3 x y zs)
  with assms have "x \<noteq> []" by auto
  with 3 assms show ?thesis
    by (simp add: from_ordered_chunks_def wf_data_def wf_chunked_def wf_cursor_def data_content_def
        cb_content_def length_concat)
qed (simp_all add: from_ordered_chunks_def wf_data_def data_content_def)

text \<open>Payload equality compares contents. For payloads in any of the three storage shapes and with
  cursors advanced to any point, the chunk-by-chunk comparison terminates without panicking and
  returns whether the two remaining byte strings are equal.\<close>

theorem data_eq_spec:
  assumes "wf_data a" "wf_data b"
  shows "data_eq a b = Ok (data_content a = data_content b)"
proof (cases "data_remaining a = data_remaining b")
  case True
  then show ?thesis using data_eq_loop_spec [OF assms] by (simp add: data_eq_def)
next
  case False
  then have "data_content a \<noteq> data_content b"
    using data_remaining_content [OF assms(1)] data_remaining_content [OF assms(2)] by auto
  with False show ?thesis by (simp add: data_eq_def)
qed

theorem data_eq_spec_witness:
  "data_eq (from_ordered_chunks [[1, 2], [3]] 3) (Borrowed [1, 2, 3]) = Ok True"
proof -
  have "wf_data (from_ordered_chunks [[1, 2], [3]] 3)" "wf_data (Borrowed [1, 2, 3])"
    by (simp_all add: from_ordered_chunks_def wf_data_def wf_chunked_def wf_cursor_def cb_content_def)
  from data_eq_spec [OF this] show ?thesis
    by (simp add: from_ordered_chunks_def data_content_def cb_content_def)
qed

text \<open>Reading a payload through its cursor. Advancing by no more than what remains never panics and
  leaves the payload without its first bytes, and coalescing a payload returns its remaining
  bytes exactly.\<close>

theorem data_cursor_spec:
  assumes "wf_data d" "n \<le> data_remaining d"
  shows "\<exists>d'. data_advance n d = Ok d' \<and> wf_data d' \<and> data_into_bytes d' = drop n (data_into_bytes d)
    \<and> data_remaining d' = length (data_into_bytes d')"
proof -
  have bytes: "data_into_bytes x = data_content x" if "wf_data x" for x
    using that by (cases x) (simp_all add: data_into_bytes_def data_content_def wf_data_def wf_chunked_def
        cb_into_bytes_content)
  show ?thesis
    using data_advance_spec [OF assms(1), of n] assms data_remaining_content bytes by (metis (no_types))
qed

theorem data_cursor_spec_witness:
  "\<exists>d'. data_advance 2 (from_ordered_chunks [[1], [2, 3]] 3) = Ok d' \<and> wf_data d'
    \<and> data_into_bytes d' = drop 2 (data_into_bytes (from_ordered_chunks [[1], [2, 3]] 3))
    \<and> data_remaining d' = length (data_into_bytes d')"
  by (rule data_cursor_spec)
    (simp_all add: from_ordered_chunks_def wf_data_def wf_chunked_def wf_cursor_def cb_content_def
      data_remaining_def)

end
