(* ===== verification/Reassembly.thy ===== *)
theory Reassembly
  imports LogicalRecords
begin

text \<open>
  What the logical record assembler promises. The invariant \<open>wf_assembler H a\<close> says that the
  assembler's totals are the sums over its pending records, within the configured limits, and that
  every pending record is the beginning of a run of parts found in the set \<open>H\<close> of records pushed so
  far. It is preserved by every call, errors included. From it: no logical record is invented
  (\<open>assembled\<close>), the code's debug assertions hold, duplicates change nothing, and the parts of a
  split record are put together again.
\<close>

section \<open>The specification: runs of parts\<close>

definition parts_run :: "read_record set \<Rightarrow> writer_id \<Rightarrow> nat \<Rightarrow> read_record list \<Rightarrow> bool" where
  "parts_run H wid start ps \<longleftrightarrow> set ps \<subseteq> H
     \<and> (\<forall>i < length ps. rr_writer_id (ps ! i) = wid \<and> unat (rr_writer_seq_num (ps ! i)) = start + i
          \<and> unat (part_index (rr_part (ps ! i))) = i)"

text \<open>A logical payload is the concatenation of a complete run: consecutive parts of one writer,
  numbered from zero, of which exactly the last is final.\<close>

definition assembled :: "read_record set \<Rightarrow> writer_id \<Rightarrow> logical_record \<Rightarrow> bool" where
  "assembled H wid l \<longleftrightarrow> wf_data (record_data l)
     \<and> (\<exists>start ps. ps \<noteq> [] \<and> parts_run H wid start ps
          \<and> data_content (record_data l) = concat (map rr_data ps)
          \<and> (\<forall>i < length ps. is_final (rr_part (ps ! i)) = (i = length ps - 1)))"

definition wf_pending :: "read_record set \<Rightarrow> writer_id \<Rightarrow> u64 option \<Rightarrow> pending_record \<Rightarrow> bool" where
  "wf_pending H wid highest p \<longleftrightarrow> p_len p = sum_list (map length (p_chunks p)) \<and> [] \<notin> set (p_chunks p)
     \<and> p_part_count p = unat (p_next_part_index p)
     \<and> (\<exists>ps. ps \<noteq> [] \<and> length ps = unat (p_next_part_index p)
          \<and> parts_run H wid (unat (p_start_seq_num p)) ps
          \<and> concat (map rr_data ps) = concat (p_chunks p)
          \<and> (\<forall>x \<in> set ps. \<not> is_final (rr_part x))
          \<and> highest = Some (rr_writer_seq_num (last ps)))"

definition wf_writer :: "read_record set \<Rightarrow> writer_id \<Rightarrow> writer_state \<Rightarrow> bool" where
  "wf_writer H wid w \<longleftrightarrow> (\<forall>p. pending w = Some p \<longrightarrow> wf_pending H wid (highest_seq w) p)"

definition pend_len :: "writer_state \<Rightarrow> nat" where
  "pend_len w = (case pending w of None \<Rightarrow> 0 | Some p \<Rightarrow> p_len p)"

definition pend_parts :: "writer_state \<Rightarrow> nat" where
  "pend_parts w = (case pending w of None \<Rightarrow> 0 | Some p \<Rightarrow> p_part_count p)"

text \<open>One writer's share of the totals, beside \<open>B\<close> bytes and \<open>P\<close> parts of the other writers.\<close>

definition accounted :: "nat \<Rightarrow> nat \<Rightarrow> nat \<Rightarrow> writer_state \<Rightarrow> pending_totals \<Rightarrow> bool" where
  "accounted mx B P w t \<longleftrightarrow> mx < usize_max \<and> t_bytes t = B + pend_len w \<and> t_parts t = P + pend_parts w
     \<and> t_bytes t \<le> mx \<and> t_parts t \<le> MAX_RECORD_TOTAL_PENDING_PARTS"

definition wf_assembler :: "read_record set \<Rightarrow> assembler \<Rightarrow> bool" where
  "wf_assembler H a \<longleftrightarrow> max_reassembly_bytes a < usize_max
     \<and> distinct (map fst (writers a)) \<and> length (writers a) \<le> MAX_RECORD_WRITER_STATES
     \<and> (\<forall>(wid, w) \<in> set (writers a). wf_writer H wid w)
     \<and> t_bytes (totals a) = sum_list (map (pend_len \<circ> snd) (writers a))
     \<and> t_parts (totals a) = sum_list (map (pend_parts \<circ> snd) (writers a))
     \<and> t_bytes (totals a) \<le> max_reassembly_bytes a
     \<and> t_parts (totals a) \<le> MAX_RECORD_TOTAL_PENDING_PARTS"

section \<open>The operations on one writer\<close>

lemma parts_run_mono: "parts_run H wid s ps \<Longrightarrow> H \<subseteq> H' \<Longrightarrow> parts_run H' wid s ps"
  by (auto simp: parts_run_def)

lemma wf_pending_mono: "wf_pending H wid h p \<Longrightarrow> H \<subseteq> H' \<Longrightarrow> wf_pending H' wid h p"
  unfolding wf_pending_def using parts_run_mono by blast

lemma wf_writer_mono: "wf_writer H wid w \<Longrightarrow> H \<subseteq> H' \<Longrightarrow> wf_writer H' wid w"
  unfolding wf_writer_def using wf_pending_mono by blast

lemma parts_run_snoc:
  assumes "parts_run H wid s ps" "r \<in> H" "rr_writer_id r = wid"
    and "unat (rr_writer_seq_num r) = s + length ps" "unat (part_index (rr_part r)) = length ps"
  shows "parts_run H wid s (ps @ [r])"
  using assms by (auto simp: parts_run_def nth_append less_Suc_eq)

lemma with_added_Inr:
  assumes "mx < usize_max"
  shows "with_added t p mx = Inr t' \<longleftrightarrow> t_bytes t + p_len p \<le> mx
     \<and> t_parts t + p_part_count p \<le> MAX_RECORD_TOTAL_PENDING_PARTS
     \<and> t' = \<lparr>t_bytes = t_bytes t + p_len p, t_parts = t_parts t + p_part_count p\<rparr>"
proof -
  have m: "MAX_RECORD_TOTAL_PENDING_PARTS < usize_max" by (simp add: const_defs)
  have sat: "sat_add a b \<le> k \<longleftrightarrow> a + b \<le> k" if "k < usize_max" for a b k
    using that by (auto simp: sat_add_def min_def)
  show ?thesis
    unfolding with_added_def Let_def
    using sat [OF assms, of "t_bytes t" "p_len p"] sat [OF m, of "t_parts t" "p_part_count p"] assms m
    by (auto simp: not_le)
qed

lemma take_pending_accounted:
  assumes "take_pending w t = (p, w', t')" "accounted mx B P w t"
  shows "accounted mx B P w' t' \<and> pending w' = None \<and> highest_seq w' = highest_seq w
    \<and> p = pending w \<and> t_bytes t' = B \<and> t_parts t' = P
    \<and> (\<forall>x. p = Some x \<longrightarrow> removable t x)"
  using assms
  by (auto simp: take_pending_def accounted_def pend_len_def pend_parts_def totals_remove_def removable_def
      split: option.splits)

lemma clear_pending_accounted:
  assumes "clear_pending w t = (w', t')" "accounted mx B P w t"
  shows "accounted mx B P w' t' \<and> pending w' = None \<and> highest_seq w' = highest_seq w
    \<and> t_bytes t' = B \<and> t_parts t' = P"
  using assms take_pending_accounted by (fastforce simp: clear_pending_def split: prod.splits)

lemma accounted_highest [simp]: "accounted mx B P (w\<lparr>highest_seq := h\<rparr>) t = accounted mx B P w t"
  by (simp add: accounted_def pend_len_def pend_parts_def)

lemma accounted_add:
  assumes "accounted mx B P w t" "pending w = None" "with_added t p mx = Inr t'"
  shows "accounted mx B P (w\<lparr>pending := Some p\<rparr>) t'"
  using assms by (auto simp: accounted_def with_added_Inr pend_len_def pend_parts_def)

lemma wf_writer_None: "pending w = None \<Longrightarrow> wf_writer H wid w"
  by (simp add: wf_writer_def)

lemma push_chunk_simps:
  "concat (push_chunk cs d) = concat cs @ d"
  "sum_list (map length (push_chunk cs d)) = sum_list (map length cs) + length d"
  "[] \<notin> set cs \<Longrightarrow> [] \<notin> set (push_chunk cs d)"
  by (simp_all add: push_chunk_def)

lemma and_exp_bit: "bit (w :: 'a::len word) n \<Longrightarrow> w AND 2 ^ n = 2 ^ n"
  by (rule bit_eqI) (auto simp: bit_simps)

lemma part_zero_final: "part_index p = 0 \<Longrightarrow> is_final p \<Longrightarrow> p = unsplit"
proof -
  assume a: "part_index p = 0" "is_final p"
  have m: "(- 1 :: u32) = MAX_INDEX OR FINAL_BIT" by (simp add: MAX_INDEX_def FINAL_BIT_def)
  have "raw p = raw p AND (MAX_INDEX OR FINAL_BIT)"
    unfolding m [symmetric] by (rule sym, rule and.right_neutral)
  then have raw: "raw p = raw p AND FINAL_BIT"
    using a(1) by (simp add: bit.conj_disj_distrib part_index_def)
  have f: "FINAL_BIT = 2 ^ 31" by (simp add: FINAL_BIT_def)
  have "raw p AND FINAL_BIT = 0 \<or> raw p AND FINAL_BIT = FINAL_BIT"
    unfolding f using and_exp_bit [of "raw p" 31] and_exp_eq_0_iff_not_bit [of "raw p" 31] by blast
  with a(2) raw have "raw p = FINAL_BIT" by (auto simp: is_final_def)
  then show "p = unsplit" by (cases p) (simp add: unsplit_def)
qed

lemma unat_ucast_index: "unat (ucast (i :: u32) :: u64) = unat i"
proof -
  have "unat i < 2 ^ 64" using unat_lt [of i] by simp
  then show ?thesis by (simp add: unsigned_ucast_eq take_bit_nat_eq_self)
qed

text \<open>What one call may leave behind for its writer, and what it may return.\<close>

definition good_step :: "read_record set \<Rightarrow> writer_id \<Rightarrow> nat \<Rightarrow> nat \<Rightarrow> nat
    \<Rightarrow> writer_state \<times> pending_totals \<times> (logical_record_error + logical_record option) \<Rightarrow> bool" where
  "good_step H wid mx B P out = (case out of (w, t, x) \<Rightarrow>
     accounted mx B P w t \<and> wf_writer H wid w \<and> (\<forall>l. x = Inr (Some l) \<longrightarrow> assembled H wid l))"

lemma single_part_run:
  assumes "r \<in> H" "rr_writer_id r = wid" "part_index (rr_part r) = 0"
  shows "parts_run H wid (unat (rr_writer_seq_num r)) [r]"
  using assms by (simp add: parts_run_def)

lemma push_first_part_good:
  assumes "accounted mx B P w t" "highest_seq w = Some (rr_writer_seq_num r)" "r \<in> H"
    and "rr_writer_id r = wid" "part_index (rr_part r) = 0" "rr_part r \<noteq> unsplit"
  shows "good_step H wid mx B P (push_first_part mx w t r (rr_writer_seq_num r))"
proof -
  obtain w1 t1 where c: "clear_pending w t = (w1, t1)" by force
  have c1: "accounted mx B P w1 t1" "pending w1 = None" "highest_seq w1 = highest_seq w"
    using clear_pending_accounted [OF c assms(1)] by simp_all
  let ?p = "\<lparr>p_start_seq_num = rr_writer_seq_num r, p_next_part_index = 1, p_len = length (rr_data r),
              p_part_count = 1, p_chunks = push_chunk [] (rr_data r)\<rparr>"
  have "\<not> is_final (rr_part r)" using part_zero_final assms(5,6) by blast
  then have p: "wf_pending H wid (Some (rr_writer_seq_num r)) ?p"
    using single_part_run [OF assms(3-5)]
    by (simp add: wf_pending_def push_chunk_simps) (intro exI [of _ "[r]"], simp)
  show ?thesis
  proof (cases "with_added t1 ?p mx")
    case (Inl e)
    with c1 show ?thesis by (simp add: good_step_def push_first_part_def c Let_def wf_writer_None)
  next
    case (Inr t2)
    then have "accounted mx B P (w1\<lparr>pending := Some ?p\<rparr>) t2"
      by (rule accounted_add [OF c1(1,2)])
    with Inr c1 p assms(2) show ?thesis
      by (simp add: good_step_def push_first_part_def c Let_def wf_writer_def)
  qed
qed

lemma push_next_part_good:
  assumes "accounted mx B P w t" "highest_seq w = Some (rr_writer_seq_num r)" "r \<in> H"
    and "rr_writer_id r = wid" "part_index (rr_part r) = index" "index \<noteq> 0"
    and "checked_sub (rr_writer_seq_num r) (ucast index) = Some start"
    and "\<And>p. pending w = Some p \<Longrightarrow> wf_pending H wid old p"
  shows "good_step H wid mx B P (push_next_part mx w t r start index)"
proof -
  obtain x w1 t1 where tk: "take_pending w t = (x, w1, t1)" by (metis prod_cases3)
  have t1: "accounted mx B P w1 t1" "pending w1 = None" "highest_seq w1 = highest_seq w" "pending w = x"
    using take_pending_accounted [OF tk assms(1)] by simp_all
  have mx: "mx < usize_max" using assms(1) by (simp add: accounted_def)
  have start: "unat start + unat index = unat (rr_writer_seq_num r)"
    using checked_sub_Some [OF assms(7)] by (simp add: unat_ucast_index)
  consider "x = None" | p where "x = Some p" "p_start_seq_num p \<noteq> start \<or> p_next_part_index p \<noteq> index"
    | p where "x = Some p" "p_start_seq_num p = start" "p_next_part_index p = index" by (cases x) auto
  then show ?thesis
  proof cases
    case 1
    with t1 tk show ?thesis by (simp add: good_step_def push_next_part_def wf_writer_None)
  next
    case 2
    with t1 tk show ?thesis by (simp add: good_step_def push_next_part_def wf_writer_None)
  next
    case 3
    have wp: "wf_pending H wid old p" using assms(8) t1 3(1) by simp
    then obtain ps where ps: "ps \<noteq> []" "length ps = unat index" "parts_run H wid (unat start) ps"
      "concat (map rr_data ps) = concat (p_chunks p)" "\<forall>x \<in> set ps. \<not> is_final (rr_part x)"
      unfolding wf_pending_def 3 by blast
    have run: "parts_run H wid (unat start) (ps @ [r])"
      by (rule parts_run_snoc [OF ps(3) assms(3,4)]) (use start ps(2) assms(5) in simp_all)
    let ?len = "p_len p + length (rr_data r)"
    let ?chunks = "push_chunk (p_chunks p) (rr_data r)"
    have chunks: "[] \<notin> set ?chunks" "?len = sum_list (map length ?chunks)"
      "concat ?chunks = concat (map rr_data (ps @ [r]))"
      using wp ps(4) by (simp_all add: wf_pending_def push_chunk_simps)
    show ?thesis
    proof (cases "?len \<le> mx")
      case False
      then have "\<exists>e. and_then (ok_or (ReassemblyLimitExceeded usize_max mx) (usize_checked_add (p_len p) (length (rr_data r))))
          (\<lambda>len. and_then (check_reassembly_len len mx) (\<lambda>_. Inr len)) = Inl e"
        by (simp add: usize_checked_add_def check_reassembly_len_def)
      with t1 tk 3 show ?thesis
        by (auto simp: good_step_def push_next_part_def wf_writer_None)
    next
      case True
      then have len: "and_then (ok_or (ReassemblyLimitExceeded usize_max mx) (usize_checked_add (p_len p) (length (rr_data r))))
          (\<lambda>len. and_then (check_reassembly_len len mx) (\<lambda>_. Inr len)) = Inr ?len"
        using mx by (simp add: usize_checked_add_def check_reassembly_len_def)
      show ?thesis
      proof (cases "is_final (rr_part r)")
        case True
        have "assembled H wid (LogicalRecord (from_ordered_chunks ?chunks ?len))"
          unfolding assembled_def
        proof (intro conjI exI)
          show "\<forall>i < length (ps @ [r]). is_final (rr_part ((ps @ [r]) ! i)) = (i = length (ps @ [r]) - 1)"
            using ps(5) True by (auto simp: nth_append)
        qed (use from_ordered_chunks_wf [OF chunks(1,2)] chunks(3) run in simp_all)
        with True len t1 tk 3 show ?thesis
          by (simp add: good_step_def push_next_part_def Let_def wf_writer_None)
      next
        case False
        show ?thesis
        proof (cases "checked_add index 1")
          case None
          with False len t1 tk 3 show ?thesis
            by (simp add: good_step_def push_next_part_def Let_def wf_writer_None)
        next
          case (Some nxt)
          let ?p = "p\<lparr>p_len := ?len, p_part_count := sat_add (p_part_count p) 1, p_chunks := ?chunks,
            p_next_part_index := nxt\<rparr>"
          have nxt: "unat nxt = Suc (unat index)" using checked_add_Some [OF Some] by simp
          have "unat index < 2 ^ 32" using unat_lt [of index] by simp
          then have "sat_add (unat index) 1 = unat nxt" by (simp add: nxt usize_max_def)
          moreover have "p_part_count p = unat index" using wp 3 by (simp add: wf_pending_def)
          ultimately have "wf_pending H wid (Some (rr_writer_seq_num r)) ?p"
            using chunks run ps(1,2,5) nxt False 3
            by (auto simp: wf_pending_def intro!: exI [of _ "ps @ [r]"])
          moreover have "accounted mx B P (w1\<lparr>pending := Some ?p\<rparr>) t2" if "with_added t1 ?p mx = Inr t2" for t2
            by (rule accounted_add [OF t1(1,2) that])
          ultimately show ?thesis
            using False Some len t1 tk 3 assms(2)
            by (auto simp: good_step_def push_next_part_def Let_def wf_writer_None wf_writer_def split: sum.split)
        qed
      qed
    qed
  qed
qed

lemma push_to_writer_good:
  assumes "accounted mx B P w t" "wf_writer H wid w" "r \<in> H" "rr_writer_id r = wid"
  shows "good_step H wid mx B P (push_to_writer mx w t r)"
proof -
  let ?w = "w\<lparr>highest_seq := Some (rr_writer_seq_num r)\<rparr>"
  let ?dup = "case highest_seq w of None \<Rightarrow> False | Some h \<Rightarrow> rr_writer_seq_num r \<le> h"
  have acc: "accounted mx B P ?w t" using assms(1) by simp
  obtain w1 t1 where c: "clear_pending ?w t = (w1, t1)" by force
  have c1: "accounted mx B P w1 t1" "pending w1 = None"
    using clear_pending_accounted [OF c acc] by simp_all
  consider "?dup" | "\<not> ?dup" "rr_part r = unsplit"
    | "\<not> ?dup" "rr_part r \<noteq> unsplit" "checked_sub (rr_writer_seq_num r) (ucast (part_index (rr_part r))) = None"
    | start where "\<not> ?dup" "rr_part r \<noteq> unsplit"
        "checked_sub (rr_writer_seq_num r) (ucast (part_index (rr_part r))) = Some start" by blast
  then show ?thesis
  proof cases
    case 1
    with assms(1,2) show ?thesis by (simp add: push_to_writer_def good_step_def)
  next
    case 2
    have "assembled H wid (LogicalRecord (Borrowed (rr_data r)))"
      using single_part_run [OF assms(3,4)] 2(2)
      by (auto simp: assembled_def wf_data_def data_content_def intro!: exI [of _ "[r]"])
    with 2 c c1 show ?thesis by (simp add: push_to_writer_def good_step_def wf_writer_None Let_def)
  next
    case 3
    with c c1 show ?thesis by (simp add: push_to_writer_def good_step_def wf_writer_None Let_def)
  next
    case 4
    show ?thesis
    proof (cases "part_index (rr_part r) = 0")
      case True
      then have "start = rr_writer_seq_num r" using 4(3) by (simp add: checked_sub_def)
      with 4 True push_first_part_good [OF acc _ assms(3,4) True 4(2)] show ?thesis
        by (simp add: push_to_writer_def Let_def)
    next
      case False
      have "good_step H wid mx B P (push_next_part mx ?w t r start (part_index (rr_part r)))"
        by (rule push_next_part_good [OF acc _ assms(3,4) refl False 4(3), of "highest_seq w"])
          (use assms(2) in \<open>simp_all add: wf_writer_def\<close>)
      with 4 False show ?thesis by (simp add: push_to_writer_def Let_def)
    qed
  qed
qed

section \<open>The whole assembler\<close>

text \<open>The shares of a writer that is not in the table yet are zero.\<close>

lemma other_share:
  fixes f :: "writer_state \<Rightarrow> nat"
  assumes "distinct (map fst m)"
  shows "\<exists>B. sum_list (map (f \<circ> snd) m) = B + (case map_of m k of None \<Rightarrow> 0 | Some w \<Rightarrow> f w)
    \<and> (\<forall>v. sum_list (map (f \<circ> snd) (AList.update k v m)) = B + f v)"
proof -
  let ?old = "case map_of m k of None \<Rightarrow> 0 | Some w \<Rightarrow> f w"
  have *: "sum_list (map (f \<circ> snd) (AList.update k v m)) + ?old = sum_list (map (f \<circ> snd) m) + f v" for v
    by (rule sum_list_update [OF assms])
  have "?old \<le> sum_list (map (f \<circ> snd) m)"
  proof (cases "map_of m k")
    case (Some w)
    then have "(k, w) \<in> set m" by (rule map_of_SomeD)
    then have "f w \<in> set (map (f \<circ> snd) m)" by force
    with Some show ?thesis by (simp add: member_le_sum_list)
  qed simp
  then obtain B where B: "sum_list (map (f \<circ> snd) m) = ?old + B" by (metis le_add_diff_inverse)
  have "sum_list (map (f \<circ> snd) (AList.update k v m)) = B + f v" for v
    using * [of v] B by linarith
  with B show ?thesis by (intro exI [of _ B]) simp
qed

lemma push_record_inv:
  assumes a: "wf_assembler H a"
  shows "case push_record a r of (a', x) \<Rightarrow> wf_assembler (insert r H) a'
    \<and> (\<forall>l. x = Inr (Some l) \<longrightarrow> assembled (insert r H) (rr_writer_id r) l)"
proof -
  let ?H = "insert r H" and ?k = "rr_writer_id r" and ?m = "writers a"
  have d: "distinct (map fst ?m)" and ws: "\<forall>(k, w) \<in> set ?m. wf_writer ?H k w"
    using a unfolding wf_assembler_def by (auto intro: wf_writer_mono [OF _ subset_insertI])
  obtain B where B: "t_bytes (totals a) = B + (case map_of ?m ?k of None \<Rightarrow> 0 | Some w \<Rightarrow> pend_len w)"
    "\<And>v. sum_list (map (pend_len \<circ> snd) (AList.update ?k v ?m)) = B + pend_len v"
    using other_share [OF d, of pend_len ?k] a by (auto simp: wf_assembler_def)
  obtain P where P: "t_parts (totals a) = P + (case map_of ?m ?k of None \<Rightarrow> 0 | Some w \<Rightarrow> pend_parts w)"
    "\<And>v. sum_list (map (pend_parts \<circ> snd) (AList.update ?k v ?m)) = P + pend_parts v"
    using other_share [OF d, of pend_parts ?k] a by (auto simp: wf_assembler_def)
  have step: "case (case push_to_writer (max_reassembly_bytes a) w (totals a) r of (w', t', result) \<Rightarrow>
            (a\<lparr>writers := AList.update ?k w' ?m, totals := t'\<rparr>, result)) of
        (a', x) \<Rightarrow> wf_assembler ?H a' \<and> (\<forall>l. x = Inr (Some l) \<longrightarrow> assembled ?H ?k l)"
    if w: "wf_writer ?H ?k w" "t_bytes (totals a) = B + pend_len w" "t_parts (totals a) = P + pend_parts w"
      and n: "?k \<in> fst ` set ?m \<or> length ?m < MAX_RECORD_WRITER_STATES" for w
  proof -
    have "accounted (max_reassembly_bytes a) B P w (totals a)"
      using a w by (simp add: accounted_def wf_assembler_def)
    then have g: "good_step ?H ?k (max_reassembly_bytes a) B P
        (push_to_writer (max_reassembly_bytes a) w (totals a) r)"
      by (rule push_to_writer_good [OF _ w(1)]) simp_all
    obtain w' t' x where out: "push_to_writer (max_reassembly_bytes a) w (totals a) r = (w', t', x)"
      by (metis prod_cases3)
    have "\<forall>(k, v) \<in> set (AList.update ?k w' ?m). wf_writer ?H k v"
      using g ws in_set_update [of _ ?k w' ?m] by (fastforce simp: good_step_def out)
    moreover have "length (AList.update ?k w' ?m) \<le> MAX_RECORD_WRITER_STATES"
      using n a by (auto simp: length_update wf_assembler_def)
    ultimately show ?thesis
      using a g by (simp add: out good_step_def accounted_def wf_assembler_def B(2) P(2) distinct_update)
  qed
  show ?thesis
  proof (cases "map_of ?m ?k")
    case None
    show ?thesis
    proof (cases "length ?m \<ge> MAX_RECORD_WRITER_STATES")
      case True
      then show ?thesis using a ws None by (simp add: push_record_def wf_assembler_def)
    next
      case False
      with step [of writer_state_default] None B(1) P(1) show ?thesis
        by (simp add: push_record_def writer_state_default_def wf_writer_def pend_len_def pend_parts_def)
    qed
  next
    case (Some w)
    then have "(?k, w) \<in> set ?m" by (rule map_of_SomeD)
    with step [of w] Some B(1) P(1) ws show ?thesis
      by (force simp: push_record_def)
  qed
qed

lemma wf_assembler_initial: "n < usize_max \<Longrightarrow> wf_assembler {} (with_max_reassembly_bytes n)"
  by (simp add: wf_assembler_def with_max_reassembly_bytes_def)

lemma push_records_inv:
  assumes "wf_assembler H a" "push_records a rs = (a', xs)"
  shows "wf_assembler (H \<union> set rs) a' \<and> length xs = length rs
    \<and> (\<forall>i < length rs. \<forall>l. xs ! i = Inr (Some l)
         \<longrightarrow> assembled (H \<union> set (take (Suc i) rs)) (rr_writer_id (rs ! i)) l)"
  using assms
proof (induction rs arbitrary: a H xs)
  case Nil
  then show ?case by simp
next
  case (Cons r rs)
  obtain a1 x where s1: "push_record a r = (a1, x)" by force
  obtain ys where s2: "push_records a1 rs = (a', ys)" and xs: "xs = x # ys"
    using Cons.prems(2) s1 by (auto split: prod.splits)
  from push_record_inv [OF Cons.prems(1), of r] s1
  have a1: "wf_assembler (insert r H) a1" "\<forall>l. x = Inr (Some l) \<longrightarrow> assembled (insert r H) (rr_writer_id r) l"
    by auto
  from Cons.IH [OF a1(1) s2]
  have IH: "wf_assembler (insert r H \<union> set rs) a'" "length ys = length rs"
    "\<forall>i < length rs. \<forall>l. ys ! i = Inr (Some l)
       \<longrightarrow> assembled (insert r H \<union> set (take (Suc i) rs)) (rr_writer_id (rs ! i)) l"
    by auto
  have "assembled (H \<union> set (take (Suc i) (r # rs))) (rr_writer_id ((r # rs) ! i)) l"
    if "i < length (r # rs)" "(x # ys) ! i = Inr (Some l)" for i l
    using that a1(2) IH(3) by (cases i) auto
  with IH(1,2) show ?case by (auto simp: xs)
qed

section \<open>Duplicates\<close>

definition seen :: "assembler \<Rightarrow> writer_id \<Rightarrow> u64 \<Rightarrow> bool" where
  "seen a wid s \<longleftrightarrow> (\<exists>w h. map_of (writers a) wid = Some w \<and> highest_seq w = Some h \<and> s \<le> h)"

lemma seen_duplicate: "seen a (rr_writer_id r) (rr_writer_seq_num r) \<Longrightarrow> push_record a r = (a, Inr None)"
  by (auto simp: seen_def push_record_def push_to_writer_def update_triv)

lemma push_to_writer_highest:
  assumes "push_to_writer mx w t r = (w', t', x)"
  shows "\<exists>h. highest_seq w' = Some h \<and> rr_writer_seq_num r \<le> h \<and> (\<forall>h0. highest_seq w = Some h0 \<longrightarrow> h0 \<le> h)"
proof -
  have clear: "highest_seq (fst (clear_pending v u)) = highest_seq v" for v u
    by (simp add: clear_pending_def take_pending_def split: option.split)
  have first: "highest_seq (fst (push_first_part mx v u r s)) = highest_seq v" for v u s
    using clear [of v u] by (auto simp: push_first_part_def Let_def split: prod.splits sum.splits)
  have rest: "highest_seq (fst (push_next_part mx v u r s i)) = highest_seq v" for v u s i
    by (auto simp: push_next_part_def take_pending_def Let_def split: prod.splits sum.splits option.splits)
  let ?w = "w\<lparr>highest_seq := Some (rr_writer_seq_num r)\<rparr>"
  show ?thesis
  proof (cases "case highest_seq w of None \<Rightarrow> False | Some h \<Rightarrow> rr_writer_seq_num r \<le> h")
    case True
    with assms show ?thesis by (auto simp: push_to_writer_def split: option.splits)
  next
    case False
    have "highest_seq w' = highest_seq ?w"
      using assms False clear [of ?w t] first [of ?w t] rest [of ?w t]
      by (auto simp: push_to_writer_def Let_def split: prod.splits option.splits if_splits)
        (metis fst_conv)+
    with False show ?thesis by (auto split: option.splits)
  qed
qed

lemma push_record_cases:
  assumes "push_record a r = (a', x)"
  obtains (refused) n m where "a' = a" "x = Inl (WriterStateLimitExceeded n m)"
  | (writer) w w' t' where "map_of (writers a) (rr_writer_id r) = Some w
        \<or> map_of (writers a) (rr_writer_id r) = None \<and> w = writer_state_default"
      "push_to_writer (max_reassembly_bytes a) w (totals a) r = (w', t', x)"
      "a' = a\<lparr>writers := AList.update (rr_writer_id r) w' (writers a), totals := t'\<rparr>"
proof -
  let ?w = "case map_of (writers a) (rr_writer_id r) of None \<Rightarrow> writer_state_default | Some w \<Rightarrow> w"
  obtain w' t' y where out: "push_to_writer (max_reassembly_bytes a) ?w (totals a) r = (w', t', y)"
    by (metis prod_cases3)
  show thesis
  proof (cases "map_of (writers a) (rr_writer_id r) = None \<and> MAX_RECORD_WRITER_STATES \<le> length (writers a)")
    case True
    with assms have "a' = a" "x = Inl (WriterStateLimitExceeded (sat_add (length (writers a)) 1) MAX_RECORD_WRITER_STATES)"
      by (auto simp: push_record_def)
    then show thesis by (rule refused)
  next
    case False
    have "map_of (writers a) (rr_writer_id r) = Some ?w
        \<or> map_of (writers a) (rr_writer_id r) = None \<and> ?w = writer_state_default"
      by (auto split: option.split)
    moreover have "y = x" "a' = a\<lparr>writers := AList.update (rr_writer_id r) w' (writers a), totals := t'\<rparr>"
      using assms False out by (auto simp: push_record_def Let_def split: option.splits)
    ultimately show thesis using out writer by blast
  qed
qed

lemma push_record_seen:
  assumes "push_record a r = (a', x)" "\<nexists>n m. x = Inl (WriterStateLimitExceeded n m)"
  shows "seen a' (rr_writer_id r) (rr_writer_seq_num r)"
  using assms(1)
proof (cases rule: push_record_cases)
  case refused
  with assms(2) show ?thesis by blast
next
  case (writer w w' t')
  from push_to_writer_highest [OF writer(2)] writer(3) show ?thesis
    by (auto simp: seen_def update_conv')
qed

lemma seen_push_record:
  assumes "seen a wid s" "push_record a r = (a', x)"
  shows "seen a' wid s"
  using assms(2)
proof (cases rule: push_record_cases)
  case refused
  with assms(1) show ?thesis by simp
next
  case (writer w w' t')
  from push_to_writer_highest [OF writer(2)] obtain h where h: "highest_seq w' = Some h"
    "\<And>h0. highest_seq w = Some h0 \<Longrightarrow> h0 \<le> h" by blast
  show ?thesis
    using assms(1) writer(1,3) h
    by (cases "wid = rr_writer_id r") (auto simp: seen_def update_conv' intro: order_trans)
qed

lemma seen_push_records: "seen a wid s \<Longrightarrow> push_records a rs = (a', xs) \<Longrightarrow> seen a' wid s"
  by (induction rs arbitrary: a xs) (auto split: prod.splits dest: seen_push_record)

section \<open>Split records come back together\<close>

fun push_run :: "nat \<Rightarrow> writer_state \<Rightarrow> pending_totals \<Rightarrow> read_record list
    \<Rightarrow> writer_state \<times> pending_totals \<times> (logical_record_error + logical_record option) list" where
  "push_run mx w t [] = (w, t, [])"
| "push_run mx w t (r # rs) =
     (case push_to_writer mx w t r of (w', t', x) \<Rightarrow>
      case push_run mx w' t' rs of (w'', t'', xs) \<Rightarrow> (w'', t'', x # xs))"

lemma push_records_one_writer:
  assumes "push_run (max_reassembly_bytes a) w (totals a) rs = (w', t', xs)"
    and "\<forall>r \<in> set rs. rr_writer_id r = wid" "rs \<noteq> []"
    and "map_of (writers a) wid = Some w
      \<or> map_of (writers a) wid = None \<and> w = writer_state_default \<and> length (writers a) < MAX_RECORD_WRITER_STATES"
  shows "push_records a rs = (a\<lparr>writers := AList.update wid w' (writers a), totals := t'\<rparr>, xs)"
  using assms
proof (induction rs arbitrary: a w xs)
  case Nil
  then show ?case by simp
next
  case (Cons r rs)
  obtain w1 t1 x where s1: "push_to_writer (max_reassembly_bytes a) w (totals a) r = (w1, t1, x)"
    by (metis prod_cases3)
  obtain ys where s2: "push_run (max_reassembly_bytes a) w1 t1 rs = (w', t', ys)" and xs: "xs = x # ys"
    using Cons.prems(1) s1 by (auto split: prod.splits)
  let ?a = "a\<lparr>writers := AList.update wid w1 (writers a), totals := t1\<rparr>"
  have p: "push_record a r = (?a, x)"
  proof -
    have r: "rr_writer_id r = wid" using Cons.prems(2) by simp
    from Cons.prems(4) show ?thesis
    proof (elim disjE conjE)
      assume "map_of (writers a) wid = Some w"
      with r s1 show ?thesis by (simp add: push_record_def Let_def)
    next
      assume "map_of (writers a) wid = None" "w = writer_state_default"
        "length (writers a) < MAX_RECORD_WRITER_STATES"
      with r s1 show ?thesis by (simp add: push_record_def Let_def)
    qed
  qed
  show ?case
  proof (cases "rs = []")
    case True
    with p s2 xs show ?thesis by simp
  next
    case False
    have "push_records ?a rs = (?a\<lparr>writers := AList.update wid w' (writers ?a), totals := t'\<rparr>, ys)"
      by (rule Cons.IH) (use s2 Cons.prems(2) False in \<open>simp_all add: update_conv'\<close>)
    then show ?thesis unfolding push_records.simps p xs by simp
  qed
qed

text \<open>The state of a writer after the first parts of a record, with \<open>pre\<close> their bytes.\<close>

definition midway :: "u64 \<Rightarrow> nat \<Rightarrow> bytes \<Rightarrow> writer_state \<Rightarrow> bool" where
  "midway start k pre w \<longleftrightarrow> (\<exists>p h. pending w = Some p \<and> highest_seq w = Some h
     \<and> p_start_seq_num p = start \<and> unat (p_next_part_index p) = k \<and> p_part_count p = k
     \<and> p_len p = length pre \<and> concat (p_chunks p) = pre \<and> [] \<notin> set (p_chunks p)
     \<and> unat h < unat start + k)"

definition nth_part :: "writer_id \<Rightarrow> u64 \<Rightarrow> nat \<Rightarrow> nat \<Rightarrow> read_record \<Rightarrow> bool" where
  "nth_part wid start n i r \<longleftrightarrow> rr_writer_id r = wid \<and> unat (rr_writer_seq_num r) = unat start + i
     \<and> unat (part_index (rr_part r)) = i \<and> is_final (rr_part r) = (i = n - 1)"

lemma nth_part_start:
  assumes "nth_part wid start n i r"
  shows "checked_sub (rr_writer_seq_num r) (ucast (part_index (rr_part r))) = Some start"
proof -
  let ?i = "ucast (part_index (rr_part r)) :: u64"
  have i: "unat ?i = i" using assms by (simp add: nth_part_def unat_ucast_index)
  then have le: "?i \<le> rr_writer_seq_num r" using assms by (simp add: nth_part_def word_le_nat_alt)
  then have "unat (rr_writer_seq_num r - ?i) = unat start"
    using assms i by (simp add: unat_sub nth_part_def)
  then show ?thesis using le by (simp add: checked_sub_def word_unat_eq_iff)
qed

lemma push_next_midway:
  assumes "midway start k pre w" "nth_part wid start n k r" "0 < k" "k < n"
    and "accounted mx B P w t" "B + length pre + length (rr_data r) \<le> mx"
    and "P + n \<le> MAX_RECORD_TOTAL_PENDING_PARTS"
  shows "\<exists>w' t' x. push_to_writer mx w t r = (w', t', x) \<and>
    (if k = n - 1 then \<exists>d. x = Inr (Some (LogicalRecord d)) \<and> wf_data d \<and> data_content d = pre @ rr_data r
     else x = Inr None \<and> midway start (Suc k) (pre @ rr_data r) w' \<and> accounted mx B P w' t')"
proof -
  let ?w = "w\<lparr>highest_seq := Some (rr_writer_seq_num r)\<rparr>"
  let ?i = "part_index (rr_part r)"
  from assms(1) obtain p h where p: "pending w = Some p" "highest_seq w = Some h"
    "p_start_seq_num p = start" "unat (p_next_part_index p) = k" "p_part_count p = k"
    "p_len p = length pre" "concat (p_chunks p) = pre" "[] \<notin> set (p_chunks p)" "unat h < unat start + k"
    unfolding midway_def by blast
  have i: "unat ?i = k" "p_next_part_index p = ?i"
    using assms(2) p(4) by (simp_all add: nth_part_def word_unat_eq_iff)
  have fresh: "\<not> rr_writer_seq_num r \<le> h"
    using p(9) assms(2) by (simp add: nth_part_def word_le_nat_alt)
  have "?i \<noteq> 0" using i(1) assms(3) by auto
  then have "rr_part r \<noteq> unsplit" by auto
  then have go: "push_to_writer mx w t r = push_next_part mx ?w t r start ?i"
    using fresh p(2) nth_part_start [OF assms(2)] \<open>?i \<noteq> 0\<close> by (simp add: push_to_writer_def Let_def)
  obtain w1 t1 where tk: "take_pending ?w t = (Some p, w1, t1)" by (simp add: take_pending_def p(1))
  have acc: "accounted mx B P ?w t" using assms(5) by simp
  have t1: "accounted mx B P w1 t1" "pending w1 = None" "highest_seq w1 = Some (rr_writer_seq_num r)"
    "t_bytes t1 = B" "t_parts t1 = P"
    using take_pending_accounted [OF tk acc] by simp_all
  have mx: "mx < usize_max" using assms(5) by (simp add: accounted_def)
  let ?len = "p_len p + length (rr_data r)" and ?chunks = "push_chunk (p_chunks p) (rr_data r)"
  have len: "and_then (ok_or (ReassemblyLimitExceeded usize_max mx) (usize_checked_add (p_len p) (length (rr_data r))))
      (\<lambda>len. and_then (check_reassembly_len len mx) (\<lambda>_. Inr len)) = Inr ?len"
    using mx assms(6) p(6) by (simp add: usize_checked_add_def check_reassembly_len_def)
  have chunks: "[] \<notin> set ?chunks" "concat ?chunks = pre @ rr_data r" "?len = sum_list (map length ?chunks)"
    using p(6-8) by (auto simp: push_chunk_simps length_concat)
  show ?thesis
  proof (cases "k = n - 1")
    case True
    then have "is_final (rr_part r)" using assms(2) by (simp add: nth_part_def)
    with True from_ordered_chunks_wf [OF chunks(1,3)] chunks(2) len tk p(3) i(2) show ?thesis
      by (simp add: go push_next_part_def Let_def)
  next
    case False
    have "unat ?i + 1 < 2 ^ 32"
      using i(1) assms(4,7) by (simp add: MAX_RECORD_TOTAL_PENDING_PARTS_def)
    then have nxt: "checked_add ?i 1 = Some (?i + 1)" "unat (?i + 1) = Suc k"
      using i(1) by (simp_all add: checked_add_def unat_word_ariths)
    have "sat_add k 1 = Suc k"
      using assms(4,7) by (simp add: MAX_RECORD_TOTAL_PENDING_PARTS_def usize_max_def)
    let ?p = "p\<lparr>p_len := ?len, p_part_count := sat_add (p_part_count p) 1, p_chunks := ?chunks,
            p_next_part_index := ?i + 1\<rparr>"
    have "\<exists>t2. with_added t1 ?p mx = Inr t2"
      using assms(4,6,7) t1(4,5) p(5,6) \<open>sat_add k 1 = Suc k\<close> by (simp add: with_added_Inr [OF mx])
    then obtain t2 where t2: "with_added t1 ?p mx = Inr t2" ..
    have "accounted mx B P (w1\<lparr>pending := Some ?p\<rparr>) t2" by (rule accounted_add [OF t1(1,2) t2])
    moreover have "midway start (Suc k) (pre @ rr_data r) (w1\<lparr>pending := Some ?p\<rparr>)"
      using t1(3) p(3,5,6) nxt(2) chunks(1,2) assms(2) \<open>sat_add k 1 = Suc k\<close>
      by (simp add: midway_def nth_part_def)
    moreover have "\<not> is_final (rr_part r)" using assms(2) False by (simp add: nth_part_def)
    ultimately show ?thesis
      using False len tk p(3) i(2) nxt(1) t2 by (simp add: go push_next_part_def Let_def)
  qed
qed

lemma push_run_midway:
  assumes "midway start k pre w" "0 < k" "accounted mx B P w t"
    and "\<forall>i < length ds. nth_part wid start n (k + i) (ds ! i)" "k + length ds = n" "ds \<noteq> []"
    and "B + length pre + sum_list (map (length \<circ> rr_data) ds) \<le> mx"
    and "P + n \<le> MAX_RECORD_TOTAL_PENDING_PARTS"
  shows "\<exists>w' t' d. push_run mx w t ds
      = (w', t', replicate (length ds - 1) (Inr None) @ [Inr (Some (LogicalRecord d))])
    \<and> wf_data d \<and> data_content d = pre @ concat (map rr_data ds)"
  using assms
proof (induction ds arbitrary: k pre w t)
  case Nil
  then show ?case by simp
next
  case (Cons r ds)
  have r: "nth_part wid start n k r" "k < n" using Cons.prems(4,5) by force+
  have le: "B + length pre + length (rr_data r) \<le> mx" using Cons.prems(7) by simp
  obtain w1 t1 x where s1: "push_to_writer mx w t r = (w1, t1, x)"
    and x: "if k = n - 1 then \<exists>d. x = Inr (Some (LogicalRecord d)) \<and> wf_data d \<and> data_content d = pre @ rr_data r
     else x = Inr None \<and> midway start (Suc k) (pre @ rr_data r) w1 \<and> accounted mx B P w1 t1"
    using push_next_midway [OF Cons.prems(1) r(1) Cons.prems(2) r(2) Cons.prems(3) le Cons.prems(8)] by blast
  show ?case
  proof (cases "ds = []")
    case True
    with Cons.prems(5) x s1 show ?thesis by auto
  next
    case False
    then have "k \<noteq> n - 1" using Cons.prems(5) by (cases ds) auto
    with x have x': "x = Inr None" "midway start (Suc k) (pre @ rr_data r) w1" "accounted mx B P w1 t1" by auto
    have nth: "\<forall>i < length ds. nth_part wid start n (Suc k + i) (ds ! i)"
      using Cons.prems(4) by fastforce
    have "\<exists>w' t' d. push_run mx w1 t1 ds
        = (w', t', replicate (length ds - 1) (Inr None) @ [Inr (Some (LogicalRecord d))])
      \<and> wf_data d \<and> data_content d = (pre @ rr_data r) @ concat (map rr_data ds)"
      by (rule Cons.IH [OF x'(2) _ x'(3) nth]) (use Cons.prems False in auto)
    moreover have "length ds = Suc (length ds - 1)" using False by simp
    ultimately show ?thesis using s1 x'(1) by (auto simp: replicate_Suc [symmetric] simp del: replicate_Suc)
  qed
qed

lemma push_first_midway:
  assumes "nth_part wid start n 0 r" "1 < n" "\<forall>h. highest_seq w = Some h \<longrightarrow> h < start"
    and "accounted mx B P w t" "B + length (rr_data r) \<le> mx" "P + n \<le> MAX_RECORD_TOTAL_PENDING_PARTS"
  shows "\<exists>w' t'. push_to_writer mx w t r = (w', t', Inr None) \<and> midway start 1 (rr_data r) w'
    \<and> accounted mx B P w' t'"
proof -
  let ?w = "w\<lparr>highest_seq := Some (rr_writer_seq_num r)\<rparr>"
  have i: "part_index (rr_part r) = 0" "rr_writer_seq_num r = start" "rr_part r \<noteq> unsplit"
    using assms(1,2) by (auto simp: nth_part_def word_unat_eq_iff)
  have fresh: "\<not> (case highest_seq w of None \<Rightarrow> False | Some h \<Rightarrow> rr_writer_seq_num r \<le> h)"
    using assms(3) by (auto simp: i(2) split: option.splits)
  then have go: "push_to_writer mx w t r = push_first_part mx ?w t r start"
    using i nth_part_start [OF assms(1)] by (simp add: push_to_writer_def Let_def)
  obtain w1 t1 where c: "clear_pending ?w t = (w1, t1)" by force
  have acc: "accounted mx B P ?w t" using assms(4) by simp
  have c1: "accounted mx B P w1 t1" "pending w1 = None" "highest_seq w1 = Some (rr_writer_seq_num r)"
    "t_bytes t1 = B" "t_parts t1 = P"
    using clear_pending_accounted [OF c acc] by simp_all
  let ?p = "\<lparr>p_start_seq_num = start, p_next_part_index = 1, p_len = length (rr_data r),
              p_part_count = 1, p_chunks = push_chunk [] (rr_data r)\<rparr>"
  have "mx < usize_max" using assms(4) by (simp add: accounted_def)
  then have "\<exists>t2. with_added t1 ?p mx = Inr t2"
    using assms(2,5,6) c1(4,5) by (simp add: with_added_Inr)
  then obtain t2 where t2: "with_added t1 ?p mx = Inr t2" ..
  have "accounted mx B P (w1\<lparr>pending := Some ?p\<rparr>) t2" by (rule accounted_add [OF c1(1,2) t2])
  moreover have "midway start 1 (rr_data r) (w1\<lparr>pending := Some ?p\<rparr>)"
    using c1(3) by (simp add: midway_def push_chunk_simps i(2))
  ultimately show ?thesis using t2 by (simp add: go push_first_part_def c Let_def)
qed

lemma push_run_all:
  assumes "\<forall>i < length ds. nth_part wid start (length ds) i (ds ! i)" "ds \<noteq> []"
    and "\<forall>h. highest_seq w = Some h \<longrightarrow> h < start" "accounted mx B P w t"
    and "B + sum_list (map (length \<circ> rr_data) ds) \<le> mx"
    and "P + length ds \<le> MAX_RECORD_TOTAL_PENDING_PARTS"
    and "length ds = 1 \<longrightarrow> rr_part (hd ds) = unsplit"
  shows "\<exists>w' t' d. push_run mx w t ds
      = (w', t', replicate (length ds - 1) (Inr None) @ [Inr (Some (LogicalRecord d))])
    \<and> wf_data d \<and> data_content d = concat (map rr_data ds)"
proof (cases ds)
  case Nil
  with assms(2) show ?thesis by simp
next
  case ds: (Cons r rs)
  have r: "nth_part wid start (length ds) 0 r" using assms(1) ds by force
  show ?thesis
  proof (cases "rs = []")
    case True
    have "rr_writer_seq_num r = start" using r by (simp add: nth_part_def word_unat_eq_iff)
    then have "\<not> (case highest_seq w of None \<Rightarrow> False | Some h \<Rightarrow> rr_writer_seq_num r \<le> h)"
      using assms(3) by (auto split: option.splits)
    moreover obtain w1 t1 where "clear_pending (w\<lparr>highest_seq := Some (rr_writer_seq_num r)\<rparr>) t = (w1, t1)"
      by force
    ultimately show ?thesis
      using True assms(7) by (simp add: ds push_to_writer_def Let_def wf_data_def data_content_def)
  next
    case False
    then have n: "1 < length ds" by (simp add: ds)
    have le: "B + length (rr_data r) \<le> mx" using assms(5) by (simp add: ds)
    obtain w1 t1 where s1: "push_to_writer mx w t r = (w1, t1, Inr None)"
      and m: "midway start 1 (rr_data r) w1" "accounted mx B P w1 t1"
      using push_first_midway [OF r n assms(3,4) le assms(6)] by blast
    have nth: "\<forall>i < length rs. nth_part wid start (length ds) (1 + i) (rs ! i)"
      using assms(1) ds by fastforce
    have "\<exists>w' t' d. push_run mx w1 t1 rs
        = (w', t', replicate (length rs - 1) (Inr None) @ [Inr (Some (LogicalRecord d))])
      \<and> wf_data d \<and> data_content d = rr_data r @ concat (map rr_data rs)"
      by (rule push_run_midway [OF m(1) _ m(2) nth]) (use assms(5,6) False in \<open>auto simp: ds\<close>)
    moreover have "length rs = Suc (length rs - 1)" using False by simp
    ultimately show ?thesis
      using s1 by (auto simp: ds replicate_Suc [symmetric] simp del: replicate_Suc)
  qed
qed

text \<open>A delivered copy of a submitted record: same writer, sequence, part and bytes; the stream's own
  sequence number and timestamp are whatever the service assigned.\<close>

definition delivers :: "writer_id \<Rightarrow> append_record \<Rightarrow> read_record \<Rightarrow> bool" where
  "delivers wid r d \<longleftrightarrow> rr_writer_id d = wid \<and> rr_writer_seq_num d = ar_writer_seq_num r
     \<and> rr_part d = ar_part r \<and> rr_data d = ar_data r"

lemma split_logical_record_Inr:
  assumes "split_logical_record start data = (Inr recs :: 'j frame_codec_error + append_record list)"
  shows "\<exists>ps. split_record_payloads data = (Inr ps :: 'j frame_codec_error + record_payload list)
    \<and> split_of data ps \<and> length recs = length ps \<and> length ps \<le> 2 ^ 31
    \<and> unat start + length ps < 2 ^ 64
    \<and> (\<forall>i < length ps. unat (ar_writer_seq_num (recs ! i)) = unat start + i
         \<and> ar_part (recs ! i) = rp_part (ps ! i) \<and> ar_data (recs ! i) = rp_data (ps ! i))"
proof -
  obtain ps c where ps: "split_record_payloads data = (Inr ps :: 'j frame_codec_error + record_payload list)"
    "checked_add start (of_nat (length ps)) = Some c"
    "recs = map (\<lambda>(index, payload). \<lparr>ar_writer_seq_num = start + of_nat index,
                 ar_part = rp_part payload, ar_data = rp_data payload\<rparr>) (enumerate 0 ps)"
    using assms by (auto simp: split_logical_record_def and_then_eq_Inr)
  have sp: "split_of data ps"
    using split_record_payloads_cases [of data, where 'j = 'j] ps(1) by auto
  then have "unat (part_index (rp_part (ps ! (length ps - 1)))) = length ps - 1" "ps \<noteq> []"
    by (auto simp: split_of_def)
  moreover have "unat (part_index q) \<le> 2 ^ 31 - 1" for q
    using part_index_le [of q] by (simp add: word_le_nat_alt MAX_INDEX_def)
  ultimately have len: "length ps \<le> 2 ^ 31"
    by (metis (no_types, lifting) Suc_pred' add_leE le_diff_conv length_greater_0_conv one_le_numeral one_le_power
        ordered_cancel_comm_monoid_diff_class.le_diff_conv2 plus_1_eq_Suc add.commute)
  then have n: "unat (of_nat (length ps) :: u64) = length ps" by (simp add: unat_of_nat)
  then have lt: "unat start + length ps < 2 ^ 64" using ps(2) by (simp add: checked_add_eq_Some)
  have "unat (start + of_nat i) = unat start + i" if "i < length ps" for i
    using that lt len by (simp add: unat_word_ariths unat_of_nat)
  with ps sp len lt show ?thesis by (auto simp: nth_enumerate_eq)
qed

text \<open>C25: No logical record is invented. From a fresh assembler with any byte limit, after any sequence of
  records, errors included: the assembler still satisfies its invariant (its totals are the sums
  over its pending records and within the limits of the byte budget, of 16384 parts and of 4096
  writers), and every logical record it returned is exactly the concatenation of parts already
  pushed, all of the record's writer, with consecutive writer sequences, numbered from zero, of
  which the last and only the last is final.\<close>

theorem assembler_sound:
  assumes "limit < usize_max" "push_records (with_max_reassembly_bytes limit) rs = (a, xs)"
  shows "wf_assembler (set rs) a \<and> length xs = length rs
    \<and> (\<forall>i < length rs. \<forall>l. xs ! i = Inr (Some l)
         \<longrightarrow> assembled (set (take (Suc i) rs)) (rr_writer_id (rs ! i)) l)"
  using push_records_inv [OF wf_assembler_initial [OF assms(1)] assms(2)] by simp

definition sample_record :: "u64 \<Rightarrow> u32 \<Rightarrow> bytes \<Rightarrow> read_record" where
  "sample_record s part data = \<lparr>rr_seq_num = s, rr_timestamp_ms = 0,
     rr_writer_id = WriterId (replicate 16 0), rr_writer_seq_num = s, rr_part = PartHeader part, rr_data = data\<rparr>"

theorem assembler_sound_witness:
  "case push_records (with_max_reassembly_bytes 100) [sample_record 1 0 [1], sample_record 2 0x80000001 [2]] of
     (a, xs) \<Rightarrow> wf_assembler {sample_record 1 0 [1], sample_record 2 0x80000001 [2]} a \<and> length xs = 2"
proof -
  have "(100 :: nat) < usize_max" by (simp add: usize_max_def)
  obtain a xs where p: "push_records (with_max_reassembly_bytes 100)
      [sample_record 1 0 [1], sample_record 2 0x80000001 [2]] = (a, xs)" by force
  from assembler_sound [OF \<open>100 < usize_max\<close> p] show ?thesis unfolding p by simp
qed

text \<open>C30: Retransmissions are suppressed. Once a record has been taken in, any later record of the same
  writer whose sequence number is not larger, no matter what other records came in between, yields
  nothing and leaves the assembler exactly as it was.\<close>

theorem duplicates_suppressed:
  assumes "push_record a r = (a1, x)" "\<nexists>n m. x = Inl (WriterStateLimitExceeded n m)"
    and "push_records a1 between = (a2, xs)"
    and "rr_writer_id dup = rr_writer_id r" "rr_writer_seq_num dup \<le> rr_writer_seq_num r"
  shows "push_record a2 dup = (a2, Inr None)"
proof -
  have "seen a2 (rr_writer_id r) (rr_writer_seq_num r)"
    by (rule seen_push_records [OF push_record_seen [OF assms(1,2)] assms(3)])
  then have "seen a2 (rr_writer_id dup) (rr_writer_seq_num dup)"
    using assms(4,5) by (auto simp: seen_def intro: order_trans)
  then show ?thesis by (rule seen_duplicate)
qed

theorem duplicates_suppressed_witness:
  "push_record (fst (push_record (with_max_reassembly_bytes 100) (sample_record 5 0x80000000 [1])))
     (sample_record 5 0x80000000 [1])
   = (fst (push_record (with_max_reassembly_bytes 100) (sample_record 5 0x80000000 [1])), Inr None)"
proof -
  let ?a = "with_max_reassembly_bytes 100" and ?r = "sample_record 5 0x80000000 [1]"
  have "push_record ?a ?r = (fst (push_record ?a ?r), snd (push_record ?a ?r))" by simp
  moreover have "\<nexists>n m. snd (push_record ?a ?r) = Inl (WriterStateLimitExceeded n m)"
    by (simp add: push_record_def with_max_reassembly_bytes_def MAX_RECORD_WRITER_STATES_def Let_def
        push_to_writer_def writer_state_default_def sample_record_def unsplit_def FINAL_BIT_def
        clear_pending_def take_pending_def)
  moreover have "push_records (fst (push_record ?a ?r)) [] = (fst (push_record ?a ?r), [])" by simp
  ultimately show ?thesis by (rule duplicates_suppressed) simp_all
qed

text \<open>A split record comes back whole. Splitting a payload at a sequence number with
  \<open>split_logical_record\<close> and delivering the parts, in order, to an assembler that has not seen those
  sequence numbers and has room for them returns nothing for every part but the last, and for the
  last one a logical record whose payload is the original bytes.\<close>

theorem split_then_reassemble:
  assumes "split_logical_record start data = (Inr recs :: 'j frame_codec_error + append_record list)"
    and "list_all2 (delivers wid) recs ds" and "wf_assembler H a"
    and "\<And>w h. map_of (writers a) wid = Some w \<Longrightarrow> highest_seq w = Some h \<Longrightarrow> h < start"
    and "map_of (writers a) wid \<noteq> None \<or> length (writers a) < MAX_RECORD_WRITER_STATES"
    and "t_bytes (totals a) + length data \<le> max_reassembly_bytes a"
    and "t_parts (totals a) + length recs \<le> MAX_RECORD_TOTAL_PENDING_PARTS"
  shows "\<exists>a' d. push_records a ds
      = (a', replicate (length recs - 1) (Inr None) @ [Inr (Some (LogicalRecord d))])
    \<and> wf_data d \<and> data_content d = data"
proof -
  obtain ps where ps: "split_of data ps" "length recs = length ps"
    "\<forall>i < length ps. unat (ar_writer_seq_num (recs ! i)) = unat start + i
         \<and> ar_part (recs ! i) = rp_part (ps ! i) \<and> ar_data (recs ! i) = rp_data (ps ! i)"
    using split_logical_record_Inr [OF assms(1)] by blast
  have len: "length ds = length ps" "ds \<noteq> []"
    using assms(2) ps(1,2) by (auto simp: list_all2_lengthD split_of_def)
  have ds: "rr_writer_id (ds ! i) = wid" "unat (rr_writer_seq_num (ds ! i)) = unat start + i"
      "rr_part (ds ! i) = rp_part (ps ! i)" "rr_data (ds ! i) = rp_data (ps ! i)" if "i < length ps" for i
    using list_all2_nthD [OF assms(2), of i] ps(2,3) that by (auto simp: delivers_def)
  have nth: "\<forall>i < length ds. nth_part wid start (length ds) i (ds ! i)"
    using ds ps(1) by (simp add: nth_part_def len(1) split_of_def)
  have "map rr_data ds = map rp_data ps" using ds(4) len(1) by (simp add: list_eq_iff_nth_eq)
  then have data: "concat (map rr_data ds) = data" using ps(1) by (simp add: split_of_def)
  have one: "length ds = 1 \<longrightarrow> rr_part (hd ds) = unsplit"
  proof
    assume "length ds = 1"
    then have "nth_part wid start 1 0 (hd ds)" using nth len(2) by (simp add: hd_conv_nth)
    then show "rr_part (hd ds) = unsplit" by (intro part_zero_final) (simp_all add: nth_part_def word_unat_eq_iff)
  qed
  let ?w = "case map_of (writers a) wid of None \<Rightarrow> writer_state_default | Some w \<Rightarrow> w"
  have d: "distinct (map fst (writers a))" using assms(3) by (simp add: wf_assembler_def)
  have z: "(case map_of (writers a) wid of None \<Rightarrow> 0 | Some w \<Rightarrow> pend_len w) = pend_len ?w"
      "(case map_of (writers a) wid of None \<Rightarrow> 0 | Some w \<Rightarrow> pend_parts w) = pend_parts ?w"
    by (simp_all add: pend_len_def pend_parts_def writer_state_default_def split: option.split)
  obtain B where B: "t_bytes (totals a) = B + pend_len ?w"
    using other_share [OF d, of pend_len wid] assms(3) by (auto simp: wf_assembler_def z)
  obtain P where P: "t_parts (totals a) = P + pend_parts ?w"
    using other_share [OF d, of pend_parts wid] assms(3) by (auto simp: wf_assembler_def z)
  have "accounted (max_reassembly_bytes a) B P ?w (totals a)"
    using assms(3) B P by (simp add: accounted_def wf_assembler_def)
  moreover have "\<forall>h. highest_seq ?w = Some h \<longrightarrow> h < start"
    using assms(4) by (auto simp: writer_state_default_def split: option.split)
  moreover have "sum_list (map (length \<circ> rr_data) ds) = length data"
    by (simp add: data [symmetric] length_concat o_def)
  ultimately obtain w' t' dd where run: "push_run (max_reassembly_bytes a) ?w (totals a) ds
      = (w', t', replicate (length ds - 1) (Inr None) @ [Inr (Some (LogicalRecord dd))])"
      "wf_data dd" "data_content dd = concat (map rr_data ds)"
    using push_run_all [OF nth len(2) _ _ _ _ one, of ?w "max_reassembly_bytes a" B P "totals a"]
      assms(6,7) B P len(1) ps(2) by auto
  have "push_records a ds = (a\<lparr>writers := AList.update wid w' (writers a), totals := t'\<rparr>,
      replicate (length ds - 1) (Inr None) @ [Inr (Some (LogicalRecord dd))])"
    by (rule push_records_one_writer [OF run(1) _ len(2)])
      (use ds(1) len(1) assms(5) in \<open>auto simp: in_set_conv_nth split: option.splits\<close>)
  with run(2,3) data len(1) ps(2) show ?thesis by auto
qed

theorem split_then_reassemble_witness:
  "\<exists>a' d. push_records (with_max_reassembly_bytes 100) [sample_record 5 0x80000000 [1, 2]]
      = (a', [Inr (Some (LogicalRecord d))])
    \<and> wf_data d \<and> data_content d = [1, 2]"
proof -
  let ?rec = "\<lparr>ar_writer_seq_num = 5, ar_part = unsplit, ar_data = [1, 2]\<rparr>"
  have "split_logical_record 5 [1, 2] = (Inr [?rec] :: unit frame_codec_error + append_record list)"
    by (simp add: split_logical_record_def split_record_payloads_def div_ceil_def MAX_RECORD_PAYLOAD_BYTES_def
        checked_add_def enumerate_eq_zip)
  moreover have "list_all2 (delivers (WriterId (replicate 16 0))) [?rec] [sample_record 5 0x80000000 [1, 2]]"
    by (simp add: delivers_def sample_record_def unsplit_def FINAL_BIT_def)
  moreover have "wf_assembler {} (with_max_reassembly_bytes 100)"
    by (rule wf_assembler_initial) (simp add: usize_max_def)
  ultimately have "\<exists>a' d. push_records (with_max_reassembly_bytes 100) [sample_record 5 0x80000000 [1, 2]]
      = (a', replicate (length [?rec] - 1) (Inr None) @ [Inr (Some (LogicalRecord d))])
    \<and> wf_data d \<and> data_content d = [1, 2]"
    by (rule split_then_reassemble)
      (simp_all add: with_max_reassembly_bytes_def MAX_RECORD_WRITER_STATES_def MAX_RECORD_TOTAL_PENDING_PARTS_def)
  then show ?thesis by simp
qed

end
