(* ===== verification/TerminalProtocol.thy ===== *)
theory TerminalProtocol
  imports Frames
begin

text \<open>
  \<open>rust/src/protocol/terminal.rs\<close>: the versioned terminal events carried by byte records. The
  encoders allocate a zeroed buffer and copy fields into its sub-ranges; \<open>write_at\<close> is that copy.
  The signed exit status is its 32-bit pattern, which is all the codec handles.
\<close>

section \<open>Constants and events\<close>

definition TERMINAL_EVENT_VERSION :: u8 where "TERMINAL_EVENT_VERSION = 0x01"
definition MAX_TERMINAL_COLUMNS :: u16 where [const_defs]: "MAX_TERMINAL_COLUMNS = 1000"
definition MAX_TERMINAL_ROWS :: u16 where [const_defs]: "MAX_TERMINAL_ROWS = 500"
definition MAX_TERMINAL_CELLS :: u32 where [const_defs]: "MAX_TERMINAL_CELLS = 131072"
definition TERMINAL_CHECKPOINT_RECORD_INTERVAL :: nat where
  [const_defs]: "TERMINAL_CHECKPOINT_RECORD_INTERVAL = 512"
definition HEADER_LEN :: nat where "HEADER_LEN = 2"
definition SIZE_EVENT_LEN :: nat where "SIZE_EVENT_LEN = HEADER_LEN + 4"
definition EXITED_EVENT_LEN :: nat where "EXITED_EVENT_LEN = HEADER_LEN + 5"
definition DATA :: u8 where "DATA = 0x01"
definition RESIZE :: u8 where "RESIZE = 0x02"
definition STARTED :: u8 where "STARTED = 0x03"
definition EXITED :: u8 where "EXITED = 0x04"
definition HEARTBEAT :: u8 where "HEARTBEAT = 0x05"
definition CHECKPOINT :: u8 where "CHECKPOINT = 0x06"

lemmas event_consts = TERMINAL_EVENT_VERSION_def HEADER_LEN_def SIZE_EVENT_LEN_def EXITED_EVENT_LEN_def
  DATA_def RESIZE_def STARTED_def EXITED_def HEARTBEAT_def CHECKPOINT_def

datatype terminal_input_event =
    InputData bytes
  | InputResize u16 u16

datatype terminal_output_event =
    OutputData bytes
  | OutputResize u16 u16
  | Started u16 u16
  | Exited u32 bool
  | TerminalHeartbeat
  | Checkpoint u16 u16 bytes

datatype terminal_protocol_error =
    Truncated
  | UnknownVersion u8
  | UnknownType string u8
  | InvalidLength string nat nat
  | InvalidMinimumLength string nat nat
  | EventTooLarge nat nat
  | InvalidExitFlags u8
  | InvalidDimension string u16
  | TooManyCells u32

section \<open>Helpers\<close>

definition validate_terminal_size :: "u16 \<Rightarrow> u16 \<Rightarrow> terminal_protocol_error + unit" where
  "validate_terminal_size columns rows =
     (if columns = 0 \<or> columns > MAX_TERMINAL_COLUMNS
      then Inl (InvalidDimension ''columns'' MAX_TERMINAL_COLUMNS)
      else if rows = 0 \<or> rows > MAX_TERMINAL_ROWS
      then Inl (InvalidDimension ''rows'' MAX_TERMINAL_ROWS)
      else if (ucast columns :: u32) * ucast rows > MAX_TERMINAL_CELLS
      then Inl (TooManyCells MAX_TERMINAL_CELLS)
      else Inr ())"

definition write_at :: "bytes \<Rightarrow> nat \<Rightarrow> bytes \<Rightarrow> bytes" where
  "write_at payload off bs = take off payload @ bs @ drop (off + length bs) payload"

definition event_header :: "u8 \<Rightarrow> nat \<Rightarrow> bytes" where
  "event_header ty len = ((replicate len 0)[0 := TERMINAL_EVENT_VERSION])[1 := ty]"

definition event_type :: "bytes \<Rightarrow> terminal_protocol_error + u8" where
  "event_type payload =
     (if length payload < HEADER_LEN then Inl Truncated
      else if payload ! 0 \<noteq> TERMINAL_EVENT_VERSION then Inl (UnknownVersion (payload ! 0))
      else Inr (payload ! 1))"

definition require_length :: "bytes \<Rightarrow> nat \<Rightarrow> string \<Rightarrow> terminal_protocol_error + unit" where
  "require_length payload expected name =
     (if length payload \<noteq> expected then Inl (InvalidLength name (length payload) expected) else Inr ())"

definition require_minimum_length :: "bytes \<Rightarrow> nat \<Rightarrow> string \<Rightarrow> terminal_protocol_error + unit" where
  "require_minimum_length payload minimum name =
     (if length payload < minimum then Inl (InvalidMinimumLength name (length payload) minimum) else Inr ())"

definition encode_data :: "u8 \<Rightarrow> bytes \<Rightarrow> bytes" where
  "encode_data ty data = write_at (event_header ty (HEADER_LEN + length data)) HEADER_LEN data"

definition encode_size :: "u8 \<Rightarrow> u16 \<Rightarrow> u16 \<Rightarrow> terminal_protocol_error + bytes" where
  "encode_size ty columns rows =
     and_then (validate_terminal_size columns rows) (\<lambda>_.
     let payload = event_header ty SIZE_EVENT_LEN;
         payload = write_at payload HEADER_LEN (be16 columns) in
     Inr (write_at payload (HEADER_LEN + 2) (be16 rows)))"

definition encode_checkpoint :: "u16 \<Rightarrow> u16 \<Rightarrow> bytes \<Rightarrow> terminal_protocol_error + bytes" where
  "encode_checkpoint columns rows state =
     and_then (validate_terminal_size columns rows) (\<lambda>_.
     if length state > MAX_RECORD_PAYLOAD_BYTES - SIZE_EVENT_LEN
     then Inl (EventTooLarge (sat_add (length state) SIZE_EVENT_LEN) MAX_RECORD_PAYLOAD_BYTES)
     else let payload = event_header CHECKPOINT (SIZE_EVENT_LEN + length state);
              payload = write_at payload HEADER_LEN (be16 columns);
              payload = write_at payload (HEADER_LEN + 2) (be16 rows) in
          Inr (write_at payload SIZE_EVENT_LEN state))"

definition decode_size :: "bytes \<Rightarrow> string \<Rightarrow> terminal_protocol_error + u16 \<times> u16" where
  "decode_size payload name =
     and_then (require_length payload SIZE_EVENT_LEN name) (\<lambda>_.
     let columns = un_be16 [payload ! HEADER_LEN, payload ! (HEADER_LEN + 1)];
         rows = un_be16 [payload ! (HEADER_LEN + 2), payload ! (HEADER_LEN + 3)] in
     and_then (validate_terminal_size columns rows) (\<lambda>_. Inr (columns, rows)))"

section \<open>Encoders and decoders\<close>

definition encode_terminal_input :: "terminal_input_event \<Rightarrow> terminal_protocol_error + bytes" where
  "encode_terminal_input event = (case event of
       InputData data \<Rightarrow> Inr (encode_data DATA data)
     | InputResize columns rows \<Rightarrow> encode_size RESIZE columns rows)"

definition decode_terminal_input :: "bytes \<Rightarrow> terminal_protocol_error + terminal_input_event" where
  "decode_terminal_input payload =
     and_then (event_type payload) (\<lambda>t.
     if t = DATA then Inr (InputData (drop HEADER_LEN payload))
     else if t = RESIZE
     then and_then (decode_size payload ''resize'') (\<lambda>(columns, rows). Inr (InputResize columns rows))
     else Inl (UnknownType ''input'' t))"

definition encode_terminal_output :: "terminal_output_event \<Rightarrow> terminal_protocol_error + bytes" where
  "encode_terminal_output event = (case event of
       OutputData data \<Rightarrow> Inr (encode_data DATA data)
     | OutputResize columns rows \<Rightarrow> encode_size RESIZE columns rows
     | Started columns rows \<Rightarrow> encode_size STARTED columns rows
     | Exited status output_truncated \<Rightarrow>
         let payload = event_header EXITED EXITED_EVENT_LEN;
             payload = write_at payload HEADER_LEN (be32 status) in
         Inr (payload[HEADER_LEN + 4 := if output_truncated then 1 else 0])
     | TerminalHeartbeat \<Rightarrow> Inr (event_header HEARTBEAT HEADER_LEN)
     | Checkpoint columns rows state \<Rightarrow> encode_checkpoint columns rows state)"

definition decode_exited :: "bytes \<Rightarrow> terminal_protocol_error + terminal_output_event" where
  "decode_exited payload =
     and_then (require_length payload EXITED_EVENT_LEN ''exited'') (\<lambda>_.
     let status = un_be32 [payload ! HEADER_LEN, payload ! (HEADER_LEN + 1),
                           payload ! (HEADER_LEN + 2), payload ! (HEADER_LEN + 3)];
         flag = payload ! (HEADER_LEN + 4) in
     and_then (if flag = 0 then Inr False else if flag = 1 then Inr True else Inl (InvalidExitFlags flag))
       (\<lambda>output_truncated. Inr (Exited status output_truncated)))"

definition decode_checkpoint :: "bytes \<Rightarrow> terminal_protocol_error + terminal_output_event" where
  "decode_checkpoint payload =
     and_then (require_minimum_length payload SIZE_EVENT_LEN ''checkpoint'') (\<lambda>_.
     let columns = un_be16 [payload ! HEADER_LEN, payload ! (HEADER_LEN + 1)];
         rows = un_be16 [payload ! (HEADER_LEN + 2), payload ! (HEADER_LEN + 3)] in
     and_then (validate_terminal_size columns rows) (\<lambda>_.
     Inr (Checkpoint columns rows (drop SIZE_EVENT_LEN payload))))"

definition decode_terminal_output :: "bytes \<Rightarrow> terminal_protocol_error + terminal_output_event" where
  "decode_terminal_output payload =
     and_then (event_type payload) (\<lambda>t.
     if t = DATA then Inr (OutputData (drop HEADER_LEN payload))
     else if t = RESIZE
     then and_then (decode_size payload ''resize'') (\<lambda>(columns, rows). Inr (OutputResize columns rows))
     else if t = STARTED
     then and_then (decode_size payload ''started'') (\<lambda>(columns, rows). Inr (Started columns rows))
     else if t = EXITED then decode_exited payload
     else if t = HEARTBEAT
     then and_then (require_length payload HEADER_LEN ''heartbeat'') (\<lambda>_. Inr TerminalHeartbeat)
     else if t = CHECKPOINT then decode_checkpoint payload
     else Inl (UnknownType ''output'' t))"

section \<open>Layouts\<close>

definition valid_size :: "u16 \<Rightarrow> u16 \<Rightarrow> bool" where
  "valid_size columns rows \<longleftrightarrow> 1 \<le> unat columns \<and> unat columns \<le> 1000 \<and> 1 \<le> unat rows \<and> unat rows \<le> 500
     \<and> unat columns * unat rows \<le> 131072"

lemma validate_terminal_size_Inr [simp]: "validate_terminal_size c r = Inr u \<longleftrightarrow> valid_size c r"
proof -
  have u: "unat (ucast x :: u32) = unat x" for x :: u16
  proof -
    have "unat x < 2 ^ 32" using unat_lt [of x] by simp
    then show ?thesis by (simp add: unsigned_ucast_eq take_bit_nat_eq_self)
  qed
  have m: "unat ((ucast c :: u32) * ucast r) = unat c * unat r"
  proof -
    have "unat c * unat r \<le> 65535 * 65535"
      using unat_lt [of c] unat_lt [of r] by (intro mult_le_mono) simp_all
    then have "unat c * unat r < 2 ^ 32" by simp
    then show ?thesis by (simp add: unat_word_ariths u)
  qed
  have "c = 0 \<longleftrightarrow> unat c = 0" "r = 0 \<longleftrightarrow> unat r = 0" by (simp_all add: unat_eq_0)
  then show ?thesis
    by (auto simp: validate_terminal_size_def valid_size_def word_less_nat_alt m const_defs)
qed

lemma event_header_eq: "event_header t (Suc (Suc n)) = [TERMINAL_EVENT_VERSION, t] @ replicate n 0"
  by (simp add: event_header_def)

lemma encode_data_eq: "encode_data t d = [1, t] @ d"
  by (simp add: encode_data_def write_at_def HEADER_LEN_def event_header_eq TERMINAL_EVENT_VERSION_def)

lemma encode_size_Inr: "encode_size t c r = Inr bs \<longleftrightarrow> valid_size c r \<and> bs = [1, t] @ be16 c @ be16 r"
  by (auto simp: encode_size_def and_then_eq_Inr Let_def write_at_def event_consts event_header_eq
      eval_nat_numeral)

lemma encode_exited_eq:
  "encode_terminal_output (Exited st tr) = Inr ([1, EXITED] @ be32 st @ [if tr then 1 else 0])"
proof -
  have h: "event_header EXITED EXITED_EVENT_LEN = [1, EXITED] @ replicate 5 0"
    using event_header_eq [of EXITED 5] by (simp add: EXITED_EVENT_LEN_def HEADER_LEN_def TERMINAL_EVENT_VERSION_def)
  show ?thesis
    by (simp add: encode_terminal_output_def Let_def h write_at_def HEADER_LEN_def list_update_append)
qed

lemma encode_checkpoint_Inr:
  "encode_checkpoint c r st = Inr bs \<longleftrightarrow> valid_size c r \<and> length st + 6 \<le> MAX_RECORD_PAYLOAD_BYTES
     \<and> bs = [1, CHECKPOINT] @ be16 c @ be16 r @ st"
proof -
  have h: "event_header CHECKPOINT (SIZE_EVENT_LEN + length st) = [1, CHECKPOINT] @ replicate (4 + length st) 0"
    using event_header_eq [of CHECKPOINT "4 + length st"]
    by (simp add: SIZE_EVENT_LEN_def HEADER_LEN_def TERMINAL_EVENT_VERSION_def)
  have "write_at (write_at (write_at (event_header CHECKPOINT (SIZE_EVENT_LEN + length st)) HEADER_LEN (be16 c))
      (HEADER_LEN + 2) (be16 r)) SIZE_EVENT_LEN st = [1, CHECKPOINT] @ be16 c @ be16 r @ st"
    unfolding h by (simp add: write_at_def SIZE_EVENT_LEN_def HEADER_LEN_def)
  moreover have "length st > MAX_RECORD_PAYLOAD_BYTES - SIZE_EVENT_LEN \<longleftrightarrow> \<not> length st + 6 \<le> MAX_RECORD_PAYLOAD_BYTES"
    by (auto simp: SIZE_EVENT_LEN_def HEADER_LEN_def MAX_RECORD_PAYLOAD_BYTES_def)
  ultimately show ?thesis
    by (auto simp: encode_checkpoint_def and_then_eq_Inr Let_def)
qed

lemma un_be_eq:
  "un_be16 [a, b] = w \<longleftrightarrow> [a, b] = be16 w"
  "un_be32 [a, b, c, d] = v \<longleftrightarrow> [a, b, c, d] = be32 v"
  using be_un_be(1) [of "[a, b]"] be_un_be(2) [of "[a, b, c, d]"] by fastforce+

lemma event_type_Inr: "event_type p = Inr t \<longleftrightarrow> (\<exists>body. p = 1 # t # body)"
  by (cases p; cases "tl p") (auto simp: event_type_def event_consts)

lemma split2: "length bs = 2 \<Longrightarrow> bs = [bs ! 0, bs ! 1]"
  by (auto simp: length_Suc_conv numeral_2_eq_2)

lemma decode_size_Inr:
  "decode_size (1 # t # body) name = Inr (c, r) \<longleftrightarrow> valid_size c r \<and> body = be16 c @ be16 r"
proof (cases "length body = 4")
  case True
  then obtain a b x y where body: "body = [a, b] @ [x, y]"
    by (auto simp: length_Suc_conv eval_nat_numeral)
  have "decode_size (1 # t # body) name = Inr (c, r)
      \<longleftrightarrow> valid_size c r \<and> [a, b] = be16 c \<and> [x, y] = be16 r"
    unfolding un_be_eq [symmetric]
    by (auto simp: decode_size_def require_length_def and_then_eq_Inr Let_def event_consts body)
  also have "\<dots> \<longleftrightarrow> valid_size c r \<and> body = be16 c @ be16 r"
    unfolding body by (subst append_eq_append_conv) auto
  finally show ?thesis .
next
  case False
  then have "body \<noteq> be16 c @ be16 r" by auto
  with False show ?thesis
    by (simp add: decode_size_def require_length_def event_consts and_then_eq_Inr)
qed

lemma decode_exited_Inr:
  "decode_exited (1 # t # body) = Inr e
     \<longleftrightarrow> (\<exists>st tr. e = Exited st tr \<and> body = be32 st @ [if tr then 1 else 0])"
proof (cases "length body = 5")
  case True
  then obtain a b x y f where body: "body = [a, b, x, y] @ [f]"
    by (auto simp: length_Suc_conv eval_nat_numeral)
  have "decode_exited (1 # t # body) = Inr e
      \<longleftrightarrow> (\<exists>st tr. e = Exited st tr \<and> [a, b, x, y] = be32 st \<and> f = (if tr then 1 else 0))"
    unfolding un_be_eq [symmetric]
    by (auto simp: decode_exited_def require_length_def and_then_eq_Inr Let_def event_consts body split: if_splits)
  also have "\<dots> \<longleftrightarrow> (\<exists>st tr. e = Exited st tr \<and> body = be32 st @ [if tr then 1 else 0])"
    unfolding body by (subst append_eq_append_conv) auto
  finally show ?thesis .
next
  case False
  then have "body \<noteq> be32 st @ [if tr then 1 else 0]" for st tr by auto
  with False show ?thesis
    by (auto simp: decode_exited_def require_length_def event_consts and_then_eq_Inr)
qed

lemma decode_checkpoint_Inr:
  "decode_checkpoint (1 # t # body) = Inr e
     \<longleftrightarrow> (\<exists>c r st. e = Checkpoint c r st \<and> valid_size c r \<and> body = be16 c @ be16 r @ st)"
proof (cases "4 \<le> length body")
  case True
  then obtain a b x y st where body: "body = [a, b] @ [x, y] @ st"
    by (auto simp: Suc_le_length_iff eval_nat_numeral)
  have "decode_checkpoint (1 # t # body) = Inr e
      \<longleftrightarrow> (\<exists>c r. e = Checkpoint c r st \<and> valid_size c r \<and> [a, b] = be16 c \<and> [x, y] = be16 r)"
    unfolding un_be_eq [symmetric]
    by (auto simp: decode_checkpoint_def require_minimum_length_def and_then_eq_Inr Let_def event_consts body)
  also have "\<dots> \<longleftrightarrow> (\<exists>c r st. e = Checkpoint c r st \<and> valid_size c r \<and> body = be16 c @ be16 r @ st)"
    unfolding body by (subst append_eq_append_conv, simp) (subst append_eq_append_conv, simp, blast)
  finally show ?thesis .
next
  case False
  then have "body \<noteq> be16 c @ be16 r @ st" for c r st by auto
  with False show ?thesis
    by (auto simp: decode_checkpoint_def require_minimum_length_def event_consts and_then_eq_Inr)
qed

section \<open>The codecs invert each other\<close>

lemma decode_terminal_input_Inr:
  "decode_terminal_input p = Inr e \<longleftrightarrow>
     (\<exists>t body. p = 1 # t # body \<and> (t = DATA \<and> e = InputData body
        \<or> t = RESIZE \<and> (\<exists>c r. e = InputResize c r \<and> decode_size p ''resize'' = Inr (c, r))))"
  by (auto simp: decode_terminal_input_def and_then_eq_Inr event_type_Inr HEADER_LEN_def
      DATA_def RESIZE_def split: if_splits)

lemma encode_terminal_input_Inr:
  "encode_terminal_input e = Inr p \<longleftrightarrow> (case e of
       InputData d \<Rightarrow> p = [1, DATA] @ d
     | InputResize c r \<Rightarrow> valid_size c r \<and> p = [1, RESIZE] @ be16 c @ be16 r)"
  by (auto simp: encode_terminal_input_def encode_data_eq encode_size_Inr split: terminal_input_event.split)

lemma terminal_input_law: "decode_terminal_input p = Inr e \<longleftrightarrow> encode_terminal_input e = Inr p"
  unfolding decode_terminal_input_Inr encode_terminal_input_Inr
  by (cases e) (auto simp: decode_size_Inr)

lemma decode_terminal_output_Inr:
  "decode_terminal_output p = Inr e \<longleftrightarrow>
     (\<exists>t body. p = 1 # t # body \<and> (t = DATA \<and> e = OutputData body
        \<or> t = RESIZE \<and> (\<exists>c r. e = OutputResize c r \<and> decode_size p ''resize'' = Inr (c, r))
        \<or> t = STARTED \<and> (\<exists>c r. e = Started c r \<and> decode_size p ''started'' = Inr (c, r))
        \<or> t = EXITED \<and> decode_exited p = Inr e
        \<or> t = HEARTBEAT \<and> e = TerminalHeartbeat \<and> body = []
        \<or> t = CHECKPOINT \<and> decode_checkpoint p = Inr e))"
proof (cases "event_type p")
  case (Inl err)
  then have "p \<noteq> 1 # t # body" for t body using event_type_Inr [of p t] by auto
  with Inl show ?thesis by (simp add: decode_terminal_output_def)
next
  case (Inr t)
  then obtain body where p: "p = 1 # t # body" by (auto simp: event_type_Inr)
  have lens: "require_length p HEADER_LEN n = Inr u \<longleftrightarrow> body = []" for n u
    by (auto simp: require_length_def HEADER_LEN_def p)
  have d: "decode_terminal_output p =
     (if t = DATA then Inr (OutputData body)
     else if t = RESIZE
     then and_then (decode_size p ''resize'') (\<lambda>(columns, rows). Inr (OutputResize columns rows))
     else if t = STARTED
     then and_then (decode_size p ''started'') (\<lambda>(columns, rows). Inr (Started columns rows))
     else if t = EXITED then decode_exited p
     else if t = HEARTBEAT
     then and_then (require_length p HEADER_LEN ''heartbeat'') (\<lambda>_. Inr TerminalHeartbeat)
     else if t = CHECKPOINT then decode_checkpoint p
     else Inl (UnknownType ''output'' t))"
    unfolding decode_terminal_output_def Inr by (simp add: p HEADER_LEN_def)
  have size: "and_then (decode_size p n) (\<lambda>(c, r). Inr (f c r)) = Inr e
      \<longleftrightarrow> (\<exists>c r. e = f c r \<and> decode_size p n = Inr (c, r))" for n and f :: "_ \<Rightarrow> _ \<Rightarrow> terminal_output_event"
    by (auto simp: and_then_eq_Inr)
  have hb: "and_then (require_length p HEADER_LEN n) (\<lambda>_. Inr TerminalHeartbeat) = Inr e
      \<longleftrightarrow> e = TerminalHeartbeat \<and> body = []" for n
    by (auto simp: and_then_eq_Inr lens)
  have dist: "distinct [DATA, RESIZE, STARTED, EXITED, HEARTBEAT, CHECKPOINT]"
    by (simp add: event_consts)
  have eq: "(\<exists>t' body'. p = 1 # t' # body' \<and> Q t' body') \<longleftrightarrow> Q t body" for Q
    by (auto simp: p)
  show ?thesis
    unfolding d eq using dist by (simp add: size hb) blast
qed

lemma encode_terminal_output_Inr:
  "encode_terminal_output e = Inr p \<longleftrightarrow> (case e of
       OutputData d \<Rightarrow> p = [1, DATA] @ d
     | OutputResize c r \<Rightarrow> valid_size c r \<and> p = [1, RESIZE] @ be16 c @ be16 r
     | Started c r \<Rightarrow> valid_size c r \<and> p = [1, STARTED] @ be16 c @ be16 r
     | Exited st tr \<Rightarrow> p = [1, EXITED] @ be32 st @ [if tr then 1 else 0]
     | TerminalHeartbeat \<Rightarrow> p = [1, HEARTBEAT]
     | Checkpoint c r st \<Rightarrow> valid_size c r \<and> length st + 6 \<le> MAX_RECORD_PAYLOAD_BYTES
         \<and> p = [1, CHECKPOINT] @ be16 c @ be16 r @ st)"
proof (cases e)
  case (Exited st tr)
  then show ?thesis by (simp only: encode_exited_eq) auto
next
  case TerminalHeartbeat
  have "event_header HEARTBEAT HEADER_LEN = [1, HEARTBEAT]"
    using event_header_eq [of HEARTBEAT 0] by (simp add: HEADER_LEN_def TERMINAL_EVENT_VERSION_def numeral_2_eq_2)
  with TerminalHeartbeat show ?thesis by (auto simp: encode_terminal_output_def)
qed (auto simp: encode_terminal_output_def encode_data_eq encode_size_Inr encode_checkpoint_Inr)

lemma terminal_output_law:
  assumes "length p \<le> MAX_RECORD_PAYLOAD_BYTES"
  shows "decode_terminal_output p = Inr e \<longleftrightarrow> encode_terminal_output e = Inr p"
  using assms unfolding decode_terminal_output_Inr encode_terminal_output_Inr
  by (cases e) (auto simp: decode_size_Inr decode_exited_Inr decode_checkpoint_Inr)

interpretation terminal_input: byte_codec encode_terminal_input decode_terminal_input "\<lambda>_. True" "\<lambda>_. True"
  by unfold_locales (simp add: terminal_input_law)

interpretation terminal_output: byte_codec encode_terminal_output decode_terminal_output "\<lambda>_. True"
  "\<lambda>p. length p \<le> MAX_RECORD_PAYLOAD_BYTES"
  by unfold_locales (simp add: terminal_output_law)

text \<open>Terminal input events survive the wire, whatever bytes or dimensions they hold: an event that
  encodes decodes to itself, and every payload that decodes is the one encoding of its event (so a
  resize has exactly six bytes and dimensions within the supported viewport).\<close>

theorem terminal_input_roundtrip:
  "case decode_terminal_input p of
     Inr e \<Rightarrow> encode_terminal_input e = Inr p
   | Inl _ \<Rightarrow> (\<nexists>e. encode_terminal_input e = Inr p)"
proof (cases "decode_terminal_input p")
  case (Inl err)
  then have "\<nexists>e. encode_terminal_input e = Inr p"
    using terminal_input.dec_enc by fastforce
  with Inl show ?thesis by simp
next
  case (Inr e)
  then show ?thesis using terminal_input.enc_dec by simp
qed

text \<open>Terminal output events survive the wire. On every payload that fits a record, decoding
  succeeds exactly on the encodings of events and returns the event encoded: data, resizes,
  starts, exits with their truncation flag, heartbeats and checkpoints alike.\<close>

theorem terminal_output_roundtrip:
  assumes "length p \<le> MAX_RECORD_PAYLOAD_BYTES"
  shows "case decode_terminal_output p of
     Inr e \<Rightarrow> encode_terminal_output e = Inr p
   | Inl _ \<Rightarrow> (\<nexists>e. encode_terminal_output e = Inr p)"
proof (cases "decode_terminal_output p")
  case (Inl err)
  then have "\<nexists>e. encode_terminal_output e = Inr p"
    using terminal_output.dec_enc [OF _ TrueI assms] by fastforce
  with Inl show ?thesis by simp
next
  case (Inr e)
  then show ?thesis using terminal_output.enc_dec [OF Inr assms] by simp
qed

theorem terminal_output_roundtrip_witness:
  "decode_terminal_output [1, 4, 0, 0, 0, 7, 1] = Inr (Exited 7 True)
     \<and> encode_terminal_output (Exited 7 True) = Inr [1, 4, 0, 0, 0, 7, 1]"
proof -
  have d: "decode_terminal_output [1, 4, 0, 0, 0, 7, 1] = Inr (Exited 7 True)"
    by (simp add: decode_terminal_output_def event_type_def event_consts decode_exited_def
        require_length_def un_be32_def from_be_def)
  have "length [1, 4, 0, 0, 0, 7, 1 :: u8] \<le> MAX_RECORD_PAYLOAD_BYTES" by (simp add: const_defs)
  from terminal_output_roundtrip [OF this] d show ?thesis by simp
qed

text \<open>Every decoded terminal size is one the host can apply: columns 1 to 1000, rows 1 to 500, at
  most 131072 cells, in resizes of both directions, starts and checkpoints.\<close>

theorem decoded_sizes_valid:
  "(case decode_terminal_input p of Inr (InputResize c r) \<Rightarrow> valid_size c r | _ \<Rightarrow> True)
   \<and> (case decode_terminal_output p of
        Inr (OutputResize c r) \<Rightarrow> valid_size c r
      | Inr (Started c r) \<Rightarrow> valid_size c r
      | Inr (Checkpoint c r _) \<Rightarrow> valid_size c r
      | _ \<Rightarrow> True)"
proof
  show "case decode_terminal_input p of Inr (InputResize c r) \<Rightarrow> valid_size c r | _ \<Rightarrow> True"
  proof (cases "decode_terminal_input p")
    case (Inr e)
    then show ?thesis using decode_terminal_input_Inr [of p e] by (cases e) (auto simp: decode_size_Inr)
  qed simp
  show "case decode_terminal_output p of Inr (OutputResize c r) \<Rightarrow> valid_size c r
      | Inr (Started c r) \<Rightarrow> valid_size c r | Inr (Checkpoint c r _) \<Rightarrow> valid_size c r | _ \<Rightarrow> True"
  proof (cases "decode_terminal_output p")
    case (Inr e)
    then show ?thesis using decode_terminal_output_Inr [of p e]
      by (cases e) (auto simp: decode_size_Inr decode_exited_Inr decode_checkpoint_Inr)
  qed simp
qed

end
