(* ===== verification/FrameCodec.thy ===== *)
theory FrameCodec
  imports Frames
begin

text \<open>
  The binary codec of \<open>rust/src/protocol/ws/frame.rs\<close>: client and server frames, their encoders
  and decoders. Code that is not in the repository is a parameter: \<open>B\<close> is the \<open>BytesMut\<close> buffer
  with its \<open>BufMut\<close> methods, of which the codec relies on the documented behaviour that every
  \<open>put_\<close> appends the big-endian bytes of its argument (\<open>buf_mut_appends\<close>); \<open>dec\<close> is the base64url
  decoder; \<open>to_json\<close> and \<open>from_json\<close> are serde's serializer and deserializer of the metadata.
\<close>

section \<open>Stream metadata\<close>

datatype stream_kind = Transcript | Bytes | Terminal

datatype visibility = Public | Private

text \<open>\<open>'i\<close> is the stream identifier, a third-party type.\<close>

record 'i stream_metadata =
  sm_stream_id :: 'i
  sm_kind :: stream_kind
  sm_title :: "stream_title option"
  sm_visibility :: visibility
  sm_created_at :: rstr
  sm_expires_at :: rstr

definition stream_kind_byte :: "stream_kind \<Rightarrow> u8" where
  "stream_kind_byte k = (case k of Transcript \<Rightarrow> 0 | Bytes \<Rightarrow> 1 | Terminal \<Rightarrow> 2)"

definition stream_kind_from_byte :: "u8 \<Rightarrow> 'j frame_codec_error + stream_kind" where
  "stream_kind_from_byte v = (if v = 0 then Inr Transcript else if v = 1 then Inr Bytes
     else if v = 2 then Inr Terminal else Inl (UnknownStreamKind v))"

lemma stream_kind_from_byte_Inr: "stream_kind_from_byte b = Inr k \<longleftrightarrow> b = stream_kind_byte k"
  by (auto simp: stream_kind_from_byte_def stream_kind_byte_def split: if_splits stream_kind.split)

lemma stream_kind_from_byte_byte [simp]: "stream_kind_from_byte (stream_kind_byte k) = Inr k"
  by (simp add: stream_kind_from_byte_Inr)

section \<open>Frames\<close>

datatype client_frame =
    OpenRead "link_secret option"
  | OpenWrite client_writer_id link_secret "u64 option"
  | ClientAppendBatch "append_record list"

datatype 'i server_frame =
    Ready stream_kind
  | AppendAck u64 u64 u64 u64
  | ServerReadBatch read_batch
  | Heartbeat
  | CaughtUp caught_up_position
  | StreamMetadata "'i stream_metadata"

text \<open>The \<open>wire_operations!\<close> enums: the byte of each variant, and \<open>TryFrom<u8>\<close>.\<close>

datatype client_op = OpOpenRead | OpOpenWrite | OpAppendBatch

datatype server_op = OpReady | OpAppendAck | OpReadBatch | OpHeartbeat | OpCaughtUp | OpStreamMetadata

fun client_op_byte :: "client_op \<Rightarrow> u8" where
  "client_op_byte OpOpenRead = 0x01"
| "client_op_byte OpOpenWrite = 0x02"
| "client_op_byte OpAppendBatch = 0x03"

fun server_op_byte :: "server_op \<Rightarrow> u8" where
  "server_op_byte OpReady = 0x80"
| "server_op_byte OpAppendAck = 0x81"
| "server_op_byte OpReadBatch = 0x82"
| "server_op_byte OpHeartbeat = 0x83"
| "server_op_byte OpCaughtUp = 0x84"
| "server_op_byte OpStreamMetadata = 0x85"

definition client_op_try_from :: "u8 \<Rightarrow> 'j frame_codec_error + client_op" where
  "client_op_try_from v = (if v = 0x01 then Inr OpOpenRead else if v = 0x02 then Inr OpOpenWrite
     else if v = 0x03 then Inr OpAppendBatch else Inl (UnknownOperation v))"

definition server_op_try_from :: "u8 \<Rightarrow> 'j frame_codec_error + server_op" where
  "server_op_try_from v = (if v = 0x80 then Inr OpReady else if v = 0x81 then Inr OpAppendAck
     else if v = 0x82 then Inr OpReadBatch else if v = 0x83 then Inr OpHeartbeat
     else if v = 0x84 then Inr OpCaughtUp else if v = 0x85 then Inr OpStreamMetadata
     else Inl (UnknownOperation v))"

lemma client_op_try_from_Inr: "client_op_try_from v = Inr op \<longleftrightarrow> v = client_op_byte op"
  by (cases op) (auto simp: client_op_try_from_def split: if_splits)

lemma server_op_try_from_Inr: "server_op_try_from v = Inr op \<longleftrightarrow> v = server_op_byte op"
  by (cases op) (auto simp: server_op_try_from_def split: if_splits)

definition OPEN_READ_LINK_SECRET :: u8 where "OPEN_READ_LINK_SECRET = 0x01"
definition OPEN_WRITE_EXPECTED_NEXT_SEQ_NUM :: u8 where "OPEN_WRITE_EXPECTED_NEXT_SEQ_NUM = 0x01"

section \<open>The output buffer\<close>

record 'b buf_mut =
  with_capacity :: "nat \<Rightarrow> 'b"
  put_u8 :: "'b \<Rightarrow> u8 \<Rightarrow> 'b"
  put_u32 :: "'b \<Rightarrow> u32 \<Rightarrow> 'b"
  put_u64 :: "'b \<Rightarrow> u64 \<Rightarrow> 'b"
  put_slice :: "'b \<Rightarrow> bytes \<Rightarrow> 'b"
  freeze :: "'b \<Rightarrow> bytes"

definition buf_mut_appends :: "'b buf_mut \<Rightarrow> bool" where
  "buf_mut_appends B \<longleftrightarrow> (\<forall>n. freeze B (with_capacity B n) = [])
     \<and> (\<forall>b v. freeze B (put_u8 B b v) = freeze B b @ [v])
     \<and> (\<forall>b v. freeze B (put_u32 B b v) = freeze B b @ be32 v)
     \<and> (\<forall>b v. freeze B (put_u64 B b v) = freeze B b @ be64 v)
     \<and> (\<forall>b v. freeze B (put_slice B b v) = freeze B b @ v)"

text \<open>A buffer that keeps its bytes in a list, for concrete runs.\<close>

definition list_buf :: "bytes buf_mut" where
  "list_buf = \<lparr>with_capacity = \<lambda>_. [], put_u8 = \<lambda>b v. b @ [v], put_u32 = \<lambda>b v. b @ be32 v,
     put_u64 = \<lambda>b v. b @ be64 v, put_slice = (@), freeze = \<lambda>b. b\<rparr>"

lemma list_buf_appends: "buf_mut_appends list_buf"
  by (simp add: buf_mut_appends_def list_buf_def)

lemma buf_mut_appendsD:
  assumes "buf_mut_appends B"
  shows "freeze B (with_capacity B n) = []"
    "freeze B (put_u8 B b v8) = freeze B b @ [v8]"
    "freeze B (put_u32 B b v32) = freeze B b @ be32 v32"
    "freeze B (put_u64 B b v64) = freeze B b @ be64 v64"
    "freeze B (put_slice B b bs) = freeze B b @ bs"
  using assms by (simp_all add: buf_mut_appends_def)

section \<open>Encoding client frames\<close>

fun append_len_loop :: "nat \<Rightarrow> append_record list \<Rightarrow> 'j frame_codec_error + nat" where
  "append_len_loop payload_bytes [] = Inr payload_bytes"
| "append_len_loop payload_bytes (r # rs) =
     and_then (validate_writer_seq_num (ar_writer_seq_num r)) (\<lambda>_.
     and_then (validate_record_len (length (ar_data r))) (\<lambda>_.
     append_len_loop (payload_bytes + length (ar_data r)) rs))"

definition append_batch_encoded_len :: "append_record list \<Rightarrow> 'j frame_codec_error + nat" where
  "append_batch_encoded_len records =
     and_then (append_len_loop 0 records) (\<lambda>payload_bytes.
     and_then (validate_batch (length records) payload_bytes MAX_APPEND_FRAME_RECORDS) (\<lambda>_.
     Inr (FRAME_OPERATION_LEN + length records * (RECORD_LENGTH_LEN + APPEND_RECORD_HEADER_LEN)
       + payload_bytes)))"

definition put_append_record :: "'b buf_mut \<Rightarrow> append_record \<Rightarrow> 'b \<Rightarrow> 'b" where
  "put_append_record B r out =
     (let out = put_u32 B out (of_nat (APPEND_RECORD_HEADER_LEN + length (ar_data r)));
          out = put_u64 B out (ar_writer_seq_num r);
          out = put_u32 B out (raw (ar_part r)) in
      put_slice B out (ar_data r))"

definition put_append_batch :: "'b buf_mut \<Rightarrow> 'b \<Rightarrow> append_record list \<Rightarrow> 'b" where
  "put_append_batch B out records =
     fold (put_append_record B) records (put_u8 B out (client_op_byte OpAppendBatch))"

definition encode_append_batch :: "'b buf_mut \<Rightarrow> append_record list \<Rightarrow> 'j frame_codec_error + bytes" where
  "encode_append_batch B records =
     and_then (append_batch_encoded_len records) (\<lambda>n.
     Inr (freeze B (put_append_batch B (with_capacity B n) records)))"

definition client_encoded_len :: "client_frame \<Rightarrow> 'j frame_codec_error + nat" where
  "client_encoded_len f = (case f of
       OpenRead s \<Rightarrow> Inr (1 + 1 + (case s of None \<Rightarrow> 0 | Some _ \<Rightarrow> BASE64URL_24_ENCODED_LEN))
     | OpenWrite _ _ expected \<Rightarrow>
         and_then (case expected of None \<Rightarrow> Inr () | Some v \<Rightarrow> validate_expected_next_seq_num v) (\<lambda>_.
         Inr (2 + WRITER_ID_BYTE_LEN + (case expected of None \<Rightarrow> 0 | Some _ \<Rightarrow> 8)
           + BASE64URL_24_ENCODED_LEN))
     | ClientAppendBatch records \<Rightarrow> append_batch_encoded_len records)"

definition client_encode_into :: "'b buf_mut \<Rightarrow> client_frame \<Rightarrow> 'b \<Rightarrow> 'b" where
  "client_encode_into B f out = (case f of
       OpenRead s \<Rightarrow>
         let out = put_u8 B out (client_op_byte OpOpenRead);
             out = put_u8 B out (case s of None \<Rightarrow> 0 | Some _ \<Rightarrow> OPEN_READ_LINK_SECRET) in
         (case s of None \<Rightarrow> out | Some secret \<Rightarrow> put_slice B out (expose_secret secret))
     | OpenWrite writer secret expected \<Rightarrow>
         let out = put_u8 B out (client_op_byte OpOpenWrite);
             out = put_u8 B out (case expected of None \<Rightarrow> 0 | Some _ \<Rightarrow> OPEN_WRITE_EXPECTED_NEXT_SEQ_NUM);
             out = put_slice B out (client_writer_id_bytes writer);
             out = (case expected of None \<Rightarrow> out | Some v \<Rightarrow> put_u64 B out v) in
         put_slice B out (expose_secret secret)
     | ClientAppendBatch records \<Rightarrow> put_append_batch B out records)"

definition client_encode :: "'b buf_mut \<Rightarrow> client_frame \<Rightarrow> 'j frame_codec_error + bytes" where
  "client_encode B f =
     and_then (client_encoded_len f) (\<lambda>n. Inr (freeze B (client_encode_into B f (with_capacity B n))))"

section \<open>Decoding client frames\<close>

definition utf8_tail :: "bytes \<Rightarrow> 'j frame_codec_error + rstr" where
  "utf8_tail input = ok_or InvalidUtf8 (from_utf8 input)"

definition parse_link_secret :: "base64_decoder \<Rightarrow> rstr \<Rightarrow> 'j frame_codec_error + link_secret" where
  "parse_link_secret dec text = map_err (\<lambda>_. InvalidLinkSecret) (link_secret_from_str dec text)"

definition decode_open_read :: "base64_decoder \<Rightarrow> u8 \<Rightarrow> bytes \<Rightarrow> 'j frame_codec_error + client_frame" where
  "decode_open_read dec op body =
     and_then (fd_byte (frame_decoder_new op body)) (\<lambda>(flags, d).
     if flags AND NOT OPEN_READ_LINK_SECRET \<noteq> 0
     then Inl (UnknownOpenReadFlags (flags AND NOT OPEN_READ_LINK_SECRET))
     else if flags AND OPEN_READ_LINK_SECRET = 0
     then and_then (fd_finish d) (\<lambda>_. Inr (OpenRead None))
     else and_then (fd_take BASE64URL_24_ENCODED_LEN d) (\<lambda>(secret, d).
          and_then (fd_finish d) (\<lambda>_.
          and_then (utf8_tail secret) (\<lambda>text.
          and_then (parse_link_secret dec text) (\<lambda>s. Inr (OpenRead (Some s)))))))"

definition decode_open_write :: "base64_decoder \<Rightarrow> u8 \<Rightarrow> bytes \<Rightarrow> 'j frame_codec_error + client_frame" where
  "decode_open_write dec op body =
     and_then (fd_byte (frame_decoder_new op body)) (\<lambda>(flags, d).
     if flags AND NOT OPEN_WRITE_EXPECTED_NEXT_SEQ_NUM \<noteq> 0
     then Inl (UnknownOpenWriteFlags (flags AND NOT OPEN_WRITE_EXPECTED_NEXT_SEQ_NUM))
     else and_then (fd_take WRITER_ID_BYTE_LEN d) (\<lambda>(writer, d).
          and_then (if flags AND OPEN_WRITE_EXPECTED_NEXT_SEQ_NUM = 0 then Inr (None, remaining d)
                    else and_then (fd_u64 d) (\<lambda>(v, d).
                         and_then (validate_expected_next_seq_num v) (\<lambda>_. Inr (Some v, remaining d))))
            (\<lambda>(expected, secret_bytes).
          and_then (utf8_tail secret_bytes) (\<lambda>text.
          and_then (parse_link_secret dec text) (\<lambda>s.
          Inr (OpenWrite (ClientWriterId writer) s expected))))))"

definition append_body :: "u8 \<Rightarrow> bytes \<Rightarrow> append_record list \<times> nat \<Rightarrow> nat \<times> nat
    \<Rightarrow> 'j frame_codec_error + append_record list \<times> nat" where
  "append_body op input acc bounds =
     (case acc of (records, payload_bytes) \<Rightarrow> case bounds of (start, stop) \<Rightarrow>
      and_then (fd_u64 (frame_decoder_new op (slice input start stop))) (\<lambda>(writer_seq_num, d).
      and_then (validate_writer_seq_num writer_seq_num) (\<lambda>_.
      and_then (fd_u32 d) (\<lambda>(part_raw, d).
      let data = remaining d in
      and_then (validate_record_len (length data)) (\<lambda>_.
      let payload_bytes = payload_bytes + length data; data_start = stop - length data in
      Inr (records @ [\<lparr>ar_writer_seq_num = writer_seq_num, ar_part = PartHeader part_raw,
             ar_data = slice input data_start stop\<rparr>], payload_bytes))))))"

definition decode_append_batch :: "u8 \<Rightarrow> bytes \<Rightarrow> 'j frame_codec_error + client_frame" where
  "decode_append_batch op input =
     and_then (for_ranges (append_body op input) (record_body_ranges input MAX_APPEND_FRAME_RECORDS) ([], 0))
       (\<lambda>(records, payload_bytes).
     and_then (validate_batch (length records) payload_bytes MAX_APPEND_FRAME_RECORDS) (\<lambda>_.
     Inr (ClientAppendBatch records)))"

definition decode_client_frame :: "base64_decoder \<Rightarrow> bytes \<Rightarrow> 'j frame_codec_error + client_frame" where
  "decode_client_frame dec input = (case input of
       [] \<Rightarrow> Inl EmptyFrame
     | op_byte # body \<Rightarrow>
         and_then (client_op_try_from op_byte) (\<lambda>op. case op of
             OpOpenRead \<Rightarrow> decode_open_read dec op_byte body
           | OpOpenWrite \<Rightarrow> decode_open_write dec op_byte body
           | OpAppendBatch \<Rightarrow> decode_append_batch op_byte input))"

section \<open>The bytes of a client frame\<close>

definition append_record_bytes :: "append_record \<Rightarrow> bytes" where
  "append_record_bytes r = be32 (of_nat (APPEND_RECORD_HEADER_LEN + length (ar_data r)))
     @ be64 (ar_writer_seq_num r) @ be32 (raw (ar_part r)) @ ar_data r"

definition append_batch_bytes :: "append_record list \<Rightarrow> bytes" where
  "append_batch_bytes rs = client_op_byte OpAppendBatch # concat (map append_record_bytes rs)"

definition client_frame_bytes :: "client_frame \<Rightarrow> bytes" where
  "client_frame_bytes f = (case f of
       OpenRead None \<Rightarrow> [0x01, 0]
     | OpenRead (Some s) \<Rightarrow> [0x01, 1] @ expose_secret s
     | OpenWrite w s None \<Rightarrow> [0x02, 0] @ client_writer_id_bytes w @ expose_secret s
     | OpenWrite w s (Some v) \<Rightarrow> [0x02, 1] @ client_writer_id_bytes w @ be64 v @ expose_secret s
     | ClientAppendBatch rs \<Rightarrow> append_batch_bytes rs)"

definition valid_append_record :: "append_record \<Rightarrow> bool" where
  "valid_append_record r \<longleftrightarrow> ar_writer_seq_num r \<noteq> - 1 \<and> length (ar_data r) \<le> MAX_RECORD_PAYLOAD_BYTES"

text \<open>The bounds of one append frame.\<close>

definition append_bounds :: "append_record list \<Rightarrow> bool" where
  "append_bounds rs \<longleftrightarrow> 0 < length rs \<and> length rs \<le> MAX_APPEND_FRAME_RECORDS
     \<and> (\<forall>r \<in> set rs. valid_append_record r)
     \<and> sum_list (map (length \<circ> ar_data) rs) \<le> MAX_FRAME_PAYLOAD_BYTES"

lemma append_len_loop_Inr:
  "append_len_loop n rs = Inr m \<longleftrightarrow> (\<forall>r \<in> set rs. valid_append_record r)
     \<and> m = n + sum_list (map (length \<circ> ar_data) rs)"
  by (induction rs arbitrary: n) (auto simp: and_then_eq_Inr valid_append_record_def)

lemma append_batch_encoded_len_Inr:
  "append_batch_encoded_len rs = Inr n \<longleftrightarrow> append_bounds rs
     \<and> n = 1 + length rs * 16 + sum_list (map (length \<circ> ar_data) rs)"
  by (auto simp: append_batch_encoded_len_def and_then_eq_Inr append_len_loop_Inr append_bounds_def
      FRAME_OPERATION_LEN_def RECORD_LENGTH_LEN_def APPEND_RECORD_HEADER_LEN_def)

lemma freeze_put_append_records:
  assumes "buf_mut_appends B"
  shows "freeze B (fold (put_append_record B) rs out) = freeze B out @ concat (map append_record_bytes rs)"
  by (induction rs arbitrary: out)
    (simp_all add: put_append_record_def append_record_bytes_def Let_def buf_mut_appendsD [OF assms])

lemma freeze_client_encode:
  assumes "buf_mut_appends B"
  shows "freeze B (client_encode_into B f (with_capacity B n)) = client_frame_bytes f"
  by (simp add: client_encode_into_def client_frame_bytes_def Let_def put_append_batch_def
      append_batch_bytes_def freeze_put_append_records [OF assms] buf_mut_appendsD [OF assms]
      OPEN_READ_LINK_SECRET_def OPEN_WRITE_EXPECTED_NEXT_SEQ_NUM_def
      split: client_frame.split option.split)

text \<open>The frames that the encoder accepts.\<close>

definition client_frame_bounds :: "client_frame \<Rightarrow> bool" where
  "client_frame_bounds f = (case f of
       OpenRead _ \<Rightarrow> True
     | OpenWrite _ _ None \<Rightarrow> True
     | OpenWrite _ _ (Some v) \<Rightarrow> unat v \<le> MAX_SAFE_INTEGER_U64
     | ClientAppendBatch rs \<Rightarrow> append_bounds rs)"

lemma client_encode_Inr:
  assumes "buf_mut_appends B"
  shows "client_encode B f = Inr bs \<longleftrightarrow> client_frame_bounds f \<and> bs = client_frame_bytes f"
proof -
  have "(\<exists>n. client_encoded_len f = (Inr n :: 'j frame_codec_error + nat)) \<longleftrightarrow> client_frame_bounds f"
    by (auto simp: client_encoded_len_def client_frame_bounds_def append_batch_encoded_len_Inr
        and_then_eq_Inr split: client_frame.split option.split)
  then show ?thesis
    by (auto simp: client_encode_def and_then_eq_Inr freeze_client_encode [OF assms])
qed

lemma encode_append_batch_Inr:
  assumes "buf_mut_appends B"
  shows "encode_append_batch B rs = Inr bs \<longleftrightarrow> append_bounds rs \<and> bs = append_batch_bytes rs"
  by (auto simp: encode_append_batch_def and_then_eq_Inr append_batch_encoded_len_Inr
      put_append_batch_def freeze_put_append_records [OF assms] buf_mut_appendsD [OF assms]
      append_batch_bytes_def)

section \<open>Client frames: the decoder inverts the encoder\<close>

lemma append_body_Inr:
  assumes "stop \<le> length input"
  shows "append_body op input (rs, n) (start, stop) = Inr out \<longleftrightarrow>
     (\<exists>r. slice input start stop = be64 (ar_writer_seq_num r) @ be32 (raw (ar_part r)) @ ar_data r
        \<and> valid_append_record r \<and> out = (rs @ [r], n + length (ar_data r)))" (is "?L \<longleftrightarrow> ?R")
proof
  assume ?L
  then obtain seq d1 part d2 where *: "fd_u64 (decoder_at op (slice input start stop)) = (Inr (seq, d1) :: 'a frame_codec_error + _)"
    "seq \<noteq> - 1" "fd_u32 d1 = (Inr (part, d2) :: 'a frame_codec_error + _)"
    "length (remaining d2) \<le> MAX_RECORD_PAYLOAD_BYTES"
    "out = (rs @ [\<lparr>ar_writer_seq_num = seq, ar_part = PartHeader part,
       ar_data = slice input (stop - length (remaining d2)) stop\<rparr>], n + length (remaining d2))"
    by (auto simp: append_body_def and_then_eq_Inr Let_def split: prod.splits)
  then have sl: "slice input start stop = (be64 seq @ be32 part) @ remaining d2"
    by (simp add: fd_Inr)
  have "slice input (stop - length (remaining d2)) stop = remaining d2"
    by (rule slice_suffix [OF sl assms])
  with * sl show ?R
    by (intro exI [of _ "\<lparr>ar_writer_seq_num = seq, ar_part = PartHeader part, ar_data = remaining d2\<rparr>"])
      (simp add: valid_append_record_def)
next
  assume ?R
  then obtain r where r: "slice input start stop
      = (be64 (ar_writer_seq_num r) @ be32 (raw (ar_part r))) @ ar_data r"
    "valid_append_record r" "out = (rs @ [r], n + length (ar_data r))"
    by auto
  have "slice input (stop - length (ar_data r)) stop = ar_data r"
    by (rule slice_suffix [OF r(1) assms])
  with r show ?L
    by (simp add: append_body_def valid_append_record_def validate_writer_seq_num_def
        validate_record_len_def Let_def)
qed

lemma append_record_bytes_split:
  assumes "slice input (off + 4) (off + 4 + unat w) = be64 (ar_writer_seq_num r) @ be32 (raw (ar_part r)) @ ar_data r"
    and "drop off input = be32 w @ rest" "unat w \<le> length rest"
  shows "drop off input = append_record_bytes r @ drop (off + 4 + unat w) input"
proof -
  have rest: "drop (off + 4) input = rest"
    using arg_cong [OF assms(2), of "drop 4"] by (simp add: add.commute)
  then have sl: "take (unat w) rest = be64 (ar_writer_seq_num r) @ be32 (raw (ar_part r)) @ ar_data r"
    using assms(1) by (simp add: slice_def)
  have "unat w = 12 + length (ar_data r)"
    using arg_cong [OF sl, of length] assms(3) by simp
  then have "APPEND_RECORD_HEADER_LEN + length (ar_data r) = unat w"
    by (simp add: APPEND_RECORD_HEADER_LEN_def)
  then have "of_nat (APPEND_RECORD_HEADER_LEN + length (ar_data r)) = (of_nat (unat w) :: u32)"
    by (rule arg_cong)
  then have "of_nat (APPEND_RECORD_HEADER_LEN + length (ar_data r)) = w" by simp
  moreover have "drop (off + 4 + unat w) input = drop (unat w) rest"
    using rest by (metis add.commute drop_drop)
  ultimately show ?thesis
    using sl assms(2) by (simp add: append_record_bytes_def) (metis append.assoc append_take_drop_id)
qed

lemma length_append_record_bytes: "length (append_record_bytes r) = 16 + length (ar_data r)"
  by (simp add: append_record_bytes_def)

lemma append_record_len_word:
  assumes "valid_append_record r"
  shows "unat (of_nat (APPEND_RECORD_HEADER_LEN + length (ar_data r)) :: u32) = 12 + length (ar_data r)"
proof -
  have "APPEND_RECORD_HEADER_LEN + length (ar_data r) < 2 ^ 32"
    using assms by (simp add: valid_append_record_def const_defs)
  then have "unat (of_nat (APPEND_RECORD_HEADER_LEN + length (ar_data r)) :: u32)
      = APPEND_RECORD_HEADER_LEN + length (ar_data r)"
    by (rule unat_of_nat_u32)
  then show ?thesis by (simp only: APPEND_RECORD_HEADER_LEN_def)
qed

lemma decode_append_records:
  assumes "drop (br_offset r) (br_input r) = concat (map append_record_bytes rs)"
    and "br_count r + length rs \<le> br_maximum r" "\<forall>x \<in> set rs. valid_append_record x"
    and "length (br_input r) \<le> usize_max" "br_offset r \<le> length (br_input r)"
  shows "for_ranges (append_body op (br_input r)) r (acc, n)
    = Inr (acc @ rs, n + sum_list (map (length \<circ> ar_data) rs))"
  using assms
proof (induction rs arbitrary: r acc n)
  case Nil
  then have "br_next r = (None :: ('a frame_codec_error + nat \<times> nat) option, r)" by (simp add: br_next_None)
  then show ?case by (simp add: for_ranges.simps [of _ r])
next
  case (Cons x rs)
  let ?w = "of_nat (APPEND_RECORD_HEADER_LEN + length (ar_data x)) :: u32"
  let ?stop = "br_offset r + 4 + unat ?w"
  let ?r = "r\<lparr>br_offset := ?stop, br_count := br_count r + 1\<rparr>"
  let ?body = "be64 (ar_writer_seq_num x) @ be32 (raw (ar_part x)) @ ar_data x"
  have w: "unat ?w = 12 + length (ar_data x)"
    using Cons.prems(3) by (intro append_record_len_word) simp
  have d: "drop (br_offset r) (br_input r) = be32 ?w @ ?body @ concat (map append_record_bytes rs)"
    using Cons.prems(1) by (simp add: append_record_bytes_def [of x])
  have len: "?stop \<le> length (br_input r)"
    using arg_cong [OF d, of length] Cons.prems(5) w by simp
  have next_r: "br_next r = (Some (Inr (br_offset r + 4, ?stop)) :: ('a frame_codec_error + nat \<times> nat) option, ?r)"
    unfolding br_next_Inr using d w len Cons.prems(2,4)
    by (intro exI [of _ ?w] exI [of _ "?body @ concat (map append_record_bytes rs)"]) simp
  have d4: "drop (br_offset r + 4) (br_input r) = ?body @ concat (map append_record_bytes rs)"
    using arg_cong [OF d, of "drop 4"] by (simp add: add.commute)
  have "slice (br_input r) (br_offset r + 4) ?stop = ?body"
    using d4 w by (simp add: slice_def)
  then have body: "append_body op (br_input r) (acc, n) (br_offset r + 4, ?stop)
      = (Inr (acc @ [x], n + length (ar_data x)) :: 'a frame_codec_error + _)"
    unfolding append_body_Inr [OF len] using Cons.prems(3) by auto
  have rest: "drop ?stop (br_input r) = concat (map append_record_bytes rs)"
    using arg_cong [OF d4, of "drop (unat ?w)"] w by (simp add: add.commute add.left_commute)
  have IH: "for_ranges (append_body op (br_input ?r)) ?r (acc @ [x], n + length (ar_data x))
      = (Inr ((acc @ [x]) @ rs, n + length (ar_data x) + sum_list (map (length \<circ> ar_data) rs))
         :: 'a frame_codec_error + _)"
    by (rule Cons.IH) (use rest Cons.prems len in auto)
  show ?case
    using next_r body IH by (simp add: for_ranges.simps [of _ r] add.assoc o_def)
qed

lemma append_frame_length:
  "append_bounds rs \<Longrightarrow> length (append_batch_bytes rs) \<le> MAX_ENCODED_FRAME_BYTES"
proof -
  assume b: "append_bounds rs"
  have "length (append_batch_bytes rs) = 1 + length rs * 16 + sum_list (map (length \<circ> ar_data) rs)"
    unfolding append_batch_bytes_def
    by (induction rs) (simp_all add: length_append_record_bytes)
  with b show ?thesis by (simp add: append_bounds_def const_defs)
qed

lemma decode_append_batch_bytes:
  assumes "append_bounds rs"
  shows "decode_append_batch op (append_batch_bytes rs) = Inr (ClientAppendBatch rs)"
proof -
  let ?r = "record_body_ranges (append_batch_bytes rs) MAX_APPEND_FRAME_RECORDS"
  have "for_ranges (append_body op (br_input ?r)) ?r ([], 0)
      = (Inr ([] @ rs, 0 + sum_list (map (length \<circ> ar_data) rs)) :: 'a frame_codec_error + _)"
    by (rule decode_append_records)
      (use assms append_frame_length [OF assms] in
        \<open>simp_all add: record_body_ranges_def append_batch_bytes_def append_bounds_def const_defs\<close>)
  then show ?thesis
    using assms
    by (simp add: decode_append_batch_def record_body_ranges_def append_bounds_def validate_batch_def
        validate_batch_count_def not_less)
qed

definition append_scan :: "bytes \<Rightarrow> body_ranges \<Rightarrow> append_record list \<times> nat \<Rightarrow> bool" where
  "append_scan input r acc \<longleftrightarrow> br_input r = input \<and> br_offset r \<le> length input
     \<and> take (br_offset r) input = take 1 input @ concat (map append_record_bytes (fst acc))
     \<and> (\<forall>x \<in> set (fst acc). valid_append_record x)
     \<and> snd acc = sum_list (map (length \<circ> ar_data) (fst acc))"

lemma append_scan_step:
  assumes "append_scan input r acc"
    and "br_next r = (Some (Inr (a, b) :: 'j frame_codec_error + nat \<times> nat), r')"
    and "append_body op input acc (a, b) = (Inr acc' :: 'j frame_codec_error + _)"
  shows "append_scan input r' acc'"
proof -
  obtain rs n where acc: "acc = (rs, n)" by force
  obtain w rest where w: "drop (br_offset r) input = be32 w @ rest" "unat w \<le> length rest"
    "a = br_offset r + 4" "b = a + unat w" "r' = r\<lparr>br_offset := b, br_count := br_count r + 1\<rparr>"
    using assms(1,2) unfolding br_next_Inr by (auto simp: append_scan_def)
  have "length (drop (br_offset r) input) = 4 + length rest" unfolding w(1) by simp
  then have b: "b \<le> length input" "br_offset r \<le> length input"
    unfolding w(4) w(3) using w(2) by simp_all
  from assms(3) [unfolded acc append_body_Inr [OF b(1)]] obtain x
    where x: "slice input a b = be64 (ar_writer_seq_num x) @ be32 (raw (ar_part x)) @ ar_data x"
      "valid_append_record x" "acc' = (rs @ [x], n + length (ar_data x))"
    by auto
  have "drop (br_offset r) input = append_record_bytes x @ drop b input"
    using append_record_bytes_split [of input "br_offset r" w x rest] x(1) w by simp
  then have "take b input = take (br_offset r) input @ append_record_bytes x"
    by (smt (verit, ccfv_threshold) append.assoc append_same_eq append_take_drop_id)
  with assms(1) x w b show ?thesis
    by (simp add: append_scan_def acc)
qed

lemma decode_append_batch_Inr:
  assumes "decode_append_batch op (op # body) = Inr f"
  shows "\<exists>rs. f = ClientAppendBatch rs \<and> append_bounds rs \<and> op # body = op # concat (map append_record_bytes rs)"
proof -
  let ?r = "record_body_ranges (op # body) MAX_APPEND_FRAME_RECORDS"
  obtain rs n where rs: "for_ranges (append_body op (op # body)) ?r ([], 0)
      = (Inr (rs, n) :: 'a frame_codec_error + _)" "f = ClientAppendBatch rs"
    "0 < length rs" "length rs \<le> MAX_APPEND_FRAME_RECORDS" "n \<le> MAX_FRAME_PAYLOAD_BYTES"
    using assms by (auto simp: decode_append_batch_def and_then_eq_Inr)
  have "append_scan (op # body) ?r ([], 0)"
    by (simp add: append_scan_def record_body_ranges_def)
  then have "\<exists>r'. append_scan (op # body) r' (rs, n) \<and> length (br_input r') \<le> br_offset r'"
    by (rule for_ranges_invariant [OF rs(1)]) (rule append_scan_step)
  with rs show ?thesis by (auto simp: append_scan_def append_bounds_def)
qed

lemma flag_cases: "(b :: u8) AND - 2 = 0 \<longleftrightarrow> b = 0 \<or> b = 1"
proof
  assume *: "b AND - 2 = 0"
  have m: "(- 1 :: u8) = 1 OR - 2" by simp
  have "b = b AND (1 OR - 2)" unfolding m [symmetric] by (rule sym, rule and.right_neutral)
  then have "b = b AND 1" unfolding bit.conj_disj_distrib * or.right_neutral .
  moreover have "b AND 1 = 0 \<or> b AND 1 = 1" unfolding and_one_eq using not_mod_2_eq_1_eq_0 [of b] by blast
  ultimately show "b = 0 \<or> b = 1" by metis
next
  assume "b = 0 \<or> b = 1"
  then show "b AND - 2 = 0" by (elim disjE) simp_all
qed

lemma parse_secret_Inr:
  "and_then (utf8_tail bs) (\<lambda>text. and_then (parse_link_secret dec text) k) = Inr x
     \<longleftrightarrow> valid_link_secret dec (LinkSecret bs) \<and> k (LinkSecret bs) = Inr x"
  by (auto simp: and_then_eq_Inr utf8_tail_def parse_link_secret_def link_secret_from_str_Inr
      valid_link_secret_def)

definition typed_client_frame :: "base64_decoder \<Rightarrow> client_frame \<Rightarrow> bool" where
  "typed_client_frame dec f = (case f of
       OpenRead None \<Rightarrow> True
     | OpenRead (Some s) \<Rightarrow> valid_link_secret dec s
     | OpenWrite w s _ \<Rightarrow> valid_client_writer_id w \<and> valid_link_secret dec s
     | ClientAppendBatch _ \<Rightarrow> True)"

lemma decode_open_read_Inr:
  "decode_open_read dec op body = Inr f \<longleftrightarrow>
     body = [0] \<and> f = OpenRead None
     \<or> (\<exists>s. body = 1 # expose_secret s \<and> f = OpenRead (Some s) \<and> valid_link_secret dec s)"
    (is "?L \<longleftrightarrow> ?R")
proof
  assume ?L
  then obtain flags d where d: "fd_byte (decoder_at op body) = (Inr (flags, d) :: 'a frame_codec_error + _)"
    "flags = 0 \<or> flags = 1"
    by (auto simp: decode_open_read_def and_then_eq_Inr OPEN_READ_LINK_SECRET_def flag_cases split: if_splits)
  then have body: "body = flags # remaining d" by (simp add: fd_byte_Inr)
  from d(2) show ?R
  proof
    assume "flags = 0"
    with \<open>?L\<close> d(1) body show ?R
      by (auto simp: decode_open_read_def OPEN_READ_LINK_SECRET_def and_then_eq_Inr)
  next
    assume f: "flags = 1"
    with \<open>?L\<close> d(1) obtain secret d2
      where s: "fd_take BASE64URL_24_ENCODED_LEN d = (Inr (secret, d2) :: 'a frame_codec_error + _)"
        "remaining d2 = []"
        "valid_link_secret dec (LinkSecret secret)" "f = OpenRead (Some (LinkSecret secret))"
      by (auto simp: decode_open_read_def OPEN_READ_LINK_SECRET_def and_then_eq_Inr [of "fd_take _ _"]
          and_then_eq_Inr [of "fd_finish _"] parse_secret_Inr split: prod.splits)
    then have "remaining d = secret" by (simp add: fd_take_Inr)
    with s body f show ?R by (intro disjI2 exI [of _ "LinkSecret secret"]) simp
  qed
next
  assume ?R
  moreover have "fd_take BASE64URL_24_ENCODED_LEN (decoder_at op (expose_secret s))
      = (Inr (expose_secret s, decoder_at op []) :: 'a frame_codec_error + _)"
    if "valid_link_secret dec s" for s
    using valid_link_secret_length [OF that] by (simp add: fd_take_def BASE64URL_24_ENCODED_LEN_def)
  ultimately show ?L
    by (auto simp: decode_open_read_def OPEN_READ_LINK_SECRET_def parse_secret_Inr fd_finish_def)
qed

lemma decode_open_write_Inr:
  "decode_open_write dec op body = Inr f \<longleftrightarrow>
     (\<exists>w s. body = 0 # client_writer_id_bytes w @ expose_secret s \<and> f = OpenWrite w s None
        \<and> valid_client_writer_id w \<and> valid_link_secret dec s)
     \<or> (\<exists>w s v. body = 1 # client_writer_id_bytes w @ be64 v @ expose_secret s \<and> f = OpenWrite w s (Some v)
        \<and> valid_client_writer_id w \<and> valid_link_secret dec s \<and> unat v \<le> MAX_SAFE_INTEGER_U64)"
    (is "?L \<longleftrightarrow> ?R")
proof
  assume ?L
  then obtain flags d w d1 where d: "fd_byte (decoder_at op body) = (Inr (flags, d) :: 'a frame_codec_error + _)"
    "flags = 0 \<or> flags = 1" "fd_take WRITER_ID_BYTE_LEN d = (Inr (w, d1) :: 'a frame_codec_error + _)"
    by (auto simp: decode_open_write_def and_then_eq_Inr OPEN_WRITE_EXPECTED_NEXT_SEQ_NUM_def flag_cases
        split: if_splits)
  then have body: "body = flags # w @ remaining d1" "valid_client_writer_id (ClientWriterId w)"
    by (simp_all add: fd_Inr valid_client_writer_id_def)
  from d(2) show ?R
  proof
    assume "flags = 0"
    with \<open>?L\<close> d(1,3) body show ?R
      by (intro disjI1 exI [of _ "ClientWriterId w"] exI [of _ "LinkSecret (remaining d1)"])
        (simp add: decode_open_write_def OPEN_WRITE_EXPECTED_NEXT_SEQ_NUM_def parse_secret_Inr)
  next
    assume f: "flags = 1"
    with \<open>?L\<close> d(1,3) obtain v d2
      where v: "fd_u64 d1 = (Inr (v, d2) :: 'a frame_codec_error + _)"
        "unat v \<le> MAX_SAFE_INTEGER_U64" "valid_link_secret dec (LinkSecret (remaining d2))"
        "f = OpenWrite (ClientWriterId w) (LinkSecret (remaining d2)) (Some v)"
      by (auto simp: decode_open_write_def OPEN_WRITE_EXPECTED_NEXT_SEQ_NUM_def parse_secret_Inr
          and_then_eq_Inr [of "fd_u64 _"] and_then_eq_Inr [of "and_then _ _"]
          and_then_eq_Inr [of "validate_expected_next_seq_num _"] split: prod.splits)
    then have "remaining d1 = be64 v @ remaining d2" by (simp add: fd_u64_Inr)
    with v body f show ?R
      by (intro disjI2 exI [of _ "ClientWriterId w"] exI [of _ "LinkSecret (remaining d2)"] exI [of _ v]) simp
  qed
next
  assume ?R
  then show ?L
    by (auto simp: decode_open_write_def OPEN_WRITE_EXPECTED_NEXT_SEQ_NUM_def parse_secret_Inr
        valid_client_writer_id_def validate_expected_next_seq_num_def not_less)
qed

lemma decode_append_batch_iff:
  "decode_append_batch (client_op_byte OpAppendBatch) (client_op_byte OpAppendBatch # body) = Inr f
     \<longleftrightarrow> (\<exists>rs. f = ClientAppendBatch rs \<and> append_bounds rs
           \<and> client_op_byte OpAppendBatch # body = append_batch_bytes rs)"
  using decode_append_batch_Inr [of "client_op_byte OpAppendBatch" body f]
    decode_append_batch_bytes [of _ "client_op_byte OpAppendBatch"]
  by (auto simp: append_batch_bytes_def simp del: client_op_byte.simps)

lemma decode_client_frame_Inr:
  "decode_client_frame dec bs = Inr f
     \<longleftrightarrow> client_frame_bounds f \<and> typed_client_frame dec f \<and> bs = client_frame_bytes f"
proof (cases bs)
  case Nil
  then show ?thesis
    by (simp add: decode_client_frame_def client_frame_bytes_def append_batch_bytes_def
        split: client_frame.split option.split)
next
  case (Cons op body)
  have "decode_client_frame dec bs = (Inr f :: 'a frame_codec_error + _) \<longleftrightarrow>
     op = client_op_byte OpOpenRead \<and> (decode_open_read dec op body = (Inr f :: 'a frame_codec_error + _))
     \<or> op = client_op_byte OpOpenWrite \<and> (decode_open_write dec op body = (Inr f :: 'a frame_codec_error + _))
     \<or> op = client_op_byte OpAppendBatch \<and> (decode_append_batch op bs = (Inr f :: 'a frame_codec_error + _))"
    unfolding Cons decode_client_frame_def
    by (simp add: client_op_try_from_def)
  also have "\<dots> \<longleftrightarrow> client_frame_bounds f \<and> typed_client_frame dec f \<and> bs = client_frame_bytes f"
    unfolding decode_open_read_Inr decode_open_write_Inr
    using decode_append_batch_iff [of body f, where 'a = 'a]
    by (cases f)
      (auto simp: Cons client_frame_bounds_def typed_client_frame_def client_frame_bytes_def
        append_batch_bytes_def split: option.splits)
  finally show ?thesis .
qed

text \<open>C14: The client codec is a bijection between the frames it accepts and the byte strings it
  decodes. A well-typed frame encodes to given bytes exactly when those bytes decode to that
  frame: decoding inverts encoding for every frame, and every accepted byte string is the
  canonical encoding of the one frame it decodes to, with no other bytes, flags or lengths.\<close>

theorem client_frame_codec:
  assumes "buf_mut_appends B"
  shows "client_encode B f = (Inr bs :: 'a frame_codec_error + bytes) \<and> typed_client_frame dec f
    \<longleftrightarrow> decode_client_frame dec bs = (Inr f :: 'a frame_codec_error + client_frame)"
  by (auto simp: decode_client_frame_Inr client_encode_Inr [OF assms])

definition sample_frame :: client_frame where
  "sample_frame = ClientAppendBatch
     [\<lparr>ar_writer_seq_num = 7, ar_part = unsplit, ar_data = [104, 105]\<rparr>]"

theorem client_frame_codec_witness:
  "decode_client_frame (\<lambda>_ _. None) [3, 0, 0, 0, 14, 0, 0, 0, 0, 0, 0, 0, 7, 0x80, 0, 0, 0, 104, 105]
     = (Inr sample_frame :: unit frame_codec_error + client_frame)"
proof -
  have "append_bounds [\<lparr>ar_writer_seq_num = 7, ar_part = unsplit, ar_data = [104, 105]\<rparr>]"
    by (simp add: append_bounds_def valid_append_record_def const_defs)
  then have "client_encode list_buf sample_frame
      = (Inr [3, 0, 0, 0, 14, 0, 0, 0, 0, 0, 0, 0, 7, 0x80, 0, 0, 0, 104, 105] :: unit frame_codec_error + bytes)"
    by (simp add: client_encode_Inr [OF list_buf_appends] client_frame_bounds_def sample_frame_def
        client_frame_bytes_def append_batch_bytes_def append_record_bytes_def be32_def be64_def
        APPEND_RECORD_HEADER_LEN_def unsplit_def FINAL_BIT_def to_be_numeral)
  moreover have "typed_client_frame (\<lambda>_ _. None) sample_frame"
    by (simp add: typed_client_frame_def sample_frame_def)
  ultimately show ?thesis using client_frame_codec [OF list_buf_appends] by blast
qed

text \<open>The encoder accepts an append batch exactly when it has 1 to 128 records, no writer sequence
  is \<open>u64::MAX\<close>, no record is over 512 KiB and the records total at most 1 MiB; the frame it
  produces is the documented layout and never exceeds the maximum frame size.\<close>

theorem encode_append_batch_bounds:
  assumes "buf_mut_appends B"
  shows "case (encode_append_batch B rs :: 'a frame_codec_error + bytes) of
     Inr bs \<Rightarrow> append_bounds rs \<and> bs = append_batch_bytes rs \<and> length bs \<le> MAX_ENCODED_FRAME_BYTES
   | Inl _ \<Rightarrow> \<not> append_bounds rs"
proof (cases "encode_append_batch B rs :: 'a frame_codec_error + bytes")
  case (Inl e)
  have "\<not> append_bounds rs"
  proof
    assume "append_bounds rs"
    then have "encode_append_batch B rs = (Inr (append_batch_bytes rs) :: 'a frame_codec_error + bytes)"
      by (simp add: encode_append_batch_Inr [OF assms])
    with Inl show False by simp
  qed
  with Inl show ?thesis by simp
next
  case (Inr bs)
  then show ?thesis
    using iffD1 [OF encode_append_batch_Inr [OF assms] Inr] append_frame_length [of rs] by simp
qed

theorem encode_append_batch_bounds_witness:
  "case (encode_append_batch list_buf [] :: unit frame_codec_error + bytes) of
     Inr bs \<Rightarrow> append_bounds [] \<and> bs = append_batch_bytes [] \<and> length bs \<le> MAX_ENCODED_FRAME_BYTES
   | Inl _ \<Rightarrow> \<not> append_bounds []"
  by (rule encode_append_batch_bounds [OF list_buf_appends])

end
