(* ===== verification/Rest.thy ===== *)
theory Rest
  imports FrameCodec
begin

text \<open>
  The wire forms of the JSON data plane (\<open>rust/src/protocol/rest.rs\<close>) below serde: canonical decimal
  strings, RFC 3339 timestamps, payload fields, names of enumerations and the three-state title
  update. A JSON string is a \<open>str\<close>, an absent or \<open>null\<close> field is \<open>None\<close>, and serde's custom error is
  its message.
\<close>

section \<open>Limits\<close>

definition MAX_STATELESS_APPEND_RECORDS :: nat where [const_defs]: "MAX_STATELESS_APPEND_RECORDS = 128"
definition MAX_STATELESS_APPEND_PAYLOAD_BYTES :: nat where
  [const_defs]: "MAX_STATELESS_APPEND_PAYLOAD_BYTES = 900 * 1024"
definition MAX_REST_RESPONSE_BYTES :: nat where [const_defs]: "MAX_REST_RESPONSE_BYTES = 2 * 1024 * 1024"
definition MAX_REST_ERROR_RESPONSE_BYTES :: nat where [const_defs]: "MAX_REST_ERROR_RESPONSE_BYTES = 64 * 1024"
definition MAX_LINK_PAGE_ITEMS :: nat where [const_defs]: "MAX_LINK_PAGE_ITEMS = 100"
definition MAX_SSE_EVENT_BYTES :: nat where [const_defs]: "MAX_SSE_EVENT_BYTES = 2 * 1024 * 1024"
definition MAX_SSE_UNTERMINATED_EVENT_BYTES :: nat where
  [const_defs]: "MAX_SSE_UNTERMINATED_EVENT_BYTES = 2 * 1024 * 1024"

section \<open>Names\<close>

definition stream_kind_as_str :: "stream_kind \<Rightarrow> string" where
  "stream_kind_as_str k = (case k of Transcript \<Rightarrow> ''transcript'' | Bytes \<Rightarrow> ''bytes'' | Terminal \<Rightarrow> ''terminal'')"

definition visibility_as_str :: "visibility \<Rightarrow> string" where
  "visibility_as_str v = (case v of Private \<Rightarrow> ''private'' | Public \<Rightarrow> ''public'')"

datatype stream_link_status = Active | Expired | Revoked

definition stream_link_status_as_str :: "stream_link_status \<Rightarrow> string" where
  "stream_link_status_as_str s = (case s of Active \<Rightarrow> ''active'' | Expired \<Rightarrow> ''expired'' | Revoked \<Rightarrow> ''revoked'')"

section \<open>Decimal integers\<close>

text \<open>\<open>u64::to_string\<close> and \<open>str::parse::<u64>\<close>, which accepts a leading plus sign and leading zeros and
  rejects an overflow.\<close>

fun decimal :: "nat \<Rightarrow> rstr" where
  "decimal n = (if n < 10 then [of_nat (48 + n)] else decimal (n div 10) @ [of_nat (48 + n mod 10)])"

declare decimal.simps [simp del]

definition to_string :: "u64 \<Rightarrow> rstr" where
  "to_string v = decimal (unat v)"

fun digits_value :: "nat \<Rightarrow> bytes \<Rightarrow> nat option" where
  "digits_value value [] = Some value"
| "digits_value value (b # bs) = (if is_ascii_digit b then digits_value (value * 10 + (unat b - 48)) bs else None)"

definition parse_u64 :: "rstr \<Rightarrow> u64 option" where
  "parse_u64 s =
     (let digits = (case s of b # rest \<Rightarrow> if b = 43 then rest else s | [] \<Rightarrow> s) in
      if digits = [] then None
      else (case digits_value 0 digits of
          Some v \<Rightarrow> if v < 2 ^ 64 then Some (of_nat v) else None
        | None \<Rightarrow> None))"

definition parse_canonical_decimal_u64 :: "rstr \<Rightarrow> u64 option" where
  "parse_canonical_decimal_u64 value =
     (if value = [] \<or> (value \<noteq> lit ''0'' \<and> hd value = 48) \<or> \<not> list_all is_ascii_digit value
      then None else parse_u64 value)"

definition decimal_u64_visit_str :: "u64 option \<Rightarrow> rstr \<Rightarrow> string + u64" where
  "decimal_u64_visit_str max_value value =
     and_then (ok_or ''non-canonical decimal u64'' (parse_canonical_decimal_u64 value)) (\<lambda>parsed.
     if (case max_value of None \<Rightarrow> False | Some m \<Rightarrow> parsed > m) then Inl ''sequence exceeds the data adapter range''
     else Inr parsed)"

definition optional_decimal_u64_visit :: "u64 option \<Rightarrow> rstr option \<Rightarrow> string + u64 option" where
  "optional_decimal_u64_visit max_value field = (case field of
       None \<Rightarrow> Inr None
     | Some value \<Rightarrow> and_then (decimal_u64_visit_str max_value value) (\<lambda>v. Inr (Some v)))"

definition optional_safe_decimal_u64 :: "rstr option \<Rightarrow> string + u64 option" where
  "optional_safe_decimal_u64 = optional_decimal_u64_visit (Some (of_nat MAX_SAFE_INTEGER_U64))"

definition decimal_u64_serialize :: "u64 \<Rightarrow> rstr" where
  "decimal_u64_serialize value = to_string value"

definition optional_decimal_u64_serialize :: "u64 option \<Rightarrow> rstr option" where
  "optional_decimal_u64_serialize value = (case value of Some v \<Rightarrow> Some (to_string v) | None \<Rightarrow> None)"

section \<open>Timestamps\<close>

text \<open>\<open>bytes.get(i) == Some(&b)\<close> and the fixed-width number closure.\<close>

definition byte_at :: "bytes \<Rightarrow> nat \<Rightarrow> u8 \<Rightarrow> bool" where
  "byte_at bs i b \<longleftrightarrow> i < length bs \<and> bs ! i = b"

definition number :: "bytes \<Rightarrow> nat \<Rightarrow> nat \<Rightarrow> nat option" where
  "number bs start stop = (if start \<le> stop \<and> stop \<le> length bs then digits_value 0 (slice bs start stop) else None)"

definition leap_year :: "nat \<Rightarrow> bool" where
  "leap_year year \<longleftrightarrow> year mod 4 = 0 \<and> (year mod 100 \<noteq> 0 \<or> year mod 400 = 0)"

definition max_day :: "bool \<Rightarrow> nat \<Rightarrow> nat option" where
  "max_day leap month =
     (if month \<in> {1, 3, 5, 7, 8, 10, 12} then Some 31
      else if month \<in> {4, 6, 9, 11} then Some 30
      else if month = 2 then Some (if leap then 29 else 28)
      else None)"

definition rfc3339_zone :: "bytes \<Rightarrow> bool" where
  "rfc3339_zone zone \<longleftrightarrow> zone = lit ''Z''
     \<or> (length zone = 6 \<and> (zone ! 0 = 43 \<or> zone ! 0 = 45) \<and> zone ! 3 = 58
        \<and> (case (number zone 1 3, number zone 4 6) of
             (Some hour, Some minute) \<Rightarrow> hour \<le> 23 \<and> minute \<le> 59
           | _ \<Rightarrow> False))"

text \<open>The optional fraction at \<open>index\<close>: the index after it, or \<open>None\<close> for a dot without digits.\<close>

definition rfc3339_fraction :: "bytes \<Rightarrow> nat \<Rightarrow> nat option" where
  "rfc3339_fraction bs index =
     (if byte_at bs index 46 then
        let start = index + 1; n = length (takeWhile is_ascii_digit (drop start bs)) in
        if n = 0 then None else Some (start + n)
      else Some index)"

definition is_rfc3339_timestamp :: "rstr \<Rightarrow> bool" where
  "is_rfc3339_timestamp bs =
     (if length bs < 20 \<or> \<not> byte_at bs 4 45 \<or> \<not> byte_at bs 7 45 \<or> \<not> byte_at bs 10 84
         \<or> \<not> byte_at bs 13 58 \<or> \<not> byte_at bs 16 58 then False
      else case (number bs 0 4, number bs 5 7, number bs 8 10, number bs 11 13, number bs 14 16, number bs 17 19) of
          (Some year, Some month, Some day, Some hour, Some minute, Some second) \<Rightarrow>
            (case max_day (leap_year year) month of
               None \<Rightarrow> False
             | Some days \<Rightarrow>
                 if day = 0 \<or> day > days \<or> hour > 23 \<or> minute > 59 \<or> second > 59 then False
                 else (case rfc3339_fraction bs 19 of
                     None \<Rightarrow> False
                   | Some index \<Rightarrow> rfc3339_zone (drop index bs)))
        | _ \<Rightarrow> False)"

definition deserialize_rfc3339_string :: "rstr \<Rightarrow> string + rstr" where
  "deserialize_rfc3339_string value =
     (if \<not> is_rfc3339_timestamp value then Inl ''invalid RFC 3339 timestamp'' else Inr value)"

definition deserialize_nullable_rfc3339_string :: "rstr option \<Rightarrow> string + rstr option" where
  "deserialize_nullable_rfc3339_string value =
     (if (case value of Some v \<Rightarrow> \<not> is_rfc3339_timestamp v | None \<Rightarrow> False)
      then Inl ''invalid RFC 3339 timestamp'' else Inr value)"

definition deserialize_nullable_non_empty_string :: "rstr option \<Rightarrow> string + rstr option" where
  "deserialize_nullable_non_empty_string value =
     (if value = Some [] then Inl ''cursor must not be empty'' else Inr value)"

section \<open>Record payloads and title updates\<close>

datatype json_record_payload = PayloadText rstr | PayloadBytes rstr

record rest_record_part =
  rrp_index :: u32
  rrp_is_final :: bool

text \<open>The \<open>text\<close> and \<open>bytes\<close> fields, written and read.\<close>

definition payload_fields :: "json_record_payload \<Rightarrow> rstr option \<times> rstr option" where
  "payload_fields p = (case p of PayloadText t \<Rightarrow> (Some t, None) | PayloadBytes b \<Rightarrow> (None, Some b))"

definition payload_of_fields :: "rstr option \<times> rstr option \<Rightarrow> string + json_record_payload" where
  "payload_of_fields found = (case found of
       (Some t, None) \<Rightarrow> Inr (PayloadText t)
     | (None, Some b) \<Rightarrow> Inr (PayloadBytes b)
     | _ \<Rightarrow> Inl ''a record carries exactly one of text or bytes'')"

datatype stream_title_update = Unchanged | SetTitle stream_title | ClearTitle

definition is_unchanged :: "stream_title_update \<Rightarrow> bool" where
  "is_unchanged u \<longleftrightarrow> u = Unchanged"

text \<open>The outer option is the field itself: absent, or present with \<open>null\<close> or a title.\<close>

definition serialize_title_update :: "stream_title_update \<Rightarrow> (unit, stream_title option) outcome" where
  "serialize_title_update u = (case u of SetTitle t \<Rightarrow> Ok (Some t) | ClearTitle \<Rightarrow> Ok None | Unchanged \<Rightarrow> Panic)"

definition write_title_field :: "stream_title_update \<Rightarrow> (unit, stream_title option option) outcome" where
  "write_title_field u = (if is_unchanged u then Ok None
     else (case serialize_title_update u of Ok t \<Rightarrow> Ok (Some t) | Err e \<Rightarrow> Err e | Panic \<Rightarrow> Panic))"

definition read_title_field :: "stream_title option option \<Rightarrow> stream_title_update" where
  "read_title_field field = (case field of
       None \<Rightarrow> Unchanged
     | Some value \<Rightarrow> (case value of Some t \<Rightarrow> SetTitle t | None \<Rightarrow> ClearTitle))"

section \<open>Properties\<close>

lemma is_ascii_digit_iff: "is_ascii_digit b \<longleftrightarrow> 48 \<le> unat b \<and> unat b \<le> 57"
  by (simp add: is_ascii_digit_def in_range_def)

lemma digit_byte [simp]: "n < 10 \<Longrightarrow> unat (of_nat (48 + n) :: u8) = 48 + n"
  by (simp only: unat_of_nat) (simp add: take_bit_eq_mod)

lemma is_digit_byte [simp]: "n < 10 \<Longrightarrow> is_ascii_digit (of_nat (48 + n))"
  unfolding is_ascii_digit_iff by (subst (1 2) digit_byte) auto

lemma digits_value_append:
  "digits_value v (xs @ ys) = (case digits_value v xs of None \<Rightarrow> None | Some w \<Rightarrow> digits_value w ys)"
  by (induction v xs rule: digits_value.induct) auto

lemma digits_value_None_iff [simp]: "digits_value v bs = None \<longleftrightarrow> \<not> list_all is_ascii_digit bs"
  by (induction v bs rule: digits_value.induct) auto

lemma decimal_digits [simp]: "list_all is_ascii_digit (decimal n)"
proof (induction n rule: decimal.induct)
  case (1 n)
  then show ?case
    by (subst decimal.simps) (simp del: of_nat_add of_nat_numeral)
qed

lemma digits_value_decimal: "digits_value 0 (decimal n) = Some n"
proof (induction n rule: decimal.induct)
  case (1 n)
  have digit: "digits_value v [of_nat (48 + k)] = Some (v * 10 + k)" if "k < 10" for k v
    using that by (simp del: of_nat_add of_nat_numeral)
  show ?case
  proof (cases "n < 10")
    case True
    then show ?thesis
      using digit[of n 0] by (subst decimal.simps) simp
  next
    case False
    then show ?thesis
      using 1 digit[of "n mod 10" "n div 10"] by (subst decimal.simps) (simp add: digits_value_append)
  qed
qed

lemma decimal_not_Nil [simp]: "decimal n \<noteq> []"
  by (subst decimal.simps) simp

lemma hd_decimal: "0 < n \<Longrightarrow> hd (decimal n) \<noteq> 48"
proof (induction n rule: decimal.induct)
  case (1 n)
  show ?case
  proof (cases "n < 10")
    case True
    have "(of_nat (48 + n) :: u8) \<noteq> 48"
    proof
      assume "(of_nat (48 + n) :: u8) = 48"
      then have "unat (of_nat (48 + n) :: u8) = unat (48 :: u8)" by simp
      with True 1(2) show False by (simp del: of_nat_add of_nat_numeral)
    qed
    with True show ?thesis by (subst decimal.simps) (simp del: of_nat_add of_nat_numeral)
  next
    case False
    then show ?thesis using 1 by (subst decimal.simps) simp
  qed
qed

lemma decimal_0 [simp]: "decimal 0 = lit ''0''"
  by (simp add: decimal.simps lit_def of_char_def)

lemma digit_of_value: "is_ascii_digit b \<Longrightarrow> of_nat (48 + (unat b - 48)) = b"
  by (simp add: is_ascii_digit_iff del: of_nat_add)

text \<open>The digits of a canonical numeral are those of its value.\<close>

lemma decimal_of_digits:
  "list_all is_ascii_digit bs \<Longrightarrow> 0 < v \<Longrightarrow> digits_value v bs = Some w \<Longrightarrow> decimal w = decimal v @ bs"
proof (induction v bs rule: digits_value.induct)
  case (2 v b bs)
  have digit: "unat b - 48 < 10" using 2 by (auto simp: is_ascii_digit_iff)
  have "decimal (v * 10 + (unat b - 48)) = decimal v @ [b]"
    using 2 digit digit_of_value[of b] by (subst decimal.simps) (simp del: of_nat_add of_nat_numeral)
  moreover have "decimal w = decimal (v * 10 + (unat b - 48)) @ bs"
    by (rule "2.IH") (use 2 in auto)
  ultimately show ?case by simp
qed simp

lemma decimal_canonical:
  assumes "list_all is_ascii_digit bs" "bs \<noteq> []" "hd bs \<noteq> 48" "digits_value 0 bs = Some w"
  shows "bs = decimal w"
proof -
  obtain b rest where bs: "bs = b # rest" using assms(2) by (cases bs) auto
  then have digit: "is_ascii_digit b" "unat b \<noteq> 48"
    using assms by (auto simp: word_unat_eq_iff)
  then have pos: "0 < unat b - 48" "unat b - 48 < 10"
    by (auto simp: is_ascii_digit_iff)
  have "decimal w = decimal (unat b - 48) @ rest"
    by (rule decimal_of_digits) (use assms bs pos in auto)
  also have "decimal (unat b - 48) = [b]"
    using pos digit_of_value[OF digit(1)] by (subst decimal.simps) (simp del: of_nat_add of_nat_numeral)
  finally show ?thesis using bs by simp
qed

lemma parse_canonical_decimal: "parse_canonical_decimal_u64 s = Some v \<longleftrightarrow> s = to_string v"
proof
  assume "parse_canonical_decimal_u64 s = Some v"
  then have s: "s \<noteq> []" "s = lit ''0'' \<or> hd s \<noteq> 48" "list_all is_ascii_digit s" and parse: "parse_u64 s = Some v"
    by (auto simp: parse_canonical_decimal_u64_def split: if_splits)
  from s have "hd s \<noteq> 43"
    by (cases s) (auto simp: is_ascii_digit_iff)
  then obtain n where n: "digits_value 0 s = Some n" "n < 2 ^ 64" "v = of_nat n"
    using parse s(1) by (auto simp: parse_u64_def Let_def split: list.splits if_splits option.splits)
  then have v: "unat v = n"
    by (simp add: unat_of_nat take_bit_eq_mod)
  show "s = to_string v"
  proof (cases "hd s = 48")
    case True
    then have "s = lit ''0''" using s by blast
    moreover have "n = 0" using n(1) \<open>s = lit ''0''\<close> by (simp add: lit_def of_char_def is_ascii_digit_iff split: if_splits)
    ultimately show ?thesis by (simp add: to_string_def v)
  next
    case False
    then show ?thesis
      using decimal_canonical[OF s(3,1) _ n(1)] by (simp add: to_string_def v)
  qed
next
  assume s: "s = to_string v"
  have zero: "s = lit ''0''" if "hd s = 48"
    using that hd_decimal[of "unat v"] s by (cases "unat v = 0") (auto simp: to_string_def)
  have "hd s \<noteq> 43"
    using decimal_digits[of "unat v"] unfolding s to_string_def
    by (cases "decimal (unat v)") (auto simp: is_ascii_digit_iff)
  then have "parse_u64 s = (case digits_value 0 s of Some n \<Rightarrow> if n < 2 ^ 64 then Some (of_nat n) else None | None \<Rightarrow> None)"
    using s by (auto simp: parse_u64_def to_string_def split: list.splits)
  also have "\<dots> = Some v"
    using unsigned_less[of v] by (simp add: s to_string_def digits_value_decimal)
  finally show "parse_canonical_decimal_u64 s = Some v"
    using s zero by (auto simp: parse_canonical_decimal_u64_def to_string_def)
qed

text \<open>The canonical decimal parser is the inverse of \<open>to_string\<close>: it accepts exactly the strings that
  \<open>to_string\<close> writes, so no sign, no leading zero, no empty string and no number past \<open>u64::MAX\<close>, and
  returns the number written.\<close>

theorem parse_canonical_decimal_iff: "parse_canonical_decimal_u64 s = Some v \<longleftrightarrow> s = to_string v"
  by (rule parse_canonical_decimal)

text \<open>Zero-padded fields of a fixed width.\<close>

definition pad :: "nat \<Rightarrow> nat \<Rightarrow> rstr" where
  "pad width n = replicate (width - length (decimal n)) 48 @ decimal n"

lemma digits_value_zeros [simp]: "digits_value 0 (replicate k 48 @ bs) = digits_value 0 bs"
  by (induction k) (auto simp: is_ascii_digit_iff)

lemma digits_value_pad [simp]: "digits_value 0 (pad width n) = Some n"
  by (simp add: pad_def digits_value_decimal)

lemma digits_value_snoc:
  "digits_value 0 (xs @ [b]) = Some n \<longleftrightarrow>
     (\<exists>v. digits_value 0 xs = Some v \<and> is_ascii_digit b \<and> n = v * 10 + (unat b - 48))"
  by (auto simp: digits_value_append simp del: digits_value_None_iff split: option.splits)

lemma last_digit: "k < 10 \<Longrightarrow> l < 10 \<Longrightarrow> v * 10 + k = w * 10 + l \<Longrightarrow> v = w \<and> k = l" for k l v w :: nat
  by presburger

lemma digit_cong: "is_ascii_digit b \<Longrightarrow> is_ascii_digit c
    \<Longrightarrow> v * 10 + (unat b - 48) = w * 10 + (unat c - 48) \<Longrightarrow> v = w \<and> b = c"
  using last_digit[of "unat b - 48" "unat c - 48" v w] by (auto simp: is_ascii_digit_iff word_unat_eq_iff)

lemma digits_value_inj:
  "length xs = length ys \<Longrightarrow> digits_value 0 xs = Some n \<Longrightarrow> digits_value 0 ys = Some n \<Longrightarrow> xs = ys"
proof (induction xs arbitrary: ys n rule: rev_induct)
  case (snoc b xs)
  then obtain zs c where ys: "ys = zs @ [c]" by (cases ys rule: rev_cases) auto
  with snoc.prems obtain v w where "digits_value 0 xs = Some v" "digits_value 0 zs = Some w"
    "is_ascii_digit b" "is_ascii_digit c" "v * 10 + (unat b - 48) = w * 10 + (unat c - 48)"
    by (auto simp: digits_value_snoc)
  with snoc ys digit_cong[of b c v w] show ?case by auto
qed simp

lemma length_decimal: "n < 10 ^ width \<Longrightarrow> 0 < width \<Longrightarrow> length (decimal n) \<le> width"
proof (induction n arbitrary: width rule: decimal.induct)
  case (1 n)
  show ?case
  proof (cases "n < 10")
    case True
    then show ?thesis using 1 by (subst decimal.simps) simp
  next
    case False
    obtain w where width: "width = Suc w"
      using 1(3) by (cases width) auto
    then have "0 < w"
      using 1(2) False by (cases w) auto
    with width have w: "width = Suc w" "0 < w" .
    then have "length (decimal (n div 10)) \<le> w"
      using 1 False by (auto simp: less_mult_imp_div_less mult.commute)
    then show ?thesis using False w by (subst decimal.simps) simp
  qed
qed

lemma digits_value_less: "digits_value 0 bs = Some n \<Longrightarrow> n < 10 ^ length bs"
  by (induction bs arbitrary: n rule: rev_induct) (fastforce simp: digits_value_snoc is_ascii_digit_iff)+

lemma pad_iff:
  "0 < width \<Longrightarrow> length bs = width \<and> digits_value 0 bs = Some n \<longleftrightarrow> n < 10 ^ width \<and> bs = pad width n"
  using digits_value_less[of bs n] length_decimal[of n width] digits_value_inj[of bs "pad width n" n]
  by (auto simp: pad_def digits_value_decimal)

definition days_in_month :: "nat \<Rightarrow> nat \<Rightarrow> nat" where
  "days_in_month year month =
     [31, if 4 dvd year \<and> (100 dvd year \<longrightarrow> 400 dvd year) then 29 else 28, 31, 30, 31, 30, 31, 31, 30, 31, 30, 31] ! (month - 1)"

lemma max_day_iff:
  "max_day (leap_year year) month = Some n \<longleftrightarrow> 1 \<le> month \<and> month \<le> 12 \<and> n = days_in_month year month"
proof (cases "month \<in> {1..12}")
  case True
  then have "month \<in> {1, 2, 3, 4, 5, 6, 7, 8, 9, 10, 11, 12}" by (simp; presburger)
  then show ?thesis by (auto simp: max_day_def leap_year_def days_in_month_def dvd_eq_mod_eq_0)
next
  case False
  then show ?thesis by (auto simp: max_day_def)
qed

lemma days_in_month_le: "1 \<le> month \<Longrightarrow> month \<le> 12 \<Longrightarrow> days_in_month year month \<le> 31"
  using max_day_iff[of year month "days_in_month year month"] by (auto simp: max_day_def split: if_splits)

lemma max_day_None: "max_day (leap_year year) month = None \<longleftrightarrow> \<not> (1 \<le> month \<and> month \<le> 12)"
  using max_day_iff[of year month] by (cases "max_day (leap_year year) month") auto

definition zone_form :: "bytes \<Rightarrow> bool" where
  "zone_form zone \<longleftrightarrow> zone = lit ''Z'' \<or> (\<exists>sign hour minute. sign \<in> {43, 45} \<and> hour \<le> 23 \<and> minute \<le> 59
     \<and> zone = [sign] @ pad 2 hour @ [58] @ pad 2 minute)"

definition fraction_form :: "bytes \<Rightarrow> bool" where
  "fraction_form f \<longleftrightarrow> f = [] \<or> (\<exists>ds. f = 46 # ds \<and> ds \<noteq> [] \<and> list_all is_ascii_digit ds)"

lemma number_iff:
  "start < stop \<Longrightarrow> number bs start stop = Some n \<longleftrightarrow>
     stop \<le> length bs \<and> n < 10 ^ (stop - start) \<and> slice bs start stop = pad (stop - start) n"
  using pad_iff[of "stop - start" "slice bs start stop" n] by (auto simp: number_def)

lemma length_pad: "n < 10 ^ width \<Longrightarrow> 0 < width \<Longrightarrow> length (pad width n) = width"
  using length_decimal[of n width] by (simp add: pad_def)

lemma rfc3339_zone_iff: "rfc3339_zone zone \<longleftrightarrow> zone_form zone"
proof (cases "length zone = 6")
  case True
  then obtain a b c d e f where zone: "zone = [a, b, c, d, e, f]"
    by (auto simp: numeral_eq_Suc length_Suc_conv)
  have two: "number zone 1 3 = Some n \<longleftrightarrow> n < 100 \<and> [b, c] = pad 2 n"
      "number zone 4 6 = Some n \<longleftrightarrow> n < 100 \<and> [e, f] = pad 2 n" for n
    by (simp_all add: number_iff zone slice_def)
  have split: "zone = [sign] @ pad 2 hour @ [58] @ pad 2 minute \<longleftrightarrow>
      a = sign \<and> [b, c] = pad 2 hour \<and> d = 58 \<and> [e, f] = pad 2 minute" if "hour \<le> 23" for sign hour minute
    using length_pad[of hour 2] that by (auto simp: zone numeral_eq_Suc length_Suc_conv)
  have "rfc3339_zone zone \<longleftrightarrow> (a = 43 \<or> a = 45) \<and> d = 58
      \<and> (\<exists>hour minute. number zone 1 3 = Some hour \<and> number zone 4 6 = Some minute \<and> hour \<le> 23 \<and> minute \<le> 59)"
    by (auto simp: rfc3339_zone_def zone lit_def split: option.splits)
  then show ?thesis
    unfolding two zone_form_def using split by (fastforce simp: zone lit_def)
next
  case False
  have "length (pad 2 n) = 2" if "n \<le> 59" for n
    using length_pad[of n 2] that by simp
  then show ?thesis
    using False by (fastforce simp: rfc3339_zone_def zone_form_def)
qed

lemma zone_form_hd: "zone_form zone \<Longrightarrow> \<exists>z zs. zone = z # zs \<and> z \<noteq> 46 \<and> \<not> is_ascii_digit z"
  by (auto simp: zone_form_def lit_def of_char_def is_ascii_digit_iff)

lemma zone_form_while:
  "zone_form zone \<Longrightarrow> takeWhile is_ascii_digit zone = []"
  "zone_form zone \<Longrightarrow> dropWhile is_ascii_digit zone = zone"
  using zone_form_hd[of zone] by auto

lemma rfc3339_fraction_iff:
  assumes "index \<le> length bs"
  shows "(\<exists>stop. rfc3339_fraction bs index = Some stop \<and> zone_form (drop stop bs)) \<longleftrightarrow>
     (\<exists>fraction zone. drop index bs = fraction @ zone \<and> fraction_form fraction \<and> zone_form zone)"
proof (cases "byte_at bs index 46")
  case True
  define rest where "rest = drop (Suc index) bs"
  have bs: "drop index bs = 46 # rest"
    using True by (simp add: byte_at_def rest_def Cons_nth_drop_Suc [symmetric])
  have "(\<exists>stop. rfc3339_fraction bs index = Some stop \<and> zone_form (drop stop bs)) \<longleftrightarrow>
     takeWhile is_ascii_digit rest \<noteq> [] \<and> zone_form (dropWhile is_ascii_digit rest)"
    using True by (auto simp: rfc3339_fraction_def Let_def rest_def add.commute dropWhile_eq_drop)
  also have "\<dots> \<longleftrightarrow> (\<exists>ds zone. rest = ds @ zone \<and> ds \<noteq> [] \<and> list_all is_ascii_digit ds \<and> zone_form zone)"
  proof
    assume "takeWhile is_ascii_digit rest \<noteq> [] \<and> zone_form (dropWhile is_ascii_digit rest)"
    then show "\<exists>ds zone. rest = ds @ zone \<and> ds \<noteq> [] \<and> list_all is_ascii_digit ds \<and> zone_form zone"
      by (intro exI[of _ "takeWhile is_ascii_digit rest"] exI[of _ "dropWhile is_ascii_digit rest"])
         (auto simp: list_all_iff dest: set_takeWhileD)
  next
    assume "\<exists>ds zone. rest = ds @ zone \<and> ds \<noteq> [] \<and> list_all is_ascii_digit ds \<and> zone_form zone"
    then obtain ds zone where rest: "rest = ds @ zone" "ds \<noteq> []" "list_all is_ascii_digit ds" and zone: "zone_form zone"
      by blast
    show "takeWhile is_ascii_digit rest \<noteq> [] \<and> zone_form (dropWhile is_ascii_digit rest)"
      unfolding rest(1) using rest(2,3) zone zone_form_while[OF zone]
      by (simp only: list_all_iff takeWhile_append2 dropWhile_append2 append_Nil2 simp_thms)
  qed
  also have "\<dots> \<longleftrightarrow> (\<exists>fraction zone. drop index bs = fraction @ zone \<and> fraction_form fraction \<and> zone_form zone)"
    using zone_form_hd[of "46 # rest"] by (auto simp: bs fraction_form_def Cons_eq_append_conv)
  finally show ?thesis .
next
  case False
  have "drop index bs \<noteq> 46 # xs" for xs :: bytes
  proof
    assume drop: "drop index bs = 46 # xs"
    then have "index < length bs" by (metis drop_all list.distinct(1) not_le)
    with drop have "bs ! index = 46" by (metis hd_drop_conv_nth list.sel(1))
    with False \<open>index < length bs\<close> show False by (simp add: byte_at_def)
  qed
  note none = this
  show ?thesis
    unfolding fraction_form_def rfc3339_fraction_def using False none by fastforce
qed

lemma split_19:
  assumes "19 \<le> length bs"
  shows "\<exists>c0 c1 c2 c3 c4 c5 c6 c7 c8 c9 c10 c11 c12 c13 c14 c15 c16 c17 c18.
    bs = [c0, c1, c2, c3, c4, c5, c6, c7, c8, c9, c10, c11, c12, c13, c14, c15, c16, c17, c18] @ drop 19 bs"
proof -
  define xs where "xs = take 19 bs"
  have "length xs = 19" using assms by (simp add: xs_def)
  then obtain c0 c1 c2 c3 c4 c5 c6 c7 c8 c9 c10 c11 c12 c13 c14 c15 c16 c17 c18
    where "xs = [c0, c1, c2, c3, c4, c5, c6, c7, c8, c9, c10, c11, c12, c13, c14, c15, c16, c17, c18]"
    by (auto simp: numeral_eq_Suc length_Suc_conv)
  then show ?thesis
    unfolding xs_def by (metis append_take_drop_id)
qed

text \<open>The fields before the fraction.\<close>

definition date_time_form :: "nat \<Rightarrow> nat \<Rightarrow> nat \<Rightarrow> nat \<Rightarrow> nat \<Rightarrow> nat \<Rightarrow> rstr" where
  "date_time_form year month day hour minute second =
     pad 4 year @ lit ''-'' @ pad 2 month @ lit ''-'' @ pad 2 day @ lit ''T'' @ pad 2 hour @ lit '':'' @ pad 2 minute
     @ lit '':'' @ pad 2 second"

lemma date_time_form_iff:
  assumes "year < 10000" "month < 100" "day < 100" "hour < 100" "minute < 100" "second < 100"
  shows "bs = date_time_form year month day hour minute second @ rest \<longleftrightarrow>
     19 \<le> length bs \<and> rest = drop 19 bs
     \<and> byte_at bs 4 45 \<and> byte_at bs 7 45 \<and> byte_at bs 10 84 \<and> byte_at bs 13 58 \<and> byte_at bs 16 58
     \<and> number bs 0 4 = Some year \<and> number bs 5 7 = Some month \<and> number bs 8 10 = Some day
     \<and> number bs 11 13 = Some hour \<and> number bs 14 16 = Some minute \<and> number bs 17 19 = Some second"
proof (cases "19 \<le> length bs")
  case True
  have len: "length (pad 4 year) = 4" "length (pad 2 month) = 2" "length (pad 2 day) = 2"
    "length (pad 2 hour) = 2" "length (pad 2 minute) = 2" "length (pad 2 second) = 2"
    using assms length_pad[of _ 4] length_pad[of _ 2] by simp_all
  obtain c0 c1 c2 c3 c4 c5 c6 c7 c8 c9 c10 c11 c12 c13 c14 c15 c16 c17 c18 tail
    where bs: "bs = [c0, c1, c2, c3, c4, c5, c6, c7, c8, c9, c10, c11, c12, c13, c14, c15, c16, c17, c18] @ tail"
    using split_19[OF True] by blast
  have "bs = date_time_form year month day hour minute second @ rest \<longleftrightarrow>
      [c0, c1, c2, c3] = pad 4 year \<and> c4 = 45 \<and> [c5, c6] = pad 2 month \<and> c7 = 45 \<and> [c8, c9] = pad 2 day
      \<and> c10 = 84 \<and> [c11, c12] = pad 2 hour \<and> c13 = 58 \<and> [c14, c15] = pad 2 minute \<and> c16 = 58
      \<and> [c17, c18] = pad 2 second \<and> tail = rest"
    using len by (auto simp: bs date_time_form_def lit_def of_char_def numeral_eq_Suc length_Suc_conv)
  then show ?thesis
    using assms by (auto simp: number_iff byte_at_def slice_def bs)
next
  case False
  have "length (pad 4 year) = 4" "length (pad 2 month) = 2" "length (pad 2 day) = 2"
    "length (pad 2 hour) = 2" "length (pad 2 minute) = 2" "length (pad 2 second) = 2"
    using assms length_pad[of _ 4] length_pad[of _ 2] by simp_all
  with False show ?thesis
    by (auto simp: date_time_form_def)
qed

text \<open>\<open>is_rfc3339_timestamp\<close> accepts exactly the written RFC 3339 timestamps: a four-digit year, a month,
  a day that the month has in that (Gregorian) year, a time of day, an optional fraction of at least one digit,
  and \<open>Z\<close> or an offset of at most 23:59.\<close>

theorem is_rfc3339_timestamp_iff:
  "is_rfc3339_timestamp s \<longleftrightarrow>
     (\<exists>year month day hour minute second fraction zone.
        s = date_time_form year month day hour minute second @ fraction @ zone
        \<and> year < 10000 \<and> month \<in> {1..12} \<and> day \<in> {1..days_in_month year month}
        \<and> hour \<le> 23 \<and> minute \<le> 59 \<and> second \<le> 59 \<and> fraction_form fraction \<and> zone_form zone)" (is "_ \<longleftrightarrow> ?rhs")
proof -
  have "is_rfc3339_timestamp s \<longleftrightarrow>
     20 \<le> length s \<and> byte_at s 4 45 \<and> byte_at s 7 45 \<and> byte_at s 10 84 \<and> byte_at s 13 58 \<and> byte_at s 16 58
     \<and> (\<exists>year month day hour minute second. number s 0 4 = Some year \<and> number s 5 7 = Some month
        \<and> number s 8 10 = Some day \<and> number s 11 13 = Some hour \<and> number s 14 16 = Some minute
        \<and> number s 17 19 = Some second
        \<and> month \<in> {1..12} \<and> day \<in> {1..days_in_month year month} \<and> hour \<le> 23 \<and> minute \<le> 59 \<and> second \<le> 59
        \<and> (\<exists>stop. rfc3339_fraction s 19 = Some stop \<and> zone_form (drop stop s)))"
    by (auto simp: is_rfc3339_timestamp_def max_day_iff max_day_None rfc3339_zone_iff split: option.splits)
  also have "\<dots> \<longleftrightarrow> ?rhs"
  proof -
    have less: "month < 100 \<and> day < 100 \<and> hour < 100 \<and> minute < 100 \<and> second < 100"
      if "month \<in> {1..12}" "day \<in> {1..days_in_month year month}" "hour \<le> 23" "minute \<le> 59" "second \<le> 59"
      for year month day hour minute second :: nat
      using that days_in_month_le[of month year] by auto
    show ?thesis (is "?lhs \<longleftrightarrow> _")
    proof
      assume ?lhs
      then obtain year month day hour minute second stop where
        parts: "20 \<le> length s" "byte_at s 4 45" "byte_at s 7 45" "byte_at s 10 84" "byte_at s 13 58" "byte_at s 16 58"
          "number s 0 4 = Some year" "number s 5 7 = Some month" "number s 8 10 = Some day"
          "number s 11 13 = Some hour" "number s 14 16 = Some minute" "number s 17 19 = Some second"
        and bounds: "month \<in> {1..12}" "day \<in> {1..days_in_month year month}" "hour \<le> 23" "minute \<le> 59" "second \<le> 59"
        and stop: "rfc3339_fraction s 19 = Some stop" "zone_form (drop stop s)"
        by blast
      obtain fraction zone where tail: "drop 19 s = fraction @ zone" "fraction_form fraction" "zone_form zone"
        using iffD1[OF rfc3339_fraction_iff[of 19 s]] stop parts(1) by auto
      have year: "year < 10000"
        using parts(7) by (simp add: number_iff)
      have "s = date_time_form year month day hour minute second @ fraction @ zone"
        using iffD2[OF date_time_form_iff[of year month day hour minute second s "fraction @ zone"]] parts year less[OF bounds] tail(1)
        by simp
      with year bounds tail show ?rhs by blast
    next
      assume ?rhs
      then obtain year month day hour minute second fraction zone where
        s: "s = date_time_form year month day hour minute second @ fraction @ zone" and year: "year < 10000"
        and bounds: "month \<in> {1..12}" "day \<in> {1..days_in_month year month}" "hour \<le> 23" "minute \<le> 59" "second \<le> 59"
        and tail: "fraction_form fraction" "zone_form zone"
        by blast
      have parts: "19 \<le> length s \<and> fraction @ zone = drop 19 s
        \<and> byte_at s 4 45 \<and> byte_at s 7 45 \<and> byte_at s 10 84 \<and> byte_at s 13 58 \<and> byte_at s 16 58
        \<and> number s 0 4 = Some year \<and> number s 5 7 = Some month \<and> number s 8 10 = Some day
        \<and> number s 11 13 = Some hour \<and> number s 14 16 = Some minute \<and> number s 17 19 = Some second"
        using date_time_form_iff[of year month day hour minute second s "fraction @ zone"] year less[OF bounds] s by blast
      have "zone \<noteq> []"
        using zone_form_hd[OF tail(2)] by auto
      then have "drop 19 s \<noteq> []"
        using parts by (metis append_is_Nil_conv)
      then have "20 \<le> length s" by simp
      moreover have "\<exists>stop. rfc3339_fraction s 19 = Some stop \<and> zone_form (drop stop s)"
        using iffD2[OF rfc3339_fraction_iff[of 19 s]] parts tail by metis
      ultimately show ?lhs
        using parts bounds by blast
    qed
  qed
  finally show ?thesis .
qed

text \<open>A title update survives the wire: an unchanged title leaves the field out and never reaches the
  \<open>unreachable!\<close> of its serializer.\<close>

lemma title_update_roundtrip: "\<exists>field. write_title_field u = Ok field \<and> read_title_field field = u"
  by (cases u) (simp_all add: write_title_field_def serialize_title_update_def read_title_field_def is_unchanged_def)

lemma payload_fields_roundtrip: "payload_of_fields found = Inr p \<longleftrightarrow> found = payload_fields p"
  by (cases p) (auto simp: payload_of_fields_def payload_fields_def split: prod.splits option.splits)

end
