(* ===== verification/ServerCodec.thy ===== *)
theory ServerCodec
  imports Rest
begin

text \<open>
  The server half of the codec in \<open>rust/src/protocol/ws/frame.rs\<close>. Encoding a read batch slices
  the shared buffer by each record's metadata and panics outside its range, so \<open>server_encode\<close>
  returns an \<open>outcome\<close>; a decoded batch keeps the whole frame as its buffer, so frames are compared
  by \<open>server_frame_eq\<close>, the code's \<open>PartialEq\<close>.
\<close>

section \<open>Encoding server frames\<close>

definition MAX_FIXED_FRAME_LEN :: nat where "MAX_FIXED_FRAME_LEN = 1 + 4 * 8"

text \<open>The \<open>StreamMetadata\<close> arms of \<open>encoded_len\<close> and \<open>encode_into\<close> are \<open>unreachable!()\<close>.\<close>

definition server_encoded_len :: "'i server_frame \<Rightarrow> (unit, nat) outcome" where
  "server_encoded_len f = (case f of
       ServerReadBatch batch \<Rightarrow>
         Ok (1 + length (batch_metas batch) * (RECORD_LENGTH_LEN + READ_RECORD_HEADER_LEN)
           + sum_list (map (\<lambda>r. unat (rm_data_len r)) (batch_metas batch)))
     | StreamMetadata _ \<Rightarrow> Panic
     | _ \<Rightarrow> Ok MAX_FIXED_FRAME_LEN)"

definition put_read_record :: "'b buf_mut \<Rightarrow> bytes \<Rightarrow> record_meta \<Rightarrow> 'b \<Rightarrow> (unit, 'b) outcome" where
  "put_read_record B payload r out =
     (let data_start = unat (rm_data_start r); data_len = unat (rm_data_len r);
          out = put_u32 B out (of_nat (READ_RECORD_HEADER_LEN + data_len));
          out = put_u64 B out (rm_seq_num r);
          out = put_u64 B out (rm_timestamp_ms r);
          out = put_slice B out (writer_id_bytes (rm_writer_id r));
          out = put_u64 B out (rm_writer_seq_num r);
          out = put_u32 B out (raw (rm_part r)) in
      if data_start + data_len \<le> length payload
      then Ok (put_slice B out (slice payload data_start (data_start + data_len)))
      else Panic)"

fun put_read_records :: "'b buf_mut \<Rightarrow> bytes \<Rightarrow> record_meta list \<Rightarrow> 'b \<Rightarrow> (unit, 'b) outcome" where
  "put_read_records B payload [] out = Ok out"
| "put_read_records B payload (r # rs) out =
     (case put_read_record B payload r out of
        Ok out \<Rightarrow> put_read_records B payload rs out
      | other \<Rightarrow> other)"

definition server_encode_into :: "'b buf_mut \<Rightarrow> 'i server_frame \<Rightarrow> 'b \<Rightarrow> (unit, 'b) outcome" where
  "server_encode_into B f out = (case f of
       Ready kind \<Rightarrow> Ok (put_u8 B (put_u8 B out (server_op_byte OpReady)) (stream_kind_byte kind))
     | AppendAck writer_start writer_end start stop \<Rightarrow>
         let out = put_u8 B out (server_op_byte OpAppendAck);
             out = put_u64 B out writer_start;
             out = put_u64 B out writer_end;
             out = put_u64 B out start in
         Ok (put_u64 B out stop)
     | ServerReadBatch batch \<Rightarrow>
         put_read_records B (batch_payload batch) (batch_metas batch)
           (put_u8 B out (server_op_byte OpReadBatch))
     | Heartbeat \<Rightarrow> Ok (put_u8 B out (server_op_byte OpHeartbeat))
     | CaughtUp pos \<Rightarrow>
         let out = put_u8 B out (server_op_byte OpCaughtUp);
             out = put_u64 B out (cu_next_seq_num pos) in
         Ok (put_u64 B out (cu_last_timestamp_ms pos))
     | StreamMetadata _ \<Rightarrow> Panic)"

definition server_encode :: "'b buf_mut \<Rightarrow> ('i stream_metadata \<Rightarrow> 'j + bytes) \<Rightarrow> 'i server_frame
    \<Rightarrow> ('j frame_codec_error, bytes) outcome" where
  "server_encode B to_json f = (case f of
       StreamMetadata stream \<Rightarrow>
         let out = put_u8 B (with_capacity B 0) (server_op_byte OpStreamMetadata) in
         (case to_json stream of
            Inl e \<Rightarrow> Err (InvalidStreamMetadata e)
          | Inr json \<Rightarrow> Ok (freeze B (put_slice B out json)))
     | _ \<Rightarrow>
         (case server_encoded_len f of
            Ok n \<Rightarrow>
              (case server_encode_into B f (with_capacity B n) of
                 Ok out \<Rightarrow> Ok (freeze B out)
               | _ \<Rightarrow> Panic)
          | _ \<Rightarrow> Panic))"

section \<open>Decoding server frames\<close>

definition read_body :: "u8 \<Rightarrow> bytes \<Rightarrow> record_meta list \<times> nat \<Rightarrow> nat \<times> nat
    \<Rightarrow> 'j frame_codec_error + record_meta list \<times> nat" where
  "read_body op input acc bounds =
     (case acc of (records, payload_bytes) \<Rightarrow> case bounds of (start, stop) \<Rightarrow>
      and_then (fd_u64 (frame_decoder_new op (slice input start stop))) (\<lambda>(seq_num, d).
      and_then (fd_u64 d) (\<lambda>(timestamp_ms, d).
      and_then (fd_take WRITER_ID_BYTE_LEN d) (\<lambda>(writer_id, d).
      and_then (fd_u64 d) (\<lambda>(writer_seq_num, d).
      and_then (fd_u32 d) (\<lambda>(part_raw, d).
      let data = remaining d in
      and_then (validate_record_len (length data)) (\<lambda>_.
      let payload_bytes = payload_bytes + length data in
      Inr (records @ [\<lparr>rm_seq_num = seq_num, rm_timestamp_ms = timestamp_ms,
             rm_writer_id = WriterId writer_id, rm_writer_seq_num = writer_seq_num,
             rm_part = PartHeader part_raw, rm_data_start = of_nat (stop - length data),
             rm_data_len = of_nat (length data)\<rparr>], payload_bytes))))))))"

definition decode_read_batch :: "u8 \<Rightarrow> bytes \<Rightarrow> 'j frame_codec_error + 'i server_frame" where
  "decode_read_batch op input =
     and_then (for_ranges (read_body op input) (record_body_ranges input MAX_READ_FRAME_RECORDS) ([], 0))
       (\<lambda>(records, payload_bytes).
     and_then (validate_batch (length records) payload_bytes MAX_READ_FRAME_RECORDS) (\<lambda>_.
     and_then (validate_sequence_contiguous (map rm_seq_num records)) (\<lambda>_.
     Inr (ServerReadBatch (from_parts input records)))))"

definition decode_server_frame :: "(bytes \<Rightarrow> 'j + 'i stream_metadata) \<Rightarrow> bytes
    \<Rightarrow> 'j frame_codec_error + 'i server_frame" where
  "decode_server_frame from_json input = (case input of
       [] \<Rightarrow> Inl EmptyFrame
     | op_byte # body \<Rightarrow>
         and_then (server_op_try_from op_byte) (\<lambda>op.
         let d = frame_decoder_new op_byte body in
         case op of
             OpReady \<Rightarrow>
               and_then (fd_byte d) (\<lambda>(kind, d). and_then (fd_finish d) (\<lambda>_.
               and_then (stream_kind_from_byte kind) (\<lambda>k. Inr (Ready k))))
           | OpAppendAck \<Rightarrow>
               and_then (fd_u64 d) (\<lambda>(writer_start, d). and_then (fd_u64 d) (\<lambda>(writer_end, d).
               and_then (fd_u64 d) (\<lambda>(start, d). and_then (fd_u64 d) (\<lambda>(stop, d).
               and_then (fd_finish d) (\<lambda>_. Inr (AppendAck writer_start writer_end start stop))))))
           | OpReadBatch \<Rightarrow> decode_read_batch op_byte input
           | OpHeartbeat \<Rightarrow> and_then (fd_finish d) (\<lambda>_. Inr Heartbeat)
           | OpCaughtUp \<Rightarrow>
               and_then (fd_u64 d) (\<lambda>(next_seq, d). and_then (fd_u64 d) (\<lambda>(timestamp, d).
               and_then (fd_finish d) (\<lambda>_.
               Inr (CaughtUp \<lparr>cu_next_seq_num = next_seq, cu_last_timestamp_ms = timestamp\<rparr>))))
           | OpStreamMetadata \<Rightarrow>
               map_err InvalidStreamMetadata (and_then (from_json body) (\<lambda>m. Inr (StreamMetadata m)))))"

section \<open>The bytes of a server frame\<close>

definition read_record_header :: "read_record \<Rightarrow> bytes" where
  "read_record_header r = be64 (rr_seq_num r) @ be64 (rr_timestamp_ms r)
     @ writer_id_bytes (rr_writer_id r) @ be64 (rr_writer_seq_num r) @ be32 (raw (rr_part r))"

definition read_record_bytes :: "read_record \<Rightarrow> bytes" where
  "read_record_bytes r = be32 (of_nat (READ_RECORD_HEADER_LEN + length (rr_data r)))
     @ read_record_header r @ rr_data r"

definition read_batch_bytes :: "read_record list \<Rightarrow> bytes" where
  "read_batch_bytes rs = server_op_byte OpReadBatch # concat (map read_record_bytes rs)"

text \<open>\<open>ServerFrame\<close> derives \<open>PartialEq\<close>, which compares batches with their own \<open>eq\<close>.\<close>

fun server_frame_eq :: "'i server_frame \<Rightarrow> 'i server_frame \<Rightarrow> bool" where
  "server_frame_eq (ServerReadBatch a) (ServerReadBatch b) = batch_eq a b"
| "server_frame_eq f g = (f = g)"

text \<open>Values of the frame's types: writer identities are 16 bytes and batches come from their
  checked constructors.\<close>

definition typed_server_frame :: "'i server_frame \<Rightarrow> bool" where
  "typed_server_frame f = (case f of
       ServerReadBatch b \<Rightarrow> wf_read_batch b \<and> (\<forall>rm \<in> set (batch_metas b). valid_writer_id (rm_writer_id rm))
     | _ \<Rightarrow> True)"

section \<open>Encoding a batch\<close>

lemma length_meta_data [simp]:
  "meta_in_bounds payload rm \<Longrightarrow> length (meta_data payload rm) = unat (rm_data_len rm)"
  by (simp add: meta_in_bounds_def meta_data_def)

lemma meta_data_slice:
  "meta_data payload rm = slice payload (unat (rm_data_start rm)) (unat (rm_data_start rm) + unat (rm_data_len rm))"
  by (simp add: meta_data_def slice_def)

lemma freeze_put_read_records:
  assumes "buf_mut_appends B" "\<forall>rm \<in> set ms. meta_in_bounds payload rm"
  shows "\<exists>out'. put_read_records B payload ms out = Ok out'
    \<and> freeze B out' = freeze B out @ concat (map (read_record_bytes \<circ> meta_record payload) ms)"
  using assms(2)
proof (induction ms arbitrary: out)
  case Nil
  then show ?case by simp
next
  case (Cons rm ms)
  then obtain out1 where out1: "put_read_record B payload rm out = Ok out1"
    "freeze B out1 = freeze B out @ read_record_bytes (meta_record payload rm)"
    by (auto simp: put_read_record_def Let_def meta_in_bounds_def read_record_bytes_def read_record_header_def
        buf_mut_appendsD [OF assms(1)] meta_record_def meta_data_slice)
  with Cons.IH [of out1] Cons.prems show ?case by auto
qed

lemma put_read_records_panic:
  "rm \<in> set ms \<Longrightarrow> \<not> meta_in_bounds payload rm \<Longrightarrow> put_read_records B payload ms out = Panic"
proof (induction ms arbitrary: out)
  case (Cons m ms)
  then show ?case
    by (cases "put_read_record B payload m out")
      (auto simp: put_read_record_def Let_def meta_in_bounds_def split: if_splits)
qed simp

definition server_frame_bytes :: "'i server_frame \<Rightarrow> bytes" where
  "server_frame_bytes f = (case f of
       Ready k \<Rightarrow> [0x80, stream_kind_byte k]
     | AppendAck a b c d \<Rightarrow> 0x81 # be64 a @ be64 b @ be64 c @ be64 d
     | ServerReadBatch b \<Rightarrow> read_batch_bytes (batch_records b)
     | Heartbeat \<Rightarrow> [0x83]
     | CaughtUp p \<Rightarrow> 0x84 # be64 (cu_next_seq_num p) @ be64 (cu_last_timestamp_ms p)
     | StreamMetadata _ \<Rightarrow> [])"

lemma server_encode_Ok:
  assumes "buf_mut_appends B" "typed_server_frame f" "\<nexists>m. f = StreamMetadata m"
  shows "server_encode B to_json f = Ok (server_frame_bytes f)"
proof (cases "\<exists>b. f = ServerReadBatch b")
  case True
  then obtain b where f: "f = ServerReadBatch b" ..
  with assms(2) have "\<forall>rm \<in> set (batch_metas b). meta_in_bounds (batch_payload b) rm"
    by (simp add: typed_server_frame_def wf_read_batch_def)
  from freeze_put_read_records [OF assms(1) this] obtain put
    where put: "\<And>out. put_read_records B (batch_payload b) (batch_metas b) out = Ok (put out)
      \<and> freeze B (put out) = freeze B out
        @ concat (map (read_record_bytes \<circ> meta_record (batch_payload b)) (batch_metas b))"
    by metis
  show ?thesis
    unfolding f server_encode_def server_encoded_len_def server_encode_into_def server_frame_bytes_def
    by (simp add: put buf_mut_appendsD [OF assms(1)] read_batch_bytes_def batch_records_def)
next
  case False
  with assms(3) show ?thesis
    by (cases f) (simp_all add: server_encode_def server_encoded_len_def server_encode_into_def
        server_frame_bytes_def Let_def buf_mut_appendsD [OF assms(1)])
qed

section \<open>Decoding a batch\<close>

lemma length_read_record_header:
  "valid_writer_id (rr_writer_id r) \<Longrightarrow> length (read_record_header r) = 44"
  by (simp add: read_record_header_def valid_writer_id_def WRITER_ID_BYTE_LEN_def)

text \<open>What one body says: the metadata of a record whose bytes are that part of the input.\<close>

definition read_meta :: "bytes \<Rightarrow> nat \<Rightarrow> nat \<Rightarrow> record_meta \<Rightarrow> bool" where
  "read_meta input start stop rm \<longleftrightarrow>
     slice input start stop = read_record_header (meta_record input rm) @ meta_data input rm
     \<and> valid_writer_id (rm_writer_id rm) \<and> unat (rm_data_len rm) \<le> MAX_RECORD_PAYLOAD_BYTES
     \<and> unat (rm_data_start rm) + unat (rm_data_len rm) = stop"

lemma read_body_Inr:
  assumes "stop \<le> length input" "start + 44 + MAX_RECORD_PAYLOAD_BYTES < 2 ^ 32"
  shows "read_body op input (rs, n) (start, stop) = Inr out \<longleftrightarrow>
     (\<exists>rm. read_meta input start stop rm \<and> out = (rs @ [rm], n + unat (rm_data_len rm)))" (is "?L \<longleftrightarrow> ?R")
proof
  assume ?L
  then obtain seq d1 ts d2 w d3 ws d4 part d5 where *:
    "fd_u64 (decoder_at op (slice input start stop)) = (Inr (seq, d1) :: 'a frame_codec_error + _)"
    "fd_u64 d1 = (Inr (ts, d2) :: 'a frame_codec_error + _)"
    "fd_take WRITER_ID_BYTE_LEN d2 = (Inr (w, d3) :: 'a frame_codec_error + _)"
    "fd_u64 d3 = (Inr (ws, d4) :: 'a frame_codec_error + _)"
    "fd_u32 d4 = (Inr (part, d5) :: 'a frame_codec_error + _)"
    "length (remaining d5) \<le> MAX_RECORD_PAYLOAD_BYTES"
    "out = (rs @ [\<lparr>rm_seq_num = seq, rm_timestamp_ms = ts, rm_writer_id = WriterId w,
       rm_writer_seq_num = ws, rm_part = PartHeader part,
       rm_data_start = of_nat (stop - length (remaining d5)),
       rm_data_len = of_nat (length (remaining d5))\<rparr>], n + length (remaining d5))"
    by (auto simp: read_body_def and_then_eq_Inr Let_def split: prod.splits)
  let ?hd = "be64 seq @ be64 ts @ w @ be64 ws @ be32 part" and ?data = "remaining d5"
  let ?rm = "\<lparr>rm_seq_num = seq, rm_timestamp_ms = ts, rm_writer_id = WriterId w,
       rm_writer_seq_num = ws, rm_part = PartHeader part, rm_data_start = of_nat (stop - length ?data),
       rm_data_len = of_nat (length ?data)\<rparr>"
  have sl: "slice input start stop = ?hd @ ?data" and w: "length w = 16"
    using * by (simp_all add: fd_Inr WRITER_ID_BYTE_LEN_def)
  have "length (slice input start stop) = 44 + length ?data" unfolding sl using w by simp
  then have stop: "stop = start + 44 + length ?data" using assms(1) by simp
  then have "stop < 2 ^ 32" using *(6) assms(2) by simp
  then have n: "unat (of_nat (stop - length ?data) :: u32) = stop - length ?data"
    "unat (of_nat (length ?data) :: u32) = length ?data"
    using stop by (intro unat_of_nat_u32, simp)+
  have data: "meta_data input ?rm = ?data"
    using slice_suffix [OF sl assms(1)] n stop by (simp add: meta_data_def slice_def)
  have "read_meta input start stop ?rm"
    using sl data n stop w *(6)
    by (simp add: read_meta_def read_record_header_def meta_record_def valid_writer_id_def WRITER_ID_BYTE_LEN_def)
  with *(7) n show ?R by (intro exI [of _ ?rm]) simp
next
  assume ?R
  then obtain rm where rm: "read_meta input start stop rm" "out = (rs @ [rm], n + unat (rm_data_len rm))"
    by blast
  then have "unat (rm_data_start rm) + unat (rm_data_len rm) \<le> length input"
    using assms(1) by (simp add: read_meta_def)
  then have len: "length (meta_data input rm) = unat (rm_data_len rm)"
    by (simp add: meta_data_def)
  have "stop - unat (rm_data_len rm) = unat (rm_data_start rm)"
    using rm(1) by (auto simp: read_meta_def)
  then have "(of_nat (stop - length (meta_data input rm)) :: u32) = rm_data_start rm"
    "(of_nat (length (meta_data input rm)) :: u32) = rm_data_len rm"
    unfolding len by simp_all
  with rm len show ?L
    by (cases rm; cases "rm_writer_id rm")
      (simp add: read_body_def read_meta_def read_record_header_def meta_record_def valid_writer_id_def
        validate_record_len_def Let_def)
qed

definition valid_read_record :: "read_record \<Rightarrow> bool" where
  "valid_read_record r \<longleftrightarrow> valid_writer_id (rr_writer_id r) \<and> length (rr_data r) \<le> MAX_RECORD_PAYLOAD_BYTES"

lemma read_record_len_word:
  assumes "length (rr_data r) \<le> MAX_RECORD_PAYLOAD_BYTES"
  shows "unat (of_nat (READ_RECORD_HEADER_LEN + length (rr_data r)) :: u32) = 44 + length (rr_data r)"
proof -
  have "44 + length (rr_data r) < 2 ^ 32" using assms by (simp add: const_defs)
  then have "unat (of_nat (44 + length (rr_data r)) :: u32) = 44 + length (rr_data r)"
    by (rule unat_of_nat_u32)
  then show ?thesis by (simp add: READ_RECORD_HEADER_LEN_def WRITER_ID_BYTE_LEN_def)
qed

lemma length_read_record_bytes:
  "valid_read_record r \<Longrightarrow> length (read_record_bytes r) = 48 + length (rr_data r)"
  by (simp add: read_record_bytes_def valid_read_record_def length_read_record_header)

lemma read_meta_of_record:
  assumes "drop start input = read_record_header x @ rr_data x @ rest" "valid_read_record x"
    and "length input < 2 ^ 32" "start \<le> length input"
  shows "\<exists>rm. read_meta input start (start + 44 + length (rr_data x)) rm
    \<and> meta_record input rm = x \<and> meta_in_bounds input rm"
proof -
  let ?rm = "\<lparr>rm_seq_num = rr_seq_num x, rm_timestamp_ms = rr_timestamp_ms x,
       rm_writer_id = rr_writer_id x, rm_writer_seq_num = rr_writer_seq_num x,
       rm_part = rr_part x, rm_data_start = of_nat (start + 44),
       rm_data_len = of_nat (length (rr_data x))\<rparr>"
  have hl: "length (read_record_header x) = 44"
    using assms(2) by (simp add: valid_read_record_def length_read_record_header)
  have "length (drop start input) = 44 + length (rr_data x) + length rest"
    unfolding assms(1) using hl by simp
  then have le: "start + 44 + length (rr_data x) \<le> length input" by simp
  then have n: "unat (of_nat (start + 44) :: u32) = start + 44"
    "unat (of_nat (length (rr_data x)) :: u32) = length (rr_data x)"
    using assms(3) by (intro unat_of_nat_u32, simp)+
  have "drop (start + 44) input = rr_data x @ rest"
    using arg_cong [OF assms(1), of "drop 44"] hl by (simp add: add.commute)
  then have data: "meta_data input ?rm = rr_data x"
    using n by (simp add: meta_data_def)
  then have rec: "meta_record input ?rm = x" by (simp add: meta_record_def)
  have "slice input start (start + 44 + length (rr_data x)) = read_record_header x @ rr_data x"
    using assms(1) hl by (simp add: slice_def)
  then have "read_meta input start (start + 44 + length (rr_data x)) ?rm"
    using rec data assms(2) n by (simp add: read_meta_def valid_read_record_def)
  moreover have "meta_in_bounds input ?rm" using n le by (simp add: meta_in_bounds_def)
  ultimately show ?thesis using rec by blast
qed

lemma decode_read_records:
  assumes "drop (br_offset r) (br_input r) = concat (map read_record_bytes rs)"
    and "br_count r + length rs \<le> br_maximum r" "\<forall>x \<in> set rs. valid_read_record x"
    and "length (br_input r) + 48 + MAX_RECORD_PAYLOAD_BYTES < 2 ^ 32" "br_offset r \<le> length (br_input r)"
  shows "\<exists>ms. for_ranges (read_body op (br_input r)) r (acc, n)
      = (Inr (acc @ ms, n + sum_list (map (length \<circ> rr_data) rs)) :: 'a frame_codec_error + _)
    \<and> map (meta_record (br_input r)) ms = rs \<and> (\<forall>rm \<in> set ms. meta_in_bounds (br_input r) rm)"
  using assms
proof (induction rs arbitrary: r acc n)
  case Nil
  then have "br_next r = (None :: ('a frame_codec_error + nat \<times> nat) option, r)" by (simp add: br_next_None)
  then show ?case by (simp add: for_ranges.simps [of _ r])
next
  case (Cons x rs)
  let ?w = "of_nat (READ_RECORD_HEADER_LEN + length (rr_data x)) :: u32"
  let ?start = "br_offset r + 4"
  let ?stop = "?start + 44 + length (rr_data x)"
  let ?r = "r\<lparr>br_offset := ?stop, br_count := br_count r + 1\<rparr>"
  let ?rest = "concat (map read_record_bytes rs)"
  have x: "valid_read_record x" using Cons.prems(3) by simp
  then have w: "unat ?w = 44 + length (rr_data x)"
    by (intro read_record_len_word) (simp add: valid_read_record_def)
  have hl: "length (read_record_header x) = 44"
    using x by (simp add: valid_read_record_def length_read_record_header)
  have d: "drop (br_offset r) (br_input r) = be32 ?w @ read_record_header x @ rr_data x @ ?rest"
    using Cons.prems(1) by (simp add: read_record_bytes_def [of x])
  have "length (drop (br_offset r) (br_input r)) = 48 + length (rr_data x) + length ?rest"
    unfolding d using hl by simp
  then have len: "?stop \<le> length (br_input r)" by simp
  have next_r: "br_next r = (Some (Inr (?start, ?stop)) :: ('a frame_codec_error + nat \<times> nat) option, ?r)"
    unfolding br_next_Inr using d w hl len Cons.prems(2,4)
    by (intro exI [of _ ?w] exI [of _ "read_record_header x @ rr_data x @ ?rest"]) (simp add: usize_max_def)
  have d4: "drop ?start (br_input r) = read_record_header x @ rr_data x @ ?rest"
    using arg_cong [OF d, of "drop 4"] by (simp add: add.commute)
  obtain rm where rm: "read_meta (br_input r) ?start ?stop rm" "meta_record (br_input r) rm = x"
    "meta_in_bounds (br_input r) rm"
    using read_meta_of_record [OF d4 x] Cons.prems(4) len by auto
  have "unat (rm_data_len rm) = length (rr_data x)"
    using rm by (metis length_meta_data meta_record_def read_record.select_convs(6))
  then have body: "read_body op (br_input r) (acc, n) (?start, ?stop)
      = (Inr (acc @ [rm], n + length (rr_data x)) :: 'a frame_codec_error + _)"
    using rm(1) Cons.prems(4) len by (subst read_body_Inr [OF len]) auto
  have rest: "drop ?stop (br_input r) = ?rest"
    using arg_cong [OF d4, of "drop (44 + length (rr_data x))"] hl by (simp add: add.commute add.left_commute)
  have "\<exists>ms. for_ranges (read_body op (br_input ?r)) ?r (acc @ [rm], n + length (rr_data x))
      = (Inr ((acc @ [rm]) @ ms, n + length (rr_data x) + sum_list (map (length \<circ> rr_data) rs))
          :: 'a frame_codec_error + _)
    \<and> map (meta_record (br_input ?r)) ms = rs \<and> (\<forall>rm \<in> set ms. meta_in_bounds (br_input ?r) rm)"
    by (rule Cons.IH) (use rest Cons.prems len in auto)
  then obtain ms where "for_ranges (read_body op (br_input r)) ?r (acc @ [rm], n + length (rr_data x))
      = (Inr (acc @ rm # ms, n + length (rr_data x) + sum_list (map (length \<circ> rr_data) rs))
          :: 'a frame_codec_error + _)"
    "map (meta_record (br_input r)) ms = rs" "\<forall>rm \<in> set ms. meta_in_bounds (br_input r) rm"
    by auto
  with next_r body rm show ?case
    by (intro exI [of _ "rm # ms"]) (simp add: for_ranges.simps [of _ r] add.assoc o_def)
qed

text \<open>The decoder's scan: what it has read so far is the encoding of the records it holds.\<close>

definition read_scan :: "bytes \<Rightarrow> body_ranges \<Rightarrow> record_meta list \<times> nat \<Rightarrow> bool" where
  "read_scan input r acc \<longleftrightarrow> br_input r = input \<and> br_count r = length (fst acc)
     \<and> br_maximum r = MAX_READ_FRAME_RECORDS \<and> br_count r \<le> br_maximum r
     \<and> br_offset r \<le> 1 + br_count r * (48 + MAX_RECORD_PAYLOAD_BYTES)
     \<and> take (br_offset r) input = take 1 input @ concat (map (read_record_bytes \<circ> meta_record input) (fst acc))
     \<and> (\<forall>rm \<in> set (fst acc). meta_in_bounds input rm \<and> valid_writer_id (rm_writer_id rm)
          \<and> unat (rm_data_len rm) \<le> MAX_RECORD_PAYLOAD_BYTES)
     \<and> snd acc = sum_list (map (unat \<circ> rm_data_len) (fst acc))"

lemma read_scan_step:
  assumes "read_scan input r acc"
    and "br_next r = (Some (Inr (a, b) :: 'j frame_codec_error + nat \<times> nat), r')"
    and "read_body op input acc (a, b) = (Inr acc' :: 'j frame_codec_error + _)"
  shows "read_scan input r' acc'"
proof -
  obtain rs n where acc: "acc = (rs, n)" by force
  obtain w rest where w: "drop (br_offset r) input = be32 w @ rest" "unat w \<le> length rest"
    "a = br_offset r + 4" "b = a + unat w" "r' = r\<lparr>br_offset := b, br_count := br_count r + 1\<rparr>"
    "br_count r \<noteq> br_maximum r"
    using assms(1,2) unfolding br_next_Inr by (auto simp: read_scan_def)
  have dl: "length (drop (br_offset r) input) = 4 + length rest" unfolding w(1) by simp
  then have b: "b \<le> length input" "br_offset r \<le> length input"
    unfolding w(4) w(3) using w(2) by simp_all
  have "br_count r \<le> 999" using assms(1) w(6) by (simp add: read_scan_def const_defs)
  then have "br_offset r \<le> 1 + 999 * (48 + MAX_RECORD_PAYLOAD_BYTES)"
    using assms(1) unfolding read_scan_def by (meson add_le_mono le_trans mult_le_mono1 order_refl)
  then have small: "a + 44 + MAX_RECORD_PAYLOAD_BYTES < 2 ^ 32" by (simp add: w(3) const_defs)
  from assms(3) [unfolded acc read_body_Inr [OF b(1) small]] obtain rm
    where rm: "read_meta input a b rm" "acc' = (rs @ [rm], n + unat (rm_data_len rm))"
    by auto
  have inb: "meta_in_bounds input rm" using rm(1) b by (simp add: read_meta_def meta_in_bounds_def)
  let ?x = "meta_record input rm"
  have data: "rr_data ?x = meta_data input rm" "length (rr_data ?x) = unat (rm_data_len rm)"
    using inb by (simp_all add: meta_record_def)
  have hl: "length (read_record_header ?x) = 44"
    using rm(1) by (intro length_read_record_header) (simp add: meta_record_def read_meta_def)
  have sl: "slice input a b = read_record_header ?x @ rr_data ?x"
    using rm(1) by (simp add: read_meta_def data)
  have "length (slice input a b) = 44 + unat (rm_data_len rm)" unfolding sl using hl data by simp
  then have uw: "unat w = 44 + unat (rm_data_len rm)" using b(1) by (simp add: w(4))
  then have "unat w = READ_RECORD_HEADER_LEN + length (rr_data ?x)"
    unfolding data(2) by (simp add: READ_RECORD_HEADER_LEN_def WRITER_ID_BYTE_LEN_def)
  then have "of_nat (READ_RECORD_HEADER_LEN + length (rr_data ?x)) = (of_nat (unat w) :: u32)" by simp
  then have ow: "of_nat (READ_RECORD_HEADER_LEN + length (rr_data ?x)) = w" by simp
  have "drop a input = rest" using arg_cong [OF w(1), of "drop 4"] by (simp add: w(3) add.commute)
  then have "slice input (br_offset r) b = be32 w @ slice input a b"
    using w(1,3,4) by (simp add: slice_def)
  then have "slice input (br_offset r) b = read_record_bytes ?x"
    by (simp only: sl read_record_bytes_def ow)
  moreover have "take b input = take (br_offset r) input @ slice input (br_offset r) b"
    using w(3,4) by (simp add: slice_def add.assoc flip: take_add)
  ultimately have "take b input = take (br_offset r) input @ read_record_bytes ?x" by simp
  moreover have "b \<le> 1 + (br_count r + 1) * (48 + MAX_RECORD_PAYLOAD_BYTES)"
  proof -
    have "br_offset r \<le> 1 + br_count r * (48 + MAX_RECORD_PAYLOAD_BYTES)"
      using assms(1) unfolding read_scan_def by blast
    moreover have "unat (rm_data_len rm) \<le> MAX_RECORD_PAYLOAD_BYTES"
      using rm(1) by (simp add: read_meta_def)
    ultimately show ?thesis unfolding w(3,4) uw add_mult_distrib nat_mult_1 by linarith
  qed
  ultimately show ?thesis
    using assms(1) rm inb w(5,6) \<open>br_count r \<le> 999\<close>
    by (simp add: read_scan_def acc read_meta_def MAX_READ_FRAME_RECORDS_def)
qed

lemma read_batch_length:
  assumes "bounded_records rs" "\<forall>r \<in> set rs. valid_writer_id (rr_writer_id r)"
  shows "length (read_batch_bytes rs) \<le> MAX_ENCODED_FRAME_BYTES"
proof -
  have "\<forall>r \<in> set rs. valid_read_record r"
    using assms by (simp add: bounded_records_def valid_read_record_def)
  then have "length (read_batch_bytes rs) = 1 + length rs * 48 + sum_list (map (length \<circ> rr_data) rs)"
    unfolding read_batch_bytes_def by (induction rs) (simp_all add: length_read_record_bytes)
  with assms(1) show ?thesis by (simp add: bounded_records_def const_defs)
qed

lemma decode_read_batch_bytes:
  assumes "bounded_records rs" "\<forall>r \<in> set rs. valid_writer_id (rr_writer_id r)"
  shows "\<exists>b. decode_read_batch op (read_batch_bytes rs)
      = (Inr (ServerReadBatch b) :: 'a frame_codec_error + 'i server_frame)
    \<and> batch_records b = rs \<and> typed_server_frame (ServerReadBatch b :: 'i server_frame)"
proof -
  let ?in = "read_batch_bytes rs"
  let ?r = "record_body_ranges ?in MAX_READ_FRAME_RECORDS"
  have "\<exists>ms. for_ranges (read_body op (br_input ?r)) ?r ([], 0)
      = (Inr ([] @ ms, 0 + sum_list (map (length \<circ> rr_data) rs)) :: 'a frame_codec_error + _)
    \<and> map (meta_record (br_input ?r)) ms = rs \<and> (\<forall>rm \<in> set ms. meta_in_bounds (br_input ?r) rm)"
    by (rule decode_read_records)
      (use assms read_batch_length [OF assms] in
        \<open>simp_all add: record_body_ranges_def read_batch_bytes_def bounded_records_def valid_read_record_def const_defs\<close>)
  then obtain ms where ms: "for_ranges (read_body op ?in) ?r ([], 0)
      = (Inr (ms, sum_list (map (length \<circ> rr_data) rs)) :: 'a frame_codec_error + _)"
    "map (meta_record ?in) ms = rs" "\<forall>rm \<in> set ms. meta_in_bounds ?in rm"
    by (auto simp: record_body_ranges_def)
  let ?b = "from_parts ?in ms"
  have rs: "batch_records ?b = rs" using ms(2) by (simp add: batch_records_def from_parts_def)
  have wf: "wf_read_batch ?b" using assms(1) ms(3) rs by (subst wf_batch_of_records) (simp_all add: from_parts_def)
  have "\<forall>rm \<in> set ms. valid_writer_id (rm_writer_id rm)"
  proof
    fix rm assume "rm \<in> set ms"
    then have "meta_record ?in rm \<in> set rs" using ms(2) by (metis imageI list.set_map)
    with assms(2) show "valid_writer_id (rm_writer_id rm)" by (force simp: meta_record_def)
  qed
  moreover have "map rm_seq_num ms = map rr_seq_num rs" "length ms = length rs"
    using rs batch_records_simps [of ?b] by (simp_all add: from_parts_def record_count_def)
  moreover have v: "validate_sequence_contiguous (map rr_seq_num rs) = (Inr () :: 'a frame_codec_error + unit)"
    using assms(1) by (simp add: bounded_records_def)
  ultimately show ?thesis
    using ms(1) rs wf assms(1)
    by (intro exI [of _ ?b])
      (auto simp: decode_read_batch_def typed_server_frame_def from_parts_def bounded_records_def
        validate_batch_def validate_batch_count_def not_less v)
qed

lemma decode_read_batch_Inr:
  assumes "decode_read_batch op (op # body) = (Inr f :: 'a frame_codec_error + 'i server_frame)"
  shows "\<exists>b. f = ServerReadBatch b \<and> typed_server_frame f
    \<and> op # body = op # concat (map read_record_bytes (batch_records b))"
proof -
  let ?in = "op # body"
  let ?r = "record_body_ranges ?in MAX_READ_FRAME_RECORDS"
  obtain ms n where ms: "for_ranges (read_body op ?in) ?r ([], 0) = (Inr (ms, n) :: 'a frame_codec_error + _)"
    "f = ServerReadBatch (from_parts ?in ms)" "0 < length ms" "length ms \<le> MAX_READ_FRAME_RECORDS"
    "n \<le> MAX_FRAME_PAYLOAD_BYTES" "contiguous (map rm_seq_num ms)"
    using assms by (auto simp: decode_read_batch_def and_then_eq_Inr)
  have "read_scan ?in ?r ([], 0)"
    by (simp add: read_scan_def record_body_ranges_def)
  then have "\<exists>r'. read_scan ?in r' (ms, n) \<and> length (br_input r') \<le> br_offset r'"
    by (rule for_ranges_invariant [OF ms(1)]) (rule read_scan_step)
  then obtain r' where r': "read_scan ?in r' (ms, n)" "length (br_input r') \<le> br_offset r'" by blast
  have "?in = take (br_offset r') ?in" using r' by (simp add: read_scan_def)
  also have "\<dots> = op # concat (map (read_record_bytes \<circ> meta_record ?in) ms)"
    using r' by (simp add: read_scan_def)
  finally have "?in = op # concat (map read_record_bytes (batch_records (from_parts ?in ms)))"
    by (simp add: batch_records_def from_parts_def o_def)
  moreover have "typed_server_frame f"
    using r' ms by (simp add: typed_server_frame_def wf_read_batch_def read_scan_def from_parts_def record_count_def)
  ultimately show ?thesis using ms(2) by blast
qed

lemma server_body_reads [simp]:
  "fd_u64 (decoder_at op (be64 a @ be64 b @ ys)) = Inr (a, decoder_at op (be64 b @ ys))"
  by simp

text \<open>Which frame an input decodes to, by its first byte.\<close>

lemma decode_server_frame_nonbatch:
  assumes "\<nexists>b. f = ServerReadBatch b" "\<nexists>m. f = StreamMetadata m"
  shows "decode_server_frame from_json bs = (Inr f :: 'j frame_codec_error + 'i server_frame)
    \<longleftrightarrow> bs = server_frame_bytes f"
proof
  assume d: "decode_server_frame from_json bs = (Inr f :: 'j frame_codec_error + 'i server_frame)"
  obtain op body where bs: "bs = op # body" using d by (cases bs) (auto simp: decode_server_frame_def)
  obtain sop where "server_op_try_from op = (Inr sop :: 'j frame_codec_error + server_op)"
    using d by (auto simp: bs decode_server_frame_def and_then_eq_Inr)
  then have op: "op = server_op_byte sop" by (simp add: server_op_try_from_Inr)
  then have "server_op_try_from op = (Inr sop :: 'j frame_codec_error + server_op)"
    by (simp add: server_op_try_from_Inr)
  with d show "bs = server_frame_bytes f"
    using assms op
    by (cases sop)
      (auto simp: bs decode_server_frame_def and_then_eq_Inr Let_def server_frame_bytes_def fd_Inr
        stream_kind_from_byte_Inr decode_read_batch_def)
next
  assume bs: "bs = server_frame_bytes f"
  have ops: "server_op_try_from (server_op_byte sop) = (Inr sop :: 'j frame_codec_error + server_op)" for sop
    by (simp add: server_op_try_from_Inr)
  note ops' = ops [of OpReady, simplified] ops [of OpAppendAck, simplified] ops [of OpHeartbeat, simplified]
    ops [of OpCaughtUp, simplified]
  show "decode_server_frame from_json bs = (Inr f :: 'j frame_codec_error + 'i server_frame)"
    using assms
    by (cases f)
      (auto simp: bs server_frame_bytes_def decode_server_frame_def ops' Let_def fd_finish_def
        stream_kind_from_byte_Inr)
qed

lemma decode_server_frame_batch:
  "decode_server_frame from_json (server_op_byte OpReadBatch # body)
     = decode_read_batch (server_op_byte OpReadBatch) (server_op_byte OpReadBatch # body)"
  by (simp add: decode_server_frame_def server_op_try_from_def)

lemma decode_server_frame_cases:
  assumes "decode_server_frame from_json bs = (Inr f :: 'j frame_codec_error + 'i server_frame)"
  shows "(\<exists>m. f = StreamMetadata m)
    \<or> (\<exists>b. f = ServerReadBatch b \<and> (\<exists>body. bs = server_op_byte OpReadBatch # body
         \<and> decode_read_batch (server_op_byte OpReadBatch) bs = (Inr f :: 'j frame_codec_error + 'i server_frame)))
    \<or> (\<nexists>b. f = ServerReadBatch b) \<and> (\<nexists>m. f = StreamMetadata m)"
proof (cases "\<exists>b. f = ServerReadBatch b")
  case True
  then obtain b where f: "f = ServerReadBatch b" ..
  obtain op body where bs: "bs = op # body" using assms by (cases bs) (auto simp: decode_server_frame_def)
  obtain sop where sop: "op = server_op_byte sop"
    using assms by (auto simp: bs decode_server_frame_def and_then_eq_Inr server_op_try_from_Inr)
  have "server_op_try_from op = (Inr sop :: 'j frame_codec_error + server_op)"
    by (simp add: server_op_try_from_Inr sop)
  with assms f have "sop = OpReadBatch"
    by (cases sop) (auto simp: bs decode_server_frame_def and_then_eq_Inr Let_def)
  with assms bs sop show ?thesis
    unfolding f using decode_server_frame_batch by metis
qed auto

text \<open>The metadata of a stream as the client reads it: serde's derived deserializer finds the fields, and those with a
  deserializer of their own (\<open>StreamTitle\<close>, \<open>deserialize_rfc3339_string\<close>) are checked. The serializer prints all of them as they are.\<close>

datatype metadata_error = InvalidTitle stream_title_error | InvalidTimestamp string

definition deserialize_title :: "stream_title option \<Rightarrow> metadata_error + stream_title option" where
  "deserialize_title title = (case title of
       None \<Rightarrow> Inr None
     | Some t \<Rightarrow> and_then (map_err InvalidTitle (stream_title_from_str (title_str t))) (\<lambda>t. Inr (Some t)))"

definition stream_metadata_from_json :: "(bytes \<Rightarrow> 'j + 'i stream_metadata) \<Rightarrow> (metadata_error \<Rightarrow> 'j) \<Rightarrow> bytes \<Rightarrow> 'j + 'i stream_metadata" where
  "stream_metadata_from_json derived custom json =
     and_then (derived json) (\<lambda>m.
     and_then (map_err custom (deserialize_title (sm_title m))) (\<lambda>title.
     and_then (map_err (custom \<circ> InvalidTimestamp) (deserialize_rfc3339_string (sm_created_at m))) (\<lambda>created_at.
     and_then (map_err (custom \<circ> InvalidTimestamp) (deserialize_rfc3339_string (sm_expires_at m))) (\<lambda>expires_at.
     Inr (m\<lparr> sm_title := title, sm_created_at := created_at, sm_expires_at := expires_at \<rparr>)))))"

text \<open>What a client can read back: a title that is one, and timestamps in the format of RFC 3339.\<close>

definition readable_metadata :: "'i stream_metadata \<Rightarrow> bool" where
  "readable_metadata m \<longleftrightarrow> (case sm_title m of None \<Rightarrow> True | Some t \<Rightarrow> \<not> isl (stream_title_from_str (title_str t)))
     \<and> is_rfc3339_timestamp (sm_created_at m) \<and> is_rfc3339_timestamp (sm_expires_at m)"

lemma title_str_parsed: "stream_title_from_str s = Inr t \<Longrightarrow> t = StreamTitle s"
  by (auto simp: stream_title_from_str_def Let_def split: if_splits)

lemma stream_metadata_from_json_eq:
  assumes "derived json = (Inr m :: 'j + 'i stream_metadata)"
  shows "if readable_metadata m then stream_metadata_from_json derived custom json = Inr m
    else isl (stream_metadata_from_json derived custom json)"
proof (cases "case sm_title m of None \<Rightarrow> True | Some t \<Rightarrow> \<not> isl (stream_title_from_str (title_str t))")
  case True
  then have "deserialize_title (sm_title m) = Inr (sm_title m)"
    by (auto simp: deserialize_title_def map_err_def isl_def split: option.splits sum.splits dest!: title_str_parsed)
  then show ?thesis
    using True
    by (auto simp: assms stream_metadata_from_json_def readable_metadata_def deserialize_rfc3339_string_def map_err_def isl_def
        split: sum.splits)
next
  case False
  then obtain e where "deserialize_title (sm_title m) = Inl e"
    by (auto simp: deserialize_title_def map_err_def isl_def split: option.splits sum.splits)
  then show ?thesis
    using False by (simp add: assms stream_metadata_from_json_def readable_metadata_def map_err_def isl_def)
qed

text \<open>C18: No server frame is garbled on its way. Encoding a well-typed server frame never panics and
  fails only when the JSON serializer does; the bytes decode to an equal frame, a read batch with
  exactly the records sent, under any buffer that appends and any derived JSON codec whose deserializer finds the
  fields that its serializer printed. The one exception: metadata whose title or timestamps are not in their format is
  printed as it is, and then rejected by the decoder.\<close>

theorem server_frame_roundtrip:
  fixes f :: "'i server_frame" and to_json :: "'i stream_metadata \<Rightarrow> 'j + bytes"
  assumes "buf_mut_appends B" "typed_server_frame f"
    and "\<And>m bs. to_json m = Inr bs \<Longrightarrow> derived bs = (Inr m :: 'j + 'i stream_metadata)"
  shows "case server_encode B to_json f of
     Ok bs \<Rightarrow>
       (case f of
          StreamMetadata m \<Rightarrow>
            if readable_metadata m then decode_server_frame (stream_metadata_from_json derived custom) bs = Inr f
            else \<exists>je. decode_server_frame (stream_metadata_from_json derived custom) bs = Inl (InvalidStreamMetadata je)
        | _ \<Rightarrow> \<exists>f'. decode_server_frame (stream_metadata_from_json derived custom) bs = Inr f' \<and> server_frame_eq f f')
   | Err e \<Rightarrow> (\<exists>m je. f = StreamMetadata m \<and> to_json m = Inl je \<and> e = InvalidStreamMetadata je)
   | Panic \<Rightarrow> False"
proof -
  let ?from_json = "stream_metadata_from_json derived custom"
  consider m where "f = StreamMetadata m" | b where "f = ServerReadBatch b"
    | "\<nexists>b. f = ServerReadBatch b" "\<nexists>m. f = StreamMetadata m" by blast
  then show ?thesis
  proof cases
    case 1
    show ?thesis
    proof (cases "to_json m")
      case (Inl je)
      then show ?thesis
        using 1 by (simp add: server_encode_def Let_def)
    next
      case (Inr json)
      then have "server_encode B to_json f = Ok (server_op_byte OpStreamMetadata # json)"
        using 1 by (simp add: server_encode_def buf_mut_appendsD [OF assms(1)] Let_def)
      then show ?thesis
        using 1 stream_metadata_from_json_eq [where derived = derived and json = json and m = m and custom = custom, OF assms(3) [OF Inr]]
        by (auto simp: decode_server_frame_def server_op_try_from_def Let_def map_err_def isl_def split: if_splits)
    qed
  next
    case 2
    then have wf: "wf_read_batch b" "\<forall>r \<in> set (batch_records b). valid_writer_id (rr_writer_id r)"
      using assms(2) by (auto simp: typed_server_frame_def batch_records_def meta_record_def)
    then have "bounded_records (batch_records b)"
      using wf_batch_of_records [of b] by (auto simp: wf_read_batch_def)
    from decode_read_batch_bytes [OF this wf(2)] obtain b'
      where b': "decode_read_batch (server_op_byte OpReadBatch) (read_batch_bytes (batch_records b))
        = (Inr (ServerReadBatch b') :: 'j frame_codec_error + 'i server_frame)"
        "batch_records b' = batch_records b" "typed_server_frame (ServerReadBatch b' :: 'i server_frame)"
      by blast
    have "batch_eq b b'" using wf(1) b' by (simp add: batch_eq_wf typed_server_frame_def)
    moreover have "decode_server_frame ?from_json (read_batch_bytes (batch_records b))
        = (Inr (ServerReadBatch b') :: 'j frame_codec_error + 'i server_frame)"
      using b'(1) unfolding read_batch_bytes_def decode_server_frame_batch .
    ultimately show ?thesis
      using server_encode_Ok [OF assms(1,2), of to_json] 2 by (simp add: server_frame_bytes_def)
  next
    case 3
    have "server_frame_eq f f" by (cases f) simp_all
    moreover have "decode_server_frame ?from_json (server_frame_bytes f)
        = (Inr f :: 'j frame_codec_error + 'i server_frame)"
      using decode_server_frame_nonbatch [OF 3] by blast
    ultimately show ?thesis
      using server_encode_Ok [OF assms(1,2) 3(2), of to_json] 3 by (cases f) auto
  qed
qed

text \<open>A codec for the metadata of one stream.\<close>

definition sample_metadata :: "rstr \<Rightarrow> unit stream_metadata" where
  "sample_metadata created_at = \<lparr> sm_stream_id = (), sm_kind = Transcript, sm_title = Some (StreamTitle [72, 105]), sm_visibility = Public,
     sm_created_at = created_at, sm_expires_at = lit ''2024-02-29T00:00:00Z'' \<rparr>"

definition sample_to_json :: "unit stream_metadata \<Rightarrow> unit + bytes" where
  "sample_to_json m = (if m = sample_metadata (sm_created_at m) then Inr (sm_created_at m) else Inl ())"

lemma sample_timestamps:
  "is_rfc3339_timestamp (lit ''2023-12-31T23:59:59.5+01:00'')" "is_rfc3339_timestamp (lit ''2024-02-29T00:00:00Z'')"
  "\<not> is_rfc3339_timestamp (lit ''yesterday'')"
  by (simp_all add: is_rfc3339_timestamp_def lit_def byte_at_def number_def slice_def max_day_def leap_year_def rfc3339_fraction_def
      rfc3339_zone_def is_ascii_digit_def in_range_def)

lemma sample_title: "stream_title_from_str [72, 105] = Inr (StreamTitle [72, 105])"
  by (simp add: stream_title_from_str_iff chars_def utf8_chars_ascii is_whitespace_def is_control_def)

lemma server_frame_roundtrip_witness:
  "decode_server_frame (stream_metadata_from_json (Inr \<circ> sample_metadata) (\<lambda>_. ())) (0x85 # lit ''2023-12-31T23:59:59.5+01:00'')
      = Inr (StreamMetadata (sample_metadata (lit ''2023-12-31T23:59:59.5+01:00'')))
   \<and> (\<exists>je. decode_server_frame (stream_metadata_from_json (Inr \<circ> sample_metadata) (\<lambda>_. ())) (0x85 # lit ''yesterday'')
      = Inl (InvalidStreamMetadata je))"
proof -
  have codec: "(Inr \<circ> sample_metadata) bs = Inr m" if "sample_to_json m = Inr bs" for m bs
    using that by (auto simp: sample_to_json_def split: if_splits)
  have encoded: "server_encode list_buf sample_to_json (StreamMetadata (sample_metadata created_at)) = Ok (0x85 # created_at)" for created_at
    by (simp add: server_encode_def list_buf_def sample_to_json_def sample_metadata_def Let_def)
  have typed: "typed_server_frame (StreamMetadata (sample_metadata created_at))" for created_at
    by (simp add: typed_server_frame_def)
  have read: "if readable_metadata (sample_metadata created_at)
      then decode_server_frame (stream_metadata_from_json (Inr \<circ> sample_metadata) (\<lambda>_. ())) (0x85 # created_at) = Inr (StreamMetadata (sample_metadata created_at))
      else \<exists>je. decode_server_frame (stream_metadata_from_json (Inr \<circ> sample_metadata) (\<lambda>_. ())) (0x85 # created_at) = Inl (InvalidStreamMetadata je)"
    for created_at
    using server_frame_roundtrip [where to_json = sample_to_json and derived = "Inr \<circ> sample_metadata" and custom = "\<lambda>_. ()",
        OF list_buf_appends typed [of created_at] codec]
    unfolding encoded outcome.case server_frame.case .
  have "readable_metadata (sample_metadata (lit ''2023-12-31T23:59:59.5+01:00''))"
    by (simp add: readable_metadata_def sample_metadata_def sample_timestamps sample_title)
  moreover have "\<not> readable_metadata (sample_metadata (lit ''yesterday''))"
    by (simp add: readable_metadata_def sample_metadata_def sample_timestamps)
  ultimately show ?thesis
    using read [of "lit ''2023-12-31T23:59:59.5+01:00''"] read [of "lit ''yesterday''"] by (simp only: if_True if_False)
qed

text \<open>C23: The server decoder accepts only canonical, bounded frames. Whatever bytes decode, the frame is
  well typed (a read batch has 1 to 1000 records, at most 512 KiB each and 1 MiB together, with
  consecutive sequence numbers and every payload inside the frame), and it re-encodes to the very same bytes;
  only a frame of metadata is not canonical: it is its opcode with whatever JSON reads as the metadata.\<close>

theorem server_frame_canonical:
  assumes "buf_mut_appends B" "decode_server_frame from_json bs = (Inr f :: 'j frame_codec_error + 'i server_frame)"
  shows "typed_server_frame f \<and> (case f of
      StreamMetadata m \<Rightarrow> \<exists>json. bs = server_op_byte OpStreamMetadata # json \<and> from_json json = Inr m
    | _ \<Rightarrow> server_encode B to_json f = Ok bs)"
proof -
  from decode_server_frame_cases [OF assms(2)]
  consider m where "f = StreamMetadata m"
    | b body where "f = ServerReadBatch b" "bs = server_op_byte OpReadBatch # body"
        "decode_read_batch (server_op_byte OpReadBatch) bs = (Inr f :: 'j frame_codec_error + 'i server_frame)"
    | "\<nexists>b. f = ServerReadBatch b" "\<nexists>m. f = StreamMetadata m" by blast
  then show ?thesis
  proof cases
    case 1
    obtain op body where bs: "bs = op # body"
      using assms(2) by (cases bs) (auto simp: decode_server_frame_def)
    obtain sop where sop: "op = server_op_byte sop"
      using assms(2) by (auto simp: bs decode_server_frame_def and_then_eq_Inr server_op_try_from_Inr)
    have "server_op_try_from op = (Inr sop :: 'j frame_codec_error + server_op)"
      by (simp add: server_op_try_from_Inr sop)
    then have "sop = OpStreamMetadata \<and> from_json body = Inr m"
      using assms(2) 1
      by (cases sop) (auto simp: bs decode_server_frame_def decode_read_batch_def and_then_eq_Inr Let_def map_err_def split: sum.splits)
    then show ?thesis using 1 bs sop by (simp add: typed_server_frame_def)
  next
    case 2
    from decode_read_batch_Inr [OF 2(3) [unfolded 2(2)]]
    have "typed_server_frame f" "bs = server_frame_bytes f"
      by (auto simp: 2(1,2) server_frame_bytes_def read_batch_bytes_def)
    then show ?thesis using server_encode_Ok [OF assms(1), of f to_json] 2(1) by simp
  next
    case 3
    then have t: "typed_server_frame f" by (cases f) (auto simp: typed_server_frame_def)
    moreover have "bs = server_frame_bytes f"
      using assms(2) decode_server_frame_nonbatch [OF 3] by blast
    ultimately show ?thesis using server_encode_Ok [OF assms(1) t 3(2), of to_json] 3 by (cases f) auto
  qed
qed

theorem server_frame_canonical_witness:
  "typed_server_frame (Heartbeat :: unit server_frame)
     \<and> server_encode list_buf (\<lambda>_. Inl ()) (Heartbeat :: unit server_frame) = Ok [0x83]"
proof -
  have "decode_server_frame (\<lambda>_. Inl ()) [0x83] = (Inr Heartbeat :: unit frame_codec_error + unit server_frame)"
    by (simp add: decode_server_frame_def server_op_try_from_def fd_finish_def Let_def)
  from server_frame_canonical [OF list_buf_appends this, of "\<lambda>_. Inl ()"] show ?thesis by simp
qed

end
