(* ===== verification/ClientErrors.thy ===== *)
theory ClientErrors
  imports ServerCodec
begin

text \<open>
  The client's error type, its classification into retryable and terminal errors, the configuration
  check and the bounded retry loop of \<open>rust/src/client.rs\<close>. Third-party values are represented by
  what the sources observe of them: \<open>reqwest::Error\<close> by its four predicates, the WebSocket
  library's error by the variants the sources name, a JSON error and a URL by type variables.
  A \<open>Duration\<close> is its number of nanoseconds. The retried operation is a function on a state \<open>'s\<close>,
  and jitter is a parameter.
\<close>

type_synonym duration = nat

record reqwest_error =
  is_timeout :: bool
  is_connect :: bool
  is_body :: bool
  is_decode :: bool

datatype websocket_error =
    WsConnectionClosed
  | WsIo
  | WsTls
  | WsWriteBufferFull
  | WsResetWithoutClosingHandshake
  | WsHttp u16
  | WsOther

record append_ack =
  aa_writer_start_seq_num :: u64
  aa_writer_end_seq_num :: u64
  aa_start_seq_num :: u64
  aa_end_seq_num :: u64

record append_range =
  ag_start_seq_num :: u64
  ag_end_seq_num :: u64

text \<open>\<open>InvalidPlaybackRate\<close> drops the three floating-point numbers it prints.\<close>

datatype ('u, 'j) client_error =
    InvalidApiOrigin 'u
  | InvalidClientConfig string
  | HttpError reqwest_error
  | JsonError 'j
  | ResponseTooLarge string nat
  | HttpStatus string u16 rstr "rstr option" "rstr option" "duration option" "u64 option"
  | InvalidStatelessAppend string
  | InvalidSse string
  | InvalidReadResponse string
  | StreamKindChanged
  | StreamIdChanged
  | SseTerminal rstr
  | Timeout string
  | WebSocket websocket_error
  | FrameError "'j frame_codec_error"
  | InvalidWebSocketScheme rstr
  | InvalidWebSocketProtocolHeader
  | UnexpectedWebSocketProtocol "rstr option"
  | WebSocketClosed
  | WebSocketClosedWithReason u16 rstr
  | SequenceMismatch "u64 option" "rstr option" "duration option"
  | InvalidListLinksOptions string
  | InvalidLinkPage string
  | InvalidAppendAck append_ack
  | InvalidAppendRange append_range
  | AppendNotAcknowledged u64 append_ack
  | AppendWriterClosed
  | AppendWriterDropped
  | AppendWriterAborted
  | AppendDurabilityUnknown "('u, 'j) client_error"
  | AppendWriterTaskFailed rstr
  | ReadReconnectLimitExceeded nat
  | InvalidReadSelector u64 u64
  | InvalidReadWait u32 u32
  | InvalidPlaybackRate
  | PlaybackRequiresCountUntilOrWaitZero
  | UnexpectedServerFrame string
  | UnexpectedTextMessage

section \<open>What an error carries\<close>

fun request_id :: "('u, 'j) client_error \<Rightarrow> rstr option" where
  "request_id (HttpStatus _ _ _ _ rid _ _) = rid"
| "request_id (SequenceMismatch _ rid _) = rid"
| "request_id (AppendDurabilityUnknown inner) = request_id inner"
| "request_id _ = None"

fun api_code :: "('u, 'j) client_error \<Rightarrow> rstr option" where
  "api_code (HttpStatus _ _ _ code _ _ _) = code"
| "api_code (AppendDurabilityUnknown inner) = api_code inner"
| "api_code _ = None"

fun retry_after :: "('u, 'j) client_error \<Rightarrow> duration option" where
  "retry_after (HttpStatus _ _ _ _ _ ra _) = ra"
| "retry_after (SequenceMismatch _ _ ra) = ra"
| "retry_after (AppendDurabilityUnknown inner) = retry_after inner"
| "retry_after _ = None"

fun actual_next_seq_num :: "('u, 'j) client_error \<Rightarrow> u64 option" where
  "actual_next_seq_num (HttpStatus _ _ _ _ _ _ n) = n"
| "actual_next_seq_num (SequenceMismatch n _ _) = n"
| "actual_next_seq_num (AppendDurabilityUnknown inner) = actual_next_seq_num inner"
| "actual_next_seq_num _ = None"

section \<open>Classification\<close>

definition is_transient_transport_error :: "reqwest_error \<Rightarrow> bool" where
  "is_transient_transport_error e \<longleftrightarrow> is_timeout e \<or> is_connect e \<or> is_body e \<or> is_decode e"

definition is_retryable_close_code :: "u16 \<Rightarrow> bool" where
  "is_retryable_close_code code \<longleftrightarrow> code = 1000 \<or> code = 1001 \<or> code = 1005 \<or> code = 1006
     \<or> (1011 \<le> code \<and> code \<le> 1015)"

definition is_retryable_http_status :: "u16 \<Rightarrow> bool" where
  "is_retryable_http_status status \<longleftrightarrow> status \<in> {408, 425, 429, 500, 502, 503, 504}"

fun is_retryable_websocket_error :: "websocket_error \<Rightarrow> bool" where
  "is_retryable_websocket_error WsConnectionClosed = True"
| "is_retryable_websocket_error WsIo = True"
| "is_retryable_websocket_error WsTls = True"
| "is_retryable_websocket_error WsWriteBufferFull = True"
| "is_retryable_websocket_error WsResetWithoutClosingHandshake = True"
| "is_retryable_websocket_error (WsHttp status) = is_retryable_http_status status"
| "is_retryable_websocket_error WsOther = False"

fun is_resumable_read_interruption :: "('u, 'j) client_error \<Rightarrow> bool" where
  "is_resumable_read_interruption (Timeout _) = True"
| "is_resumable_read_interruption WebSocketClosed = True"
| "is_resumable_read_interruption (WebSocket e) = is_retryable_websocket_error e"
| "is_resumable_read_interruption (WebSocketClosedWithReason code _) = is_retryable_close_code code"
| "is_resumable_read_interruption _ = False"

fun is_resumable_sse_interruption :: "('u, 'j) client_error \<Rightarrow> bool" where
  "is_resumable_sse_interruption (HttpError e) = is_transient_transport_error e"
| "is_resumable_sse_interruption (HttpStatus _ status _ _ _ _ _) = is_retryable_http_status status"
| "is_resumable_sse_interruption (Timeout _) = True"
| "is_resumable_sse_interruption _ = False"

definition is_retryable :: "('u, 'j) client_error \<Rightarrow> bool" where
  "is_retryable e =
     (if is_resumable_read_interruption e then True
      else case e of
          HttpError h \<Rightarrow> is_timeout h \<or> is_connect h
        | JsonError _ \<Rightarrow> True
        | HttpStatus _ status _ _ _ _ _ \<Rightarrow> is_retryable_http_status status
        | _ \<Rightarrow> False)"

definition is_recoverable_create_failure :: "('u, 'j) client_error \<Rightarrow> bool" where
  "is_recoverable_create_failure e = (case e of
       HttpError h \<Rightarrow> is_transient_transport_error h
     | JsonError _ \<Rightarrow> True
     | HttpStatus _ status _ _ _ _ _ \<Rightarrow> is_retryable_http_status status
     | _ \<Rightarrow> False)"

definition close_reason_error :: "u16 \<Rightarrow> rstr \<Rightarrow> ('u, 'j) client_error" where
  "close_reason_error code reason =
     (if code = 1008 \<and> reason = lit ''sequence_mismatch'' then SequenceMismatch None None None
      else WebSocketClosedWithReason code reason)"

section \<open>Delays and configuration\<close>

definition millis :: "nat \<Rightarrow> duration" where "millis n = n * 1000000"

definition MAX_CLIENT_DELAY :: duration where "MAX_CLIENT_DELAY = millis 2147483647"
definition INITIAL_RETRY_BACKOFF :: duration where "INITIAL_RETRY_BACKOFF = millis 200"
definition MAX_RETRY_BACKOFF :: duration where "MAX_RETRY_BACKOFF = millis 2000"

text \<open>\<open>Duration::checked_mul\<close>: the seconds are a \<open>u64\<close>.\<close>

definition duration_max :: duration where "duration_max = (2 ^ 64 - 1) * 1000000000 + 999999999"

definition duration_checked_mul :: "duration \<Rightarrow> nat \<Rightarrow> duration option" where
  "duration_checked_mul d m = (if d * m \<le> duration_max then Some (d * m) else None)"

definition reconnect_backoff :: "nat \<Rightarrow> duration" where
  "reconnect_backoff retry =
     (let multiplier = 2 ^ min retry 30 in
      min (case duration_checked_mul INITIAL_RETRY_BACKOFF multiplier of
             Some d \<Rightarrow> d | None \<Rightarrow> MAX_RETRY_BACKOFF) MAX_RETRY_BACKOFF)"

text \<open>\<open>jitter\<close> is the multiplication by a random factor.\<close>

definition reconnect_delay :: "(duration \<Rightarrow> duration) \<Rightarrow> nat \<Rightarrow> duration" where
  "reconnect_delay jitter retry = min (jitter (reconnect_backoff retry)) MAX_RETRY_BACKOFF"

text \<open>A parsed URL by the parts the check reads.\<close>

record url =
  url_scheme :: rstr
  url_host :: "rstr option"
  url_username :: rstr
  url_password :: "rstr option"
  url_path :: rstr
  url_query :: "rstr option"
  url_fragment :: "rstr option"

record client_config =
  cc_api_origin :: url
  cc_http_request_timeout :: duration
  cc_websocket_connect_timeout :: duration
  cc_websocket_progress_timeout :: duration
  cc_bounded_operation_attempts :: nat

definition validate_api_origin :: "url \<Rightarrow> (url, 'j) client_error + unit" where
  "validate_api_origin origin =
     (if url_scheme origin \<notin> {lit ''http'', lit ''https''} \<or> url_host origin = None
         \<or> url_username origin \<noteq> [] \<or> url_password origin \<noteq> None \<or> url_path origin \<noteq> lit ''/''
         \<or> url_query origin \<noteq> None \<or> url_fragment origin \<noteq> None
      then Inl (InvalidApiOrigin origin) else Inr ())"

fun validate_timeouts :: "(string \<times> duration) list \<Rightarrow> ('u, 'j) client_error + unit" where
  "validate_timeouts [] = Inr ()"
| "validate_timeouts ((name, value) # rest) =
     (if value = 0 \<or> value > MAX_CLIENT_DELAY
      then Inl (InvalidClientConfig (name @ '' must be greater than zero and at most 2147483647 milliseconds''))
      else validate_timeouts rest)"

definition validate_client_config :: "client_config \<Rightarrow> (url, 'j) client_error + unit" where
  "validate_client_config config =
     and_then (validate_api_origin (cc_api_origin config)) (\<lambda>_.
     and_then (validate_timeouts
       [(''http_request_timeout'', cc_http_request_timeout config),
        (''websocket_connect_timeout'', cc_websocket_connect_timeout config),
        (''websocket_progress_timeout'', cc_websocket_progress_timeout config)]) (\<lambda>_.
     if cc_bounded_operation_attempts config = 0
     then Inl (InvalidClientConfig ''bounded_operation_attempts must be at least one'')
     else Inr ()))"

section \<open>The bounded retry loop\<close>

text \<open>\<open>for attempt in 1..=attempts\<close>; falling out of the loop is \<open>unreachable!()\<close>. The third component
  lists the delays slept.\<close>

fun retry_loop :: "('s \<Rightarrow> (('u, 'j) client_error + 'a) \<times> 's) \<Rightarrow> (('u, 'j) client_error \<Rightarrow> bool)
    \<Rightarrow> (nat \<Rightarrow> duration) \<Rightarrow> nat \<Rightarrow> nat list \<Rightarrow> 's
    \<Rightarrow> (('u, 'j) client_error, 'a) outcome \<times> 's \<times> duration list" where
  "retry_loop run should_retry backoff attempts [] s = (Panic, s, [])"
| "retry_loop run should_retry backoff attempts (attempt # rest) s =
     (case run s of
        (Inr value, s) \<Rightarrow> (Ok value, s, [])
      | (Inl error, s) \<Rightarrow>
          if attempt < attempts \<and> should_retry error then
            let delay = (case retry_after error of
                  None \<Rightarrow> backoff (attempt - 1)
                | Some d \<Rightarrow> min d MAX_RETRY_BACKOFF) in
            (case retry_loop run should_retry backoff attempts rest s of
               (result, s, slept) \<Rightarrow> (result, s, if delay = 0 then slept else delay # slept))
          else (Err error, s, []))"

definition retry_when :: "client_config \<Rightarrow> (duration \<Rightarrow> duration) \<Rightarrow> ('s \<Rightarrow> (('u, 'j) client_error + 'a) \<times> 's)
    \<Rightarrow> (('u, 'j) client_error \<Rightarrow> bool) \<Rightarrow> 's \<Rightarrow> (('u, 'j) client_error, 'a) outcome \<times> 's \<times> duration list" where
  "retry_when config jitter run should_retry s =
     (let attempts = cc_bounded_operation_attempts config in
      retry_loop run should_retry (reconnect_delay jitter) attempts [1..<attempts + 1] s)"

definition retry_transient :: "client_config \<Rightarrow> (duration \<Rightarrow> duration) \<Rightarrow> ('s \<Rightarrow> (('u, 'j) client_error + 'a) \<times> 's)
    \<Rightarrow> 's \<Rightarrow> (('u, 'j) client_error, 'a) outcome \<times> 's \<times> duration list" where
  "retry_transient config jitter run = retry_when config jitter run is_retryable"

section \<open>Properties\<close>

lemma validate_timeouts_iff:
  "validate_timeouts xs = Inr () \<longleftrightarrow> (\<forall>(name, d) \<in> set xs. 0 < d \<and> d \<le> MAX_CLIENT_DELAY)"
  by (induction xs rule: validate_timeouts.induct) auto

lemma validate_client_config_Inr_iff:
  "validate_client_config config = (Inr () :: (url, 'j) client_error + unit) \<longleftrightarrow>
     validate_api_origin (cc_api_origin config) = (Inr () :: (url, 'j) client_error + unit)
     \<and> 0 < cc_http_request_timeout config \<and> cc_http_request_timeout config \<le> MAX_CLIENT_DELAY
     \<and> 0 < cc_websocket_connect_timeout config \<and> cc_websocket_connect_timeout config \<le> MAX_CLIENT_DELAY
     \<and> 0 < cc_websocket_progress_timeout config \<and> cc_websocket_progress_timeout config \<le> MAX_CLIENT_DELAY
     \<and> 0 < cc_bounded_operation_attempts config"
  for config :: client_config
  by (auto simp: validate_client_config_def and_then_eq_Inr validate_timeouts_iff)

lemma duration_checked_mul_backoff:
  "duration_checked_mul INITIAL_RETRY_BACKOFF (2 ^ min retry 30) = Some (INITIAL_RETRY_BACKOFF * 2 ^ min retry 30)"
proof -
  have "(2 :: nat) ^ min retry 30 \<le> 2 ^ 30"
    by (rule power_increasing) auto
  then show ?thesis
    by (simp add: duration_checked_mul_def INITIAL_RETRY_BACKOFF_def millis_def duration_max_def)
qed

lemma reconnect_backoff_doubles:
  "reconnect_backoff retry = min (millis (200 * 2 ^ retry)) (millis 2000)"
proof (cases "retry \<le> 30")
  case True
  then show ?thesis
    unfolding reconnect_backoff_def duration_checked_mul_backoff Let_def
    by (simp add: INITIAL_RETRY_BACKOFF_def MAX_RETRY_BACKOFF_def millis_def)
next
  case False
  have "(2 :: nat) ^ 30 \<le> 2 ^ retry"
    by (rule power_increasing) (use False in auto)
  then show ?thesis
    using False unfolding reconnect_backoff_def duration_checked_mul_backoff Let_def
    by (simp add: INITIAL_RETRY_BACKOFF_def MAX_RETRY_BACKOFF_def millis_def)
qed

lemma reconnect_delay_le [simp]: "reconnect_delay jitter retry \<le> MAX_RETRY_BACKOFF"
  by (simp add: reconnect_delay_def)

text \<open>The states and results of a run of attempts, independently of the loop.\<close>

definition attempt_state :: "('s \<Rightarrow> 'r \<times> 's) \<Rightarrow> 's \<Rightarrow> nat \<Rightarrow> 's" where
  "attempt_state run s k = ((\<lambda>s. snd (run s)) ^^ k) s"

definition attempt_result :: "('s \<Rightarrow> 'r \<times> 's) \<Rightarrow> 's \<Rightarrow> nat \<Rightarrow> 'r" where
  "attempt_result run s k = fst (run (attempt_state run s k))"

lemma attempt_state_0 [simp]: "attempt_state run s 0 = s"
  by (simp add: attempt_state_def)

lemma attempt_state_Suc: "attempt_state run s (Suc k) = attempt_state run (snd (run s)) k"
  unfolding attempt_state_def funpow_Suc_right by simp

lemma attempt_result_0 [simp]: "attempt_result run s 0 = fst (run s)"
  by (simp add: attempt_result_def)

lemma attempt_result_Suc: "attempt_result run s (Suc k) = attempt_result run (snd (run s)) k"
  by (simp add: attempt_result_def attempt_state_Suc)

text \<open>What a bounded retry promises: the loop ended with the attempt number \<open>k\<close>.\<close>

definition retried_until :: "('s \<Rightarrow> (('u, 'j) client_error + 'a) \<times> 's) \<Rightarrow> (('u, 'j) client_error \<Rightarrow> bool)
    \<Rightarrow> nat \<Rightarrow> 's \<Rightarrow> nat \<Rightarrow> (('u, 'j) client_error, 'a) outcome \<times> 's \<times> duration list \<Rightarrow> bool" where
  "retried_until run should_retry attempts s k out \<longleftrightarrow>
     k < attempts
     \<and> fst (snd out) = attempt_state run s (Suc k)
     \<and> (\<forall>i < k. \<exists>e. attempt_result run s i = Inl e \<and> should_retry e)
     \<and> (case attempt_result run s k of
          Inr v \<Rightarrow> fst out = Ok v
        | Inl e \<Rightarrow> fst out = Err e \<and> (Suc k = attempts \<or> \<not> should_retry e))
     \<and> length (snd (snd out)) \<le> k
     \<and> (\<forall>d \<in> set (snd (snd out)). 0 < d \<and> d \<le> MAX_RETRY_BACKOFF)"

lemma retried_until_Suc:
  assumes first: "run s = (Inl e, s')" and retry: "should_retry e"
    and rest: "retried_until run should_retry n s' k (r, t, slept)"
    and slept: "slept' = slept \<or> (\<exists>d. slept' = d # slept \<and> 0 < d \<and> d \<le> MAX_RETRY_BACKOFF)"
  shows "retried_until run should_retry (Suc n) s (Suc k) (r, t, slept')"
proof -
  have "\<exists>e. attempt_result run s i = Inl e \<and> should_retry e" if "i < Suc k" for i
    using that rest first retry
    by (cases i) (auto simp: retried_until_def attempt_result_Suc)
  then show ?thesis
    using rest slept first
    by (auto simp: retried_until_def attempt_result_Suc attempt_state_Suc[of _ s] split: sum.splits)
qed

lemma retry_loop_spec:
  assumes "\<And>n. backoff n \<le> MAX_RETRY_BACKOFF" and "first \<le> attempts"
  shows "\<exists>k. retried_until run should_retry (Suc (attempts - first)) s k
           (retry_loop run should_retry backoff attempts [first..<attempts + 1] s)"
  using assms(2)
proof (induction "attempts - first" arbitrary: first s)
  case 0
  then have upt: "[first..<attempts + 1] = [attempts]"
    by simp
  show ?case
    unfolding upt using 0
    by (intro exI[of _ 0])
       (auto simp: retried_until_def attempt_state_Suc split: prod.splits sum.splits)
next
  case (Suc n)
  then have less: "first < attempts" and n: "n = attempts - Suc first"
    by auto
  have upt: "[first..<attempts + 1] = first # [Suc first..<attempts + 1]"
    using less by (simp add: upt_conv_Cons)
  obtain r s' where run: "run s = (r, s')"
    by (cases "run s")
  show ?case
  proof (cases r)
    case (Inr v)
    then show ?thesis
      unfolding upt using run Suc.hyps(2)
      by (intro exI[of _ 0]) (auto simp: retried_until_def attempt_state_Suc)
  next
    case (Inl e)
    show ?thesis
    proof (cases "should_retry e")
      case False
      then show ?thesis
        unfolding upt using run Inl Suc.hyps(2)
        by (intro exI[of _ 0]) (auto simp: retried_until_def attempt_state_Suc)
    next
      case True
      define delay where "delay = (case retry_after e of
                  None \<Rightarrow> backoff (first - 1) | Some d \<Rightarrow> min d MAX_RETRY_BACKOFF)"
      have delay: "delay \<le> MAX_RETRY_BACKOFF"
        using assms(1) by (auto simp: delay_def split: option.splits)
      obtain r' t slept where rec:
        "retry_loop run should_retry backoff attempts [Suc first..<attempts + 1] s' = (r', t, slept)"
        by (cases "retry_loop run should_retry backoff attempts [Suc first..<attempts + 1] s'") auto
      have "\<exists>k. retried_until run should_retry (Suc n) s' k (r', t, slept)"
        using Suc.hyps(1)[OF n, of s'] less unfolding rec n by simp
      then obtain k where k: "retried_until run should_retry (Suc n) s' k (r', t, slept)" ..
      have "retry_loop run should_retry backoff attempts [first..<attempts + 1] s
          = (r', t, if delay = 0 then slept else delay # slept)"
        unfolding upt using run Inl True less rec by (simp add: delay_def[symmetric])
      then show ?thesis
        using retried_until_Suc[of run s e s' should_retry "Suc n" k r' t slept] run Inl True k delay
        by (intro exI[of _ "Suc k"]) (auto simp flip: Suc.hyps(2))
    qed
  qed
qed

text \<open>With a configuration that \<open>validate_client_config\<close> accepts, \<open>retry_when\<close> never reaches its
  \<open>unreachable!\<close>: it runs the operation at most \<open>bounded_operation_attempts\<close> times, all failures but the
  last are retryable, the result is that of the last attempt, a final failure is either not retryable or the
  last allowed attempt, and it sleeps less often than it runs and at most two seconds each time.\<close>

theorem retry_when_bounded:
  fixes config :: client_config and run :: "'s \<Rightarrow> ((url, 'j) client_error + 'a) \<times> 's"
  assumes "validate_client_config config = (Inr () :: (url, 'j) client_error + unit)"
  shows "\<exists>k. retried_until run should_retry (cc_bounded_operation_attempts config) s k
            (retry_when config jitter run should_retry s)"
proof -
  have pos: "0 < cc_bounded_operation_attempts config"
    using assms by (simp add: validate_client_config_Inr_iff)
  show ?thesis
    using retry_loop_spec[of "reconnect_delay jitter" 1 "cc_bounded_operation_attempts config" run should_retry s] pos
    by (simp add: retry_when_def Let_def)
qed

definition sample_config :: client_config where
  "sample_config = \<lparr> cc_api_origin = \<lparr> url_scheme = lit ''https'', url_host = Some (lit ''tail.surf''),
       url_username = [], url_password = None, url_path = lit ''/'', url_query = None, url_fragment = None \<rparr>,
     cc_http_request_timeout = millis 10000, cc_websocket_connect_timeout = millis 10000,
     cc_websocket_progress_timeout = millis 30000, cc_bounded_operation_attempts = 3 \<rparr>"

lemma sample_config_valid [simp]: "validate_client_config sample_config = Inr ()"
  by (simp add: validate_client_config_Inr_iff sample_config_def validate_api_origin_def MAX_CLIENT_DELAY_def
      millis_def)

lemma sample_config_attempts [simp]: "cc_bounded_operation_attempts sample_config = 3"
  by (simp add: sample_config_def)

text \<open>Two timeouts, then a value: three runs, two sleeps of which the first is 200 ms.\<close>

lemma retry_when_bounded_witness:
  "retry_when sample_config id (\<lambda>n. (if n < 2 then Inl (Timeout ''op'') else Inr n, Suc n))
     (is_retryable :: (url, unit) client_error \<Rightarrow> bool) (0 :: nat)
     = (Ok 2, 3, [millis 200, millis 400])
   \<and> (\<exists>k. retried_until (\<lambda>n. (if n < 2 then Inl (Timeout ''op'') else Inr n, Suc n))
        (is_retryable :: (url, unit) client_error \<Rightarrow> bool) (cc_bounded_operation_attempts sample_config) (0 :: nat) k
        (retry_when sample_config id (\<lambda>n. (if n < 2 then Inl (Timeout ''op'') else Inr n, Suc n)) is_retryable 0))"
proof
  have upt: "[1..<3 + 1] = [1, 2, 3 :: nat]"
    by (simp add: upt_rec)
  show "retry_when sample_config id (\<lambda>n. (if n < 2 then Inl (Timeout ''op'') else Inr n, Suc n))
     (is_retryable :: (url, unit) client_error \<Rightarrow> bool) (0 :: nat) = (Ok 2, 3, [millis 200, millis 400])"
    unfolding retry_when_def Let_def sample_config_attempts upt
    by (simp add: is_retryable_def reconnect_delay_def reconnect_backoff_doubles MAX_RETRY_BACKOFF_def millis_def)
next
  show "\<exists>k. retried_until (\<lambda>n. (if n < 2 then Inl (Timeout ''op'') else Inr n, Suc n))
        (is_retryable :: (url, unit) client_error \<Rightarrow> bool) (cc_bounded_operation_attempts sample_config) (0 :: nat) k
        (retry_when sample_config id (\<lambda>n. (if n < 2 then Inl (Timeout ''op'') else Inr n, Suc n)) is_retryable 0)"
    by (rule retry_when_bounded) simp
qed

text \<open>Every error that only interrupts a read is also worth a bounded retry, and no failure that must be
  reported to the caller is retried.\<close>

lemma resumable_read_is_retryable: "is_resumable_read_interruption e \<Longrightarrow> is_retryable e"
  by (simp add: is_retryable_def)

lemma sequence_mismatch_not_retryable [simp]: "\<not> is_retryable (SequenceMismatch a b c)"
  by (simp add: is_retryable_def)

text \<open>The backoff before retry number \<open>retry\<close> doubles from 200 ms and is capped at two seconds,
  whatever the retry number: the exponent clamp and the checked multiplication never lose a delay.\<close>

theorem backoff_is_capped_doubling:
  "reconnect_backoff retry = min (millis (200 * 2 ^ retry)) (millis 2000)
   \<and> reconnect_delay jitter retry \<le> millis 2000"
  using reconnect_delay_le[of jitter retry] by (simp add: reconnect_backoff_doubles MAX_RETRY_BACKOFF_def)

end
