(* ===== verification/WriterQueue.thy ===== *)
theory WriterQueue
  imports ClientErrors
begin

text \<open>
  The retained queue of the durable writer (\<open>rust/src/client.rs\<close>, from \<open>PendingSubmission\<close> to
  \<open>fail_pending\<close>): submissions numbered at admission, framed under the in-flight window,
  acknowledged in order, rewound on a reconnect and failed together.

  A one-shot sender is an identity of type \<open>'t\<close>; the messages an operation sends are returned as
  a list of pairs, in the order they are sent. An \<open>Instant\<close> is a number of nanoseconds. The
  panicking operations (\<open>expect\<close>, a \<open>usize\<close> that underflows) return \<open>Panic\<close>.
\<close>

section \<open>Data\<close>

type_synonym instant = nat

definition MAX_WRITER_IN_FLIGHT_PAYLOAD_BYTES :: nat where
  [const_defs]: "MAX_WRITER_IN_FLIGHT_PAYLOAD_BYTES = 5 * 1024 * 1024"
definition MAX_WRITER_IN_FLIGHT_RECORDS :: nat where
  [const_defs]: "MAX_WRITER_IN_FLIGHT_RECORDS = 1024"

record append_receipt =
  ac_writer_seq_num :: u64
  ac_seq_num :: u64
  ac_ack :: append_ack

record 't pending_submission =
  ps_payloads :: "record_payload list"
  ps_start_seq_num :: u64
  ps_acked :: nat
  ps_sent :: nat
  ps_receipts :: "append_receipt list"
  ps_ack_tx :: 't

record in_flight_window =
  w_payload_bytes :: nat
  w_records :: nat
  w_ack_deadline :: "instant option"

datatype ('t, 'd) writer_command = Submit append_batch 't | Close 'd

type_synonym ('u, 'j, 't) ticket_message = "'t \<times> (('u, 'j) client_error + append_receipt list)"

definition window_default :: in_flight_window where
  "window_default = \<lparr> w_payload_bytes = 0, w_records = 0, w_ack_deadline = None \<rparr>"

definition window_arm :: "instant \<Rightarrow> duration \<Rightarrow> in_flight_window \<Rightarrow> in_flight_window" where
  "window_arm now progress_timeout w =
     (case w_ack_deadline w of
        None \<Rightarrow> w\<lparr> w_ack_deadline := Some (now + progress_timeout) \<rparr>
      | Some _ \<Rightarrow> w)"

definition window_restart :: "instant \<Rightarrow> duration \<Rightarrow> in_flight_window \<Rightarrow> in_flight_window" where
  "window_restart now progress_timeout w =
     w\<lparr> w_ack_deadline := (if w_records w > 0 then Some (now + progress_timeout) else None) \<rparr>"

text \<open>\<open>unacknowledged_range\<close>: the two ends of the half-open range.\<close>

definition unacknowledged_range :: "'t pending_submission \<Rightarrow> u64 \<times> u64" where
  "unacknowledged_range s =
     (ps_start_seq_num s + of_nat (ps_acked s), ps_start_seq_num s + of_nat (length (ps_payloads s)))"

definition submission_record :: "'t pending_submission \<Rightarrow> nat \<Rightarrow> append_record" where
  "submission_record s index =
     (let payload = ps_payloads s ! index in
      \<lparr> ar_writer_seq_num = ps_start_seq_num s + of_nat index,
        ar_part = rp_part payload,
        ar_data = rp_data payload \<rparr>)"

definition cursor_reserve :: "u64 \<Rightarrow> nat \<Rightarrow> ('u, 'j) client_error + u64 \<times> u64" where
  "cursor_reserve next_seq_num count =
     and_then (ok_or (FrameError WriterSequenceExhausted) (checked_add next_seq_num (of_nat count))) (\<lambda>end.
     Inr (next_seq_num, end))"

section \<open>Admission\<close>

record ('t, 'd) drain_state =
  d_pending :: "'t pending_submission list"
  d_close_tx :: "'d option"
  d_cursor :: u64
  d_queue :: "('t, 'd) writer_command list"

definition admit_submission :: "append_batch \<Rightarrow> 't \<Rightarrow> ('t, 'd) drain_state
    \<Rightarrow> (('u, 'j) client_error + unit) \<times> ('t, 'd) drain_state" where
  "admit_submission batch ack_tx d =
     (let payloads = batch_payloads batch in
      case cursor_reserve (d_cursor d) (length payloads) of
        Inl e \<Rightarrow> (Inl e, d)
      | Inr (start_seq_num, next_seq_num) \<Rightarrow>
          (Inr (), d\<lparr> d_cursor := next_seq_num,
             d_pending := d_pending d @ [\<lparr> ps_payloads = payloads, ps_start_seq_num = start_seq_num,
               ps_acked = 0, ps_sent = 0, ps_receipts = [], ps_ack_tx = ack_tx \<rparr>] \<rparr>))"

definition payload_total :: "record_payload list \<Rightarrow> nat" where
  "payload_total payloads = fold (\<lambda>payload total. sat_add total (length (rp_data payload))) payloads 0"

function drain_loop :: "nat \<Rightarrow> nat \<Rightarrow> ('t, 'd) writer_command \<Rightarrow> ('t, 'd) drain_state
    \<Rightarrow> (('u, 'j) client_error + unit) \<times> ('t, 'd) drain_state" where
  "drain_loop drained_records drained_payload_bytes (Close done_tx) d =
     (Inr (), d\<lparr> d_close_tx := Some done_tx \<rparr>)"
| "drain_loop drained_records drained_payload_bytes (Submit batch ack_tx) d =
     (case admit_submission batch ack_tx d of
        (Inl e, d) \<Rightarrow> (Inl e, d)
      | (Inr _, d') \<Rightarrow>
          let drained_records = sat_add drained_records (length (batch_payloads batch));
              drained_payload_bytes = sat_add drained_payload_bytes (payload_total (batch_payloads batch))
          in
          if drained_records \<ge> MAX_WRITER_IN_FLIGHT_RECORDS
             \<or> drained_payload_bytes \<ge> MAX_WRITER_IN_FLIGHT_PAYLOAD_BYTES
          then (Inr (), d')
          else case d_queue d' of
              [] \<Rightarrow> (Inr (), d')
            | next # rest \<Rightarrow> drain_loop drained_records drained_payload_bytes next (d'\<lparr> d_queue := rest \<rparr>))"
  by pat_completeness auto
termination
  by (relation "measure (\<lambda>(_, _, _, d). length (d_queue d))")
    (auto simp: admit_submission_def Let_def split: sum.splits prod.splits)

definition drain_queued_commands :: "('t, 'd) writer_command \<Rightarrow> ('t, 'd) drain_state
    \<Rightarrow> (('u, 'j) client_error + unit) \<times> ('t, 'd) drain_state" where
  "drain_queued_commands command d = drain_loop 0 0 command d"

section \<open>Framing under the in-flight window\<close>

text \<open>The framing state: the window, the frame and its payload bytes so far.\<close>

record framing =
  fr_window :: in_flight_window
  fr_frame :: "append_record list"
  fr_bytes :: nat

definition framing_full :: "framing \<Rightarrow> nat \<Rightarrow> bool" where
  "framing_full f payload_bytes \<longleftrightarrow>
     w_records (fr_window f) = MAX_WRITER_IN_FLIGHT_RECORDS
     \<or> w_payload_bytes (fr_window f) + payload_bytes > MAX_WRITER_IN_FLIGHT_PAYLOAD_BYTES
     \<or> length (fr_frame f) = MAX_APPEND_FRAME_RECORDS
     \<or> (fr_frame f \<noteq> [] \<and> payload_bytes > MAX_FRAME_PAYLOAD_BYTES - fr_bytes f)"

definition framing_push :: "append_record \<Rightarrow> framing \<Rightarrow> framing" where
  "framing_push r f =
     \<lparr> fr_window = (fr_window f)\<lparr> w_payload_bytes := w_payload_bytes (fr_window f) + length (ar_data r),
                                  w_records := w_records (fr_window f) + 1 \<rparr>,
       fr_frame = fr_frame f @ [r],
       fr_bytes = fr_bytes f + length (ar_data r) \<rparr>"

text \<open>The inner loop over one submission. \<open>Ok True\<close> is the \<open>return\<close>, \<open>Ok False\<close> the end of the
  submission, \<open>Panic\<close> the underflow of \<open>MAX_FRAME_PAYLOAD_BYTES - frame_bytes\<close>.\<close>

function take_from_submission :: "'t pending_submission \<Rightarrow> framing
    \<Rightarrow> (unit, bool) outcome \<times> 't pending_submission \<times> framing" where
  "take_from_submission s f =
     (if ps_sent s < length (ps_payloads s) then
        let payload_bytes = length (rp_data (ps_payloads s ! ps_sent s)) in
        if fr_bytes f > MAX_FRAME_PAYLOAD_BYTES then (Panic, s, f)
        else if framing_full f payload_bytes then (Ok True, s, f)
        else take_from_submission (s\<lparr> ps_sent := ps_sent s + 1 \<rparr>) (framing_push (submission_record s (ps_sent s)) f)
      else (Ok False, s, f))"
  by pat_completeness auto
termination
  by (relation "measure (\<lambda>(s, _). length (ps_payloads s) - ps_sent s)") auto

declare take_from_submission.simps [simp del]

fun take_frame_loop :: "'t pending_submission list \<Rightarrow> framing
    \<Rightarrow> (unit, unit) outcome \<times> 't pending_submission list \<times> framing" where
  "take_frame_loop [] f = (Ok (), [], f)"
| "take_frame_loop (s # ss) f =
     (case take_from_submission s f of
        (Ok True, s, f) \<Rightarrow> (Ok (), s # ss, f)
      | (Ok False, s, f) \<Rightarrow> (case take_frame_loop ss f of (r, ss, f) \<Rightarrow> (r, s # ss, f))
      | (_, s, f) \<Rightarrow> (Panic, s # ss, f))"

definition take_frame :: "'t pending_submission list \<Rightarrow> in_flight_window
    \<Rightarrow> (unit, append_record list) outcome \<times> 't pending_submission list \<times> in_flight_window" where
  "take_frame pending in_flight =
     (case take_frame_loop pending \<lparr> fr_window = in_flight, fr_frame = [], fr_bytes = 0 \<rparr> of
        (Ok _, pending, f) \<Rightarrow> (Ok (fr_frame f), pending, fr_window f)
      | (_, pending, f) \<Rightarrow> (Panic, pending, fr_window f))"

section \<open>Acknowledgements\<close>

definition ack_record_count :: "append_ack \<Rightarrow> ('u, 'j) client_error + u64" where
  "ack_record_count ack =
     and_then (ok_or (InvalidAppendAck ack) (checked_sub (aa_writer_end_seq_num ack) (aa_writer_start_seq_num ack))) (\<lambda>writer_count.
     and_then (ok_or (InvalidAppendAck ack) (checked_sub (aa_end_seq_num ack) (aa_start_seq_num ack))) (\<lambda>durable_count.
     if writer_count = 0 then Inl (InvalidAppendAck ack)
     else if writer_count \<noteq> durable_count then Inl (InvalidAppendAck ack)
     else Inr writer_count))"

definition validate_ack :: "append_ack \<Rightarrow> ('u, 'j) client_error + append_ack" where
  "validate_ack ack = and_then (ack_record_count ack) (\<lambda>_. Inr ack)"

text \<open>The validation loop: the sequence number reached when it ends.\<close>

fun check_ack_range :: "append_ack \<Rightarrow> u64 \<Rightarrow> 't pending_submission list \<Rightarrow> ('u, 'j) client_error + u64" where
  "check_ack_range ack expected_seq_num [] = Inr expected_seq_num"
| "check_ack_range ack expected_seq_num (s # ss) =
     (let (start, stop) = unacknowledged_range s in
      if \<not> start < stop then check_ack_range ack expected_seq_num ss
      else if start < expected_seq_num then Inl (AppendNotAcknowledged start ack)
      else if start > expected_seq_num then Inl (InvalidAppendAck ack)
      else if aa_writer_end_seq_num ack \<le> stop then Inr (aa_writer_end_seq_num ack)
      else check_ack_range ack stop ss)"

text \<open>\<open>Range<u64>::next\<close>.\<close>

definition range_next :: "u64 \<times> u64 \<Rightarrow> (u64 \<times> (u64 \<times> u64)) option" where
  "range_next r = (case r of (a, b) \<Rightarrow> if a < b then Some (a, (a + 1, b)) else None)"

record ack_progress =
  ap_writer_seq_nums :: "u64 \<times> u64"
  ap_seq_nums :: "u64 \<times> u64"
  ap_remaining :: nat
  ap_window :: in_flight_window

text \<open>The body of the inner loop for one record; \<open>None\<close> is a panic (the counters underflow, or a range
  is exhausted).\<close>

definition ack_one :: "append_ack \<Rightarrow> 't pending_submission \<Rightarrow> ack_progress
    \<Rightarrow> ('t pending_submission \<times> ack_progress) option" where
  "ack_one ack s p =
     (let bytes = length (rp_data (ps_payloads s ! ps_acked s)); w = ap_window p in
      if w_payload_bytes w < bytes \<or> w_records w = 0 then None
      else case (range_next (ap_writer_seq_nums p), range_next (ap_seq_nums p)) of
          (Some (writer_seq_num, writer_seq_nums), Some (seq_num, seq_nums)) \<Rightarrow>
            Some (s\<lparr> ps_receipts := ps_receipts s @ [\<lparr> ac_writer_seq_num = writer_seq_num,
                      ac_seq_num = seq_num, ac_ack = ack \<rparr>],
                     ps_acked := ps_acked s + 1 \<rparr>,
                  \<lparr> ap_writer_seq_nums = writer_seq_nums, ap_seq_nums = seq_nums,
                    ap_remaining = ap_remaining p - 1,
                    ap_window = w\<lparr> w_payload_bytes := w_payload_bytes w - bytes, w_records := w_records w - 1 \<rparr> \<rparr>)
        | _ \<Rightarrow> None)"

lemma ack_one_remaining: "ack_one ack s p = Some (s', p') \<Longrightarrow> ap_remaining p' = ap_remaining p - 1"
  by (auto simp: ack_one_def Let_def split: if_splits option.splits prod.splits)

function ack_submission :: "append_ack \<Rightarrow> 't pending_submission \<Rightarrow> ack_progress
    \<Rightarrow> (unit, 't pending_submission \<times> ack_progress) outcome" where
  "ack_submission ack s p =
     (if ps_acked s < length (ps_payloads s) \<and> ap_remaining p > 0 then
        (case ack_one ack s p of
           None \<Rightarrow> Panic
         | Some (s, p) \<Rightarrow> ack_submission ack s p)
      else Ok (s, p))"
  by pat_completeness auto
termination
  by (relation "measure (\<lambda>(_, s, p). ap_remaining p)") (auto dest: ack_one_remaining)

declare ack_submission.simps [simp del]

lemma ack_submission_done:
  "ack_submission ack s p = Ok (s', p') \<Longrightarrow>
     ap_remaining p' \<le> ap_remaining p \<and> \<not> (ps_acked s' < length (ps_payloads s') \<and> ap_remaining p' > 0)"
proof (induction ack s p arbitrary: s' p' rule: ack_submission.induct)
  case (1 ack s p)
  show ?case
  proof (cases "ps_acked s < length (ps_payloads s) \<and> ap_remaining p > 0")
    case True
    with 1(2) obtain t q where one: "ack_one ack s p = Some (t, q)" and rec: "ack_submission ack t q = Ok (s', p')"
      by (subst (asm) ack_submission.simps) (auto split: option.splits)
    show ?thesis
      using 1(1)[OF True one refl rec] ack_one_remaining[OF one] by (metis diff_le_self le_trans)
  next
    case False
    with 1(2) show ?thesis
      by (subst (asm) ack_submission.simps) auto
  qed
qed

text \<open>The outer loop: the queue left and the tickets resolved. With more records acknowledged than the
  submission has, the loop of the source would not end; that is a \<open>Panic\<close> here, so that excluding
  \<open>Panic\<close> excludes both.\<close>

function apply_ack :: "append_ack \<Rightarrow> 't pending_submission list \<Rightarrow> ack_progress
    \<Rightarrow> (unit, 't pending_submission list \<times> in_flight_window \<times> ('u, 'j, 't) ticket_message list) outcome" where
  "apply_ack ack pending p =
     (if ap_remaining p > 0 then
        case pending of
          [] \<Rightarrow> Panic
        | s # ss \<Rightarrow>
            (case ack_submission ack s p of
               Ok (s, p) \<Rightarrow>
                 if ps_acked s = length (ps_payloads s) then
                   (case apply_ack ack ss p of
                      Ok (pending, w, sent) \<Rightarrow> Ok (pending, w, (ps_ack_tx s, Inr (ps_receipts s)) # sent)
                    | _ \<Rightarrow> Panic)
                 else if ps_acked s > length (ps_payloads s) then Panic
                 else apply_ack ack (s # ss) p
             | _ \<Rightarrow> Panic)
      else Ok (pending, ap_window p, []))"
  by pat_completeness auto
termination
proof (relation "measure (\<lambda>(_, pending, p). length pending + ap_remaining p)", goal_cases)
  case 1
  show ?case by simp
next
  case 2
  then show ?case by (auto dest!: ack_submission_done)
next
  case 3
  then show ?case by (auto dest!: ack_submission_done)
qed

declare apply_ack.simps [simp del]

definition dispatch_ack :: "append_ack \<Rightarrow> 't pending_submission list \<Rightarrow> in_flight_window
    \<Rightarrow> (('u, 'j) client_error, 't pending_submission list \<times> in_flight_window \<times> ('u, 'j, 't) ticket_message list) outcome" where
  "dispatch_ack ack pending in_flight =
     (case ack_record_count ack of
        Inl e \<Rightarrow> Err e
      | Inr count \<Rightarrow>
          let record_count = unat count in
          if record_count > w_records in_flight then Err (InvalidAppendAck ack)
          else case check_ack_range ack (aa_writer_start_seq_num ack) pending of
              Inl e \<Rightarrow> Err e
            | Inr expected_seq_num \<Rightarrow>
                if expected_seq_num \<noteq> aa_writer_end_seq_num ack then Err (InvalidAppendAck ack)
                else case apply_ack ack pending
                    \<lparr> ap_writer_seq_nums = (aa_writer_start_seq_num ack, aa_writer_end_seq_num ack),
                      ap_seq_nums = (aa_start_seq_num ack, aa_end_seq_num ack),
                      ap_remaining = record_count, ap_window = in_flight \<rparr> of
                  Ok result \<Rightarrow> Ok result
                | _ \<Rightarrow> Panic)"

section \<open>Reconnects and failures\<close>

definition rewind_pending :: "'t pending_submission list \<Rightarrow> 't pending_submission list" where
  "rewind_pending pending = map (\<lambda>s. s\<lparr> ps_sent := ps_acked s \<rparr>) pending"

definition fail_pending :: "'t pending_submission list \<Rightarrow> ('u, 'j) client_error \<Rightarrow> ('u, 'j, 't) ticket_message list" where
  "fail_pending pending error = map (\<lambda>s. (ps_ack_tx s, Inl (AppendDurabilityUnknown error))) pending"

definition validate_append_range :: "append_range \<Rightarrow> nat \<Rightarrow> ('u, 'j) client_error + append_range" where
  "validate_append_range rng expected_records =
     (if checked_sub (ag_end_seq_num rng) (ag_start_seq_num rng) \<noteq> Some (of_nat expected_records)
      then Inl (InvalidAppendRange rng) else Inr rng)"


section \<open>The abstract queue\<close>

text \<open>What the submissions hold, as numbered records: all that is retained, what was sent on the current
  connection and not acknowledged, and what is still to be sent.\<close>

definition numbered :: "'t pending_submission \<Rightarrow> append_record list" where
  "numbered s = map (submission_record s) [0..<length (ps_payloads s)]"

definition retained_records :: "'t pending_submission list \<Rightarrow> append_record list" where
  "retained_records pending = concat (map (\<lambda>s. drop (ps_acked s) (numbered s)) pending)"

definition in_flight_records :: "'t pending_submission list \<Rightarrow> append_record list" where
  "in_flight_records pending = concat (map (\<lambda>s. slice (numbered s) (ps_acked s) (ps_sent s)) pending)"

definition unsent_records :: "'t pending_submission list \<Rightarrow> append_record list" where
  "unsent_records pending = concat (map (\<lambda>s. drop (ps_sent s) (numbered s)) pending)"

lemma length_numbered [simp]: "length (numbered s) = length (ps_payloads s)"
  by (simp add: numbered_def)

lemma numbered_update [simp]:
  "numbered (s\<lparr> ps_sent := k \<rparr>) = numbered s"
  "numbered (s\<lparr> ps_acked := k \<rparr>) = numbered s"
  "numbered (s\<lparr> ps_receipts := rs \<rparr>) = numbered s"
  by (simp_all add: numbered_def submission_record_def cong: map_cong)

lemma records_Nil [simp]:
  "retained_records [] = []" "in_flight_records [] = []" "unsent_records [] = []"
  by (simp_all add: retained_records_def in_flight_records_def unsent_records_def)

lemma records_Cons:
  "retained_records (s # ss) = drop (ps_acked s) (numbered s) @ retained_records ss"
  "in_flight_records (s # ss) = slice (numbered s) (ps_acked s) (ps_sent s) @ in_flight_records ss"
  "unsent_records (s # ss) = drop (ps_sent s) (numbered s) @ unsent_records ss"
  by (simp_all add: retained_records_def in_flight_records_def unsent_records_def)

lemma records_append:
  "retained_records (ss @ ts) = retained_records ss @ retained_records ts"
  "in_flight_records (ss @ ts) = in_flight_records ss @ in_flight_records ts"
  "unsent_records (ss @ ts) = unsent_records ss @ unsent_records ts"
  by (simp_all add: retained_records_def in_flight_records_def unsent_records_def)

text \<open>Receipts map writer sequences to durable sequences inside the acknowledged range.\<close>

definition receipt_ok :: "nat \<Rightarrow> append_receipt \<Rightarrow> bool" where
  "receipt_ok n r \<longleftrightarrow> unat (ac_writer_seq_num r) = n
     \<and> unat (aa_writer_start_seq_num (ac_ack r)) \<le> n \<and> n < unat (aa_writer_end_seq_num (ac_ack r))
     \<and> unat (ac_seq_num r) + unat (aa_writer_start_seq_num (ac_ack r)) = unat (aa_start_seq_num (ac_ack r)) + n
     \<and> ac_seq_num r < aa_end_seq_num (ac_ack r)"

definition receipts_ok :: "nat \<Rightarrow> append_receipt list \<Rightarrow> bool" where
  "receipts_ok n rs \<longleftrightarrow> (\<forall>i < length rs. receipt_ok (n + i) (rs ! i))"

lemma receipts_ok_Nil [simp]: "receipts_ok n []"
  by (simp add: receipts_ok_def)

lemma receipts_ok_snoc [simp]: "receipts_ok n (rs @ [r]) \<longleftrightarrow> receipts_ok n rs \<and> receipt_ok (n + length rs) r"
  by (auto simp: receipts_ok_def nth_append less_Suc_eq)

definition wf_submission :: "'t pending_submission \<Rightarrow> bool" where
  "wf_submission s \<longleftrightarrow> ps_acked s < length (ps_payloads s) \<and> ps_acked s \<le> ps_sent s
     \<and> ps_sent s \<le> length (ps_payloads s)
     \<and> (\<forall>p \<in> set (ps_payloads s). length (rp_data p) \<le> MAX_RECORD_PAYLOAD_BYTES)
     \<and> length (ps_receipts s) = ps_acked s \<and> receipts_ok (unat (ps_start_seq_num s)) (ps_receipts s)"

text \<open>Submissions nothing of which is acknowledged, numbered from \<open>n\<close> without a gap up to \<open>c\<close>; and the whole
  queue, whose front may be partly acknowledged.\<close>

fun fresh_chain :: "nat \<Rightarrow> 't pending_submission list \<Rightarrow> nat \<Rightarrow> bool" where
  "fresh_chain n [] c \<longleftrightarrow> n = c"
| "fresh_chain n (s # ss) c \<longleftrightarrow> wf_submission s \<and> unat (ps_start_seq_num s) = n \<and> ps_acked s = 0
     \<and> fresh_chain (n + length (ps_payloads s)) ss c"

fun queue_chain :: "nat \<Rightarrow> 't pending_submission list \<Rightarrow> nat \<Rightarrow> bool" where
  "queue_chain n [] c \<longleftrightarrow> n = c"
| "queue_chain n (s # ss) c \<longleftrightarrow> wf_submission s \<and> unat (ps_start_seq_num s) = n
     \<and> fresh_chain (n + length (ps_payloads s)) ss c"

fun acked_in_front :: "'t pending_submission list \<Rightarrow> nat" where
  "acked_in_front [] = 0"
| "acked_in_front (s # ss) = ps_acked s"

text \<open>The sent markers cover a prefix of the queue.\<close>

fun sent_prefix :: "'t pending_submission list \<Rightarrow> bool" where
  "sent_prefix [] \<longleftrightarrow> True"
| "sent_prefix (s # ss) \<longleftrightarrow> (ps_sent s = length (ps_payloads s) \<and> sent_prefix ss) \<or> (\<forall>t \<in> set ss. ps_sent t = ps_acked t)"

definition records_bytes :: "append_record list \<Rightarrow> nat" where
  "records_bytes rs = sum_list (map (length \<circ> ar_data) rs)"

lemma records_bytes_simps [simp]:
  "records_bytes [] = 0"
  "records_bytes (r # rs) = length (ar_data r) + records_bytes rs"
  "records_bytes (rs @ ss) = records_bytes rs + records_bytes ss"
  by (simp_all add: records_bytes_def)

definition window_ok :: "'t pending_submission list \<Rightarrow> in_flight_window \<Rightarrow> bool" where
  "window_ok pending w \<longleftrightarrow> w_records w = length (in_flight_records pending)
     \<and> w_payload_bytes w = records_bytes (in_flight_records pending)
     \<and> w_records w \<le> MAX_WRITER_IN_FLIGHT_RECORDS
     \<and> w_payload_bytes w \<le> MAX_WRITER_IN_FLIGHT_PAYLOAD_BYTES"

definition queue_inv :: "nat \<Rightarrow> 't pending_submission list \<Rightarrow> in_flight_window \<Rightarrow> u64 \<Rightarrow> bool" where
  "queue_inv n pending w cursor \<longleftrightarrow> queue_chain n pending (unat cursor) \<and> sent_prefix pending \<and> window_ok pending w"

lemma fresh_chain_queue: "fresh_chain n ss c \<Longrightarrow> queue_chain n ss c \<and> acked_in_front ss = 0"
  by (cases ss) auto

lemma sent_prefix_unsent: "(\<forall>t \<in> set ss. ps_sent t = ps_acked t) \<Longrightarrow> sent_prefix ss"
  by (induction ss) auto

lemma in_flight_none: "(\<forall>t \<in> set ss. ps_sent t = ps_acked t) \<Longrightarrow> in_flight_records ss = []"
  by (induction ss) (auto simp: records_Cons slice_def)

lemma chain_wf: "fresh_chain n ss c \<Longrightarrow> s \<in> set ss \<Longrightarrow> wf_submission s \<and> ps_acked s = 0"
  by (induction n ss c rule: fresh_chain.induct) auto

lemma queue_chain_wf: "queue_chain n ss c \<Longrightarrow> s \<in> set ss \<Longrightarrow> wf_submission s"
  by (cases ss) (auto dest: chain_wf)

lemma slice_drop: "a \<le> b \<Longrightarrow> slice xs a b @ drop b xs = drop a xs"
  by (simp add: slice_def) (metis append_take_drop_id drop_drop le_add_diff_inverse2)

text \<open>The retained records are those in flight, then those unsent.\<close>

lemma retained_split:
  assumes "\<And>s. s \<in> set pending \<Longrightarrow> ps_acked s \<le> ps_sent s" "sent_prefix pending"
    and "\<And>s. s \<in> set pending \<Longrightarrow> ps_sent s \<le> length (ps_payloads s)"
  shows "retained_records pending = in_flight_records pending @ unsent_records pending"
  using assms
proof (induction pending)
  case Nil
  then show ?case by simp
next
  case (Cons s ss)
  have head: "drop (ps_acked s) (numbered s) = slice (numbered s) (ps_acked s) (ps_sent s) @ drop (ps_sent s) (numbered s)"
    using Cons.prems(1)[of s] by (simp add: slice_drop)
  show ?case
  proof (cases "\<forall>t \<in> set ss. ps_sent t = ps_acked t")
    case True
    have "retained_records ss = in_flight_records ss @ unsent_records ss"
      by (rule Cons.IH) (simp_all add: Cons.prems sent_prefix_unsent[OF True])
    then show ?thesis
      by (simp add: records_Cons head in_flight_none[OF True])
  next
    case False
    then have "ps_sent s = length (ps_payloads s)" "sent_prefix ss"
      using Cons.prems(2) by auto
    then show ?thesis
      using Cons.IH Cons.prems by (simp add: records_Cons head)
  qed
qed

lemma queue_retained_split:
  "queue_inv n pending w cursor \<Longrightarrow> retained_records pending = in_flight_records pending @ unsent_records pending"
  by (rule retained_split) (auto simp: queue_inv_def wf_submission_def dest: queue_chain_wf)


section \<open>Framing\<close>

lemma framing_push_fields [simp]:
  "fr_frame (framing_push r f) = fr_frame f @ [r]"
  "fr_bytes (framing_push r f) = fr_bytes f + length (ar_data r)"
  "w_records (fr_window (framing_push r f)) = w_records (fr_window f) + 1"
  "w_payload_bytes (fr_window (framing_push r f)) = w_payload_bytes (fr_window f) + length (ar_data r)"
  "w_ack_deadline (fr_window (framing_push r f)) = w_ack_deadline (fr_window f)"
  by (simp_all add: framing_push_def)

lemma fold_framing_push [simp]:
  "fr_frame (fold framing_push rs f) = fr_frame f @ rs"
  "fr_bytes (fold framing_push rs f) = fr_bytes f + records_bytes rs"
  "w_records (fr_window (fold framing_push rs f)) = w_records (fr_window f) + length rs"
  "w_payload_bytes (fr_window (fold framing_push rs f)) = w_payload_bytes (fr_window f) + records_bytes rs"
  "w_ack_deadline (fr_window (fold framing_push rs f)) = w_ack_deadline (fr_window f)"
  by (induction rs arbitrary: f) auto

definition framing_ok :: "framing \<Rightarrow> bool" where
  "framing_ok f \<longleftrightarrow> fr_bytes f = records_bytes (fr_frame f) \<and> fr_bytes f \<le> MAX_FRAME_PAYLOAD_BYTES
     \<and> length (fr_frame f) \<le> MAX_APPEND_FRAME_RECORDS
     \<and> w_records (fr_window f) \<le> MAX_WRITER_IN_FLIGHT_RECORDS
     \<and> w_payload_bytes (fr_window f) \<le> MAX_WRITER_IN_FLIGHT_PAYLOAD_BYTES"

lemma submission_record_data [simp]: "ar_data (submission_record s i) = rp_data (ps_payloads s ! i)"
  by (simp add: submission_record_def Let_def)

lemma submission_record_sent [simp]: "submission_record (s\<lparr> ps_sent := k \<rparr>) = submission_record s"
  by (simp add: submission_record_def fun_eq_iff)

lemma framing_push_ok:
  assumes "framing_ok f" "\<not> framing_full f (length (ar_data r))" "length (ar_data r) \<le> MAX_RECORD_PAYLOAD_BYTES"
  shows "framing_ok (framing_push r f)"
  using assms by (auto simp: framing_ok_def framing_full_def const_defs)

text \<open>The inner loop takes the next records of the submission, as many as fit.\<close>

definition took :: "'t pending_submission \<Rightarrow> framing \<Rightarrow> append_record list
    \<Rightarrow> (unit, bool) outcome \<times> 't pending_submission \<times> framing \<Rightarrow> bool" where
  "took s f rs out \<longleftrightarrow> (case out of (r, s', f') \<Rightarrow>
     s' = s\<lparr> ps_sent := ps_sent s + length rs \<rparr> \<and> ps_sent s' \<le> length (ps_payloads s)
     \<and> slice (numbered s) (ps_sent s) (ps_sent s') = rs \<and> f' = fold framing_push rs f \<and> framing_ok f'
     \<and> (r = Ok False \<and> ps_sent s' = length (ps_payloads s)
        \<or> r = Ok True \<and> ps_sent s' < length (ps_payloads s)
           \<and> framing_full f' (length (rp_data (ps_payloads s ! ps_sent s')))))"

lemma slice_Suc: "a < b \<Longrightarrow> b \<le> length xs \<Longrightarrow> slice xs a b = xs ! a # slice xs (Suc a) b"
  by (simp add: slice_def Cons_nth_drop_Suc[symmetric] take_Cons Suc_diff_Suc[symmetric] split: nat.splits)

lemma slice_self [simp]: "slice xs a a = []"
  by (simp add: slice_def)

lemma numbered_nth [simp]: "i < length (ps_payloads s) \<Longrightarrow> numbered s ! i = submission_record s i"
  by (simp add: numbered_def)

lemma took_Cons:
  assumes "took (s\<lparr> ps_sent := ps_sent s + 1 \<rparr>) (framing_push (submission_record s (ps_sent s)) f) rs (r, s', f')"
    and less: "ps_sent s < length (ps_payloads s)"
  shows "took s f (submission_record s (ps_sent s) # rs) (r, s', f')"
proof -
  define m where "m = Suc (ps_sent s + length rs)"
  have le: "m \<le> length (ps_payloads s)" and rs: "slice (numbered s) (Suc (ps_sent s)) m = rs"
    using assms(1) by (auto simp: took_def m_def)
  have "slice (numbered s) (ps_sent s) m = numbered s ! ps_sent s # slice (numbered s) (Suc (ps_sent s)) m"
    using less le by (intro slice_Suc) (simp_all add: m_def)
  then have "slice (numbered s) (ps_sent s) m = submission_record s (ps_sent s) # rs"
    using less rs by simp
  then show ?thesis
    using assms(1) by (auto simp: took_def m_def)
qed

lemma take_from_submission_took:
  assumes "framing_ok f" "\<forall>p \<in> set (ps_payloads s). length (rp_data p) \<le> MAX_RECORD_PAYLOAD_BYTES"
    and "ps_sent s \<le> length (ps_payloads s)"
  shows "\<exists>rs. took s f rs (take_from_submission s f)"
  using assms
proof (induction s f rule: take_from_submission.induct)
  case (1 s f)
  let ?n = "length (rp_data (ps_payloads s ! ps_sent s))"
  have bytes: "\<not> fr_bytes f > MAX_FRAME_PAYLOAD_BYTES"
    using "1.prems"(1) by (simp add: framing_ok_def)
  show ?case
  proof (cases "ps_sent s < length (ps_payloads s)")
    case False
    then have "take_from_submission s f = (Ok False, s, f)"
      by (subst take_from_submission.simps) simp
    then have "took s f [] (take_from_submission s f)"
      using "1.prems" False by (simp add: took_def)
    then show ?thesis ..
  next
    case less: True
    show ?thesis
    proof (cases "framing_full f ?n")
      case True
      then have "take_from_submission s f = (Ok True, s, f)"
        using less bytes by (subst take_from_submission.simps) (simp add: Let_def)
      then have "took s f [] (take_from_submission s f)"
        using "1.prems" less True by (simp add: took_def)
      then show ?thesis ..
    next
      case False
      let ?s = "s\<lparr> ps_sent := ps_sent s + 1 \<rparr>" and ?f = "framing_push (submission_record s (ps_sent s)) f"
      have ok: "framing_ok ?f"
        using False less "1.prems" by (intro framing_push_ok) auto
      have prems: "\<forall>p \<in> set (ps_payloads ?s). length (rp_data p) \<le> MAX_RECORD_PAYLOAD_BYTES"
        "ps_sent ?s \<le> length (ps_payloads ?s)"
        using "1.prems" less by simp_all
      have "\<exists>rs. took ?s ?f rs (take_from_submission ?s ?f)"
        by (rule "1.IH"[OF less refl bytes False ok prems])
      then obtain rs where rs: "took ?s ?f rs (take_from_submission ?s ?f)" ..
      have step: "take_from_submission s f = take_from_submission ?s ?f"
        using less bytes False by (subst take_from_submission.simps) (simp add: Let_def)
      obtain r s' f' where out: "take_from_submission ?s ?f = (r, s', f')"
        by (cases "take_from_submission ?s ?f")
      have "took s f (submission_record s (ps_sent s) # rs) (r, s', f')"
        using rs unfolding out by (rule took_Cons[OF _ less])
      then show ?thesis
        unfolding step out by blast
    qed
  qed
qed

text \<open>The framing loop moves \<open>rs\<close> from the unsent to the in-flight records.\<close>

definition took_all :: "'t pending_submission list \<Rightarrow> framing \<Rightarrow> append_record list
    \<Rightarrow> 't pending_submission list \<Rightarrow> framing \<Rightarrow> bool" where
  "took_all ss f rs ss' f' \<longleftrightarrow> f' = fold framing_push rs f \<and> framing_ok f'
     \<and> unsent_records ss = rs @ unsent_records ss'
     \<and> in_flight_records ss' = in_flight_records ss @ rs
     \<and> sent_prefix ss'
     \<and> list_all2 (\<lambda>s s'. (\<exists>k. s' = s\<lparr> ps_sent := k \<rparr> \<and> ps_sent s \<le> k \<and> k \<le> length (ps_payloads s))) ss ss'
     \<and> (unsent_records ss' \<noteq> [] \<longrightarrow> framing_full f' (length (ar_data (hd (unsent_records ss')))))"

lemma sent_update_id: "s = s\<lparr> ps_sent := ps_sent s \<rparr>"
  by simp

lemma list_all2_sent_refl:
  assumes "\<And>s. s \<in> set ss \<Longrightarrow> ps_sent s \<le> length (ps_payloads s)"
  shows "list_all2 (\<lambda>s s'. (\<exists>k. s' = s\<lparr> ps_sent := k \<rparr> \<and> ps_sent s \<le> k \<and> k \<le> length (ps_payloads s))) ss ss"
proof (rule list.rel_refl_strong)
  fix s
  assume "s \<in> set ss"
  then show "\<exists>k. s = s\<lparr> ps_sent := k \<rparr> \<and> ps_sent s \<le> k \<and> k \<le> length (ps_payloads s)"
    using assms by (intro exI[of _ "ps_sent s"]) simp
qed

lemma slice_append_slice:
  assumes "a \<le> b" "b \<le> c"
  shows "slice xs a b @ slice xs b c = slice xs a c"
proof -
  have "c - a = (b - a) + (c - b)" "drop (b - a) (drop a xs) = drop b xs"
    using assms by simp_all
  then show ?thesis
    by (simp only: slice_def take_add)
qed


lemma took_all_step:
  assumes head: "took s f rs1 (Ok False, s', f1)" and rest: "took_all ss f1 rs2 ss' f2"
    and pre: "sent_prefix (s # ss)" and acked: "ps_acked s \<le> ps_sent s"
  shows "took_all (s # ss) f (rs1 @ rs2) (s' # ss') f2"
proof -
  have s': "s' = s\<lparr> ps_sent := length (ps_payloads s) \<rparr>" and le: "ps_sent s \<le> length (ps_payloads s)"
    and rs1: "slice (numbered s) (ps_sent s) (length (ps_payloads s)) = rs1" and f1: "f1 = fold framing_push rs1 f"
    using head by (auto simp: took_def)
  have fl: "rs1 @ in_flight_records ss = in_flight_records ss @ rs1"
  proof (cases "ps_sent s = length (ps_payloads s)")
    case True
    with rs1 have "rs1 = []" by simp
    then show ?thesis by simp
  next
    case False
    with pre have "in_flight_records ss = []"
      by (intro in_flight_none) simp
    then show ?thesis by simp
  qed
  have whole: "slice (numbered s) (ps_acked s) (ps_sent s) @ rs1 = slice (numbered s) (ps_acked s) (length (ps_payloads s))"
    using slice_append_slice[OF acked le, of "numbered s"] rs1 by simp
  have drop: "drop (ps_sent s) (numbered s) = rs1"
    using rs1 slice_drop[OF le, of "numbered s"] by simp
  show ?thesis
    using rest s' le f1 fl drop
    by (auto simp: took_all_def records_Cons simp flip: whole)
qed

lemma took_all_return:
  assumes head: "took s f rs (Ok True, s', f')"
    and pre: "sent_prefix (s # ss)" and acked: "ps_acked s \<le> ps_sent s"
    and sent: "\<And>t. t \<in> set ss \<Longrightarrow> ps_sent t \<le> length (ps_payloads t)"
  shows "took_all (s # ss) f rs (s' # ss) f'"
proof -
  define m where "m = ps_sent s + length rs"
  have s': "s' = s\<lparr> ps_sent := m \<rparr>" and less: "m < length (ps_payloads s)" "ps_sent s \<le> m"
    and rs: "slice (numbered s) (ps_sent s) m = rs" and f': "f' = fold framing_push rs f" "framing_ok f'"
    and full: "framing_full f' (length (rp_data (ps_payloads s ! m)))"
    using head by (auto simp: took_def m_def)
  have rest: "\<forall>t \<in> set ss. ps_sent t = ps_acked t"
    using pre less by simp
  have "hd (drop m (numbered s)) = submission_record s m"
    using less by (simp add: hd_drop_conv_nth)
  moreover have "drop (ps_sent s) (numbered s) = rs @ drop m (numbered s)"
    using slice_drop[of "ps_sent s" m "numbered s"] rs less by simp
  moreover have "slice (numbered s) (ps_acked s) m = slice (numbered s) (ps_acked s) (ps_sent s) @ rs"
    using slice_append_slice[of "ps_acked s" "ps_sent s" m "numbered s"] rs less acked by simp
  ultimately show ?thesis
    using s' less f' full rest in_flight_none[OF rest] list_all2_sent_refl[OF sent, of ss]
    by (auto simp: took_all_def records_Cons)
qed

lemma take_frame_loop_took:
  assumes "framing_ok f" "sent_prefix ss" "\<And>s. s \<in> set ss \<Longrightarrow> wf_submission s"
  shows "\<exists>rs ss' f'. take_frame_loop ss f = (Ok (), ss', f') \<and> took_all ss f rs ss' f'"
  using assms
proof (induction ss arbitrary: f)
  case Nil
  then have "took_all [] f [] [] f"
    by (simp add: took_all_def)
  then show ?case by auto
next
  case (Cons s ss)
  have wf: "ps_acked s \<le> ps_sent s" "ps_sent s \<le> length (ps_payloads s)"
    and sizes: "\<forall>p \<in> set (ps_payloads s). length (rp_data p) \<le> MAX_RECORD_PAYLOAD_BYTES"
    using Cons.prems(3)[of s] by (simp_all add: wf_submission_def)
  have rest: "\<And>t. t \<in> set ss \<Longrightarrow> wf_submission t"
    using Cons.prems(3) by simp
  then have sent: "\<And>t. t \<in> set ss \<Longrightarrow> ps_sent t \<le> length (ps_payloads t)"
    by (simp add: wf_submission_def)
  obtain r s' f1 rs where out: "take_from_submission s f = (r, s', f1)" and took: "took s f rs (r, s', f1)"
    using take_from_submission_took[OF Cons.prems(1) sizes wf(2)] by (cases "take_from_submission s f") auto
  then consider "r = Ok False" | "r = Ok True"
    by (auto simp: took_def)
  then show ?case
  proof cases
    case 1
    have "framing_ok f1" and "sent_prefix ss"
      using took Cons.prems(2) in_flight_none by (auto simp: took_def sent_prefix_unsent)
    then obtain rs2 ss' f2 where rec: "take_frame_loop ss f1 = (Ok (), ss', f2)" "took_all ss f1 rs2 ss' f2"
      using Cons.IH rest by blast
    show ?thesis
      using took_all_step[OF took[unfolded 1] rec(2) Cons.prems(2) wf(1)] out rec(1) 1 by auto
  next
    case 2
    show ?thesis
      using took_all_return[OF took[unfolded 2] Cons.prems(2) wf(1) sent] out 2 by auto
  qed
qed


text \<open>Moving sent markers forward keeps everything else.\<close>

abbreviation sent_ahead :: "'t pending_submission \<Rightarrow> 't pending_submission \<Rightarrow> bool" where
  "sent_ahead s s' \<equiv> \<exists>k. s' = s\<lparr> ps_sent := k \<rparr> \<and> ps_sent s \<le> k \<and> k \<le> length (ps_payloads s)"

lemma sent_ahead_wf: "sent_ahead s s' \<Longrightarrow> wf_submission s \<Longrightarrow> wf_submission s'"
  by (auto simp: wf_submission_def)

lemma sent_ahead_chain:
  "list_all2 sent_ahead ss ss' \<Longrightarrow> fresh_chain n ss c \<Longrightarrow> fresh_chain n ss' c"
proof (induction ss ss' arbitrary: n rule: list_all2_induct)
  case (Cons s ss s' ss')
  then have "wf_submission s'"
    by (intro sent_ahead_wf[OF Cons.hyps(1)]) simp
  with Cons show ?case by auto
qed simp

lemma sent_ahead_queue:
  assumes "list_all2 sent_ahead ss ss'" "queue_chain n ss c"
  shows "queue_chain n ss' c \<and> acked_in_front ss' = acked_in_front ss"
proof (cases ss)
  case Nil
  then show ?thesis using assms by simp
next
  case (Cons s ts)
  with assms(1) obtain s' ts' where ss': "ss' = s' # ts'" and s: "sent_ahead s s'" and ts: "list_all2 sent_ahead ts ts'"
    by (auto simp: list_all2_Cons1)
  have "wf_submission s'"
    using assms(2) Cons by (intro sent_ahead_wf[OF s]) simp
  then show ?thesis
    using assms(2) Cons ss' s sent_ahead_chain[OF ts] by auto
qed

lemma sent_ahead_retained: "list_all2 sent_ahead ss ss' \<Longrightarrow> retained_records ss' = retained_records ss"
  by (induction rule: list_all2_induct) (auto simp: records_Cons)

definition submissions :: "'t pending_submission list \<Rightarrow> ('t \<times> record_payload list) list" where
  "submissions pending = map (\<lambda>s. (ps_ack_tx s, ps_payloads s)) pending"

lemma submissions_simps [simp]:
  "submissions [] = []"
  "submissions (s # ss) = (ps_ack_tx s, ps_payloads s) # submissions ss"
  "submissions (ss @ ts) = submissions ss @ submissions ts"
  by (simp_all add: submissions_def)

lemma sent_ahead_submissions: "list_all2 sent_ahead ss ss' \<Longrightarrow> submissions ss' = submissions ss"
  by (induction rule: list_all2_induct) auto

section \<open>Sequence numbers\<close>

text \<open>Payloads numbered consecutively.\<close>

definition number_records :: "nat \<Rightarrow> record_payload list \<Rightarrow> append_record list" where
  "number_records n payloads = map (\<lambda>(i, p). \<lparr> ar_writer_seq_num = of_nat i, ar_part = rp_part p, ar_data = rp_data p \<rparr>)
     (enumerate n payloads)"

lemma length_number_records [simp]: "length (number_records n ps) = length ps"
  by (simp add: number_records_def)

lemma number_records_Nil [simp]: "number_records n [] = []"
  by (simp add: number_records_def)

lemma number_records_append:
  "number_records n (ps @ qs) = number_records n ps @ number_records (n + length ps) qs"
  by (simp add: number_records_def enumerate_append_eq)

lemma drop_number_records:
  "k \<le> length ps \<Longrightarrow> drop k (number_records n ps) = number_records (n + k) (drop k ps)"
  using number_records_append[of n "take k ps" "drop k ps"] by (simp add: min_def)

lemma numbered_number_records: "numbered s = number_records (unat (ps_start_seq_num s)) (ps_payloads s)"
  by (rule nth_equalityI)
    (simp_all add: number_records_def submission_record_def nth_enumerate_eq Let_def)

lemma fresh_chain_le: "fresh_chain n ss c \<Longrightarrow> n \<le> c"
  by (induction n ss c rule: fresh_chain.induct) auto

lemma queue_chain_front: "queue_chain n (s # ss) c \<Longrightarrow> n + length (ps_payloads s) \<le> c"
  using fresh_chain_le by auto

lemma fresh_chain_retained:
  "fresh_chain n ss c \<Longrightarrow> retained_records ss = number_records n (concat (map ps_payloads ss))
     \<and> n + length (concat (map ps_payloads ss)) = c"
  by (induction n ss c rule: fresh_chain.induct)
    (auto simp: records_Cons numbered_number_records number_records_append)

text \<open>All the records of the queue, acknowledged or not, are its payloads numbered from \<open>n\<close>; the retained ones
  are those from the acknowledged point on.\<close>

lemma queue_chain_retained:
  assumes "queue_chain n pending c"
  shows "retained_records pending = drop (acked_in_front pending) (number_records n (concat (map ps_payloads pending)))
     \<and> n + length (concat (map ps_payloads pending)) = c
     \<and> acked_in_front pending \<le> length (concat (map ps_payloads pending))"
proof (cases pending)
  case Nil
  with assms show ?thesis by simp
next
  case (Cons s ss)
  with assms have fresh: "fresh_chain (n + length (ps_payloads s)) ss c" and s: "unat (ps_start_seq_num s) = n"
    and le: "ps_acked s \<le> length (ps_payloads s)"
    by (auto simp: wf_submission_def)
  show ?thesis
    using fresh_chain_retained[OF fresh] s le Cons
    by (simp add: records_Cons numbered_number_records number_records_append)
qed

lemma queue_chain_length:
  "queue_chain n pending c \<Longrightarrow> length (retained_records pending) = c - (n + acked_in_front pending)
     \<and> n + acked_in_front pending \<le> c"
  using queue_chain_retained[of n pending c] by auto

lemma retained_size:
  assumes "queue_chain n pending c" "r \<in> set (retained_records pending)"
  shows "length (ar_data r) \<le> MAX_RECORD_PAYLOAD_BYTES"
proof -
  obtain s where "s \<in> set pending" and r: "r \<in> set (drop (ps_acked s) (numbered s))"
    using assms(2) by (auto simp: retained_records_def)
  moreover have "r \<in> set (numbered s)"
    by (rule in_set_dropD[OF r])
  ultimately have "wf_submission s" "\<exists>i < length (ps_payloads s). r = submission_record s i"
    using assms(1) by (auto dest: queue_chain_wf simp: numbered_def)
  then show ?thesis
    by (auto simp: wf_submission_def)
qed

lemma number_records_seq:
  assumes "r \<in> set (number_records n ps)"
  shows "\<exists>i. n \<le> i \<and> i < n + length ps \<and> ar_writer_seq_num r = of_nat i"
proof -
  obtain k where "k < length ps" "r = number_records n ps ! k"
    using assms by (auto simp: in_set_conv_nth)
  then show ?thesis
    by (intro exI[of _ "n + k"]) (simp add: number_records_def nth_enumerate_eq)
qed

lemma retained_valid:
  assumes "queue_chain n pending (unat (cursor :: u64))" "r \<in> set (retained_records pending)"
  shows "valid_append_record r"
proof -
  have "r \<in> set (number_records n (concat (map ps_payloads pending)))"
    using queue_chain_retained[OF assms(1)] assms(2) by (auto dest: in_set_dropD)
  then obtain i where i: "i < unat cursor" "ar_writer_seq_num r = of_nat i"
    using number_records_seq queue_chain_retained[OF assms(1)] by fastforce
  then have "Suc i < 2 ^ 64"
    using unat_lt[of cursor] by simp
  then have "unat (of_nat i :: u64) \<noteq> unat (- 1 :: u64)"
    by (simp add: unat_of_nat unsigned_minus_1_eq_mask mask_eq_exp_minus_1)
  then have "ar_writer_seq_num r \<noteq> - 1"
    using i by auto
  then show ?thesis
    using retained_size[OF assms] by (simp add: valid_append_record_def)
qed

section \<open>What the operations do to the queue\<close>

lemma take_frame_queue:
  assumes "queue_inv n pending w cursor"
  obtains rs pending' w' where "take_frame pending w = (Ok rs, pending', w')"
    "queue_inv n pending' w' cursor" "unsent_records pending = rs @ unsent_records pending'"
    "in_flight_records pending' = in_flight_records pending @ rs"
    "retained_records pending' = retained_records pending"
    "acked_in_front pending' = acked_in_front pending" "submissions pending' = submissions pending"
    "w_ack_deadline w' = w_ack_deadline w"
    "rs \<noteq> [] \<Longrightarrow> append_bounds rs" "rs = [] \<Longrightarrow> unsent_records pending' = [] \<or> in_flight_records pending' \<noteq> []"
proof -
  have chain: "queue_chain n pending (unat cursor)" and pre: "sent_prefix pending" and w: "window_ok pending w"
    using assms by (auto simp: queue_inv_def)
  let ?f = "\<lparr> fr_window = w, fr_frame = [], fr_bytes = 0 \<rparr>"
  have "framing_ok ?f"
    using w by (simp add: framing_ok_def window_ok_def)
  then obtain rs pending' f where loop: "take_frame_loop pending ?f = (Ok (), pending', f)"
    and took: "took_all pending ?f rs pending' f"
    using take_frame_loop_took[OF _ pre] queue_chain_wf[OF chain] by blast
  have ahead: "list_all2 sent_ahead pending pending'" and f: "f = fold framing_push rs ?f" and ok: "framing_ok f"
    and unsent: "unsent_records pending = rs @ unsent_records pending'"
    and flight: "in_flight_records pending' = in_flight_records pending @ rs"
    and full: "unsent_records pending' \<noteq> [] \<Longrightarrow> framing_full f (length (ar_data (hd (unsent_records pending'))))"
    and pre': "sent_prefix pending'"
    using took by (auto simp: took_all_def)
  have chain': "queue_chain n pending' (unat cursor)" and front: "acked_in_front pending' = acked_in_front pending"
    using sent_ahead_queue[OF ahead chain] by auto
  have inv: "queue_inv n pending' (fr_window f) cursor"
    using chain' pre' ok w flight by (auto simp: queue_inv_def window_ok_def framing_ok_def f)
  have valid: "\<forall>r \<in> set rs. valid_append_record r"
    using retained_valid[OF chain] queue_retained_split[OF assms] unsent by auto
  have bounds: "append_bounds rs" if "rs \<noteq> []"
    using ok valid that by (simp add: append_bounds_def framing_ok_def f records_bytes_def)
  have empty: "unsent_records pending' = [] \<or> in_flight_records pending' \<noteq> []" if "rs = []"
  proof (rule disjCI)
    assume idle: "\<not> in_flight_records pending' \<noteq> []"
    show "unsent_records pending' = []"
    proof (rule ccontr)
      assume ne: "unsent_records pending' \<noteq> []"
      have "hd (unsent_records pending') \<in> set (retained_records pending')"
        using queue_retained_split[OF inv] ne by simp
      then have "length (ar_data (hd (unsent_records pending'))) \<le> MAX_RECORD_PAYLOAD_BYTES"
        by (rule retained_size[OF chain'])
      moreover have "w_records w = 0" "w_payload_bytes w = 0"
        using w idle flight by (auto simp: window_ok_def)
      ultimately show False
        using full[OF ne] that by (simp add: f framing_full_def const_defs)
    qed
  qed
  have frame: "take_frame pending w = (Ok rs, pending', fr_window f)"
    using loop f by (simp add: take_frame_def)
  show thesis
    by (rule that[OF frame inv unsent flight sent_ahead_retained[OF ahead] front
          sent_ahead_submissions[OF ahead] _ bounds empty]) (simp_all add: f)
qed


text \<open>A valid acknowledgement covers \<open>ack_count\<close> records; \<open>progress_at\<close> is the loop state after \<open>j\<close> of them.\<close>

definition ack_count :: "append_ack \<Rightarrow> nat" where
  "ack_count ack = unat (aa_writer_end_seq_num ack) - unat (aa_writer_start_seq_num ack)"

definition valid_ack :: "append_ack \<Rightarrow> bool" where
  "valid_ack ack \<longleftrightarrow> 0 < ack_count ack
     \<and> unat (aa_start_seq_num ack) + ack_count ack = unat (aa_end_seq_num ack)"

lemma ack_record_count_Inr:
  "ack_record_count ack = Inr k \<longleftrightarrow> valid_ack ack \<and> unat k = ack_count ack"
proof -
  let ?a = "aa_writer_start_seq_num ack" and ?b = "aa_writer_end_seq_num ack"
    and ?c = "aa_start_seq_num ack" and ?d = "aa_end_seq_num ack"
  have "ack_record_count ack = Inr k \<longleftrightarrow> ?a \<le> ?b \<and> ?c \<le> ?d \<and> ?b - ?a = k \<and> k \<noteq> 0 \<and> ?d - ?c = k"
    by (auto simp: ack_record_count_def and_then_eq_Inr checked_sub_def)
  also have "\<dots> \<longleftrightarrow> valid_ack ack \<and> unat k = ack_count ack"
    by (auto simp: valid_ack_def ack_count_def word_le_nat_alt unat_sub word_unat_eq_iff)
  finally show ?thesis .
qed

lemma ack_record_count_cases:
  obtains k where "ack_record_count ack = (Inr k :: ('u, 'j) client_error + u64)" "valid_ack ack" "unat k = ack_count ack"
  | e where "ack_record_count ack = (Inl e :: ('u, 'j) client_error + u64)" "\<not> valid_ack ack"
proof (cases "ack_record_count ack :: ('u, 'j) client_error + u64")
  case (Inl e)
  have "\<not> valid_ack ack"
  proof
    assume valid: "valid_ack ack"
    have "unat (of_nat (ack_count ack) :: u64) = ack_count ack"
      using unat_lt[of "aa_writer_end_seq_num ack"] by (simp add: unat_of_nat ack_count_def)
    then have "ack_record_count ack = (Inr (of_nat (ack_count ack)) :: ('u, 'j) client_error + u64)"
      using valid by (simp add: ack_record_count_Inr)
    with Inl show False by simp
  qed
  with Inl that(2) show thesis by blast
next
  case (Inr k)
  have "valid_ack ack \<and> unat k = ack_count ack"
    by (rule iffD1[OF ack_record_count_Inr Inr])
  with Inr that(1) show thesis by blast
qed

definition progress_at :: "append_ack \<Rightarrow> nat \<Rightarrow> in_flight_window \<Rightarrow> ack_progress" where
  "progress_at ack j w =
     \<lparr> ap_writer_seq_nums = (aa_writer_start_seq_num ack + of_nat j, aa_writer_end_seq_num ack),
       ap_seq_nums = (aa_start_seq_num ack + of_nat j, aa_end_seq_num ack),
       ap_remaining = ack_count ack - j, ap_window = w \<rparr>"

definition ack_receipt :: "append_ack \<Rightarrow> nat \<Rightarrow> append_receipt" where
  "ack_receipt ack j = \<lparr> ac_writer_seq_num = aa_writer_start_seq_num ack + of_nat j,
     ac_seq_num = aa_start_seq_num ack + of_nat j, ac_ack = ack \<rparr>"

definition window_release :: "append_record list \<Rightarrow> in_flight_window \<Rightarrow> in_flight_window" where
  "window_release rs w = w\<lparr> w_payload_bytes := w_payload_bytes w - records_bytes rs, w_records := w_records w - length rs \<rparr>"

lemma window_release_simps [simp]:
  "window_release [] w = w"
  "window_release rs (window_release qs w) = window_release (qs @ rs) w"
  "w_records (window_release rs w) = w_records w - length rs"
  "w_payload_bytes (window_release rs w) = w_payload_bytes w - records_bytes rs"
  "w_ack_deadline (window_release rs w) = w_ack_deadline w"
  by (simp_all add: window_release_def)

lemma unat_add_small: "unat a + j < 2 ^ 64 \<Longrightarrow> unat (a + of_nat j :: u64) = unat a + j"
  by (simp add: unat_word_ariths unat_of_nat mod_add_right_eq)

lemma ack_seqs:
  assumes "valid_ack ack" "j < ack_count ack"
  shows "unat (aa_writer_start_seq_num ack + of_nat j) = unat (aa_writer_start_seq_num ack) + j"
    "unat (aa_start_seq_num ack + of_nat j) = unat (aa_start_seq_num ack) + j"
    "aa_writer_start_seq_num ack + of_nat j < aa_writer_end_seq_num ack"
    "aa_start_seq_num ack + of_nat j < aa_end_seq_num ack"
proof -
  have less: "unat (aa_writer_start_seq_num ack) + j < unat (aa_writer_end_seq_num ack)"
    "unat (aa_start_seq_num ack) + j < unat (aa_end_seq_num ack)"
    using assms by (auto simp: valid_ack_def ack_count_def)
  then show u: "unat (aa_writer_start_seq_num ack + of_nat j) = unat (aa_writer_start_seq_num ack) + j"
    "unat (aa_start_seq_num ack + of_nat j) = unat (aa_start_seq_num ack) + j"
    using unat_lt[of "aa_writer_end_seq_num ack"] unat_lt[of "aa_end_seq_num ack"]
    by (auto intro!: unat_add_small)
  show "aa_writer_start_seq_num ack + of_nat j < aa_writer_end_seq_num ack"
    "aa_start_seq_num ack + of_nat j < aa_end_seq_num ack"
    using u less by (simp_all add: word_less_nat_alt)
qed

lemma ack_receipt_ok:
  assumes "valid_ack ack" "j < ack_count ack"
  shows "receipt_ok (unat (aa_writer_start_seq_num ack) + j) (ack_receipt ack j)"
  using ack_seqs[OF assms] assms(2) by (auto simp: receipt_ok_def ack_receipt_def ack_count_def)

definition ack_upto :: "append_ack \<Rightarrow> nat \<Rightarrow> nat \<Rightarrow> 't pending_submission \<Rightarrow> 't pending_submission" where
  "ack_upto ack j k s = s\<lparr> ps_receipts := ps_receipts s @ map (ack_receipt ack) [j..<j + k], ps_acked := ps_acked s + k \<rparr>"

lemma ack_upto_Suc: "ack_upto ack (Suc j) k (ack_upto ack j (Suc 0) s) = ack_upto ack j (Suc k) s"
proof -
  have "[j..<j + Suc k] = j # [Suc j..<Suc j + k]"
    by (simp add: upt_conv_Cons del: upt_Suc)
  moreover have "[j..<Suc j] = [j]"
    by simp
  ultimately show ?thesis
    by (simp add: ack_upto_def del: upt_Suc)
qed

lemma ack_upto_0 [simp]: "ack_upto ack j 0 s = s"
  by (simp add: ack_upto_def)

lemma ack_upto_fields [simp]:
  "ps_acked (ack_upto ack j k s) = ps_acked s + k"
  "ps_payloads (ack_upto ack j k s) = ps_payloads s"
  "ps_sent (ack_upto ack j k s) = ps_sent s"
  "ps_start_seq_num (ack_upto ack j k s) = ps_start_seq_num s"
  "ps_ack_tx (ack_upto ack j k s) = ps_ack_tx s"
  "numbered (ack_upto ack j k s) = numbered s"
  "ps_receipts (ack_upto ack j k s) = ps_receipts s @ map (ack_receipt ack) [j..<j + k]"
  by (simp_all add: ack_upto_def)

lemma ack_one_step:
  assumes "valid_ack ack" "j < ack_count ack" "length (rp_data (ps_payloads s ! ps_acked s)) \<le> w_payload_bytes w"
    and "0 < w_records w"
  shows "ack_one ack s (progress_at ack j w)
    = Some (ack_upto ack j 1 s, progress_at ack (Suc j) (window_release [submission_record s (ps_acked s)] w))"
  using ack_seqs[OF assms(1,2)] assms(3,4)
  by (simp add: ack_one_def progress_at_def range_next_def ack_upto_def ack_receipt_def window_release_def algebra_simps)

lemma ack_submission_run:
  assumes "valid_ack ack" "j + k \<le> ack_count ack" "ps_acked s + k \<le> length (ps_payloads s)"
    and "j + k = ack_count ack \<or> ps_acked s + k = length (ps_payloads s)"
    and "records_bytes (slice (numbered s) (ps_acked s) (ps_acked s + k)) \<le> w_payload_bytes w" "k \<le> w_records w"
  shows "ack_submission ack s (progress_at ack j w)
    = Ok (ack_upto ack j k s, progress_at ack (j + k) (window_release (slice (numbered s) (ps_acked s) (ps_acked s + k)) w))"
  using assms(2-)
proof (induction k arbitrary: j s w)
  case 0
  then show ?case
    by (subst ack_submission.simps) (auto simp: progress_at_def)
next
  case (Suc k)
  let ?r = "submission_record s (ps_acked s)"
  have slice: "slice (numbered s) (ps_acked s) (ps_acked s + Suc k)
      = ?r # slice (numbered s) (Suc (ps_acked s)) (Suc (ps_acked s) + k)"
    using Suc.prems(2) slice_Suc[of "ps_acked s" "ps_acked s + Suc k" "numbered s"] by simp
  have one: "ack_one ack s (progress_at ack j w) = Some (ack_upto ack j 1 s, progress_at ack (Suc j) (window_release [?r] w))"
    using Suc.prems slice by (intro ack_one_step assms(1)) auto
  have step: "ack_submission ack s (progress_at ack j w)
      = ack_submission ack (ack_upto ack j 1 s) (progress_at ack (Suc j) (window_release [?r] w))"
    using Suc.prems one by (subst ack_submission.simps) (simp add: progress_at_def)
  show ?case
    unfolding step
    using Suc.IH[of "Suc j" "ack_upto ack j 1 s" "window_release [?r] w"] Suc.prems slice
    by (simp add: ack_upto_Suc)
qed


text \<open>Tickets are resolved in submission order, each with one receipt per record.\<close>

fun resolved_ok :: "nat \<Rightarrow> ('t \<times> record_payload list) list \<Rightarrow> ('u, 'j, 't) ticket_message list \<Rightarrow> bool" where
  "resolved_ok n [] [] \<longleftrightarrow> True"
| "resolved_ok n ((t, payloads) # subs) ((t', result) # msgs) \<longleftrightarrow> t' = t
     \<and> (\<exists>receipts. result = Inr receipts \<and> length receipts = length payloads \<and> receipts_ok n receipts)
     \<and> resolved_ok (n + length payloads) subs msgs"
| "resolved_ok n _ _ \<longleftrightarrow> False"

definition records_of :: "('t \<times> record_payload list) list \<Rightarrow> nat" where
  "records_of subs = sum_list (map (length \<circ> snd) subs)"

lemma records_of_simps [simp]:
  "records_of [] = 0" "records_of (s # subs) = length (snd s) + records_of subs"
  "records_of (as @ bs) = records_of as + records_of bs"
  by (simp_all add: records_of_def)

lemma resolved_ok_append:
  "resolved_ok n as ms \<Longrightarrow> resolved_ok (n + records_of as) bs ks \<Longrightarrow> resolved_ok n (as @ bs) (ms @ ks)"
  by (induction n as ms rule: resolved_ok.induct) (auto simp: add.assoc)

lemma receipts_ok_append: "receipts_ok n (as @ bs) \<longleftrightarrow> receipts_ok n as \<and> receipts_ok (n + length as) bs"
proof (induction bs rule: rev_induct)
  case (snoc b bs)
  then show ?case
    by (simp only: append_assoc[symmetric] receipts_ok_snoc) (auto simp: add.assoc)
qed simp

lemma receipts_ok_ack:
  assumes "valid_ack ack" "j + k \<le> ack_count ack" "n = unat (aa_writer_start_seq_num ack) + j"
  shows "receipts_ok n (map (ack_receipt ack) [j..<j + k])"
  using ack_receipt_ok[OF assms(1), of "j + _"] assms(2,3) by (auto simp: receipts_ok_def add.assoc)

text \<open>The state after the loop: \<open>done\<close> are the submissions resolved, the first \<open>k\<close> records in flight are gone.\<close>

definition acked_by :: "nat \<Rightarrow> 't pending_submission list \<Rightarrow> in_flight_window \<Rightarrow> nat \<Rightarrow> nat
    \<Rightarrow> 't pending_submission list \<Rightarrow> in_flight_window \<Rightarrow> ('u, 'j, 't) ticket_message list \<Rightarrow> bool" where
  "acked_by n pending w c k pending' w' msgs \<longleftrightarrow> (\<exists>done.
     submissions pending = done @ submissions pending' \<and> resolved_ok n done msgs
     \<and> queue_chain (n + records_of done) pending' c \<and> sent_prefix pending'
     \<and> n + records_of done + acked_in_front pending' = n + acked_in_front pending + k
     \<and> in_flight_records pending' = drop k (in_flight_records pending)
     \<and> unsent_records pending' = unsent_records pending
     \<and> w' = window_release (take k (in_flight_records pending)) w)"

lemma records_bytes_take: "records_bytes (take k rs) \<le> records_bytes rs"
  by (metis append_take_drop_id le_add1 records_bytes_simps(3))

lemma apply_ack_done:
  "apply_ack ack pending (progress_at ack (ack_count ack) w) = Ok (pending, w, [])"
  by (subst apply_ack.simps) (simp add: progress_at_def)

lemma sent_prefix_tail:
  "sent_prefix (s # ss) \<Longrightarrow> sent_prefix ss"
  using sent_prefix_unsent by auto

lemma sent_covers:
  assumes "sent_prefix (s # ss)" "wf_submission s" "R \<le> length (in_flight_records (s # ss))"
  shows "ps_sent s = length (ps_payloads s) \<or> ps_acked s + R \<le> ps_sent s"
proof (cases "ps_sent s = length (ps_payloads s)")
  case False
  then have "in_flight_records ss = []"
    using assms(1) by (intro in_flight_none) simp
  then show ?thesis
    using assms(2,3) by (auto simp: records_Cons wf_submission_def)
qed simp

text \<open>The acknowledgement ends inside the front submission.\<close>

lemma apply_ack_inside:
  fixes s :: "'t pending_submission"
  assumes "valid_ack ack" and wf: "wf_submission s" "sent_prefix (s # ss)" "queue_chain n (s # ss) c"
    and posn: "n + ps_acked s = unat (aa_writer_start_seq_num ack) + j" and R: "0 < R" "j + R = ack_count ack"
    and inside: "ps_acked s + R < length (ps_payloads s)" "ps_acked s + R \<le> ps_sent s"
    and room: "length (in_flight_records (s # ss)) \<le> w_records w" "records_bytes (in_flight_records (s # ss)) \<le> w_payload_bytes w"
  shows "\<exists>pending' w' msgs. apply_ack ack (s # ss) (progress_at ack j w) = Ok (pending', w', msgs :: ('u, 'j, 't) ticket_message list)
     \<and> acked_by n (s # ss) w c R pending' w' msgs"
proof -
  let ?fl = "in_flight_records (s # ss)"
  have start: "unat (ps_start_seq_num s) = n" and fresh: "fresh_chain (n + length (ps_payloads s)) ss c"
    using wf(3) by auto
  have mine: "length (slice (numbered s) (ps_acked s) (ps_sent s)) = ps_sent s - ps_acked s"
    using wf(1) by (auto simp: wf_submission_def)
  have taken: "take R ?fl = slice (numbered s) (ps_acked s) (ps_acked s + R)"
  proof -
    have "take R ?fl = take R (slice (numbered s) (ps_acked s) (ps_sent s))"
      using inside mine by (simp add: records_Cons del: length_slice)
    then show ?thesis
      using inside by (simp add: slice_def)
  qed
  have dropped: "drop R (slice (numbered s) (ps_acked s) (ps_sent s)) = slice (numbered s) (ps_acked s + R) (ps_sent s)"
    using inside by (simp add: slice_def drop_take add.commute)
  have len: "R \<le> length ?fl"
    using inside mine by (simp add: records_Cons)
  have run: "ack_submission ack s (progress_at ack j w)
      = Ok (ack_upto ack j R s, progress_at ack (j + R) (window_release (take R ?fl) w))"
    unfolding taken using R inside room len records_bytes_take[of R ?fl]
    by (intro ack_submission_run assms(1)) (simp_all flip: taken)
  have wf': "wf_submission (ack_upto ack j R s)"
    using wf(1) inside receipts_ok_ack[OF assms(1), of j R "n + ps_acked s"] R posn start
    by (simp add: wf_submission_def receipts_ok_append del: upt_Suc)
  have step: "apply_ack ack (s # ss) (progress_at ack j w)
      = apply_ack ack (ack_upto ack j R s # ss) (progress_at ack (ack_count ack) (window_release (take R ?fl) w))"
    using R inside run by (subst apply_ack.simps) (simp add: progress_at_def)
  have "acked_by n (s # ss) w c R (ack_upto ack j R s # ss) (window_release (take R ?fl) w) ([] :: ('u, 'j, 't) ticket_message list)"
    unfolding acked_by_def using wf' start fresh wf(2) inside mine dropped
    by (intro exI[of _ "[]"]) (auto simp: records_Cons)
  then show ?thesis
    unfolding step apply_ack_done by blast
qed

text \<open>The acknowledgement covers the rest of the front submission, which is resolved.\<close>

lemma apply_ack_over:
  fixes s :: "'t pending_submission"
  assumes "valid_ack ack" and wf: "wf_submission s" "queue_chain n (s # ss) c" "ps_sent s = length (ps_payloads s)"
    and posn: "n + ps_acked s = unat (aa_writer_start_seq_num ack) + j" and R: "0 < R" "j + R = ack_count ack"
    and K: "ps_acked s + K = length (ps_payloads s)" "K \<le> R"
    and room: "length (in_flight_records (s # ss)) \<le> w_records w" "records_bytes (in_flight_records (s # ss)) \<le> w_payload_bytes w"
    and mine: "mine = slice (numbered s) (ps_acked s) (ps_sent s)"
    and rec: "apply_ack ack ss (progress_at ack (j + K) (window_release mine w)) = Ok (pending', w', msgs :: ('u, 'j, 't) ticket_message list)"
    and tail: "acked_by (n + length (ps_payloads s)) ss (window_release mine w) c (R - K) pending' w' msgs"
  shows "\<exists>pending' w' msgs. apply_ack ack (s # ss) (progress_at ack j w) = Ok (pending', w', msgs :: ('u, 'j, 't) ticket_message list)
     \<and> acked_by n (s # ss) w c R pending' w' msgs"
proof -
  have mine_K: "slice (numbered s) (ps_acked s) (ps_acked s + K) = mine" "length mine = K"
    using K wf(3) by (auto simp: mine)
  have flight: "in_flight_records (s # ss) = mine @ in_flight_records ss"
    by (simp add: records_Cons mine)
  have front: "acked_in_front ss = 0" and start: "unat (ps_start_seq_num s) = n"
    using wf(2) fresh_chain_queue by auto
  have run: "ack_submission ack s (progress_at ack j w) = Ok (ack_upto ack j K s, progress_at ack (j + K) (window_release mine w))"
    using ack_submission_run[OF assms(1), of j K s w] room R K mine_K by (simp add: flight)
  let ?msg = "(ps_ack_tx s, Inr (ps_receipts (ack_upto ack j K s)) :: ('u, 'j) client_error + append_receipt list)"
  have receipts: "receipts_ok n (ps_receipts (ack_upto ack j K s))" "length (ps_receipts (ack_upto ack j K s)) = length (ps_payloads s)"
    using receipts_ok_ack[OF assms(1), of j K "n + ps_acked s"] R K posn wf(1) start
    by (simp_all add: wf_submission_def receipts_ok_append del: upt_Suc)
  have step: "apply_ack ack (s # ss) (progress_at ack j w) = Ok (pending', w', ?msg # msgs)"
    using R K run rec by (subst apply_ack.simps) (simp add: progress_at_def del: upt_Suc)
  obtain gone where gone: "submissions ss = gone @ submissions pending'" "resolved_ok (n + length (ps_payloads s)) gone msgs"
    "queue_chain (n + length (ps_payloads s) + records_of gone) pending' c" "sent_prefix pending'"
    "n + length (ps_payloads s) + records_of gone + acked_in_front pending' = n + length (ps_payloads s) + (R - K)"
    "in_flight_records pending' = drop (R - K) (in_flight_records ss)" "unsent_records pending' = unsent_records ss"
    "w' = window_release (take (R - K) (in_flight_records ss)) (window_release mine w)"
    using tail front unfolding acked_by_def by auto
  have "acked_by n (s # ss) w c R pending' w' (?msg # msgs)"
    unfolding acked_by_def
    using gone receipts mine_K K wf(3)
    by (intro exI[of _ "(ps_ack_tx s, ps_payloads s) # gone"])
      (simp add: flight records_Cons(3) add.assoc del: ack_upto_fields)
  then show ?thesis
    unfolding step by blast
qed

lemma apply_ack_run:
  fixes pending :: "'t pending_submission list"
  assumes "valid_ack ack" "queue_chain n pending c" "sent_prefix pending"
    and "n + acked_in_front pending = unat (aa_writer_start_seq_num ack) + j" "j + R = ack_count ack"
    and "R \<le> length (in_flight_records pending)"
    and "length (in_flight_records pending) \<le> w_records w" "records_bytes (in_flight_records pending) \<le> w_payload_bytes w"
  shows "\<exists>pending' w' msgs. apply_ack ack pending (progress_at ack j w) = Ok (pending', w', msgs :: ('u, 'j, 't) ticket_message list)
     \<and> acked_by n pending w c R pending' w' msgs"
proof (cases "R = 0")
  case True
  have "acked_by n pending w c 0 pending w ([] :: ('u, 'j, 't) ticket_message list)"
    using assms(2,3) unfolding acked_by_def by (intro exI[of _ "[]"]) simp
  then show ?thesis
    using apply_ack_done[of ack pending w] True assms(5) by auto
next
  case False
  then show ?thesis
    using assms(2-)
  proof (induction pending arbitrary: n j w R)
    case Nil
    then show ?case by simp
  next
    case (Cons s ss)
    have wf: "wf_submission s" and posn: "n + ps_acked s = unat (aa_writer_start_seq_num ack) + j"
      using Cons.prems(2,4) by auto
    show ?case
    proof (cases "ps_acked s + R < length (ps_payloads s)")
      case True
      then have "ps_acked s + R \<le> ps_sent s"
        using sent_covers[OF Cons.prems(3) wf Cons.prems(6)] by auto
      then show ?thesis
        using apply_ack_inside[OF assms(1) wf Cons.prems(3,2) posn] Cons.prems True by blast
    next
      case False
      define K where "K = length (ps_payloads s) - ps_acked s"
      have K: "ps_acked s + K = length (ps_payloads s)" "K \<le> R"
        using False wf by (auto simp: K_def wf_submission_def)
      have sent: "ps_sent s = length (ps_payloads s)"
        using sent_covers[OF Cons.prems(3) wf Cons.prems(6)] False wf by (auto simp: wf_submission_def)
      let ?mine = "slice (numbered s) (ps_acked s) (ps_sent s)"
      have tail: "queue_chain (n + length (ps_payloads s)) ss c" "acked_in_front ss = 0" "sent_prefix ss"
        using Cons.prems(2) fresh_chain_queue[of _ ss c] sent_prefix_tail[OF Cons.prems(3)] by auto
      have flight: "in_flight_records (s # ss) = ?mine @ in_flight_records ss" "length ?mine = K"
        using sent K by (auto simp: records_Cons)
      obtain pending' w' msgs where
        "apply_ack ack ss (progress_at ack (j + K) (window_release ?mine w)) = Ok (pending', w', msgs :: ('u, 'j, 't) ticket_message list)"
        "acked_by (n + length (ps_payloads s)) ss (window_release ?mine w) c (R - K) pending' w' msgs"
      proof (cases "R = K")
        case True
        have "acked_by (n + length (ps_payloads s)) ss (window_release ?mine w) c 0 ss (window_release ?mine w) ([] :: ('u, 'j, 't) ticket_message list)"
          using tail unfolding acked_by_def by (intro exI[of _ "[]"]) simp
        then show thesis
          using that apply_ack_done[of ack ss "window_release ?mine w"] True Cons.prems(5) by simp
      next
        case False
        have "\<exists>pending' w' msgs. apply_ack ack ss (progress_at ack (j + K) (window_release ?mine w)) = Ok (pending', w', msgs :: ('u, 'j, 't) ticket_message list)
          \<and> acked_by (n + length (ps_payloads s)) ss (window_release ?mine w) c (R - K) pending' w' msgs"
        proof (rule Cons.IH)
          show "length (in_flight_records ss) \<le> w_records (window_release ?mine w)"
            "records_bytes (in_flight_records ss) \<le> w_payload_bytes (window_release ?mine w)"
            using Cons.prems(7,8) flight(1) by simp_all
          show "R - K \<le> length (in_flight_records ss)"
            using Cons.prems(6) flight by (simp del: length_slice)
        qed (use False K tail posn Cons.prems(5) in simp_all)
        then show thesis
          using that by blast
      qed
      then show ?thesis
        using Cons.prems K sent wf posn by (intro apply_ack_over[OF assms(1)]) auto
    qed
  qed
qed


text \<open>The validation loop on a queue numbered without gaps.\<close>

lemma unack_range:
  assumes "unat (ps_start_seq_num s) + length (ps_payloads s) < 2 ^ 64" "ps_acked s \<le> length (ps_payloads s)"
    and "unacknowledged_range s = (a, b)"
  shows "unat a = unat (ps_start_seq_num s) + ps_acked s" "unat b = unat (ps_start_seq_num s) + length (ps_payloads s)"
  using assms by (auto simp: unacknowledged_range_def intro!: unat_add_small)

lemma check_ack_fresh:
  assumes "fresh_chain n ss c" "c < 2 ^ 64" "unat e = n" "n < unat (aa_writer_end_seq_num ack)" "unat (aa_writer_end_seq_num ack) \<le> c"
  shows "check_ack_range ack e ss = Inr (aa_writer_end_seq_num ack)"
  using assms
proof (induction ss arbitrary: n e)
  case Nil
  then show ?case by simp
next
  case (Cons s ss)
  obtain a b where ab: "unacknowledged_range s = (a, b)"
    by (cases "unacknowledged_range s")
  have wf: "wf_submission s" "unat (ps_start_seq_num s) = n" "ps_acked s = 0"
    and rest: "fresh_chain (n + length (ps_payloads s)) ss c"
    using Cons.prems(1) by auto
  have le: "n + length (ps_payloads s) \<le> c"
    by (rule fresh_chain_le[OF rest])
  have u: "unat a = n" "unat b = n + length (ps_payloads s)"
    using unack_range[OF _ _ ab] wf le Cons.prems(2) by auto
  have "a = e" "a < b"
    using u Cons.prems(3) wf by (auto simp: word_unat_eq_iff word_less_nat_alt wf_submission_def)
  then show ?case
    using Cons.IH[OF rest Cons.prems(2) u(2)] Cons.prems(5) u(2) ab by (auto simp: word_le_nat_alt)
qed

definition acceptable_ack :: "nat \<Rightarrow> 't pending_submission list \<Rightarrow> append_ack \<Rightarrow> bool" where
  "acceptable_ack n pending ack \<longleftrightarrow> valid_ack ack \<and> ack_count ack \<le> length (in_flight_records pending)
     \<and> unat (aa_writer_start_seq_num ack) = n + acked_in_front pending"

lemma check_ack_front:
  assumes "queue_inv n pending w cursor" "valid_ack ack" "ack_count ack \<le> length (in_flight_records pending)"
  shows "check_ack_range ack (aa_writer_start_seq_num ack) pending = (Inr (aa_writer_end_seq_num ack) :: ('u, 'j) client_error + u64)
     \<longleftrightarrow> unat (aa_writer_start_seq_num ack) = n + acked_in_front pending"
    and "check_ack_range ack (aa_writer_start_seq_num ack) pending = (Inr e :: ('u, 'j) client_error + u64)
     \<Longrightarrow> e = aa_writer_end_seq_num ack"
proof -
  have chain: "queue_chain n pending (unat cursor)"
    using assms(1) by (simp add: queue_inv_def)
  have pos: "0 < ack_count ack"
    using assms(2) by (simp add: valid_ack_def)
  then obtain s ss where pending: "pending = s # ss"
    using assms(3) by (cases pending) auto
  have c: "unat cursor < 2 ^ 64"
    using unat_lt[of cursor] by simp
  have "length (in_flight_records pending) \<le> unat cursor - (n + acked_in_front pending)"
    using queue_chain_length[OF chain] queue_retained_split[OF assms(1)] by simp
  then have count: "n + ps_acked s + ack_count ack \<le> unat cursor"
    using assms(3) pos pending by simp
  have wf: "wf_submission s" "unat (ps_start_seq_num s) = n"
    and fresh: "fresh_chain (n + length (ps_payloads s)) ss (unat cursor)"
    using chain pending by auto
  obtain a b where ab: "unacknowledged_range s = (a, b)"
    by (cases "unacknowledged_range s")
  have u: "unat a = n + ps_acked s" "unat b = n + length (ps_payloads s)"
    using unack_range[OF _ _ ab] wf fresh_chain_le[OF fresh] c by (auto simp: wf_submission_def)
  have nonempty: "a < b"
    using u wf by (simp add: word_less_nat_alt wf_submission_def)
  let ?ws = "aa_writer_start_seq_num ack" and ?we = "aa_writer_end_seq_num ack"
  have step: "check_ack_range ack ?ws pending = (if a < ?ws then Inl (AppendNotAcknowledged a ack)
      else if a > ?ws then Inl (InvalidAppendAck ack) else Inr ?we :: ('u, 'j) client_error + u64)"
  proof (cases "a = ?ws \<and> \<not> ?we \<le> b")
    case True
    have "unat ?we \<le> unat cursor"
      using count u True by (auto simp: ack_count_def)
    then have "check_ack_range ack b ss = (Inr ?we :: ('u, 'j) client_error + u64)"
      by (intro check_ack_fresh[OF fresh c u(2)]) (use True u in \<open>simp_all add: word_le_nat_alt\<close>)
    then show ?thesis
      using True nonempty ab by (simp add: pending)
  next
    case False
    then show ?thesis
      using nonempty ab by (auto simp: pending)
  qed
  show "check_ack_range ack ?ws pending = (Inr ?we :: ('u, 'j) client_error + u64) \<longleftrightarrow> unat ?ws = n + acked_in_front pending"
    unfolding step using u by (auto simp: pending word_less_nat_alt)
  show "check_ack_range ack ?ws pending = (Inr e :: ('u, 'j) client_error + u64) \<Longrightarrow> e = ?we"
    unfolding step by (simp split: if_splits)
qed

text \<open>\<open>dispatch_ack\<close> on a well-formed queue: accepted exactly when it names a prefix of the records in flight.\<close>

definition dispatched :: "nat \<Rightarrow> 't pending_submission list \<Rightarrow> u64 \<Rightarrow> nat \<Rightarrow> 't pending_submission list \<Rightarrow> in_flight_window
    \<Rightarrow> in_flight_window \<Rightarrow> ('u, 'j, 't) ticket_message list \<Rightarrow> bool" where
  "dispatched n pending cursor k pending' w w' msgs \<longleftrightarrow> (\<exists>gone.
     submissions pending = gone @ submissions pending' \<and> resolved_ok n gone msgs
     \<and> queue_inv (n + records_of gone) pending' w' cursor
     \<and> n + records_of gone + acked_in_front pending' = n + acked_in_front pending + k
     \<and> in_flight_records pending' = drop k (in_flight_records pending)
     \<and> unsent_records pending' = unsent_records pending
     \<and> retained_records pending' = drop k (retained_records pending)
     \<and> w_ack_deadline w' = w_ack_deadline w)"

lemma acked_by_dispatched:
  assumes inv: "queue_inv n pending w cursor" and acked: "acked_by n pending w (unat cursor) k pending' w' msgs"
    and k: "k \<le> length (in_flight_records pending)"
  shows "dispatched n pending cursor k pending' w w' msgs"
proof -
  obtain gone where gone: "submissions pending = gone @ submissions pending'" "resolved_ok n gone msgs"
    "queue_chain (n + records_of gone) pending' (unat cursor)" "sent_prefix pending'"
    "n + records_of gone + acked_in_front pending' = n + acked_in_front pending + k"
    "in_flight_records pending' = drop k (in_flight_records pending)" "unsent_records pending' = unsent_records pending"
    "w' = window_release (take k (in_flight_records pending)) w"
    using acked unfolding acked_by_def by auto
  have "records_bytes (take k (in_flight_records pending)) + records_bytes (drop k (in_flight_records pending))
      = records_bytes (in_flight_records pending)"
    by (simp flip: records_bytes_simps(3))
  then have "window_ok pending' w'"
    using inv gone(6,8) k by (auto simp: window_ok_def queue_inv_def)
  then have inv': "queue_inv (n + records_of gone) pending' w' cursor"
    using gone(3,4) by (simp add: queue_inv_def)
  have "retained_records pending' = drop k (retained_records pending)"
    using queue_retained_split[OF inv] queue_retained_split[OF inv'] gone(6,7) k by simp
  then show ?thesis
    unfolding dispatched_def using gone inv' by auto
qed

lemma dispatch_ack_cases:
  fixes pending :: "'t pending_submission list"
  assumes inv: "queue_inv n pending w cursor"
  obtains (rejected) e where "dispatch_ack ack pending w = (Err e :: (('u, 'j) client_error, _) outcome)" "\<not> acceptable_ack n pending ack"
  | (accepted) pending' w' msgs where
    "dispatch_ack ack pending w = Ok (pending', w', msgs :: ('u, 'j, 't) ticket_message list)" "acceptable_ack n pending ack"
    "dispatched n pending cursor (ack_count ack) pending' w w' msgs"
proof (cases rule: ack_record_count_cases[of ack, where ?'u = 'u and ?'j = 'j])
  case (2 e)
  then show thesis
    using rejected by (simp add: dispatch_ack_def acceptable_ack_def)
next
  case (1 k)
  have records: "w_records w = length (in_flight_records pending)"
    using inv by (simp add: queue_inv_def window_ok_def)
  show thesis
  proof (cases "ack_count ack \<le> length (in_flight_records pending)")
    case False
    then show thesis
      using rejected 1 records by (simp add: dispatch_ack_def acceptable_ack_def Let_def)
  next
    case count: True
    show thesis
    proof (cases "unat (aa_writer_start_seq_num ack) = n + acked_in_front pending")
      case False
      then have "check_ack_range ack (aa_writer_start_seq_num ack) pending \<noteq> (Inr r :: ('u, 'j) client_error + u64)" for r
        using check_ack_front[OF inv 1(2) count] by metis
      then obtain e where "check_ack_range ack (aa_writer_start_seq_num ack) pending = (Inl e :: ('u, 'j) client_error + u64)"
        by (cases "check_ack_range ack (aa_writer_start_seq_num ack) pending :: ('u, 'j) client_error + u64") auto
      then show thesis
        using rejected 1 records count False by (simp add: dispatch_ack_def acceptable_ack_def Let_def)
    next
      case True
      then have check: "check_ack_range ack (aa_writer_start_seq_num ack) pending = (Inr (aa_writer_end_seq_num ack) :: ('u, 'j) client_error + u64)"
        using check_ack_front(1)[OF inv 1(2) count] by blast
      have "\<exists>pending' w' msgs. apply_ack ack pending (progress_at ack 0 w) = Ok (pending', w', msgs :: ('u, 'j, 't) ticket_message list)
          \<and> acked_by n pending w (unat cursor) (ack_count ack) pending' w' msgs"
        by (rule apply_ack_run[OF 1(2)]) (use inv True count in \<open>simp_all add: queue_inv_def window_ok_def\<close>)
      then obtain pending' w' msgs where run:
        "apply_ack ack pending (progress_at ack 0 w) = Ok (pending', w', msgs :: ('u, 'j, 't) ticket_message list)"
        and acked: "acked_by n pending w (unat cursor) (ack_count ack) pending' w' msgs"
        by blast
      show thesis
      proof (rule accepted)
        show "dispatch_ack ack pending w = Ok (pending', w', msgs :: ('u, 'j, 't) ticket_message list)"
          using 1 records count check run by (simp add: dispatch_ack_def Let_def progress_at_def)
        show "dispatched n pending cursor (ack_count ack) pending' w w' msgs"
          by (rule acked_by_dispatched[OF inv acked count])
      qed (use 1 count True in \<open>simp add: acceptable_ack_def\<close>)
    qed
  qed
qed


section \<open>Admission, rewinding and failing\<close>

fun submits :: "('t, 'd) writer_command list \<Rightarrow> ('t \<times> record_payload list) list" where
  "submits [] = []"
| "submits (Submit batch t # cs) = (t, batch_payloads batch) # submits cs"
| "submits (Close d # cs) = submits cs"

lemma submits_append [simp]: "submits (as @ bs) = submits as @ submits bs"
  by (induction as rule: submits.induct) auto

text \<open>Batches as the producer can build them; a length is a \<open>usize\<close>.\<close>

fun wf_command :: "('t, 'd) writer_command \<Rightarrow> bool" where
  "wf_command (Submit batch t) \<longleftrightarrow> wf_append_batch batch \<and> length (batch_payloads batch) \<le> usize_max"
| "wf_command (Close d) \<longleftrightarrow> True"

lemma cursor_reserve_Inr:
  "count \<le> usize_max \<Longrightarrow> cursor_reserve c count = Inr (a, b) \<longleftrightarrow> a = c \<and> unat c + count < 2 ^ 64 \<and> unat b = unat c + count"
  by (auto simp: cursor_reserve_def and_then_eq_Inr checked_add_eq_Some unat_of_nat usize_max_def
      unat_add_small word_unat_eq_iff)

lemma fresh_chain_snoc:
  "fresh_chain n ss c \<Longrightarrow> wf_submission s \<Longrightarrow> unat (ps_start_seq_num s) = c \<Longrightarrow> ps_acked s = 0 \<Longrightarrow>
     fresh_chain n (ss @ [s]) (c + length (ps_payloads s))"
  by (induction n ss c rule: fresh_chain.induct) auto

lemma queue_chain_snoc:
  "queue_chain n ss c \<Longrightarrow> wf_submission s \<Longrightarrow> unat (ps_start_seq_num s) = c \<Longrightarrow> ps_acked s = 0 \<Longrightarrow>
     queue_chain n (ss @ [s]) (c + length (ps_payloads s)) \<and> acked_in_front (ss @ [s]) = acked_in_front ss"
  by (cases ss) (auto intro: fresh_chain_snoc)

lemma sent_prefix_snoc: "sent_prefix ss \<Longrightarrow> ps_sent s = ps_acked s \<Longrightarrow> sent_prefix (ss @ [s])"
  by (induction ss) auto

text \<open>One admission; the alternative is the exhausted sequence space, which changes nothing.\<close>

definition admitted :: "nat \<Rightarrow> in_flight_window \<Rightarrow> ('t \<times> record_payload list) list \<Rightarrow> ('t, 'd) drain_state \<Rightarrow> ('t, 'd) drain_state \<Rightarrow> bool" where
  "admitted n w subs d d' \<longleftrightarrow> submissions (d_pending d') = submissions (d_pending d) @ subs
     \<and> queue_inv n (d_pending d') w (d_cursor d')
     \<and> acked_in_front (d_pending d') = acked_in_front (d_pending d)
     \<and> in_flight_records (d_pending d') = in_flight_records (d_pending d)
     \<and> unat (d_cursor d') = unat (d_cursor d) + records_of subs
     \<and> unsent_records (d_pending d') = unsent_records (d_pending d) @ number_records (unat (d_cursor d)) (concat (map snd subs))"

lemma admitted_refl: "queue_inv n (d_pending d) w (d_cursor d) \<Longrightarrow> admitted n w [] d d"
  by (simp add: admitted_def)

lemma records_of_concat: "records_of subs = length (concat (map snd subs))"
  by (induction subs) auto

lemma admitted_trans:
  "admitted n w as d d' \<Longrightarrow> admitted n w bs d' d'' \<Longrightarrow> admitted n w (as @ bs) d d''"
  by (simp add: admitted_def number_records_append records_of_concat)

lemma admit_submission_cases:
  assumes inv: "queue_inv n (d_pending d) w (d_cursor d)" and wf: "wf_command (Submit batch t :: ('t, 'd) writer_command)"
  obtains (full) e where "admit_submission batch t d = (Inl e :: ('u, 'j) client_error + unit, d)"
      "e = FrameError WriterSequenceExhausted" "2 ^ 64 \<le> unat (d_cursor d) + length (batch_payloads batch)"
  | (room) d' where "admit_submission batch t d = (Inr () :: ('u, 'j) client_error + unit, d')"
      "admitted n w [(t, batch_payloads batch)] d d'" "d_queue d' = d_queue d" "d_close_tx d' = d_close_tx (d :: ('t, 'd) drain_state)"
proof (cases "unat (d_cursor d) + length (batch_payloads batch) < 2 ^ 64")
  case False
  then show thesis
    using full wf by (simp add: admit_submission_def cursor_reserve_def checked_add_def unat_of_nat usize_max_def)
next
  case True
  define b :: u64 where "b = d_cursor d + of_nat (length (batch_payloads batch))"
  have b: "unat b = unat (d_cursor d) + length (batch_payloads batch)"
    unfolding b_def using True by (rule unat_add_small)
  have reserve: "cursor_reserve (d_cursor d) (length (batch_payloads batch)) = (Inr (d_cursor d, b) :: ('u, 'j) client_error + u64 \<times> u64)"
    using wf True b by (simp add: cursor_reserve_Inr)
  let ?s = "\<lparr> ps_payloads = batch_payloads batch, ps_start_seq_num = d_cursor d, ps_acked = 0, ps_sent = 0,
    ps_receipts = [], ps_ack_tx = t \<rparr>"
  let ?d = "d\<lparr> d_cursor := b, d_pending := d_pending d @ [?s] \<rparr>"
  have wf_s: "wf_submission ?s"
    using wf by (simp add: wf_submission_def wf_append_batch_def)
  have records: "in_flight_records [?s] = []" "unsent_records [?s] = number_records (unat (d_cursor d)) (batch_payloads batch)"
    by (simp_all add: records_Cons numbered_number_records)
  have "admitted n w [(t, batch_payloads batch)] d ?d"
    using inv queue_chain_snoc[of n "d_pending d" "unat (d_cursor d)" ?s] wf_s records b sent_prefix_snoc[of "d_pending d" ?s]
    by (simp add: admitted_def queue_inv_def window_ok_def records_append)
  then show thesis
    using room[of ?d] reserve by (simp add: admit_submission_def)
qed

text \<open>A drain admits commands in queue order until the window's worth is reached, the queue is empty, a close
  is met, or the sequence space is exhausted.\<close>

fun drain_outcome :: "('t, 'd) writer_command list \<Rightarrow> ('t, 'd) writer_command list \<Rightarrow> 'd option
    \<Rightarrow> (('u, 'j) client_error + unit) \<times> ('t, 'd) drain_state \<Rightarrow> bool" where
  "drain_outcome commands taken close (Inl e, d) \<longleftrightarrow> e = FrameError WriterSequenceExhausted \<and> d_close_tx d = close
     \<and> (\<exists>batch t. commands = taken @ Submit batch t # d_queue d
          \<and> 2 ^ 64 \<le> unat (d_cursor d) + length (batch_payloads batch))"
| "drain_outcome commands taken close (Inr _, d) \<longleftrightarrow> commands = taken @ d_queue d \<and> taken \<noteq> []
     \<and> (d_close_tx d = close \<or> (\<exists>x. last taken = Close x \<and> d_close_tx d = Some x))"

definition drained :: "nat \<Rightarrow> in_flight_window \<Rightarrow> ('t, 'd) writer_command list \<Rightarrow> ('t, 'd) drain_state
    \<Rightarrow> (('u, 'j) client_error + unit) \<times> ('t, 'd) drain_state \<Rightarrow> bool" where
  "drained n w commands d out \<longleftrightarrow> (\<exists>taken. admitted n w (submits taken) d (snd out)
     \<and> drain_outcome commands taken (d_close_tx d) out)"

lemma drain_outcome_Cons:
  "drain_outcome cs taken close out \<Longrightarrow> drain_outcome (c # cs) (c # taken) close out"
  by (induction cs taken close out rule: drain_outcome.induct) auto

lemma drained_step:
  assumes admit: "admitted n w [(t, batch_payloads batch)] d d'" "d_queue d' = d_queue d" "d_close_tx d' = d_close_tx d"
    and queue: "d_queue d' = x # rest"
    and rec: "drained n w (x # d_queue (d'\<lparr> d_queue := rest \<rparr>)) (d'\<lparr> d_queue := rest \<rparr>) out"
  shows "drained n w (Submit batch t # d_queue d) d out"
proof -
  obtain taken where taken: "admitted n w (submits taken) (d'\<lparr> d_queue := rest \<rparr>) (snd out)"
    and result: "drain_outcome (x # rest) taken (d_close_tx d) out"
    using rec admit(3) by (auto simp: drained_def)
  have "admitted n w (submits taken) d' (snd out)"
    using taken by (simp add: admitted_def)
  then have "admitted n w (submits (Submit batch t # taken)) d (snd out)"
    using admitted_trans[OF admit(1)] by simp
  moreover have "drain_outcome (Submit batch t # d_queue d) (Submit batch t # taken) (d_close_tx d) out"
    using drain_outcome_Cons[OF result] admit(2) queue by simp
  ultimately show ?thesis
    unfolding drained_def by blast
qed

lemma drain_loop_drained:
  assumes "queue_inv n (d_pending d) w (d_cursor d)" "\<And>x. x \<in> set (command # d_queue d) \<Longrightarrow> wf_command x"
  shows "drained n w (command # d_queue d) d (drain_loop records bytes command d :: (('u, 'j) client_error + unit) \<times> ('t, 'd) drain_state)"
  using assms
proof (induction records bytes command d rule: drain_loop.induct[where ?'c = 'u and ?'d = 'j])
  case (1 records bytes done_tx d)
  then have "admitted n w (submits [Close done_tx :: ('t, 'd) writer_command]) d (d\<lparr> d_close_tx := Some done_tx \<rparr>)"
    by (simp add: admitted_def)
  then show ?case
    unfolding drained_def by (intro exI[of _ "[Close done_tx]"]) simp
next
  case (2 records bytes batch t d)
  have wf: "wf_command (Submit batch t :: ('t, 'd) writer_command)"
    by (rule 2(3)) simp
  show ?case
  proof (cases rule: admit_submission_cases[where ?'u = 'u and ?'j = 'j, OF 2(2) wf])
    case (1 e)
    then show ?thesis
      using admitted_refl[OF 2(2)] unfolding drained_def by (intro exI[of _ "[]"]) simp
  next
    case room: (2 d')
    let ?r = "sat_add records (length (batch_payloads batch))" and ?b = "sat_add bytes (payload_total (batch_payloads batch))"
    show ?thesis
    proof (cases "?r \<ge> MAX_WRITER_IN_FLIGHT_RECORDS \<or> ?b \<ge> MAX_WRITER_IN_FLIGHT_PAYLOAD_BYTES \<or> d_queue d' = []")
      case True
      then have "drain_loop records bytes (Submit batch t) d = (Inr () :: ('u, 'j) client_error + unit, d')"
        using room by (auto simp: Let_def)
      then show ?thesis
        using room unfolding drained_def by (intro exI[of _ "[Submit batch t]"]) simp
    next
      case False
      then obtain x rest where queue: "d_queue d' = x # rest"
        by (cases "d_queue d'") auto
      let ?d = "d'\<lparr> d_queue := rest \<rparr>"
      have step: "drain_loop records bytes (Submit batch t) d
          = (drain_loop ?r ?b x ?d :: (('u, 'j) client_error + unit) \<times> ('t, 'd) drain_state)"
        using False room(1,3) queue[symmetric] by (auto simp: Let_def split: list.splits)
      have inv: "queue_inv n (d_pending ?d) w (d_cursor ?d)"
        using room(2) by (simp add: admitted_def)
      have wfs: "\<And>y. y \<in> set (x # d_queue ?d) \<Longrightarrow> wf_command y"
        using 2(3) queue room(3) by auto
      have "drained n w (x # d_queue ?d) ?d (drain_loop ?r ?b x ?d :: (('u, 'j) client_error + unit) \<times> ('t, 'd) drain_state)"
        using False by (intro "2.IH"[OF room(1)[symmetric] _ refl refl _ queue inv wfs]) auto
      then show ?thesis
        unfolding step by (rule drained_step[OF room(2-4) queue])
    qed
  qed
qed


lemma rewind_fields [simp]:
  "submissions (rewind_pending pending) = submissions pending"
  "retained_records (rewind_pending pending) = retained_records pending"
  "in_flight_records (rewind_pending pending) = []"
  "unsent_records (rewind_pending pending) = retained_records pending"
  "acked_in_front (rewind_pending pending) = acked_in_front pending"
  by (induction pending) (simp_all add: rewind_pending_def records_Cons)

lemma rewind_wf: "wf_submission s \<Longrightarrow> wf_submission (s\<lparr> ps_sent := ps_acked s \<rparr>)"
  by (simp add: wf_submission_def)

lemma rewind_fresh: "fresh_chain n ss c \<Longrightarrow> fresh_chain n (rewind_pending ss) c"
  by (induction n ss c rule: fresh_chain.induct) (auto simp: rewind_pending_def dest: rewind_wf)

lemma rewind_inv:
  assumes "queue_inv n pending w cursor"
  shows "queue_inv n (rewind_pending pending) window_default cursor"
proof -
  have "queue_chain n (rewind_pending pending) (unat cursor)"
    using assms rewind_fresh
    by (cases pending) (auto simp: queue_inv_def rewind_pending_def intro: rewind_wf)
  moreover have "sent_prefix (rewind_pending pending)"
    by (rule sent_prefix_unsent) (simp add: rewind_pending_def)
  ultimately show ?thesis
    by (simp add: queue_inv_def window_ok_def window_default_def)
qed

section \<open>Properties\<close>

text \<open>C19: On a well-formed queue \<open>take_frame\<close> never panics. The frame is exactly the next unsent records in
  sequence order, they become the newest records in flight, nothing retained changes, the window stays
  within 1024 records and 5 MiB, a non-empty frame is accepted by the frame encoder, and an empty frame means that
  nothing is unsent or that something is in flight whose acknowledgement reopens the window.\<close>

theorem take_frame_spec:
  fixes pending :: "'t pending_submission list"
  assumes "queue_inv n pending w cursor" and "buf_mut_appends B"
  shows "\<exists>rs pending' w'. take_frame pending w = (Ok rs, pending', w')
     \<and> queue_inv n pending' w' cursor
     \<and> unsent_records pending = rs @ unsent_records pending'
     \<and> in_flight_records pending' = in_flight_records pending @ rs
     \<and> retained_records pending' = retained_records pending
     \<and> w_records w' \<le> 1024 \<and> w_payload_bytes w' \<le> 5 * 1024 * 1024
     \<and> (if rs = [] then unsent_records pending' = [] \<or> in_flight_records pending' \<noteq> []
        else encode_append_batch B rs = (Inr (append_batch_bytes rs) :: 'j frame_codec_error + bytes))"
proof -
  obtain rs pending' w' where take: "take_frame pending w = (Ok rs, pending', w')"
    "queue_inv n pending' w' cursor" "unsent_records pending = rs @ unsent_records pending'"
    "in_flight_records pending' = in_flight_records pending @ rs"
    "retained_records pending' = retained_records pending"
    "rs \<noteq> [] \<Longrightarrow> append_bounds rs" "rs = [] \<Longrightarrow> unsent_records pending' = [] \<or> in_flight_records pending' \<noteq> []"
    by (rule take_frame_queue[OF assms(1)]) blast
  have "w_records w' \<le> 1024 \<and> w_payload_bytes w' \<le> 5 * 1024 * 1024"
    using take(2) by (simp add: queue_inv_def window_ok_def const_defs)
  moreover have "encode_append_batch B rs = (Inr (append_batch_bytes rs) :: 'j frame_codec_error + bytes)" if "rs \<noteq> []"
    using take(6)[OF that] by (simp add: encode_append_batch_Inr[OF assms(2)])
  ultimately show ?thesis
    using take by auto
qed

text \<open>A queue with two submissions: the first partly acknowledged and sent, the second waiting.\<close>

definition sample_payload :: record_payload where
  "sample_payload = \<lparr> rp_part = PartHeader 0x80000000, rp_data = [1, 2] \<rparr>"

definition sample_queue :: "nat pending_submission list" where
  "sample_queue =
     [\<lparr> ps_payloads = [sample_payload, sample_payload, sample_payload], ps_start_seq_num = 0, ps_acked = 1, ps_sent = 2,
        ps_receipts = [\<lparr> ac_writer_seq_num = 0, ac_seq_num = 7,
          ac_ack = \<lparr> aa_writer_start_seq_num = 0, aa_writer_end_seq_num = 1, aa_start_seq_num = 7, aa_end_seq_num = 8 \<rparr> \<rparr>],
        ps_ack_tx = 10 \<rparr>,
      \<lparr> ps_payloads = [sample_payload], ps_start_seq_num = 3, ps_acked = 0, ps_sent = 0, ps_receipts = [], ps_ack_tx = 11 \<rparr>]"

definition sample_window :: in_flight_window where
  "sample_window = \<lparr> w_payload_bytes = 2, w_records = 1, w_ack_deadline = Some 5 \<rparr>"

lemma sample_queue_inv: "queue_inv 0 sample_queue sample_window 4"
  by (simp add: queue_inv_def sample_queue_def sample_window_def wf_submission_def receipts_ok_def receipt_ok_def
      window_ok_def records_Cons slice_def numbered_def sample_payload_def const_defs upt_rec)

lemma take_frame_spec_witness:
  "\<exists>rs pending' w'. take_frame sample_queue sample_window = (Ok rs, pending', w')
     \<and> queue_inv 0 pending' w' 4
     \<and> unsent_records sample_queue = rs @ unsent_records pending'
     \<and> in_flight_records pending' = in_flight_records sample_queue @ rs
     \<and> retained_records pending' = retained_records sample_queue
     \<and> w_records w' \<le> 1024 \<and> w_payload_bytes w' \<le> 5 * 1024 * 1024
     \<and> (if rs = [] then unsent_records pending' = [] \<or> in_flight_records pending' \<noteq> []
        else encode_append_batch list_buf rs = (Inr (append_batch_bytes rs) :: unit frame_codec_error + bytes))"
  by (rule take_frame_spec[OF sample_queue_inv list_buf_appends])

text \<open>C15: On a well-formed queue \<open>dispatch_ack\<close> never panics, whatever acknowledgement the server sends. It accepts
  exactly those that start at the first unacknowledged record, cover at least one record and only records in
  flight, and map to a durable range of the same length. An accepted one removes exactly that prefix, keeps the
  unsent records, resolves the completed submissions in order, each with one receipt per record that maps
  its writer sequence into the acknowledged range, and leaves the queue well-formed.\<close>

theorem dispatch_ack_spec:
  fixes pending :: "'t pending_submission list"
  assumes "queue_inv n pending w cursor"
  shows "case dispatch_ack ack pending w :: (('u, 'j) client_error, _) outcome of
     Panic \<Rightarrow> False
   | Err _ \<Rightarrow> \<not> acceptable_ack n pending ack
   | Ok (pending', w', msgs) \<Rightarrow> acceptable_ack n pending ack \<and> dispatched n pending cursor (ack_count ack) pending' w w' msgs"
proof (cases rule: dispatch_ack_cases[where ?'u = 'u and ?'j = 'j, OF assms, of ack])
  case (1 e)
  then show ?thesis by simp
next
  case (2 pending' w' msgs)
  then show ?thesis by simp
qed

definition sample_ack :: append_ack where
  "sample_ack = \<lparr> aa_writer_start_seq_num = 1, aa_writer_end_seq_num = 2, aa_start_seq_num = 20, aa_end_seq_num = 21 \<rparr>"

lemma dispatch_ack_spec_witness:
  "case dispatch_ack sample_ack sample_queue sample_window :: ((unit, unit) client_error, _) outcome of
     Panic \<Rightarrow> False
   | Err _ \<Rightarrow> \<not> acceptable_ack 0 sample_queue sample_ack
   | Ok (pending', w', msgs) \<Rightarrow> acceptable_ack 0 sample_queue sample_ack
       \<and> dispatched 0 sample_queue 4 (ack_count sample_ack) pending' sample_window w' msgs"
  by (rule dispatch_ack_spec[OF sample_queue_inv])

text \<open>A drain of the command channel keeps the queue well-formed. It takes a prefix of the commands in order,
  appends exactly their batches, numbered contiguously from the cursor, behind what was unsent, and touches neither
  the records in flight nor the window; it stops at the first \<open>Close\<close>, and its only failure is the
  exhaustion of the 64-bit sequence space, in which the batch that does not fit is not admitted.\<close>

theorem drain_queued_commands_spec:
  fixes d :: "('t, 'd) drain_state"
  assumes "queue_inv n (d_pending d) w (d_cursor d)" and "list_all wf_command (command # d_queue d)"
  shows "drained n w (command # d_queue d) d (drain_queued_commands command d :: (('u, 'j) client_error + unit) \<times> _)"
  unfolding drain_queued_commands_def
  by (rule drain_loop_drained[OF assms(1)]) (use assms(2) in \<open>auto simp: list_all_iff\<close>)

lemma drain_queued_commands_spec_witness:
  "drained 0 sample_window [Submit (AppendBatch [sample_payload]) 12, Close True]
     \<lparr> d_pending = sample_queue, d_close_tx = None, d_cursor = 4, d_queue = [Close True] \<rparr>
     (drain_queued_commands (Submit (AppendBatch [sample_payload]) 12)
        \<lparr> d_pending = sample_queue, d_close_tx = None, d_cursor = 4, d_queue = [Close True] \<rparr>
        :: ((unit, unit) client_error + unit) \<times> (nat, bool) drain_state)"
  using drain_queued_commands_spec[of 0 "\<lparr> d_pending = sample_queue, d_close_tx = None, d_cursor = 4, d_queue = [Close True] \<rparr>"
      sample_window "Submit (AppendBatch [sample_payload]) 12"] sample_queue_inv
  by (simp add: wf_append_batch_def sample_payload_def const_defs)

end
