(* ===== verification/Sockets.thy ===== *)
theory Sockets
  imports WriterQueue
begin

text \<open>
  Receiving server frames from a WebSocket (\<open>rust/src/client.rs\<close>): \<open>next_server_frame\<close> and the
  operations on it, the handshakes and the acknowledgement reader. A socket is the list of the
  messages it will deliver, each a message or the library's error; the end of the list is the end
  of the stream. An operation returns its result and the rest of the socket. \<open>from_json\<close> is the JSON
  parser of the stream metadata, as for the frame decoder.
\<close>

datatype ws_message =
    WsBinary bytes
  | WsText
  | WsPing
  | WsPong
  | WsRawFrame
  | WsClose "(u16 \<times> rstr) option"

type_synonym socket = "(websocket_error + ws_message) list"

fun server_frame_name :: "'i server_frame \<Rightarrow> string" where
  "server_frame_name (Ready _) = ''ready''"
| "server_frame_name (AppendAck _ _ _ _) = ''append_ack''"
| "server_frame_name (ServerReadBatch _) = ''read_batch''"
| "server_frame_name Heartbeat = ''heartbeat''"
| "server_frame_name (CaughtUp _) = ''caught_up''"
| "server_frame_name (StreamMetadata _) = ''stream_metadata''"

fun next_server_frame :: "(bytes \<Rightarrow> 'j + 'i stream_metadata) \<Rightarrow> socket
    \<Rightarrow> (('u, 'j) client_error + 'i server_frame option) \<times> socket" where
  "next_server_frame from_json [] = (Inr None, [])"
| "next_server_frame from_json (Inl e # ws) = (Inl (WebSocket e), ws)"
| "next_server_frame from_json (Inr (WsBinary bytes) # ws) =
     (map_err FrameError (and_then (decode_server_frame from_json bytes) (\<lambda>frame. Inr (Some frame))), ws)"
| "next_server_frame from_json (Inr (WsClose (Some (code, reason))) # ws) =
     (if code = 1000 then Inr None else Inl (close_reason_error code reason), ws)"
| "next_server_frame from_json (Inr (WsClose None) # ws) = (Inr None, ws)"
| "next_server_frame from_json (Inr WsText # ws) = (Inl UnexpectedTextMessage, ws)"
| "next_server_frame from_json (Inr WsPing # ws) = next_server_frame from_json ws"
| "next_server_frame from_json (Inr WsPong # ws) = next_server_frame from_json ws"
| "next_server_frame from_json (Inr WsRawFrame # ws) = next_server_frame from_json ws"

section \<open>Handshakes\<close>

definition expect_frame :: "(bytes \<Rightarrow> 'j + 'i stream_metadata) \<Rightarrow> ('i server_frame \<Rightarrow> 'i server_frame + 'a) \<Rightarrow> socket
    \<Rightarrow> (('u, 'j) client_error + 'a) \<times> socket" where
  "expect_frame from_json extract ws = (case next_server_frame from_json ws of
       (Inl e, ws) \<Rightarrow> (Inl e, ws)
     | (Inr (Some frame), ws) \<Rightarrow> (map_err (\<lambda>frame. UnexpectedServerFrame (server_frame_name frame)) (extract frame), ws)
     | (Inr None, ws) \<Rightarrow> (Inl WebSocketClosed, ws))"

fun extract_ready :: "'i server_frame \<Rightarrow> 'i server_frame + stream_kind" where
  "extract_ready (Ready kind) = Inr kind"
| "extract_ready other = Inl other"

fun extract_metadata :: "'i server_frame \<Rightarrow> 'i server_frame + 'i stream_metadata" where
  "extract_metadata (StreamMetadata metadata) = Inr metadata"
| "extract_metadata other = Inl other"

definition expect_ready :: "(bytes \<Rightarrow> 'j + 'i stream_metadata) \<Rightarrow> socket
    \<Rightarrow> (('u, 'j) client_error + stream_kind) \<times> socket" where
  "expect_ready from_json = expect_frame from_json extract_ready"

definition expect_read_handshake :: "(bytes \<Rightarrow> 'j + 'i stream_metadata) \<Rightarrow> socket
    \<Rightarrow> (('u, 'j) client_error + 'i stream_metadata) \<times> socket" where
  "expect_read_handshake from_json ws = (case expect_ready from_json ws of
       (Inl e, ws) \<Rightarrow> (Inl e, ws)
     | (Inr kind, ws) \<Rightarrow> (case expect_frame from_json extract_metadata ws of
           (Inl e, ws) \<Rightarrow> (Inl e, ws)
         | (Inr metadata, ws) \<Rightarrow> (if sm_kind metadata \<noteq> kind then Inl StreamKindChanged else Inr metadata, ws)))"

definition validate_read_stream_metadata :: "'i \<Rightarrow> stream_kind option \<Rightarrow> 'i stream_metadata
    \<Rightarrow> ('u, 'j) client_error + unit" where
  "validate_read_stream_metadata expected_stream_id expected_kind metadata =
     (if sm_stream_id metadata \<noteq> expected_stream_id then Inl StreamIdChanged
      else if (case expected_kind of Some kind \<Rightarrow> sm_kind metadata \<noteq> kind | None \<Rightarrow> False) then Inl StreamKindChanged
      else Inr ())"

section \<open>Acknowledgements and read outcomes\<close>

definition recv_ack :: "(bytes \<Rightarrow> 'j + 'i stream_metadata) \<Rightarrow> socket
    \<Rightarrow> (('u, 'j) client_error + append_ack option) \<times> socket" where
  "recv_ack from_json ws = (case next_server_frame from_json ws of
       (Inl e, ws) \<Rightarrow> (Inl e, ws)
     | (Inr None, ws) \<Rightarrow> (Inr None, ws)
     | (Inr (Some frame), ws) \<Rightarrow> (case frame of
           AppendAck a b c d \<Rightarrow>
             (and_then (validate_ack \<lparr> aa_writer_start_seq_num = a, aa_writer_end_seq_num = b,
                aa_start_seq_num = c, aa_end_seq_num = d \<rparr>) (\<lambda>ack. Inr (Some ack)), ws)
         | _ \<Rightarrow> (Inl (UnexpectedServerFrame (server_frame_name frame)), ws)))"

datatype read_socket_outcome = OutcomeRecords read_batch | OutcomeCaughtUp caught_up_position | OutcomeClosed

definition next_read_socket_frame :: "(bytes \<Rightarrow> 'j + 'i stream_metadata) \<Rightarrow> socket
    \<Rightarrow> (('u, 'j) client_error + read_socket_outcome option) \<times> socket" where
  "next_read_socket_frame from_json ws = (case next_server_frame from_json ws of
       (Inl e, ws) \<Rightarrow> (Inl e, ws)
     | (Inr None, ws) \<Rightarrow> (Inr (Some OutcomeClosed), ws)
     | (Inr (Some frame), ws) \<Rightarrow> ((case frame of
           ServerReadBatch batch \<Rightarrow> Inr (Some (OutcomeRecords batch))
         | CaughtUp position \<Rightarrow> Inr (Some (OutcomeCaughtUp position))
         | Heartbeat \<Rightarrow> Inr None
         | _ \<Rightarrow> Inl (UnexpectedServerFrame (server_frame_name frame))), ws))"

lemma next_server_frame_shrinks:
  "next_server_frame from_json ws = (r, ws') \<Longrightarrow> ws \<noteq> [] \<Longrightarrow> length ws' < length ws"
proof (induction from_json ws rule: next_server_frame.induct)
  case (7 from_json ws)
  then show ?case by (cases ws) auto
next
  case (8 from_json ws)
  then show ?case by (cases ws) auto
next
  case (9 from_json ws)
  then show ?case by (cases ws) auto
qed (auto split: if_splits)

lemma next_read_socket_frame_shrinks:
  "next_read_socket_frame from_json ws = (Inr None, ws') \<Longrightarrow> length ws' < length ws"
  by (cases ws) (auto simp: next_read_socket_frame_def dest: next_server_frame_shrinks
      split: prod.splits sum.splits option.splits server_frame.splits)

section \<open>Properties\<close>

fun is_control :: "websocket_error + ws_message \<Rightarrow> bool" where
  "is_control (Inr WsPing) \<longleftrightarrow> True"
| "is_control (Inr WsPong) \<longleftrightarrow> True"
| "is_control (Inr WsRawFrame) \<longleftrightarrow> True"
| "is_control _ \<longleftrightarrow> False"

lemma next_server_frame_Some:
  "next_server_frame from_json ws = (Inr (Some frame), rest) \<longleftrightarrow>
     (\<exists>ctl bytes. ws = ctl @ Inr (WsBinary bytes) # rest \<and> list_all is_control ctl \<and> decode_server_frame from_json bytes = Inr frame)"
proof (induction from_json ws rule: next_server_frame.induct)
  case (3 from_json bytes ws)
  then show ?case
    by (auto simp: and_then_eq_Inr Cons_eq_append_conv map_err_def split: sum.splits)
next
  case (7 from_json ws)
  then show ?case by (fastforce simp: Cons_eq_append_conv)
next
  case (8 from_json ws)
  then show ?case by (fastforce simp: Cons_eq_append_conv)
next
  case (9 from_json ws)
  then show ?case by (fastforce simp: Cons_eq_append_conv)
qed (auto simp: Cons_eq_append_conv split: if_splits)

lemma extract_Inr [simp]:
  "extract_ready frame = Inr kind \<longleftrightarrow> frame = Ready kind"
  "extract_metadata frame = Inr metadata \<longleftrightarrow> frame = StreamMetadata metadata"
  by (cases frame; auto)+

lemma expect_frame_Inr:
  "expect_frame from_json extract ws = (Inr a :: ('u, 'j) client_error + 'a, rest) \<longleftrightarrow>
     (\<exists>frame. next_server_frame from_json ws = (Inr (Some frame) :: ('u, 'j) client_error + 'i server_frame option, rest) \<and> extract frame = Inr a)"
  by (auto simp: expect_frame_def split: prod.splits sum.splits option.splits)

text \<open>The read handshake succeeds exactly when the socket delivers, among control messages only, a \<open>ready\<close>
  frame and then the stream metadata of that same kind; it returns that metadata and consumes exactly those
  messages.\<close>

theorem read_handshake_spec:
  "expect_read_handshake from_json ws = (Inr metadata :: ('u, 'j) client_error + 'i stream_metadata, rest) \<longleftrightarrow>
     (\<exists>ctl1 ready ctl2 meta. ws = ctl1 @ [Inr (WsBinary ready)] @ ctl2 @ [Inr (WsBinary meta)] @ rest
        \<and> list_all is_control ctl1 \<and> list_all is_control ctl2
        \<and> decode_server_frame from_json ready = Inr (Ready (sm_kind metadata))
        \<and> decode_server_frame from_json meta = Inr (StreamMetadata metadata))"
proof -
  have "expect_read_handshake from_json ws = (Inr metadata :: ('u, 'j) client_error + _, rest) \<longleftrightarrow>
     (\<exists>ws'. expect_ready from_json ws = (Inr (sm_kind metadata) :: ('u, 'j) client_error + _, ws')
        \<and> expect_frame from_json extract_metadata ws' = (Inr metadata :: ('u, 'j) client_error + _, rest))"
    by (auto simp: expect_read_handshake_def split: prod.splits sum.splits if_splits)
  then show ?thesis
    by (auto simp: expect_ready_def expect_frame_Inr next_server_frame_Some)
qed

text \<open>Every acknowledgement that \<open>recv_ack\<close> hands to the writer covers at least one record and maps the
  writer range to a durable range of the same length; the frame it came from carries exactly these four numbers.\<close>

theorem recv_ack_valid:
  "case recv_ack from_json ws :: (('u, 'j) client_error + append_ack option) \<times> socket of
     (Inr (Some ack), rest) \<Rightarrow> valid_ack ack
       \<and> next_server_frame from_json ws = (Inr (Some (AppendAck (aa_writer_start_seq_num ack) (aa_writer_end_seq_num ack)
             (aa_start_seq_num ack) (aa_end_seq_num ack))) :: ('u, 'j) client_error + 'i server_frame option, rest)
   | _ \<Rightarrow> True"
proof -
  obtain r rest where frame: "next_server_frame from_json ws = (r :: ('u, 'j) client_error + 'i server_frame option, rest)"
    by (cases "next_server_frame from_json ws :: (('u, 'j) client_error + 'i server_frame option) \<times> socket")
  have valid: "valid_ack ack \<and> ack = a" if "validate_ack a = (Inr ack :: ('u, 'j) client_error + append_ack)" for a ack
  proof -
    have "(\<exists>k. ack_record_count a = (Inr k :: ('u, 'j) client_error + u64)) \<and> ack = a"
      using that by (cases "ack_record_count a :: ('u, 'j) client_error + u64") (auto simp: validate_ack_def and_then_def split: sum.splits)
    then show ?thesis
      using iffD1[OF ack_record_count_Inr] by blast
  qed
  show ?thesis
    by (auto simp: recv_ack_def frame and_then_eq_Inr dest!: valid
        split: sum.splits option.splits server_frame.splits)
qed

end
