(* ===== verification/WriterActor.thy ===== *)
theory WriterActor
  imports Sockets
begin

text \<open>
  The durable writer actor (\<open>rust/src/client.rs\<close>): producers and tickets, sending under the window,
  recovery and the loop of \<open>run_writer\<close>. The actor's state is a record; one step is one pass from
  a wait point of the loop to the next. What the environment decides is an argument of the step: the
  outcome \<open>io k\<close> of the \<open>k\<close>-th socket operation of a send, the outcomes of the connection attempts,
  the branch that \<open>select!\<close> takes and the messages the socket delivers. The state also keeps what
  the environment can observe: the records fed to the current socket, the messages sent to tickets and
  closers, and the batches accepted from producers.
\<close>

section \<open>Interface of a retained queue\<close>

text \<open>
  What the actor relies on in the queue. The laws relate the records in flight and the unsent
  ones before and after each operation; from them follow the histories of a connection.
\<close>

definition conn_history :: "'r list \<Rightarrow> nat \<Rightarrow> nat \<Rightarrow> 'r list \<Rightarrow> 'r list \<Rightarrow> 'r list \<Rightarrow> bool" where
  "conn_history all acked base wire flight unsent \<longleftrightarrow> acked \<le> length all \<and> drop acked all = flight @ unsent
     \<and> base \<le> acked \<and> wire = slice all base (acked + length flight)"

locale retained_queue =
  fixes inv :: "'q \<Rightarrow> bool"
    and flight :: "'q \<Rightarrow> 'r list"
    and unsent :: "'q \<Rightarrow> 'r list"
    and frame :: "'q \<Rightarrow> 'r list \<Rightarrow> 'q \<Rightarrow> bool"
    and ack :: "'q \<Rightarrow> nat \<Rightarrow> 'q \<Rightarrow> bool"
    and admit :: "'q \<Rightarrow> 'r list \<Rightarrow> 'q \<Rightarrow> bool"
    and rewind :: "'q \<Rightarrow> 'q"
  assumes frame_law: "inv q \<Longrightarrow> frame q rs q' \<Longrightarrow> inv q' \<and> unsent q = rs @ unsent q' \<and> flight q' = flight q @ rs"
    and ack_law: "inv q \<Longrightarrow> ack q k q' \<Longrightarrow> inv q' \<and> k \<le> length (flight q) \<and> flight q' = drop k (flight q) \<and> unsent q' = unsent q"
    and admit_law: "inv q \<Longrightarrow> admit q rs q' \<Longrightarrow> inv q' \<and> flight q' = flight q \<and> unsent q' = unsent q @ rs"
    and rewind_law: "inv q \<Longrightarrow> inv (rewind q) \<and> flight (rewind q) = [] \<and> unsent (rewind q) = flight q @ unsent q"
begin

abbreviation history :: "'r list \<Rightarrow> nat \<Rightarrow> nat \<Rightarrow> 'r list \<Rightarrow> 'q \<Rightarrow> bool" where
  "history all acked base wire q \<equiv> conn_history all acked base wire (flight q) (unsent q)"

lemma frame_history:
  assumes "inv q" "frame q rs q'" "history all acked base wire q"
  shows "history all acked base (wire @ rs) q'"
proof -
  have q': "unsent q = rs @ unsent q'" "flight q' = flight q @ rs"
    using frame_law[OF assms(1,2)] by auto
  have all: "drop acked all = flight q @ rs @ unsent q'" and acked: "acked \<le> length all" "base \<le> acked"
    and wire: "wire = slice all base (acked + length (flight q))"
    using assms(3) q' by (auto simp: conn_history_def)
  have "drop (acked + length (flight q)) all = rs @ unsent q'"
    unfolding drop_drop[symmetric, of "length (flight q)" acked all, simplified add.commute] all by simp
  then have "slice all (acked + length (flight q)) (acked + length (flight q) + length rs) = rs"
    by (simp add: slice_def)
  then have "slice all base (acked + length (flight q) + length rs) = wire @ rs"
    unfolding wire using slice_append_slice[of base "acked + length (flight q)" "acked + length (flight q) + length rs" all] acked
    by simp
  then show ?thesis
    using q' all acked by (simp add: conn_history_def add.assoc)
qed

lemma ack_history:
  assumes "inv q" "ack q k q'" "history all acked base wire q"
  shows "history all (acked + k) base wire q'"
proof -
  have q': "k \<le> length (flight q)" "flight q' = drop k (flight q)" "unsent q' = unsent q"
    using ack_law[OF assms(1,2)] by auto
  have all: "drop acked all = flight q @ unsent q" and acked: "acked \<le> length all" "base \<le> acked"
    and wire: "wire = slice all base (acked + length (flight q))"
    using assms(3) by (auto simp: conn_history_def)
  have "length all - acked = length (flight q) + length (unsent q)"
    using arg_cong[OF all, of length] by simp
  moreover have "drop (acked + k) all = drop k (drop acked all)"
    by (simp add: add.commute)
  ultimately show ?thesis
    using q' all acked wire by (simp add: conn_history_def)
qed

lemma admit_history:
  assumes "inv q" "admit q rs q'" "history all acked base wire q"
  shows "history (all @ rs) acked base wire q'"
proof -
  have q': "flight q' = flight q" "unsent q' = unsent q @ rs"
    using admit_law[OF assms(1,2)] by auto
  have all: "drop acked all = flight q @ unsent q" and acked: "acked \<le> length all"
    using assms(3) by (auto simp: conn_history_def)
  have "length (flight q) + length (unsent q) = length all - acked"
    using length_drop[of acked all] unfolding all by simp
  then have "acked + length (flight q) \<le> length all"
    using acked by linarith
  then have "slice (all @ rs) base (acked + length (flight q)) = slice all base (acked + length (flight q))"
    by (cases "base \<le> length all") (auto simp: slice_def)
  then show ?thesis
    using assms(3) q' acked by (simp add: conn_history_def)
qed

lemma rewind_history:
  assumes "inv q" "history all acked base wire q"
  shows "history all acked acked [] (rewind q)"
  using rewind_law[OF assms(1)] assms(2) by (simp add: conn_history_def)

end


section \<open>The actor's state\<close>

definition WRITER_OPEN :: u8 where "WRITER_OPEN = 0"
definition WRITER_CLOSING :: u8 where "WRITER_CLOSING = 1"
definition WRITER_DONE :: u8 where "WRITER_DONE = 2"

datatype writer_status = LoopTop | Waiting | Returned | Panicked

record ('u, 'j, 't, 'd) writer_actor =
  wa_state :: u8
  wa_terminal_error :: "('u, 'j) client_error option"
  wa_queue :: "('t, 'd) writer_command list"
  wa_pending :: "'t pending_submission list"
  wa_window :: in_flight_window
  wa_cursor :: u64
  wa_close_tx :: "'d option"
  wa_attempts :: nat
  wa_kind :: stream_kind
  wa_status :: writer_status
  wa_wire :: "append_record list"
  wa_slept :: "duration list"
  wa_tickets :: "('u, 'j, 't) ticket_message list"
  wa_closed :: "('d \<times> (('u, 'j) client_error + unit)) list"
  wa_accepted :: "('t \<times> record_payload list) list"

definition writer_new :: "stream_kind \<Rightarrow> ('u, 'j, 't, 'd) writer_actor" where
  "writer_new kind =
     \<lparr> wa_state = WRITER_OPEN, wa_terminal_error = None, wa_queue = [], wa_pending = [], wa_window = window_default,
       wa_cursor = 0, wa_close_tx = None, wa_attempts = 0, wa_kind = kind, wa_status = LoopTop, wa_wire = [],
       wa_slept = [], wa_tickets = [], wa_closed = [], wa_accepted = [] \<rparr>"

text \<open>\<open>OnceLock::set\<close> keeps the first error.\<close>

definition once_set :: "'a option \<Rightarrow> 'a \<Rightarrow> 'a option" where
  "once_set cell value = (case cell of None \<Rightarrow> Some value | Some v \<Rightarrow> Some v)"

definition retained_terminal_error :: "('u, 'j) client_error option \<Rightarrow> ('u, 'j) client_error option" where
  "retained_terminal_error cell = map_option AppendDurabilityUnknown cell"

definition terminal_writer_error :: "('u, 'j) client_error option \<Rightarrow> ('u, 'j) client_error \<Rightarrow> ('u, 'j) client_error" where
  "terminal_writer_error cell fallback = (case retained_terminal_error cell of None \<Rightarrow> fallback | Some e \<Rightarrow> e)"

section \<open>Producers and tickets\<close>

definition is_open :: "('u, 'j, 't, 'd) writer_actor \<Rightarrow> bool" where
  "is_open a \<longleftrightarrow> wa_state a = WRITER_OPEN"

definition closed_error :: "('u, 'j, 't, 'd) writer_actor \<Rightarrow> ('u, 'j) client_error" where
  "closed_error a = terminal_writer_error (wa_terminal_error a) AppendWriterClosed"

text \<open>The command channel delivers as long as the actor holds its receiver.\<close>

definition channel_send :: "('t, 'd) writer_command \<Rightarrow> ('u, 'j, 't, 'd) writer_actor \<Rightarrow> ('u, 'j, 't, 'd) writer_actor option" where
  "channel_send command a =
     (if wa_status a \<in> {Returned, Panicked} then None else Some (a\<lparr> wa_queue := wa_queue a @ [command] \<rparr>))"

definition producer_submit :: "append_batch \<Rightarrow> 't \<Rightarrow> ('u, 'j, 't, 'd) writer_actor
    \<Rightarrow> (('u, 'j) client_error + 't) \<times> ('u, 'j, 't, 'd) writer_actor" where
  "producer_submit batch ack_tx a =
     (if \<not> is_open a then (Inl (closed_error a), a)
      else case channel_send (Submit batch ack_tx) a of
          None \<Rightarrow> (Inl (closed_error a), a)
        | Some a \<Rightarrow> (Inr ack_tx, a\<lparr> wa_accepted := wa_accepted a @ [(ack_tx, batch_payloads batch)] \<rparr>))"

definition writer_close :: "'d \<Rightarrow> ('u, 'j, 't, 'd) writer_actor
    \<Rightarrow> (('u, 'j) client_error + unit) \<times> ('u, 'j, 't, 'd) writer_actor" where
  "writer_close done_tx a =
     (let a = a\<lparr> wa_state := max (wa_state a) WRITER_CLOSING \<rparr> in
      case channel_send (Close done_tx) a of
        None \<Rightarrow> (Inl (closed_error a), a)
      | Some a \<Rightarrow> (Inr (), a))"

text \<open>A task that returns or is aborted drops what it holds: the command receiver with the commands in it, the
  retained submissions and the closer, each with its sender.\<close>

definition drop_task :: "('u, 'j, 't, 'd) writer_actor \<Rightarrow> ('u, 'j, 't, 'd) writer_actor" where
  "drop_task a = a\<lparr> wa_queue := [], wa_pending := [], wa_close_tx := None \<rparr>"

definition abort_task :: "('u, 'j) client_error \<Rightarrow> ('u, 'j, 't, 'd) writer_actor \<Rightarrow> ('u, 'j, 't, 'd) writer_actor" where
  "abort_task cause a =
     (drop_task a)\<lparr> wa_terminal_error := once_set (wa_terminal_error a) cause, wa_state := WRITER_DONE, wa_status := Returned \<rparr>"





section \<open>Sending, recovering, failing\<close>

definition frame_next :: "('u, 'j, 't, 'd) writer_actor
    \<Rightarrow> (unit, append_record list) outcome \<times> ('u, 'j, 't, 'd) writer_actor" where
  "frame_next a = (case take_frame (wa_pending a) (wa_window a) of
       (Ok frame, pending, w) \<Rightarrow> (Ok frame, a\<lparr> wa_pending := pending, wa_window := w, wa_wire := wa_wire a @ frame \<rparr>)
     | (_, pending, w) \<Rightarrow> (Panic, a\<lparr> wa_pending := pending, wa_window := w \<rparr>))"

lemma take_from_submission_unsent:
  "take_from_submission s f = (r, s', f') \<Longrightarrow>
     length (drop (ps_sent s') (ps_payloads s')) + length (fr_frame f') = length (drop (ps_sent s) (ps_payloads s)) + length (fr_frame f)"
proof (induction s f arbitrary: r s' f' rule: take_from_submission.induct)
  case (1 s f)
  show ?case
  proof (cases "ps_sent s < length (ps_payloads s) \<and> \<not> fr_bytes f > MAX_FRAME_PAYLOAD_BYTES
      \<and> \<not> framing_full f (length (rp_data (ps_payloads s ! ps_sent s)))")
    case True
    then have "take_from_submission s f
        = take_from_submission (s\<lparr> ps_sent := ps_sent s + 1 \<rparr>) (framing_push (submission_record s (ps_sent s)) f)"
      by (subst take_from_submission.simps) (simp add: Let_def)
    moreover have "length (drop (ps_sent s') (ps_payloads s')) + length (fr_frame f')
        = length (drop (ps_sent (s\<lparr> ps_sent := ps_sent s + 1 \<rparr>)) (ps_payloads (s\<lparr> ps_sent := ps_sent s + 1 \<rparr>)))
          + length (fr_frame (framing_push (submission_record s (ps_sent s)) f))"
      by (rule 1(1)[OF _ refl]) (use 1(2) True calculation in simp_all)
    ultimately show ?thesis
      using True by simp arith
  next
    case False
    with 1(2) show ?thesis
      by (subst (asm) take_from_submission.simps) (auto simp: Let_def split: if_splits)
  qed
qed

lemma length_unsent: "length (unsent_records pending) = sum_list (map (\<lambda>s. length (drop (ps_sent s) (ps_payloads s))) pending)"
  by (simp add: unsent_records_def length_concat comp_def)

lemma take_frame_loop_unsent:
  "take_frame_loop ss f = (r, ss', f') \<Longrightarrow>
     length (unsent_records ss') + length (fr_frame f') = length (unsent_records ss) + length (fr_frame f)"
proof (induction ss f arbitrary: r ss' f' rule: take_frame_loop.induct)
  case (2 s ss f)
  obtain q s' g where head: "take_from_submission s f = (q, s', g)"
    by (cases "take_from_submission s f")
  note eq = take_from_submission_unsent[OF head]
  show ?case
  proof (cases "q = Ok False")
    case True
    then obtain ss2 where "take_frame_loop ss g = (r, ss2, f')" "ss' = s' # ss2"
      using 2(2) head by (auto split: prod.splits)
    then show ?thesis
      using 2(1)[OF head[symmetric] True refl refl] eq by (simp add: length_unsent)
  next
    case False
    then have "ss' = s' # ss" "f' = g"
      using 2(2) head by (auto split: outcome.splits bool.splits)
    then show ?thesis
      using eq by (simp add: length_unsent)
  qed
qed simp

lemma frame_next_unsent:
  "frame_next a = (Ok frame, a') \<Longrightarrow> length (unsent_records (wa_pending a')) + length frame = length (unsent_records (wa_pending a))"
  by (auto simp: frame_next_def take_frame_def dest!: take_frame_loop_unsent split: prod.splits outcome.splits)


lemma frame_next_less:
  "frame_next a = (Ok frame, a') \<Longrightarrow> frame \<noteq> [] \<Longrightarrow> length (unsent_records (wa_pending a')) < length (unsent_records (wa_pending a))"
  using frame_next_unsent[of a frame a'] by (cases frame) auto

text \<open>The loop of \<open>send_pending\<close>: the number of socket operations so far and whether any frame was fed.
  An elapsed progress timeout is the error of the operation it interrupts.\<close>

function send_loop :: "'b buf_mut \<Rightarrow> (nat \<Rightarrow> ('u, 'j) client_error option) \<Rightarrow> nat \<Rightarrow> bool \<Rightarrow> ('u, 'j, 't, 'd) writer_actor
    \<Rightarrow> (('u, 'j) client_error, nat \<times> bool) outcome \<times> ('u, 'j, 't, 'd) writer_actor" where
  "send_loop B io k fed a =
     (case frame_next a of
        (Ok frame, a) \<Rightarrow>
          if frame = [] then (Ok (k, fed), a)
          else (case encode_append_batch B frame of
              Inl e \<Rightarrow> (Err (FrameError e), a)
            | Inr _ \<Rightarrow> (case io k of
                Some e \<Rightarrow> (Err e, a)
              | None \<Rightarrow> send_loop B io (k + 1) True a))
      | (_, a) \<Rightarrow> (Panic, a))"
  by pat_completeness auto
termination
  by (relation "measure (\<lambda>(_, _, _, _, a). length (unsent_records (wa_pending a)))")
    (auto dest!: sym[of _ "frame_next _"] dest: frame_next_less)

declare send_loop.simps [simp del]

definition send_pending :: "'b buf_mut \<Rightarrow> (nat \<Rightarrow> ('u, 'j) client_error option) \<Rightarrow> instant \<Rightarrow> duration
    \<Rightarrow> ('u, 'j, 't, 'd) writer_actor \<Rightarrow> (('u, 'j) client_error, unit) outcome \<times> ('u, 'j, 't, 'd) writer_actor" where
  "send_pending B io now progress_timeout a =
     (case send_loop B io 0 False a of
        (Ok (k, fed), a) \<Rightarrow>
          if fed then (case io k of
              Some e \<Rightarrow> (Err e, a)
            | None \<Rightarrow> (Ok (), a\<lparr> wa_window := window_arm now progress_timeout (wa_window a) \<rparr>))
          else (Ok (), a)
      | (Err e, a) \<Rightarrow> (Err e, a)
      | (Panic, a) \<Rightarrow> (Panic, a))"

text \<open>The connection attempts; \<open>None\<close> means that the attempts given were all used up and the loop goes on.\<close>

fun reconnect_loop :: "(duration \<Rightarrow> duration) \<Rightarrow> (('u, 'j) client_error + stream_kind) list \<Rightarrow> ('u, 'j, 't, 'd) writer_actor
    \<Rightarrow> (('u, 'j) client_error + unit) option \<times> ('u, 'j, 't, 'd) writer_actor" where
  "reconnect_loop jitter [] a = (None, a)"
| "reconnect_loop jitter (attempt # rest) a =
     (let delay = reconnect_delay jitter (wa_attempts a);
          a = a\<lparr> wa_slept := wa_slept a @ [delay], wa_attempts := sat_add (wa_attempts a) 1 \<rparr> in
      case attempt of
        Inr kind \<Rightarrow>
          if kind \<noteq> wa_kind a then (Some (Inl StreamKindChanged), a)
          else (Some (Inr ()), a\<lparr> wa_kind := kind, wa_wire := [], wa_pending := rewind_pending (wa_pending a),
                                  wa_window := window_default \<rparr>)
      | Inl next_error \<Rightarrow>
          if is_retryable next_error then reconnect_loop jitter rest a
          else (Some (Inl next_error), a))"

definition recover_pending_appends :: "(duration \<Rightarrow> duration) \<Rightarrow> (('u, 'j) client_error + stream_kind) list
    \<Rightarrow> ('u, 'j) client_error \<Rightarrow> ('u, 'j, 't, 'd) writer_actor
    \<Rightarrow> (('u, 'j) client_error + unit) option \<times> ('u, 'j, 't, 'd) writer_actor" where
  "recover_pending_appends jitter attempts error a =
     (if \<not> is_retryable error then (Some (Inl error), a) else reconnect_loop jitter attempts a)"

text \<open>Returning from the task runs the shutdown guard, and so does a panic.\<close>

definition shutdown :: "('u, 'j, 't, 'd) writer_actor \<Rightarrow> ('u, 'j, 't, 'd) writer_actor" where
  "shutdown a = (drop_task a)\<lparr> wa_state := WRITER_DONE, wa_status := Returned \<rparr>"

definition unwind :: "('u, 'j, 't, 'd) writer_actor \<Rightarrow> ('u, 'j, 't, 'd) writer_actor" where
  "unwind a = (drop_task a)\<lparr> wa_state := WRITER_DONE, wa_status := Panicked \<rparr>"

definition finish_writer_error :: "('u, 'j) client_error \<Rightarrow> ('u, 'j, 't, 'd) writer_actor \<Rightarrow> ('u, 'j, 't, 'd) writer_actor" where
  "finish_writer_error error a =
     (let a = a\<lparr> wa_terminal_error := once_set (wa_terminal_error a) error,
                 wa_tickets := wa_tickets a @ fail_pending (wa_pending a) error, wa_pending := [] \<rparr> in
      case wa_close_tx a of
        None \<Rightarrow> a
      | Some d \<Rightarrow> a\<lparr> wa_close_tx := None, wa_closed := wa_closed a @ [(d, Inl (AppendDurabilityUnknown error))] \<rparr>)"

text \<open>The recovery at both of its call sites: go on at the loop top, or finish with the error.\<close>

definition interrupted :: "(duration \<Rightarrow> duration) \<Rightarrow> (('u, 'j) client_error + stream_kind) list \<Rightarrow> ('u, 'j) client_error
    \<Rightarrow> ('u, 'j, 't, 'd) writer_actor \<Rightarrow> ('u, 'j, 't, 'd) writer_actor option" where
  "interrupted jitter attempts error a =
     (case recover_pending_appends jitter attempts error a of
        (None, _) \<Rightarrow> None
      | (Some (Inl e), a) \<Rightarrow> Some (shutdown (finish_writer_error e a))
      | (Some (Inr _), a) \<Rightarrow> Some (a\<lparr> wa_status := LoopTop \<rparr>))"

section \<open>The loop of \<open>run_writer\<close>\<close>

text \<open>From the loop top to the \<open>select!\<close>. \<open>None\<close>: the recovery needs further connection attempts.\<close>

definition top_step :: "'b buf_mut \<Rightarrow> (duration \<Rightarrow> duration) \<Rightarrow> duration \<Rightarrow> (nat \<Rightarrow> ('u, 'j) client_error option)
    \<Rightarrow> (('u, 'j) client_error + stream_kind) list \<Rightarrow> instant
    \<Rightarrow> ('u, 'j, 't, 'd) writer_actor \<Rightarrow> ('u, 'j, 't, 'd) writer_actor option" where
  "top_step B jitter progress_timeout io attempts now a =
     (case send_pending B io now progress_timeout a of
        (Panic, a) \<Rightarrow> Some (unwind a)
      | (Err e, a) \<Rightarrow> interrupted jitter attempts e a
      | (Ok _, a) \<Rightarrow>
          (case (wa_pending a, wa_close_tx a) of
             ([], Some d) \<Rightarrow> Some (shutdown (a\<lparr> wa_close_tx := None, wa_closed := wa_closed a @ [(d, Inr ())] \<rparr>))
           | _ \<Rightarrow> Some (a\<lparr> wa_status := Waiting \<rparr>)))"

text \<open>What \<open>select!\<close> wakes up on: a command, the closed command channel, the socket, or the deadline.\<close>

datatype writer_choice = OnCommand | OnChannelClosed | OnSocket socket | OnDeadline

definition command_step :: "('u, 'j, 't, 'd) writer_actor \<Rightarrow> ('u, 'j, 't, 'd) writer_actor option" where
  "command_step a =
     (case wa_queue a of
        [] \<Rightarrow> None
      | command # rest \<Rightarrow>
          (case drain_queued_commands command \<lparr> d_pending = wa_pending a, d_close_tx = wa_close_tx a,
                d_cursor = wa_cursor a, d_queue = rest \<rparr> of (result, d) \<Rightarrow>
           let a = a\<lparr> wa_pending := d_pending d, wa_close_tx := d_close_tx d, wa_cursor := d_cursor d, wa_queue := d_queue d \<rparr> in
           case result of
             Inl e \<Rightarrow> Some (shutdown (finish_writer_error e a))
           | Inr _ \<Rightarrow> Some (a\<lparr> wa_status := LoopTop \<rparr>)))"

definition ack_step :: "duration \<Rightarrow> instant \<Rightarrow> append_ack \<Rightarrow> ('u, 'j, 't, 'd) writer_actor \<Rightarrow> ('u, 'j, 't, 'd) writer_actor" where
  "ack_step progress_timeout now ack a =
     (case dispatch_ack ack (wa_pending a) (wa_window a) of
        Panic \<Rightarrow> unwind a
      | Err e \<Rightarrow> shutdown (finish_writer_error e a)
      | Ok (pending, w, msgs) \<Rightarrow>
          a\<lparr> wa_pending := pending, wa_window := window_restart now progress_timeout w, wa_tickets := wa_tickets a @ msgs,
             wa_attempts := 0, wa_status := LoopTop \<rparr>)"

text \<open>\<open>select!\<close> panics when both of its branches are disabled.\<close>

definition select_step :: "(bytes \<Rightarrow> 'j + 'i stream_metadata) \<Rightarrow> (duration \<Rightarrow> duration) \<Rightarrow> duration
    \<Rightarrow> (('u, 'j) client_error + stream_kind) list \<Rightarrow> instant \<Rightarrow> writer_choice
    \<Rightarrow> ('u, 'j, 't, 'd) writer_actor \<Rightarrow> ('u, 'j, 't, 'd) writer_actor option" where
  "select_step from_json jitter progress_timeout attempts now choice a =
     (if wa_close_tx a \<noteq> None \<and> w_records (wa_window a) = 0 then Some (unwind a)
      else case choice of
          OnCommand \<Rightarrow> if wa_close_tx a = None then command_step a else None
        | OnChannelClosed \<Rightarrow>
            if wa_close_tx a = None \<and> wa_queue a = []
            then Some (shutdown (a\<lparr> wa_tickets := wa_tickets a @ fail_pending (wa_pending a) AppendWriterDropped, wa_pending := [] \<rparr>))
            else None
        | OnSocket ws \<Rightarrow>
            if w_records (wa_window a) > 0 then
              (case recv_ack from_json ws of
                 (Inl e, _) \<Rightarrow> interrupted jitter attempts e a
               | (Inr None, _) \<Rightarrow> interrupted jitter attempts WebSocketClosed a
               | (Inr (Some ack), _) \<Rightarrow> Some (ack_step progress_timeout now ack a))
            else None
        | OnDeadline \<Rightarrow>
            if w_records (wa_window a) > 0 then
              (case w_ack_deadline (wa_window a) of
                 None \<Rightarrow> None
               | Some deadline \<Rightarrow>
                   if deadline \<le> now then interrupted jitter attempts (Timeout ''append acknowledgement'') a else None)
            else None)"

text \<open>The whole system: producers, the closer, an abort, and the actor. \<open>TsfWriter::close\<close> consumes the writer.\<close>

inductive writer_step :: "'b buf_mut \<Rightarrow> (bytes \<Rightarrow> 'j + 'i stream_metadata) \<Rightarrow> (duration \<Rightarrow> duration) \<Rightarrow> duration
    \<Rightarrow> ('u, 'j, 't, 'd) writer_actor \<Rightarrow> ('u, 'j, 't, 'd) writer_actor \<Rightarrow> bool"
  for B from_json jitter progress_timeout where
  submit: "wf_command (Submit batch t :: ('t, 'd) writer_command) \<Longrightarrow> producer_submit batch t a = (r, a')
    \<Longrightarrow> writer_step B from_json jitter progress_timeout a a'"
| close: "is_open a \<Longrightarrow> writer_close d a = (r, a') \<Longrightarrow> writer_step B from_json jitter progress_timeout a a'"
| abort: "wa_status a \<noteq> Panicked \<Longrightarrow> writer_step B from_json jitter progress_timeout a (abort_task cause a)"
| top: "wa_status a = LoopTop \<Longrightarrow> top_step B jitter progress_timeout io attempts now a = Some a'
    \<Longrightarrow> writer_step B from_json jitter progress_timeout a a'"
| select: "wa_status a = Waiting \<Longrightarrow> select_step from_json jitter progress_timeout attempts now choice a = Some a'
    \<Longrightarrow> writer_step B from_json jitter progress_timeout a a'"

inductive writer_reachable :: "'b buf_mut \<Rightarrow> (bytes \<Rightarrow> 'j + 'i stream_metadata) \<Rightarrow> (duration \<Rightarrow> duration) \<Rightarrow> duration
    \<Rightarrow> ('u, 'j, 't, 'd) writer_actor \<Rightarrow> bool"
  for B from_json jitter progress_timeout where
  start: "writer_reachable B from_json jitter progress_timeout (writer_new kind)"
| step: "writer_reachable B from_json jitter progress_timeout a \<Longrightarrow> writer_step B from_json jitter progress_timeout a a'
    \<Longrightarrow> writer_reachable B from_json jitter progress_timeout a'"

inductive_cases writer_stepE: "writer_step B from_json jitter progress_timeout a a'"


section \<open>The model's queue satisfies the interface\<close>

definition actor_queue_inv :: "nat \<Rightarrow> ('u, 'j, 't, 'd) writer_actor \<Rightarrow> bool" where
  "actor_queue_inv n a \<longleftrightarrow> queue_inv n (wa_pending a) (wa_window a) (wa_cursor a)"

definition acknowledges :: "('u, 'j, 't, 'd) writer_actor \<Rightarrow> nat \<Rightarrow> ('u, 'j, 't, 'd) writer_actor \<Rightarrow> bool" where
  "acknowledges a k a' \<longleftrightarrow> (\<exists>ack progress_timeout now result. k = ack_count ack
     \<and> dispatch_ack ack (wa_pending a) (wa_window a) = (Ok result :: (('u, 'j) client_error, _ \<times> _ \<times> ('u, 'j, 't) ticket_message list) outcome)
     \<and> a' = ack_step progress_timeout now ack a)"

definition drain_of :: "('t, 'd) writer_command list \<Rightarrow> ('u, 'j, 't, 'd) writer_actor \<Rightarrow> ('t, 'd) drain_state" where
  "drain_of queue a = \<lparr> d_pending = wa_pending a, d_close_tx = wa_close_tx a, d_cursor = wa_cursor a, d_queue = queue \<rparr>"

definition apply_drain :: "('t, 'd) drain_state \<Rightarrow> ('u, 'j, 't, 'd) writer_actor \<Rightarrow> ('u, 'j, 't, 'd) writer_actor" where
  "apply_drain d a = a\<lparr> wa_pending := d_pending d, wa_close_tx := d_close_tx d, wa_cursor := d_cursor d, wa_queue := d_queue d \<rparr>"

definition admits :: "('u, 'j, 't, 'd) writer_actor \<Rightarrow> append_record list \<Rightarrow> ('u, 'j, 't, 'd) writer_actor \<Rightarrow> bool" where
  "admits a rs a' \<longleftrightarrow> (\<exists>command rest result d. wa_queue a = command # rest \<and> list_all wf_command (wa_queue a)
     \<and> drain_queued_commands command (drain_of rest a) = (result :: ('u, 'j) client_error + unit, d) \<and> a' = apply_drain d a
     \<and> rs = number_records (unat (wa_cursor a)) (concat (map snd (drop (length (wa_pending a)) (submissions (d_pending d))))))"

definition reconnected :: "('u, 'j, 't, 'd) writer_actor \<Rightarrow> ('u, 'j, 't, 'd) writer_actor" where
  "reconnected a = a\<lparr> wa_wire := [], wa_pending := rewind_pending (wa_pending a), wa_window := window_default \<rparr>"

lemma queue_inv_deadline [simp]: "queue_inv n p (w\<lparr> w_ack_deadline := x \<rparr>) c = queue_inv n p w c"
  by (simp add: queue_inv_def window_ok_def)

lemma queue_inv_restart [simp]:
  "queue_inv n p (window_restart now t w) c = queue_inv n p w c" "queue_inv n p (window_arm now t w) c = queue_inv n p w c"
  by (simp_all add: window_restart_def window_arm_def split: option.splits)

lemma frame_next_queue:
  assumes "actor_queue_inv n a"
  obtains rs a' where "frame_next a = (Ok rs, a')" "actor_queue_inv n a'"
    "a' = a\<lparr> wa_pending := wa_pending a', wa_window := wa_window a', wa_wire := wa_wire a @ rs \<rparr>"
    "unsent_records (wa_pending a) = rs @ unsent_records (wa_pending a')"
    "in_flight_records (wa_pending a') = in_flight_records (wa_pending a) @ rs"
    "acked_in_front (wa_pending a') = acked_in_front (wa_pending a)" "submissions (wa_pending a') = submissions (wa_pending a)"
    "w_ack_deadline (wa_window a') = w_ack_deadline (wa_window a)" "rs \<noteq> [] \<Longrightarrow> append_bounds rs"
    "rs = [] \<Longrightarrow> unsent_records (wa_pending a') = [] \<or> in_flight_records (wa_pending a') \<noteq> []"
proof (rule take_frame_queue[OF assms[unfolded actor_queue_inv_def]])
  fix rs pending' w'
  assume take: "take_frame (wa_pending a) (wa_window a) = (Ok rs, pending', w')" "queue_inv n pending' w' (wa_cursor a)"
    "unsent_records (wa_pending a) = rs @ unsent_records pending'"
    "in_flight_records pending' = in_flight_records (wa_pending a) @ rs"
    "acked_in_front pending' = acked_in_front (wa_pending a)" "submissions pending' = submissions (wa_pending a)"
    "w_ack_deadline w' = w_ack_deadline (wa_window a)" "rs \<noteq> [] \<Longrightarrow> append_bounds rs"
    "rs = [] \<Longrightarrow> unsent_records pending' = [] \<or> in_flight_records pending' \<noteq> []"
  let ?a = "a\<lparr> wa_pending := pending', wa_window := w', wa_wire := wa_wire a @ rs \<rparr>"
  show thesis
    by (rule that[of rs ?a]) (use take in \<open>simp_all add: frame_next_def actor_queue_inv_def\<close>)
qed

lemma ack_step_queue:
  fixes a :: "('u, 'j, 't, 'd) writer_actor"
  assumes "actor_queue_inv n a" "acceptable_ack n (wa_pending a) ack"
  obtains gone msgs where "actor_queue_inv (n + records_of gone) (ack_step t now ack a)"
    "ack_step t now ack a = a\<lparr> wa_pending := wa_pending (ack_step t now ack a), wa_window := wa_window (ack_step t now ack a),
       wa_tickets := wa_tickets a @ msgs, wa_attempts := 0, wa_status := LoopTop \<rparr>"
    "submissions (wa_pending a) = gone @ submissions (wa_pending (ack_step t now ack a))" "resolved_ok n gone msgs"
    "n + records_of gone + acked_in_front (wa_pending (ack_step t now ack a)) = n + acked_in_front (wa_pending a) + ack_count ack"
    "in_flight_records (wa_pending (ack_step t now ack a)) = drop (ack_count ack) (in_flight_records (wa_pending a))"
    "unsent_records (wa_pending (ack_step t now ack a)) = unsent_records (wa_pending a)"
    "w_records (wa_window (ack_step t now ack a)) > 0 \<longrightarrow> w_ack_deadline (wa_window (ack_step t now ack a)) \<noteq> None"
    "\<exists>r. dispatch_ack ack (wa_pending a) (wa_window a) = (Ok r :: (('u, 'j) client_error, _) outcome)"
proof (cases rule: dispatch_ack_cases[where ?'u = 'u and ?'j = 'j, OF assms(1)[unfolded actor_queue_inv_def], of ack])
  case (1 e)
  with assms(2) show thesis by simp
next
  case (2 pending' w' msgs)
  then obtain gone where gone: "submissions (wa_pending a) = gone @ submissions pending'" "resolved_ok n gone msgs"
    "queue_inv (n + records_of gone) pending' w' (wa_cursor a)"
    "n + records_of gone + acked_in_front pending' = n + acked_in_front (wa_pending a) + ack_count ack"
    "in_flight_records pending' = drop (ack_count ack) (in_flight_records (wa_pending a))"
    "unsent_records pending' = unsent_records (wa_pending a)"
    unfolding dispatched_def by blast
  have step: "ack_step t now ack a = a\<lparr> wa_pending := pending', wa_window := window_restart now t w',
      wa_tickets := wa_tickets a @ msgs, wa_attempts := 0, wa_status := LoopTop \<rparr>"
    using 2(1) by (simp add: ack_step_def)
  show thesis
    by (rule that[of gone msgs])
      (use gone 2(1) in \<open>simp_all add: step actor_queue_inv_def window_restart_def\<close>)
qed

lemma drain_queue:
  fixes a :: "('u, 'j, 't, 'd) writer_actor"
  assumes "actor_queue_inv n a" "wa_queue a = command # rest" "list_all wf_command (wa_queue a)"
    "drain_queued_commands command (drain_of rest a) = (result :: ('u, 'j) client_error + unit, d)"
  obtains taken where "actor_queue_inv n (apply_drain d a)" "submissions (d_pending d) = submissions (wa_pending a) @ submits taken"
    "acked_in_front (d_pending d) = acked_in_front (wa_pending a)"
    "in_flight_records (d_pending d) = in_flight_records (wa_pending a)"
    "unsent_records (d_pending d) = unsent_records (wa_pending a) @ number_records (unat (wa_cursor a)) (concat (map snd (submits taken)))"
    "unat (d_cursor d) = unat (wa_cursor a) + records_of (submits taken)"
    "drain_outcome (wa_queue a) taken (wa_close_tx a) (result, d)"
proof -
  have "drained n (wa_window a) (command # d_queue (drain_of rest a)) (drain_of rest a) (result, d)"
    unfolding assms(4)[symmetric] drain_queued_commands_def
    by (rule drain_loop_drained) (use assms in \<open>auto simp: drain_of_def actor_queue_inv_def list_all_iff\<close>)
  then show thesis
    using that assms(2) by (auto simp: drained_def admitted_def drain_of_def apply_drain_def actor_queue_inv_def)
qed

interpretation wq: retained_queue "\<lambda>a. \<exists>n. actor_queue_inv n a" "\<lambda>a. in_flight_records (wa_pending a)"
  "\<lambda>a. unsent_records (wa_pending a)" "\<lambda>a rs a'. frame_next a = (Ok rs, a')" acknowledges admits reconnected
proof unfold_locales
  fix q :: "('u, 'j, 't, 'd) writer_actor" and rs q'
  assume "\<exists>n. actor_queue_inv n q" "frame_next q = (Ok rs, q')"
  then show "(\<exists>n. actor_queue_inv n q') \<and> unsent_records (wa_pending q) = rs @ unsent_records (wa_pending q')
      \<and> in_flight_records (wa_pending q') = in_flight_records (wa_pending q) @ rs"
    by (metis frame_next_queue outcome.inject(2) prod.inject)
next
  fix q q' :: "('u, 'j, 't, 'd) writer_actor" and k
  assume inv: "\<exists>n. actor_queue_inv n q" and "acknowledges q k q'"
  then obtain n ack t now result where n: "actor_queue_inv n q" and k: "k = ack_count ack" "q' = ack_step t now ack q"
    and ok: "dispatch_ack ack (wa_pending q) (wa_window q) = (Ok result :: (('u, 'j) client_error, _ \<times> _ \<times> ('u, 'j, 't) ticket_message list) outcome)"
    unfolding acknowledges_def by blast
  have acc: "acceptable_ack n (wa_pending q) ack"
    using dispatch_ack_cases[where ?'u = 'u and ?'j = 'j, OF n[unfolded actor_queue_inv_def], of ack] ok by force
  then have "k \<le> length (in_flight_records (wa_pending q))"
    by (simp add: k acceptable_ack_def)
  then show "(\<exists>n. actor_queue_inv n q') \<and> k \<le> length (in_flight_records (wa_pending q))
      \<and> in_flight_records (wa_pending q') = drop k (in_flight_records (wa_pending q))
      \<and> unsent_records (wa_pending q') = unsent_records (wa_pending q)"
    using ack_step_queue[OF n acc, of t now] unfolding k by metis
next
  fix q q' :: "('u, 'j, 't, 'd) writer_actor" and rs
  assume "\<exists>n. actor_queue_inv n q" and adm: "admits q rs q'"
  then obtain n command rest result d where n: "actor_queue_inv n q" and q: "wa_queue q = command # rest" "list_all wf_command (wa_queue q)"
    "drain_queued_commands command (drain_of rest q) = (result :: ('u, 'j) client_error + unit, d)" "q' = apply_drain d q"
    and rs: "rs = number_records (unat (wa_cursor q)) (concat (map snd (drop (length (wa_pending q)) (submissions (d_pending d)))))"
    unfolding admits_def by blast
  obtain taken :: "('t, 'd) writer_command list" where taken: "actor_queue_inv n (apply_drain d q)" "submissions (d_pending d) = submissions (wa_pending q) @ submits taken"
    "in_flight_records (d_pending d) = in_flight_records (wa_pending q)"
    "unsent_records (d_pending d) = unsent_records (wa_pending q) @ number_records (unat (wa_cursor q)) (concat (map snd (submits taken)))"
    by (rule drain_queue[OF n q(1-3)]) blast
  have "length (submissions (wa_pending q)) = length (wa_pending q)"
    by (simp add: submissions_def)
  then show "(\<exists>n. actor_queue_inv n q') \<and> in_flight_records (wa_pending q') = in_flight_records (wa_pending q)
      \<and> unsent_records (wa_pending q') = unsent_records (wa_pending q) @ rs"
    using taken q(4) rs by (auto simp: apply_drain_def)
next
  fix q :: "('u, 'j, 't, 'd) writer_actor"
  assume "\<exists>n. actor_queue_inv n q"
  then obtain n where "queue_inv n (wa_pending q) (wa_window q) (wa_cursor q)"
    by (auto simp: actor_queue_inv_def)
  then show "(\<exists>n. actor_queue_inv n (reconnected q)) \<and> in_flight_records (wa_pending (reconnected q)) = []
      \<and> unsent_records (wa_pending (reconnected q)) = in_flight_records (wa_pending q) @ unsent_records (wa_pending q)"
    using rewind_inv[of n] queue_retained_split[of n]
    by (auto simp: reconnected_def actor_queue_inv_def intro!: exI[of _ n])
qed


section \<open>The invariant of the running actor\<close>

fun is_close :: "('t, 'd) writer_command \<Rightarrow> bool" where
  "is_close (Close d) \<longleftrightarrow> True"
| "is_close (Submit batch t) \<longleftrightarrow> False"

text \<open>The close command is the last in the channel, and it is there or taken once the writer is closing.\<close>

definition close_order :: "('u, 'j, 't, 'd) writer_actor \<Rightarrow> bool" where
  "close_order a \<longleftrightarrow> list_all (\<lambda>c. \<not> is_close c) (butlast (wa_queue a))
     \<and> (wa_close_tx a \<noteq> None \<longrightarrow> wa_queue a = [])
     \<and> (is_open a \<longrightarrow> wa_close_tx a = None \<and> list_all (\<lambda>c. \<not> is_close c) (wa_queue a))"

definition all_records :: "('t \<times> record_payload list) list \<Rightarrow> append_record list" where
  "all_records subs = number_records 0 (concat (map snd subs))"

text \<open>The queue invariant with the history of the current connection: \<open>gone\<close> are the resolved batches.\<close>

definition actor_core :: "('t \<times> record_payload list) list \<Rightarrow> ('u, 'j, 't, 'd) writer_actor \<Rightarrow> bool" where
  "actor_core gone a \<longleftrightarrow> actor_queue_inv (records_of gone) a
     \<and> wa_accepted a = gone @ submissions (wa_pending a) @ submits (wa_queue a)
     \<and> resolved_ok 0 gone (wa_tickets a)
     \<and> list_all wf_command (wa_queue a) \<and> wa_closed a = [] \<and> wa_terminal_error a = None \<and> close_order a"

definition actor_wire :: "('t \<times> record_payload list) list \<Rightarrow> nat \<Rightarrow> ('u, 'j, 't, 'd) writer_actor \<Rightarrow> bool" where
  "actor_wire gone base a \<longleftrightarrow> wq.history (all_records (gone @ submissions (wa_pending a)))
     (records_of gone + acked_in_front (wa_pending a)) base (wa_wire a) a"

definition deadline_armed :: "('u, 'j, 't, 'd) writer_actor \<Rightarrow> bool" where
  "deadline_armed a \<longleftrightarrow> (w_records (wa_window a) > 0 \<longrightarrow> w_ack_deadline (wa_window a) \<noteq> None)"

definition running :: "('u, 'j, 't, 'd) writer_actor \<Rightarrow> bool" where
  "running a \<longleftrightarrow> (\<exists>gone base. actor_core gone a \<and> actor_wire gone base a) \<and> deadline_armed a
     \<and> (wa_status a = Waiting \<longrightarrow> (wa_pending a \<noteq> [] \<longrightarrow> w_records (wa_window a) > 0) \<and> (wa_close_tx a \<noteq> None \<longrightarrow> wa_pending a \<noteq> []))"

text \<open>The actor that has returned: \<open>gone\<close> were acknowledged, \<open>failed\<close> were told the error, \<open>rest\<close> lost their sender,
  and then the terminal error is there for them.\<close>

definition finished :: "('u, 'j, 't, 'd) writer_actor \<Rightarrow> bool" where
  "finished a \<longleftrightarrow> wa_state a = WRITER_DONE \<and> wa_pending a = [] \<and> wa_queue a = [] \<and> (\<exists>gone failed rest oks e.
     wa_accepted a = gone @ failed @ rest
     \<and> wa_tickets a = oks @ map (\<lambda>(t, _). (t, Inl (AppendDurabilityUnknown e))) failed
     \<and> resolved_ok 0 gone oks
     \<and> (\<forall>d. (d, Inr ()) \<in> set (wa_closed a) \<longrightarrow> failed = [] \<and> rest = [])
     \<and> (failed = [] \<or> wa_terminal_error a = Some e \<or> e = AppendWriterDropped)
     \<and> (rest = [] \<or> wa_terminal_error a \<noteq> None))"

definition actor_inv :: "('u, 'j, 't, 'd) writer_actor \<Rightarrow> bool" where
  "actor_inv a \<longleftrightarrow> (case wa_status a of Panicked \<Rightarrow> False | Returned \<Rightarrow> finished a | _ \<Rightarrow> running a)"

lemma actor_core_wq: "actor_core gone a \<Longrightarrow> \<exists>n. actor_queue_inv n a"
  by (auto simp: actor_core_def)

lemma actor_start: "actor_inv (writer_new kind)"
proof -
  have "actor_core [] (writer_new kind)" "actor_wire [] 0 (writer_new kind)"
    by (simp_all add: actor_core_def actor_wire_def writer_new_def actor_queue_inv_def queue_inv_def window_ok_def
        window_default_def close_order_def is_open_def conn_history_def all_records_def)
  moreover have "deadline_armed (writer_new kind)"
    by (simp add: deadline_armed_def writer_new_def window_default_def)
  ultimately have "running (writer_new kind)"
    unfolding running_def by (auto simp: writer_new_def)
  then show ?thesis
    by (simp add: actor_inv_def writer_new_def)
qed

subsection \<open>Sending\<close>

lemma frame_next_core:
  assumes core: "actor_core gone a" and wire: "actor_wire gone base a"
  obtains rs a' where "frame_next a = (Ok rs, a')" "actor_core gone a'" "actor_wire gone base a'"
    "wa_status a' = wa_status a" "wa_close_tx a' = wa_close_tx a"
    "w_ack_deadline (wa_window a') = w_ack_deadline (wa_window a)" "rs \<noteq> [] \<Longrightarrow> append_bounds rs"
    "rs = [] \<Longrightarrow> wa_window a' = wa_window a \<or> w_records (wa_window a') = w_records (wa_window a)"
    "rs = [] \<Longrightarrow> wa_pending a' = [] \<or> w_records (wa_window a') > 0"
proof (rule frame_next_queue)
  show "actor_queue_inv (records_of gone) a"
    using core by (simp add: actor_core_def)
next
  fix rs a'
  assume fr: "frame_next a = (Ok rs, a')" "actor_queue_inv (records_of gone) a'"
    "a' = a\<lparr> wa_pending := wa_pending a', wa_window := wa_window a', wa_wire := wa_wire a @ rs \<rparr>"
    "unsent_records (wa_pending a) = rs @ unsent_records (wa_pending a')"
    "in_flight_records (wa_pending a') = in_flight_records (wa_pending a) @ rs"
    "acked_in_front (wa_pending a') = acked_in_front (wa_pending a)" "submissions (wa_pending a') = submissions (wa_pending a)"
    "w_ack_deadline (wa_window a') = w_ack_deadline (wa_window a)" "rs \<noteq> [] \<Longrightarrow> append_bounds rs"
    "rs = [] \<Longrightarrow> unsent_records (wa_pending a') = [] \<or> in_flight_records (wa_pending a') \<noteq> []"
  obtain p w where a': "a' = a\<lparr> wa_pending := p, wa_window := w, wa_wire := wa_wire a @ rs \<rparr>"
    using fr(3) by blast
  have core': "actor_core gone a'"
    using core fr(2,7) by (simp add: actor_core_def a' close_order_def is_open_def)
  have wire': "actor_wire gone base a'"
    using wq.frame_history[OF actor_core_wq[OF core] fr(1) wire[unfolded actor_wire_def]] fr(6,7)
    by (simp add: actor_wire_def a')
  have w: "w_records (wa_window a') = length (in_flight_records (wa_pending a'))"
    "w_records (wa_window a) = length (in_flight_records (wa_pending a))"
    using fr(2) core by (auto simp: actor_core_def actor_queue_inv_def queue_inv_def window_ok_def)
  have idle: "wa_pending a' = [] \<or> w_records (wa_window a') > 0" if "rs = []"
  proof (rule ccontr)
    assume idle: "\<not> (wa_pending a' = [] \<or> w_records (wa_window a') > 0)"
    then have none: "in_flight_records (wa_pending a') = []"
      using w by simp
    then have "retained_records (wa_pending a') = []"
      using fr(10)[OF that] queue_retained_split[OF fr(2)[unfolded actor_queue_inv_def]] by simp
    moreover obtain s ss where "wa_pending a' = s # ss"
      using idle by (cases "wa_pending a'") auto
    ultimately show False
      using fr(2) by (auto simp: actor_queue_inv_def queue_inv_def records_Cons wf_submission_def)
  qed
  show thesis
    by (rule that[OF fr(1) core' wire' _ _ fr(8,9) _ idle]) (use w fr(5) in \<open>simp_all add: a'\<close>)
qed

lemma send_loop_core:
  fixes a :: "('u, 'j, 't, 'd) writer_actor"
  assumes "buf_mut_appends B" "actor_core gone a" "actor_wire gone base a" "fed \<or> deadline_armed a"
  shows "\<exists>r a'. send_loop B io k fed a = (r, a') \<and> r \<noteq> Panic \<and> actor_core gone a' \<and> actor_wire gone base a'
     \<and> wa_status a' = wa_status a \<and> wa_close_tx a' = wa_close_tx a
     \<and> (\<forall>m f. r = Ok (m, f) \<longrightarrow> (wa_pending a' = [] \<or> w_records (wa_window a') > 0) \<and> (f \<or> deadline_armed a'))"
  using assms(2-)
proof (induction "length (unsent_records (wa_pending a))" arbitrary: k fed a rule: less_induct)
  case less
  obtain rs a' where fr: "frame_next a = (Ok rs, a')" "actor_core gone a'" "actor_wire gone base a'"
    "wa_status a' = wa_status a" "wa_close_tx a' = wa_close_tx a"
    "w_ack_deadline (wa_window a') = w_ack_deadline (wa_window a)" "rs \<noteq> [] \<Longrightarrow> append_bounds rs"
    "rs = [] \<Longrightarrow> wa_window a' = wa_window a \<or> w_records (wa_window a') = w_records (wa_window a)"
    "rs = [] \<Longrightarrow> wa_pending a' = [] \<or> w_records (wa_window a') > 0"
    by (rule frame_next_core[OF less(2,3)]) blast
  show ?case
  proof (cases "rs = []")
    case True
    then have "send_loop B io k fed a = (Ok (k, fed), a')"
      using fr(1) by (subst send_loop.simps) simp
    moreover have "fed \<or> deadline_armed a'"
      using less(4) fr(6) fr(8)[OF True] by (auto simp: deadline_armed_def)
    ultimately show ?thesis
      using fr(2-5) fr(9)[OF True] by auto
  next
    case False
    have enc: "encode_append_batch B rs = (Inr (append_batch_bytes rs) :: 'j frame_codec_error + bytes)"
      if "append_bounds rs" for rs :: "append_record list"
      using that by (simp add: encode_append_batch_Inr[OF assms(1)])
    show ?thesis
    proof (cases "io k")
      case (Some e)
      then have "send_loop B io k fed a = (Err e, a')"
        using fr(1) False enc[OF fr(7)[OF False]] by (subst send_loop.simps) simp
      then show ?thesis
        using fr(2-5) by auto
    next
      case None
      then have "send_loop B io k fed a = send_loop B io (k + 1) True a'"
        using fr(1) False enc[OF fr(7)[OF False]] by (subst send_loop.simps) simp
      then show ?thesis
        using less(1)[OF frame_next_less[OF fr(1) False] fr(2,3), of True "k + 1"] fr(4,5) by auto
    qed
  qed
qed

lemma actor_core_arm:
  "actor_core gone (a\<lparr> wa_window := window_arm now t (wa_window a) \<rparr>) = actor_core gone a"
  "actor_wire gone base (a\<lparr> wa_window := window_arm now t (wa_window a) \<rparr>) = actor_wire gone base a"
  by (simp_all add: actor_core_def actor_wire_def actor_queue_inv_def close_order_def is_open_def)

lemma actor_core_status:
  "actor_core gone (a\<lparr> wa_status := s \<rparr>) = actor_core gone a" "actor_wire gone base (a\<lparr> wa_status := s \<rparr>) = actor_wire gone base a"
  "deadline_armed (a\<lparr> wa_status := s \<rparr>) = deadline_armed a"
  by (simp_all add: actor_core_def actor_wire_def actor_queue_inv_def close_order_def is_open_def deadline_armed_def)

lemma send_pending_core:
  assumes "buf_mut_appends B" "actor_core gone a" "actor_wire gone base a" "deadline_armed a"
  shows "\<exists>r a'. send_pending B io now t a = (r, a') \<and> r \<noteq> Panic \<and> actor_core gone a' \<and> actor_wire gone base a'
     \<and> wa_status a' = wa_status a \<and> wa_close_tx a' = wa_close_tx a
     \<and> (r = Ok () \<longrightarrow> (wa_pending a' = [] \<or> w_records (wa_window a') > 0) \<and> deadline_armed a')"
proof -
  obtain r a' where send: "send_loop B io 0 False a = (r, a')" "r \<noteq> Panic" "actor_core gone a'" "actor_wire gone base a'"
    "wa_status a' = wa_status a" "wa_close_tx a' = wa_close_tx a"
    "\<And>m f. r = Ok (m, f) \<Longrightarrow> (wa_pending a' = [] \<or> w_records (wa_window a') > 0) \<and> (f \<or> deadline_armed a')"
    using send_loop_core[OF assms(1-3), of False io 0] assms(4) by blast
  have armed: "deadline_armed (a'\<lparr> wa_window := window_arm now t (wa_window a') \<rparr>)"
    "w_records (window_arm now t (wa_window a')) = w_records (wa_window a')"
    by (simp_all add: deadline_armed_def window_arm_def split: option.splits)
  show ?thesis
    using send armed by (auto simp: send_pending_def actor_core_arm split: outcome.splits option.splits)
qed


subsection \<open>Recovering and finishing\<close>

lemma fail_pending_map: "fail_pending pending e = map (\<lambda>(t, _). (t, Inl (AppendDurabilityUnknown e))) (submissions pending)"
  by (simp add: fail_pending_def submissions_def)

lemma finishedI:
  assumes "wa_state a = WRITER_DONE" "wa_accepted a = gone @ failed @ rest"
    "wa_tickets a = oks @ map (\<lambda>(t, _). (t, Inl (AppendDurabilityUnknown e))) failed"
    "\<forall>d. (d, Inr ()) \<in> set (wa_closed a) \<longrightarrow> failed = [] \<and> rest = []" "resolved_ok 0 gone oks"
    "wa_pending a = []" "wa_queue a = []" "failed = [] \<or> wa_terminal_error a = Some e \<or> e = AppendWriterDropped"
    "rest = [] \<or> wa_terminal_error a \<noteq> None"
  shows "finished a"
  using assms unfolding finished_def by blast

lemma finish_finished:
  assumes "wa_accepted a = gone @ submissions (wa_pending a) @ rest" "resolved_ok 0 gone (wa_tickets a)" "wa_closed a = []"
    "wa_terminal_error a = None"
  shows "finished (shutdown (finish_writer_error e a))"
proof -
  let ?a = "shutdown (finish_writer_error e a)"
  have "wa_state ?a = WRITER_DONE" "wa_accepted ?a = gone @ submissions (wa_pending a) @ rest"
    "wa_tickets ?a = wa_tickets a @ map (\<lambda>(t, _). (t, Inl (AppendDurabilityUnknown e))) (submissions (wa_pending a))"
    "\<forall>d. (d, Inr ()) \<notin> set (wa_closed ?a)" "wa_terminal_error ?a = Some e" "wa_pending ?a = []" "wa_queue ?a = []"
    using assms by (auto simp: shutdown_def drop_task_def finish_writer_error_def Let_def fail_pending_map once_set_def split: option.splits)
  then show ?thesis
    using assms(2) by (intro finishedI) auto
qed

lemma finish_status [simp]: "wa_status (shutdown a) = Returned"
  by (simp add: shutdown_def)

lemma core_finish: "actor_core gone a \<Longrightarrow> actor_inv (shutdown (finish_writer_error e a))"
  using finish_finished[of a gone "submits (wa_queue a)" e] by (simp add: actor_inv_def actor_core_def)

lemma reconnected_core:
  assumes "actor_core gone a" "actor_wire gone base a"
  shows "actor_core gone (reconnected a)" "actor_wire gone (records_of gone + acked_in_front (wa_pending a)) (reconnected a)"
    "deadline_armed (reconnected a)"
proof -
  have inv: "queue_inv (records_of gone) (wa_pending a) (wa_window a) (wa_cursor a)"
    using assms(1) by (simp add: actor_core_def actor_queue_inv_def)
  show "actor_core gone (reconnected a)"
    using assms(1) rewind_inv[OF inv] by (simp add: actor_core_def reconnected_def actor_queue_inv_def close_order_def is_open_def)
  show "actor_wire gone (records_of gone + acked_in_front (wa_pending a)) (reconnected a)"
    using wq.rewind_history[OF actor_core_wq[OF assms(1)] assms(2)[unfolded actor_wire_def]]
    by (simp add: actor_wire_def reconnected_def)
  show "deadline_armed (reconnected a)"
    by (simp add: deadline_armed_def reconnected_def window_default_def)
qed

text \<open>Fields that neither the queue nor the connection depend on.\<close>

lemma actor_core_backoff:
  "actor_core gone (a\<lparr> wa_slept := s, wa_attempts := k \<rparr>) = actor_core gone a"
  "actor_wire gone base (a\<lparr> wa_slept := s, wa_attempts := k \<rparr>) = actor_wire gone base a"
  "actor_core gone (a\<lparr> wa_kind := kind \<rparr>) = actor_core gone a" "actor_wire gone base (a\<lparr> wa_kind := kind \<rparr>) = actor_wire gone base a"
  by (simp_all add: actor_core_def actor_wire_def actor_queue_inv_def close_order_def is_open_def)

lemma reconnect_loop_core:
  assumes "actor_core gone a" "actor_wire gone base a" "reconnect_loop jitter attempts a = (Some r, a')"
  shows "actor_core gone a' \<and> (\<exists>base. actor_wire gone base a') \<and> (r = Inr () \<longrightarrow> deadline_armed a')"
  using assms
proof (induction jitter attempts a rule: reconnect_loop.induct)
  case (1 jitter a)
  then show ?case by simp
next
  case (2 jitter attempt rest a)
  let ?a = "a\<lparr> wa_slept := wa_slept a @ [reconnect_delay jitter (wa_attempts a)], wa_attempts := sat_add (wa_attempts a) 1 \<rparr>"
  have core: "actor_core gone ?a" "actor_wire gone base ?a"
    using 2(2,3) by (simp_all add: actor_core_backoff)
  show ?case
  proof (cases attempt)
    case (Inl e)
    then show ?thesis
      using 2(1)[OF refl refl Inl _ core] 2(4) core by (auto simp: Let_def split: if_splits)
  next
    case (Inr kind)
    show ?thesis
    proof (cases "kind = wa_kind a")
      case True
      then have "a' = reconnected ?a" "r = Inr ()"
        using 2(4) Inr by (auto simp: Let_def reconnected_def)
      then show ?thesis
        using reconnected_core[OF core] by auto
    next
      case False
      then show ?thesis
        using 2(4) Inr core by (auto simp: Let_def)
    qed
  qed
qed

lemma running_top:
  assumes "actor_core gone a" "actor_wire gone base a" "deadline_armed a"
  shows "actor_inv (a\<lparr> wa_status := LoopTop \<rparr>)"
  using assms by (auto simp: actor_inv_def running_def actor_core_status)

lemma interrupted_inv:
  assumes "actor_core gone a" "actor_wire gone base a" "interrupted jitter attempts e a = Some a'"
  shows "actor_inv a'"
proof (cases "is_retryable e")
  case False
  then have "a' = shutdown (finish_writer_error e a)"
    using assms(3) by (simp add: interrupted_def recover_pending_appends_def)
  then show ?thesis
    using core_finish[OF assms(1)] by simp
next
  case True
  then obtain r b where loop: "reconnect_loop jitter attempts a = (Some r, b)"
    using assms(3) by (cases "reconnect_loop jitter attempts a")
      (auto simp: interrupted_def recover_pending_appends_def split: option.splits)
  obtain base' where core: "actor_core gone b" "actor_wire gone base' b" "r = Inr () \<Longrightarrow> deadline_armed b"
    using reconnect_loop_core[OF assms(1,2) loop] by blast
  show ?thesis
  proof (cases r)
    case (Inl e')
    then have "a' = shutdown (finish_writer_error e' b)"
      using assms(3) True loop by (simp add: interrupted_def recover_pending_appends_def)
    then show ?thesis
      using core_finish[OF core(1)] by simp
  next
    case (Inr u)
    then have "a' = b\<lparr> wa_status := LoopTop \<rparr>"
      using assms(3) True loop by (simp add: interrupted_def recover_pending_appends_def)
    then show ?thesis
      using running_top[OF core(1,2)] core(3) Inr by simp
  qed
qed

subsection \<open>The steps\<close>

lemma top_step_inv:
  assumes "buf_mut_appends B" "actor_inv a" "wa_status a = LoopTop" "top_step B jitter t io attempts now a = Some a'"
  shows "actor_inv a'"
proof -
  obtain gone base where core: "actor_core gone a" "actor_wire gone base a" "deadline_armed a"
    using assms(2,3) by (auto simp: actor_inv_def running_def)
  obtain r b where send: "send_pending B io now t a = (r, b)" "r \<noteq> Panic" "actor_core gone b" "actor_wire gone base b"
    "r = Ok () \<Longrightarrow> (wa_pending b = [] \<or> w_records (wa_window b) > 0) \<and> deadline_armed b"
    using send_pending_core[OF assms(1) core, of io now t] by blast
  consider e where "r = Err e" | "r = Ok ()"
    using send(2) by (cases r) auto
  then show ?thesis
  proof cases
    case 1
    then show ?thesis
      using assms(4) send(1) interrupted_inv[OF send(3,4)] by (simp add: top_step_def)
  next
    case 2
    note ok = send(5)[OF 2]
    show ?thesis
    proof (cases "wa_pending b = [] \<and> wa_close_tx b \<noteq> None")
      case True
      then obtain d where d: "wa_close_tx b = Some d" by auto
      then have a': "a' = shutdown (b\<lparr> wa_close_tx := None, wa_closed := wa_closed b @ [(d, Inr ())] \<rparr>)"
        using assms(4) send(1) 2 True by (simp add: top_step_def)
      have done_b: "wa_queue b = []" "resolved_ok 0 gone (wa_tickets b)" "wa_accepted b = gone"
        using send(3) True by (auto simp: actor_core_def close_order_def)
      have "finished a'"
        unfolding a'
        by (rule finishedI[of _ gone "[]" "[]" "wa_tickets b"]) (simp_all add: shutdown_def drop_task_def done_b)
      then show ?thesis
        by (simp add: actor_inv_def a')
    next
      case False
      then have "a' = b\<lparr> wa_status := Waiting \<rparr>"
        using assms(4) send(1) 2 by (auto simp: top_step_def split: list.splits option.splits)
      moreover have "running (b\<lparr> wa_status := Waiting \<rparr>)"
        using send(3,4) ok False unfolding running_def actor_core_status by auto
      ultimately show ?thesis
        by (simp add: actor_inv_def)
    qed
  qed
qed

lemma records_of_enough:
  assumes "actor_core gone a"
  shows "acked_in_front (wa_pending a) \<le> length (concat (map ps_payloads (wa_pending a)))"
    "unat (wa_cursor a) = length (concat (map snd (gone @ submissions (wa_pending a))))"
proof -
  have chain: "queue_chain (records_of gone) (wa_pending a) (unat (wa_cursor a))"
    using assms by (simp add: actor_core_def actor_queue_inv_def queue_inv_def)
  have "map snd (submissions (wa_pending a)) = map ps_payloads (wa_pending a)"
    by (simp add: submissions_def)
  then show "acked_in_front (wa_pending a) \<le> length (concat (map ps_payloads (wa_pending a)))"
    "unat (wa_cursor a) = length (concat (map snd (gone @ submissions (wa_pending a))))"
    using queue_chain_retained[OF chain] by (simp_all add: records_of_concat)
qed

lemma ack_step_inv:
  fixes a :: "('u, 'j, 't, 'd) writer_actor"
  assumes core: "actor_core gone a" "actor_wire gone base a"
  shows "actor_inv (ack_step t now ack a)"
proof (cases "acceptable_ack (records_of gone) (wa_pending a) ack")
  case False
  then obtain e where "dispatch_ack ack (wa_pending a) (wa_window a)
      = (Err e :: (('u, 'j) client_error, _ \<times> _ \<times> ('u, 'j, 't) ticket_message list) outcome)"
    using dispatch_ack_cases[where ?'u = 'u and ?'j = 'j, of "records_of gone" "wa_pending a" "wa_window a" "wa_cursor a" ack] core(1)
    unfolding actor_core_def actor_queue_inv_def by metis
  then show ?thesis
    using core_finish[OF core(1)] by (simp add: ack_step_def)
next
  case True
  let ?b = "ack_step t now ack a"
  have inv: "actor_queue_inv (records_of gone) a"
    using core(1) by (simp add: actor_core_def)
  obtain new msgs where st: "actor_queue_inv (records_of gone + records_of new) ?b"
    "?b = a\<lparr> wa_pending := wa_pending ?b, wa_window := wa_window ?b, wa_tickets := wa_tickets a @ msgs, wa_attempts := 0, wa_status := LoopTop \<rparr>"
    "submissions (wa_pending a) = new @ submissions (wa_pending ?b)" "resolved_ok (records_of gone) new msgs"
    "records_of gone + records_of new + acked_in_front (wa_pending ?b) = records_of gone + acked_in_front (wa_pending a) + ack_count ack"
    "w_records (wa_window ?b) > 0 \<longrightarrow> w_ack_deadline (wa_window ?b) \<noteq> None"
    "\<exists>r. dispatch_ack ack (wa_pending a) (wa_window a) = (Ok r :: (('u, 'j) client_error, _ \<times> _ \<times> ('u, 'j, 't) ticket_message list) outcome)"
    by (rule ack_step_queue[OF inv True, of t now]) (rule that; assumption)
  obtain p w where b: "?b = a\<lparr> wa_pending := p, wa_window := w, wa_tickets := wa_tickets a @ msgs, wa_attempts := 0, wa_status := LoopTop \<rparr>"
    using st(2) by blast
  have "acknowledges a (ack_count ack) ?b"
    unfolding acknowledges_def using st(7) by blast
  from wq.ack_history[OF actor_core_wq[OF core(1)] this core(2)[unfolded actor_wire_def]]
  have wire: "actor_wire (gone @ new) base ?b"
    using st(3) unfolding st(5)[symmetric] by (simp add: actor_wire_def b)
  have "resolved_ok 0 (gone @ new) (wa_tickets a @ msgs)"
    using core(1) st(4) by (intro resolved_ok_append) (simp_all add: actor_core_def)
  then have core': "actor_core (gone @ new) ?b"
    using core(1) st(1,3) by (simp add: actor_core_def close_order_def is_open_def b)
  have "deadline_armed ?b"
    using st(6) by (simp add: deadline_armed_def)
  then have "actor_inv (?b\<lparr> wa_status := LoopTop \<rparr>)"
    by (rule running_top[OF core' wire])
  then show ?thesis
    by (simp add: b)
qed

lemma close_order_drained:
  assumes "list_all (\<lambda>c. \<not> is_close c) (butlast (taken @ rest))" "taken \<noteq> []"
    and "close = None \<or> (\<exists>x. last taken = Close x \<and> close = Some x)"
  shows "list_all (\<lambda>c. \<not> is_close c) (butlast rest) \<and> (close \<noteq> None \<longrightarrow> rest = [])
     \<and> (list_all (\<lambda>c. \<not> is_close c) (taken @ rest) \<longrightarrow> close = None \<and> list_all (\<lambda>c. \<not> is_close c) rest)"
proof -
  have last: "taken = butlast taken @ [last taken]"
    using assms(2) by simp
  have "rest = []" if "close \<noteq> None"
  proof (rule ccontr)
    assume "rest \<noteq> []"
    then have "last taken \<in> set (butlast (taken @ rest))"
      using assms(2) by (simp add: butlast_append)
    then show False
      using assms(1,3) that by (auto simp: list_all_iff)
  qed
  moreover have "close = None" if "list_all (\<lambda>c. \<not> is_close c) (taken @ rest)"
  proof -
    have "\<not> is_close (last taken)"
      using that last_in_set[OF assms(2)] by (simp add: list_all_iff)
    then show ?thesis
      using assms(3) by auto
  qed
  moreover have "list_all (\<lambda>c. \<not> is_close c) (butlast rest)"
    using assms(1) by (cases "rest = []") (auto simp: butlast_append)
  ultimately show ?thesis
    by simp
qed

lemma command_step_inv:
  fixes a :: "('u, 'j, 't, 'd) writer_actor"
  assumes core: "actor_core gone a" "actor_wire gone base a" "deadline_armed a"
    and close: "wa_close_tx a = None" and step: "command_step a = Some a'"
  shows "actor_inv a'"
proof -
  obtain command rest where queue: "wa_queue a = command # rest"
    using step by (cases "wa_queue a") (auto simp: command_step_def)
  obtain result d where drain: "drain_queued_commands command (drain_of rest a) = (result :: ('u, 'j) client_error + unit, d)"
    by (cases "drain_queued_commands command (drain_of rest a) :: (('u, 'j) client_error + unit) \<times> _")
  have inv: "actor_queue_inv (records_of gone) a" and wf: "list_all wf_command (wa_queue a)"
    using core(1) by (simp_all add: actor_core_def)
  obtain taken where dr: "actor_queue_inv (records_of gone) (apply_drain d a)"
    "submissions (d_pending d) = submissions (wa_pending a) @ submits (taken :: ('t, 'd) writer_command list)"
    "acked_in_front (d_pending d) = acked_in_front (wa_pending a)" "drain_outcome (wa_queue a) taken (wa_close_tx a) (result, d)"
    by (rule drain_queue[OF inv queue wf drain]) blast
  have a': "a' = (case result of Inl e \<Rightarrow> shutdown (finish_writer_error e (apply_drain d a))
      | Inr _ \<Rightarrow> (apply_drain d a)\<lparr> wa_status := LoopTop \<rparr>)"
    using step queue drain by (auto simp: command_step_def drain_of_def apply_drain_def Let_def split: sum.splits)
  have fields: "wa_terminal_error (apply_drain d a) = None" "wa_tickets (apply_drain d a) = wa_tickets a" "wa_closed (apply_drain d a) = []" "wa_accepted (apply_drain d a) = wa_accepted a"
    "wa_pending (apply_drain d a) = d_pending d" "wa_wire (apply_drain d a) = wa_wire a" "wa_queue (apply_drain d a) = d_queue d"
    "wa_close_tx (apply_drain d a) = d_close_tx d" "wa_window (apply_drain d a) = wa_window a" "is_open (apply_drain d a) = is_open a"
    using core(1) by (simp_all add: apply_drain_def actor_core_def is_open_def)
  show ?thesis
  proof (cases result)
    case (Inl e)
    then obtain batch t where "wa_queue a = taken @ Submit batch t # d_queue d"
      using dr(4) by auto
    then have "wa_accepted (apply_drain d a) = gone @ submissions (wa_pending (apply_drain d a)) @ submits (Submit batch t # d_queue d)"
      using core(1) dr(2) by (simp add: fields actor_core_def)
    then have "finished (shutdown (finish_writer_error e (apply_drain d a)))"
      by (rule finish_finished) (use core(1) in \<open>simp_all add: fields actor_core_def\<close>)
    then show ?thesis
      by (simp add: a' Inl actor_inv_def)
  next
    case (Inr u)
    have split: "wa_queue a = taken @ d_queue d" "taken \<noteq> []"
      and closed: "d_close_tx d = None \<or> (\<exists>x. last taken = Close x \<and> d_close_tx d = Some x)"
      using dr(4) Inr close by auto
    have order: "close_order (apply_drain d a)"
      using core(1) close_order_drained[of taken "d_queue d" "d_close_tx d"] split closed
      unfolding actor_core_def close_order_def fields by auto
    have core': "actor_core gone (apply_drain d a)"
      using core(1) dr(1,2) split wf order by (simp add: actor_core_def fields)
    have "length (wa_pending a) = length (submissions (wa_pending a))"
      by (simp add: submissions_def)
    then have "admits a (number_records (unat (wa_cursor a)) (concat (map snd (submits taken)))) (apply_drain d a)"
      unfolding admits_def using queue wf drain dr(2) by auto
    from wq.admit_history[OF actor_core_wq[OF core(1)] this core(2)[unfolded actor_wire_def]]
    have wire: "actor_wire gone base (apply_drain d a)"
      using dr(2,3) records_of_enough(2)[OF core(1)]
      by (simp add: actor_wire_def fields all_records_def number_records_append)
    have "deadline_armed (apply_drain d a)"
      using core(3) by (simp add: deadline_armed_def fields)
    then show ?thesis
      using running_top[OF core' wire] by (simp add: a' Inr)
  qed
qed


lemma select_step_inv:
  fixes a :: "('u, 'j, 't, 'd) writer_actor"
  assumes "actor_inv a" "wa_status a = Waiting"
    and step: "select_step from_json jitter t attempts now choice a = Some a'"
  shows "actor_inv a'"
proof -
  obtain gone base where core: "actor_core gone a" "actor_wire gone base a" "deadline_armed a"
    and wait: "wa_pending a \<noteq> [] \<Longrightarrow> w_records (wa_window a) > 0" "wa_close_tx a \<noteq> None \<Longrightarrow> wa_pending a \<noteq> []"
    using assms(1,2) by (auto simp: actor_inv_def running_def)
  have enabled: "\<not> (wa_close_tx a \<noteq> None \<and> w_records (wa_window a) = 0)"
  proof
    assume closing: "wa_close_tx a \<noteq> None \<and> w_records (wa_window a) = 0"
    then show False
      using wait(1)[OF wait(2)[OF conjunct1[OF closing]]] by simp
  qed
  show ?thesis
  proof (cases choice)
    case OnCommand
    then have "wa_close_tx a = None" "command_step a = Some a'"
      using step enabled by (auto simp: select_step_def split: if_splits)
    then show ?thesis
      by (rule command_step_inv[OF core])
  next
    case OnChannelClosed
    let ?b = "shutdown (a\<lparr> wa_tickets := wa_tickets a @ fail_pending (wa_pending a) AppendWriterDropped, wa_pending := [] \<rparr>)"
    have a': "a' = ?b" "wa_queue a = []"
      using step OnChannelClosed enabled by (auto simp: select_step_def split: if_splits)
    have "wa_state ?b = WRITER_DONE" "wa_accepted ?b = gone @ submissions (wa_pending a) @ []"
      "wa_tickets ?b = wa_tickets a @ map (\<lambda>(t, _). (t, Inl (AppendDurabilityUnknown AppendWriterDropped))) (submissions (wa_pending a))"
      using core(1) a'(2) by (simp_all add: actor_core_def shutdown_def drop_task_def fail_pending_map)
    moreover have "\<forall>d. (d, Inr ()) \<in> set (wa_closed ?b) \<longrightarrow> submissions (wa_pending a) = [] \<and> ([] :: ('t \<times> record_payload list) list) = []"
      using core(1) by (simp add: actor_core_def shutdown_def drop_task_def)
    moreover have "resolved_ok 0 gone (wa_tickets a)"
      using core(1) by (simp add: actor_core_def)
    ultimately have "finished ?b"
      by (rule finishedI) (simp_all add: shutdown_def drop_task_def)
    then show ?thesis
      by (simp add: actor_inv_def a')
  next
    case (OnSocket ws)
    obtain r rest where recv: "recv_ack from_json ws = (r :: ('u, 'j) client_error + append_ack option, rest)"
      by (cases "recv_ack from_json ws :: (('u, 'j) client_error + append_ack option) \<times> socket")
    have live: "0 < w_records (wa_window a)"
      using step OnSocket enabled by (simp add: select_step_def split: if_splits)
    show ?thesis
    proof (cases r)
      case (Inl e)
      then have "interrupted jitter attempts e a = Some a'"
        using step OnSocket live recv by (simp add: select_step_def)
      then show ?thesis
        by (rule interrupted_inv[OF core(1,2)])
    next
      case (Inr received)
      show ?thesis
      proof (cases received)
        case None
        then have "interrupted jitter attempts WebSocketClosed a = Some a'"
          using step OnSocket live recv Inr by (simp add: select_step_def)
        then show ?thesis
          by (rule interrupted_inv[OF core(1,2)])
      next
        case (Some ack)
        then have "a' = ack_step t now ack a"
          using step OnSocket live recv Inr by (simp add: select_step_def)
        then show ?thesis
          using ack_step_inv[OF core(1,2)] by simp
      qed
    qed
  next
    case OnDeadline
    then have "interrupted jitter attempts (Timeout ''append acknowledgement'') a = Some a'"
      using step enabled by (auto simp: select_step_def split: if_splits option.splits)
    then show ?thesis
      by (rule interrupted_inv[OF core(1,2)])
  qed
qed

lemma send_core:
  assumes "actor_core gone a" "wf_command c" "list_all (\<lambda>c. \<not> is_close c) (wa_queue a)" "wa_close_tx a = None"
    and "is_open b \<Longrightarrow> \<not> is_close c"
    and "b = a\<lparr> wa_queue := wa_queue a @ [c], wa_accepted := wa_accepted a @ submits [c], wa_state := st \<rparr>"
  shows "actor_core gone b"
  using assms by (auto simp: actor_core_def actor_queue_inv_def close_order_def)

lemma submit_inv:
  assumes "actor_inv a" "wf_command (Submit batch t :: ('t, 'd) writer_command)"
    "producer_submit batch t a = (r, a' :: ('u, 'j, 't, 'd) writer_actor)"
  shows "actor_inv a'"
proof (cases "is_open a \<and> wa_status a \<notin> {Returned, Panicked}")
  case False
  then have "a' = a"
    using assms(3) by (auto simp: producer_submit_def channel_send_def split: if_splits)
  with assms(1) show ?thesis by simp
next
  case True
  then have a': "a' = a\<lparr> wa_queue := wa_queue a @ [Submit batch t], wa_accepted := wa_accepted a @ submits [Submit batch t :: ('t, 'd) writer_command],
      wa_state := wa_state a \<rparr>"
    using assms(3) by (auto simp: producer_submit_def channel_send_def)
  have "running a"
    using True assms(1) by (cases "wa_status a") (auto simp: actor_inv_def)
  then obtain gone base where core: "actor_core gone a" "actor_wire gone base a" and run: "running a"
    by (auto simp: running_def)
  have "actor_core gone a'"
    by (rule send_core[OF core(1) assms(2) _ _ _ a']) (use core(1) True in \<open>auto simp: actor_core_def close_order_def\<close>)
  moreover have "actor_wire gone base a'" "deadline_armed a' = deadline_armed a"
    using core(2) by (simp_all add: a' actor_wire_def deadline_armed_def)
  ultimately have "running a'"
    using run unfolding running_def by (auto simp: a')
  then show ?thesis
    using True by (cases "wa_status a") (auto simp: actor_inv_def a')
qed

lemma close_inv:
  assumes "actor_inv a" "is_open a" "writer_close d a = (r, a' :: ('u, 'j, 't, 'd) writer_actor)"
  shows "actor_inv a'"
proof -
  have "wa_status a \<noteq> Returned" "wa_status a \<noteq> Panicked"
    using assms(1,2) by (auto simp: actor_inv_def finished_def is_open_def WRITER_OPEN_def WRITER_DONE_def)
  then have a': "a' = a\<lparr> wa_queue := wa_queue a @ [Close d], wa_accepted := wa_accepted a @ submits [Close d :: ('t, 'd) writer_command],
      wa_state := WRITER_CLOSING \<rparr>"
    using assms(2,3) by (auto simp: writer_close_def channel_send_def is_open_def WRITER_OPEN_def WRITER_CLOSING_def max_def Let_def)
  have run: "running a" and live: "wa_status a \<in> {LoopTop, Waiting}"
    using \<open>wa_status a \<noteq> Returned\<close> assms(1) by (cases "wa_status a"; auto simp: actor_inv_def)+
  then obtain gone base where core: "actor_core gone a" "actor_wire gone base a"
    by (auto simp: running_def)
  have "actor_core gone a'"
    by (rule send_core[OF core(1) _ _ _ _ a'])
      (use core(1) assms(2) in \<open>auto simp: actor_core_def close_order_def is_open_def WRITER_OPEN_def WRITER_CLOSING_def a'\<close>)
  moreover have "actor_wire gone base a'" "deadline_armed a' = deadline_armed a"
    using core(2) by (simp_all add: a' actor_wire_def deadline_armed_def)
  ultimately have "running a'"
    using run unfolding running_def by (auto simp: a')
  then show ?thesis
    using live by (auto simp: actor_inv_def a')
qed

lemma abort_inv:
  assumes "actor_inv a" "wa_status a \<noteq> Panicked"
  shows "actor_inv (abort_task cause a)"
proof (cases "wa_status a = Returned")
  case True
  then have "finished a"
    using assms(1) by (simp add: actor_inv_def)
  then obtain gone failed rest oks e where "wa_accepted a = gone @ failed @ rest"
    "wa_tickets a = oks @ map (\<lambda>(t, _). (t, Inl (AppendDurabilityUnknown e))) failed" "resolved_ok 0 gone oks"
    "\<forall>d. (d, Inr ()) \<in> set (wa_closed a) \<longrightarrow> failed = [] \<and> rest = []"
    "failed = [] \<or> wa_terminal_error a = Some e \<or> e = AppendWriterDropped"
    unfolding finished_def by blast
  then have "finished (abort_task cause a)"
    by (intro finishedI) (auto simp: abort_task_def drop_task_def once_set_def split: option.splits)
  then show ?thesis
    by (simp add: actor_inv_def abort_task_def)
next
  case False
  then have "running a"
    using assms by (cases "wa_status a") (auto simp: actor_inv_def)
  then obtain gone where core: "actor_core gone a"
    by (auto simp: running_def)
  have "finished (abort_task cause a)"
    by (rule finishedI[of _ gone "[]" "submissions (wa_pending a) @ submits (wa_queue a)" "wa_tickets a"])
      (use core in \<open>simp_all add: abort_task_def drop_task_def actor_core_def once_set_def\<close>)
  then show ?thesis
    by (simp add: actor_inv_def abort_task_def)
qed

lemma writer_step_inv:
  assumes "buf_mut_appends B" "writer_step B from_json jitter t a a'" "actor_inv a"
  shows "actor_inv a'"
  using assms(2)
  by (rule writer_stepE)
    (auto intro: submit_inv[OF assms(3), unfolded wf_command.simps] close_inv[OF assms(3)] abort_inv[OF assms(3)]
      top_step_inv[OF assms(1,3)] select_step_inv[OF assms(3)])

lemma writer_reachable_inv:
  "writer_reachable B from_json jitter t a \<Longrightarrow> buf_mut_appends B \<Longrightarrow> actor_inv a"
  by (induction rule: writer_reachable.induct) (auto intro: actor_start writer_step_inv)


section \<open>A concrete run\<close>

text \<open>Submit one batch, send it, submit a close, take the close, receive the acknowledgement, return.\<close>

definition sample_batch :: append_batch where
  "sample_batch = AppendBatch [\<lparr> rp_part = PartHeader 0x80000000, rp_data = [1, 2, 3] \<rparr>]"

definition sample_ack_frame :: bytes where
  "sample_ack_frame = [0x81] @ be64 0 @ be64 1 @ be64 40 @ be64 41"

type_synonym sample_actor = "(unit, unit, nat, bool) writer_actor"

abbreviation sample_json :: "bytes \<Rightarrow> unit + unit stream_metadata" where
  "sample_json \<equiv> \<lambda>_. Inl ()"

definition sample_sent :: sample_actor where
  "sample_sent = (writer_new Transcript)\<lparr>
     wa_status := Waiting, wa_cursor := 1, wa_wire := [\<lparr> ar_writer_seq_num = 0, ar_part = PartHeader 0x80000000, ar_data = [1, 2, 3] \<rparr>],
     wa_window := \<lparr> w_payload_bytes = 3, w_records = 1, w_ack_deadline = Some 35 \<rparr>,
     wa_pending := [\<lparr> ps_payloads = batch_payloads sample_batch, ps_start_seq_num = 0, ps_acked = 0, ps_sent = 1,
        ps_receipts = [], ps_ack_tx = 7 \<rparr>],
     wa_accepted := [(7, batch_payloads sample_batch)] \<rparr>"

definition sample_closed :: sample_actor where
  "sample_closed = sample_sent\<lparr>
     wa_status := Returned, wa_state := WRITER_DONE, wa_closed := [(True, Inr ())], wa_pending := [], wa_window := window_default,
     wa_tickets := [(7, Inr [\<lparr> ac_writer_seq_num = 0, ac_seq_num = 40, ac_ack = \<lparr> aa_writer_start_seq_num = 0,
        aa_writer_end_seq_num = 1, aa_start_seq_num = 40, aa_end_seq_num = 41 \<rparr> \<rparr>])] \<rparr>"

definition sample_submitted :: sample_actor where
  "sample_submitted = snd (producer_submit sample_batch 7 (writer_new Transcript))"

abbreviation sample_submission :: "nat \<Rightarrow> nat pending_submission" where
  "sample_submission k \<equiv> \<lparr> ps_payloads = batch_payloads sample_batch, ps_start_seq_num = 0, ps_acked = 0, ps_sent = k,
     ps_receipts = [], ps_ack_tx = 7 \<rparr>"

definition sample_waiting :: sample_actor where
  "sample_waiting = sample_submitted\<lparr> wa_status := Waiting \<rparr>"

definition sample_taken :: sample_actor where
  "sample_taken = sample_submitted\<lparr> wa_status := LoopTop, wa_queue := [], wa_cursor := 1, wa_pending := [sample_submission 0] \<rparr>"

lemmas sample_defs = sample_submitted_def sample_waiting_def sample_taken_def sample_sent_def sample_closed_def
  writer_new_def producer_submit_def channel_send_def is_open_def sample_batch_def window_default_def

lemma sample_step_1: "top_step list_buf id 30 (\<lambda>_. None) [] 5 sample_submitted = Some sample_waiting"
  by (simp add: sample_defs top_step_def send_pending_def send_loop.simps frame_next_def take_frame_def)

lemma sample_step_2: "select_step sample_json id 30 [] 5 OnCommand sample_waiting = Some sample_taken"
  by (simp add: sample_defs select_step_def command_step_def drain_queued_commands_def admit_submission_def
      cursor_reserve_def checked_add_def const_defs payload_total_def sat_add_def)

lemma sample_encode:
  "encode_append_batch list_buf [\<lparr> ar_writer_seq_num = 0, ar_part = p, ar_data = [1, 2, 3] \<rparr>]
    = (Inr (append_batch_bytes [\<lparr> ar_writer_seq_num = 0, ar_part = p, ar_data = [1, 2, 3] \<rparr>]) :: unit frame_codec_error + bytes)"
  by (simp add: encode_append_batch_Inr[OF list_buf_appends] append_bounds_def valid_append_record_def const_defs)

lemma sample_step_3: "top_step list_buf id 30 (\<lambda>_. None) [] 5 sample_taken = Some sample_sent"
  by (simp add: sample_defs top_step_def send_pending_def send_loop.simps frame_next_def take_frame_def
      take_from_submission.simps framing_full_def framing_push_def submission_record_def sample_encode window_arm_def const_defs)

definition sample_closing :: sample_actor where
  "sample_closing = snd (writer_close True sample_sent)"

lemma sample_step_4:
  "select_step sample_json id 30 [] 6 OnCommand sample_closing
    = Some (sample_sent\<lparr> wa_state := WRITER_CLOSING, wa_close_tx := Some True, wa_status := LoopTop \<rparr>)"
  by (simp add: sample_closing_def sample_defs writer_close_def select_step_def command_step_def drain_queued_commands_def
      WRITER_OPEN_def WRITER_CLOSING_def)

lemma sample_step_5:
  "top_step list_buf id 30 (\<lambda>_. None) [] 6 (sample_sent\<lparr> wa_state := WRITER_CLOSING, wa_close_tx := Some True, wa_status := LoopTop \<rparr>)
    = Some (sample_sent\<lparr> wa_state := WRITER_CLOSING, wa_close_tx := Some True, wa_status := Waiting \<rparr>)"
  by (simp add: sample_defs top_step_def send_pending_def send_loop.simps frame_next_def take_frame_def take_from_submission.simps)


lemma sample_decode: "decode_server_frame sample_json sample_ack_frame = (Inr (AppendAck 0 1 40 41) :: unit frame_codec_error + unit server_frame)"
  by (simp add: decode_server_frame_def sample_ack_frame_def server_op_try_from_def fd_finish_def)

lemma sample_step_6:
  "select_step sample_json id 30 [] 7 (OnSocket [Inr (WsBinary sample_ack_frame)])
      (sample_sent\<lparr> wa_state := WRITER_CLOSING, wa_close_tx := Some True, wa_status := Waiting \<rparr>)
    = Some (sample_closed\<lparr> wa_state := WRITER_CLOSING, wa_close_tx := Some True, wa_closed := [], wa_status := LoopTop \<rparr>)"
  by (simp add: sample_defs select_step_def recv_ack_def sample_decode validate_ack_def ack_record_count_def checked_sub_def
      ack_step_def dispatch_ack_def unacknowledged_range_def apply_ack.simps ack_submission.simps ack_one_def range_next_def
      window_restart_def)

lemma sample_step_7:
  "top_step list_buf id 30 (\<lambda>_. None) [] 8
      (sample_closed\<lparr> wa_state := WRITER_CLOSING, wa_close_tx := Some True, wa_closed := [], wa_status := LoopTop \<rparr>)
    = Some sample_closed"
  by (simp add: sample_defs top_step_def send_pending_def send_loop.simps frame_next_def take_frame_def shutdown_def drop_task_def)

abbreviation sample_reachable :: "sample_actor \<Rightarrow> bool" where
  "sample_reachable \<equiv> writer_reachable list_buf sample_json id 30"

lemma sample_reach_submitted: "sample_reachable sample_submitted"
proof -
  have "wf_command (Submit sample_batch 7 :: (nat, bool) writer_command)"
    by (simp add: sample_batch_def wf_append_batch_def const_defs)
  then show ?thesis
    unfolding sample_submitted_def
    by (rule writer_reachable.step[OF writer_reachable.start[of _ _ _ _ Transcript] writer_step.submit[OF _ surjective_pairing]])
qed

lemma sample_reach_sent: "sample_reachable sample_sent"
proof -
  have status: "wa_status sample_submitted = LoopTop" "wa_status sample_waiting = Waiting" "wa_status sample_taken = LoopTop"
    by (simp_all add: sample_defs)
  have "sample_reachable sample_waiting"
    by (rule writer_reachable.step[OF sample_reach_submitted writer_step.top[OF status(1) sample_step_1]])
  then have "sample_reachable sample_taken"
    by (rule writer_reachable.step[OF _ writer_step.select[OF status(2) sample_step_2]])
  then show ?thesis
    by (rule writer_reachable.step[OF _ writer_step.top[OF status(3) sample_step_3]])
qed

lemma sample_reach_closed: "sample_reachable sample_closed"
proof -
  have "is_open sample_sent" and status: "wa_status sample_closing = Waiting"
    by (simp_all add: sample_closing_def sample_defs writer_close_def)
  then have "sample_reachable sample_closing"
    unfolding sample_closing_def
    by (intro writer_reachable.step[OF sample_reach_sent] writer_step.close[OF _ surjective_pairing])
  from writer_reachable.step[OF this writer_step.select[OF status sample_step_4]]
  have "sample_reachable (sample_sent\<lparr> wa_state := WRITER_CLOSING, wa_close_tx := Some True, wa_status := LoopTop \<rparr>)" .
  from writer_reachable.step[OF this writer_step.top[OF _ sample_step_5]]
  have "sample_reachable (sample_sent\<lparr> wa_state := WRITER_CLOSING, wa_close_tx := Some True, wa_status := Waiting \<rparr>)"
    by simp
  from writer_reachable.step[OF this writer_step.select[OF _ sample_step_6]]
  have "sample_reachable (sample_closed\<lparr> wa_state := WRITER_CLOSING, wa_close_tx := Some True, wa_closed := [], wa_status := LoopTop \<rparr>)"
    by simp
  from writer_reachable.step[OF this writer_step.top[OF _ sample_step_7]]
  show ?thesis
    by simp
qed


section \<open>Properties\<close>



text \<open>C7: In every reachable state of the writer no \<open>expect\<close> has failed, no counter has underflowed and \<open>select!\<close>
  was never entered with both branches disabled. Whenever the actor waits with batches pending, records are in flight and
  the acknowledgement deadline is armed, and a requested close waits only while batches are pending: it never waits
  for nothing.\<close>

theorem writer_never_panics:
  assumes "writer_reachable B from_json jitter t a" and "buf_mut_appends B"
  shows "wa_status a \<noteq> Panicked
     \<and> (wa_status a = Waiting \<longrightarrow>
          (wa_pending a \<noteq> [] \<longrightarrow> 0 < w_records (wa_window a) \<and> w_ack_deadline (wa_window a) \<noteq> None)
          \<and> (wa_close_tx a \<noteq> None \<longrightarrow> wa_pending a \<noteq> []))"
  using writer_reachable_inv[OF assms]
  by (auto simp: actor_inv_def running_def deadline_armed_def split: writer_status.splits)

lemma writer_never_panics_witness:
  "wa_status sample_sent = Waiting \<and> wa_pending sample_sent \<noteq> [] \<and> 0 < w_records (wa_window sample_sent)
   \<and> w_ack_deadline (wa_window sample_sent) \<noteq> None"
  using writer_never_panics[OF sample_reach_sent list_buf_appends] by (simp add: sample_defs)

text \<open>C4: Batches are resolved in the order they were accepted, each at most once. In every reachable state the
  tickets resolved so far are: a first run of the accepted batches with their receipts, one receipt for each
  record, numbered from zero without a gap over all batches; then, only after the actor has returned, a run of
  batches that are told that their durability is unknown.\<close>

theorem writer_tickets_in_order:
  assumes "writer_reachable B from_json jitter t a" and "buf_mut_appends B"
  shows "\<exists>gone failed rest oks e.
     wa_accepted a = gone @ failed @ rest
     \<and> wa_tickets a = oks @ map (\<lambda>(t, _). (t, Inl (AppendDurabilityUnknown e))) failed
     \<and> resolved_ok 0 gone oks
     \<and> (wa_status a \<noteq> Returned \<longrightarrow> failed = [] \<and> rest = submissions (wa_pending a) @ submits (wa_queue a))"
proof (cases "wa_status a = Returned")
  case True
  then have "finished a"
    using writer_reachable_inv[OF assms] by (simp add: actor_inv_def)
  then obtain gone failed rest oks e where "wa_accepted a = gone @ failed @ rest"
    "wa_tickets a = oks @ map (\<lambda>(t, _). (t, Inl (AppendDurabilityUnknown e))) failed" "resolved_ok 0 gone oks"
    unfolding finished_def by blast
  then show ?thesis
    using True by blast
next
  case False
  then obtain gone where core: "actor_core gone a"
    using writer_reachable_inv[OF assms] by (auto simp: actor_inv_def running_def split: writer_status.splits)
  show ?thesis
    by (rule exI[of _ gone], rule exI[of _ "[]"], rule exI[of _ "submissions (wa_pending a) @ submits (wa_queue a)"],
        rule exI[of _ "wa_tickets a"]) (use core in \<open>simp add: actor_core_def\<close>)
qed

lemma writer_tickets_in_order_witness:
  "wa_tickets sample_closed \<noteq> [] \<and> (\<exists>gone failed rest oks e.
     wa_accepted sample_closed = gone @ failed @ rest
     \<and> wa_tickets sample_closed = oks @ map (\<lambda>(t, _). (t, Inl (AppendDurabilityUnknown e))) failed
     \<and> resolved_ok 0 gone oks)"
  using writer_tickets_in_order[OF sample_reach_closed list_buf_appends]
  by (intro conjI, simp add: sample_defs) blast

text \<open>C2: When the writer's close reports success, every batch that a producer was given a ticket for is durable: each
  of these tickets was resolved, in order, with one receipt per record, and none with an error.\<close>

theorem clean_close_is_durable:
  assumes "writer_reachable B from_json jitter t a" and "buf_mut_appends B" and "(d, Inr ()) \<in> set (wa_closed a)"
  shows "resolved_ok 0 (wa_accepted a) (wa_tickets a)"
proof (cases "wa_status a = Returned")
  case True
  then have "finished a"
    using writer_reachable_inv[OF assms(1,2)] by (simp add: actor_inv_def)
  then show ?thesis
    using assms(3) unfolding finished_def by fastforce
next
  case False
  then obtain gone where "actor_core gone a"
    using writer_reachable_inv[OF assms(1,2)] by (auto simp: actor_inv_def running_def split: writer_status.splits)
  then show ?thesis
    using assms(3) by (simp add: actor_core_def)
qed

lemma clean_close_is_durable_witness:
  "wa_closed sample_closed = [(True, Inr ())] \<and> resolved_ok 0 (wa_accepted sample_closed) (wa_tickets sample_closed)"
  using clean_close_is_durable[OF sample_reach_closed list_buf_appends, of True] by (simp add: sample_defs)

lemma slice_prefix: "b \<le> length xs \<Longrightarrow> slice (xs @ ys) a b = slice xs a b"
  by (cases "a \<le> length xs") (auto simp: slice_def)

text \<open>C5: While the writer runs, the records handed to the current connection are a gap-free run of the accepted
  records in acceptance order, each with the writer sequence of its position: it starts no later than
  the first unacknowledged record, and it ends with the records in flight. A reconnect resends under the same
  numbers and payloads; nothing is skipped, reordered or renumbered.\<close>

theorem connection_carries_a_run:
  assumes "writer_reachable B from_json jitter t a" and "buf_mut_appends B" and "wa_status a \<noteq> Returned"
  shows "\<exists>base acked. base \<le> acked
     \<and> acked + length (in_flight_records (wa_pending a)) \<le> length (all_records (wa_accepted a))
     \<and> wa_wire a = slice (all_records (wa_accepted a)) base (acked + length (in_flight_records (wa_pending a)))
     \<and> in_flight_records (wa_pending a) = slice (all_records (wa_accepted a)) acked (acked + length (in_flight_records (wa_pending a)))"
proof -
  obtain gone base where core: "actor_core gone a" and wire: "actor_wire gone base a"
    using writer_reachable_inv[OF assms(1,2)] assms(3)
    by (auto simp: actor_inv_def running_def split: writer_status.splits)
  let ?all = "all_records (gone @ submissions (wa_pending a))" and ?fl = "in_flight_records (wa_pending a)"
    and ?acked = "records_of gone + acked_in_front (wa_pending a)"
  have hist: "?acked \<le> length ?all" "drop ?acked ?all = ?fl @ unsent_records (wa_pending a)" "base \<le> ?acked"
    "wa_wire a = slice ?all base (?acked + length ?fl)"
    using wire by (auto simp: actor_wire_def conn_history_def)
  have accepted: "all_records (wa_accepted a) = ?all @ number_records (length ?all) (concat (map snd (submits (wa_queue a))))"
    using core by (simp add: actor_core_def all_records_def number_records_append)
  have "length ?fl + length (unsent_records (wa_pending a)) = length ?all - ?acked"
    using length_drop[of ?acked ?all] unfolding hist(2) by simp
  then have le: "?acked + length ?fl \<le> length ?all"
    using hist(1) by linarith
  have "slice ?all ?acked (?acked + length ?fl) = ?fl"
    by (simp add: slice_def hist(2))
  then show ?thesis
    using hist(3,4) le unfolding accepted by (intro exI[of _ base] exI[of _ ?acked]) (simp add: slice_prefix)
qed

lemma connection_carries_a_run_witness:
  "wa_wire sample_sent \<noteq> [] \<and> (\<exists>base acked. base \<le> acked
     \<and> acked + length (in_flight_records (wa_pending sample_sent)) \<le> length (all_records (wa_accepted sample_sent))
     \<and> wa_wire sample_sent = slice (all_records (wa_accepted sample_sent)) base (acked + length (in_flight_records (wa_pending sample_sent)))
     \<and> in_flight_records (wa_pending sample_sent)
         = slice (all_records (wa_accepted sample_sent)) acked (acked + length (in_flight_records (wa_pending sample_sent))))"
  using connection_carries_a_run[OF sample_reach_sent list_buf_appends] by (simp add: sample_defs)

text \<open>C8: A silent server cannot hang the writer. Whenever it waits with batches pending there is a deadline such
  that, once it has passed, the wait ends: after a reconnect to a stream of the same kind the actor is back at the loop top with a
  fresh window, and exactly the unacknowledged records, unchanged, are to be sent again.\<close>

theorem silent_server_recovers:
  assumes "writer_reachable B from_json jitter t a" and "buf_mut_appends B"
    and "wa_status a = Waiting" and "wa_pending a \<noteq> []"
  shows "\<exists>deadline. \<forall>now \<ge> deadline. \<exists>a'.
     select_step from_json jitter t [Inr (wa_kind a)] now OnDeadline a = Some a'
     \<and> wa_status a' = LoopTop \<and> wa_window a' = window_default \<and> wa_wire a' = []
     \<and> unsent_records (wa_pending a') = retained_records (wa_pending a)
     \<and> submissions (wa_pending a') = submissions (wa_pending a)"
proof -
  obtain deadline where live: "0 < w_records (wa_window a)" "w_ack_deadline (wa_window a) = Some deadline"
    using writer_reachable_inv[OF assms(1,2)] assms(3,4) by (auto simp: actor_inv_def running_def deadline_armed_def)
  have "is_retryable (Timeout ''append acknowledgement'')"
    by (simp add: is_retryable_def)
  then have "\<exists>a'. select_step from_json jitter t [Inr (wa_kind a)] now OnDeadline a = Some a'
     \<and> wa_status a' = LoopTop \<and> wa_window a' = window_default \<and> wa_wire a' = []
     \<and> unsent_records (wa_pending a') = retained_records (wa_pending a)
     \<and> submissions (wa_pending a') = submissions (wa_pending a)" if "deadline \<le> now" for now
    using live that by (simp add: select_step_def interrupted_def recover_pending_appends_def Let_def)
  then show ?thesis
    by blast
qed

lemma silent_server_recovers_witness:
  "\<exists>deadline. \<forall>now \<ge> deadline. \<exists>a'.
     select_step sample_json id 30 [Inr (wa_kind sample_sent)] now OnDeadline sample_sent = Some a'
     \<and> wa_status a' = LoopTop \<and> wa_window a' = window_default \<and> wa_wire a' = []
     \<and> unsent_records (wa_pending a') = retained_records (wa_pending sample_sent)
     \<and> submissions (wa_pending a') = submissions (wa_pending sample_sent)"
  by (rule silent_server_recovers[OF sample_reach_sent list_buf_appends]) (simp_all add: sample_defs)



end
