(* ===== verification/ReadSocket.thy ===== *)
theory ReadSocket
  imports Complex_Main Sockets Rest
begin

text \<open>
  What a reader asks and how its socket answers: the options of \<open>rust/src/protocol/read.rs\<close> with
  their check, the request URL, \<open>connect_read_socket\<close> with its retries and \<open>ReadSocket::next_outcome\<close>
  of \<open>rust/src/client.rs\<close>.

  The network is the list of what the next connection attempts meet, with a log of the requests made;
  past the end of the list every attempt fails with an I/O error. A read socket is a list of waits:
  each the list of messages that arrive before \<open>read_idle_timeout\<close> elapses, so that running out of one
  while another follows is the timeout and running out of the last is the end of the stream.
\<close>

section \<open>Options\<close>

datatype read_start = SeqNum u64 | TimestampMs u64 | TailOffset u64

record read_stop =
  stop_count :: "u64 option"
  stop_until_timestamp_ms :: "u64 option"
  stop_wait_seconds :: "u32 option"

definition read_stop_default :: read_stop where
  "read_stop_default = \<lparr> stop_count = None, stop_until_timestamp_ms = None, stop_wait_seconds = None \<rparr>"

text \<open>A double is a rational number or not finite.\<close>

datatype f64 = Finite rat | NotFinite

record 'i read_options =
  ro_stream_id :: 'i
  ro_start :: "read_start option"
  ro_stop :: "read_stop option"
  ro_rate :: "f64 option"
  ro_link_secret :: "link_secret option"

definition read_options_new :: "'i \<Rightarrow> 'i read_options" where
  "read_options_new stream_id = \<lparr> ro_stream_id = stream_id, ro_start = None, ro_stop = None, ro_rate = None,
     ro_link_secret = None \<rparr>"

definition DEFAULT_READ_TAIL_OFFSET :: u64 where "DEFAULT_READ_TAIL_OFFSET = 0"
definition MAX_READ_WAIT_SECONDS :: u32 where "MAX_READ_WAIT_SECONDS = 60"

text \<open>The double nearest to 0.1.\<close>

definition MIN_PLAYBACK_RATE :: rat where "MIN_PLAYBACK_RATE = 3602879701896397 / 2 ^ 55"
definition MAX_PLAYBACK_RATE :: rat where "MAX_PLAYBACK_RATE = 100"

definition stop_or_default :: "read_stop option \<Rightarrow> read_stop" where
  "stop_or_default stop = (case stop of Some s \<Rightarrow> s | None \<Rightarrow> read_stop_default)"

definition read_selector :: "read_start \<Rightarrow> u64" where
  "read_selector start = (case start of SeqNum v \<Rightarrow> v | TimestampMs v \<Rightarrow> v | TailOffset v \<Rightarrow> v)"

definition rate_in_range :: "f64 \<Rightarrow> bool" where
  "rate_in_range rate = (case rate of NotFinite \<Rightarrow> False
     | Finite v \<Rightarrow> MIN_PLAYBACK_RATE \<le> v \<and> v \<le> MAX_PLAYBACK_RATE)"

definition validate_read_options :: "'i read_options \<Rightarrow> ('u, 'j) client_error + unit" where
  "validate_read_options options =
     (let selector = read_selector (case ro_start options of Some s \<Rightarrow> s | None \<Rightarrow> TailOffset DEFAULT_READ_TAIL_OFFSET);
          maximum = of_nat MAX_SAFE_INTEGER_U64;
          stop = stop_or_default (ro_stop options) in
      and_then (if selector > maximum then Inl (InvalidReadSelector selector maximum) else Inr ()) (\<lambda>_.
      and_then (case stop_until_timestamp_ms stop of
          Some value \<Rightarrow> if value > maximum then Inl (InvalidReadSelector value maximum) else Inr ()
        | None \<Rightarrow> Inr ()) (\<lambda>_.
      and_then (case stop_wait_seconds stop of
          Some value \<Rightarrow> if value > MAX_READ_WAIT_SECONDS then Inl (InvalidReadWait value MAX_READ_WAIT_SECONDS) else Inr ()
        | None \<Rightarrow> Inr ()) (\<lambda>_.
      (case ro_rate options of
          Some value \<Rightarrow>
            if \<not> rate_in_range value then Inl InvalidPlaybackRate
            else if stop_count stop = None \<and> stop_until_timestamp_ms stop = None \<and> stop_wait_seconds stop \<noteq> Some 0
            then Inl PlaybackRequiresCountUntilOrWaitZero
            else Inr ()
        | None \<Rightarrow> Inr ())))))"

section \<open>Request URLs\<close>

datatype data_plane_route = RouteRecords | RouteTerminalInput | RouteTerminalOutput

definition route_path :: "('i \<Rightarrow> rstr) \<Rightarrow> data_plane_route \<Rightarrow> 'i \<Rightarrow> string \<Rightarrow> rstr" where
  "route_path show_id route stream_id operation =
     lit ''/streams/'' @ show_id stream_id
       @ (case route of RouteRecords \<Rightarrow> lit ''/'' | RouteTerminalInput \<Rightarrow> lit ''/terminal/input/''
            | RouteTerminalOutput \<Rightarrow> lit ''/terminal/output/'')
       @ lit operation"

definition API_PREFIX :: string where "API_PREFIX = ''/api/v1''"

definition rest_url :: "client_config \<Rightarrow> rstr \<Rightarrow> url" where
  "rest_url config path = (cc_api_origin config)
     \<lparr> url_path := lit API_PREFIX @ path, url_query := None, url_fragment := None \<rparr>"

definition websocket_url :: "client_config \<Rightarrow> rstr \<Rightarrow> ('u, 'j) client_error + url" where
  "websocket_url config path =
     (let url = rest_url config path in
      and_then (if url_scheme url = lit ''http'' then Inr (lit ''ws'')
                else if url_scheme url = lit ''https'' then Inr (lit ''wss'')
                else Inl (InvalidWebSocketScheme (url_scheme url)))
        (\<lambda>scheme. Inr (url\<lparr> url_scheme := scheme \<rparr>)))"

text \<open>The query pairs in order; form encoding leaves the keys, the digits and the decimal point as they are.
  \<open>show_rate\<close> is the standard library's display of a double.\<close>

definition read_query :: "(f64 \<Rightarrow> rstr) \<Rightarrow> 'i read_options \<Rightarrow> (rstr \<times> rstr) list" where
  "read_query show_rate options =
     (let stop = stop_or_default (ro_stop options);
          pair = (\<lambda>name value. (lit name, value)) in
      [case ro_start options of
         Some (SeqNum v) \<Rightarrow> pair ''seq_num'' (to_string v)
       | Some (TimestampMs v) \<Rightarrow> pair ''timestamp'' (to_string v)
       | Some (TailOffset v) \<Rightarrow> pair ''tail_offset'' (to_string v)
       | None \<Rightarrow> pair ''tail_offset'' (to_string DEFAULT_READ_TAIL_OFFSET)]
      @ (case stop_count stop of Some v \<Rightarrow> [pair ''count'' (to_string v)] | None \<Rightarrow> [])
      @ (case stop_until_timestamp_ms stop of Some v \<Rightarrow> [pair ''until'' (to_string v)] | None \<Rightarrow> [])
      @ (case ro_rate options of Some v \<Rightarrow> [pair ''rate'' (show_rate v)] | None \<Rightarrow> [])
      @ (case stop_wait_seconds stop of Some v \<Rightarrow> [pair ''wait'' (decimal (unat v))] | None \<Rightarrow> []))"

fun query_string :: "(rstr \<times> rstr) list \<Rightarrow> rstr" where
  "query_string [] = []"
| "query_string [(k, v)] = k @ lit ''='' @ v"
| "query_string ((k, v) # rest) = k @ lit ''='' @ v @ lit ''&'' @ query_string rest"

definition append_read_query :: "(f64 \<Rightarrow> rstr) \<Rightarrow> url \<Rightarrow> 'i read_options \<Rightarrow> url" where
  "append_read_query show_rate url options =
     (let added = query_string (read_query show_rate options) in
      url\<lparr> url_query := Some (case url_query url of
             Some q \<Rightarrow> if q = [] then added else q @ lit ''&'' @ added
           | None \<Rightarrow> added) \<rparr>)"

section \<open>Connecting\<close>

type_synonym read_socket = "socket list"

definition with_timeout :: "bool \<Rightarrow> string \<Rightarrow> ('u, 'j) client_error + 'a \<Rightarrow> ('u, 'j) client_error + 'a" where
  "with_timeout elapsed operation result = (if elapsed then Inl (Timeout operation) else result)"

text \<open>What a connection attempt meets: the handshake of the WebSocket library, the protocol header of the
  response (\<open>Some None\<close> is one that is not visible ASCII), the send of the opening frame, whether the
  reader handshake times out, and the messages that follow.\<close>

datatype send_outcome = SendElapsed | SendFailed websocket_error | Sent

datatype connect_script =
    ConnectElapsed
  | ConnectFailed websocket_error
  | Accepted "rstr option option" send_outcome bool read_socket

definition TSF_WEBSOCKET_PROTOCOL :: rstr where "TSF_WEBSOCKET_PROTOCOL = lit ''tsf.v1''"

definition connect_websocket :: "connect_script \<Rightarrow> ('u, 'j) client_error + bool \<times> read_socket" where
  "connect_websocket script = (case script of
       ConnectElapsed \<Rightarrow> Inl (Timeout ''connect websocket'')
     | ConnectFailed e \<Rightarrow> Inl (WebSocket e)
     | Accepted header send elapsed waits \<Rightarrow>
         and_then (case header of None \<Rightarrow> Inr None
                     | Some None \<Rightarrow> Inl InvalidWebSocketProtocolHeader
                     | Some (Some protocol) \<Rightarrow> Inr (Some protocol)) (\<lambda>selected.
         if selected \<noteq> Some TSF_WEBSOCKET_PROTOCOL then Inl (UnexpectedWebSocketProtocol selected)
         else case send of
             SendElapsed \<Rightarrow> Inl (Timeout ''send opening frame'')
           | SendFailed e \<Rightarrow> Inl (WebSocket e)
           | Sent \<Rightarrow> Inr (elapsed, waits)))"

record ('i, 'j) read_client =
  rc_config :: client_config
  rc_from_json :: "bytes \<Rightarrow> 'j + 'i stream_metadata"
  rc_show_id :: "'i \<Rightarrow> rstr"
  rc_show_rate :: "f64 \<Rightarrow> rstr"
  rc_jitter :: "duration \<Rightarrow> duration"

record network =
  nw_attempts :: "connect_script list"
  nw_requests :: "(url \<times> bytes) list"

definition next_attempt :: "url \<times> bytes \<Rightarrow> network \<Rightarrow> connect_script \<times> network" where
  "next_attempt request net =
     (let net = net\<lparr> nw_requests := nw_requests net @ [request] \<rparr> in
      case nw_attempts net of
        [] \<Rightarrow> (ConnectFailed WsIo, net)
      | script # rest \<Rightarrow> (script, net\<lparr> nw_attempts := rest \<rparr>))"

definition open_read_socket :: "('i, 'j) read_client \<Rightarrow> 'i read_options \<Rightarrow> connect_script
    \<Rightarrow> ('u, 'j) client_error + read_socket \<times> 'i stream_metadata" where
  "open_read_socket client options script =
     and_then (connect_websocket script) (\<lambda>(elapsed, waits).
     case expect_read_handshake (rc_from_json client) (case waits of [] \<Rightarrow> [] | w # _ \<Rightarrow> w) of
       (handshake, rest) \<Rightarrow>
         and_then (with_timeout elapsed ''reader handshake'' handshake) (\<lambda>metadata.
         and_then (validate_read_stream_metadata (ro_stream_id options) None metadata) (\<lambda>_.
         Inr (rest # tl waits, metadata))))"

definition read_request :: "('i, 'j) read_client \<Rightarrow> 'i read_options \<Rightarrow> data_plane_route
    \<Rightarrow> ('u, 'j) client_error + url \<times> bytes" where
  "read_request client options route =
     and_then (validate_read_options options) (\<lambda>_.
     and_then (map_err FrameError (client_encode list_buf (OpenRead (ro_link_secret options)))) (\<lambda>opening_frame.
     and_then (websocket_url (rc_config client) (route_path (rc_show_id client) route (ro_stream_id options) ''read'')) (\<lambda>url.
     Inr (append_read_query (rc_show_rate client) url options, opening_frame))))"

definition connect_read_socket :: "('i, 'j) read_client \<Rightarrow> 'i read_options \<Rightarrow> data_plane_route \<Rightarrow> network
    \<Rightarrow> ((url, 'j) client_error, read_socket \<times> 'i stream_metadata) outcome \<times> network" where
  "connect_read_socket client options route net =
     (case read_request client options route of
        Inl e \<Rightarrow> (Err e, net)
      | Inr request \<Rightarrow>
          (case retry_transient (rc_config client) (rc_jitter client)
             (\<lambda>net. case next_attempt request net of (script, net) \<Rightarrow> (open_read_socket client options script, net)) net of
           (result, net, _) \<Rightarrow> (result, net)))"

section \<open>Waiting for an outcome\<close>

text \<open>One wait under \<open>read_idle_timeout\<close>.\<close>

fun next_wait :: "(bytes \<Rightarrow> 'j + 'i stream_metadata) \<Rightarrow> read_socket
    \<Rightarrow> (('u, 'j) client_error + read_socket_outcome option) \<times> read_socket" where
  "next_wait from_json [] = (fst (next_read_socket_frame from_json []), [])"
| "next_wait from_json (w # waits) =
     (if list_all is_control w \<and> waits \<noteq> []
      then (with_timeout True ''read stream record'' (fst (next_read_socket_frame from_json w)), waits)
      else case next_read_socket_frame from_json w of (r, rest) \<Rightarrow> (r, rest # waits))"

definition socket_size :: "read_socket \<Rightarrow> nat" where
  "socket_size waits = sum_list (map (\<lambda>w. Suc (length w)) waits)"

lemma socket_size_simps [simp]:
  "socket_size [] = 0" "socket_size (w # waits) = Suc (length w) + socket_size waits"
  by (simp_all add: socket_size_def)

lemma next_read_socket_frame_Nil [simp]: "next_read_socket_frame from_json [] = (Inr (Some OutcomeClosed), [])"
  by (simp add: next_read_socket_frame_def)

lemma next_read_socket_frame_less:
  "next_read_socket_frame from_json ws = (r, ws') \<Longrightarrow> ws \<noteq> [] \<Longrightarrow> length ws' < length ws"
  by (auto simp: next_read_socket_frame_def dest: next_server_frame_shrinks split: prod.splits sum.splits option.splits)

lemma next_wait_shrinks:
  "next_wait from_json waits = (r, waits') \<Longrightarrow> r \<noteq> Inr (Some OutcomeClosed) \<Longrightarrow> socket_size waits' < socket_size waits"
proof (cases waits)
  case (Cons w rest)
  then show "next_wait from_json waits = (r, waits') \<Longrightarrow> r \<noteq> Inr (Some OutcomeClosed) \<Longrightarrow> socket_size waits' < socket_size waits"
    by (cases "w = []") (auto dest: next_read_socket_frame_less split: if_splits prod.splits)
qed simp

text \<open>\<open>next_outcome\<close> skips heartbeats, each with a new timeout.\<close>

function next_outcome :: "(bytes \<Rightarrow> 'j + 'i stream_metadata) \<Rightarrow> read_socket
    \<Rightarrow> (('u, 'j) client_error + read_socket_outcome) \<times> read_socket" where
  "next_outcome from_json waits = (case next_wait from_json waits of
       (Inl e, waits) \<Rightarrow> (Inl e, waits)
     | (Inr (Some outcome), waits) \<Rightarrow> (Inr outcome, waits)
     | (Inr None, waits) \<Rightarrow> next_outcome from_json waits)"
  by pat_completeness auto
termination
  by (relation "measure (\<lambda>(_, waits). socket_size waits)")
     (auto dest!: sym[of "(_, _)" "next_wait _ _"] dest: next_wait_shrinks)

declare next_outcome.simps [simp del]

section \<open>Properties\<close>

text \<open>Every answer consumes a message of the socket, every connection an attempt of the network.\<close>

lemma next_outcome_shrinks:
  fixes from_json :: "bytes \<Rightarrow> 'j + 'i stream_metadata" and r :: "('u, 'j) client_error + read_socket_outcome"
  shows "next_outcome from_json waits = (r, waits') \<Longrightarrow> r \<noteq> Inr OutcomeClosed \<Longrightarrow> socket_size waits' < socket_size waits"
proof (induction "socket_size waits" arbitrary: waits r waits' rule: less_induct)
  case (less waits)
  obtain n rest where wait: "next_wait from_json waits = (n :: ('u, 'j) client_error + read_socket_outcome option, rest)"
    by (cases "next_wait from_json waits :: (('u, 'j) client_error + read_socket_outcome option) \<times> read_socket")
  have out: "next_outcome from_json waits = (case n of Inl e \<Rightarrow> (Inl e, rest)
      | Inr (Some outcome) \<Rightarrow> (Inr outcome, rest) | Inr None \<Rightarrow> next_outcome from_json rest)"
    by (subst next_outcome.simps) (simp add: wait split: sum.split option.split)
  show ?case
  proof (cases "n = Inr None")
    case True
    then have "socket_size rest < socket_size waits"
      using next_wait_shrinks[OF wait] by simp
    with True show ?thesis
      using less(1)[of rest r waits'] less(2,3) out by simp
  next
    case False
    then show ?thesis
      using next_wait_shrinks[OF wait] less(2,3) out by (auto split: sum.splits option.splits)
  qed
qed

lemma retry_loop_consumes:
  assumes step: "\<And>net v net'. run net = (v, net') \<Longrightarrow> length (nw_attempts net') \<le> length (nw_attempts net)"
    and succeeds: "\<And>net v net'. run net = (Inr v, net') \<Longrightarrow> length (nw_attempts net') < length (nw_attempts net)"
  shows "retry_loop run should_retry backoff attempts ns net = (r, net', slept) \<Longrightarrow>
    length (nw_attempts net') \<le> length (nw_attempts net) \<and> (\<forall>v. r = Ok v \<longrightarrow> length (nw_attempts net') < length (nw_attempts net))"
proof (induction ns arbitrary: net r net' slept)
  case (Cons n ns)
  obtain a mid where run: "run net = (a, mid)" by (cases "run net")
  show ?case
  proof (cases a)
    case (Inr v)
    then show ?thesis using Cons.prems run succeeds[of net v mid] by auto
  next
    case (Inl e)
    obtain r2 net2 slept2 where rec: "retry_loop run should_retry backoff attempts ns mid = (r2, net2, slept2)"
      by (cases "retry_loop run should_retry backoff attempts ns mid")
    show ?thesis using Cons.prems run Inl Cons.IH[OF rec] step[OF run] rec by (fastforce simp: Let_def split: if_splits)
  qed
qed simp

lemma open_read_socket_consumes:
  assumes "next_attempt request net = (script, net')"
  shows "length (nw_attempts net') \<le> length (nw_attempts net)"
    "open_read_socket client options script = Inr v \<Longrightarrow> length (nw_attempts net') < length (nw_attempts net)"
  using assms
  by (auto simp: next_attempt_def Let_def open_read_socket_def connect_websocket_def split: list.splits)

lemma connect_consumes:
  fixes client :: "('i, 'j) read_client"
  assumes "connect_read_socket client options route net = (r, net')"
  shows "length (nw_attempts net') \<le> length (nw_attempts net)
    \<and> (\<forall>v. r = Ok v \<longrightarrow> length (nw_attempts net') < length (nw_attempts net))"
proof (cases "read_request client options route :: (url, 'j) client_error + url \<times> bytes")
  case (Inr request)
  let ?run = "\<lambda>net. case next_attempt request net of (script, net) \<Rightarrow> (open_read_socket client options script :: (url, 'j) client_error + _, net)"
  obtain slept where loop: "retry_loop ?run is_retryable (reconnect_delay (rc_jitter client))
      (cc_bounded_operation_attempts (rc_config client)) [1..<cc_bounded_operation_attempts (rc_config client) + 1] net = (r, net', slept)"
    using assms Inr by (auto simp: connect_read_socket_def retry_transient_def retry_when_def Let_def split: prod.splits)
  show ?thesis
    by (rule retry_loop_consumes[OF _ _ loop]) (auto split: prod.splits dest: open_read_socket_consumes)
qed (use assms in \<open>auto simp: connect_read_socket_def\<close>)

text \<open>The batches that reach the session are well formed.\<close>

lemma decode_server_frame_typed:
  assumes "decode_server_frame from_json bs = (Inr (ServerReadBatch b) :: 'j frame_codec_error + 'i server_frame)"
  shows "wf_read_batch b"
proof -
  from decode_server_frame_cases[OF assms] obtain body where
    "decode_read_batch (server_op_byte OpReadBatch) (server_op_byte OpReadBatch # body)
      = (Inr (ServerReadBatch b) :: 'j frame_codec_error + 'i server_frame)"
    by auto
  from decode_read_batch_Inr[OF this] show ?thesis
    by (auto simp: typed_server_frame_def)
qed

lemma next_outcome_frame:
  fixes from_json :: "bytes \<Rightarrow> 'j + 'i stream_metadata" and r :: "('u, 'j) client_error + read_socket_outcome"
  shows "next_outcome from_json waits = (r, waits') \<Longrightarrow>
    \<exists>ws. case r of
        Inr outcome \<Rightarrow> fst (next_read_socket_frame from_json ws :: (('u, 'j) client_error + read_socket_outcome option) \<times> socket) = Inr (Some outcome)
      | Inl e \<Rightarrow> e = Timeout ''read stream record''
          \<or> fst (next_read_socket_frame from_json ws :: (('u, 'j) client_error + read_socket_outcome option) \<times> socket) = Inl e"
proof (induction "socket_size waits" arbitrary: waits r waits' rule: less_induct)
  case (less waits)
  obtain n rest where wait: "next_wait from_json waits = (n :: ('u, 'j) client_error + read_socket_outcome option, rest)"
    by (cases "next_wait from_json waits :: (('u, 'j) client_error + read_socket_outcome option) \<times> read_socket")
  have frame: "\<exists>ws. n = Inl (Timeout ''read stream record'') \<or> fst (next_read_socket_frame from_json ws) = n"
    using wait by (cases waits) (auto simp: with_timeout_def split: if_splits prod.splits intro: exI[of _ "hd waits"] exI[of _ "[]"])
  have out: "next_outcome from_json waits = (case n of Inl e \<Rightarrow> (Inl e, rest)
      | Inr (Some outcome) \<Rightarrow> (Inr outcome, rest) | Inr None \<Rightarrow> next_outcome from_json rest)"
    by (subst next_outcome.simps) (simp add: wait split: sum.split option.split)
  show ?case
  proof (cases "n = Inr None")
    case True
    then have "socket_size rest < socket_size waits"
      using next_wait_shrinks[OF wait] by simp
    then show ?thesis
      using less(1)[of rest r waits'] less(2) out True by simp
  next
    case False
    then show ?thesis
      using frame less(2) out by (auto split: sum.splits option.splits)
  qed
qed

lemma next_outcome_wf:
  assumes "next_outcome from_json waits = (Inr (OutcomeRecords b) :: ('u, 'j) client_error + read_socket_outcome, waits')"
  shows "wf_read_batch b"
proof -
  obtain ws where "fst (next_read_socket_frame from_json ws :: (('u, 'j) client_error + read_socket_outcome option) \<times> socket)
      = Inr (Some (OutcomeRecords b))"
    using next_outcome_frame[OF assms] by auto
  then obtain rest where "next_server_frame from_json ws = (Inr (Some (ServerReadBatch b)) :: ('u, 'j) client_error + _, rest)"
    by (auto simp: next_read_socket_frame_def split: prod.splits sum.splits option.splits server_frame.splits)
  then show ?thesis
    by (auto simp: next_server_frame_Some intro: decode_server_frame_typed)
qed

fun is_limit_error :: "('u, 'j) client_error \<Rightarrow> bool" where
  "is_limit_error (ReadReconnectLimitExceeded _) \<longleftrightarrow> True"
| "is_limit_error _ \<longleftrightarrow> False"

lemma next_server_frame_error:
  "next_server_frame from_json ws = (Inl e :: ('u, 'j) client_error + _, rest) \<Longrightarrow> \<not> is_limit_error e"
proof (induction from_json ws rule: next_server_frame.induct)
  case (3 from_json bytes ws)
  then show ?case by (auto simp: map_err_def split: sum.splits)
qed (auto simp: close_reason_error_def split: if_splits)

lemma next_outcome_error:
  assumes "next_outcome from_json waits = (Inl e :: ('u, 'j) client_error + read_socket_outcome, waits')"
  shows "\<not> is_limit_error e"
proof -
  obtain ws where "e = Timeout ''read stream record''
      \<or> fst (next_read_socket_frame from_json ws :: (('u, 'j) client_error + read_socket_outcome option) \<times> socket) = Inl e"
    using next_outcome_frame[OF assms] by auto
  then show ?thesis
  proof
    assume "fst (next_read_socket_frame from_json ws :: (('u, 'j) client_error + read_socket_outcome option) \<times> socket) = Inl e"
    then show ?thesis
      by (auto simp: next_read_socket_frame_def dest: next_server_frame_error
          split: prod.splits sum.splits option.splits server_frame.splits)
  qed simp
qed

text \<open>One connection: it repeats the same request at most \<open>attempts\<close> times and returns the last answer.\<close>

lemma expect_frame_error:
  "expect_frame from_json extract ws = (Inl e :: ('u, 'j) client_error + 'a, rest) \<Longrightarrow> \<not> is_limit_error e"
  by (auto simp: expect_frame_def map_err_def dest: next_server_frame_error split: prod.splits sum.splits option.splits)

lemma expect_read_handshake_error:
  "expect_read_handshake from_json ws = (Inl e :: ('u, 'j) client_error + _, rest) \<Longrightarrow> \<not> is_limit_error e"
  by (auto simp: expect_read_handshake_def expect_ready_def dest!: expect_frame_error split: prod.splits sum.splits if_splits)

lemma validate_read_stream_metadata_error:
  "validate_read_stream_metadata i k m = Inl e \<Longrightarrow> \<not> is_limit_error e"
  by (auto simp: validate_read_stream_metadata_def split: if_splits)

lemma open_read_socket_error: "open_read_socket client options script = Inl e \<Longrightarrow> \<not> is_limit_error e"
  by (auto simp: open_read_socket_def connect_websocket_def with_timeout_def and_then_eq_Inl
      dest: expect_read_handshake_error validate_read_stream_metadata_error
      split: connect_script.splits option.splits if_splits send_outcome.splits prod.splits)

lemma read_request_error: "read_request client options route = Inl e \<Longrightarrow> \<not> is_limit_error e"
  by (auto simp: read_request_def validate_read_options_def websocket_url_def map_err_def and_then_eq_Inl Let_def
      split: if_splits option.splits sum.splits)

lemma retry_loop_requests:
  fixes should_retry :: "('u, 'j) client_error \<Rightarrow> bool" and client :: "('i, 'j) read_client"
  shows "retry_loop (\<lambda>net. case next_attempt request net of (script, net) \<Rightarrow> (open_read_socket client options script, net))
     should_retry backoff attempts ns net = (r, net', slept)
   \<Longrightarrow> (\<exists>k \<le> length ns. nw_requests net' = nw_requests net @ replicate k request)
     \<and> (\<forall>e. r = Err e \<longrightarrow> \<not> is_limit_error e)"
proof (induction ns arbitrary: net r net' slept)
  case (Cons n ns)
  obtain script mid where attempt: "next_attempt request net = (script, mid)" by (cases "next_attempt request net")
  then have log: "nw_requests mid = nw_requests net @ [request]"
    by (auto simp: next_attempt_def Let_def split: list.splits)
  obtain r2 net2 slept2 where rec: "retry_loop (\<lambda>net. case next_attempt request net of (script, net) \<Rightarrow> (open_read_socket client options script, net))
     should_retry backoff attempts ns mid = (r2, net2, slept2)"
    by (cases "retry_loop (\<lambda>net. case next_attempt request net of (script, net) \<Rightarrow> (open_read_socket client options script, net))
     should_retry backoff attempts ns mid")
  obtain k where k: "k \<le> length ns" "nw_requests net2 = nw_requests mid @ replicate k request" "\<forall>e. r2 = Err e \<longrightarrow> \<not> is_limit_error e"
    using Cons.IH[OF rec] by blast
  show ?case
  proof (cases "open_read_socket client options script :: ('u, 'j) client_error + read_socket \<times> 'i stream_metadata")
    case (Inl e)
    show ?thesis
    proof (cases "n < attempts \<and> should_retry e")
      case True
      then have "r = r2" "net' = net2"
        using Cons.prems attempt Inl rec by (auto simp: Let_def)
      then show ?thesis
        using k log by (auto intro!: exI[of _ "Suc k"])
    next
      case False
      then have "r = Err e" "net' = mid"
        using Cons.prems attempt Inl by auto
      then show ?thesis
        using log open_read_socket_error[OF Inl] by (auto intro!: exI[of _ "Suc 0"])
    qed
  next
    case (Inr v)
    then have "r = Ok v" "net' = mid"
      using Cons.prems attempt by auto
    then show ?thesis
      using log by (auto intro!: exI[of _ "Suc 0"])
  qed
qed simp

definition asked :: "('i, 'j) read_client \<Rightarrow> 'i read_options \<Rightarrow> data_plane_route \<Rightarrow> network \<Rightarrow> network \<Rightarrow> bool" where
  "asked client options route net net' \<longleftrightarrow>
     (\<exists>k request. nw_requests net' = nw_requests net @ replicate k request
        \<and> (0 < k \<longrightarrow> read_request client options route = (Inr request :: (url, 'j) client_error + url \<times> bytes)))"

lemma asked_refl [simp]: "asked client options route net net"
  by (auto simp: asked_def intro!: exI[of _ 0])

lemma asked_trans:
  assumes "asked client options route a b" "asked client options route b c"
  shows "asked client options route a c"
proof -
  obtain k x where 1: "nw_requests b = nw_requests a @ replicate k x" "0 < k \<longrightarrow> read_request client options route = (Inr x :: (url, 'b) client_error + _)"
    using assms(1) unfolding asked_def by blast
  obtain l y where 2: "nw_requests c = nw_requests b @ replicate l y" "0 < l \<longrightarrow> read_request client options route = (Inr y :: (url, 'b) client_error + _)"
    using assms(2) unfolding asked_def by blast
  show ?thesis
  proof (cases "k = 0 \<or> l = 0")
    case True
    then show ?thesis
      using 1 2 unfolding asked_def by (cases "k = 0") (auto intro: exI[of _ l] exI[of _ k])
  next
    case False
    then have "x = y" using 1 2 by simp
    then show ?thesis
      using 1 2 unfolding asked_def by (intro exI[of _ "k + l"] exI[of _ y]) (auto simp: replicate_add)
  qed
qed

lemma connect_spec:
  fixes client :: "('i, 'j) read_client"
  assumes "connect_read_socket client options route net = (r, net')" and pos: "0 < cc_bounded_operation_attempts (rc_config client)"
  shows "asked client options route net net' \<and> r \<noteq> Panic \<and> (\<forall>e. r = Err e \<longrightarrow> \<not> is_limit_error e)"
proof (cases "read_request client options route :: (url, 'j) client_error + url \<times> bytes")
  case (Inl e)
  then show ?thesis
    using assms(1) read_request_error[of client options route e] by (auto simp: connect_read_socket_def)
next
  case (Inr request)
  let ?run = "\<lambda>net. case next_attempt request net of (script, net) \<Rightarrow> (open_read_socket client options script :: (url, 'j) client_error + _, net)"
  let ?n = "cc_bounded_operation_attempts (rc_config client)"
  obtain slept where loop: "retry_loop ?run is_retryable (reconnect_delay (rc_jitter client)) ?n [1..<?n + 1] net = (r, net', slept)"
    using assms Inr by (auto simp: connect_read_socket_def retry_transient_def retry_when_def Let_def split: prod.splits)
  obtain k where "retried_until ?run is_retryable ?n net k (r, net', slept)"
    using retry_loop_spec[of "reconnect_delay (rc_jitter client)" 1 ?n ?run is_retryable net] pos unfolding loop by auto
  then have "r \<noteq> Panic"
    by (auto simp: retried_until_def split: sum.splits)
  then show ?thesis
    using retry_loop_requests[OF loop] Inr unfolding asked_def by auto
qed

end
