(* ===== verification/ReadSession.thy ===== *)
theory ReadSession
  imports ReadSocket
begin

text \<open>
  The resumable WebSocket reader, \<open>TsfReadSession\<close> of \<open>rust/src/client.rs\<close>: its reconnects, the checks
  of what the server sends against what was requested, and the loop of \<open>next_batch\<close>.
\<close>

section \<open>Bounded reconnects\<close>

record bounded_reconnects =
  bc_retries :: nat
  bc_max_connection_attempts :: nat

definition bounded_reconnects_new :: "nat \<Rightarrow> bounded_reconnects" where
  "bounded_reconnects_new max_connection_attempts =
     \<lparr> bc_retries = 0, bc_max_connection_attempts = max_connection_attempts \<rparr>"

definition next_delay :: "(duration \<Rightarrow> duration) \<Rightarrow> bounded_reconnects
    \<Rightarrow> (('u, 'j) client_error + duration) \<times> bounded_reconnects" where
  "next_delay jitter b =
     (if bc_retries b \<ge> bc_max_connection_attempts b - 1
      then (Inl (ReadReconnectLimitExceeded (bc_max_connection_attempts b)), b)
      else (Inr (reconnect_delay jitter (bc_retries b)), b\<lparr> bc_retries := bc_retries b + 1 \<rparr>))"

definition reconnects_reset :: "bounded_reconnects \<Rightarrow> bounded_reconnects" where
  "reconnects_reset b = b\<lparr> bc_retries := 0 \<rparr>"

section \<open>Checking what the server sends\<close>

definition read_options_exhausted :: "'i read_options \<Rightarrow> bool" where
  "read_options_exhausted options =
     (let stop = stop_or_default (ro_stop options) in
      stop_count stop = Some 0
      \<or> (case (ro_start options, stop_until_timestamp_ms stop) of
           (Some (TimestampMs start), Some until) \<Rightarrow> start \<ge> until
         | _ \<Rightarrow> False))"

text \<open>The bounds check of \<open>batch.first()\<close>, \<open>batch.last()\<close> and of the iterator is the \<open>Panic\<close> outcome.\<close>

definition read_batch_start_violation :: "read_batch \<Rightarrow> read_start option \<Rightarrow> (unit, string option) outcome" where
  "read_batch_start_violation batch start = (case batch_first batch of
       Ok first \<Rightarrow> Ok (case start of
           Some (SeqNum seq_num) \<Rightarrow> if rr_seq_num first \<noteq> seq_num
             then Some ''read batch does not begin at the requested sequence'' else None
         | Some (TimestampMs timestamp_ms) \<Rightarrow> if rr_timestamp_ms first < timestamp_ms
             then Some ''read batch begins before the requested timestamp'' else None
         | _ \<Rightarrow> None)
     | Err e \<Rightarrow> Err e
     | Panic \<Rightarrow> Panic)"

fun iter_any :: "(read_record \<Rightarrow> bool) \<Rightarrow> read_batch \<Rightarrow> record_meta list \<Rightarrow> (unit, bool) outcome" where
  "iter_any P batch [] = Ok False"
| "iter_any P batch (rm # rest) = (case batch_record batch rm of
       Ok r \<Rightarrow> if P r then Ok True else iter_any P batch rest
     | Err e \<Rightarrow> Err e
     | Panic \<Rightarrow> Panic)"

definition read_batch_stop_violation :: "read_batch \<Rightarrow> 'i read_options \<Rightarrow> (unit, string option) outcome" where
  "read_batch_stop_violation batch options =
     (let stop = stop_or_default (ro_stop options) in
      if (case stop_count stop of None \<Rightarrow> False | Some left \<Rightarrow> (of_nat (record_count batch) :: u64) > left)
      then Ok (Some ''read batch exceeds the remaining record count'')
      else case stop_until_timestamp_ms stop of
          None \<Rightarrow> Ok None
        | Some until \<Rightarrow> (case iter_any (\<lambda>r. rr_timestamp_ms r \<ge> until) batch (batch_metas batch) of
            Ok True \<Rightarrow> Ok (Some ''read batch reaches the exclusive until timestamp'')
          | Ok False \<Rightarrow> Ok None
          | Err e \<Rightarrow> Err e
          | Panic \<Rightarrow> Panic))"

definition validate_read_batch_for_request :: "read_batch \<Rightarrow> 'i read_options \<Rightarrow> (('u, 'j) client_error, unit) outcome" where
  "validate_read_batch_for_request batch options =
     (case read_batch_start_violation batch (ro_start options) of
        Ok (Some message) \<Rightarrow> Err (InvalidReadResponse message)
      | Ok None \<Rightarrow> (case read_batch_stop_violation batch options of
            Ok (Some message) \<Rightarrow> Err (InvalidReadResponse message)
          | Ok None \<Rightarrow> Ok ()
          | _ \<Rightarrow> Panic)
      | _ \<Rightarrow> Panic)"

definition validate_caught_up_for_request :: "caught_up_position \<Rightarrow> 'i read_options \<Rightarrow> ('u, 'j) client_error + unit" where
  "validate_caught_up_for_request caught_up options =
     (if (case ro_start options of Some (SeqNum seq_num) \<Rightarrow> cu_next_seq_num caught_up \<noteq> seq_num | _ \<Rightarrow> False)
      then Inl (InvalidReadResponse ''CaughtUp does not match the next requested sequence'')
      else Inr ())"

definition advance_read_options_for_batch :: "'i read_options \<Rightarrow> read_batch \<Rightarrow> (unit, bool \<times> 'i read_options) outcome" where
  "advance_read_options_for_batch options batch = (case batch_last batch of
       Ok final \<Rightarrow> (case checked_add (rr_seq_num final) 1 of
           None \<Rightarrow> Ok (True, options)
         | Some next_seq_num \<Rightarrow>
             let delivered = of_nat (record_count batch) :: u64;
                 options = options\<lparr> ro_start := Some (SeqNum next_seq_num),
                   ro_stop := map_option (\<lambda>stop. stop\<lparr> stop_count :=
                     map_option (\<lambda>left. if delivered \<le> left then left - delivered else 0)
                       (stop_count stop) \<rparr>) (ro_stop options) \<rparr> in
             Ok (case ro_stop options of None \<Rightarrow> False | Some stop \<Rightarrow> stop_count stop = Some 0, options))
     | Err e \<Rightarrow> Err e
     | Panic \<Rightarrow> Panic)"

section \<open>The session\<close>

record 'i read_session =
  rs_options :: "'i read_options"
  rs_route :: data_plane_route
  rs_socket :: read_socket
  rs_stream_metadata :: "'i stream_metadata"
  rs_finished :: bool
  rs_last_caught_up :: "caught_up_position option"
  rs_reconnects :: bounded_reconnects
  rs_reconnect_delay :: "duration option"

definition read_session_new :: "('i, 'j) read_client \<Rightarrow> 'i read_options \<Rightarrow> data_plane_route \<Rightarrow> read_socket
    \<Rightarrow> 'i stream_metadata \<Rightarrow> 'i read_session" where
  "read_session_new client options route socket metadata =
     \<lparr> rs_options = options, rs_route = route, rs_socket = socket, rs_stream_metadata = metadata, rs_finished = False,
       rs_last_caught_up = None,
       rs_reconnects = bounded_reconnects_new (cc_bounded_operation_attempts (rc_config client)),
       rs_reconnect_delay = None \<rparr>"

definition connect_reader :: "('i, 'j) read_client \<Rightarrow> 'i read_options \<Rightarrow> data_plane_route \<Rightarrow> network
    \<Rightarrow> ((url, 'j) client_error, 'i read_session) outcome \<times> network" where
  "connect_reader client options route net =
     (case connect_read_socket client options route net of
        (Ok (socket, metadata), net) \<Rightarrow> (Ok (read_session_new client options route socket metadata), net)
      | (Err e, net) \<Rightarrow> (Err e, net)
      | (Panic, net) \<Rightarrow> (Panic, net))"

definition reconnect :: "('i, 'j) read_client \<Rightarrow> network \<Rightarrow> 'i read_session
    \<Rightarrow> ((url, 'j) client_error, unit) outcome \<times> network \<times> 'i read_session" where
  "reconnect client net session = (case rs_reconnect_delay session of
       None \<Rightarrow> (Panic, net, session)
     | Some _ \<Rightarrow> (case connect_read_socket client (rs_options session) (rs_route session) net of
           (Ok (socket, metadata), net) \<Rightarrow>
             (case validate_read_stream_metadata (ro_stream_id (rs_options session))
                 (Some (sm_kind (rs_stream_metadata session))) metadata of
                Inl e \<Rightarrow> (Err e, net, session)
              | Inr _ \<Rightarrow> (Ok (), net, session\<lparr> rs_socket := socket, rs_stream_metadata := metadata,
                    rs_reconnects := reconnects_reset (rs_reconnects session), rs_reconnect_delay := None \<rparr>))
         | (Err e, net) \<Rightarrow> (Err e, net, session)
         | (Panic, net) \<Rightarrow> (Panic, net, session)))"

definition require_reconnect :: "('i, 'j) read_client \<Rightarrow> 'i read_session
    \<Rightarrow> ((url, 'j) client_error + unit) \<times> 'i read_session" where
  "require_reconnect client session =
     (if rs_reconnect_delay session = None then
        (case next_delay (rc_jitter client) (rs_reconnects session) of
           (Inl e, b) \<Rightarrow> (Inl e, session\<lparr> rs_reconnects := b \<rparr>)
         | (Inr delay, b) \<Rightarrow> (Inr (), session\<lparr> rs_reconnects := b, rs_reconnect_delay := Some delay \<rparr>))
      else (Inr (), session))"

definition batch_delivered :: "'i read_session \<Rightarrow> read_batch \<Rightarrow> (unit, 'i read_session) outcome" where
  "batch_delivered session batch =
     (let session = session\<lparr> rs_reconnects := reconnects_reset (rs_reconnects session), rs_reconnect_delay := None \<rparr> in
      case advance_read_options_for_batch (rs_options session) batch of
        Ok (finished, options) \<Rightarrow> Ok (session\<lparr> rs_options := options, rs_finished := finished \<rparr>)
      | Err e \<Rightarrow> Err e
      | Panic \<Rightarrow> Panic)"

type_synonym 'j read_result = "((url, 'j) client_error, read_batch option) outcome"

text \<open>The \<open>match\<close> on the socket's outcome. \<open>None\<close> means that the loop goes round.\<close>

definition handle_outcome :: "('i, 'j) read_client \<Rightarrow> network \<Rightarrow> 'i read_session
    \<Rightarrow> (url, 'j) client_error + read_socket_outcome \<Rightarrow> 'j read_result option \<times> network \<times> 'i read_session" where
  "handle_outcome client net session outcome = (case outcome of
       Inr (OutcomeRecords batch) \<Rightarrow>
         (case validate_read_batch_for_request batch (rs_options session) of
            Ok _ \<Rightarrow> (case batch_delivered session batch of
                Ok session \<Rightarrow> (Some (Ok (Some batch)), net, session)
              | _ \<Rightarrow> (Some Panic, net, session))
          | Err e \<Rightarrow> (Some (Err e), net, session)
          | Panic \<Rightarrow> (Some Panic, net, session))
     | Inr (OutcomeCaughtUp caught_up) \<Rightarrow>
         (case validate_caught_up_for_request caught_up (rs_options session) of
            Inl e \<Rightarrow> (Some (Err e), net, session)
          | Inr _ \<Rightarrow> (None, net, session\<lparr>
                rs_options := (rs_options session)\<lparr> ro_start := Some (SeqNum (cu_next_seq_num caught_up)) \<rparr>,
                rs_last_caught_up := Some caught_up \<rparr>))
     | Inr OutcomeClosed \<Rightarrow> (Some (Ok None), net, session\<lparr> rs_finished := True \<rparr>)
     | Inl error \<Rightarrow>
         if is_resumable_read_interruption error then
           (case require_reconnect client session of
              (Inl e, session) \<Rightarrow> (Some (Err e), net, session)
            | (Inr _, session) \<Rightarrow> (case reconnect client net session of
                  (Ok _, net, session) \<Rightarrow> (None, net, session)
                | (Err e, net, session) \<Rightarrow> (Some (Err e), net, session)
                | (Panic, net, session) \<Rightarrow> (Some Panic, net, session)))
         else (Some (Err error), net, session))"

text \<open>One round of the loop.\<close>

definition session_step :: "('i, 'j) read_client \<Rightarrow> network \<Rightarrow> 'i read_session
    \<Rightarrow> 'j read_result option \<times> network \<times> 'i read_session" where
  "session_step client net session =
     (if rs_finished session \<or> read_options_exhausted (rs_options session)
      then (Some (Ok None), net, session\<lparr> rs_finished := True \<rparr>)
      else case (if rs_reconnect_delay session \<noteq> None then reconnect client net session else (Ok (), net, session)) of
          (Ok _, net, session) \<Rightarrow>
            (case next_outcome (rc_from_json client) (rs_socket session) of
               (outcome, socket) \<Rightarrow> handle_outcome client net (session\<lparr> rs_socket := socket \<rparr>) outcome)
        | (Err e, net, session) \<Rightarrow> (Some (Err e), net, session)
        | (Panic, net, session) \<Rightarrow> (Some Panic, net, session))"

text \<open>The loop ends because every round consumes a message of the socket or a connection attempt.\<close>

lemma reconnect_consumes:
  assumes "reconnect client net session = (r, net', session')"
  shows "r = Ok () \<Longrightarrow> length (nw_attempts net') < length (nw_attempts net)"
proof -
  obtain c net2 where connect: "connect_read_socket client (rs_options session) (rs_route session) net = (c, net2)"
    by (cases "connect_read_socket client (rs_options session) (rs_route session) net")
  assume r: "r = Ok ()"
  then have delay: "rs_reconnect_delay session \<noteq> None"
    using assms by (cases "rs_reconnect_delay session") (simp_all add: reconnect_def)
  with r assms connect obtain v where "c = Ok v" "net' = net2"
    by (cases c) (auto simp: reconnect_def split: sum.splits)
  then show "length (nw_attempts net') < length (nw_attempts net)"
    using connect_consumes[OF connect] by simp
qed

lemma handle_outcome_continues:
  assumes "handle_outcome client net session outcome = (None, net', session')"
  shows "length (nw_attempts net') < length (nw_attempts net)
    \<or> (net' = net \<and> rs_socket session' = rs_socket session \<and> outcome \<noteq> Inr OutcomeClosed)"
proof (cases outcome)
  case (Inl e)
  obtain s1 session1 where require: "require_reconnect client session = (s1, session1)"
    by (cases "require_reconnect client session")
  obtain r net2 session2 where again: "reconnect client net session1 = (r, net2, session2)"
    by (cases "reconnect client net session1")
  show ?thesis
    using assms Inl require again reconnect_consumes[OF again]
    by (cases r; cases s1) (simp_all add: handle_outcome_def split: if_splits)
next
  case (Inr ok)
  then show ?thesis
    using assms by (cases ok) (auto simp: handle_outcome_def split: outcome.splits sum.splits)
qed

lemma session_step_continues:
  fixes client :: "('i, 'j) read_client"
  assumes "session_step client net session = (None, net', session')"
  shows "length (nw_attempts net') < length (nw_attempts net)
    \<or> (net' = net \<and> socket_size (rs_socket session') < socket_size (rs_socket session))"
proof -
  obtain r net1 session1 where first:
    "(if rs_reconnect_delay session \<noteq> None then reconnect client net session else (Ok (), net, session)) = (r, net1, session1)"
    by (metis prod_cases3)
  obtain outcome socket where wait:
    "next_outcome (rc_from_json client) (rs_socket session1) = (outcome :: (url, 'j) client_error + read_socket_outcome, socket)"
    by (cases "next_outcome (rc_from_json client) (rs_socket session1) :: ((url, 'j) client_error + read_socket_outcome) \<times> read_socket")
  have "\<not> (rs_finished session \<or> read_options_exhausted (rs_options session))"
    using assms by (simp add: session_step_def split: if_splits)
  with assms have step: "(case r of Ok _ \<Rightarrow> handle_outcome client net1 (session1\<lparr> rs_socket := socket \<rparr>) outcome
      | Err e \<Rightarrow> (Some (Err e), net1, session1) | Panic \<Rightarrow> (Some Panic, net1, session1)) = (None, net', session')"
    unfolding session_step_def first by (simp add: wait split: outcome.splits)
  then have r: "r = Ok ()" and handled: "handle_outcome client net1 (session1\<lparr> rs_socket := socket \<rparr>) outcome = (None, net', session')"
    by (cases r; simp)+
  have "length (nw_attempts net1) < length (nw_attempts net) \<or> (net1 = net \<and> session1 = session)"
    using first r reconnect_consumes[of client net session r net1 session1] by (simp split: if_splits)
  then show ?thesis
    using handle_outcome_continues[OF handled] next_outcome_shrinks[OF wait] by auto
qed

function next_batch :: "('i, 'j) read_client \<Rightarrow> network \<Rightarrow> 'i read_session \<Rightarrow> 'j read_result \<times> network \<times> 'i read_session" where
  "next_batch client net session = (case session_step client net session of
       (Some result, net, session) \<Rightarrow> (result, net, session)
     | (None, net, session) \<Rightarrow> next_batch client net session)"
  by pat_completeness auto
termination
  by (relation "measures [\<lambda>(_, net, _). length (nw_attempts net), \<lambda>(_, _, session). socket_size (rs_socket session)]")
     (auto dest!: sym[of "(_, _)" "session_step _ _ _"] dest: session_step_continues)

declare next_batch.simps [simp del]

text \<open>The results of consecutive calls.\<close>

fun calls :: "('s \<Rightarrow> 'r \<times> 's) \<Rightarrow> nat \<Rightarrow> 's \<Rightarrow> 'r list \<times> 's" where
  "calls call 0 s = ([], s)"
| "calls call (Suc n) s = (case call s of (r, s) \<Rightarrow> case calls call n s of (rs, s) \<Rightarrow> (r # rs, s))"

definition socket_call :: "('i, 'j) read_client \<times> network \<times> 'i read_session \<Rightarrow> 'j read_result \<times> ('i, 'j) read_client \<times> network \<times> 'i read_session" where
  "socket_call s = (case s of (client, net, session) \<Rightarrow>
     (case next_batch client net session of (r, net, session) \<Rightarrow> (r, client, net, session)))"

fun next_batches :: "nat \<Rightarrow> ('i, 'j) read_client \<Rightarrow> network \<Rightarrow> 'i read_session
    \<Rightarrow> 'j read_result list \<times> network \<times> 'i read_session" where
  "next_batches 0 client net session = ([], net, session)"
| "next_batches (Suc n) client net session =
     (case next_batch client net session of (r, net, session) \<Rightarrow>
        (case next_batches n client net session of (rs, net, session) \<Rightarrow> (r # rs, net, session)))"

lemma calls_socket_call:
  "calls socket_call n (client, net, session) =
     (case next_batches n client net session of (rs, net, session) \<Rightarrow> (rs, client, net, session))"
  by (induction n arbitrary: net session) (auto simp: socket_call_def split: prod.splits)

lemma next_batches_calls:
  "next_batches n client net session = (rs, net', session') \<Longrightarrow>
     calls socket_call n (client, net, session) = (rs, client, net', session')"
  by (simp add: calls_socket_call)

section \<open>Properties\<close>

text \<open>On well-formed batches the checks do not panic and say what they test.\<close>

lemma wf_batch_Ok:
  assumes "wf_read_batch b"
  shows "batch_first b = Ok (hd (batch_records b))" "batch_last b = Ok (last (batch_records b))"
    "iter_any P b (batch_metas b) = Ok (\<exists>r \<in> set (batch_records b). P r)"
proof -
  have Ok: "batch_record b rm = Ok (meta_record (batch_payload b) rm)" if "rm \<in> set (batch_metas b)" for rm
    using assms that by (simp add: batch_record_def wf_read_batch_def)
  have ne: "batch_metas b \<noteq> []"
    using assms by (auto simp: wf_read_batch_def record_count_def)
  then show "batch_first b = Ok (hd (batch_records b))" "batch_last b = Ok (last (batch_records b))"
    using Ok by (auto simp: batch_first_def batch_last_def batch_records_def last_map split: list.splits)
  have "iter_any P b rms = Ok (\<exists>r \<in> set (map (meta_record (batch_payload b)) rms). P r)" if "set rms \<subseteq> set (batch_metas b)" for rms
    using that by (induction rms) (auto simp: Ok)
  then show "iter_any P b (batch_metas b) = Ok (\<exists>r \<in> set (batch_records b). P r)"
    by (simp add: batch_records_def)
qed

lemma wf_batch_count:
  assumes "wf_read_batch b"
  shows "unat (of_nat (record_count b) :: u64) = record_count b" "batch_records b \<noteq> []" "0 < record_count b"
    "contiguous (map rr_seq_num (batch_records b))"
proof -
  have "record_count b < 2 ^ 64"
    using assms by (simp add: wf_read_batch_def const_defs)
  then show "unat (of_nat (record_count b) :: u64) = record_count b"
    by (simp add: unat_of_nat take_bit_eq_mod)
  show "contiguous (map rr_seq_num (batch_records b))"
    using assms by (simp add: wf_read_batch_def batch_records_simps)
  show "batch_records b \<noteq> []" "0 < record_count b"
    using assms by (auto simp: wf_read_batch_def record_count_def batch_records_def)
qed

text \<open>What a request allows the server to deliver.\<close>

definition start_allows :: "read_start option \<Rightarrow> read_record \<Rightarrow> bool" where
  "start_allows start r = (case start of
       Some (SeqNum v) \<Rightarrow> rr_seq_num r = v
     | Some (TimestampMs t) \<Rightarrow> t \<le> rr_timestamp_ms r
     | _ \<Rightarrow> True)"

definition stop_allows :: "read_stop option \<Rightarrow> read_record list \<Rightarrow> bool" where
  "stop_allows stop rs \<longleftrightarrow>
     (case stop_count (stop_or_default stop) of None \<Rightarrow> True | Some n \<Rightarrow> length rs \<le> unat n)
     \<and> (case stop_until_timestamp_ms (stop_or_default stop) of None \<Rightarrow> True
        | Some t \<Rightarrow> \<forall>r \<in> set rs. rr_timestamp_ms r < t)"

lemma validate_batch_iff:
  assumes wf: "wf_read_batch b"
  shows "(validate_read_batch_for_request b options = Ok () \<longleftrightarrow>
      start_allows (ro_start options) (hd (batch_records b)) \<and> stop_allows (ro_stop options) (batch_records b))
    \<and> (validate_read_batch_for_request b options \<noteq> (Panic :: (('u, 'j) client_error, unit) outcome))"
proof -
  have start: "read_batch_start_violation b (ro_start options) = Ok None \<longleftrightarrow> start_allows (ro_start options) (hd (batch_records b))"
      "\<exists>v. read_batch_start_violation b (ro_start options) = Ok v"
    by (auto simp: read_batch_start_violation_def wf_batch_Ok[OF wf] start_allows_def not_less split: option.splits read_start.splits)
  have stop: "read_batch_stop_violation b options = Ok None \<longleftrightarrow> stop_allows (ro_stop options) (batch_records b)"
      "\<exists>v. read_batch_stop_violation b options = Ok v"
    using wf_batch_count(1)[OF wf]
    by (auto simp: read_batch_stop_violation_def wf_batch_Ok[OF wf] stop_allows_def Let_def not_less not_le batch_records_simps
        word_less_nat_alt word_le_nat_alt split: option.splits bool.splits)
  show ?thesis
    using start stop by (auto simp: validate_read_batch_for_request_def split: outcome.splits option.splits)
qed

text \<open>How a delivered batch moves the request on: to the next sequence number with what is left of the
  count; the session has finished when nothing is left or there is no next sequence number.\<close>

definition stop_after :: "nat \<Rightarrow> read_stop option \<Rightarrow> read_stop option" where
  "stop_after n stop = map_option (\<lambda>s. s\<lparr> stop_count := map_option (\<lambda>left. of_nat (unat left - n)) (stop_count s) \<rparr>) stop"

definition advanced :: "'i read_options \<Rightarrow> read_record list \<Rightarrow> 'i read_options \<Rightarrow> bool \<Rightarrow> bool" where
  "advanced options rs options' finished \<longleftrightarrow>
     (if rr_seq_num (last rs) = - 1 then finished \<and> options' = options
      else options' = options\<lparr> ro_start := Some (SeqNum (rr_seq_num (last rs) + 1)),
             ro_stop := stop_after (length rs) (ro_stop options) \<rparr>
        \<and> (finished \<longleftrightarrow> stop_count (stop_or_default (ro_stop options')) = Some 0))"

lemma checked_add_1: "checked_add (w :: u64) 1 = (if w = - 1 then None else Some (w + 1))"
proof -
  have "unat w + 1 < 2 ^ 64 \<longleftrightarrow> w \<noteq> - 1"
  proof -
    have "unat (- 1 :: u64) = 2 ^ 64 - 1" by (simp add: unsigned_minus_1_eq_mask mask_eq_exp_minus_1)
    moreover have "unat w < 2 ^ 64" using unsigned_less[of w] by simp
    ultimately show ?thesis unfolding word_unat_eq_iff[of w] by linarith
  qed
  then show ?thesis by (auto simp: checked_add_def)
qed

lemma advance_spec:
  assumes wf: "wf_read_batch b"
  shows "\<exists>finished options'. advance_read_options_for_batch options b = Ok (finished, options')
    \<and> advanced options (batch_records b) options' finished"
proof -
  have count: "(if of_nat (record_count b) \<le> left then left - of_nat (record_count b) else 0) = of_nat (unat left - record_count b)"
    for left :: u64
    using wf_batch_count(1)[OF wf] unsigned_less[of left]
    by (auto simp: word_le_nat_alt word_unat_eq_iff unat_sub unat_of_nat take_bit_eq_mod
        intro!: unat_lt unsigned_less order.strict_trans1[OF diff_le_self, THEN mod_less, symmetric])
  show ?thesis
    by (auto simp: advance_read_options_for_batch_def wf_batch_Ok[OF wf] checked_add_1 advanced_def stop_after_def count
        batch_records_simps Let_def stop_or_default_def read_stop_default_def split: option.splits)
qed

text \<open>What one round of the loop may do to the request: the abstract reader.\<close>

fun read_round :: "'i read_options \<times> bool \<Rightarrow> 'j read_result option \<Rightarrow> 'i read_options \<times> bool \<Rightarrow> bool" where
  "read_round (o1, f1) None (o2, f2) \<longleftrightarrow> \<not> f1 \<and> \<not> f2
     \<and> (o2 = o1 \<or> (\<exists>v. o2 = o1\<lparr> ro_start := Some (SeqNum v) \<rparr> \<and> (\<forall>w. ro_start o1 = Some (SeqNum w) \<longrightarrow> v = w)))"
| "read_round (o1, f1) (Some (Ok (Some b))) (o2, f2) \<longleftrightarrow> \<not> f1 \<and> wf_read_batch b
     \<and> start_allows (ro_start o1) (hd (batch_records b)) \<and> stop_allows (ro_stop o1) (batch_records b)
     \<and> advanced o1 (batch_records b) o2 f2"
| "read_round (o1, f1) (Some (Ok None)) (o2, f2) \<longleftrightarrow> o2 = o1 \<and> f2"
| "read_round (o1, f1) (Some (Err e)) (o2, f2) \<longleftrightarrow> \<not> f1 \<and> (o2, f2) = (o1, f1)"
| "read_round (o1, f1) (Some Panic) (o2, f2) \<longleftrightarrow> False"

definition request_state :: "'i read_session \<Rightarrow> 'i read_options \<times> bool" where
  "request_state session = (rs_options session, rs_finished session)"

text \<open>The bookkeeping of the reconnects: outside a pending reconnect the counter is zero.\<close>

definition reconnects_ok :: "('i, 'j) read_client \<Rightarrow> 'i read_session \<Rightarrow> bool" where
  "reconnects_ok client session \<longleftrightarrow>
     bc_max_connection_attempts (rs_reconnects session) = cc_bounded_operation_attempts (rc_config client)
     \<and> (rs_reconnect_delay session = None \<longrightarrow> bc_retries (rs_reconnects session) = 0)"

lemma reconnect_spec:
  fixes client :: "('i, 'j) read_client"
  assumes run: "reconnect client net session = (r, net', session')" and delay: "rs_reconnect_delay session \<noteq> None"
    and pos: "0 < cc_bounded_operation_attempts (rc_config client)"
  shows "asked client (rs_options session) (rs_route session) net net'" "r \<noteq> Panic" "\<forall>e. r = Err e \<longrightarrow> \<not> is_limit_error e"
    "request_state session' = request_state session" "rs_route session' = rs_route session"
    "r = Ok () \<longrightarrow> rs_reconnect_delay session' = None \<and> (reconnects_ok client session \<longrightarrow> reconnects_ok client session')"
    "\<forall>e. r = Err e \<longrightarrow> session' = session"
proof -
  obtain c net2 where connect: "connect_read_socket client (rs_options session) (rs_route session) net = (c, net2)"
    by (cases "connect_read_socket client (rs_options session) (rs_route session) net")
  have run': "(case c of
       Ok (socket, metadata) \<Rightarrow>
             (case validate_read_stream_metadata (ro_stream_id (rs_options session))
                 (Some (sm_kind (rs_stream_metadata session))) metadata of
                Inl e \<Rightarrow> (Err e, net2, session)
              | Inr _ \<Rightarrow> (Ok (), net2, session\<lparr> rs_socket := socket, rs_stream_metadata := metadata,
                    rs_reconnects := reconnects_reset (rs_reconnects session), rs_reconnect_delay := None \<rparr>))
     | Err e \<Rightarrow> (Err e, net2, session)
     | Panic \<Rightarrow> (Panic, net2, session)) = (r, net', session')"
    using run delay connect by (auto simp: reconnect_def split: option.splits outcome.splits)
  have net: "net' = net2"
    using run' by (auto split: outcome.splits prod.splits sum.splits)
  note spec = connect_spec[OF connect pos]
  show "asked client (rs_options session) (rs_route session) net net'" using spec net by simp
  show "r \<noteq> Panic" "\<forall>e. r = Err e \<longrightarrow> \<not> is_limit_error e"
    using run' spec by (auto split: outcome.splits prod.splits sum.splits dest: validate_read_stream_metadata_error)
  show "request_state session' = request_state session" "rs_route session' = rs_route session" "\<forall>e. r = Err e \<longrightarrow> session' = session"
    "r = Ok () \<longrightarrow> rs_reconnect_delay session' = None \<and> (reconnects_ok client session \<longrightarrow> reconnects_ok client session')"
    using run' by (auto simp: request_state_def reconnects_ok_def reconnects_reset_def split: outcome.splits prod.splits sum.splits)
qed

lemma handle_outcome_spec:
  fixes client :: "('i, 'j) read_client"
  assumes run: "handle_outcome client net session outcome = (r, net', session')"
    and wf: "\<And>b. outcome = Inr (OutcomeRecords b) \<Longrightarrow> wf_read_batch b"
    and fin: "\<not> rs_finished session" and pos: "0 < cc_bounded_operation_attempts (rc_config client)"
  shows "asked client (rs_options session) (rs_route session) net net'"
    "read_round (request_state session) r (request_state session')" "rs_route session' = rs_route session"
proof -
  have "asked client (rs_options session) (rs_route session) net net'
    \<and> read_round (request_state session) r (request_state session') \<and> rs_route session' = rs_route session"
  proof (cases outcome)
    case (Inl error)
    show ?thesis
    proof (cases "is_resumable_read_interruption error")
      case False
      then show ?thesis using run Inl fin by (auto simp: handle_outcome_def request_state_def)
    next
      case True
      obtain s1 session1 where require: "require_reconnect client session = (s1, session1)"
        by (cases "require_reconnect client session")
      obtain c net2 session2 where again: "reconnect client net session1 = (c, net2, session2)"
        by (cases "reconnect client net session1")
      have same: "request_state session1 = request_state session" "rs_route session1 = rs_route session"
          "s1 = Inr () \<Longrightarrow> rs_reconnect_delay session1 \<noteq> None"
        using require by (auto simp: require_reconnect_def request_state_def split: if_splits sum.splits prod.splits)
      show ?thesis
      proof (cases s1)
        case (Inl e)
        then show ?thesis using run \<open>outcome = Inl error\<close> True require same fin
          by (auto simp: handle_outcome_def request_state_def)
      next
        case (Inr u)
        note spec = reconnect_spec[OF again _ pos]
        have "(case c of Ok _ \<Rightarrow> (None, net2, session2) | Err e \<Rightarrow> (Some (Err e), net2, session2)
            | Panic \<Rightarrow> (Some Panic, net2, session2)) = (r, net', session')"
          using run \<open>outcome = Inl error\<close> True require Inr again by (auto simp: handle_outcome_def split: outcome.splits)
        then show ?thesis
          using spec same Inr fin by (auto simp: request_state_def split: outcome.splits)
      qed
    qed
  next
    case (Inr ok)
    show ?thesis
    proof (cases ok)
      case (OutcomeRecords b)
      then have b: "wf_read_batch b" using wf Inr by blast
      obtain finished options' where advance: "advance_read_options_for_batch (rs_options session) b = Ok (finished, options')"
          "advanced (rs_options session) (batch_records b) options' finished"
        using advance_spec[OF b] by blast
      show ?thesis
        using run Inr OutcomeRecords validate_batch_iff[OF b, of "rs_options session"] advance fin b
        by (auto simp: handle_outcome_def batch_delivered_def request_state_def split: outcome.splits)
    next
      case (OutcomeCaughtUp caught_up)
      then show ?thesis
        using run Inr fin by (auto simp: handle_outcome_def request_state_def validate_caught_up_for_request_def split: if_splits)
    next
      case OutcomeClosed
      then show ?thesis using run Inr by (auto simp: handle_outcome_def request_state_def)
    qed
  qed
  then show "asked client (rs_options session) (rs_route session) net net'"
    "read_round (request_state session) r (request_state session')" "rs_route session' = rs_route session" by auto
qed

lemma session_step_spec:
  fixes client :: "('i, 'j) read_client"
  assumes run: "session_step client net session = (r, net', session')"
    and pos: "0 < cc_bounded_operation_attempts (rc_config client)"
  shows "asked client (rs_options session) (rs_route session) net net'
    \<and> read_round (request_state session) r (request_state session') \<and> rs_route session' = rs_route session"
proof (cases "rs_finished session \<or> read_options_exhausted (rs_options session)")
  case True
  then show ?thesis using run by (auto simp: session_step_def request_state_def)
next
  case False
  obtain c net1 session1 where first:
    "(if rs_reconnect_delay session \<noteq> None then reconnect client net session else (Ok (), net, session)) = (c, net1, session1)"
    by (metis prod_cases3)
  obtain outcome socket where wait:
    "next_outcome (rc_from_json client) (rs_socket session1) = (outcome :: (url, 'j) client_error + read_socket_outcome, socket)"
    by (cases "next_outcome (rc_from_json client) (rs_socket session1) :: ((url, 'j) client_error + read_socket_outcome) \<times> read_socket")
  have step: "(case c of Ok _ \<Rightarrow> handle_outcome client net1 (session1\<lparr> rs_socket := socket \<rparr>) outcome
      | Err e \<Rightarrow> (Some (Err e), net1, session1) | Panic \<Rightarrow> (Some Panic, net1, session1)) = (r, net', session')"
    using run False unfolding session_step_def first by (simp add: wait split: outcome.splits)
  have one: "asked client (rs_options session) (rs_route session) net net1" "c \<noteq> Panic"
      "request_state session1 = request_state session" "rs_route session1 = rs_route session"
    using first reconnect_spec[of client net session c net1 session1] pos by (auto split: if_splits)
  show ?thesis
  proof (cases c)
    case (Ok u)
    then have "handle_outcome client net1 (session1\<lparr> rs_socket := socket \<rparr>) outcome = (r, net', session')"
      using step by simp
    from handle_outcome_spec[OF this _ _ pos] show ?thesis
      using one False wait next_outcome_wf[of "rc_from_json client" "rs_socket session1"]
      by (auto simp: request_state_def intro: asked_trans)
  qed (use step one False in \<open>auto simp: request_state_def\<close>)
qed

text \<open>Calls: rounds up to the first result.\<close>

inductive read_call :: "'i read_options \<times> bool \<Rightarrow> 'j read_result \<Rightarrow> 'i read_options \<times> bool \<Rightarrow> bool" where
  returns: "read_round s (Some r) s' \<Longrightarrow> read_call s r s'"
| again: "read_round s (None :: 'j read_result option) s' \<Longrightarrow> read_call s' r s'' \<Longrightarrow> read_call s r s''"

lemma next_batch_call:
  shows "next_batch client net session = (r, net', session') \<Longrightarrow> 0 < cc_bounded_operation_attempts (rc_config client) \<Longrightarrow>
    read_call (request_state session) r (request_state session') \<and> rs_route session' = rs_route session"
proof (induction client net session rule: next_batch.induct)
  case (1 client net session)
  obtain x net1 session1 where step: "session_step client net session = (x, net1, session1)"
    by (cases "session_step client net session")
  note round = session_step_spec[OF step "1.prems"(2)]
  show ?case
  proof (cases x)
    case None
    then have "read_call (request_state session1) r (request_state session') \<and> rs_route session' = rs_route session1"
      using 1 step by (subst (asm) (2) next_batch.simps) auto
    then show ?thesis using round None by (auto intro: read_call.again)
  next
    case (Some result)
    then show ?thesis
      using 1(2) round step by (subst (asm) next_batch.simps) (auto intro: read_call.returns)
  qed
qed

text \<open>The records a result or a sequence of results delivers.\<close>

fun delivered_by :: "'j read_result \<Rightarrow> read_record list" where
  "delivered_by (Ok (Some b)) = batch_records b"
| "delivered_by _ = []"

definition delivered :: "'j read_result list \<Rightarrow> read_record list" where
  "delivered results = concat (map delivered_by results)"

text \<open>The reader's promise about everything delivered so far.\<close>

definition reader_inv :: "'i read_options \<Rightarrow> read_record list \<Rightarrow> 'i read_options \<times> bool \<Rightarrow> bool" where
  "reader_inv o0 rs s \<longleftrightarrow> (case s of (now, finished) \<Rightarrow>
     contiguous (map rr_seq_num rs)
     \<and> stop_allows (ro_stop o0) rs
     \<and> (\<forall>v. ro_start o0 = Some (SeqNum v) \<longrightarrow> (if rs = [] then ro_start now = Some (SeqNum v) else rr_seq_num (hd rs) = v))
     \<and> (rs \<noteq> [] \<longrightarrow> finished \<or> (rr_seq_num (last rs) \<noteq> - 1 \<and> ro_start now = Some (SeqNum (rr_seq_num (last rs) + 1))))
     \<and> (finished \<or> now = o0\<lparr> ro_start := ro_start now, ro_stop := stop_after (length rs) (ro_stop o0) \<rparr>))"

lemma stop_after_0 [simp]: "stop_after 0 stop = stop"
proof -
  have "(\<lambda>s. s\<lparr> stop_count := map_option (\<lambda>left. of_nat (unat left)) (stop_count s) \<rparr>) = (id :: read_stop \<Rightarrow> read_stop)"
    by (rule ext) (simp add: option.map_ident)
  then show ?thesis
    by (simp only: stop_after_def diff_zero option.map_id0 id_apply)
qed

lemma unat_stop_after: "unat (of_nat (unat (left :: u64) - n) :: u64) = unat left - n"
  using unat_lt[of left] by (simp add: unat_of_nat take_bit_eq_mod)

lemma stop_after_add: "stop_after m (stop_after n stop) = stop_after (n + m) stop"
  by (cases stop) (simp_all add: stop_after_def option.map_comp o_def unat_stop_after)

lemma stop_allows_append:
  "stop_allows stop rs \<Longrightarrow> stop_allows (stop_after (length rs) stop) bs \<Longrightarrow> stop_allows stop (rs @ bs)"
  by (cases stop) (auto simp: stop_allows_def stop_after_def stop_or_default_def read_stop_default_def unat_stop_after
      simp del: of_nat_diff split: option.splits)

lemma contiguous_append:
  assumes xs: "contiguous xs" and ys: "contiguous ys" and ne: "xs \<noteq> []" "ys \<noteq> []" and joint: "unat (hd ys) = unat (last xs) + 1"
  shows "contiguous (xs @ ys)"
  unfolding contiguous_def
proof (intro allI impI)
  fix i assume i: "i < length (xs @ ys)"
  have first: "(xs @ ys) ! 0 = xs ! 0" using ne(1) by (simp add: nth_append)
  show "unat ((xs @ ys) ! i) = unat ((xs @ ys) ! 0) + i"
  proof (cases "i < length xs")
    case True
    then show ?thesis using xs unfolding first by (simp add: contiguous_def nth_append)
  next
    case False
    have "length xs - 1 < length xs" using ne(1) by (cases xs) auto
    then have "unat (last xs) = unat (xs ! 0) + (length xs - 1)"
      using xs ne(1) unfolding contiguous_def last_conv_nth[OF ne(1)] by blast
    moreover have "unat (ys ! (i - length xs)) = unat (ys ! 0) + (i - length xs)"
      using ys i False by (simp add: contiguous_def)
    moreover have "length xs > 0" using ne(1) by simp
    ultimately show ?thesis
      using joint False unfolding first hd_conv_nth[OF ne(2)] by (simp add: nth_append)
  qed
qed

lemma unat_Suc_seq: "(w :: u64) \<noteq> - 1 \<Longrightarrow> unat (w + 1) = unat w + 1"
  using checked_add_1[of w] checked_add_Some[of w 1 "w + 1"] by simp

lemma options_with_start:
  "now = o0\<lparr> ro_start := ro_start now, ro_stop := stop \<rparr> \<Longrightarrow> now\<lparr> ro_start := x \<rparr> = o0\<lparr> ro_start := x, ro_stop := stop \<rparr>"
  for now o0 :: "'i read_options"
  by (cases o0; cases now) simp

lemma reader_inv_round:
  assumes "reader_inv o0 rs s" "read_round s r s'"
  shows "reader_inv o0 (rs @ (case r of Some result \<Rightarrow> delivered_by result | None \<Rightarrow> [])) s'"
proof -
  obtain now finished now' finished' where s: "s = (now, finished)" "s' = (now', finished')"
    by (cases s; cases s')
  consider (batch) b where "r = Some (Ok (Some b))" | (other) "\<And>b. r \<noteq> Some (Ok (Some b))" by blast
  then show ?thesis
  proof cases
    case other
    then have none: "(case r of Some result \<Rightarrow> delivered_by result | None \<Rightarrow> []) = []"
      by (cases r; cases "the r" rule: delivered_by.cases) auto
    consider "now' = now" "finished \<longrightarrow> finished'" | v where "\<not> finished" "\<not> finished'" "now' = now\<lparr> ro_start := Some (SeqNum v) \<rparr>"
        "\<forall>w. ro_start now = Some (SeqNum w) \<longrightarrow> v = w"
      using assms(2) other unfolding s by (cases "((now, finished), r, (now', finished'))" rule: read_round.cases) auto
    then show ?thesis
      unfolding none using assms(1) by cases (auto simp: s reader_inv_def dest: options_with_start)
  next
    case batch
    then have fin: "\<not> finished" and wf: "wf_read_batch b" and start: "start_allows (ro_start now) (hd (batch_records b))"
      and stop: "stop_allows (ro_stop now) (batch_records b)" and adv: "advanced now (batch_records b) now' finished'"
      using assms(2) by (auto simp: s)
    have now: "now = o0\<lparr> ro_start := ro_start now, ro_stop := stop_after (length rs) (ro_stop o0) \<rparr>"
      using assms(1) fin by (simp add: s reader_inv_def)
    then have now_stop: "ro_stop now = stop_after (length rs) (ro_stop o0)"
      by (metis read_options.select_convs(3) read_options.surjective read_options.update_convs(3))
    note b = wf_batch_count[OF wf]
    have "contiguous (map rr_seq_num (rs @ batch_records b))"
    proof (cases "rs = []")
      case False
      then have "rr_seq_num (hd (batch_records b)) = rr_seq_num (last rs) + 1" "rr_seq_num (last rs) \<noteq> - 1"
        using assms(1) start fin by (auto simp: s reader_inv_def start_allows_def)
      then show ?thesis
        using assms(1) b(2,4) False unat_Suc_seq
        by (auto simp: s reader_inv_def hd_map last_map intro!: contiguous_append)
    qed (use b in simp)
    moreover have "stop_allows (ro_stop o0) (rs @ batch_records b)"
      using assms(1) stop now_stop by (auto simp: s reader_inv_def intro: stop_allows_append)
    moreover have "finished' \<or> now' = o0\<lparr> ro_start := ro_start now', ro_stop := stop_after (length rs + length (batch_records b)) (ro_stop o0) \<rparr>"
      using adv now_stop now by (cases o0; cases now) (auto simp: advanced_def stop_after_add split: if_splits)
    moreover have "rr_seq_num (hd (rs @ batch_records b)) = v" if "ro_start o0 = Some (SeqNum v)" for v
      using assms(1) start that by (cases "rs = []") (auto simp: s reader_inv_def start_allows_def)
    moreover have "finished' \<or> (rr_seq_num (last (rs @ batch_records b)) \<noteq> - 1
        \<and> ro_start now' = Some (SeqNum (rr_seq_num (last (rs @ batch_records b)) + 1)))"
      using adv b(2) by (auto simp: advanced_def split: if_splits)
    ultimately show ?thesis
      using b(2) by (simp add: s batch reader_inv_def)
  qed
qed

lemma reader_inv_call:
  "read_call s r s' \<Longrightarrow> reader_inv o0 rs s \<Longrightarrow> reader_inv o0 (rs @ delivered_by r) s'"
proof (induction rule: read_call.induct)
  case (returns s r s')
  then show ?case using reader_inv_round[of o0 rs s "Some r" s'] by simp
next
  case (again s s' r s'')
  then show ?case using reader_inv_round[OF again.prems again.hyps(1)] by simp
qed

lemma read_call_not_Panic: "read_call s r s' \<Longrightarrow> r \<noteq> Panic"
  by (induction rule: read_call.induct) (auto elim: read_round.elims)

lemma read_call_finished: "read_call s r s' \<Longrightarrow> snd s \<Longrightarrow> r = Ok None \<and> s' = s"
proof (induction rule: read_call.induct)
  case (returns s r s')
  then show ?case by (cases "(s, Some r, s')" rule: read_round.cases) auto
qed auto

text \<open>The contract of a resumable reader: every call refines the abstract reader. What follows for any number
  of calls is proved once, for the WebSocket reader here and the event-stream reader.\<close>

locale resumable_reader =
  fixes call :: "'s \<Rightarrow> 'j read_result \<times> 's"
    and request :: "'s \<Rightarrow> 'i read_options \<times> bool"
    and valid :: "'s \<Rightarrow> bool"
  assumes call_refines: "valid s \<Longrightarrow> call s = (r, s') \<Longrightarrow> read_call (request s) r (request s')"
    and call_valid: "valid s \<Longrightarrow> call s = (r, s') \<Longrightarrow> valid s'"
begin

lemma calls_inv:
  "calls call n s = (results, s') \<Longrightarrow> valid s \<Longrightarrow> reader_inv o0 rs (request s) \<Longrightarrow>
    reader_inv o0 (rs @ delivered results) (request s') \<and> Panic \<notin> set results \<and> valid s'"
proof (induction n arbitrary: s results rs)
  case 0
  then show ?case by (simp add: delivered_def)
next
  case (Suc n)
  obtain r s1 where call: "call s = (r, s1)" by (cases "call s")
  obtain more where more: "calls call n s1 = (more, s')" "results = r # more"
    using Suc.prems(1) call by (auto split: prod.splits)
  note one = call_refines[OF Suc.prems(2) call]
  show ?case
    using Suc.IH[OF more(1) call_valid[OF Suc.prems(2) call] reader_inv_call[OF one Suc.prems(3)]] more(2) read_call_not_Panic[OF one]
    by (auto simp: delivered_def)
qed

lemma delivers:
  assumes "calls call n s = (results, s')" "valid s" "reader_inv o0 [] (request s)"
  shows "contiguous (map rr_seq_num (delivered results)) \<and> stop_allows (ro_stop o0) (delivered results)
    \<and> (\<forall>v. ro_start o0 = Some (SeqNum v) \<longrightarrow> delivered results \<noteq> [] \<longrightarrow> rr_seq_num (hd (delivered results)) = v)
    \<and> Panic \<notin> set results"
  using calls_inv[OF assms] by (auto simp: reader_inv_def split: prod.splits)

end

definition socket_request :: "('i, 'j) read_client \<times> network \<times> 'i read_session \<Rightarrow> 'i read_options \<times> bool" where
  "socket_request s = request_state (snd (snd s))"

definition socket_valid :: "('i, 'j) read_client \<times> network \<times> 'i read_session \<Rightarrow> bool" where
  "socket_valid s \<longleftrightarrow> 0 < cc_bounded_operation_attempts (rc_config (fst s))"

interpretation socket_reader: resumable_reader socket_call socket_request socket_valid
  by unfold_locales (auto simp: socket_call_def socket_request_def socket_valid_def split: prod.splits dest: next_batch_call)

lemma next_batches_route:
  "next_batches n client net session = (results, net', session') \<Longrightarrow> 0 < cc_bounded_operation_attempts (rc_config client)
    \<Longrightarrow> rs_route session' = rs_route session"
proof (induction n arbitrary: net session results)
  case (Suc n)
  obtain r net1 session1 where call: "next_batch client net session = (r, net1, session1)"
    by (cases "next_batch client net session")
  then obtain more where "next_batches n client net1 session1 = (more, net', session')"
    using Suc.prems(1) by (auto split: prod.splits)
  then show ?case
    using Suc.IH[of net1 session1 more] next_batch_call[OF call] Suc.prems(2) by simp
qed simp

lemma next_batches_inv:
  fixes client :: "('i, 'j) read_client"
  assumes "0 < cc_bounded_operation_attempts (rc_config client)"
    and "next_batches n client net session = (results, net', session')" "reader_inv o0 rs (request_state session)"
  shows "reader_inv o0 (rs @ delivered results) (request_state session') \<and> Panic \<notin> set results"
  using socket_reader.calls_inv[OF assms(2)[THEN next_batches_calls]] assms
  by (simp add: socket_request_def socket_valid_def)

lemma reader_inv_new: "reader_inv options [] (request_state (read_session_new client options route socket metadata))"
  by (simp add: reader_inv_def request_state_def read_session_new_def stop_allows_def split: option.splits)

text \<open>A reader that has just been connected.\<close>

definition fresh_reader :: "('i, 'j) read_client \<Rightarrow> 'i read_options \<Rightarrow> data_plane_route \<Rightarrow> network \<Rightarrow> 'i read_session \<Rightarrow> bool" where
  "fresh_reader client options route net session \<longleftrightarrow> (\<exists>net0. connect_reader client options route net0 = (Ok session, net))"

lemma fresh_reader_inv:
  assumes "fresh_reader client options route net session"
  shows "reader_inv options [] (request_state session)" "rs_route session = route" "reconnects_ok client session"
proof -
  obtain socket metadata where "session = read_session_new client options route socket metadata"
  proof -
    obtain net0 where net0: "connect_reader client options route net0 = (Ok session, net)"
      using assms by (auto simp: fresh_reader_def)
    obtain c net1 where "connect_read_socket client options route net0 = (c, net1)"
      by (cases "connect_read_socket client options route net0")
    with net0 show thesis
      by (cases c) (auto simp: connect_reader_def intro: that)
  qed
  then show "reader_inv options [] (request_state session)" "rs_route session = route" "reconnects_ok client session"
    using reader_inv_new by (simp_all add: reconnects_ok_def read_session_new_def bounded_reconnects_new_def)
qed

text \<open>C3: However many calls are made, whatever the server sends and however often the connection breaks, the
  records a reader has delivered carry consecutive sequence numbers without a gap or a repetition, from the
  requested sequence number when one was requested; they are never more than the requested count and all before
  the exclusive \<open>until\<close> timestamp. No call panics.\<close>

theorem reader_delivers_contiguously:
  fixes client :: "('i, 'j) read_client"
  assumes "fresh_reader client options route net session" "0 < cc_bounded_operation_attempts (rc_config client)"
    and "next_batches n client net session = (results, net', session')"
  shows "contiguous (map rr_seq_num (delivered results)) \<and> stop_allows (ro_stop options) (delivered results)
    \<and> (\<forall>v. ro_start options = Some (SeqNum v) \<longrightarrow> delivered results \<noteq> [] \<longrightarrow> rr_seq_num (hd (delivered results)) = v)
    \<and> Panic \<notin> set results"
  using socket_reader.delivers[OF assms(3)[THEN next_batches_calls], of options] fresh_reader_inv(1)[OF assms(1)] assms(2)
  by (simp add: socket_request_def socket_valid_def)

text \<open>The requests of one call.\<close>

lemma next_batch_asked:
  fixes client :: "('i, 'j) read_client"
  shows "next_batch client net session = (r, net', session') \<Longrightarrow> 0 < cc_bounded_operation_attempts (rc_config client) \<Longrightarrow>
    ro_start (rs_options session) = Some (SeqNum v) \<Longrightarrow> asked client (rs_options session) (rs_route session) net net'"
proof (induction client net session rule: next_batch.induct)
  case (1 client net session)
  obtain x net1 session1 where step: "session_step client net session = (x, net1, session1)"
    by (cases "session_step client net session")
  note round = session_step_spec[OF step "1.prems"(2)]
  show ?case
  proof (cases x)
    case None
    then have same: "rs_options session1 = rs_options session"
      using round "1.prems"(3) by (cases "rs_options session") (auto simp: request_state_def)
    have "next_batch client net1 session1 = (r, net', session')"
      using "1.prems"(1) step None by (subst (asm) next_batch.simps) simp
    then have "asked client (rs_options session) (rs_route session) net1 net'"
      using "1.IH"[OF step[symmetric] None refl] "1.prems"(2,3) same round by auto
    then show ?thesis using round asked_trans by blast
  next
    case (Some result)
    then show ?thesis
      using "1.prems"(1) round step by (subst (asm) next_batch.simps) auto
  qed
qed

lemma next_batch_finished:
  "rs_finished session \<Longrightarrow> next_batch client net session = (r, net', session') \<Longrightarrow> net' = net"
  by (subst (asm) next_batch.simps) (simp add: session_step_def)

text \<open>C11: A reader resumes exactly where it stopped: after records have been delivered, every connection attempt
  of the next call sends the same request, for the sequence number after the last delivered record, with the rest
  of the count and otherwise the original options.\<close>

theorem reconnect_resumes_after_last:
  fixes client :: "('i, 'j) read_client"
  assumes "fresh_reader client options route net session" "0 < cc_bounded_operation_attempts (rc_config client)"
    and "next_batches n client net session = (results, net1, session1)" "delivered results \<noteq> []"
    and "next_batch client net1 session1 = (r, net2, session2)"
  shows "asked client (options\<lparr> ro_start := Some (SeqNum (rr_seq_num (last (delivered results)) + 1)),
      ro_stop := stop_after (length (delivered results)) (ro_stop options) \<rparr>) route net1 net2"
proof -
  have inv: "reader_inv options (delivered results) (request_state session1)" and route: "rs_route session1 = route"
    using next_batches_inv[OF assms(2,3) fresh_reader_inv(1)[OF assms(1)]] next_batches_route[OF assms(3,2)]
      fresh_reader_inv(2)[OF assms(1)] by simp_all
  show ?thesis
  proof (cases "rs_finished session1")
    case True
    then show ?thesis using next_batch_finished[OF _ assms(5)] by simp
  next
    case False
    then have start: "ro_start (rs_options session1) = Some (SeqNum (rr_seq_num (last (delivered results)) + 1))"
      and rest: "rs_options session1 = options\<lparr> ro_start := ro_start (rs_options session1),
          ro_stop := stop_after (length (delivered results)) (ro_stop options) \<rparr>"
      using inv assms(4) by (auto simp: reader_inv_def request_state_def)
    show ?thesis
      using next_batch_asked[OF assms(5,2) start] rest unfolding start route by simp
  qed
qed

text \<open>The counter of bounded reconnects.\<close>

definition no_limit :: "'j read_result option \<Rightarrow> bool" where
  "no_limit r \<longleftrightarrow> (\<forall>e. r = Some (Err e) \<longrightarrow> \<not> is_limit_error e)"

lemma handle_outcome_reconnects:
  fixes client :: "('i, 'j) read_client"
  assumes run: "handle_outcome client net session outcome = (r, net', session')"
    and ok: "reconnects_ok client session" "rs_reconnect_delay session = None" and two: "2 \<le> cc_bounded_operation_attempts (rc_config client)"
    and error: "\<And>e. outcome = Inl e \<Longrightarrow> \<not> is_limit_error e"
  shows "reconnects_ok client session' \<and> no_limit r"
proof (cases outcome)
  case (Inl error)
  show ?thesis
  proof (cases "is_resumable_read_interruption error")
    case False
    then show ?thesis using run Inl ok assms(5) by (auto simp: handle_outcome_def no_limit_def)
  next
    case True
    obtain session1 where require: "require_reconnect client session = (Inr (), session1)"
        "reconnects_ok client session1" "rs_reconnect_delay session1 \<noteq> None"
      using ok two by (auto simp: require_reconnect_def next_delay_def reconnects_ok_def)
    obtain c net2 session2 where again: "reconnect client net session1 = (c, net2, session2)"
      by (cases "reconnect client net session1")
    note spec = reconnect_spec[OF again require(3)]
    have "(case c of Ok _ \<Rightarrow> (None, net2, session2) | Err e \<Rightarrow> (Some (Err e), net2, session2)
        | Panic \<Rightarrow> (Some Panic, net2, session2)) = (r, net', session')"
      using run Inl True require again by (auto simp: handle_outcome_def split: outcome.splits)
    then show ?thesis
      using spec require two by (auto simp: no_limit_def split: outcome.splits)
  qed
next
  case (Inr result)
  show ?thesis
  proof (cases result)
    case (OutcomeRecords b)
    have violation: "validate_read_batch_for_request b (rs_options session) = Err e \<Longrightarrow> \<not> is_limit_error e" for e :: "(url, 'j) client_error"
      by (auto simp: validate_read_batch_for_request_def split: outcome.splits option.splits)
    show ?thesis
      using run Inr OutcomeRecords ok violation
      by (auto simp: handle_outcome_def no_limit_def batch_delivered_def reconnects_ok_def reconnects_reset_def Let_def
          split: outcome.splits)
  qed (use run Inr ok in \<open>auto simp: handle_outcome_def no_limit_def reconnects_ok_def validate_caught_up_for_request_def
      split: if_splits\<close>)
qed

lemma session_step_reconnects:
  fixes client :: "('i, 'j) read_client"
  assumes run: "session_step client net session = (r, net', session')"
    and ok: "reconnects_ok client session" and two: "2 \<le> cc_bounded_operation_attempts (rc_config client)"
  shows "reconnects_ok client session' \<and> no_limit r"
proof (cases "rs_finished session \<or> read_options_exhausted (rs_options session)")
  case True
  then show ?thesis using run ok by (auto simp: session_step_def no_limit_def reconnects_ok_def)
next
  case False
  obtain c net1 session1 where first:
    "(if rs_reconnect_delay session \<noteq> None then reconnect client net session else (Ok (), net, session)) = (c, net1, session1)"
    by (metis prod_cases3)
  obtain outcome socket where wait:
    "next_outcome (rc_from_json client) (rs_socket session1) = (outcome :: (url, 'j) client_error + read_socket_outcome, socket)"
    by (cases "next_outcome (rc_from_json client) (rs_socket session1) :: ((url, 'j) client_error + read_socket_outcome) \<times> read_socket")
  have step: "(case c of Ok _ \<Rightarrow> handle_outcome client net1 (session1\<lparr> rs_socket := socket \<rparr>) outcome
      | Err e \<Rightarrow> (Some (Err e), net1, session1) | Panic \<Rightarrow> (Some Panic, net1, session1)) = (r, net', session')"
    using run False unfolding session_step_def first by (simp add: wait split: outcome.splits)
  have one: "c \<noteq> Panic" "\<forall>e. c = Err e \<longrightarrow> \<not> is_limit_error e \<and> session1 = session"
      "c = Ok () \<longrightarrow> rs_reconnect_delay session1 = None \<and> reconnects_ok client session1"
    using first reconnect_spec[of client net session c net1 session1] ok two by (auto split: if_splits)
  show ?thesis
  proof (cases c)
    case (Ok u)
    then have "handle_outcome client net1 (session1\<lparr> rs_socket := socket \<rparr>) outcome = (r, net', session')"
      using step by simp
    from handle_outcome_reconnects[OF this _ _ two] show ?thesis
      using one Ok wait next_outcome_error[of "rc_from_json client" "rs_socket session1"]
      by (auto simp: reconnects_ok_def)
  qed (use step one ok in \<open>auto simp: no_limit_def\<close>)
qed

lemma next_batch_reconnects:
  fixes client :: "('i, 'j) read_client"
  shows "next_batch client net session = (r, net', session') \<Longrightarrow> reconnects_ok client session \<Longrightarrow>
    2 \<le> cc_bounded_operation_attempts (rc_config client) \<Longrightarrow> reconnects_ok client session' \<and> no_limit (Some r)"
proof (induction client net session rule: next_batch.induct)
  case (1 client net session)
  obtain x net1 session1 where step: "session_step client net session = (x, net1, session1)"
    by (cases "session_step client net session")
  note round = session_step_reconnects[OF step "1.prems"(2,3)]
  show ?case
  proof (cases x)
    case None
    have "next_batch client net1 session1 = (r, net', session')"
      using "1.prems"(1) step None by (subst (asm) next_batch.simps) simp
    then show ?thesis
      using "1.IH"[OF step[symmetric] None refl] "1.prems"(3) round by auto
  next
    case (Some result)
    then show ?thesis
      using "1.prems"(1) round step by (subst (asm) next_batch.simps) auto
  qed
qed

text \<open>When at least two connection attempts are configured, no call of a reader ever fails with
  \<open>ReadReconnectLimitExceeded\<close>, whatever the server does: every successful handshake resets the counter, also
  on connections that deliver nothing.\<close>

theorem reconnect_limit_unreachable:
  fixes client :: "('i, 'j) read_client"
  assumes "fresh_reader client options route net session" "2 \<le> cc_bounded_operation_attempts (rc_config client)"
    and "next_batches n client net session = (results, net', session')"
  shows "Err (ReadReconnectLimitExceeded k) \<notin> set results"
proof -
  have "next_batches n client net session = (results, net', session') \<Longrightarrow> reconnects_ok client session \<Longrightarrow>
      Err (ReadReconnectLimitExceeded k) \<notin> set results" for n net session results
  proof (induction n arbitrary: net session results)
    case (Suc n)
    obtain r net1 session1 where call: "next_batch client net session = (r, net1, session1)"
      by (cases "next_batch client net session")
    show ?case
      using Suc next_batch_reconnects[OF call Suc.prems(2) assms(2)] call
      by (auto simp: no_limit_def split: prod.splits)
  qed simp
  then show ?thesis
    using assms(3) fresh_reader_inv(3)[OF assms(1)] by blast
qed

section \<open>A run\<close>

text \<open>A reader asks for two records from number 7. The first connection delivers one and falls silent; the
  second delivers the other.\<close>

definition sample_record :: "u64 \<Rightarrow> read_record" where
  "sample_record n = \<lparr> rr_seq_num = n, rr_timestamp_ms = 5, rr_writer_id = WriterId (replicate 16 0), rr_writer_seq_num = n,
     rr_part = unsplit, rr_data = [1] \<rparr>"

definition sample_metadata :: "unit stream_metadata" where
  "sample_metadata = \<lparr> sm_stream_id = (), sm_kind = Bytes, sm_title = None, sm_visibility = Public,
     sm_created_at = [], sm_expires_at = [] \<rparr>"

definition sample_client :: "(unit, unit) read_client" where
  "sample_client = \<lparr> rc_config = sample_config, rc_from_json = (\<lambda>_. Inr sample_metadata), rc_show_id = (\<lambda>_. lit ''s''),
     rc_show_rate = (\<lambda>_. lit ''1''), rc_jitter = id \<rparr>"

definition sample_options :: "unit read_options" where
  "sample_options = (read_options_new ())\<lparr> ro_start := Some (SeqNum 7),
     ro_stop := Some (read_stop_default\<lparr> stop_count := Some 2 \<rparr>) \<rparr>"

definition sample_script :: "u64 \<Rightarrow> connect_script" where
  "sample_script n = Accepted (Some (Some TSF_WEBSOCKET_PROTOCOL)) Sent False
     [[Inr (WsBinary [0x80, 1]), Inr (WsBinary [0x85]), Inr WsPing, Inr (WsBinary (read_batch_bytes [sample_record n]))], []]"

definition sample_socket :: "u64 \<Rightarrow> read_socket" where
  "sample_socket n = [[Inr WsPing, Inr (WsBinary (read_batch_bytes [sample_record n]))], []]"

definition sample_network :: network where
  "sample_network = \<lparr> nw_attempts = [sample_script 7, ConnectElapsed, sample_script 8], nw_requests = [] \<rparr>"

lemma sample_batch:
  obtains b where "decode_server_frame (rc_from_json sample_client) (read_batch_bytes [sample_record n])
      = (Inr (ServerReadBatch b) :: unit frame_codec_error + unit server_frame)"
    "batch_records b = [sample_record n]" "wf_read_batch b"
proof -
  have "bounded_records [sample_record n]" "\<forall>r \<in> set [sample_record n]. valid_writer_id (rr_writer_id r)"
    by (simp_all add: bounded_records_def sample_record_def const_defs contiguous_Cons valid_writer_id_def WRITER_ID_BYTE_LEN_def)
  from decode_read_batch_bytes[OF this, of "server_op_byte OpReadBatch"] obtain b where
    "decode_read_batch (server_op_byte OpReadBatch) (read_batch_bytes [sample_record n])
      = (Inr (ServerReadBatch b) :: unit frame_codec_error + unit server_frame)"
    "batch_records b = [sample_record n]" "typed_server_frame (ServerReadBatch b :: unit server_frame)" by blast
  then show ?thesis
    by (intro that[of b]) (auto simp: decode_server_frame_def read_batch_bytes_def server_op_try_from_def typed_server_frame_def)
qed

lemma sample_open:
  "open_read_socket sample_client (sample_options\<lparr> ro_start := start, ro_stop := stop \<rparr>) (sample_script n)
    = (Inr (sample_socket n, sample_metadata) :: (url, unit) client_error + _)"
  by (simp add: open_read_socket_def sample_script_def connect_websocket_def with_timeout_def sample_socket_def
      expect_read_handshake_def expect_ready_def expect_frame_def decode_server_frame_def server_op_try_from_def
      fd_byte_def fd_finish_def stream_kind_from_byte_def sample_client_def sample_metadata_def
      validate_read_stream_metadata_def sample_options_def read_options_new_def fd_take_def)

definition sample_request :: "unit read_options \<Rightarrow> url \<times> bytes" where
  "sample_request options = (append_read_query (rc_show_rate sample_client)
       ((rest_url sample_config (lit ''/streams/s/read''))\<lparr> url_scheme := lit ''wss'' \<rparr>) options, [client_op_byte OpOpenRead, 0])"

lemma sample_read_request:
  assumes "options = sample_options\<lparr> ro_start := Some (SeqNum v), ro_stop := Some (read_stop_default\<lparr> stop_count := c \<rparr>) \<rparr>" "v < 100"
  shows "read_request sample_client options RouteRecords = (Inr (sample_request options) :: (url, unit) client_error + _)"
proof -
  have "v \<le> 9007199254740991"
    using assms(2) by (simp add: word_less_nat_alt word_le_nat_alt)
  then show ?thesis
    by (simp add: read_request_def assms(1) validate_read_options_def sample_options_def read_options_new_def read_selector_def
        read_stop_default_def stop_or_default_def const_defs client_encode_def client_encoded_len_def client_encode_into_def
        list_buf_def websocket_url_def rest_url_def sample_client_def sample_config_def sample_request_def not_less
        route_path_def lit_def of_char_def)
qed

text \<open>A connection that succeeds at once, and one whose first attempt times out.\<close>

lemma sample_connect:
  assumes "read_request sample_client options RouteRecords = (Inr request :: (url, unit) client_error + _)"
    and "open_read_socket sample_client options (sample_script n) = (Inr v :: (url, unit) client_error + _)"
  shows "connect_read_socket sample_client options RouteRecords \<lparr> nw_attempts = sample_script n # rest, nw_requests = before \<rparr>
      = (Ok v, \<lparr> nw_attempts = rest, nw_requests = before @ [request] \<rparr>)"
    "connect_read_socket sample_client options RouteRecords
        \<lparr> nw_attempts = ConnectElapsed # sample_script n # rest, nw_requests = before \<rparr>
      = (Ok v, \<lparr> nw_attempts = rest, nw_requests = before @ [request, request] \<rparr>)"
proof -
  have upt: "[Suc 0..<3] = [Suc 0, 2]"
    by (simp add: upt_rec)
  have "cc_bounded_operation_attempts (rc_config sample_client) = 3"
    by (simp add: sample_client_def)
  moreover have "open_read_socket sample_client options ConnectElapsed = (Inl (Timeout ''connect websocket'') :: (url, unit) client_error + _)"
    by (simp add: open_read_socket_def connect_websocket_def)
  ultimately show "connect_read_socket sample_client options RouteRecords \<lparr> nw_attempts = sample_script n # rest, nw_requests = before \<rparr>
      = (Ok v, \<lparr> nw_attempts = rest, nw_requests = before @ [request] \<rparr>)"
    "connect_read_socket sample_client options RouteRecords
        \<lparr> nw_attempts = ConnectElapsed # sample_script n # rest, nw_requests = before \<rparr>
      = (Ok v, \<lparr> nw_attempts = rest, nw_requests = before @ [request, request] \<rparr>)"
    using assms unfolding connect_read_socket_def retry_transient_def retry_when_def
    by (simp_all add: upt next_attempt_def Let_def is_retryable_def)
qed

definition sample_session :: "unit read_session" where
  "sample_session = read_session_new sample_client sample_options RouteRecords (sample_socket 7) sample_metadata"

definition sample_connected :: network where
  "sample_connected = \<lparr> nw_attempts = [ConnectElapsed, sample_script 8], nw_requests = [sample_request sample_options] \<rparr>"

lemma sample_fresh: "fresh_reader sample_client sample_options RouteRecords sample_connected sample_session"
proof -
  have "read_request sample_client sample_options RouteRecords = (Inr (sample_request sample_options) :: (url, unit) client_error + _)"
    by (rule sample_read_request[where v = 7 and c = "Some 2"]) (simp_all add: sample_options_def)
  moreover have "open_read_socket sample_client sample_options (sample_script 7) = (Inr (sample_socket 7, sample_metadata) :: (url, unit) client_error + _)"
    using sample_open[where start = "ro_start sample_options" and stop = "ro_stop sample_options" and n = 7] by simp
  ultimately have "connect_reader sample_client sample_options RouteRecords sample_network = (Ok sample_session, sample_connected)"
    using sample_connect(1) by (simp add: connect_reader_def sample_network_def sample_session_def sample_connected_def)
  then show ?thesis
    unfolding fresh_reader_def by blast
qed

text \<open>The rounds of the run.\<close>

lemma sample_outcome:
  assumes "decode_server_frame (rc_from_json sample_client) (read_batch_bytes [sample_record n])
      = (Inr (ServerReadBatch b) :: unit frame_codec_error + unit server_frame)"
  shows "next_outcome (rc_from_json sample_client) (sample_socket n) = (Inr (OutcomeRecords b) :: (url, unit) client_error + _, [[], []])"
    "next_outcome (rc_from_json sample_client) [[], []] = (Inl (Timeout ''read stream record'') :: (url, unit) client_error + _, [[]])"
  using assms by (simp_all add: next_outcome.simps sample_socket_def next_read_socket_frame_def with_timeout_def)

definition sample_after_7 :: "unit read_session" where
  "sample_after_7 = sample_session\<lparr> rs_options := sample_options\<lparr> ro_start := Some (SeqNum 8),
       ro_stop := Some (read_stop_default\<lparr> stop_count := Some 1 \<rparr>) \<rparr>, rs_socket := [[], []] \<rparr>"

definition sample_after_8 :: "unit read_session" where
  "sample_after_8 = sample_after_7\<lparr> rs_options := sample_options\<lparr> ro_start := Some (SeqNum 9),
       ro_stop := Some (read_stop_default\<lparr> stop_count := Some 0 \<rparr>) \<rparr>, rs_finished := True \<rparr>"

lemmas sample_fields = sample_session_def read_session_new_def sample_options_def read_options_new_def read_stop_default_def
  stop_or_default_def bounded_reconnects_new_def

lemma sample_handle:
  fixes client :: "('i, 'j) read_client"
  assumes b: "wf_read_batch b" "batch_records b = [sample_record n]"
    and options: "ro_start options = Some (SeqNum n)" "ro_stop options = Some (read_stop_default\<lparr> stop_count := Some c \<rparr>)" "1 \<le> c" "n \<noteq> - 1"
    and session: "rs_options session = options" "reconnects_reset (rs_reconnects session) = rs_reconnects session" "rs_reconnect_delay session = None"
  shows "handle_outcome client net session (Inr (OutcomeRecords b)) = (Some (Ok (Some b)), net, session\<lparr>
     rs_options := options\<lparr> ro_start := Some (SeqNum (n + 1)), ro_stop := Some (read_stop_default\<lparr> stop_count := Some (c - 1) \<rparr>) \<rparr>,
     rs_finished := (c - 1 = 0) \<rparr>)"
proof -
  have count: "record_count b = 1"
    using b(2) batch_records_simps(1)[of b] by simp
  have seq: "rr_seq_num (sample_record n) = n"
    by (simp add: sample_record_def)
  have "1 \<le> unat c"
    using options(3) by (simp add: word_le_nat_alt)
  then have "start_allows (ro_start options) (hd (batch_records b)) \<and> stop_allows (ro_stop options) (batch_records b)"
    using options by (simp add: b(2) start_allows_def stop_allows_def stop_or_default_def read_stop_default_def seq)
  then have "validate_read_batch_for_request b options = (Ok () :: ((url, 'j) client_error, unit) outcome)"
    by (simp only: validate_batch_iff[OF b(1)])
  moreover have "advance_read_options_for_batch options b = Ok (c - 1 = 0,
      options\<lparr> ro_start := Some (SeqNum (n + 1)), ro_stop := Some (read_stop_default\<lparr> stop_count := Some (c - 1) \<rparr>) \<rparr>)"
    using options by (simp add: advance_read_options_for_batch_def wf_batch_Ok[OF b(1)] b(2) seq checked_add_1 count Let_def)
  ultimately show ?thesis
    using session by (cases session) (simp add: handle_outcome_def batch_delivered_def)
qed

lemma sample_batches:
  assumes b7: "decode_server_frame (rc_from_json sample_client) (read_batch_bytes [sample_record 7])
      = (Inr (ServerReadBatch b7) :: unit frame_codec_error + unit server_frame)" "batch_records b7 = [sample_record 7]" "wf_read_batch b7"
    and b8: "decode_server_frame (rc_from_json sample_client) (read_batch_bytes [sample_record 8])
      = (Inr (ServerReadBatch b8) :: unit frame_codec_error + unit server_frame)" "batch_records b8 = [sample_record 8]" "wf_read_batch b8"
  shows "next_batch sample_client sample_connected sample_session = (Ok (Some b7), sample_connected, sample_after_7)" (is ?first)
    "next_batch sample_client sample_connected sample_after_7 = (Ok (Some b8), sample_connected\<lparr> nw_attempts := [],
        nw_requests := nw_requests sample_connected @ replicate 2 (sample_request (rs_options sample_after_7)) \<rparr>, sample_after_8)" (is ?second)
    "next_batch sample_client net sample_after_8 = (Ok None, net, sample_after_8)" (is ?third)
proof -
  show ?first
    using sample_handle[OF b7(3,2), of sample_options 2 "sample_session\<lparr> rs_socket := [[], []] \<rparr>" sample_client sample_connected]
    by (subst next_batch.simps)
      (simp add: session_step_def read_options_exhausted_def sample_fields sample_outcome(1)[OF b7(1), unfolded sample_fields]
        reconnects_reset_def sample_after_7_def)
  have sent: "read_request sample_client (rs_options sample_after_7) RouteRecords
      = (Inr (sample_request (rs_options sample_after_7)) :: (url, unit) client_error + _)"
    by (rule sample_read_request[where v = 8 and c = "Some 1"]) (simp_all add: sample_after_7_def)
  have opened: "open_read_socket sample_client (rs_options sample_after_7) (sample_script 8)
      = (Inr (sample_socket 8, sample_metadata) :: (url, unit) client_error + _)"
    using sample_open[where start = "Some (SeqNum 8)" and stop = "Some (read_stop_default\<lparr> stop_count := Some 1 \<rparr>)" and n = 8]
    by (simp add: sample_after_7_def)
  let ?net = "\<lparr> nw_attempts = [], nw_requests = nw_requests sample_connected @ replicate 2 (sample_request (rs_options sample_after_7)) \<rparr>"
  let ?resumed = "sample_after_7\<lparr> rs_socket := sample_socket 8 \<rparr>"
  have attempts: "cc_bounded_operation_attempts (rc_config sample_client) = 3"
    by (simp add: sample_client_def)
  have connect: "connect_read_socket sample_client (rs_options sample_after_7) RouteRecords sample_connected
      = (Ok (sample_socket 8, sample_metadata), ?net)"
    using sample_connect(2)[OF sent opened, of "[]" "[sample_request sample_options]"] by (simp add: sample_connected_def numeral_2_eq_2)
  have same: "rs_options sample_after_7 = sample_options\<lparr> ro_start := Some (SeqNum 8), ro_stop := Some (read_stop_default\<lparr> stop_count := Some 1 \<rparr>) \<rparr>"
      "rs_route sample_after_7 = RouteRecords" "rs_socket sample_after_7 = [[], []]" "rs_stream_metadata sample_after_7 = sample_metadata"
      "rs_finished sample_after_7 = False" "rs_last_caught_up sample_after_7 = None" "rs_reconnect_delay sample_after_7 = None"
      "rs_reconnects sample_after_7 = \<lparr> bc_retries = 0, bc_max_connection_attempts = 3 \<rparr>"
    by (simp_all add: sample_after_7_def sample_session_def read_session_new_def bounded_reconnects_new_def attempts)
  have "\<not> read_options_exhausted (rs_options sample_after_7)"
    by (simp add: read_options_exhausted_def same stop_or_default_def read_stop_default_def)
  then have again: "session_step sample_client sample_connected sample_after_7 = (None, ?net, ?resumed)"
    using connect same sample_outcome(2)[OF b8(1)]
    by (cases sample_after_7)
      (simp add: session_step_def handle_outcome_def require_reconnect_def next_delay_def reconnect_def
        validate_read_stream_metadata_def reconnects_reset_def sample_options_def read_options_new_def)
  have "next_batch sample_client ?net ?resumed = (Ok (Some b8), ?net, sample_after_8)"
    using sample_handle[OF b8(3,2), of "rs_options sample_after_7" 1 "?resumed\<lparr> rs_socket := [[], []] \<rparr>" sample_client ?net]
      sample_outcome(1)[OF b8(1)] \<open>\<not> read_options_exhausted (rs_options sample_after_7)\<close> same
    by (subst next_batch.simps) (simp add: session_step_def reconnects_reset_def sample_after_8_def)
  then show ?second
    using again by (subst next_batch.simps) (simp add: sample_connected_def)
  show ?third
    by (subst next_batch.simps) (simp add: session_step_def sample_after_8_def)
qed

lemma sample_run:
  obtains b7 b8 net where "next_batches 3 sample_client sample_connected sample_session = ([Ok (Some b7), Ok (Some b8), Ok None], net, sample_after_8)"
    "next_batches 1 sample_client sample_connected sample_session = ([Ok (Some b7)], sample_connected, sample_after_7)"
    "next_batch sample_client sample_connected sample_after_7 = (Ok (Some b8), net, sample_after_8)"
    "nw_requests net = nw_requests sample_connected @ replicate 2 (sample_request (rs_options sample_after_7))"
    "batch_records b7 = [sample_record 7]" "batch_records b8 = [sample_record 8]"
proof -
  obtain b7 where b7: "decode_server_frame (rc_from_json sample_client) (read_batch_bytes [sample_record 7])
      = (Inr (ServerReadBatch b7) :: unit frame_codec_error + unit server_frame)" "batch_records b7 = [sample_record 7]" "wf_read_batch b7"
    by (rule sample_batch)
  obtain b8 where b8: "decode_server_frame (rc_from_json sample_client) (read_batch_bytes [sample_record 8])
      = (Inr (ServerReadBatch b8) :: unit frame_codec_error + unit server_frame)" "batch_records b8 = [sample_record 8]" "wf_read_batch b8"
    by (rule sample_batch)
  note calls = sample_batches[OF b7 b8]
  show ?thesis
    by (rule that[of b7 b8 "sample_connected\<lparr> nw_attempts := [],
          nw_requests := nw_requests sample_connected @ replicate 2 (sample_request (rs_options sample_after_7)) \<rparr>"])
      (simp_all add: calls b7 b8 eval_nat_numeral)
qed

lemma sample_attempts: "0 < cc_bounded_operation_attempts (rc_config sample_client)" "2 \<le> cc_bounded_operation_attempts (rc_config sample_client)"
  by (simp_all add: sample_client_def)

text \<open>The two records arrive in order over two connections, and the reader stops at the count.\<close>

lemma reader_delivers_contiguously_witness:
  "\<exists>results net session. next_batches 3 sample_client sample_connected sample_session = (results, net, session)
     \<and> delivered results = [sample_record 7, sample_record 8] \<and> last results = Ok None
     \<and> contiguous (map rr_seq_num (delivered results)) \<and> stop_allows (ro_stop sample_options) (delivered results)"
proof -
  obtain b7 b8 net where run: "next_batches 3 sample_client sample_connected sample_session = ([Ok (Some b7), Ok (Some b8), Ok None], net, sample_after_8)"
    and b: "batch_records b7 = [sample_record 7]" "batch_records b8 = [sample_record 8]"
    by (rule sample_run)
  show ?thesis
    using reader_delivers_contiguously[OF sample_fresh sample_attempts(1) run] run b by (auto simp: delivered_def)
qed

text \<open>After the first record the reader asks twice, once per attempt, for number 8 and one record.\<close>

lemma reconnect_resumes_after_last_witness:
  "\<exists>results net1 session1 r net2 session2. next_batches 1 sample_client sample_connected sample_session = (results, net1, session1)
     \<and> next_batch sample_client net1 session1 = (r, net2, session2)
     \<and> nw_requests net2 = nw_requests net1 @ replicate 2 (sample_request (rs_options sample_after_7))
     \<and> asked sample_client (sample_options\<lparr> ro_start := Some (SeqNum (rr_seq_num (last (delivered results)) + 1)),
         ro_stop := stop_after (length (delivered results)) (ro_stop sample_options) \<rparr>) RouteRecords net1 net2"
proof -
  obtain b7 b8 net where run: "next_batches 1 sample_client sample_connected sample_session = ([Ok (Some b7)], sample_connected, sample_after_7)"
    and call: "next_batch sample_client sample_connected sample_after_7 = (Ok (Some b8), net, sample_after_8)"
    and log: "nw_requests net = nw_requests sample_connected @ replicate 2 (sample_request (rs_options sample_after_7))"
    and b: "batch_records b7 = [sample_record 7]"
    by (rule sample_run)
  have "delivered [Ok (Some b7) :: unit read_result] \<noteq> []"
    by (simp add: delivered_def b)
  from reconnect_resumes_after_last[OF sample_fresh sample_attempts(1) run this call] show ?thesis
    using run call log by blast
qed

lemma reconnect_limit_unreachable_witness:
  "\<exists>results net session. next_batches 3 sample_client sample_connected sample_session = (results, net, session)
     \<and> length results = 3 \<and> Err (ReadReconnectLimitExceeded 3) \<notin> set results"
proof -
  obtain b7 b8 net where run: "next_batches 3 sample_client sample_connected sample_session = ([Ok (Some b7), Ok (Some b8), Ok None], net, sample_after_8)"
    by (rule sample_run)
  show ?thesis
    using reconnect_limit_unreachable[OF sample_fresh sample_attempts(2) run, of 3] run by auto
qed

end
