(* ===== verification/SseParser.thy ===== *)
theory SseParser
  imports Rest ClientErrors
begin

text \<open>
  The incremental parser of the server-sent event stream (\<open>SseParser\<close> and \<open>next_sse_event\<close> of
  \<open>rust/src/client.rs\<close>), and the reference it is compared with: cutting the whole stream at its
  terminators. A body is the list of its chunks, each bytes or a transport error.
\<close>

section \<open>Code\<close>

definition memchr :: "u8 \<Rightarrow> bytes \<Rightarrow> nat option" where
  "memchr b bs = (let n = length (takeWhile (\<lambda>x. x \<noteq> b) bs) in if n < length bs then Some n else None)"

definition boundary_here :: "bytes \<Rightarrow> nat \<Rightarrow> (nat \<times> nat) option" where
  "boundary_here buffer here =
     (if here \<ge> 3 \<and> slice buffer (here - 3) (here + 1) = [13, 10, 13, 10] then Some (here - 3, 4)
      else if here \<ge> 1 \<and> buffer ! (here - 1) = 10 then Some (here - 1, 2)
      else None)"

function sse_boundary_loop :: "bytes \<Rightarrow> nat \<Rightarrow> (nat \<times> nat) option" where
  "sse_boundary_loop buffer start = (case memchr 10 (drop start buffer) of
       None \<Rightarrow> None
     | Some index \<Rightarrow> (case boundary_here buffer (start + index) of
           Some found \<Rightarrow> Some found
         | None \<Rightarrow> sse_boundary_loop buffer (start + index + 1)))"
  by pat_completeness auto
termination
  by (relation "measure (\<lambda>(buffer, start). length buffer - start)") (auto simp: memchr_def Let_def split: if_splits)

declare sse_boundary_loop.simps [simp del]

definition sse_boundary :: "bytes \<Rightarrow> (nat \<times> nat) option" where
  "sse_boundary buffer = sse_boundary_loop buffer 0"

record sse_event =
  ev_event :: rstr
  ev_data :: rstr
  ev_id :: "rstr option"

text \<open>\<open>str::lines\<close>: every line that ends in a line feed loses it and a carriage return before it; what follows
  the last line feed is a line of its own unless it is empty.\<close>

definition strip_cr :: "bytes \<Rightarrow> bytes" where
  "strip_cr line = (if line \<noteq> [] \<and> last line = 13 then butlast line else line)"

definition lines :: "rstr \<Rightarrow> rstr list" where
  "lines text = (let parts = split_on 10 text in
     map strip_cr (butlast parts) @ (if last parts = [] then [] else [last parts]))"

record sse_fields =
  sf_event :: "rstr option"
  sf_id :: "rstr option"
  sf_data :: "rstr list"

definition sse_line :: "rstr \<Rightarrow> sse_fields \<Rightarrow> sse_fields" where
  "sse_line line fs =
     (if line = [] \<or> hd line = 58 then fs
      else let (name, value) = (case split_once 58 line of
             Some (name, value) \<Rightarrow> (name, case value of b # rest \<Rightarrow> if b = 32 then rest else value | [] \<Rightarrow> value)
           | None \<Rightarrow> (line, [])) in
        if name = lit ''event'' then fs\<lparr> sf_event := Some value \<rparr>
        else if name = lit ''id'' then fs\<lparr> sf_id := Some value \<rparr>
        else if name = lit ''data'' then fs\<lparr> sf_data := sf_data fs @ [value] \<rparr>
        else fs)"

fun join_lines :: "rstr list \<Rightarrow> rstr" where
  "join_lines [] = []"
| "join_lines [l] = l"
| "join_lines (l # ls) = l @ [10] @ join_lines ls"

definition parse_sse_block :: "bytes \<Rightarrow> ('u, 'j) client_error + sse_event option" where
  "parse_sse_block block =
     and_then (ok_or (InvalidSse ''event is not UTF-8'') (from_utf8 block)) (\<lambda>text.
     let fs = fold sse_line (lines text) \<lparr> sf_event = None, sf_id = None, sf_data = [] \<rparr> in
     if sf_data fs = [] then Inr None
     else Inr (Some \<lparr> ev_event = (case sf_event fs of Some e \<Rightarrow> e | None \<Rightarrow> lit ''message''),
            ev_data = (case sf_data fs of [single] \<Rightarrow> single | ls \<Rightarrow> join_lines ls), ev_id = sf_id fs \<rparr>))"

record sse_parser =
  sp_buffer :: bytes
  sp_offset :: nat
  sp_tail_start :: nat

definition sse_parser_default :: sse_parser where
  "sse_parser_default = \<lparr> sp_buffer = [], sp_offset = 0, sp_tail_start = 0 \<rparr>"

definition compact :: "sse_parser \<Rightarrow> sse_parser" where
  "compact p =
     (if sp_offset p \<ge> 64 * 1024 \<and> sp_offset p \<ge> length (sp_buffer p) div 2
      then p\<lparr> sp_buffer := drop (sp_offset p) (sp_buffer p), sp_tail_start := sp_tail_start p - sp_offset p, sp_offset := 0 \<rparr>
      else p)"

lemma boundary_here_bounds: "boundary_here buffer here = Some (i, l) \<Longrightarrow> i + l = here + 1 \<and> 0 < l"
  by (auto simp: boundary_here_def split: if_splits)

lemma memchr_Some: "memchr b bs = Some n \<longleftrightarrow> n < length bs \<and> bs ! n = b \<and> (\<forall>i < n. bs ! i \<noteq> b)"
proof
  assume "memchr b bs = Some n"
  then have n: "n = length (takeWhile (\<lambda>x. x \<noteq> b) bs)" "n < length bs"
    by (auto simp: memchr_def Let_def split: if_splits)
  then show "n < length bs \<and> bs ! n = b \<and> (\<forall>i < n. bs ! i \<noteq> b)"
    using nth_length_takeWhile[of "\<lambda>x. x \<noteq> b" bs] set_takeWhileD nth_mem takeWhile_nth
    by (metis (mono_tags, lifting))
next
  assume n: "n < length bs \<and> bs ! n = b \<and> (\<forall>i < n. bs ! i \<noteq> b)"
  then have "takeWhile (\<lambda>x. x \<noteq> b) bs = take n bs"
    by (intro takeWhile_eq_take_P_nth) auto
  with n show "memchr b bs = Some n"
    by (simp add: memchr_def)
qed

lemma memchr_None: "memchr b bs = None \<longleftrightarrow> b \<notin> set bs"
proof -
  have "length (takeWhile (\<lambda>x. x \<noteq> b) bs) < length bs \<longleftrightarrow> b \<in> set bs"
    by (induction bs) auto
  then show ?thesis by (simp add: memchr_def Let_def)
qed

lemma sse_boundary_loop_bounds:
  "sse_boundary_loop buffer start = Some (i, l) \<Longrightarrow> i + l \<le> length buffer \<and> 0 < l"
proof (induction buffer start rule: sse_boundary_loop.induct)
  case (1 buffer start)
  show ?case
  proof (cases "memchr 10 (drop start buffer)")
    case None
    then show ?thesis using 1(2) by (subst (asm) sse_boundary_loop.simps) simp
  next
    case (Some n)
    then have n: "start + n < length buffer" by (simp add: memchr_Some less_diff_conv add.commute)
    show ?thesis
    proof (cases "boundary_here buffer (start + n)")
      case None
      then show ?thesis using 1 Some by (subst (asm) (2) sse_boundary_loop.simps) simp
    next
      case (Some found)
      then show ?thesis
        using 1(2) n \<open>memchr 10 (drop start buffer) = Some n\<close> boundary_here_bounds[of buffer "start + n"]
        by (subst (asm) sse_boundary_loop.simps) auto
    qed
  qed
qed

lemma sse_boundary_bounds: "sse_boundary buffer = Some (i, l) \<Longrightarrow> i + l \<le> length buffer \<and> 0 < l"
  unfolding sse_boundary_def by (rule sse_boundary_loop_bounds)

text \<open>The operations that may fail return the state they leave, too: the loop its \<open>tail_start\<close>, the others the parser.\<close>

function validate_new_loop :: "bytes \<Rightarrow> nat \<Rightarrow> nat \<Rightarrow> (('u, 'j) client_error + unit) \<times> nat" where
  "validate_new_loop buffer tail_start pos = (case sse_boundary (drop pos buffer) of
       None \<Rightarrow> (Inr (), tail_start)
     | Some (index, len) \<Rightarrow>
         let boundary_end = pos + index + len in
         if boundary_end - tail_start > MAX_SSE_EVENT_BYTES then (Inl (InvalidSse ''event exceeds 2 MiB''), tail_start)
         else validate_new_loop buffer boundary_end boundary_end)"
  by pat_completeness auto
termination
  by (relation "measure (\<lambda>(buffer, _, pos). length buffer - pos)") (auto dest: sse_boundary_bounds)

declare validate_new_loop.simps [simp del]

definition validate_new_bytes :: "nat \<Rightarrow> sse_parser \<Rightarrow> (('u, 'j) client_error + unit) \<times> sse_parser" where
  "validate_new_bytes pushed p =
     (let new_start = length (sp_buffer p) - pushed in
      case validate_new_loop (sp_buffer p) (sp_tail_start p) (max (new_start - 3) (sp_tail_start p)) of (r, tail_start) \<Rightarrow>
      (and_then r (\<lambda>_.
         if length (sp_buffer p) - tail_start > MAX_SSE_UNTERMINATED_EVENT_BYTES
         then Inl (InvalidSse ''unterminated event exceeds 2 MiB'')
         else Inr ()),
       p\<lparr> sp_tail_start := tail_start \<rparr>))"

definition sse_push :: "bytes \<Rightarrow> sse_parser \<Rightarrow> (('u, 'j) client_error + unit) \<times> sse_parser" where
  "sse_push chunk p =
     (let p = compact p in validate_new_bytes (length chunk) (p\<lparr> sp_buffer := sp_buffer p @ chunk \<rparr>))"

function next_event :: "sse_parser \<Rightarrow> (('u, 'j) client_error + sse_event option) \<times> sse_parser" where
  "next_event p = (case sse_boundary (slice (sp_buffer p) (sp_offset p) (sp_tail_start p)) of
       None \<Rightarrow> (Inr None, p)
     | Some (index, len) \<Rightarrow>
         let start = sp_offset p; p = p\<lparr> sp_offset := sp_offset p + (index + len) \<rparr> in
         (case parse_sse_block (slice (sp_buffer p) start (start + index)) of
            Inl e \<Rightarrow> (Inl e, p)
          | Inr (Some event) \<Rightarrow> (Inr (Some event), p)
          | Inr None \<Rightarrow> next_event p))"
  by pat_completeness auto
termination
  by (relation "measure (\<lambda>p. sp_tail_start p - sp_offset p)") (auto dest!: sse_boundary_bounds)

declare next_event.simps [simp del]

type_synonym sse_body = "(reqwest_error + bytes) list"

text \<open>One call of \<open>next_sse_event\<close>: the result, and what is left of the body and the parser.\<close>

function next_sse_event :: "sse_body \<Rightarrow> sse_parser \<Rightarrow> (('u, 'j) client_error + sse_event option) \<times> sse_body \<times> sse_parser" where
  "next_sse_event body p = (case next_event p of
       (Inl e, p) \<Rightarrow> (Inl e, body, p)
     | (Inr (Some event), p) \<Rightarrow> (Inr (Some event), body, p)
     | (Inr None, p) \<Rightarrow> (case body of
           [] \<Rightarrow> (Inr None, [], p)
         | Inl error # body \<Rightarrow> (Inl (HttpError error), body, p)
         | Inr chunk # body \<Rightarrow> (case sse_push chunk p of
               (Inl e, p) \<Rightarrow> (Inl e, body, p)
             | (Inr _, p) \<Rightarrow> next_sse_event body p)))"
  by pat_completeness auto
termination
  by (relation "measure (\<lambda>(body, _). length body)") auto

declare next_sse_event.simps [simp del]

section \<open>Where events end\<close>

text \<open>A terminator of length \<open>l\<close> at \<open>i\<close>, and the first one of a byte string.\<close>

definition term_at :: "bytes \<Rightarrow> nat \<Rightarrow> nat \<Rightarrow> bool" where
  "term_at bs i l \<longleftrightarrow> (l = 4 \<and> take l (drop i bs) = [13, 10, 13, 10]) \<or> (l = 2 \<and> take l (drop i bs) = [10, 10])"

definition first_term :: "bytes \<Rightarrow> nat \<Rightarrow> nat \<Rightarrow> bool" where
  "first_term bs i l \<longleftrightarrow> term_at bs i l \<and> (\<forall>j m. term_at bs j m \<longrightarrow> i + l \<le> j + m)"

lemma term_at_bounds: "term_at bs i l \<Longrightarrow> i + l \<le> length bs \<and> 2 \<le> l \<and> l \<le> 4"
  by (auto simp: term_at_def dest!: arg_cong[of _ _ length])

lemma term_at_drop: "term_at (drop k bs) i l \<longleftrightarrow> term_at bs (k + i) l"
  by (simp add: term_at_def add.commute)

lemma term_at_prefix: "i + l \<le> length xs \<Longrightarrow> term_at (xs @ ys) i l \<longleftrightarrow> term_at xs i l"
  by (simp add: term_at_def)

lemma term_at_end:
  assumes t: "term_at bs i l"
  shows "bs ! (i + l - 1) = 10 \<and> i + l - 1 < length bs \<and> (bs ! (i + l - 2) = 13 \<longleftrightarrow> l = 4)"
proof -
  have nth: "bs ! (i + k) = take l (drop i bs) ! k" if "k < l" for k
    using that term_at_bounds[OF t] by simp
  consider "l = 4" "take l (drop i bs) = [13, 10, 13, 10]" | "l = 2" "take l (drop i bs) = [10, 10]"
    using t unfolding term_at_def by blast
  then show ?thesis
  proof cases
    case 1
    then have "bs ! (i + 3) = 10" "bs ! (i + 2) = 13"
      using nth[of 3] nth[of 2] by (simp_all only: 1(2), simp_all add: 1(1))
    then show ?thesis using 1(1) term_at_bounds[OF t] by (simp add: numeral_eq_Suc)
  next
    case 2
    then have "bs ! (i + 1) = 10" "bs ! (i + 0) = 10"
      using nth[of 1] nth[of 0] by (simp_all only: 2(2), simp_all add: 2(1))
    then show ?thesis using 2(1) term_at_bounds[OF t] by simp
  qed
qed

lemma term_at_same_end: "term_at bs i l \<Longrightarrow> term_at bs j m \<Longrightarrow> i + l = j + m \<Longrightarrow> i = j \<and> l = m"
  using term_at_end[of bs i l] term_at_end[of bs j m] by (auto simp: term_at_def)

lemma first_term_unique: "first_term bs i l \<Longrightarrow> first_term bs j m \<Longrightarrow> i = j \<and> l = m"
proof -
  assume first: "first_term bs i l" "first_term bs j m"
  then have "i + l = j + m" by (auto simp: first_term_def intro: le_antisym)
  with first show ?thesis using term_at_same_end[of bs i l j m] by (simp add: first_term_def)
qed

lemma boundary_here_iff:
  assumes "here < length bs" "bs ! here = 10"
  shows "boundary_here bs here = Some (i, l) \<longleftrightarrow> term_at bs i l \<and> i + l = here + 1"
proof -
  have four: "slice bs (here - 3) (here + 1) = take 4 (drop (here - 3) bs)" if "3 \<le> here"
    using that by (simp add: slice_def)
  have two: "take 2 (drop (here - 1) bs) = [bs ! (here - 1), 10]" if "1 \<le> here"
  proof -
    have "take 2 (drop (here - 1) bs) = [bs ! (here - 1), bs ! here]"
      using that assms(1) by (cases here) (auto simp: Cons_nth_drop_Suc[symmetric] numeral_2_eq_2)
    with assms show ?thesis by simp
  qed
  show ?thesis
  proof
    assume "boundary_here bs here = Some (i, l)"
    then show "term_at bs i l \<and> i + l = here + 1"
      using four two by (auto simp: boundary_here_def term_at_def split: if_splits)
  next
    assume t: "term_at bs i l \<and> i + l = here + 1"
    show "boundary_here bs here = Some (i, l)"
    proof (cases "l = 4")
      case True
      then have "i = here - 3" "3 \<le> here" using t by auto
      then show ?thesis using t True four by (auto simp: boundary_here_def term_at_def)
    next
      case False
      then have l: "l = 2" "i = here - 1" "1 \<le> here" using t by (auto simp: term_at_def)
      then have "bs ! (here - 1) = 10" using t two by (auto simp: term_at_def)
      moreover have "\<not> (3 \<le> here \<and> slice bs (here - 3) (here + 1) = [13, 10, 13, 10])"
      proof
        assume four': "3 \<le> here \<and> slice bs (here - 3) (here + 1) = [13, 10, 13, 10]"
        then have "term_at bs (here - 3) 4" using four by (simp add: term_at_def)
        moreover have "here - 3 + 4 - 2 = here - 1" using four' by simp
        ultimately have "bs ! (here - 1) = 13" using term_at_end[of bs "here - 3" 4] by simp
        with \<open>bs ! (here - 1) = 10\<close> show False by simp
      qed
      ultimately show ?thesis using l by (auto simp: boundary_here_def)
    qed
  qed
qed

lemma sse_boundary_loop_iff:
  "sse_boundary_loop bs start = Some (i, l) \<longleftrightarrow>
     term_at bs i l \<and> start < i + l \<and> (\<forall>j m. term_at bs j m \<longrightarrow> start < j + m \<longrightarrow> i + l \<le> j + m)"
proof (induction bs start rule: sse_boundary_loop.induct)
  case (1 bs start)
  show ?case
  proof (cases "memchr 10 (drop start bs)")
    case None
    have "\<not> (term_at bs j m \<and> start < j + m)" for j m
    proof
      assume t: "term_at bs j m \<and> start < j + m"
      have "drop start bs ! (j + m - 1 - start) = 10" "j + m - 1 - start < length (drop start bs)"
        using term_at_end[of bs j m] t by auto
      then have "10 \<in> set (drop start bs)"
        by (metis nth_mem)
      with None show False by (simp add: memchr_None)
    qed
    with None show ?thesis by (subst sse_boundary_loop.simps) auto
  next
    case (Some n)
    then have n: "start + n < length bs" "bs ! (start + n) = 10" "\<forall>k < n. bs ! (start + k) \<noteq> 10"
      by (auto simp: memchr_Some)
    have after: "start + n < j + m" if "term_at bs j m" "start < j + m" for j m
    proof (rule ccontr)
      assume "\<not> start + n < j + m"
      then have "bs ! (start + (j + m - 1 - start)) \<noteq> 10"
        using that n(3)[rule_format, of "j + m - 1 - start"] by auto
      then show False using term_at_end[OF that(1)] that(2) by auto
    qed
    show ?thesis
    proof (cases "boundary_here bs (start + n)")
      case None
      then have none: "\<not> (term_at bs j m \<and> j + m = start + n + 1)" for j m
        using boundary_here_iff[OF n(1,2)] by auto
      have "sse_boundary_loop bs start = sse_boundary_loop bs (start + n + 1)"
        using Some None by (subst sse_boundary_loop.simps) simp
      moreover have "start < j + m \<longleftrightarrow> start + n + 1 < j + m" if "term_at bs j m" for j m
        using after[OF that] none[of j m] that by auto
      ultimately show ?thesis
        using "1.IH"[OF Some None] by auto
    next
      case (Some found)
      then obtain i' l' where found: "found = (i', l')" "term_at bs i' l'" "i' + l' = start + n + 1"
        using boundary_here_iff[OF n(1,2)] by (cases found) auto
      have "sse_boundary_loop bs start = Some (i', l')"
        using \<open>memchr 10 (drop start bs) = Some n\<close> Some found(1) by (subst sse_boundary_loop.simps) simp
      moreover have "term_at bs i l \<and> start < i + l \<and> (\<forall>j m. term_at bs j m \<longrightarrow> start < j + m \<longrightarrow> i + l \<le> j + m)
          \<longleftrightarrow> (i, l) = (i', l')"
      proof
        assume first: "term_at bs i l \<and> start < i + l \<and> (\<forall>j m. term_at bs j m \<longrightarrow> start < j + m \<longrightarrow> i + l \<le> j + m)"
        then have "i + l \<le> i' + l'"
          using first[THEN conjunct2, THEN conjunct2, rule_format, OF found(2)] found(3) by simp
        moreover have "i' + l' \<le> i + l" using after[of i l] first found(3) by simp
        ultimately show "(i, l) = (i', l')" using term_at_same_end[of bs i l i' l'] first found(2) by simp
      next
        assume "(i, l) = (i', l')"
        then show "term_at bs i l \<and> start < i + l \<and> (\<forall>j m. term_at bs j m \<longrightarrow> start < j + m \<longrightarrow> i + l \<le> j + m)"
          using found after by (auto simp: Suc_le_eq)
      qed
      ultimately show ?thesis by auto
    qed
  qed
qed

lemma sse_boundary_Some: "sse_boundary bs = Some (i, l) \<longleftrightarrow> first_term bs i l"
  using term_at_bounds by (fastforce simp: sse_boundary_def sse_boundary_loop_iff first_term_def)

lemma sse_boundary_None: "sse_boundary bs = None \<longleftrightarrow> (\<forall>i l. \<not> term_at bs i l)"
proof
  assume none: "sse_boundary bs = None"
  show "\<forall>i l. \<not> term_at bs i l"
  proof (rule ccontr)
    assume "\<not> (\<forall>i l. \<not> term_at bs i l)"
    then obtain p where p: "term_at bs (fst p) (snd p)" by auto
    obtain q where q: "term_at bs (fst q) (snd q)" "\<forall>r. term_at bs (fst r) (snd r) \<longrightarrow> fst q + snd q \<le> fst r + snd r"
      using ex_has_least_nat[of "\<lambda>p. term_at bs (fst p) (snd p)" p "\<lambda>p. fst p + snd p", OF p] by blast
    then have "first_term bs (fst q) (snd q)" by (auto simp: first_term_def)
    then have "sse_boundary bs = Some (fst q, snd q)" by (simp only: sse_boundary_Some)
    with none show False by simp
  qed
next
  assume "\<forall>i l. \<not> term_at bs i l"
  then show "sse_boundary bs = None"
    by (cases "sse_boundary bs") (auto simp: sse_boundary_Some first_term_def)
qed

section \<open>The reference\<close>

text \<open>\<open>scan_end\<close> is where the last complete event of a byte string ends, \<open>fits\<close> says that no complete event and
  not the rest exceed the limits, and \<open>reference_next\<close> is the next event for a parser that
  has the whole string, with what remains.\<close>

function scan_end :: "bytes \<Rightarrow> nat" where
  "scan_end bs = (case sse_boundary bs of None \<Rightarrow> 0 | Some (i, l) \<Rightarrow> i + l + scan_end (drop (i + l) bs))"
  by pat_completeness auto
termination
  by (relation "measure length") (auto dest!: sse_boundary_bounds)

function fits :: "bytes \<Rightarrow> bool" where
  "fits bs = (case sse_boundary bs of
       None \<Rightarrow> length bs \<le> MAX_SSE_UNTERMINATED_EVENT_BYTES
     | Some (i, l) \<Rightarrow> i + l \<le> MAX_SSE_EVENT_BYTES \<and> fits (drop (i + l) bs))"
  by pat_completeness auto
termination
  by (relation "measure length") (auto dest!: sse_boundary_bounds)

function reference_next :: "bytes \<Rightarrow> (('u, 'j) client_error + sse_event option) \<times> bytes" where
  "reference_next bs = (case sse_boundary bs of
       None \<Rightarrow> (Inr None, bs)
     | Some (i, l) \<Rightarrow> (case parse_sse_block (take i bs) of
           Inl e \<Rightarrow> (Inl e, drop (i + l) bs)
         | Inr (Some event) \<Rightarrow> (Inr (Some event), drop (i + l) bs)
         | Inr None \<Rightarrow> reference_next (drop (i + l) bs)))"
  by pat_completeness auto
termination
  by (relation "measure length") (auto dest!: sse_boundary_bounds)

declare scan_end.simps [simp del] fits.simps [simp del] reference_next.simps [simp del]

lemma sse_boundary_cases [case_names none some]:
  obtains "sse_boundary bs = None" "\<And>i l. \<not> term_at bs i l"
    | i l where "sse_boundary bs = Some (i, l)" "first_term bs i l" "0 < i + l" "i + l \<le> length bs"
proof (cases "sse_boundary bs")
  case None
  then show ?thesis by (intro that(1)) (auto simp: sse_boundary_None)
next
  case (Some r)
  then show ?thesis
    using term_at_bounds that(2) by (cases r) (fastforce simp: sse_boundary_Some first_term_def)
qed

lemma scan_end_le: "scan_end bs \<le> length bs"
proof (induction bs rule: scan_end.induct)
  case (1 bs)
  show ?case
  proof (cases bs rule: sse_boundary_cases)
    case none
    then show ?thesis by (subst scan_end.simps) simp
  next
    case (some i l)
    then show ?thesis using "1.IH"[OF some(1) refl] by (subst scan_end.simps) simp
  qed
qed

text \<open>Nothing ends in what follows the last complete event.\<close>

lemma scan_end_rest: "\<not> term_at (drop (scan_end bs) bs) i l"
proof (induction bs arbitrary: i l rule: scan_end.induct)
  case (1 bs)
  show ?case
  proof (cases bs rule: sse_boundary_cases)
    case none
    then show ?thesis by (subst scan_end.simps) simp
  next
    case (some i' l')
    then have "scan_end bs = i' + l' + scan_end (drop (i' + l') bs)" by (subst scan_end.simps) simp
    then show ?thesis
      using "1.IH"[OF some(1) refl, of i l] by (simp add: add.commute)
  qed
qed

lemma first_term_append: "first_term xs i l \<Longrightarrow> first_term (xs @ ys) i l"
proof -
  assume first: "first_term xs i l"
  then have t: "term_at xs i l" "i + l \<le> length xs" by (auto simp: first_term_def dest: term_at_bounds)
  have "i + l \<le> j + m" if "term_at (xs @ ys) j m" for j m
  proof (cases "j + m \<le> length xs")
    case True
    then show ?thesis using that first term_at_prefix[of j m xs ys] by (simp add: first_term_def)
  qed (use t in simp)
  with t show ?thesis by (simp add: first_term_def term_at_prefix)
qed

lemma first_term_take: "first_term bs i l \<Longrightarrow> i + l \<le> n \<Longrightarrow> first_term (take n bs) i l"
proof -
  assume first: "first_term bs i l" "i + l \<le> n"
  then have t: "term_at bs i l" "i + l \<le> length bs" by (auto simp: first_term_def dest: term_at_bounds)
  have prefix: "term_at (take n bs) j m \<longleftrightarrow> term_at bs j m" if "j + m \<le> length (take n bs)" for j m
    using term_at_prefix[OF that, of "drop n bs"] by simp
  have "i + l \<le> j + m" if "term_at (take n bs) j m" for j m
    using that term_at_bounds[OF that] prefix[of j m] first by (auto simp: first_term_def)
  with t first show ?thesis using prefix[of i l] by (simp add: first_term_def)
qed

text \<open>The scan of a longer string continues the scan of its prefix.\<close>

lemma scan_end_append: "scan_end (xs @ ys) = scan_end xs + scan_end (drop (scan_end xs) xs @ ys)"
proof (induction xs rule: scan_end.induct)
  case (1 xs)
  show ?case
  proof (cases xs rule: sse_boundary_cases)
    case none
    then have "scan_end xs = 0" by (subst scan_end.simps) simp
    then show ?thesis by simp
  next
    case (some i l)
    then have "scan_end xs = i + l + scan_end (drop (i + l) xs)" by (subst scan_end.simps) simp
    moreover have "sse_boundary (xs @ ys) = Some (i, l)" using some(2) first_term_append by (simp add: sse_boundary_Some)
    then have "scan_end (xs @ ys) = i + l + scan_end (drop (i + l) xs @ ys)"
      using some(4) by (subst scan_end.simps) simp
    ultimately show ?thesis
      using "1.IH"[OF some(1) refl] by (simp add: add.commute)
  qed
qed

lemma fits_append: "fits (xs @ ys) \<longleftrightarrow> (scan_end xs = 0 \<or> fits (take (scan_end xs) xs)) \<and> fits (drop (scan_end xs) xs @ ys)"
proof (induction xs rule: scan_end.induct)
  case (1 xs)
  show ?case
  proof (cases xs rule: sse_boundary_cases)
    case none
    then have "scan_end xs = 0" by (subst scan_end.simps) simp
    then show ?thesis by simp
  next
    case (some i l)
    let ?rest = "drop (i + l) xs"
    have scan: "scan_end xs = i + l + scan_end ?rest" using some by (subst scan_end.simps) simp
    have "sse_boundary (xs @ ys) = Some (i, l)" using some(2) first_term_append by (simp add: sse_boundary_Some)
    then have all: "fits (xs @ ys) \<longleftrightarrow> i + l \<le> MAX_SSE_EVENT_BYTES \<and> fits (?rest @ ys)"
      using some(4) by (subst fits.simps) simp
    have "sse_boundary (take (scan_end xs) xs) = Some (i, l)"
      using some(2) scan by (simp add: first_term_take sse_boundary_Some)
    then have one: "fits (take (scan_end xs) xs) \<longleftrightarrow> i + l \<le> MAX_SSE_EVENT_BYTES \<and> fits (take (scan_end ?rest) ?rest)"
      using scan by (subst fits.simps) (simp add: drop_take)
    have empty: "fits []"
      by (subst fits.simps) (auto dest: sse_boundary_bounds split: option.splits)
    show ?thesis
      using "1.IH"[OF some(1) refl] scan all one some(3) empty by (auto simp: add.commute)
  qed
qed

section \<open>Properties\<close>

text \<open>What the parser has not returned yet, and what its fields mean.\<close>

definition unread :: "sse_parser \<Rightarrow> bytes" where
  "unread p = drop (sp_offset p) (sp_buffer p)"

definition parser_inv :: "sse_parser \<Rightarrow> bool" where
  "parser_inv p \<longleftrightarrow> sp_offset p \<le> length (sp_buffer p) \<and> sp_tail_start p = sp_offset p + scan_end (unread p)"

lemma parser_inv_bounds: "parser_inv p \<Longrightarrow> sp_offset p \<le> sp_tail_start p \<and> sp_tail_start p \<le> length (sp_buffer p)"
  using scan_end_le[of "unread p"] by (auto simp: parser_inv_def unread_def)

lemma parser_inv_default [simp]: "parser_inv sse_parser_default" "unread sse_parser_default = []"
proof -
  have "scan_end [] = 0"
    using scan_end_le[of "[]"] by simp
  then show "parser_inv sse_parser_default" "unread sse_parser_default = []"
    by (simp_all add: parser_inv_def sse_parser_default_def unread_def)
qed

lemma compact_refines:
  assumes "parser_inv p"
  shows "parser_inv (compact p)" "unread (compact p) = unread p"
proof -
  show "unread (compact p) = unread p"
    by (simp add: compact_def unread_def)
  then show "parser_inv (compact p)"
    using assms by (auto simp: compact_def parser_inv_def unread_def)
qed

lemma scan_end_step: "sse_boundary bs = Some (i, l) \<Longrightarrow> scan_end bs = i + l + scan_end (drop (i + l) bs)"
  by (subst scan_end.simps) simp

lemma next_event_refines:
  fixes r :: "('u, 'j) client_error + sse_event option"
  shows "next_event p = (r, p') \<Longrightarrow> parser_inv p \<Longrightarrow>
    parser_inv p' \<and> reference_next (unread p) = (r, unread p')"
proof (induction "sp_tail_start p - sp_offset p" arbitrary: p r p' rule: less_induct)
  case less
  have inv: "parser_inv p" by fact
  let ?u = "unread p"
  have slice: "slice (sp_buffer p) (sp_offset p) (sp_tail_start p) = take (scan_end ?u) ?u"
    using inv by (simp add: slice_def unread_def parser_inv_def)
  show ?case
  proof (cases ?u rule: sse_boundary_cases)
    case none
    then have "scan_end ?u = 0" by (subst scan_end.simps) simp
    moreover have "sse_boundary [] = None"
      by (cases "sse_boundary []") (auto dest: sse_boundary_bounds)
    ultimately have "next_event p = (Inr None :: ('u, 'j) client_error + _, p)"
      by (subst next_event.simps) (simp add: slice)
    moreover have "reference_next ?u = (Inr None :: ('u, 'j) client_error + _, ?u)"
      using none by (subst reference_next.simps) simp
    ultimately show ?thesis using less by auto
  next
    case (some i l)
    have "sse_boundary (take (scan_end ?u) ?u) = Some (i, l)"
      using some scan_end_step[OF some(1)] by (simp add: sse_boundary_Some first_term_take)
    moreover have block: "slice (sp_buffer p) (sp_offset p) (sp_offset p + i) = take i ?u"
      by (simp add: slice_def unread_def)
    let ?p = "p\<lparr> sp_offset := sp_offset p + (i + l) \<rparr>"
    have unread: "unread ?p = drop (i + l) ?u"
      by (simp add: unread_def add.commute)
    have inv': "parser_inv ?p"
      using inv some scan_end_step[OF some(1)] unread by (auto simp: parser_inv_def unread_def)
    ultimately have step: "(next_event p :: (('u, 'j) client_error + sse_event option) \<times> sse_parser) = (case parse_sse_block (take i ?u) :: ('u, 'j) client_error + _ of
          Inl e \<Rightarrow> (Inl e, ?p) | Inr (Some event) \<Rightarrow> (Inr (Some event), ?p) | Inr None \<Rightarrow> next_event ?p)"
      using block by (subst next_event.simps) (simp add: slice Let_def split: sum.split option.split)
    have ref: "(reference_next ?u :: (('u, 'j) client_error + sse_event option) \<times> bytes) = (case parse_sse_block (take i ?u) :: ('u, 'j) client_error + _ of
          Inl e \<Rightarrow> (Inl e, unread ?p) | Inr (Some event) \<Rightarrow> (Inr (Some event), unread ?p) | Inr None \<Rightarrow> reference_next (unread ?p))"
      using some unread by (subst reference_next.simps) (simp split: sum.split option.split)
    have "sp_tail_start ?p - sp_offset ?p < sp_tail_start p - sp_offset p"
      using inv inv' some(3) parser_inv_bounds[OF inv'] by auto
    from less.hyps[OF this _ inv'] show ?thesis
      using less.prems(1) step ref inv' by (auto split: sum.splits option.splits)
  qed
qed

lemma reference_next_append:
  fixes r :: "('u, 'j) client_error + sse_event option"
  shows "reference_next xs = (r, rest) \<Longrightarrow>
    reference_next (xs @ ys) = (if r = Inr None then reference_next (rest @ ys) else (r, rest @ ys))
    \<and> (r = Inr None \<longrightarrow> scan_end rest = 0)"
proof (induction xs arbitrary: r rest rule: scan_end.induct)
  case (1 xs)
  show ?case
  proof (cases xs rule: sse_boundary_cases)
    case none
    then have "reference_next xs = (Inr None :: ('u, 'j) client_error + _, xs)" "scan_end xs = 0"
      by (subst reference_next.simps scan_end.simps; simp)+
    with 1(2) show ?thesis by auto
  next
    case (some i l)
    have "sse_boundary (xs @ ys) = Some (i, l)" using some(2) first_term_append by (simp add: sse_boundary_Some)
    then have long: "(reference_next (xs @ ys) :: (('u, 'j) client_error + sse_event option) \<times> bytes) = (case parse_sse_block (take i xs) :: ('u, 'j) client_error + _ of
          Inl e \<Rightarrow> (Inl e, drop (i + l) xs @ ys) | Inr (Some event) \<Rightarrow> (Inr (Some event), drop (i + l) xs @ ys)
        | Inr None \<Rightarrow> reference_next (drop (i + l) xs @ ys))"
      using some(4) by (subst reference_next.simps) (simp split: sum.split option.split)
    have short: "(reference_next xs :: (('u, 'j) client_error + sse_event option) \<times> bytes) = (case parse_sse_block (take i xs) :: ('u, 'j) client_error + _ of
          Inl e \<Rightarrow> (Inl e, drop (i + l) xs) | Inr (Some event) \<Rightarrow> (Inr (Some event), drop (i + l) xs)
        | Inr None \<Rightarrow> reference_next (drop (i + l) xs))"
      using some by (subst reference_next.simps) simp
    show ?thesis
    proof (cases "parse_sse_block (take i xs) = (Inr None :: ('u, 'j) client_error + _)")
      case True
      then show ?thesis
        using "1.IH"[OF some(1) refl, of r rest] 1(2) long short by simp
    next
      case False
      then show ?thesis
        using 1(2) long short by (auto split: sum.splits option.splits)
    qed
  qed
qed

lemma fits_step: "sse_boundary bs = Some (i, l) \<Longrightarrow> fits bs \<longleftrightarrow> i + l \<le> MAX_SSE_EVENT_BYTES \<and> fits (drop (i + l) bs)"
  by (subst fits.simps) simp

lemma fits_prefix: "fits (xs @ ys) \<Longrightarrow> fits xs"
proof (induction xs rule: scan_end.induct)
  case (1 xs)
  show ?case
  proof (cases xs rule: sse_boundary_cases)
    case none
    have "length xs \<le> MAX_SSE_UNTERMINATED_EVENT_BYTES"
    proof (cases "xs @ ys" rule: sse_boundary_cases)
      case none
      then show ?thesis using 1(2) by (subst (asm) fits.simps) simp
    next
      case (some i l)
      then have "i + l \<le> MAX_SSE_EVENT_BYTES" using 1(2) fits_step by blast
      moreover have "length xs < i + l"
        using none(2)[of i l] some(2) term_at_prefix[of i l xs ys] by (force simp: first_term_def)
      ultimately show ?thesis by (simp add: const_defs)
    qed
    then show ?thesis using none by (subst fits.simps) simp
  next
    case (some i l)
    have "sse_boundary (xs @ ys) = Some (i, l)" using some(2) first_term_append by (simp add: sse_boundary_Some)
    then show ?thesis
      using "1.IH"[OF some(1) refl] 1(2) fits_step[OF some(1)] fits_step[of "xs @ ys" i l] some(4) by simp
  qed
qed

lemma fits_reference_next:
  fixes r :: "('u, 'j) client_error + sse_event option"
  shows "reference_next bs = (r, rest) \<Longrightarrow> fits (bs @ ys) \<Longrightarrow> fits (rest @ ys)"
proof (induction bs arbitrary: r rest rule: scan_end.induct)
  case (1 bs)
  show ?case
  proof (cases bs rule: sse_boundary_cases)
    case none
    then have "reference_next bs = (Inr None :: ('u, 'j) client_error + _, bs)"
      by (subst reference_next.simps) simp
    with 1(2,3) show ?thesis by auto
  next
    case (some i l)
    have short: "(reference_next bs :: (('u, 'j) client_error + sse_event option) \<times> bytes) = (case parse_sse_block (take i bs) :: ('u, 'j) client_error + _ of
          Inl e \<Rightarrow> (Inl e, drop (i + l) bs) | Inr (Some event) \<Rightarrow> (Inr (Some event), drop (i + l) bs)
        | Inr None \<Rightarrow> reference_next (drop (i + l) bs))"
      using some by (subst reference_next.simps) simp
    have "sse_boundary (bs @ ys) = Some (i, l)" using some(2) first_term_append by (simp add: sse_boundary_Some)
    then have "fits (drop (i + l) bs @ ys)"
      using 1(3) fits_step some(4) by simp
    then show ?thesis
      using "1.IH"[OF some(1) refl] 1(2) short by (auto split: sum.splits option.splits dest: sym[of "(_, _)"])
  qed
qed

text \<open>Looking for terminators only from \<open>pos\<close> on finds the same events when none begins before.\<close>

lemma first_term_shift:
  assumes "\<And>i l. term_at (drop a bs) i l \<Longrightarrow> k \<le> i"
  shows "sse_boundary (drop (a + k) bs) = (case sse_boundary (drop a bs) of None \<Rightarrow> None | Some (i, l) \<Rightarrow> Some (i - k, l))"
proof -
  have shift: "term_at (drop (a + k) bs) i l \<longleftrightarrow> term_at (drop a bs) (k + i) l" for i l
    by (simp add: term_at_drop ac_simps)
  show ?thesis
  proof (cases "drop a bs" rule: sse_boundary_cases)
    case none
    then have "sse_boundary (drop (a + k) bs) = None" by (simp add: sse_boundary_None shift)
    with none show ?thesis by simp
  next
    case (some i l)
    then have i: "k \<le> i" using assms by (auto simp: first_term_def)
    have "first_term (drop (a + k) bs) (i - k) l"
      using some(2) i unfolding first_term_def shift by (fastforce simp: add.assoc)
    then have "sse_boundary (drop (a + k) bs) = Some (i - k, l)" by (simp add: sse_boundary_Some)
    with some show ?thesis by simp
  qed
qed

lemma validate_new_loop_spec:
  assumes "tail_start \<le> pos" "\<And>i l. term_at (drop tail_start buffer) i l \<Longrightarrow> pos - tail_start \<le> i"
  shows "(validate_new_loop buffer tail_start pos = (Inr () :: ('u, 'j) client_error + unit, t) \<and> length buffer - t \<le> MAX_SSE_UNTERMINATED_EVENT_BYTES)
    \<longleftrightarrow> fits (drop tail_start buffer) \<and> t = tail_start + scan_end (drop tail_start buffer)"
  using assms
proof (induction "length buffer - tail_start" arbitrary: tail_start pos rule: less_induct)
  case less
  let ?u = "drop tail_start buffer"
  have pos: "sse_boundary (drop pos buffer) = (case sse_boundary ?u of None \<Rightarrow> None | Some (i, l) \<Rightarrow> Some (i - (pos - tail_start), l))"
    using first_term_shift[of tail_start buffer "pos - tail_start"] less.prems by simp
  show ?case
  proof (cases ?u rule: sse_boundary_cases)
    case none
    then have "validate_new_loop buffer tail_start pos = (Inr () :: ('u, 'j) client_error + unit, tail_start)"
      using pos by (subst validate_new_loop.simps) simp
    moreover have "scan_end ?u = 0" "fits ?u \<longleftrightarrow> length buffer - tail_start \<le> MAX_SSE_UNTERMINATED_EVENT_BYTES"
      using none by (subst scan_end.simps fits.simps; simp)+
    ultimately show ?thesis by auto
  next
    case (some i l)
    let ?stop = "tail_start + i + l"
    have i: "pos - tail_start \<le> i" using less.prems(2) some(2) by (auto simp: first_term_def)
    have step: "(validate_new_loop buffer tail_start pos :: (('u, 'j) client_error + unit) \<times> nat) =
        (if i + l > MAX_SSE_EVENT_BYTES then (Inl (InvalidSse ''event exceeds 2 MiB''), tail_start) else validate_new_loop buffer ?stop ?stop)"
      using pos some(1) i less.prems(1) by (subst validate_new_loop.simps) (simp add: Let_def ac_simps)
    have rest: "drop ?stop buffer = drop (i + l) ?u" by (simp add: ac_simps)
    have IH: "(validate_new_loop buffer ?stop ?stop = (Inr () :: ('u, 'j) client_error + unit, t) \<and> length buffer - t \<le> MAX_SSE_UNTERMINATED_EVENT_BYTES)
      \<longleftrightarrow> fits (drop ?stop buffer) \<and> t = ?stop + scan_end (drop ?stop buffer)"
      using less.hyps[of ?stop ?stop] some(3,4) by auto
    show ?thesis
      using step IH fits_step[OF some(1)] scan_end_step[OF some(1)] unfolding rest by auto
  qed
qed

lemma push_spec:
  fixes p p' :: sse_parser
  assumes inv: "parser_inv p"
  shows "case sse_push chunk p :: (('u, 'j) client_error + unit) \<times> sse_parser of (r, p') \<Rightarrow>
      unread p' = unread p @ chunk \<and> isl r = (\<not> fits (drop (scan_end (unread p)) (unread p) @ chunk))
      \<and> (\<not> isl r \<longrightarrow> parser_inv p')"
proof -
  define q where "q = (compact p)\<lparr> sp_buffer := sp_buffer (compact p) @ chunk \<rparr>"
  have c: "parser_inv (compact p)" "unread (compact p) = unread p"
    using compact_refines[OF inv] by auto
  then have le: "sp_offset q \<le> sp_tail_start q" "sp_tail_start q + length chunk \<le> length (sp_buffer q)"
    using parser_inv_bounds[OF c(1)] by (auto simp: q_def)
  let ?s = "scan_end (unread p)"
  let ?tail = "sp_tail_start q"
  have "drop ?tail (sp_buffer (compact p)) = drop ?s (unread (compact p))"
  proof -
    have "?tail = ?s + sp_offset (compact p)"
      using c unfolding parser_inv_def q_def by simp
    then show ?thesis by (simp add: unread_def)
  qed
  then have tail: "drop ?tail (sp_buffer q) = drop ?s (unread p) @ chunk"
    using c(2) le parser_inv_bounds[OF c(1)] by (simp add: q_def)
  have unread: "unread q = unread p @ chunk"
    using c by (simp add: q_def unread_def parser_inv_def)
  let ?new = "length (sp_buffer q) - length chunk"
  let ?pos = "max (?new - 3) ?tail"
  have early: "?pos - ?tail \<le> i" if t: "term_at (drop ?tail (sp_buffer q)) i l" for i l
  proof -
    have "length (drop ?s (unread p)) < i + l"
      using t scan_end_rest[of "unread p" i l] term_at_prefix[of i l "drop ?s (unread p)" chunk] unfolding tail by force
    moreover have "length (drop ?s (unread p)) = ?new - ?tail"
      using arg_cong[OF tail, of length] by simp
    ultimately show ?thesis using term_at_bounds[OF t] by linarith
  qed
  have scan: "scan_end (unread p @ chunk) = ?s + scan_end (drop ?s (unread p) @ chunk)"
    by (rule scan_end_append)
  have loop: "(validate_new_loop (sp_buffer q) ?tail ?pos = (Inr () :: ('u, 'j) client_error + unit, t)
        \<and> length (sp_buffer q) - t \<le> MAX_SSE_UNTERMINATED_EVENT_BYTES)
      \<longleftrightarrow> fits (drop ?s (unread p) @ chunk) \<and> t = ?tail + scan_end (drop ?s (unread p) @ chunk)" for t
    using validate_new_loop_spec[of ?tail ?pos "sp_buffer q" t] early unfolding tail by simp
  have push: "(sse_push chunk p :: (('u, 'j) client_error + unit) \<times> sse_parser) =
      (case validate_new_loop (sp_buffer q) ?tail ?pos of (r, tail_start) \<Rightarrow>
      (and_then r (\<lambda>_.
         if length (sp_buffer q) - tail_start > MAX_SSE_UNTERMINATED_EVENT_BYTES
         then Inl (InvalidSse ''unterminated event exceeds 2 MiB'')
         else Inr ()),
       q\<lparr> sp_tail_start := tail_start \<rparr>))"
    unfolding sse_push_def validate_new_bytes_def q_def Let_def by simp
  obtain r t where loop': "validate_new_loop (sp_buffer q) ?tail ?pos = (r :: ('u, 'j) client_error + unit, t)"
    by (cases "validate_new_loop (sp_buffer q) ?tail ?pos :: (('u, 'j) client_error + unit) \<times> nat")
  have unread': "unread (q\<lparr> sp_tail_start := t \<rparr>) = unread p @ chunk" for t
    using unread by (simp add: unread_def)
  have fits: "fits (drop ?s (unread p) @ chunk) \<longleftrightarrow> r = Inr () \<and> length (sp_buffer q) - t \<le> MAX_SSE_UNTERMINATED_EVENT_BYTES"
    using loop loop' by auto
  have "parser_inv (q\<lparr> sp_tail_start := t \<rparr>)" if "fits (drop ?s (unread p) @ chunk)"
  proof -
    have "t = ?tail + scan_end (drop ?s (unread p) @ chunk)"
      using that fits loop loop' by auto
    then show ?thesis
      using c unread scan le by (auto simp: parser_inv_def unread_def q_def)
  qed
  then show ?thesis
    unfolding push loop' using unread' fits by (cases r) (auto simp: not_less)
qed

lemma push_fits:
  assumes "parser_inv p" "fits (drop (scan_end (unread p)) (unread p) @ chunk)"
  obtains p' where "sse_push chunk p = (Inr () :: ('u, 'j) client_error + unit, p')" "parser_inv p'" "unread p' = unread p @ chunk"
  using push_spec[OF assms(1), of chunk, where 'u = 'u and 'j = 'j] assms(2)
  by (cases "sse_push chunk p :: (('u, 'j) client_error + unit) \<times> sse_parser"; cases "fst (sse_push chunk p :: (('u, 'j) client_error + unit) \<times> sse_parser)") auto

text \<open>\<open>push\<close> refines appending the chunk to what is unread. It fails exactly when, in the part not scanned
  yet, a complete event or the unterminated rest exceeds 2 MiB; scanning only the new bytes and three bytes of
  overlap misses no terminator, also one that straddles chunks, and compacting the buffer loses nothing.\<close>

theorem sse_push_refines:
  assumes "parser_inv p"
  shows "case sse_push chunk p :: (('u, 'j) client_error + unit) \<times> sse_parser of (r, p') \<Rightarrow>
      unread p' = unread p @ chunk \<and> isl r = (\<not> fits (drop (scan_end (unread p)) (unread p) @ chunk))
      \<and> (\<not> isl r \<longrightarrow> parser_inv p')"
  by (rule push_spec[OF assms])

lemma sse_push_refines_witness:
  "case sse_push [10, 10] sse_parser_default :: ((url, unit) client_error + unit) \<times> sse_parser of (r, p') \<Rightarrow>
      unread p' = unread sse_parser_default @ [10, 10]
      \<and> isl r = (\<not> fits (drop (scan_end (unread sse_parser_default)) (unread sse_parser_default) @ [10, 10]))
      \<and> (\<not> isl r \<longrightarrow> parser_inv p')"
  by (rule sse_push_refines) simp

text \<open>The results of consecutive calls of \<open>next_sse_event\<close>, and of a reader of the whole stream.\<close>

fun sse_results :: "nat \<Rightarrow> sse_body \<Rightarrow> sse_parser \<Rightarrow> (('u, 'j) client_error + sse_event option) list" where
  "sse_results 0 body p = []"
| "sse_results (Suc n) body p = (case next_sse_event body p of (r, body, p) \<Rightarrow> r # sse_results n body p)"

fun reference_results :: "nat \<Rightarrow> bytes \<Rightarrow> (('u, 'j) client_error + sse_event option) list" where
  "reference_results 0 bs = []"
| "reference_results (Suc n) bs = (case reference_next bs of (r, bs) \<Rightarrow> r # reference_results n bs)"

lemma next_sse_event_refines:
  fixes r :: "('u, 'j) client_error + sse_event option"
  shows "next_sse_event (map Inr chunks) p = (r, body, p') \<Longrightarrow> parser_inv p \<Longrightarrow> fits (unread p @ concat chunks) \<Longrightarrow>
    \<exists>left. body = map Inr left \<and> parser_inv p' \<and> fits (unread p' @ concat left)
      \<and> reference_next (unread p @ concat chunks) = (r, unread p' @ concat left)"
proof (induction chunks arbitrary: p)
  case Nil
  obtain s q where first: "next_event p = (s :: ('u, 'j) client_error + sse_event option, q)"
    by (cases "next_event p :: (('u, 'j) client_error + sse_event option) \<times> sse_parser")
  have "next_sse_event (map Inr []) p = (s, [], q)"
    using first by (subst next_sse_event.simps) (auto split: sum.split option.split)
  then have "r = s" "body = []" "p' = q"
    using Nil.prems(1) by auto
  then show ?case
    using next_event_refines[OF first Nil.prems(2)] fits_reference_next[of "unread p" s "unread q" "[]"] Nil.prems(3)
    by (intro exI[of _ "[]"]) auto
next
  case (Cons chunk chunks)
  obtain s q where first: "next_event p = (s :: ('u, 'j) client_error + sse_event option, q)"
    by (cases "next_event p :: (('u, 'j) client_error + sse_event option) \<times> sse_parser")
  have q: "parser_inv q" "reference_next (unread p) = (s, unread q)"
    using next_event_refines[OF first Cons.prems(2)] by auto
  note long = reference_next_append[OF q(2), of "concat (chunk # chunks)"]
  show ?case
  proof (cases "s = Inr None")
    case False
    have "next_sse_event (map Inr (chunk # chunks)) p = (s, map Inr (chunk # chunks), q)"
      using first False by (subst next_sse_event.simps) (auto split: sum.splits option.splits)
    then have eq: "r = s" "body = map Inr (chunk # chunks)" "p' = q"
      using Cons.prems(1) by auto
    have after: "reference_next (unread p @ concat (chunk # chunks)) = (s, unread q @ concat (chunk # chunks))"
      using long False by simp
    show ?thesis
      using eq q(1) after fits_reference_next[OF after, of "[]"] Cons.prems(3) by (intro exI[of _ "chunk # chunks"]) simp
  next
    case True
    have after: "(reference_next (unread p @ concat (chunk # chunks)) :: (('u, 'j) client_error + sse_event option) \<times> bytes)
        = reference_next (unread q @ chunk @ concat chunks)" and none: "scan_end (unread q) = 0"
      using long True by simp_all
    have "fits (unread q @ chunk @ concat chunks)"
      using fits_reference_next[OF q(2), of "concat (chunk # chunks)"] Cons.prems(3) by simp
    then have "fits (unread q @ chunk)"
      using fits_prefix[of "unread q @ chunk" "concat chunks"] by simp
    then obtain q' where push: "sse_push chunk q = (Inr () :: ('u, 'j) client_error + unit, q')"
        and q': "parser_inv q'" "unread q' = unread q @ chunk"
      using push_fits[OF q(1), of chunk] none by auto
    have "next_sse_event (map Inr (chunk # chunks)) p = (next_sse_event (map Inr chunks) q' :: (('u, 'j) client_error + sse_event option) \<times> _)"
      using first True push by (subst next_sse_event.simps) simp
    then show ?thesis
      using Cons.IH[of q'] Cons.prems(1) q' \<open>fits (unread q @ chunk @ concat chunks)\<close> after by simp
  qed
qed

text \<open>C31: The chunking of the body is invisible: if no event of the stream exceeds the limits, then however the
  transport cuts it into chunks, every call of \<open>next_sse_event\<close> returns what a parser returns that has the
  whole stream and cuts it at its terminators.\<close>

theorem sse_events_independent_of_chunks:
  assumes "fits (concat chunks)"
  shows "sse_results n (map Inr chunks) sse_parser_default
    = (reference_results n (concat chunks) :: (('u, 'j) client_error + sse_event option) list)"
proof -
  have "parser_inv p \<Longrightarrow> fits (unread p @ concat chunks) \<Longrightarrow>
      sse_results n (map Inr chunks) p = (reference_results n (unread p @ concat chunks) :: (('u, 'j) client_error + sse_event option) list)"
    for p chunks
  proof (induction n arbitrary: p chunks)
    case (Suc n)
    obtain r body p' where call: "next_sse_event (map Inr chunks) p = (r :: ('u, 'j) client_error + sse_event option, body, p')"
      by (cases "next_sse_event (map Inr chunks) p :: (('u, 'j) client_error + sse_event option) \<times> sse_body \<times> sse_parser") auto
    show ?case
      using next_sse_event_refines[OF call Suc.prems] Suc.IH call by auto
  qed simp
  from this[of sse_parser_default chunks] assms show ?thesis by simp
qed

text \<open>\<open>data:a\<close> and \<open>data:b\<close>, cut inside the first terminator.\<close>

definition sample_chunks :: "bytes list" where
  "sample_chunks = [[100, 97, 116, 97, 58, 97, 13, 10, 13], [10, 100, 97, 116, 97, 58, 98, 10, 10]]"

lemmas sse_scan_defs = sse_boundary_def sse_boundary_loop.simps memchr_def boundary_here_def slice_def

lemma sample_chunks_fit: "fits (concat sample_chunks)"
  by (simp add: sample_chunks_def fits.simps sse_scan_defs const_defs)

lemma sample_blocks:
  "parse_sse_block [100, 97, 116, 97, 58, 97]
    = (Inr (Some \<lparr> ev_event = lit ''message'', ev_data = lit ''a'', ev_id = None \<rparr>) :: (url, unit) client_error + _)"
  "parse_sse_block [100, 97, 116, 97, 58, 98]
    = (Inr (Some \<lparr> ev_event = lit ''message'', ev_data = lit ''b'', ev_id = None \<rparr>) :: (url, unit) client_error + _)"
  by (simp_all add: parse_sse_block_def from_utf8_def lines_def strip_cr_def sse_line_def lit_def of_char_def Let_def)

lemma sample_boundaries:
  "sse_boundary [100, 97, 116, 97, 58, 97, 13, 10, 13, 10, 100, 97, 116, 97, 58, 98, 10, 10] = Some (6, 4)"
  "sse_boundary [100, 97, 116, 97, 58, 98, 10, 10] = Some (6, 2)"
  "sse_boundary [] = None"
  by (simp_all add: sse_scan_defs)

lemma sse_events_independent_of_chunks_witness:
  "sse_results 3 (map Inr sample_chunks) sse_parser_default
    = (reference_results 3 (concat sample_chunks) :: ((url, unit) client_error + sse_event option) list)
   \<and> (reference_results 3 (concat sample_chunks) :: ((url, unit) client_error + sse_event option) list)
     = [Inr (Some \<lparr> ev_event = lit ''message'', ev_data = lit ''a'', ev_id = None \<rparr>),
        Inr (Some \<lparr> ev_event = lit ''message'', ev_data = lit ''b'', ev_id = None \<rparr>), Inr None]"
  by (rule conjI[OF sse_events_independent_of_chunks[OF sample_chunks_fit]])
    (simp add: sample_chunks_def numeral_3_eq_3 reference_next.simps sample_boundaries sample_blocks)

end
