(* ===== verification/JsonRecords.thy ===== *)
theory JsonRecords
  imports Rest ClientErrors
begin

text \<open>
  Records in JSON (\<open>rust/src/client.rs\<close>): the choice of the smaller payload key for an append, and
  the assembly of a read batch from the records of a server-sent event. The base64url engine is
  third-party: \<open>enc\<close> encodes, \<open>dec text n\<close> decodes into a buffer of \<open>n\<close> bytes and \<open>dec_vec\<close> onto the
  end of a vector.
\<close>

section \<open>Choosing the payload key\<close>

definition JSON_ESCAPED_LEN :: "u8 \<Rightarrow> nat" where
  "JSON_ESCAPED_LEN b =
     (if b \<in> {34, 92, 8, 9, 10, 12, 13} then 2 else if unat b < 0x20 then 6 else 1)"

definition escaped_len :: "bytes \<Rightarrow> nat" where
  "escaped_len bs = fold (\<lambda>b total. total + JSON_ESCAPED_LEN b) bs 0"

definition compact_record_payload :: "(bytes \<Rightarrow> rstr) \<Rightarrow> bytes \<Rightarrow> json_record_payload" where
  "compact_record_payload enc bs = (case from_utf8 bs of
       None \<Rightarrow> PayloadBytes (enc bs)
     | Some text \<Rightarrow>
         let text_len = length (lit ''\"text\":\"'') + escaped_len bs;
             bytes_len = length (lit ''\"bytes\":\"'') + div_ceil (min usize_max (length bs * 4)) 3 in
         if text_len \<le> bytes_len then PayloadText text else PayloadBytes (enc bs))"

section \<open>Read batches from server-sent events\<close>

record sse_read_writer =
  sw_id :: rstr
  sw_seq_num :: u64

record sse_read_record =
  sr_seq_num :: u64
  sr_timestamp_ms :: u64
  sr_writer :: sse_read_writer
  sr_part :: "rest_record_part option"
  sr_payload :: json_record_payload

definition payload_bytes :: "(rstr \<Rightarrow> bytes option) \<Rightarrow> json_record_payload \<Rightarrow> ('u, 'j) client_error + bytes" where
  "payload_bytes dec_vec p = (case p of
       PayloadText text \<Rightarrow> Inr text
     | PayloadBytes b \<Rightarrow> ok_or (InvalidSse ''invalid record base64url'') (dec_vec b))"

definition sse_part :: "rest_record_part option \<Rightarrow> ('u, 'j) client_error + part_header" where
  "sse_part part = (case part of
       None \<Rightarrow> Inr unsplit
     | Some p \<Rightarrow> map_err FrameError (part_new (rrp_index p) (rrp_is_final p)))"

definition sse_record_step :: "(rstr \<Rightarrow> nat \<Rightarrow> bytes option) \<Rightarrow> (rstr \<Rightarrow> bytes option) \<Rightarrow> sse_read_record
    \<Rightarrow> bytes \<times> record_meta list \<Rightarrow> ('u, 'j) client_error + bytes \<times> record_meta list" where
  "sse_record_step dec dec_vec record acc = (case acc of (payload, records) \<Rightarrow>
     and_then (ok_or (InvalidSse ''invalid writer id'') (dec (sw_id (sr_writer record)) WRITER_ID_BYTE_LEN)) (\<lambda>writer.
     if length writer \<noteq> WRITER_ID_BYTE_LEN then Inl (InvalidSse ''invalid writer id length'')
     else
       let data_start = length payload in
       and_then (payload_bytes dec_vec (sr_payload record)) (\<lambda>data.
       let payload = payload @ data in
       and_then (sse_part (sr_part record)) (\<lambda>part.
       Inr (payload, records @ [\<lparr> rm_seq_num = sr_seq_num record, rm_timestamp_ms = sr_timestamp_ms record,
          rm_writer_id = WriterId writer, rm_writer_seq_num = sw_seq_num (sr_writer record), rm_part = part,
          rm_data_start = of_nat data_start, rm_data_len = of_nat (length payload - data_start) \<rparr>])))))"

fun sse_records_loop :: "(rstr \<Rightarrow> nat \<Rightarrow> bytes option) \<Rightarrow> (rstr \<Rightarrow> bytes option) \<Rightarrow> sse_read_record list
    \<Rightarrow> bytes \<times> record_meta list \<Rightarrow> ('u, 'j) client_error + bytes \<times> record_meta list" where
  "sse_records_loop dec dec_vec [] acc = Inr acc"
| "sse_records_loop dec dec_vec (record # rest) acc =
     and_then (sse_record_step dec dec_vec record acc) (\<lambda>acc. sse_records_loop dec dec_vec rest acc)"

fun sse_batch_error :: "'j frame_codec_error \<Rightarrow> ('u, 'j) client_error" where
  "sse_batch_error (InvalidBatchRecordCount _ _) = InvalidSse ''read_batch record count is outside the protocol limit''"
| "sse_batch_error (RecordTooLarge _ _) = InvalidSse ''read_batch contains an oversized record''"
| "sse_batch_error (BatchPayloadTooLarge _ _) = InvalidSse ''read_batch exceeds the decoded payload limit''"
| "sse_batch_error NonContiguousReadBatch = InvalidSse ''read_batch sequence numbers are not contiguous''"
| "sse_batch_error other = FrameError other"

definition sse_read_batch :: "(rstr \<Rightarrow> nat \<Rightarrow> bytes option) \<Rightarrow> (rstr \<Rightarrow> bytes option) \<Rightarrow> sse_read_record list
    \<Rightarrow> ('u, 'j) client_error + read_batch" where
  "sse_read_batch dec dec_vec batch =
     and_then (sse_records_loop dec dec_vec batch ([], [])) (\<lambda>(payload, records).
     map_err sse_batch_error (try_from_parts payload records))"

section \<open>The payload chosen for a record\<close>

text \<open>serde_json's escape of one byte, and the member of the record object a payload is written as.\<close>

definition json_escape :: "u8 \<Rightarrow> bytes" where
  "json_escape b =
     (if b \<in> {34, 92} then [92, b]
      else if b = 8 then [92, 98] else if b = 9 then [92, 116] else if b = 10 then [92, 110]
      else if b = 12 then [92, 102] else if b = 13 then [92, 114]
      else if unat b < 0x20 then lit [CHR 0x5C, CHR ''u'', CHR ''0'', CHR ''0'']
        @ [of_nat (48 + unat b div 16), of_nat (if unat b mod 16 < 10 then 48 + unat b mod 16 else 87 + unat b mod 16)]
      else [b])"

definition json_member :: "json_record_payload \<Rightarrow> bytes" where
  "json_member p = (case p of
       PayloadText text \<Rightarrow> lit ''\"text\":\"'' @ concat (map json_escape text) @ lit ''\"''
     | PayloadBytes encoded \<Rightarrow> lit ''\"bytes\":\"'' @ encoded @ lit ''\"'')"

lemma length_json_escape: "length (json_escape b) = JSON_ESCAPED_LEN b"
  by (auto simp: json_escape_def JSON_ESCAPED_LEN_def lit_def)

lemma escaped_len_eq: "escaped_len bs = length (concat (map json_escape bs))"
proof -
  have "fold (\<lambda>b total. total + JSON_ESCAPED_LEN b) bs n = n + length (concat (map json_escape bs))" for n
    by (induction bs arbitrary: n) (simp_all add: length_json_escape)
  then show ?thesis by (simp add: escaped_len_def)
qed

lemma payload_bytes_compact:
  "dec_vec (enc bs) = Some bs \<Longrightarrow> payload_bytes dec_vec (compact_record_payload enc bs) = (Inr bs :: ('u, 'j) client_error + bytes)"
  by (auto simp: compact_record_payload_def payload_bytes_def Let_def split: option.splits)

text \<open>An append chooses a payload key that carries exactly the record's bytes and whose JSON member is the
  shortest of those that do: the text form whenever the bytes are UTF-8 and their escaped form is not
  longer than base64url, otherwise the base64url form.\<close>

theorem compact_record_payload_minimal:
  assumes "dec_vec (enc bs) = Some bs" "length (enc bs) = div_ceil (length bs * 4) 3" "length bs * 4 \<le> usize_max"
  shows "payload_bytes dec_vec (compact_record_payload enc bs) = (Inr bs :: ('u, 'j) client_error + bytes)
    \<and> length (json_member (compact_record_payload enc bs)) =
       (if from_utf8 bs = None then length (json_member (PayloadBytes (enc bs)))
        else min (length (json_member (PayloadText bs))) (length (json_member (PayloadBytes (enc bs)))))"
proof -
  have len: "length (json_member (PayloadText bs)) = length (lit ''\"text\":\"'') + escaped_len bs + 1"
    "length (json_member (PayloadBytes (enc bs))) = length (lit ''\"bytes\":\"'') + div_ceil (min usize_max (length bs * 4)) 3 + 1"
    using assms by (simp_all add: json_member_def escaped_len_eq min_absorb2)
  show ?thesis
    using assms(1) by (auto simp: compact_record_payload_def payload_bytes_def len Let_def from_utf8_def split: option.splits)
qed

definition sample_encode :: "bytes \<Rightarrow> rstr" where
  "sample_encode bs = (if bs = [10, 34] then lit ''CiI'' else [])"

lemma compact_record_payload_minimal_witness:
  "payload_bytes (\<lambda>_. Some [10, 34]) (compact_record_payload sample_encode [10, 34]) = (Inr [10, 34] :: (url, unit) client_error + bytes)
    \<and> length (json_member (compact_record_payload sample_encode [10, 34])) =
       (if from_utf8 [10, 34] = None then length (json_member (PayloadBytes (sample_encode [10, 34])))
        else min (length (json_member (PayloadText [10, 34]))) (length (json_member (PayloadBytes (sample_encode [10, 34])))))"
  by (rule compact_record_payload_minimal) (simp_all add: sample_encode_def lit_def div_ceil_def const_defs)

section \<open>The records of an event\<close>

text \<open>What one JSON record stands for.\<close>

definition sse_record :: "(rstr \<Rightarrow> nat \<Rightarrow> bytes option) \<Rightarrow> (rstr \<Rightarrow> bytes option) \<Rightarrow> sse_read_record
    \<Rightarrow> ('u, 'j) client_error + read_record" where
  "sse_record dec dec_vec record =
     and_then (ok_or (InvalidSse ''invalid writer id'') (dec (sw_id (sr_writer record)) WRITER_ID_BYTE_LEN)) (\<lambda>writer.
     if length writer \<noteq> WRITER_ID_BYTE_LEN then Inl (InvalidSse ''invalid writer id length'')
     else
       and_then (payload_bytes dec_vec (sr_payload record)) (\<lambda>data.
       and_then (sse_part (sr_part record)) (\<lambda>part.
       Inr \<lparr> rr_seq_num = sr_seq_num record, rr_timestamp_ms = sr_timestamp_ms record, rr_writer_id = WriterId writer,
          rr_writer_seq_num = sw_seq_num (sr_writer record), rr_part = part, rr_data = data \<rparr>)))"

lemma sse_record_step_eq:
  "(sse_record_step dec dec_vec record (payload, metas) :: ('u, 'j) client_error + _)
    = and_then (sse_record dec dec_vec record) (\<lambda>r. Inr (push_metas payload metas [r]))"
  by (auto simp: sse_record_step_def sse_record_def and_then_def Let_def split: sum.split)

lemma push_metas_append: "push_metas p ms (rs @ rs') = (case push_metas p ms rs of (p, ms) \<Rightarrow> push_metas p ms rs')"
  by (induction rs arbitrary: p ms) auto

lemma sse_records_loop_eq:
  "(sse_records_loop dec dec_vec batch (payload, metas) :: ('u, 'j) client_error + _)
    = and_then (map_result (sse_record dec dec_vec) batch) (\<lambda>rs. Inr (push_metas payload metas rs))"
proof (induction batch arbitrary: payload metas)
  case (Cons x batch)
  show ?case
  proof (cases "sse_record dec dec_vec x :: ('u, 'j) client_error + _")
    case (Inr r)
    then show ?thesis
      by (cases "map_result (sse_record dec dec_vec) batch :: ('u, 'j) client_error + _")
        (simp_all add: sse_record_step_eq Cons.IH)
  qed (simp add: sse_record_step_eq)
qed simp

text \<open>The metadata built from records never lies outside the payload, so only the four limits can be violated.\<close>

lemma check_metas_Inl:
  "(\<forall>rm \<in> set ms. meta_in_bounds p rm) \<Longrightarrow> check_metas (length p) n ms = Inl e
    \<Longrightarrow> \<exists>len. e = RecordTooLarge len MAX_RECORD_PAYLOAD_BYTES"
  by (induction ms arbitrary: n) (auto simp: and_then_eq_Inl validate_record_len_def meta_in_bounds_def split: if_splits)

lemma contiguous_loop_Inl: "contiguous_loop previous seqs = Inl e \<Longrightarrow> e = NonContiguousReadBatch"
  by (induction seqs arbitrary: previous) (auto split: if_splits option.splits)

lemma try_from_parts_Inl:
  assumes "try_from_parts p ms = Inl e" "\<forall>rm \<in> set ms. meta_in_bounds p rm"
  shows "\<exists>message. sse_batch_error e = (InvalidSse message :: ('u, 'j) client_error)"
  using assms check_metas_Inl[OF assms(2)] contiguous_loop_Inl
  by (fastforce simp: try_from_parts_def and_then_eq_Inl validate_batch_count_def validate_batch_def
      validate_sequence_contiguous_def split: if_splits)

lemma sse_read_batch_records:
  assumes "map_result (sse_record dec dec_vec) batch = (Inr rs :: ('u, 'j) client_error + _)"
    and "sum_list (map (length \<circ> rr_data) rs) < 2 ^ 32"
  shows "case sse_read_batch dec dec_vec batch :: ('u, 'j) client_error + read_batch of
      Inr b \<Rightarrow> bounded_records rs \<and> wf_read_batch b \<and> batch_records b = rs
    | Inl e \<Rightarrow> \<not> bounded_records rs \<and> (\<exists>message. e = InvalidSse message)"
proof -
  obtain p ms where pm: "push_metas [] [] rs = (p, ms)" by force
  have good: "\<forall>rm \<in> set ms. meta_in_bounds p rm" "map (meta_record p) ms = rs"
    using push_metas_spec[OF pm] assms(2) by auto
  have batch: "(sse_read_batch dec dec_vec batch :: ('u, 'j) client_error + read_batch)
      = map_err sse_batch_error (try_from_parts p ms)"
    using assms(1) pm by (simp add: sse_read_batch_def sse_records_loop_eq)
  have wf: "wf_read_batch (from_parts p ms) \<longleftrightarrow> bounded_records rs" "batch_records (from_parts p ms) = rs"
    using wf_batch_of_records[of "from_parts p ms"] good by (simp_all add: batch_records_def from_parts_def)
  show ?thesis
  proof (cases "try_from_parts p ms :: 'j frame_codec_error + read_batch")
    case (Inl e)
    then show ?thesis
      using batch wf try_from_parts_Inl[OF Inl good(1), where 'u = 'u] try_from_parts_Inr[of p ms, where 'a = 'j] by auto
  next
    case (Inr b)
    then show ?thesis using batch wf try_from_parts_Inr[of p ms b, where 'a = 'j] by simp
  qed
qed

text \<open>A \<open>read_batch\<close> event becomes exactly the records its JSON records stand for, in order, with every part
  header, writer and payload; it is refused, with an event error and not a panic, exactly when they
  are no, too many, oversized or non-contiguous records.\<close>

theorem sse_read_batch_decodes:
  assumes "map_result (sse_record dec dec_vec) batch = (Inr rs :: ('u, 'j) client_error + _)"
    and "sum_list (map (length \<circ> rr_data) rs) < 2 ^ 32"
  shows "case sse_read_batch dec dec_vec batch :: ('u, 'j) client_error + read_batch of
      Inr b \<Rightarrow> bounded_records rs \<and> wf_read_batch b \<and> batch_records b = rs
    | Inl e \<Rightarrow> \<not> bounded_records rs \<and> (\<exists>message. e = InvalidSse message)"
  by (rule sse_read_batch_records[OF assms])

definition sample_decode_slice :: "rstr \<Rightarrow> nat \<Rightarrow> bytes option" where
  "sample_decode_slice text n = (if text = lit ''AAAAAAAAAAAAAAAAAAAAAA'' \<and> 16 \<le> n then Some (replicate 16 0) else None)"

definition sample_decode_vec :: "rstr \<Rightarrow> bytes option" where
  "sample_decode_vec text = (if text = lit ''_w'' then Some [255] else None)"

definition sample_json :: "sse_read_record list" where
  "sample_json =
     (let writer = \<lambda>n. \<lparr> sw_id = lit ''AAAAAAAAAAAAAAAAAAAAAA'', sw_seq_num = n \<rparr> in
      [\<lparr> sr_seq_num = 5, sr_timestamp_ms = 1, sr_writer = writer 0, sr_part = None, sr_payload = PayloadText (lit ''a'') \<rparr>,
       \<lparr> sr_seq_num = 6, sr_timestamp_ms = 1, sr_writer = writer 1, sr_part = Some \<lparr> rrp_index = 1, rrp_is_final = True \<rparr>,
         sr_payload = PayloadBytes (lit ''_w'') \<rparr>])"

definition sample_json_records :: "part_header \<Rightarrow> read_record list" where
  "sample_json_records second =
     [\<lparr> rr_seq_num = 5, rr_timestamp_ms = 1, rr_writer_id = WriterId (replicate 16 0), rr_writer_seq_num = 0,
        rr_part = unsplit, rr_data = lit ''a'' \<rparr>,
      \<lparr> rr_seq_num = 6, rr_timestamp_ms = 1, rr_writer_id = WriterId (replicate 16 0), rr_writer_seq_num = 1,
        rr_part = second, rr_data = [255] \<rparr>]"

lemma sample_json_decodes:
  assumes "part_new 1 True = (Inr second :: unit frame_codec_error + part_header)"
  shows "map_result (sse_record sample_decode_slice sample_decode_vec) sample_json
    = (Inr (sample_json_records second) :: (url, unit) client_error + _)"
  using assms
  by (simp add: sample_json_def sample_json_records_def sse_record_def sample_decode_slice_def sample_decode_vec_def
      payload_bytes_def sse_part_def lit_def const_defs)

lemma sse_read_batch_decodes_witness:
  "\<exists>second. (part_new 1 True :: unit frame_codec_error + part_header) = Inr second
    \<and> (case sse_read_batch sample_decode_slice sample_decode_vec sample_json :: (url, unit) client_error + read_batch of
        Inr b \<Rightarrow> bounded_records (sample_json_records second) \<and> wf_read_batch b \<and> batch_records b = sample_json_records second
      | Inl e \<Rightarrow> \<not> bounded_records (sample_json_records second) \<and> (\<exists>message. e = InvalidSse message))
    \<and> bounded_records (sample_json_records second)"
proof -
  obtain second where second: "(part_new 1 True :: unit frame_codec_error + part_header) = Inr second"
    using part_new_ok[of 1 True] by (auto simp: MAX_INDEX_def)
  have "sum_list (map (length \<circ> rr_data) (sample_json_records second)) < 2 ^ 32" "bounded_records (sample_json_records second)"
    by (simp_all add: sample_json_records_def bounded_records_def contiguous_def less_Suc_eq lit_def const_defs)
  then show ?thesis
    using second sse_read_batch_decodes[OF sample_json_decodes[OF second]] by blast
qed

end
