(* ===== verification/SseCursor.thy ===== *)
theory SseCursor
  imports ReadSession SseParser JsonRecords
begin

text \<open>
  The resume cursor of the event stream (\<open>ParsedSseResumeCursor\<close> of \<open>rust/src/client.rs\<close>): its form in an
  event id, and the checks that tie it to the records and positions an event carries.
\<close>

section \<open>Parsing\<close>

record resume_cursor =
  cr_next_seq_num :: u64
  cr_consumed_records :: u64

type_synonym sse_resume_event = "rstr \<times> resume_cursor"

definition invalid_sse_resume_cursor :: "('u, 'j) client_error" where
  "invalid_sse_resume_cursor = InvalidSse ''SSE event does not carry a valid resume cursor''"

text \<open>\<open>fields.next()\<close> on the split id: the field and the rest.\<close>

fun next_field :: "rstr list \<Rightarrow> rstr option \<times> rstr list" where
  "next_field [] = (None, [])"
| "next_field (f # fs) = (Some f, fs)"

definition parse_sse_resume_cursor :: "rstr \<Rightarrow> ('u, 'j) client_error + resume_cursor" where
  "parse_sse_resume_cursor event_id =
     (let fs = split_on 44 event_id; (version, fs) = next_field fs in
      if version \<noteq> Some (lit ''v1'') then Inl invalid_sse_resume_cursor
      else let (field, fs) = next_field fs in
        and_then (ok_or invalid_sse_resume_cursor (Option.bind field parse_canonical_decimal_u64)) (\<lambda>next_seq_num.
        let (field, fs) = next_field fs in
        and_then (ok_or invalid_sse_resume_cursor (Option.bind field parse_canonical_decimal_u64)) (\<lambda>consumed_count.
        let (field, fs) = next_field fs in
        if field \<noteq> None \<or> next_seq_num > of_nat MAX_SAFE_INTEGER_U64 \<or> consumed_count > next_seq_num
        then Inl invalid_sse_resume_cursor
        else Inr \<lparr> cr_next_seq_num = next_seq_num, cr_consumed_records = consumed_count \<rparr>)))"

definition sse_resume_cursor :: "sse_event \<Rightarrow> ('u, 'j) client_error + sse_resume_event" where
  "sse_resume_cursor event = (case ev_id event of
       None \<Rightarrow> Inl invalid_sse_resume_cursor
     | Some event_id \<Rightarrow> and_then (parse_sse_resume_cursor event_id) (\<lambda>cursor. Inr (event_id, cursor)))"

section \<open>Checks\<close>

definition validate_sse_read_batch :: "read_batch \<Rightarrow> 'i read_options \<Rightarrow> (('u, 'j) client_error, unit) outcome" where
  "validate_sse_read_batch batch options = (case read_batch_stop_violation batch options of
       Ok (Some message) \<Rightarrow> Err (InvalidSse message)
     | Ok None \<Rightarrow> Ok ()
     | _ \<Rightarrow> Panic)"

definition validate_sse_read_batch_cursor :: "read_batch \<Rightarrow> resume_cursor \<Rightarrow> resume_cursor option \<Rightarrow> 'i read_options
    \<Rightarrow> (('u, 'j) client_error, unit) outcome" where
  "validate_sse_read_batch_cursor batch cursor previous options =
     (case (batch_first batch, batch_last batch) of
        (Ok first, Ok final) \<Rightarrow>
          (case checked_add (rr_seq_num final) 1 of
             None \<Rightarrow> Err (InvalidSse ''read_batch cursor cannot follow its records'')
           | Some expected_next_seq_num \<Rightarrow>
               if cr_next_seq_num cursor \<noteq> expected_next_seq_num
               then Err (InvalidSse ''read_batch cursor does not follow its records'')
               else if (case previous of Some p \<Rightarrow> rr_seq_num first \<noteq> cr_next_seq_num p | None \<Rightarrow> False)
               then Err (InvalidSse ''read_batch does not resume at the previous cursor'')
               else case (if previous = None then read_batch_start_violation batch (ro_start options) else Ok None) of
                   Ok (Some message) \<Rightarrow> Err (InvalidSse message)
                 | Ok None \<Rightarrow>
                     (case checked_add (case previous of None \<Rightarrow> 0 | Some p \<Rightarrow> cr_consumed_records p) (of_nat (record_count batch)) of
                        None \<Rightarrow> Err (InvalidSse ''read_batch consumed count overflowed'')
                      | Some expected_consumed \<Rightarrow>
                          if cr_consumed_records cursor \<noteq> expected_consumed
                          then Err (InvalidSse ''read_batch cursor has the wrong consumed count'')
                          else Ok ())
                 | _ \<Rightarrow> Panic)
      | _ \<Rightarrow> Panic)"

definition validate_sse_caught_up_cursor :: "caught_up_position \<Rightarrow> resume_cursor \<Rightarrow> resume_cursor option \<Rightarrow> 'i read_options
    \<Rightarrow> ('u, 'j) client_error + unit" where
  "validate_sse_caught_up_cursor caught_up cursor previous options =
     (if cr_next_seq_num cursor \<noteq> cu_next_seq_num caught_up
      then Inl (InvalidSse ''caught_up cursor does not match its position'')
      else and_then (case previous of
          Some p \<Rightarrow>
            if cr_next_seq_num cursor \<noteq> cr_next_seq_num p \<or> cr_consumed_records cursor \<noteq> cr_consumed_records p
            then Inl (InvalidSse ''caught_up does not continue the previous cursor'') else Inr ()
        | None \<Rightarrow>
            if cr_consumed_records cursor \<noteq> 0 then Inl (InvalidSse ''initial caught_up cursor has a consumed count'') else Inr ())
      (\<lambda>_. if previous = None \<and> (case ro_start options of Some (SeqNum start) \<Rightarrow> cr_next_seq_num cursor \<noteq> start | _ \<Rightarrow> False)
           then Inl (InvalidSse ''initial caught_up does not match the requested sequence'') else Inr ()))"

section \<open>Properties\<close>

text \<open>The documented form of an event id, and the cursors that have one.\<close>

definition cursor_id :: "resume_cursor \<Rightarrow> rstr" where
  "cursor_id c = lit ''v1,'' @ to_string (cr_next_seq_num c) @ lit '','' @ to_string (cr_consumed_records c)"

definition valid_cursor :: "resume_cursor \<Rightarrow> bool" where
  "valid_cursor c \<longleftrightarrow> cr_consumed_records c \<le> cr_next_seq_num c \<and> unat (cr_next_seq_num c) \<le> MAX_SAFE_INTEGER_U64"

lemma join_split_on: "split_on s bs = f # fs \<Longrightarrow> bs = f @ concat (map (\<lambda>g. s # g) fs)"
proof (induction bs arbitrary: f fs)
  case (Cons b bs)
  obtain g gs where split: "split_on s bs = g # gs"
    by (cases "split_on s bs") auto
  with Cons show ?case
    by (cases "b = s") auto
qed auto

lemma comma_not_in_decimal: "44 \<notin> set (to_string v)"
  using decimal_digits[of "unat v"] by (auto simp: to_string_def list_all_iff is_ascii_digit_iff)

lemma split_cursor_id:
  "split_on 44 (cursor_id c) = [lit ''v1'', to_string (cr_next_seq_num c), to_string (cr_consumed_records c)]"
proof -
  have event_id: "cursor_id c = lit ''v1'' @ 44 # (to_string (cr_next_seq_num c) @ 44 # to_string (cr_consumed_records c))"
    by (simp add: cursor_id_def lit_def of_char_def)
  have "44 \<notin> set (lit ''v1'')" by (simp add: lit_def of_char_def)
  then show ?thesis
    unfolding event_id by (simp add: split_on_append split_on_no_sep comma_not_in_decimal)
qed

lemma parse_sse_resume_cursor_Inr:
  "parse_sse_resume_cursor event_id = (Inr c :: ('u, 'j) client_error + _) \<longleftrightarrow> valid_cursor c \<and> event_id = cursor_id c"
proof
  assume parse: "parse_sse_resume_cursor event_id = (Inr c :: ('u, 'j) client_error + _)"
  obtain v fs where v: "split_on 44 event_id = v # fs" by (cases "split_on 44 event_id") auto
  with parse obtain n m where n: "v = lit ''v1''" "fs = [n, m]" "parse_canonical_decimal_u64 n = Some (cr_next_seq_num c)"
      and m: "parse_canonical_decimal_u64 m = Some (cr_consumed_records c)" "valid_cursor c"
    by (cases fs; cases "tl fs"; cases "tl (tl fs)")
      (auto simp: parse_sse_resume_cursor_def Let_def and_then_eq_Inr valid_cursor_def not_less word_le_nat_alt const_defs
        split: if_splits)
  have "event_id = lit ''v1'' @ concat (map (\<lambda>g. 44 # g) [n, m])"
    using join_split_on[OF v] n m by simp
  then show "valid_cursor c \<and> event_id = cursor_id c"
    using n(3) m by (simp add: cursor_id_def parse_canonical_decimal lit_def of_char_def)
next
  assume c: "valid_cursor c \<and> event_id = cursor_id c"
  then show "parse_sse_resume_cursor event_id = (Inr c :: ('u, 'j) client_error + _)"
    by (auto simp: parse_sse_resume_cursor_def split_cursor_id parse_canonical_decimal[THEN iffD2, OF refl] valid_cursor_def
        not_less word_less_nat_alt word_le_nat_alt const_defs)
qed

text \<open>The parser accepts exactly the documented form of an event id, \<open>v1,<next>,<consumed>\<close> in canonical decimals
  with a next sequence number in the safe range and a consumed count that does not exceed it, and
  returns the cursor written: each cursor has one id and each id one cursor.\<close>

theorem resume_cursor_roundtrip:
  "parse_sse_resume_cursor event_id = (Inr c :: ('u, 'j) client_error + _) \<longleftrightarrow> valid_cursor c \<and> event_id = cursor_id c"
  by (rule parse_sse_resume_cursor_Inr)

lemma sse_resume_cursor_Inr:
  "sse_resume_cursor event = (Inr (event_id, c) :: ('u, 'j) client_error + _) \<longleftrightarrow> ev_id event = Some event_id \<and> valid_cursor c \<and> event_id = cursor_id c"
  by (auto simp: sse_resume_cursor_def and_then_eq_Inr parse_sse_resume_cursor_Inr split: option.splits)

text \<open>What the checks establish on well-formed batches, which never make them panic.\<close>

lemma validate_sse_read_batch_iff:
  assumes "wf_read_batch b"
  shows "validate_sse_read_batch b options = (Ok () :: (('u, 'j) client_error, unit) outcome) \<longleftrightarrow> stop_allows (ro_stop options) (batch_records b)"
    and "validate_sse_read_batch b options \<noteq> (Panic :: (('u, 'j) client_error, unit) outcome)"
proof -
  have stop: "read_batch_stop_violation b options = Ok None \<longleftrightarrow> stop_allows (ro_stop options) (batch_records b)"
      "\<exists>v. read_batch_stop_violation b options = Ok v"
    using wf_batch_count(1)[OF assms]
    by (auto simp: read_batch_stop_violation_def wf_batch_Ok[OF assms] stop_allows_def Let_def not_less not_le batch_records_simps
        word_less_nat_alt word_le_nat_alt split: option.splits bool.splits)
  then show "validate_sse_read_batch b options = (Ok () :: (('u, 'j) client_error, unit) outcome) \<longleftrightarrow> stop_allows (ro_stop options) (batch_records b)"
    and "validate_sse_read_batch b options \<noteq> (Panic :: (('u, 'j) client_error, unit) outcome)"
    by (auto simp: validate_sse_read_batch_def split: option.splits)
qed

lemma validate_sse_read_batch_cursor_iff:
  assumes wf: "wf_read_batch b"
  shows "validate_sse_read_batch_cursor b c previous options = (Ok () :: (('u, 'j) client_error, unit) outcome) \<longleftrightarrow>
      rr_seq_num (last (batch_records b)) \<noteq> - 1 \<and> cr_next_seq_num c = rr_seq_num (last (batch_records b)) + 1
      \<and> (case previous of
           None \<Rightarrow> start_allows (ro_start options) (hd (batch_records b)) \<and> unat (cr_consumed_records c) = record_count b
         | Some p \<Rightarrow> rr_seq_num (hd (batch_records b)) = cr_next_seq_num p
             \<and> unat (cr_consumed_records c) = unat (cr_consumed_records p) + record_count b)"
    and "validate_sse_read_batch_cursor b c previous options \<noteq> (Panic :: (('u, 'j) client_error, unit) outcome)"
proof -
  have start: "read_batch_start_violation b (ro_start options) = Ok None \<longleftrightarrow> start_allows (ro_start options) (hd (batch_records b))"
      "\<exists>v. read_batch_start_violation b (ro_start options) = Ok v"
    by (auto simp: read_batch_start_violation_def wf_batch_Ok[OF wf] start_allows_def not_less split: option.splits read_start.splits)
  have consumed: "checked_add n (of_nat (record_count b)) = Some (cr_consumed_records c)
      \<longleftrightarrow> unat (cr_consumed_records c) = unat n + record_count b" for n :: u64
    using wf_batch_count(1)[OF wf] unat_lt[of "cr_consumed_records c"]
    by (auto simp: checked_add_def word_unat_eq_iff unat_word_ariths)
  show "validate_sse_read_batch_cursor b c previous options = (Ok () :: (('u, 'j) client_error, unit) outcome) \<longleftrightarrow>
      rr_seq_num (last (batch_records b)) \<noteq> - 1 \<and> cr_next_seq_num c = rr_seq_num (last (batch_records b)) + 1
      \<and> (case previous of
           None \<Rightarrow> start_allows (ro_start options) (hd (batch_records b)) \<and> unat (cr_consumed_records c) = record_count b
         | Some p \<Rightarrow> rr_seq_num (hd (batch_records b)) = cr_next_seq_num p
             \<and> unat (cr_consumed_records c) = unat (cr_consumed_records p) + record_count b)"
    using start consumed[of 0] consumed[of "cr_consumed_records (the previous)"]
    by (auto simp: validate_sse_read_batch_cursor_def wf_batch_Ok[OF wf] checked_add_1 split: option.splits if_splits)
  show "validate_sse_read_batch_cursor b c previous options \<noteq> (Panic :: (('u, 'j) client_error, unit) outcome)"
    using start(2) by (auto simp: validate_sse_read_batch_cursor_def wf_batch_Ok[OF wf] split: option.splits)
qed

lemma validate_sse_caught_up_cursor_Inr:
  "validate_sse_caught_up_cursor caught_up c previous options = (Inr u :: ('u, 'j) client_error + unit) \<longleftrightarrow>
     cr_next_seq_num c = cu_next_seq_num caught_up
     \<and> (case previous of
          Some p \<Rightarrow> c = p
        | None \<Rightarrow> cr_consumed_records c = 0 \<and> (\<forall>v. ro_start options = Some (SeqNum v) \<longrightarrow> cr_next_seq_num c = v))"
  by (auto simp: validate_sse_caught_up_cursor_def and_then_eq_Inr split: option.splits read_start.splits if_splits)

end
