(* ===== verification/RestClient.thy ===== *)
theory RestClient
  imports ReadSocket JsonRecords
begin

text \<open>
  The REST operations of \<open>TsfClient\<close> on streams and links (\<open>rust/src/client.rs\<close>): requests, bounded
  response bodies, errors, and the retried calls. The server is a function of a request
  and a state \<open>'s\<close>: what the HTTP library reports for the request, and the next state. The JSON
  parsers of the response types are parameters, as are base64url encoding and the display of
  a stream id. A request body is the value serialized, \<open>'b\<close> for the requests that only their derives
  look at.
\<close>

section \<open>Data\<close>

record api_error =
  ae_code :: rstr
  ae_message :: rstr
  ae_request_id :: rstr
  ae_retry_after_ms :: "u64 option"
  ae_actual_next_seq_num :: "u64 option"

text \<open>A response: its status, the two headers the code reads, the declared length and the chunks of the body.\<close>

record http_response =
  hr_status :: u16
  hr_request_id :: "bytes option"
  hr_retry_after :: "bytes option"
  hr_content_length :: "u64 option"
  hr_chunks :: "(reqwest_error + bytes) list"

record append_json_record =
  aj_part :: "rest_record_part option"
  aj_payload :: json_record_payload

record append_writer =
  aw_id :: rstr
  aw_seq_num :: u64

record append_records_request =
  arq_writer :: "append_writer option"
  arq_records :: "append_json_record list"
  arq_expected_next_seq_num :: "u64 option"

datatype 'b request_body = NoBody | AppendBody append_records_request | JsonBody 'b

datatype idempotency_key = IdempotencyKey (expose_key: rstr)

record 'b http_request =
  hq_method :: string
  hq_url :: url
  hq_idempotency_key :: "rstr option"
  hq_bearer :: "link_secret option"
  hq_body :: "'b request_body"

record ('i, 'b, 's) rest_client =
  tc_config :: client_config
  tc_jitter :: "duration \<Rightarrow> duration"
  tc_show_id :: "'i \<Rightarrow> rstr"
  tc_parse_error :: "bytes \<Rightarrow> api_error option"
  tc_server :: "'b http_request \<Rightarrow> 's \<Rightarrow> (reqwest_error + http_response) \<times> 's"

section \<open>Strings\<close>

text \<open>UTF-8 encoding, and \<open>str::trim\<close> on the encoded string.\<close>

definition utf8_encode :: "nat \<Rightarrow> bytes" where
  "utf8_encode c =
     (if c < 0x80 then [of_nat c]
      else if c < 0x800 then [of_nat (0xC0 + c div 64), of_nat (0x80 + c mod 64)]
      else if c < 0x10000 then [of_nat (0xE0 + c div 4096), of_nat (0x80 + c div 64 mod 64), of_nat (0x80 + c mod 64)]
      else [of_nat (0xF0 + c div 262144), of_nat (0x80 + c div 4096 mod 64), of_nat (0x80 + c div 64 mod 64),
            of_nat (0x80 + c mod 64)])"

definition trim_str :: "rstr \<Rightarrow> rstr" where
  "trim_str s = concat (map utf8_encode (trim (chars s)))"

text \<open>\<open>HeaderValue::to_str\<close> accepts visible ASCII and tabs.\<close>

definition header_to_str :: "bytes \<Rightarrow> rstr option" where
  "header_to_str value = (if list_all (\<lambda>b. in_range 32 126 b \<or> b = 9) value then Some value else None)"

definition non_empty :: "rstr \<Rightarrow> rstr option" where
  "non_empty s = (if s = [] then None else Some s)"

definition parse_retry_after :: "rstr \<Rightarrow> duration option" where
  "parse_retry_after value = map_option (\<lambda>secs. unat secs * 1000000000) (parse_u64 (trim_str value))"

definition api_error_message :: "api_error \<Rightarrow> rstr option" where
  "api_error_message error =
     (let code = trim_str (ae_code error); message = trim_str (ae_message error) in
      if code = [] \<and> message = [] then None
      else if code = [] then Some message
      else if message = [] then Some code
      else Some (code @ lit '': '' @ message))"

section \<open>Responses\<close>

definition is_success :: "u16 \<Rightarrow> bool" where
  "is_success status \<longleftrightarrow> 200 \<le> status \<and> status < 300"

fun body_loop :: "string \<Rightarrow> nat \<Rightarrow> bytes \<Rightarrow> (reqwest_error + bytes) list \<Rightarrow> ('u, 'j) client_error + bytes" where
  "body_loop operation maximum body [] = Inr body"
| "body_loop operation maximum body (Inl error # rest) = Inl (HttpError error)"
| "body_loop operation maximum body (Inr chunk # rest) =
     (if length chunk > maximum - length body then Inl (ResponseTooLarge operation maximum)
      else body_loop operation maximum (body @ chunk) rest)"

definition bounded_response_body :: "http_response \<Rightarrow> string \<Rightarrow> nat \<Rightarrow> ('u, 'j) client_error + bytes" where
  "bounded_response_body response operation maximum =
     (if (case hr_content_length response of Some n \<Rightarrow> n > of_nat maximum | None \<Rightarrow> False)
      then Inl (ResponseTooLarge operation maximum)
      else body_loop operation maximum [] (hr_chunks response))"

definition or_else :: "'a option \<Rightarrow> 'a option \<Rightarrow> 'a option" where
  "or_else a b = (case a of Some x \<Rightarrow> Some x | None \<Rightarrow> b)"

definition http_status_error :: "(bytes \<Rightarrow> api_error option) \<Rightarrow> http_response \<Rightarrow> string \<Rightarrow> ('u, 'j) client_error" where
  "http_status_error parse_error response operation =
     (let header_request_id = Option.bind (Option.bind (hr_request_id response) header_to_str) (non_empty \<circ> trim_str);
          header_retry_after = Option.bind (Option.bind (hr_retry_after response) header_to_str) parse_retry_after;
          raw = (case bounded_response_body response operation MAX_REST_ERROR_RESPONSE_BYTES :: (unit, unit) client_error + bytes of
              Inr body \<Rightarrow> body | Inl _ \<Rightarrow> []);
          parsed = parse_error raw;
          rid = or_else header_request_id (Option.bind parsed (non_empty \<circ> trim_str \<circ> ae_request_id));
          ra = or_else header_retry_after (map_option (\<lambda>ms. millis (unat ms)) (Option.bind parsed ae_retry_after_ms));
          next_seq_num = Option.bind parsed ae_actual_next_seq_num;
          code = Option.bind parsed (non_empty \<circ> ae_code) in
      if code = Some (lit ''sequence_mismatch'') then SequenceMismatch next_seq_num rid ra
      else let body = (case Option.bind parsed api_error_message of
               Some message \<Rightarrow> message
             | None \<Rightarrow> (case from_utf8 raw of Some text \<Rightarrow> text | None \<Rightarrow> [])) in
           HttpStatus operation (hr_status response) body code rid ra next_seq_num)"

definition json_response :: "(bytes \<Rightarrow> api_error option) \<Rightarrow> (bytes \<Rightarrow> 'j + 'r) \<Rightarrow> http_response \<Rightarrow> string
    \<Rightarrow> ('u, 'j) client_error + 'r" where
  "json_response parse_error parse response operation =
     (if \<not> is_success (hr_status response) then Inl (http_status_error parse_error response operation)
      else and_then (bounded_response_body response operation MAX_REST_RESPONSE_BYTES) (\<lambda>body.
           map_err JsonError (parse body)))"

section \<open>Sending\<close>

definition send_request :: "('i, 'b, 's) rest_client \<Rightarrow> 'b http_request \<Rightarrow> link_secret option \<Rightarrow> 's
    \<Rightarrow> ((url, 'j) client_error + http_response) \<times> 's" where
  "send_request client request link_secret s =
     (case tc_server client (request\<lparr> hq_bearer := link_secret \<rparr>) s of (r, s) \<Rightarrow> (map_err HttpError r, s))"

definition send_json_with_bearer :: "('i, 'b, 's) rest_client \<Rightarrow> (bytes \<Rightarrow> 'j + 'r) \<Rightarrow> 'b http_request \<Rightarrow> string
    \<Rightarrow> link_secret option \<Rightarrow> 's \<Rightarrow> ((url, 'j) client_error + 'r) \<times> 's" where
  "send_json_with_bearer client parse request operation link_secret s =
     (case send_request client request link_secret s of (r, s) \<Rightarrow>
        (and_then r (\<lambda>response. json_response (tc_parse_error client) parse response operation), s))"

definition send_empty :: "('i, 'b, 's) rest_client \<Rightarrow> 'b http_request \<Rightarrow> string \<Rightarrow> link_secret option \<Rightarrow> 's
    \<Rightarrow> ((url, 'j) client_error + unit) \<times> 's" where
  "send_empty client request operation link_secret s =
     (case send_request client request link_secret s of (r, s) \<Rightarrow>
        (and_then r (\<lambda>response. if hr_status response = 204 then Inr ()
           else Inl (http_status_error (tc_parse_error client) response operation)), s))"

section \<open>Operations\<close>

definition plain_request :: "string \<Rightarrow> url \<Rightarrow> 'b request_body \<Rightarrow> 'b http_request" where
  "plain_request meth url body = \<lparr> hq_method = meth, hq_url = url, hq_idempotency_key = None, hq_bearer = None, hq_body = body \<rparr>"

definition stream_url :: "('i, 'b, 's) rest_client \<Rightarrow> 'i \<Rightarrow> rstr \<Rightarrow> url" where
  "stream_url client stream_id rest = rest_url (tc_config client) (lit ''/streams/'' @ tc_show_id client stream_id @ rest)"

type_synonym ('j, 'r, 's) rest_result = "((url, 'j) client_error, 'r) outcome \<times> 's \<times> duration list"

text \<open>\<open>entropy\<close> is what the random generator fills the 32 bytes with.\<close>

definition idempotency_key_new_random :: "(bytes \<Rightarrow> rstr) \<Rightarrow> bytes \<Rightarrow> idempotency_key" where
  "idempotency_key_new_random enc entropy = IdempotencyKey (enc entropy)"

datatype invalid_idempotency_key = InvalidIdempotencyKey

definition idempotency_key_from_str :: "base64_decoder \<Rightarrow> rstr \<Rightarrow> invalid_idempotency_key + idempotency_key" where
  "idempotency_key_from_str dec value =
     (if is_canonical_base64url_32 dec value then Inr (IdempotencyKey value) else Inl InvalidIdempotencyKey)"

definition create_stream_request :: "('i, 'b, 's) rest_client \<Rightarrow> 'b \<Rightarrow> idempotency_key \<Rightarrow> 'b http_request" where
  "create_stream_request client request key =
     (plain_request ''POST'' (rest_url (tc_config client) (lit ''/streams'')) (JsonBody request))
       \<lparr> hq_idempotency_key := Some (expose_key key) \<rparr>"

definition create_stream_with_idempotency_key :: "('i, 'b, 's) rest_client \<Rightarrow> (bytes \<Rightarrow> 'j + 'r) \<Rightarrow> 'b \<Rightarrow> idempotency_key \<Rightarrow> 's
    \<Rightarrow> ('j, 'r, 's) rest_result" where
  "create_stream_with_idempotency_key client parse request key s =
     retry_when (tc_config client) (tc_jitter client)
       (send_json_with_bearer client parse (create_stream_request client request key) ''create stream'' None)
       is_recoverable_create_failure s"

definition create_stream :: "('i, 'b, 's) rest_client \<Rightarrow> (bytes \<Rightarrow> rstr) \<Rightarrow> bytes \<Rightarrow> (bytes \<Rightarrow> 'j + 'r) \<Rightarrow> 'b \<Rightarrow> 's
    \<Rightarrow> ('j, 'r, 's) rest_result" where
  "create_stream client enc entropy parse request s =
     create_stream_with_idempotency_key client parse request (idempotency_key_new_random enc entropy) s"

definition get_stream :: "('i, 'b, 's) rest_client \<Rightarrow> (bytes \<Rightarrow> 'j + 'r) \<Rightarrow> 'i \<Rightarrow> link_secret option \<Rightarrow> 's \<Rightarrow> ('j, 'r, 's) rest_result" where
  "get_stream client parse stream_id link_secret s =
     retry_transient (tc_config client) (tc_jitter client)
       (send_json_with_bearer client parse (plain_request ''GET'' (stream_url client stream_id []) NoBody) ''get stream'' link_secret) s"

definition update_stream :: "('i, 'b, 's) rest_client \<Rightarrow> (bytes \<Rightarrow> 'j + 'r) \<Rightarrow> 'i \<Rightarrow> 'b \<Rightarrow> link_secret \<Rightarrow> 's \<Rightarrow> ('j, 'r, 's) rest_result" where
  "update_stream client parse stream_id request owner s =
     retry_transient (tc_config client) (tc_jitter client)
       (send_json_with_bearer client parse (plain_request ''PATCH'' (stream_url client stream_id []) (JsonBody request))
          ''update stream'' (Some owner)) s"

definition delete_stream :: "('i, 'b, 's) rest_client \<Rightarrow> 'i \<Rightarrow> link_secret \<Rightarrow> 's \<Rightarrow> ('j, unit, 's) rest_result" where
  "delete_stream client stream_id owner s =
     retry_transient (tc_config client) (tc_jitter client)
       (send_empty client (plain_request ''DELETE'' (stream_url client stream_id []) NoBody) ''delete stream'' (Some owner)) s"

definition link_url :: "('i, 'b, 's) rest_client \<Rightarrow> 'i \<Rightarrow> link_id \<Rightarrow> url" where
  "link_url client stream_id link_id = stream_url client stream_id (lit ''/links/'' @ link_id_str link_id)"

definition create_link_request :: "('i, 'b, 's) rest_client \<Rightarrow> 'i \<Rightarrow> link_id \<Rightarrow> 'b \<Rightarrow> idempotency_key \<Rightarrow> 'b http_request" where
  "create_link_request client stream_id link_id request key =
     (plain_request ''PUT'' (link_url client stream_id link_id) (JsonBody request))
       \<lparr> hq_idempotency_key := Some (expose_key key) \<rparr>"

definition create_link_with_idempotency_key :: "('i, 'b, 's) rest_client \<Rightarrow> (bytes \<Rightarrow> 'j + 'r) \<Rightarrow> 'i \<Rightarrow> link_id \<Rightarrow> 'b
    \<Rightarrow> idempotency_key \<Rightarrow> link_secret \<Rightarrow> 's \<Rightarrow> ('j, 'r, 's) rest_result" where
  "create_link_with_idempotency_key client parse stream_id link_id request key owner s =
     retry_when (tc_config client) (tc_jitter client)
       (send_json_with_bearer client parse (create_link_request client stream_id link_id request key) ''create link'' (Some owner))
       is_recoverable_create_failure s"

definition create_link :: "('i, 'b, 's) rest_client \<Rightarrow> (bytes \<Rightarrow> rstr) \<Rightarrow> bytes \<Rightarrow> (bytes \<Rightarrow> 'j + 'r) \<Rightarrow> 'i \<Rightarrow> link_id \<Rightarrow> 'b
    \<Rightarrow> link_secret \<Rightarrow> 's \<Rightarrow> ('j, 'r, 's) rest_result" where
  "create_link client enc entropy parse stream_id link_id request owner s =
     create_link_with_idempotency_key client parse stream_id link_id request (idempotency_key_new_random enc entropy) owner s"

definition revoke_link :: "('i, 'b, 's) rest_client \<Rightarrow> 'i \<Rightarrow> link_id \<Rightarrow> link_secret \<Rightarrow> 's \<Rightarrow> ('j, unit, 's) rest_result" where
  "revoke_link client stream_id link_id owner s =
     retry_transient (tc_config client) (tc_jitter client)
       (send_empty client (plain_request ''DELETE'' (link_url client stream_id link_id) NoBody) ''revoke link'' (Some owner)) s"

section \<open>Bodies\<close>

text \<open>A body that is read is the concatenation of its chunks and within the bound; however long the server
  keeps sending, the loop stops at the chunk that would exceed it.\<close>

lemma body_loop_Inr:
  "length body \<le> maximum \<Longrightarrow> body_loop operation maximum body chunks = (Inr b :: ('u, 'j) client_error + bytes)
    \<longleftrightarrow> (\<exists>bs. chunks = map Inr bs \<and> b = body @ concat bs \<and> length b \<le> maximum)"
proof (induction chunks arbitrary: body)
  case Nil
  then show ?case by auto
next
  case (Cons c chunks)
  show ?case
  proof (cases c)
    case (Inl e)
    then show ?thesis by auto
  next
    case (Inr chunk)
    then show ?thesis
      using Cons.IH[of "body @ chunk"] Cons.prems by (auto simp: Cons_eq_map_conv not_less)
  qed
qed

lemma bounded_response_body_Inr:
  "bounded_response_body response operation maximum = (Inr b :: ('u, 'j) client_error + bytes)
    \<longleftrightarrow> (case hr_content_length response of Some n \<Rightarrow> n \<le> of_nat maximum | None \<Rightarrow> True)
      \<and> (\<exists>bs. hr_chunks response = map Inr bs \<and> b = concat bs \<and> length b \<le> maximum)"
proof -
  have loop: "body_loop operation maximum [] (hr_chunks response) = (Inr b :: ('u, 'j) client_error + bytes)
      \<longleftrightarrow> (\<exists>bs. hr_chunks response = map Inr bs \<and> b = concat bs \<and> length b \<le> maximum)"
    by (subst body_loop_Inr) simp_all
  show ?thesis
    unfolding bounded_response_body_def loop[symmetric] by (cases "hr_content_length response") (auto simp: not_less dest: leD)
qed

lemma json_response_Inr_success: "json_response parse_error parse response operation = Inr v \<Longrightarrow> is_success (hr_status response)"
  by (auto simp: json_response_def split: if_splits)

section \<open>Retried calls\<close>

lemma retry_loop_run:
  "retry_loop run should_retry backoff attempts ns s = (r, s', slept)
    \<Longrightarrow> \<exists>k \<le> length ns. s' = attempt_state run s k \<and> (\<forall>v. r = Ok v \<longrightarrow> 0 < k \<and> attempt_result run s (k - 1) = Inr v)"
proof (induction ns arbitrary: s r s' slept)
  case Nil
  then show ?case by auto
next
  case (Cons n ns)
  obtain r1 s1 where run: "run s = (r1, s1)" by (cases "run s")
  obtain r2 s2 slept2 where rec: "retry_loop run should_retry backoff attempts ns s1 = (r2, s2, slept2)"
    by (cases "retry_loop run should_retry backoff attempts ns s1") auto
  obtain k where k: "k \<le> length ns" "s2 = attempt_state run s1 k" "\<forall>v. r2 = Ok v \<longrightarrow> 0 < k \<and> attempt_result run s1 (k - 1) = Inr v"
    using Cons.IH[OF rec] by auto
  consider "r = r2" "s' = s2" | "s' = s1" "\<forall>v. r = Ok v \<longrightarrow> r1 = Inr v"
  proof (cases r1)
    case (Inr v)
    then show thesis using Cons.prems run by (intro that(2)) auto
  next
    case (Inl e)
    show thesis
    proof (cases "n < attempts \<and> should_retry e")
      case True
      then show thesis using Cons.prems run rec Inl that(1) by (simp add: Let_def)
    next
      case False
      then have "(r, s', slept) = (Err e, s1, [])" using Cons.prems run Inl by (auto simp: if_P if_not_P split: if_splits)
      then show thesis by (intro that(2)) auto
    qed
  qed
  then show ?case
  proof cases
    case 1
    have "attempt_result run s k = Inr v" if "r2 = Ok v" for v
      using k(3) that run by (cases k) (auto simp: attempt_result_Suc)
    then show ?thesis
      using 1 k run by (intro exI[of _ "Suc k"]) (auto simp: attempt_state_Suc)
  next
    case 2
    then show ?thesis
      using run by (intro exI[of _ "Suc 0"]) (auto simp: attempt_state_Suc)
  qed
qed

lemma retry_when_first:
  "run s = (Inr v, s') \<Longrightarrow> 0 < cc_bounded_operation_attempts config \<Longrightarrow> retry_when config jitter run should_retry s = (Ok v, s', [])"
  by (simp add: retry_when_def Let_def upt_conv_Cons del: upt_Suc)

text \<open>What the documentation (\<open>docs/openapi.yaml\<close>, \<open>createStream\<close>) promises of a creation request, a POST to
  \<open>/streams\<close>, while the streams it created stay active. \<open>created s\<close> are the streams created so far, each with the
  key and the body of its request. A request either creates one more stream, or none: then it was refused, lost
  or its key was used before, and it succeeds only as the exact replay of a key and a body. A keyed
  request that was processed before creates nothing; one without a key is not recognised, so its retry creates another stream.\<close>

definition honours_keys :: "('i, 'b, 's) rest_client \<Rightarrow> ('s \<Rightarrow> (rstr option \<times> 'b request_body) list) \<Rightarrow> bool" where
  "honours_keys client created \<longleftrightarrow> (\<forall>request s r s'.
     hq_method request = ''POST'' \<longrightarrow> hq_url request = rest_url (tc_config client) (lit ''/streams'')
     \<longrightarrow> tc_server client request s = (r, s')
     \<longrightarrow> (created s' = created s
           \<and> (\<forall>response. r = Inr response \<longrightarrow> is_success (hr_status response)
                \<longrightarrow> hq_idempotency_key request \<noteq> None \<and> (hq_idempotency_key request, hq_body request) \<in> set (created s)))
       \<or> (created s' = created s @ [(hq_idempotency_key request, hq_body request)]
           \<and> (hq_idempotency_key request \<noteq> None \<longrightarrow> (hq_idempotency_key request, hq_body request) \<notin> set (created s))))"

text \<open>The effect of a request that is recognised: what it creates is there afterwards, once.\<close>

definition once_in :: "'a \<Rightarrow> 'a list \<Rightarrow> 'a list" where
  "once_in x xs = (if x \<in> set xs then xs else xs @ [x])"

lemma once_in_again: "once_in x (once_in x xs) = once_in x xs"
  by (simp add: once_in_def)

lemma keyed_creation:
  assumes "honours_keys client created" "hq_method request = ''POST''" "hq_url request = rest_url (tc_config client) (lit ''/streams'')"
    and key: "hq_idempotency_key request = Some key"
    and "send_json_with_bearer client parse request operation secret s = (r, s')"
  shows "created s' = once_in (Some key, hq_body request) (created s) \<or> (created s' = created s \<and> isl r)"
proof -
  let ?request = "request\<lparr> hq_bearer := secret \<rparr>"
  obtain r1 where send: "tc_server client ?request s = (r1, s')"
      "r = and_then (map_err HttpError r1) (\<lambda>response. json_response (tc_parse_error client) parse response operation)"
    using assms(5) by (auto simp: send_json_with_bearer_def send_request_def split: prod.splits)
  have "hq_method ?request = ''POST''" "hq_url ?request = rest_url (tc_config client) (lit ''/streams'')"
    using assms(2,3) by simp_all
  with assms(1) send(1) consider
      (same) "created s' = created s" "\<forall>response. r1 = Inr response \<longrightarrow> is_success (hr_status response)
          \<longrightarrow> (Some key, hq_body request) \<in> set (created s)"
    | (more) "created s' = created s @ [(Some key, hq_body request)]" "(Some key, hq_body request) \<notin> set (created s)"
    unfolding honours_keys_def using key by fastforce
  then show ?thesis
  proof cases
    case same
    then show ?thesis
      using send(2) by (cases r1) (auto simp: json_response_def once_in_def)
  next
    case more
    then show ?thesis by (simp add: once_in_def)
  qed
qed

lemma retried_once:
  assumes step: "\<And>s r s'. run s = (r, s') \<Longrightarrow> stored s' = effect (stored s) \<or> (stored s' = stored s \<and> isl r)"
    and idem: "\<And>a. effect (effect a) = effect a"
    and call: "retry_when config jitter run should_retry s = (r, s', slept)"
  shows "stored s' \<in> {stored s, effect (stored s)} \<and> (\<forall>v. r = Ok v \<longrightarrow> stored s' = effect (stored s))"
proof -
  have next_state: "run (attempt_state run s k) = (attempt_result run s k, attempt_state run s (Suc k))" for k
    by (simp add: attempt_state_def attempt_result_def)
  have state: "stored (attempt_state run s k) = stored s \<or> stored (attempt_state run s k) = effect (stored s)" for k
  proof (induction k)
    case (Suc k)
    then show ?case using step[OF next_state[of k]] idem[of "stored s"] by metis
  qed simp
  obtain k where k: "s' = attempt_state run s k" "\<forall>v. r = Ok v \<longrightarrow> 0 < k \<and> attempt_result run s (k - 1) = Inr v"
    using retry_loop_run[OF call[unfolded retry_when_def Let_def]] by auto
  have "stored s' = effect (stored s)" if "r = Ok v" for v
  proof -
    have "0 < k \<and> attempt_result run s (k - 1) = Inr v"
      using k(2) that by blast
    then obtain m where m: "k = Suc m" "attempt_result run s m = Inr v"
      by (cases k) simp_all
    then have "stored s' = effect (stored (attempt_state run s m))"
      using step[OF next_state[of m]] k(1) by simp
    then show ?thesis using state[of m] idem[of "stored s"] by metis
  qed
  then show ?thesis using state k(1) by auto
qed

text \<open>C37: A stream is created once: all attempts of one logical call send the same request under the same
  idempotency key, so whatever is lost on the way and however often the call retries, a service that honours the keys of
  creation requests as documented has created the streams it had, or these and one more under that key; after a
  success the one of the call is among them.\<close>

theorem create_stream_exactly_once:
  fixes parse :: "bytes \<Rightarrow> 'j + 'c"
  assumes "honours_keys client created"
    and "create_stream_with_idempotency_key client parse request key s = (r, s', slept)"
  shows "created s' \<in> {created s, created s @ [(Some (expose_key key), JsonBody request)]}
    \<and> (\<forall>v. r = Ok v \<longrightarrow> (Some (expose_key key), JsonBody request) \<in> set (created s'))"
proof -
  let ?entry = "(Some (expose_key key), JsonBody request)"
  have step: "created s' = once_in ?entry (created s) \<or> (created s' = created s \<and> isl r)"
    if "send_json_with_bearer client parse (create_stream_request client request key) ''create stream'' None s = (r, s')"
    for s s' and r :: "(url, 'j) client_error + 'c"
    using keyed_creation[OF assms(1) _ _ _ that, of "expose_key key"] by (simp add: create_stream_request_def plain_request_def)
  have "created s' \<in> {created s, once_in ?entry (created s)} \<and> (\<forall>v. r = Ok v \<longrightarrow> created s' = once_in ?entry (created s))"
  proof (rule retried_once[where effect = "once_in ?entry" and stored = created])
    show "retry_when (tc_config client) (tc_jitter client)
       (send_json_with_bearer client parse (create_stream_request client request key) ''create stream'' None)
       is_recoverable_create_failure s = (r, s', slept)"
      using assms(2) unfolding create_stream_with_idempotency_key_def .
  qed (rule step, assumption, rule once_in_again)
  then show ?thesis by (auto simp: once_in_def split: if_splits)
qed

text \<open>A service that recognises the keys it has seen, whose first response is lost after processing.\<close>

definition sample_response :: "bytes \<Rightarrow> http_response" where
  "sample_response body = \<lparr> hr_status = 200, hr_request_id = None, hr_retry_after = None, hr_content_length = None, hr_chunks = [Inr body] \<rparr>"

definition sample_service :: "unit http_request \<Rightarrow> bool \<times> (rstr option \<times> unit request_body) list
    \<Rightarrow> (reqwest_error + http_response) \<times> bool \<times> (rstr option \<times> unit request_body) list" where
  "sample_service request s = (case s of (lose, streams) \<Rightarrow>
     (if lose then Inl \<lparr> is_timeout = True, is_connect = False, is_body = False, is_decode = False \<rparr> else Inr (sample_response []),
      False, (let stream = (hq_idempotency_key request, hq_body request) in
         if fst stream \<noteq> None \<and> stream \<in> set streams then streams else streams @ [stream])))"

definition sample_rest_client :: "(unit, unit, bool \<times> (rstr option \<times> unit request_body) list) rest_client" where
  "sample_rest_client = \<lparr> tc_config = sample_config, tc_jitter = id, tc_show_id = (\<lambda>_. []), tc_parse_error = (\<lambda>_. None),
     tc_server = sample_service \<rparr>"

definition sample_key :: idempotency_key where "sample_key = IdempotencyKey (lit ''key'')"

lemma sample_create:
  "create_stream_with_idempotency_key sample_rest_client (\<lambda>_. Inr () :: unit + unit) () sample_key (True, [])
    = (Ok (), (False, [(Some (lit ''key''), JsonBody ())]), [millis 200])"
proof -
  have upt: "[Suc 0..<4] = [Suc 0, 2, 3]"
    by (simp add: upt_rec)
  show ?thesis
    unfolding create_stream_with_idempotency_key_def retry_when_def Let_def
    by (simp add: sample_rest_client_def upt create_stream_request_def plain_request_def sample_service_def sample_key_def
        send_json_with_bearer_def send_request_def json_response_def is_success_def sample_response_def bounded_response_body_def
        is_recoverable_create_failure_def is_transient_transport_error_def reconnect_delay_def reconnect_backoff_doubles
        MAX_RETRY_BACKOFF_def millis_def const_defs)
qed

lemma sample_honours: "honours_keys sample_rest_client snd"
  by (auto simp: honours_keys_def sample_rest_client_def sample_service_def Let_def split: prod.splits if_splits)

lemma create_stream_exactly_once_witness:
  "create_stream_with_idempotency_key sample_rest_client (\<lambda>_. Inr () :: unit + unit) () sample_key (True, [])
    = (Ok (), (False, [(Some (lit ''key''), JsonBody ())]), [millis 200])
   \<and> (Some (lit ''key''), JsonBody ()) \<in> set (snd (False, [(Some (lit ''key''), JsonBody ())]))"
  using create_stream_exactly_once[OF sample_honours sample_create] sample_create by (simp add: sample_key_def)

end
