(* ===== verification/SseSession.thy ===== *)
theory SseSession
  imports SseCursor RestClient
begin

text \<open>
  The resumable event-stream reader, \<open>TsfSseReadSession\<close> of \<open>rust/src/client.rs\<close>: opening a connection with its
  handshake, the loop of \<open>next_batch\<close> over parsed events, and its reconnects from the last event. A
  connection attempt follows a script: whether the handshake times out, and the response. The JSON parsers
  of the event payloads and the base64url decoders are fields of the client.
\<close>

section \<open>Connections\<close>

record ('i, 'j) sse_client =
  ec_reader :: "('i, 'j) read_client"
  ec_parse_error :: "bytes \<Rightarrow> api_error option"
  ec_parse_batch :: "rstr \<Rightarrow> 'j + sse_read_record list"
  ec_parse_caught_up :: "rstr \<Rightarrow> 'j + caught_up_position"
  ec_decode_slice :: base64_decoder
  ec_decode_vec :: "rstr \<Rightarrow> bytes option"

record sse_request =
  sq_url :: url
  sq_link_secret :: "link_secret option"
  sq_finite :: bool

record sse_script =
  ss_elapsed :: bool
  ss_response :: "reqwest_error + http_response"

text \<open>The attempts to come, and what was asked: the URL, the credentials and the \<open>Last-Event-ID\<close>.\<close>

record sse_network =
  sn_attempts :: "sse_script list"
  sn_requests :: "(url \<times> link_secret option \<times> rstr option) list"

record 'i sse_connection =
  sc_body :: sse_body
  sc_parser :: sse_parser
  sc_stream_metadata :: "'i stream_metadata"
  sc_resume_event :: "sse_resume_event option"

definition no_connection :: reqwest_error where
  "no_connection = \<lparr> is_timeout = False, is_connect = True, is_body = False, is_decode = False \<rparr>"

definition next_sse_attempt :: "sse_request \<Rightarrow> sse_resume_event option \<Rightarrow> sse_network \<Rightarrow> sse_script \<times> sse_network" where
  "next_sse_attempt request last_event net =
     (let net = net\<lparr> sn_requests := sn_requests net @ [(sq_url request, sq_link_secret request, map_option fst last_event)] \<rparr> in
      case sn_attempts net of
        [] \<Rightarrow> (\<lparr> ss_elapsed = False, ss_response = Inl no_connection \<rparr>, net)
      | script # rest \<Rightarrow> (script, net\<lparr> sn_attempts := rest \<rparr>))"

definition sse_read_request :: "('i, 'j) sse_client \<Rightarrow> 'i read_options \<Rightarrow> sse_request" where
  "sse_read_request client options =
     (let url = rest_url (rc_config (ec_reader client))
            (lit ''/streams/'' @ rc_show_id (ec_reader client) (ro_stream_id options) @ lit ''/records'') in
      \<lparr> sq_url = append_read_query (rc_show_rate (ec_reader client)) url options, sq_link_secret = ro_link_secret options,
        sq_finite = (case ro_stop options of None \<Rightarrow> False
          | Some stop \<Rightarrow> stop_count stop \<noteq> None \<or> stop_until_timestamp_ms stop \<noteq> None \<or> stop_wait_seconds stop \<noteq> None) \<rparr>)"

definition open_sse_connection_once :: "('i, 'j) sse_client \<Rightarrow> reqwest_error + http_response
    \<Rightarrow> ('u, 'j) client_error + 'i sse_connection option" where
  "open_sse_connection_once client response =
     and_then (map_err HttpError response) (\<lambda>response.
     if hr_status response = 204 then Inr None
     else if \<not> is_success (hr_status response) then Inl (http_status_error (ec_parse_error client) response ''read SSE'')
     else case next_sse_event (hr_chunks response) sse_parser_default of
         (event, body, parser) \<Rightarrow>
           and_then event (\<lambda>event.
           and_then (ok_or (InvalidSse ''response ended before stream_metadata'') event) (\<lambda>event.
           if ev_event event \<noteq> lit ''stream_metadata'' then Inl (InvalidSse ''first event is not stream_metadata'')
           else and_then (map_err (\<lambda>_. InvalidSse ''invalid stream_metadata event'') (rc_from_json (ec_reader client) (ev_data event)))
             (\<lambda>metadata.
           and_then (if ev_id event \<noteq> None then and_then (sse_resume_cursor event) (\<lambda>resume. Inr (Some resume)) else Inr None)
             (\<lambda>resume_event.
           Inr (Some \<lparr> sc_body = body, sc_parser = parser, sc_stream_metadata = metadata, sc_resume_event = resume_event \<rparr>))))))"

definition open_sse_connection :: "('i, 'j) sse_client \<Rightarrow> sse_request \<Rightarrow> sse_resume_event option \<Rightarrow> sse_network
    \<Rightarrow> ((url, 'j) client_error, 'i sse_connection option) outcome \<times> sse_network" where
  "open_sse_connection client request last_event net =
     (case retry_transient (rc_config (ec_reader client)) (rc_jitter (ec_reader client))
        (\<lambda>net. case next_sse_attempt request last_event net of (script, net) \<Rightarrow>
           (with_timeout (ss_elapsed script) ''SSE handshake'' (open_sse_connection_once client (ss_response script)), net)) net of
      (result, net, _) \<Rightarrow> (result, net))"

section \<open>The session\<close>

record 'i sse_session =
  se_options :: "'i read_options"
  se_request :: sse_request
  se_body :: sse_body
  se_parser :: sse_parser
  se_stream_metadata :: "'i stream_metadata"
  se_last_caught_up :: "caught_up_position option"
  se_reconnects :: bounded_reconnects
  se_last_event :: "sse_resume_event option"
  se_finished :: bool

definition connect_sse_reader :: "('i, 'j) sse_client \<Rightarrow> 'i read_options \<Rightarrow> sse_network
    \<Rightarrow> ((url, 'j) client_error, 'i sse_session) outcome \<times> sse_network" where
  "connect_sse_reader client options net =
     (case validate_read_options options of
        Inl e \<Rightarrow> (Err e, net)
      | Inr _ \<Rightarrow>
          (let request = sse_read_request client options in
           case open_sse_connection client request None net of
             (Ok None, net) \<Rightarrow> (Err (InvalidSse ''initial read completed without stream_metadata''), net)
           | (Ok (Some connection), net) \<Rightarrow>
               (case validate_read_stream_metadata (ro_stream_id options) None (sc_stream_metadata connection) of
                  Inl e \<Rightarrow> (Err e, net)
                | Inr _ \<Rightarrow>
                    (Ok \<lparr> se_options = options, se_request = request, se_body = sc_body connection, se_parser = sc_parser connection,
                       se_stream_metadata = sc_stream_metadata connection, se_last_caught_up = None,
                       se_reconnects = bounded_reconnects_new (cc_bounded_operation_attempts (rc_config (ec_reader client))),
                       se_last_event = sc_resume_event connection, se_finished = False \<rparr>, net))
           | (Err e, net) \<Rightarrow> (Err e, net)
           | (Panic, net) \<Rightarrow> (Panic, net)))"

text \<open>Without an event: the interruption is over once a connection is open again.\<close>

definition sse_reconnect :: "('i, 'j) sse_client \<Rightarrow> sse_network \<Rightarrow> 'i sse_session
    \<Rightarrow> 'j read_result option \<times> sse_network \<times> 'i sse_session" where
  "sse_reconnect client net session =
     (case next_delay (rc_jitter (ec_reader client)) (se_reconnects session) of
        (Inl e, b) \<Rightarrow> (Some (Err e), net, session\<lparr> se_reconnects := b \<rparr>)
      | (Inr _, b) \<Rightarrow>
          (let session = session\<lparr> se_reconnects := b \<rparr> in
           case open_sse_connection client (se_request session) (se_last_event session) net of
             (Ok None, net) \<Rightarrow> (Some (Ok None), net, session\<lparr> se_finished := True \<rparr>)
           | (Ok (Some connection), net) \<Rightarrow>
               (case validate_read_stream_metadata (ro_stream_id (se_options session)) (Some (sm_kind (se_stream_metadata session)))
                   (sc_stream_metadata connection) of
                  Inl e \<Rightarrow> (Some (Err e), net, session)
                | Inr _ \<Rightarrow>
                    (None, net, session\<lparr>
                       se_last_event := (if sc_resume_event connection \<noteq> None then sc_resume_event connection else se_last_event session),
                       se_body := sc_body connection, se_parser := sc_parser connection,
                       se_stream_metadata := sc_stream_metadata connection \<rparr>))
           | (Err e, net) \<Rightarrow> (Some (Err e), net, session)
           | (Panic, net) \<Rightarrow> (Some Panic, net, session)))"

definition sse_batch_event :: "('i, 'j) sse_client \<Rightarrow> sse_event \<Rightarrow> 'i sse_session \<Rightarrow> 'j read_result option \<times> 'i sse_session" where
  "sse_batch_event client event session =
     (case and_then (map_err (\<lambda>_. InvalidSse ''invalid read_batch event'') (ec_parse_batch client (ev_data event)))
         (sse_read_batch (ec_decode_slice client) (ec_decode_vec client)) of
        Inl e \<Rightarrow> (Some (Err e), session)
      | Inr batch \<Rightarrow>
          (case validate_sse_read_batch batch (se_options session) of
             Err e \<Rightarrow> (Some (Err e), session)
           | Panic \<Rightarrow> (Some Panic, session)
           | Ok _ \<Rightarrow>
               (case sse_resume_cursor event of
                  Inl e \<Rightarrow> (Some (Err e), session)
                | Inr (event_id, cursor) \<Rightarrow>
                    (case validate_sse_read_batch_cursor batch cursor (map_option snd (se_last_event session)) (se_options session) of
                       Err e \<Rightarrow> (Some (Err e), session)
                     | Panic \<Rightarrow> (Some Panic, session)
                     | Ok _ \<Rightarrow>
                         (case advance_read_options_for_batch (se_options session) batch of
                            Ok (finished, options) \<Rightarrow>
                              (Some (Ok (Some batch)), session\<lparr> se_last_event := Some (event_id, cursor),
                                 se_reconnects := reconnects_reset (se_reconnects session),
                                 se_options := options, se_finished := finished \<rparr>)
                          | _ \<Rightarrow> (Some Panic, session))))))"

definition sse_caught_up_event :: "('i, 'j) sse_client \<Rightarrow> sse_event \<Rightarrow> 'i sse_session \<Rightarrow> 'j read_result option \<times> 'i sse_session" where
  "sse_caught_up_event client event session =
     (case and_then (map_err (\<lambda>_. InvalidSse ''invalid caught_up event'') (ec_parse_caught_up client (ev_data event))) (\<lambda>caught_up.
         and_then (sse_resume_cursor event) (\<lambda>(event_id, cursor).
         and_then (validate_sse_caught_up_cursor caught_up cursor (map_option snd (se_last_event session)) (se_options session)) (\<lambda>_.
         Inr (caught_up, event_id, cursor)))) of
        Inl e \<Rightarrow> (Some (Err e), session)
      | Inr (caught_up, event_id, cursor) \<Rightarrow>
          (None, session\<lparr> se_last_event := Some (event_id, cursor),
             se_options := (se_options session)\<lparr> ro_start := Some (SeqNum (cu_next_seq_num caught_up)) \<rparr>,
             se_last_caught_up := Some caught_up, se_reconnects := reconnects_reset (se_reconnects session) \<rparr>))"

definition sse_metadata_event :: "('i, 'j) sse_client \<Rightarrow> sse_event \<Rightarrow> 'i sse_session \<Rightarrow> 'j read_result option \<times> 'i sse_session" where
  "sse_metadata_event client event session =
     (case and_then (map_err (\<lambda>_. InvalidSse ''invalid stream_metadata event'') (rc_from_json (ec_reader client) (ev_data event)))
        (\<lambda>metadata. and_then (validate_read_stream_metadata (ro_stream_id (se_options session)) (Some (sm_kind (se_stream_metadata session))) metadata)
        (\<lambda>_. Inr metadata)) of
        Inl e \<Rightarrow> (Some (Err e), session)
      | Inr metadata \<Rightarrow> (None, session\<lparr> se_stream_metadata := metadata \<rparr>))"

definition sse_event_step :: "('i, 'j) sse_client \<Rightarrow> sse_event \<Rightarrow> 'i sse_session \<Rightarrow> 'j read_result option \<times> 'i sse_session" where
  "sse_event_step client event session =
     (if ev_event event = lit ''read_batch'' then sse_batch_event client event session
      else if ev_event event = lit ''caught_up'' then sse_caught_up_event client event session
      else if ev_event event = lit ''error'' then (Some (Err (SseTerminal (ev_data event))), session)
      else if ev_event event = lit ''stream_metadata'' then sse_metadata_event client event session
      else (None, session))"

text \<open>One round of the loop of \<open>next_batch\<close>.\<close>

definition sse_session_step :: "('i, 'j) sse_client \<Rightarrow> sse_network \<Rightarrow> 'i sse_session
    \<Rightarrow> 'j read_result option \<times> sse_network \<times> 'i sse_session" where
  "sse_session_step client net session =
     (if se_finished session \<or> read_options_exhausted (se_options session) then (Some (Ok None), net, session)
      else case next_sse_event (se_body session) (se_parser session) of
          (r, body, parser) \<Rightarrow>
            (let session = session\<lparr> se_body := body, se_parser := parser \<rparr> in
             case r of
               Inr (Some event) \<Rightarrow> (case sse_event_step client event session of (result, session) \<Rightarrow> (result, net, session))
             | Inr None \<Rightarrow>
                 if sq_finite (se_request session) then (Some (Ok None), net, session\<lparr> se_finished := True \<rparr>)
                 else sse_reconnect client net session
             | Inl error \<Rightarrow>
                 if is_resumable_sse_interruption error then sse_reconnect client net session
                 else (Some (Err error), net, session)))"

section \<open>Attempts\<close>

text \<open>The attempts of one call ask for the same thing and use up the scripts in order; a connection comes from the
  last of them.\<close>

lemma retry_when_not_Panic:
  "0 < cc_bounded_operation_attempts config \<Longrightarrow> fst (retry_when config jitter run should_retry s) \<noteq> Panic"
proof -
  assume "0 < cc_bounded_operation_attempts config"
  then obtain k where "retried_until run should_retry (Suc (cc_bounded_operation_attempts config - 1)) s k
      (retry_when config jitter run should_retry s)"
    using retry_loop_spec[of "reconnect_delay jitter" 1 "cc_bounded_operation_attempts config" run should_retry s]
    by (auto simp: retry_when_def Let_def)
  then show ?thesis
    by (auto simp: retried_until_def split: sum.splits)
qed

lemma open_sse_connection_spec:
  fixes client :: "('i, 'j) sse_client"
  assumes "open_sse_connection client request last_event net = (r, net')"
  shows "\<exists>k. net' = net\<lparr> sn_attempts := drop k (sn_attempts net),
        sn_requests := sn_requests net @ replicate k (sq_url request, sq_link_secret request, map_option fst last_event) \<rparr>
      \<and> (\<forall>v. r = Ok v \<longrightarrow> 0 < k \<and> k \<le> length (sn_attempts net)
          \<and> open_sse_connection_once client (ss_response (sn_attempts net ! (k - 1))) = (Inr v :: (url, 'j) client_error + _))"
    and "0 < cc_bounded_operation_attempts (rc_config (ec_reader client)) \<Longrightarrow> r \<noteq> Panic"
proof -
  let ?asked = "(sq_url request, sq_link_secret request, map_option fst last_event)"
  let ?run = "\<lambda>net. case next_sse_attempt request last_event net of (script, net) \<Rightarrow>
      (with_timeout (ss_elapsed script) ''SSE handshake'' (open_sse_connection_once client (ss_response script)) :: (url, 'j) client_error + _, net)"
  obtain slept where call: "retry_transient (rc_config (ec_reader client)) (rc_jitter (ec_reader client)) ?run net = (r, net', slept)"
    using assms by (auto simp: open_sse_connection_def split: prod.splits)
  have state: "attempt_state ?run net k = net\<lparr> sn_attempts := drop k (sn_attempts net),
      sn_requests := sn_requests net @ replicate k ?asked \<rparr>" for k
  proof (induction k)
    case (Suc k)
    have "attempt_state ?run net (Suc k) = snd (?run (attempt_state ?run net k))"
      by (simp add: attempt_state_def)
    then show ?case
      unfolding Suc by (auto simp: next_sse_attempt_def Let_def replicate_append_same drop_Suc_Cons drop_Suc tl_drop
          split: list.splits dest: arg_cong[of "drop _ _" _ tl])
  qed simp
  obtain k where k: "net' = attempt_state ?run net k" "\<forall>v. r = Ok v \<longrightarrow> 0 < k \<and> attempt_result ?run net (k - 1) = Inr v"
    using retry_loop_run[OF call[unfolded retry_transient_def retry_when_def Let_def]] by (auto simp del: upt_Suc)
  have "k \<le> length (sn_attempts net)
      \<and> open_sse_connection_once client (ss_response (sn_attempts net ! (k - 1))) = (Inr v :: (url, 'j) client_error + _)" if "r = Ok v" for v
  proof -
    from k(2) that have "0 < k" "fst (?run (attempt_state ?run net (k - 1))) = Inr v"
      by (auto simp: attempt_result_def)
    then show ?thesis
    proof (cases "drop (k - 1) (sn_attempts net)")
      case Nil
      then show ?thesis
        using \<open>fst _ = Inr v\<close> unfolding state
        by (simp add: next_sse_attempt_def Let_def with_timeout_def open_sse_connection_once_def)
    next
      case (Cons script rest)
      then have "sn_attempts net ! (k - 1) = script" "k - 1 < length (sn_attempts net)"
        using nth_via_drop[OF Cons] by (auto simp: not_less dest: arg_cong[of _ _ length] intro!: leI)
      then show ?thesis
        using \<open>fst _ = Inr v\<close> \<open>0 < k\<close> unfolding state
        by (simp add: next_sse_attempt_def Let_def with_timeout_def Cons[simplified] split: if_splits)
    qed
  qed
  then show "\<exists>k. net' = net\<lparr> sn_attempts := drop k (sn_attempts net), sn_requests := sn_requests net @ replicate k ?asked \<rparr>
      \<and> (\<forall>v. r = Ok v \<longrightarrow> 0 < k \<and> k \<le> length (sn_attempts net)
          \<and> open_sse_connection_once client (ss_response (sn_attempts net ! (k - 1))) = (Inr v :: (url, 'j) client_error + _))"
    using k state by (intro exI[of _ k]) auto
  show "0 < cc_bounded_operation_attempts (rc_config (ec_reader client)) \<Longrightarrow> r \<noteq> Panic"
    using retry_when_not_Panic[of "rc_config (ec_reader client)" "rc_jitter (ec_reader client)" ?run is_retryable net] call
    by (simp add: retry_transient_def)
qed

section \<open>The loop\<close>

lemma next_event_consumes:
  fixes event :: sse_event
  shows "next_event p = (Inr (Some event) :: ('u, 'j) client_error + sse_event option, p') \<Longrightarrow>
    sp_tail_start p' - sp_offset p' < sp_tail_start p - sp_offset p"
proof (induction "sp_tail_start p - sp_offset p" arbitrary: p rule: less_induct)
  case less
  show ?case
  proof (cases "sse_boundary (slice (sp_buffer p) (sp_offset p) (sp_tail_start p))")
    case None
    then show ?thesis using less.prems by (subst (asm) next_event.simps) simp
  next
    case (Some found)
    obtain index len where found: "found = (index, len)" by (cases found)
    let ?p = "p\<lparr> sp_offset := sp_offset p + (index + len) \<rparr>"
    have fewer: "sp_tail_start ?p - sp_offset ?p < sp_tail_start p - sp_offset p"
      using sse_boundary_bounds[OF Some[unfolded found]] by (auto simp: slice_def)
    have unfold: "(next_event p :: (('u, 'j) client_error + sse_event option) \<times> sse_parser) =
        (case parse_sse_block (slice (sp_buffer p) (sp_offset p) (sp_offset p + index)) of
           Inl e \<Rightarrow> (Inl e, ?p) | Inr (Some ev) \<Rightarrow> (Inr (Some ev), ?p) | Inr None \<Rightarrow> next_event ?p)"
      using Some found by (subst next_event.simps) (simp add: Let_def)
    show ?thesis
      using less.prems less.hyps[OF fewer] fewer unfolding unfold
      by (auto split: sum.splits option.splits)
  qed
qed

lemma next_sse_event_consumes:
  fixes event :: sse_event
  shows "next_sse_event body p = (Inr (Some event) :: ('u, 'j) client_error + sse_event option, body', p') \<Longrightarrow>
    length body' < length body \<or> (body' = body \<and> sp_tail_start p' - sp_offset p' < sp_tail_start p - sp_offset p)"
proof (induction body arbitrary: p)
  case Nil
  obtain r q where first: "next_event p = (r :: ('u, 'j) client_error + sse_event option, q)"
    by (cases "next_event p :: (('u, 'j) client_error + sse_event option) \<times> sse_parser")
  then show ?case
    using Nil next_event_consumes[of p event q, where 'u = 'u and 'j = 'j]
    by (subst (asm) next_sse_event.simps) (auto split: sum.splits option.splits)
next
  case (Cons c rest)
  obtain r q where first: "next_event p = (r :: ('u, 'j) client_error + sse_event option, q)"
    by (cases "next_event p :: (('u, 'j) client_error + sse_event option) \<times> sse_parser")
  show ?case
  proof (cases "r = Inr None")
    case False
    then show ?thesis
      using Cons.prems first next_event_consumes[of p event q, where 'u = 'u and 'j = 'j]
      by (subst (asm) next_sse_event.simps) (auto split: sum.splits option.splits)
  next
    case True
    obtain chunk s q' where c: "c = Inr chunk" "sse_push chunk q = (Inr s :: ('u, 'j) client_error + unit, q')"
      using Cons.prems first True
      by (subst (asm) next_sse_event.simps) (auto split: sum.splits prod.splits)
    then have "next_sse_event rest q' = (Inr (Some event) :: ('u, 'j) client_error + sse_event option, body', p')"
      using Cons.prems first True by (subst (asm) next_sse_event.simps) simp
    then show ?thesis using Cons.IH by fastforce
  qed
qed

lemma sse_event_step_body:
  "sse_event_step client event session = (r, session') \<Longrightarrow>
    se_body session' = se_body session \<and> se_parser session' = se_parser session \<and> se_request session' = se_request session"
  by (auto simp: sse_event_step_def sse_batch_event_def sse_caught_up_event_def sse_metadata_event_def
      split: if_splits sum.splits outcome.splits prod.splits)

lemma sse_reconnect_continues:
  assumes "sse_reconnect client net session = (None, net', session')"
  shows "length (sn_attempts net') < length (sn_attempts net)"
proof -
  obtain r net1 where connect: "open_sse_connection client (se_request session) (se_last_event session) net = (r, net1)"
    by (cases "open_sse_connection client (se_request session) (se_last_event session) net")
  have "net' = net1" "\<exists>v. r = Ok v"
    using assms connect by (auto simp: sse_reconnect_def Let_def split: prod.splits sum.splits outcome.splits option.splits)
  then show ?thesis
    using open_sse_connection_spec(1)[OF connect] by auto
qed

lemma sse_session_step_continues:
  fixes client :: "('i, 'j) sse_client"
  assumes "sse_session_step client net session = (None, net', session')"
  shows "length (sn_attempts net') < length (sn_attempts net)
    \<or> (net' = net \<and> (length (se_body session') < length (se_body session)
        \<or> (se_body session' = se_body session
            \<and> sp_tail_start (se_parser session') - sp_offset (se_parser session') < sp_tail_start (se_parser session) - sp_offset (se_parser session))))"
proof -
  obtain r body parser where ev: "next_sse_event (se_body session) (se_parser session) = (r :: (url, 'j) client_error + sse_event option, body, parser)"
    by (cases "next_sse_event (se_body session) (se_parser session) :: ((url, 'j) client_error + sse_event option) \<times> sse_body \<times> sse_parser") auto
  let ?session = "session\<lparr> se_body := body, se_parser := parser \<rparr>"
  have running: "\<not> (se_finished session \<or> read_options_exhausted (se_options session))"
    using assms by (simp add: sse_session_step_def split: if_splits)
  note step = assms[unfolded sse_session_step_def if_not_P[OF running] ev Let_def prod.case]
  consider (again) "sse_reconnect client net ?session = (None, net', session')"
    | (event) e where "r = Inr (Some e)" "sse_event_step client e ?session = (None, session')" "net' = net"
  proof (cases r)
    case (Inl e)
    then show thesis using step that(1) by (simp split: if_splits)
  next
    case (Inr found)
    then show thesis
      using step that by (cases found) (auto split: if_splits prod.splits)
  qed
  then show ?thesis
  proof cases
    case again
    then show ?thesis using sse_reconnect_continues by blast
  next
    case event
    then show ?thesis
      using sse_event_step_body[OF event(2)] next_sse_event_consumes[OF ev[unfolded event(1)]] by auto
  qed
qed

function sse_next_batch :: "('i, 'j) sse_client \<Rightarrow> sse_network \<Rightarrow> 'i sse_session \<Rightarrow> 'j read_result \<times> sse_network \<times> 'i sse_session" where
  "sse_next_batch client net session = (case sse_session_step client net session of
       (Some result, net, session) \<Rightarrow> (result, net, session)
     | (None, net, session) \<Rightarrow> sse_next_batch client net session)"
  by pat_completeness auto
termination
  by (relation "measures [\<lambda>(_, net, _). length (sn_attempts net), \<lambda>(_, _, session). length (se_body session),
      \<lambda>(_, _, session). sp_tail_start (se_parser session) - sp_offset (se_parser session)]")
    (auto dest!: sym[of "(_, _)" "sse_session_step _ _ _"] dest: sse_session_step_continues)

declare sse_next_batch.simps [simp del]

section \<open>What one round does\<close>

text \<open>The connections whose handshake carries no cursor, as the protocol has it for reads that deliver records.\<close>

definition plain_handshake :: "('i, 'j) sse_client \<Rightarrow> sse_script \<Rightarrow> bool" where
  "plain_handshake client script \<longleftrightarrow>
     (case open_sse_connection_once client (ss_response script) :: (url, 'j) client_error + 'i sse_connection option of
        Inr (Some connection) \<Rightarrow> sc_resume_event connection = None
      | _ \<Rightarrow> True)"

definition sse_request_state :: "'i sse_session \<Rightarrow> 'i read_options \<times> bool" where
  "sse_request_state session = (se_options session, se_finished session \<or> read_options_exhausted (se_options session))"

text \<open>The cursor of the last event names the next record of the request.\<close>

definition cursor_follows :: "'i sse_session \<Rightarrow> bool" where
  "cursor_follows session \<longleftrightarrow> (case se_last_event session of
       None \<Rightarrow> True
     | Some (event_id, c) \<Rightarrow> event_id = cursor_id c \<and> ro_start (se_options session) = Some (SeqNum (cr_next_seq_num c)))"

text \<open>How the last event moves on: a batch counts its records, nothing else changes a cursor.\<close>

definition cursor_moves :: "sse_resume_event option \<Rightarrow> 'j read_result option \<Rightarrow> sse_resume_event option \<Rightarrow> bool" where
  "cursor_moves e r e' \<longleftrightarrow>
     (let consumed = (case e of None \<Rightarrow> 0 | Some (_, c) \<Rightarrow> unat (cr_consumed_records c)) in
      case r of
        Some (Ok (Some b)) \<Rightarrow> (\<exists>c. e' = Some (cursor_id c, c) \<and> unat (cr_consumed_records c) = consumed + length (batch_records b)
            \<and> cr_next_seq_num c = rr_seq_num (last (batch_records b)) + 1)
      | _ \<Rightarrow> e' = e \<or> (e = None \<and> (\<exists>c. e' = Some (cursor_id c, c) \<and> cr_consumed_records c = 0)))"

lemma sse_read_batch_wf: "sse_read_batch dec dec_vec batch = (Inr b :: ('u, 'j) client_error + _) \<Longrightarrow> wf_read_batch b"
  by (auto simp: sse_read_batch_def and_then_eq_Inr try_from_parts_Inr split: prod.splits)

lemma exhausted_seq:
  "ro_start options = Some (SeqNum v) \<Longrightarrow> read_options_exhausted options \<longleftrightarrow> stop_count (stop_or_default (ro_stop options)) = Some 0"
  by (auto simp: read_options_exhausted_def Let_def)

text \<open>A round that reports an error changes neither the request nor the cursor.\<close>

definition round_ok :: "'i sse_session \<Rightarrow> 'j read_result option \<Rightarrow> 'i sse_session \<Rightarrow> bool" where
  "round_ok session r session' \<longleftrightarrow> read_round (sse_request_state session) r (sse_request_state session')
     \<and> cursor_follows session' \<and> cursor_moves (se_last_event session) r (se_last_event session')"

lemma round_ok_error:
  assumes "cursor_follows session" "\<not> se_finished session" "\<not> read_options_exhausted (se_options session)"
    and "se_options session' = se_options session" "se_finished session' = se_finished session" "se_last_event session' = se_last_event session"
  shows "round_ok session (Some (Err e)) session'"
  using assms by (auto simp: round_ok_def sse_request_state_def cursor_follows_def cursor_moves_def split: option.splits)

lemma sse_batch_event_cases:
  fixes client :: "('i, 'j) sse_client"
  assumes "sse_batch_event client event session = (r, session')"
  obtains (error) e where "r = Some (Err e)" "session' = session"
    | (batch) b event_id c finished options where "wf_read_batch b" "stop_allows (ro_stop (se_options session)) (batch_records b)"
      "event_id = cursor_id c"
      "validate_sse_read_batch_cursor b c (map_option snd (se_last_event session)) (se_options session) = (Ok () :: ((url, 'j) client_error, unit) outcome)"
      "advance_read_options_for_batch (se_options session) b = Ok (finished, options)"
      "r = Some (Ok (Some b))" "session' = session\<lparr> se_last_event := Some (event_id, c),
         se_reconnects := reconnects_reset (se_reconnects session), se_options := options, se_finished := finished \<rparr>"
proof (cases "and_then (map_err (\<lambda>_. InvalidSse ''invalid read_batch event'') (ec_parse_batch client (ev_data event)))
         (sse_read_batch (ec_decode_slice client) (ec_decode_vec client)) :: (url, 'j) client_error + read_batch")
  case (Inl e)
  then show thesis using assms error[of e] by (auto simp: sse_batch_event_def)
next
  case (Inr b)
  then have wf: "wf_read_batch b"
    by (auto simp: and_then_eq_Inr dest: sse_read_batch_wf)
  note b = assms[unfolded sse_batch_event_def Inr sum.case]
  show thesis
  proof (cases "validate_sse_read_batch b (se_options session) :: ((url, 'j) client_error, unit) outcome")
    case Panic
    then show thesis using validate_sse_read_batch_iff(2)[OF wf, of "se_options session", where 'u = url and 'j = 'j] by simp
  next
    case (Err e)
    then show thesis using b error by auto
  next
    case (Ok u)
    then have stop: "stop_allows (ro_stop (se_options session)) (batch_records b)"
      using validate_sse_read_batch_iff(1)[OF wf, of "se_options session", where 'u = url and 'j = 'j] by simp
    note b = b[unfolded Ok outcome.case]
    show thesis
    proof (cases "sse_resume_cursor event :: (url, 'j) client_error + sse_resume_event")
      case (Inl e)
      then show thesis using b error by auto
    next
      case (Inr resume)
      obtain event_id c where resume: "resume = (event_id, c)" by (cases resume)
      then have event_id: "event_id = cursor_id c"
        using Inr sse_resume_cursor_Inr by blast
      note b = b[unfolded Inr resume sum.case prod.case]
      let ?check = "validate_sse_read_batch_cursor b c (map_option snd (se_last_event session)) (se_options session) :: ((url, 'j) client_error, unit) outcome"
      show thesis
      proof (cases ?check)
        case Panic
        then show thesis using validate_sse_read_batch_cursor_iff(2)[OF wf, of c, where 'u = url and 'j = 'j] by blast
      next
        case (Err e)
        then show thesis using b error by auto
      next
        case (Ok u)
        obtain finished options where adv: "advance_read_options_for_batch (se_options session) b = Ok (finished, options)"
          using advance_spec[OF wf, of "se_options session"] by blast
        show thesis
          using b Ok adv by (intro batch[OF wf stop event_id _ adv]) auto
      qed
    qed
  qed
qed

lemma sse_batch_event_round:
  fixes client :: "('i, 'j) sse_client"
  assumes "sse_batch_event client event session = (r, session')" "cursor_follows session"
    and running: "\<not> se_finished session" "\<not> read_options_exhausted (se_options session)"
  shows "round_ok session r session'"
  using assms(1)
proof (cases rule: sse_batch_event_cases)
  case (error e)
  then show ?thesis using round_ok_error[OF assms(2-4) refl refl refl] by simp
next
  case (batch b event_id c finished options)
  let ?rs = "batch_records b"
  note cursor = iffD1[OF validate_sse_read_batch_cursor_iff(1)[OF batch(1)] batch(4)]
  have adv: "advanced (se_options session) ?rs options finished"
    using advance_spec[OF batch(1), of "se_options session"] batch(5) by auto
  then have options: "options = (se_options session)\<lparr> ro_start := Some (SeqNum (rr_seq_num (last ?rs) + 1)),
             ro_stop := stop_after (length ?rs) (ro_stop (se_options session)) \<rparr>"
      "finished \<longleftrightarrow> stop_count (stop_or_default (ro_stop options)) = Some 0"
    using cursor by (simp_all add: advanced_def)
  have "start_allows (ro_start (se_options session)) (hd ?rs)"
    using cursor assms(2) by (auto simp: cursor_follows_def start_allows_def split: option.splits)
  moreover have "finished \<or> read_options_exhausted options \<longleftrightarrow> finished"
    using exhausted_seq[of options] options by simp
  moreover have "length ?rs = record_count b" by (simp add: batch_records_simps)
  ultimately show ?thesis
    using batch adv running cursor options(1)
    by (auto simp: round_ok_def sse_request_state_def cursor_follows_def cursor_moves_def split: option.splits)
qed

lemma sse_caught_up_event_round:
  fixes client :: "('i, 'j) sse_client"
  assumes call: "sse_caught_up_event client event session = (r, session')" and follows: "cursor_follows session"
    and running: "\<not> se_finished session" "\<not> read_options_exhausted (se_options session)"
  shows "round_ok session r session'"
proof (cases "and_then (map_err (\<lambda>_. InvalidSse ''invalid caught_up event'') (ec_parse_caught_up client (ev_data event))) (\<lambda>caught_up.
         and_then (sse_resume_cursor event) (\<lambda>(event_id, cursor).
         and_then (validate_sse_caught_up_cursor caught_up cursor (map_option snd (se_last_event session)) (se_options session)) (\<lambda>_.
         Inr (caught_up, event_id, cursor)))) :: (url, 'j) client_error + caught_up_position \<times> rstr \<times> resume_cursor")
  case (Inl e)
  then show ?thesis using call round_ok_error[OF follows running refl refl refl] by (auto simp: sse_caught_up_event_def)
next
  case (Inr found)
  obtain caught_up event_id c where found: "found = (caught_up, event_id, c)" by (cases found)
  then have "sse_resume_cursor event = (Inr (event_id, c) :: (url, 'j) client_error + _)"
      "validate_sse_caught_up_cursor caught_up c (map_option snd (se_last_event session)) (se_options session) = (Inr () :: (url, 'j) client_error + unit)"
    using Inr by (auto simp: and_then_eq_Inr)
  then have c: "event_id = cursor_id c" "cr_next_seq_num c = cu_next_seq_num caught_up"
      "case map_option snd (se_last_event session) of Some p \<Rightarrow> c = p
        | None \<Rightarrow> cr_consumed_records c = 0 \<and> (\<forall>v. ro_start (se_options session) = Some (SeqNum v) \<longrightarrow> cr_next_seq_num c = v)"
    using sse_resume_cursor_Inr validate_sse_caught_up_cursor_Inr by blast+
  have s: "r = None" "session' = session\<lparr> se_last_event := Some (event_id, c),
             se_options := (se_options session)\<lparr> ro_start := Some (SeqNum (cu_next_seq_num caught_up)) \<rparr>,
             se_last_caught_up := Some caught_up, se_reconnects := reconnects_reset (se_reconnects session) \<rparr>"
    using call Inr found by (auto simp: sse_caught_up_event_def)
  have "\<not> read_options_exhausted ((se_options session)\<lparr> ro_start := Some (SeqNum (cu_next_seq_num caught_up)) \<rparr>)"
    using running(2) exhausted_seq[of "(se_options session)\<lparr> ro_start := Some (SeqNum (cu_next_seq_num caught_up)) \<rparr>"]
    by (simp add: read_options_exhausted_def Let_def)
  moreover have "\<forall>w. ro_start (se_options session) = Some (SeqNum w) \<longrightarrow> cu_next_seq_num caught_up = w"
    using c follows by (auto simp: cursor_follows_def split: option.splits)
  ultimately show ?thesis
    using c follows running unfolding s
    by (auto simp: round_ok_def sse_request_state_def cursor_follows_def cursor_moves_def split: option.splits)
qed

lemma sse_event_step_round:
  assumes "sse_event_step client event session = (r, session')" "cursor_follows session"
    and "\<not> se_finished session" "\<not> read_options_exhausted (se_options session)"
  shows "round_ok session r session'"
proof -
  have quiet: "round_ok session None session'"
    if "se_options session' = se_options session" "se_finished session' = se_finished session" "se_last_event session' = se_last_event session" for session'
    using that assms by (auto simp: round_ok_def sse_request_state_def cursor_follows_def cursor_moves_def split: option.splits)
  show ?thesis
    using assms round_ok_error[OF assms(2-4)] quiet sse_batch_event_round sse_caught_up_event_round
    by (auto simp: sse_event_step_def sse_metadata_event_def split: if_splits sum.splits prod.splits)
qed

lemma sse_reconnect_round:
  fixes client :: "('i, 'j) sse_client"
  assumes call: "sse_reconnect client net session = (r, net', session')" and follows: "cursor_follows session"
    and running: "\<not> se_finished session" "\<not> read_options_exhausted (se_options session)"
    and pos: "0 < cc_bounded_operation_attempts (rc_config (ec_reader client))"
    and plain: "\<forall>script \<in> set (sn_attempts net). plain_handshake client script"
  shows "round_ok session r session' \<and> se_request session' = se_request session \<and> set (sn_attempts net') \<subseteq> set (sn_attempts net)
    \<and> (\<exists>k. sn_requests net' = sn_requests net @ replicate k (sq_url (se_request session), sq_link_secret (se_request session),
          map_option fst (se_last_event session)))"
proof -
  obtain d b where delay: "next_delay (rc_jitter (ec_reader client)) (se_reconnects session) = (d :: (url, 'j) client_error + duration, b)"
    by (cases "next_delay (rc_jitter (ec_reader client)) (se_reconnects session) :: ((url, 'j) client_error + duration) \<times> bounded_reconnects")
  let ?session = "session\<lparr> se_reconnects := b \<rparr>"
  show ?thesis
  proof (cases d)
    case (Inl e)
    then have "r = Some (Err e)" "net' = net" "session' = ?session"
      using call delay by (auto simp: sse_reconnect_def)
    then show ?thesis
      using round_ok_error[OF follows running, of ?session e] by (auto intro!: exI[of _ 0])
  next
    case (Inr dl)
    obtain c net1 where open': "open_sse_connection client (se_request session) (se_last_event session) net = (c, net1)"
      by (cases "open_sse_connection client (se_request session) (se_last_event session) net")
    obtain k where k: "net1 = net\<lparr> sn_attempts := drop k (sn_attempts net), sn_requests := sn_requests net @
          replicate k (sq_url (se_request session), sq_link_secret (se_request session), map_option fst (se_last_event session)) \<rparr>"
        "\<forall>v. c = Ok v \<longrightarrow> 0 < k \<and> k \<le> length (sn_attempts net)
          \<and> open_sse_connection_once client (ss_response (sn_attempts net ! (k - 1))) = (Inr v :: (url, 'j) client_error + _)"
      using open_sse_connection_spec(1)[OF open'] by auto
    note not_panic = open_sse_connection_spec(2)[OF open' pos]
    have no_resume: "sc_resume_event connection = None" if "c = Ok (Some connection)" for connection
    proof -
      have "sn_attempts net ! (k - 1) \<in> set (sn_attempts net)" using k(2) that by auto
      then have "plain_handshake client (sn_attempts net ! (k - 1))" using plain by blast
      then show ?thesis using k(2) that by (auto simp: plain_handshake_def)
    qed
    have step: "(case (c, net1) of (Ok None, net) \<Rightarrow> (Some (Ok None), net, ?session\<lparr> se_finished := True \<rparr>)
           | (Ok (Some connection), net) \<Rightarrow>
               (case validate_read_stream_metadata (ro_stream_id (se_options session)) (Some (sm_kind (se_stream_metadata session)))
                   (sc_stream_metadata connection) of
                  Inl e \<Rightarrow> (Some (Err e), net, ?session)
                | Inr _ \<Rightarrow>
                    (None, net, ?session\<lparr>
                       se_last_event := (if sc_resume_event connection \<noteq> None then sc_resume_event connection else se_last_event session),
                       se_body := sc_body connection, se_parser := sc_parser connection,
                       se_stream_metadata := sc_stream_metadata connection \<rparr>))
           | (Err e, net) \<Rightarrow> (Some (Err e), net, ?session)
           | (Panic, net) \<Rightarrow> (Some Panic, net, ?session)) = (r, net', session')"
      using call unfolding sse_reconnect_def delay prod.case Inr sum.case Let_def open'[symmetric]
      by (simp cong: outcome.case_cong option.case_cong sum.case_cong prod.case_cong if_cong)
    have same: "net' = net1" "se_request session' = se_request session"
      using step by (auto split: outcome.splits option.splits sum.splits)
    have "round_ok session r session'"
    proof (cases c)
      case Panic
      then show ?thesis using not_panic by simp
    next
      case (Err e)
      then have "r = Some (Err e)" "session' = ?session" using step by auto
      then show ?thesis using round_ok_error[OF follows running, of ?session e] by simp
    next
      case (Ok v)
      show ?thesis
      proof (cases v)
        case None
        then have "r = Some (Ok None)" "session' = ?session\<lparr> se_finished := True \<rparr>" using step Ok by auto
        then show ?thesis
          using follows by (auto simp: round_ok_def sse_request_state_def cursor_follows_def cursor_moves_def split: option.splits)
      next
        case (Some connection)
        note resume = no_resume[OF Ok[unfolded Some]]
        consider e where "r = Some (Err e)" "session' = ?session"
          | "r = None" "session' = ?session\<lparr> se_last_event := se_last_event session,
                       se_body := sc_body connection, se_parser := sc_parser connection,
                       se_stream_metadata := sc_stream_metadata connection \<rparr>"
          using step Ok Some resume by (auto split: sum.splits)
        then show ?thesis
        proof cases
          case 1
          then show ?thesis using round_ok_error[OF follows running, of ?session] by simp
        next
          case 2
          then show ?thesis
            using follows running
            by (auto simp: round_ok_def sse_request_state_def cursor_follows_def cursor_moves_def split: option.splits)
        qed
      qed
    qed
    then show ?thesis using same k(1) by (auto dest: in_set_dropD)
  qed
qed

definition sse_valid :: "('i, 'j) sse_client \<times> sse_network \<times> 'i sse_session \<Rightarrow> bool" where
  "sse_valid s \<longleftrightarrow> (case s of (client, net, session) \<Rightarrow>
     0 < cc_bounded_operation_attempts (rc_config (ec_reader client)) \<and> cursor_follows session
     \<and> (\<forall>script \<in> set (sn_attempts net). plain_handshake client script))"

text \<open>The requests a step adds.\<close>

definition sse_asked :: "'i sse_session \<Rightarrow> sse_network \<Rightarrow> sse_network \<Rightarrow> bool" where
  "sse_asked session net net' \<longleftrightarrow> (\<exists>k. sn_requests net' = sn_requests net
     @ replicate k (sq_url (se_request session), sq_link_secret (se_request session), map_option fst (se_last_event session)))"

lemma sse_session_step_round:
  fixes client :: "('i, 'j) sse_client"
  assumes step: "sse_session_step client net session = (r, net', session')" and valid: "sse_valid (client, net, session)"
  shows "round_ok session r session' \<and> sse_valid (client, net', session') \<and> se_request session' = se_request session
    \<and> sse_asked session net net'"
proof (cases "se_finished session \<or> read_options_exhausted (se_options session)")
  case True
  then have "r = Some (Ok None)" "net' = net" "session' = session"
    using step by (auto simp: sse_session_step_def)
  then show ?thesis
    using True valid by (auto simp: round_ok_def sse_request_state_def cursor_moves_def sse_valid_def sse_asked_def intro!: exI[of _ 0])
next
  case False
  obtain x body parser where ev: "next_sse_event (se_body session) (se_parser session) = (x :: (url, 'j) client_error + sse_event option, body, parser)"
    by (cases "next_sse_event (se_body session) (se_parser session) :: ((url, 'j) client_error + sse_event option) \<times> sse_body \<times> sse_parser") auto
  let ?session = "session\<lparr> se_body := body, se_parser := parser \<rparr>"
  have same: "round_ok ?session r session' \<longleftrightarrow> round_ok session r session'" "sse_asked ?session net net' \<longleftrightarrow> sse_asked session net net'"
      "se_request ?session = se_request session" "se_options ?session = se_options session" "se_finished ?session = se_finished session"
      "cursor_follows ?session \<longleftrightarrow> cursor_follows session"
    by (simp_all add: round_ok_def sse_request_state_def sse_asked_def cursor_follows_def cong: option.case_cong)
  have v: "cursor_follows ?session" "\<not> se_finished ?session" "\<not> read_options_exhausted (se_options ?session)"
      "0 < cc_bounded_operation_attempts (rc_config (ec_reader client))" "\<forall>script \<in> set (sn_attempts net). plain_handshake client script"
    using valid False same(6) by (auto simp: sse_valid_def)
  note step = step[unfolded sse_session_step_def if_not_P[OF False] ev Let_def prod.case]
  consider (again) "sse_reconnect client net ?session = (r, net', session')"
    | (event) e where "sse_event_step client e ?session = (r, session')" "net' = net"
    | (ended) "r = Some (Ok None)" "net' = net" "session' = ?session\<lparr> se_finished := True \<rparr>"
    | (error) e where "r = Some (Err e)" "net' = net" "session' = ?session"
  proof (cases x)
    case (Inl e)
    then show thesis using step again error[of e] by (cases "is_resumable_sse_interruption e") auto
  next
    case (Inr found)
    show thesis
    proof (cases found)
      case None
      then show thesis using step Inr again ended by (cases "sq_finite (se_request session)") auto
    next
      case (Some e)
      then show thesis using step Inr event[of e] by (auto split: prod.splits)
    qed
  qed
  then show ?thesis
  proof cases
    case again
    from sse_reconnect_round[OF this v] show ?thesis
      unfolding same v(4) sse_valid_def using v by (auto simp: round_ok_def sse_asked_def)
  next
    case event
    then show ?thesis
      using sse_event_step_round[OF event(1) v(1-3)] sse_event_step_body[OF event(1)] v
      unfolding same by (auto simp: sse_valid_def round_ok_def sse_asked_def intro!: exI[of _ 0])
  next
    case ended
    then show ?thesis
      using v by (auto simp: round_ok_def sse_request_state_def cursor_follows_def cursor_moves_def sse_valid_def sse_asked_def
          intro!: exI[of _ 0] split: option.splits)
  next
    case error
    then show ?thesis
      using round_ok_error[OF v(1-3) refl refl refl, of e] v same(1)
      by (auto simp: sse_valid_def sse_asked_def intro!: exI[of _ 0])
  qed
qed

section \<open>Calls\<close>

lemma cursor_moves_trans:
  "cursor_moves e (None :: 'j read_result option) e1 \<Longrightarrow> cursor_moves e1 r e' \<Longrightarrow> cursor_moves e r e'"
  by (auto simp: cursor_moves_def Let_def split: option.splits outcome.splits)

lemma sse_asked_trans:
  "sse_asked session net net1 \<Longrightarrow> sse_asked session1 net1 net' \<Longrightarrow> se_request session1 = se_request session
    \<Longrightarrow> se_last_event session1 = se_last_event session \<Longrightarrow> sse_asked session net net'"
proof -
  assume "sse_asked session net net1" "sse_asked session1 net1 net'"
    and same: "se_request session1 = se_request session" "se_last_event session1 = se_last_event session"
  then obtain k l where "sn_requests net1 = sn_requests net
       @ replicate k (sq_url (se_request session), sq_link_secret (se_request session), map_option fst (se_last_event session))"
      "sn_requests net' = sn_requests net1
       @ replicate l (sq_url (se_request session), sq_link_secret (se_request session), map_option fst (se_last_event session))"
    by (auto simp: sse_asked_def)
  then show ?thesis
    unfolding sse_asked_def by (intro exI[of _ "k + l"]) (simp add: replicate_add)
qed

lemma sse_next_batch_call:
  "sse_next_batch client net session = (r, net', session') \<Longrightarrow> sse_valid (client, net, session) \<Longrightarrow>
    read_call (sse_request_state session) r (sse_request_state session') \<and> sse_valid (client, net', session')
    \<and> se_request session' = se_request session \<and> cursor_moves (se_last_event session) (Some r) (se_last_event session')
    \<and> (se_last_event session \<noteq> None \<longrightarrow> sse_asked session net net')"
proof (induction client net session rule: sse_next_batch.induct)
  case (1 client net session)
  obtain x net1 session1 where step: "sse_session_step client net session = (x, net1, session1)"
    by (cases "sse_session_step client net session")
  note round = sse_session_step_round[OF step "1.prems"(2)]
  show ?case
  proof (cases x)
    case None
    then have "sse_next_batch client net1 session1 = (r, net', session')"
      using "1.prems"(1) step by (subst (asm) sse_next_batch.simps) simp
    then have rest: "read_call (sse_request_state session1) r (sse_request_state session')" "sse_valid (client, net', session')"
        "se_request session' = se_request session1" "cursor_moves (se_last_event session1) (Some r) (se_last_event session')"
        "se_last_event session1 \<noteq> None \<longrightarrow> sse_asked session1 net1 net'"
      using "1.IH"[OF step[symmetric] None refl \<open>sse_next_batch client net1 session1 = (r, net', session')\<close>] round by blast+
    have "se_last_event session \<noteq> None \<Longrightarrow> se_last_event session1 = se_last_event session"
      using round None by (auto simp: round_ok_def cursor_moves_def Let_def)
    then have "se_last_event session \<noteq> None \<longrightarrow> sse_asked session net net'"
      using round rest(5) by (auto intro: sse_asked_trans)
    then show ?thesis
      using round None rest by (auto simp: round_ok_def intro: read_call.again cursor_moves_trans)
  next
    case (Some result)
    then show ?thesis
      using 1(2) round step by (subst (asm) sse_next_batch.simps) (auto simp: round_ok_def intro: read_call.returns)
  qed
qed

definition sse_call :: "('i, 'j) sse_client \<times> sse_network \<times> 'i sse_session \<Rightarrow> 'j read_result \<times> ('i, 'j) sse_client \<times> sse_network \<times> 'i sse_session" where
  "sse_call s = (case s of (client, net, session) \<Rightarrow>
     (case sse_next_batch client net session of (r, net, session) \<Rightarrow> (r, client, net, session)))"

definition sse_call_state :: "('i, 'j) sse_client \<times> sse_network \<times> 'i sse_session \<Rightarrow> 'i read_options \<times> bool" where
  "sse_call_state s = sse_request_state (snd (snd s))"

interpretation event_reader: resumable_reader sse_call sse_call_state sse_valid
  by unfold_locales (auto simp: sse_call_def sse_call_state_def split: prod.splits dest: sse_next_batch_call)

text \<open>The results of consecutive calls on a session.\<close>

definition sse_next_batches :: "nat \<Rightarrow> ('i, 'j) sse_client \<Rightarrow> sse_network \<Rightarrow> 'i sse_session
    \<Rightarrow> 'j read_result list \<times> sse_network \<times> 'i sse_session" where
  "sse_next_batches n client net session = (case calls sse_call n (client, net, session) of (rs, _, net, session) \<Rightarrow> (rs, net, session))"

text \<open>A reader that has just been connected, to a service whose handshakes carry no cursor.\<close>

definition fresh_sse_reader :: "('i, 'j) sse_client \<Rightarrow> 'i read_options \<Rightarrow> sse_network \<Rightarrow> 'i sse_session \<Rightarrow> bool" where
  "fresh_sse_reader client options net session \<longleftrightarrow>
     (\<exists>net0. connect_sse_reader client options net0 = (Ok session, net)
        \<and> (\<forall>script \<in> set (sn_attempts net0). plain_handshake client script))"

lemma connect_sse_reader_Ok:
  fixes client :: "('i, 'j) sse_client"
  assumes "connect_sse_reader client options net0 = (Ok session, net)"
    and plain: "\<forall>script \<in> set (sn_attempts net0). plain_handshake client script"
  shows "se_options session = options" "se_finished session = False" "se_last_event session = None"
    "se_request session = sse_read_request client options" "set (sn_attempts net) \<subseteq> set (sn_attempts net0)"
proof -
  obtain c net1 where connect: "open_sse_connection client (sse_read_request client options) None net0 = (c, net1)"
    by (cases "open_sse_connection client (sse_read_request client options) None net0")
  obtain connection where c: "c = Ok (Some connection)" "net = net1" "se_last_event session = sc_resume_event connection"
      and fields: "se_options session = options" "se_finished session = False" "se_request session = sse_read_request client options"
  proof (cases "validate_read_options options :: (url, 'j) client_error + unit")
    case (Inl e)
    then show thesis using assms(1) by (simp add: connect_sse_reader_def)
  next
    case (Inr u)
    note run = assms(1)[unfolded connect_sse_reader_def Inr sum.case Let_def connect prod.case]
    show thesis
    proof (cases c)
      case (Ok v)
      show thesis
      proof (cases v)
        case None
        then show thesis using run Ok by simp
      next
        case (Some connection)
        show thesis
        proof (cases "validate_read_stream_metadata (ro_stream_id options) None (sc_stream_metadata connection) :: (url, 'j) client_error + unit")
          case (Inl e)
          then show thesis using run unfolding Ok Some by simp
        next
          case (Inr u)
          have "session = \<lparr> se_options = options, se_request = sse_read_request client options, se_body = sc_body connection,
              se_parser = sc_parser connection,
              se_stream_metadata = sc_stream_metadata connection, se_last_caught_up = None,
              se_reconnects = bounded_reconnects_new (cc_bounded_operation_attempts (rc_config (ec_reader client))),
              se_last_event = sc_resume_event connection, se_finished = False \<rparr>" "net = net1"
            using run unfolding Ok Some outcome.case option.case Inr sum.case by simp_all
          then show thesis using Ok Some by (intro that[of connection]) simp_all
        qed
      qed
    next
      case (Err e)
      then show thesis using run by simp
    next
      case Panic
      then show thesis using run by simp
    qed
  qed
  let ?request = "sse_read_request client options"
  from open_sse_connection_spec(1)[OF connect]
  obtain k where k: "net1 = net0\<lparr> sn_attempts := drop k (sn_attempts net0), sn_requests := sn_requests net0 @
        replicate k (sq_url ?request, sq_link_secret ?request, map_option fst (None :: sse_resume_event option)) \<rparr>"
      and last_attempt: "\<forall>v. c = Ok v \<longrightarrow> 0 < k \<and> k \<le> length (sn_attempts net0)
        \<and> open_sse_connection_once client (ss_response (sn_attempts net0 ! (k - 1))) = (Inr v :: (url, 'j) client_error + _)"
    by (elim exE conjE)
  note opened = last_attempt[rule_format, OF c(1)]
  have "sn_attempts net0 ! (k - 1) \<in> set (sn_attempts net0)"
    using opened by (intro nth_mem) linarith
  with plain have "plain_handshake client (sn_attempts net0 ! (k - 1))" by (rule bspec)
  then show "se_last_event session = None"
    using opened c(3) unfolding plain_handshake_def by simp
  show "se_options session = options" "se_finished session = False" "se_request session = sse_read_request client options"
    by (rule fields)+
  show "set (sn_attempts net) \<subseteq> set (sn_attempts net0)"
    unfolding c(2) k by (simp add: set_drop_subset)
qed

lemma fresh_sse_reader_valid:
  assumes "fresh_sse_reader client options net session" "0 < cc_bounded_operation_attempts (rc_config (ec_reader client))"
  shows "sse_valid (client, net, session)" "se_request session = sse_read_request client options" "se_last_event session = None"
    "se_options session = options" "\<not> se_finished session"
proof -
  obtain net0 where net0: "connect_sse_reader client options net0 = (Ok session, net)"
      "\<forall>script \<in> set (sn_attempts net0). plain_handshake client script"
    using assms(1) by (auto simp: fresh_sse_reader_def)
  note new = connect_sse_reader_Ok[OF net0]
  show "sse_valid (client, net, session)"
    using new net0(2) assms(2) by (auto simp: sse_valid_def cursor_follows_def)
  show "se_request session = sse_read_request client options" "se_last_event session = None"
    "se_options session = options" "\<not> se_finished session"
    using new by simp_all
qed

text \<open>Unlike the socket's reader, a read that is exhausted from the start has finished.\<close>

lemma reader_inv_fresh: "reader_inv options [] (options, finished)"
  by (auto simp: reader_inv_def stop_allows_def split: option.splits)

text \<open>C6: However many calls are made, whatever the service sends in its events, however it cuts them into chunks
  and however often the connection breaks, the records an event-stream reader has delivered carry
  consecutive sequence numbers without a gap or a repetition, from the requested sequence number when one
  was requested, within the requested count and before the \<open>until\<close> timestamp, and no call panics; provided
  no handshake carries a cursor, as the protocol has it for reads that deliver records.\<close>

theorem sse_reader_delivers_contiguously:
  fixes client :: "('i, 'j) sse_client"
  assumes "fresh_sse_reader client options net session" "0 < cc_bounded_operation_attempts (rc_config (ec_reader client))"
    and "sse_next_batches n client net session = (results, net', session')"
  shows "contiguous (map rr_seq_num (delivered results)) \<and> stop_allows (ro_stop options) (delivered results)
    \<and> (\<forall>v. ro_start options = Some (SeqNum v) \<longrightarrow> delivered results \<noteq> [] \<longrightarrow> rr_seq_num (hd (delivered results)) = v)
    \<and> Panic \<notin> set results"
proof -
  note fresh = fresh_sse_reader_valid[OF assms(1,2)]
  obtain client' where calls: "calls sse_call n (client, net, session) = (results, client', net', session')"
    using assms(3) by (auto simp: sse_next_batches_def split: prod.splits)
  show ?thesis
  proof (rule event_reader.delivers[OF calls fresh(1)])
    show "reader_inv options [] (sse_call_state (client, net, session))"
      using fresh reader_inv_fresh by (simp add: sse_call_state_def sse_request_state_def)
  qed
qed

text \<open>What the last event says about the records delivered so far.\<close>

definition resume_names :: "read_record list \<Rightarrow> sse_resume_event option \<Rightarrow> bool" where
  "resume_names rs e \<longleftrightarrow> (case e of
       None \<Rightarrow> rs = []
     | Some (event_id, c) \<Rightarrow> event_id = cursor_id c \<and> unat (cr_consumed_records c) = length rs
         \<and> (rs \<noteq> [] \<longrightarrow> cr_next_seq_num c = rr_seq_num (last rs) + 1))"

lemma resume_names_moves:
  assumes "resume_names rs e" "cursor_moves e (Some r) e'" "\<And>b. r = Ok (Some b) \<Longrightarrow> batch_records b \<noteq> []"
  shows "resume_names (rs @ delivered_by r) e'"
proof (cases "\<exists>b. r = Ok (Some b)")
  case True
  then obtain b where b: "r = Ok (Some b)" by blast
  have consumed: "(case e of None \<Rightarrow> 0 | Some (_, c) \<Rightarrow> unat (cr_consumed_records c)) = length rs"
    using assms(1) by (auto simp: resume_names_def split: option.splits)
  then obtain c where "e' = Some (cursor_id c, c)" "unat (cr_consumed_records c) = length rs + length (batch_records b)"
      "cr_next_seq_num c = rr_seq_num (last (batch_records b)) + 1"
    using assms(2) unfolding b cursor_moves_def Let_def consumed by auto
  then show ?thesis
    using assms(3) b by (simp add: resume_names_def)
next
  case False
  then have "delivered_by r = []" by (cases r rule: delivered_by.cases) auto
  moreover have "e' = e \<or> (e = None \<and> (\<exists>c. e' = Some (cursor_id c, c) \<and> cr_consumed_records c = 0))"
    using assms(2) False by (auto simp: cursor_moves_def Let_def split: outcome.splits option.splits)
  ultimately show ?thesis
    using assms(1) by (auto simp: resume_names_def)
qed

lemma read_call_batch: "read_call s r s' \<Longrightarrow> r = Ok (Some b) \<Longrightarrow> batch_records b \<noteq> []"
proof (induction rule: read_call.induct)
  case (returns s r s')
  then show ?case using wf_batch_count(2)[of b] by (cases s; cases s') auto
qed auto

lemma sse_calls_resume:
  "calls sse_call n (client, net, session) = (results, client', net', session') \<Longrightarrow> sse_valid (client, net, session) \<Longrightarrow>
    resume_names rs (se_last_event session) \<Longrightarrow>
    client' = client \<and> sse_valid (client, net', session') \<and> se_request session' = se_request session
    \<and> resume_names (rs @ delivered results) (se_last_event session')"
proof (induction n arbitrary: net session results rs)
  case 0
  then show ?case by (simp add: delivered_def)
next
  case (Suc n)
  obtain r net1 session1 where call: "sse_next_batch client net session = (r, net1, session1)"
    by (cases "sse_next_batch client net session")
  then have "sse_call (client, net, session) = (r, client, net1, session1)"
    by (simp add: sse_call_def)
  then obtain more where more: "calls sse_call n (client, net1, session1) = (more, client', net', session')" "results = r # more"
    using Suc.prems(1) by (auto split: prod.splits)
  note one = sse_next_batch_call[OF call Suc.prems(2)]
  have called: "read_call (sse_request_state session) r (sse_request_state session1)"
      and moves: "cursor_moves (se_last_event session) (Some r) (se_last_event session1)"
      and valid: "sse_valid (client, net1, session1)" and same: "se_request session1 = se_request session"
    using one by blast+
  have "resume_names (rs @ delivered_by r) (se_last_event session1)"
    by (rule resume_names_moves[OF Suc.prems(3) moves read_call_batch[OF called]])
  from Suc.IH[OF more(1) valid this] show ?case
    unfolding more(2) same by (simp add: delivered_def)
qed

text \<open>C12: After records were delivered, every connection attempt of the next call asks for the original URL with
  the original credentials and sends as \<open>Last-Event-ID\<close> exactly \<open>v1,<next>,<consumed>\<close>, where \<open>next\<close> follows the
  last record delivered and \<open>consumed\<close> counts all the records delivered so far.\<close>

theorem sse_reconnect_sends_cursor:
  fixes client :: "('i, 'j) sse_client"
  assumes "fresh_sse_reader client options net session" "0 < cc_bounded_operation_attempts (rc_config (ec_reader client))"
    and "sse_next_batches n client net session = (results, net1, session1)" "delivered results \<noteq> []"
    and "sse_next_batch client net1 session1 = (r, net2, session2)"
  shows "\<exists>k c. sn_requests net2 = sn_requests net1 @ replicate k
        (sq_url (sse_read_request client options), ro_link_secret options, Some (cursor_id c))
    \<and> cr_next_seq_num c = rr_seq_num (last (delivered results)) + 1
    \<and> unat (cr_consumed_records c) = length (delivered results)"
proof -
  note fresh = fresh_sse_reader_valid[OF assms(1,2)]
  obtain client' where calls: "calls sse_call n (client, net, session) = (results, client', net1, session1)"
    using assms(3) by (auto simp: sse_next_batches_def split: prod.splits)
  have after: "sse_valid (client, net1, session1)" "se_request session1 = sse_read_request client options"
      "resume_names (delivered results) (se_last_event session1)"
    using sse_calls_resume[OF calls fresh(1), of "[]"] fresh by (auto simp: resume_names_def)
  then obtain c where c: "se_last_event session1 = Some (cursor_id c, c)" "unat (cr_consumed_records c) = length (delivered results)"
      "cr_next_seq_num c = rr_seq_num (last (delivered results)) + 1"
    using assms(4) by (auto simp: resume_names_def split: option.splits)
  have "sse_asked session1 net1 net2"
    using sse_next_batch_call[OF assms(5) after(1)] c(1) by simp
  then show ?thesis
    using c after(2) by (auto simp: sse_asked_def sse_read_request_def Let_def)
qed

section \<open>A run over two connections\<close>

definition event_record :: "u64 \<Rightarrow> sse_read_record" where
  "event_record n = \<lparr> sr_seq_num = n, sr_timestamp_ms = 1, sr_writer = \<lparr> sw_id = lit ''AAAAAAAAAAAAAAAAAAAAAA'', sw_seq_num = n \<rparr>,
     sr_part = None, sr_payload = PayloadText (lit ''a'') \<rparr>"

definition delivered_record :: "u64 \<Rightarrow> read_record" where
  "delivered_record n = \<lparr> rr_seq_num = n, rr_timestamp_ms = 1, rr_writer_id = WriterId (replicate 16 0), rr_writer_seq_num = n,
     rr_part = unsplit, rr_data = lit ''a'' \<rparr>"

definition event_client :: "(unit, unit) sse_client" where
  "event_client = \<lparr> ec_reader = sample_client, ec_parse_error = (\<lambda>_. None),
     ec_parse_batch = (\<lambda>text. if text = lit ''7'' then Inr [event_record 7] else if text = lit ''8'' then Inr [event_record 8] else Inl ()),
     ec_parse_caught_up = (\<lambda>_. Inl ()), ec_decode_slice = sample_decode_slice, ec_decode_vec = sample_decode_vec \<rparr>"

text \<open>A handshake and one event, in one chunk; then the service closes the response.\<close>

definition event_bytes :: "string \<Rightarrow> string \<Rightarrow> bytes" where
  "event_bytes cursor data = lit ''event:stream_metadata'' @ [10] @ lit ''data:'' @ [10, 10]
     @ lit ''event:read_batch'' @ [10] @ lit (''id:'' @ cursor) @ [10] @ lit (''data:'' @ data) @ [10, 10]"

definition bytes_7 :: bytes where "bytes_7 = event_bytes ''v1,8,1'' ''7''"
definition bytes_8 :: bytes where "bytes_8 = event_bytes ''v1,9,2'' ''8''"

definition event_7 :: sse_event where
  "event_7 = \<lparr> ev_event = lit ''read_batch'', ev_data = lit ''7'', ev_id = Some (lit ''v1,8,1'') \<rparr>"
definition event_8 :: sse_event where
  "event_8 = \<lparr> ev_event = lit ''read_batch'', ev_data = lit ''8'', ev_id = Some (lit ''v1,9,2'') \<rparr>"
definition event_handshake :: sse_event where
  "event_handshake = \<lparr> ev_event = lit ''stream_metadata'', ev_data = [], ev_id = None \<rparr>"

definition event_script :: "bytes \<Rightarrow> sse_script" where
  "event_script bs = \<lparr> ss_elapsed = False, ss_response = Inr \<lparr> hr_status = 200, hr_request_id = None, hr_retry_after = None,
     hr_content_length = None, hr_chunks = [Inr bs] \<rparr> \<rparr>"

definition parser_after :: "nat \<Rightarrow> bytes \<Rightarrow> sse_parser" where
  "parser_after n bs = \<lparr> sp_buffer = bs, sp_offset = n, sp_tail_start = 64 \<rparr>"

lemmas event_bytes_defs = bytes_7_def bytes_8_def event_bytes_def lit_def of_char_def

lemma event_boundaries:
  "sse_boundary bytes_7 = Some (27, 2)" "sse_boundary (drop 29 bytes_7) = Some (33, 2)"
  "sse_boundary bytes_8 = Some (27, 2)" "sse_boundary (drop 29 bytes_8) = Some (33, 2)" "sse_boundary [] = None"
  "length bytes_7 = 64" "length bytes_8 = 64"
  by (simp_all add: event_bytes_defs sse_scan_defs)

lemma event_blocks:
  "parse_sse_block (take 27 bytes_7) = (Inr (Some event_handshake) :: (url, unit) client_error + _)"
  "parse_sse_block (take 33 (drop 29 bytes_7)) = (Inr (Some event_7) :: (url, unit) client_error + _)"
  "parse_sse_block (take 27 bytes_8) = (Inr (Some event_handshake) :: (url, unit) client_error + _)"
  "parse_sse_block (take 33 (drop 29 bytes_8)) = (Inr (Some event_8) :: (url, unit) client_error + _)"
  by (simp_all add: event_bytes_defs parse_sse_block_def from_utf8_def lines_def strip_cr_def sse_line_def Let_def
      event_handshake_def event_7_def event_8_def)

lemma event_parsing:
  "next_sse_event [Inr bytes_7] sse_parser_default = ((Inr (Some event_handshake) :: (url, unit) client_error + _), [], parser_after 29 bytes_7)"
  "next_sse_event [Inr bytes_8] sse_parser_default = ((Inr (Some event_handshake) :: (url, unit) client_error + _), [], parser_after 29 bytes_8)"
  "next_sse_event [] (parser_after 29 bytes_7) = ((Inr (Some event_7) :: (url, unit) client_error + _), [], parser_after 64 bytes_7)"
  "next_sse_event [] (parser_after 29 bytes_8) = ((Inr (Some event_8) :: (url, unit) client_error + _), [], parser_after 64 bytes_8)"
  "next_sse_event [] (parser_after 64 bs) = ((Inr None :: (url, unit) client_error + _), [], parser_after 64 bs)"
  by (simp_all add: next_sse_event.simps next_event.simps sse_push_def compact_def validate_new_bytes_def validate_new_loop.simps
      sse_parser_default_def event_boundaries event_blocks slice_def parser_after_def Let_def const_defs)

lemma event_batch:
  obtains b where "sse_read_batch sample_decode_slice sample_decode_vec [event_record n] = (Inr b :: (url, unit) client_error + read_batch)"
    "batch_records b = [delivered_record n]" "wf_read_batch b"
proof -
  have rs: "map_result (sse_record sample_decode_slice sample_decode_vec) [event_record n] = (Inr [delivered_record n] :: (url, unit) client_error + _)"
    "sum_list (map (length \<circ> rr_data) [delivered_record n]) < 2 ^ 32" "bounded_records [delivered_record n]"
    by (simp_all add: sse_record_def event_record_def delivered_record_def sample_decode_slice_def payload_bytes_def sse_part_def
        lit_def const_defs bounded_records_def contiguous_Cons)
  show thesis
    using sse_read_batch_records[OF rs(1,2)] rs(3) that by (auto split: sum.splits)
qed

definition event_options :: "unit read_options" where
  "event_options = (read_options_new ())\<lparr> ro_start := Some (SeqNum 7) \<rparr>"

definition event_network :: sse_network where
  "event_network = \<lparr> sn_attempts = [event_script bytes_7, event_script bytes_8], sn_requests = [] \<rparr>"

definition event_connection :: "bytes \<Rightarrow> unit sse_connection" where
  "event_connection bs = \<lparr> sc_body = [], sc_parser = parser_after 29 bs, sc_stream_metadata = sample_metadata, sc_resume_event = None \<rparr>"

lemma event_elapsed: "\<not> ss_elapsed (event_script bs)"
  by (simp add: event_script_def)

lemma event_opens:
  "open_sse_connection_once event_client (ss_response (event_script bytes_7)) = (Inr (Some (event_connection bytes_7)) :: (url, unit) client_error + _)"
  "open_sse_connection_once event_client (ss_response (event_script bytes_8)) = (Inr (Some (event_connection bytes_8)) :: (url, unit) client_error + _)"
  by (simp_all add: open_sse_connection_once_def event_script_def is_success_def event_parsing event_handshake_def event_client_def
      sample_client_def event_connection_def)

lemma event_attempts: "cc_bounded_operation_attempts (rc_config (ec_reader event_client)) = 3"
  by (simp add: event_client_def sample_client_def)

abbreviation event_request :: "sse_resume_event option \<Rightarrow> url \<times> link_secret option \<times> rstr option" where
  "event_request e \<equiv> (sq_url (sse_read_request event_client event_options), None, map_option fst e)"

lemma event_connects:
  assumes "open_sse_connection_once event_client (ss_response script) = (Inr v :: (url, unit) client_error + _)" "\<not> ss_elapsed script"
  shows "open_sse_connection event_client (sse_read_request event_client event_options) e
      \<lparr> sn_attempts = script # rest, sn_requests = before \<rparr> = (Ok v, \<lparr> sn_attempts = rest, sn_requests = before @ [event_request e] \<rparr>)"
proof -
  have "sq_link_secret (sse_read_request event_client event_options) = None"
    by (simp add: sse_read_request_def Let_def event_options_def read_options_new_def)
  then show ?thesis
    using assms by (simp add: open_sse_connection_def retry_transient_def event_attempts retry_when_first next_sse_attempt_def with_timeout_def)
qed

definition event_session :: "unit sse_session" where
  "event_session = \<lparr> se_options = event_options, se_request = sse_read_request event_client event_options, se_body = [],
     se_parser = parser_after 29 bytes_7, se_stream_metadata = sample_metadata, se_last_caught_up = None,
     se_reconnects = bounded_reconnects_new 3, se_last_event = None, se_finished = False \<rparr>"

definition event_after_7 :: "unit sse_session" where
  "event_after_7 = event_session\<lparr> se_options := event_options\<lparr> ro_start := Some (SeqNum 8) \<rparr>, se_parser := parser_after 64 bytes_7,
     se_last_event := Some (lit ''v1,8,1'', \<lparr> cr_next_seq_num = 8, cr_consumed_records = 1 \<rparr>) \<rparr>"

definition event_after_8 :: "unit sse_session" where
  "event_after_8 = event_after_7\<lparr> se_options := event_options\<lparr> ro_start := Some (SeqNum 9) \<rparr>, se_parser := parser_after 64 bytes_8,
     se_last_event := Some (lit ''v1,9,2'', \<lparr> cr_next_seq_num = 9, cr_consumed_records = 2 \<rparr>) \<rparr>"

definition event_connected :: sse_network where
  "event_connected = \<lparr> sn_attempts = [event_script bytes_8], sn_requests = [event_request None] \<rparr>"

definition event_exhausted :: sse_network where
  "event_exhausted = \<lparr> sn_attempts = [], sn_requests = [event_request None, event_request (se_last_event event_after_7)] \<rparr>"

lemma event_fresh: "fresh_sse_reader event_client event_options event_connected event_session"
proof -
  have valid: "validate_read_options event_options = (Inr () :: (url, unit) client_error + unit)"
    by (simp add: validate_read_options_def event_options_def read_options_new_def read_selector_def Let_def stop_or_default_def
        read_stop_default_def const_defs)
  have "connect_sse_reader event_client event_options event_network = (Ok event_session, event_connected)"
    using event_connects[OF event_opens(1), of None "[event_script bytes_8]" "[]"]
    by (simp add: connect_sse_reader_def valid event_network_def Let_def event_elapsed event_connection_def event_attempts
        validate_read_stream_metadata_def sample_metadata_def event_session_def event_connected_def)
  moreover have "\<forall>script \<in> set (sn_attempts event_network). plain_handshake event_client script"
    by (simp add: event_network_def plain_handshake_def event_opens event_connection_def)
  ultimately show ?thesis by (auto simp: fresh_sse_reader_def)
qed

lemma event_cursors:
  "sse_resume_cursor event_7 = (Inr (lit ''v1,8,1'', \<lparr> cr_next_seq_num = 8, cr_consumed_records = 1 \<rparr>) :: (url, unit) client_error + _)"
  "sse_resume_cursor event_8 = (Inr (lit ''v1,9,2'', \<lparr> cr_next_seq_num = 9, cr_consumed_records = 2 \<rparr>) :: (url, unit) client_error + _)"
  by (simp_all add: sse_resume_cursor_Inr event_7_def event_8_def valid_cursor_def cursor_id_def const_defs lit_def of_char_def
      to_string_def decimal.simps)

lemma event_delivers:
  fixes event :: sse_event
  assumes b: "sse_read_batch sample_decode_slice sample_decode_vec [event_record n] = (Inr b :: (url, unit) client_error + read_batch)"
      "batch_records b = [delivered_record n]" "wf_read_batch b"
    and event: "ec_parse_batch event_client (ev_data event) = Inr [event_record n]"
      "sse_resume_cursor event = (Inr (event_id, c) :: (url, unit) client_error + _)"
    and cursor: "n \<noteq> - 1" "cr_next_seq_num c = n + 1"
      "case map_option snd (se_last_event session) of
           None \<Rightarrow> unat (cr_consumed_records c) = 1
         | Some p \<Rightarrow> n = cr_next_seq_num p \<and> unat (cr_consumed_records c) = unat (cr_consumed_records p) + 1"
    and options: "se_options session = event_options\<lparr> ro_start := Some (SeqNum n) \<rparr>" "\<not> se_finished session"
  shows "sse_batch_event event_client event session = (Some (Ok (Some b)), session\<lparr> se_last_event := Some (event_id, c),
      se_reconnects := reconnects_reset (se_reconnects session),
      se_options := event_options\<lparr> ro_start := Some (SeqNum (n + 1)) \<rparr> \<rparr>)"
proof -
  have count: "record_count b = 1"
    using b(2) batch_records_simps(1)[of b] by simp
  have seq: "rr_seq_num (delivered_record n) = n"
    by (simp add: delivered_record_def)
  have stop: "ro_stop (se_options session) = None"
    by (simp add: options event_options_def read_options_new_def)
  have "validate_sse_read_batch b (se_options session) = (Ok () :: ((url, unit) client_error, unit) outcome)"
    unfolding validate_sse_read_batch_iff(1)[OF b(3)] stop by (simp add: stop_allows_def stop_or_default_def read_stop_default_def)
  moreover have "validate_sse_read_batch_cursor b c (map_option snd (se_last_event session)) (se_options session)
      = (Ok () :: ((url, unit) client_error, unit) outcome)"
    unfolding validate_sse_read_batch_cursor_iff(1)[OF b(3)]
    using cursor by (simp add: b(2) seq count options start_allows_def split: option.splits)
  moreover have "advance_read_options_for_batch (se_options session) b = Ok (False, event_options\<lparr> ro_start := Some (SeqNum (n + 1)) \<rparr>)"
    using cursor(1) stop by (simp add: advance_read_options_for_batch_def wf_batch_Ok[OF b(3)] b(2) seq checked_add_1 count Let_def
        options event_options_def read_options_new_def)
  ultimately show ?thesis
    using b(1) event options(2)
    by (cases session) (simp add: sse_batch_event_def event_client_def)
qed

lemma event_batches:
  assumes b7: "sse_read_batch sample_decode_slice sample_decode_vec [event_record 7] = (Inr b7 :: (url, unit) client_error + read_batch)"
      "batch_records b7 = [delivered_record 7]" "wf_read_batch b7"
    and b8: "sse_read_batch sample_decode_slice sample_decode_vec [event_record 8] = (Inr b8 :: (url, unit) client_error + read_batch)"
      "batch_records b8 = [delivered_record 8]" "wf_read_batch b8"
  shows "sse_next_batch event_client event_connected event_session = (Ok (Some b7), event_connected, event_after_7)" (is ?first)
    "sse_next_batch event_client event_connected event_after_7 = (Ok (Some b8), event_exhausted, event_after_8)" (is ?second)
proof -
  have parse: "ec_parse_batch event_client (ev_data event_7) = Inr [event_record 7]" "ec_parse_batch event_client (ev_data event_8) = Inr [event_record 8]"
    by (simp_all add: event_client_def event_7_def event_8_def lit_def of_char_def)
  have kinds: "ev_event event_7 = lit ''read_batch''" "ev_event event_8 = lit ''read_batch''"
    by (simp_all add: event_7_def event_8_def)
  have running: "\<not> read_options_exhausted (event_options\<lparr> ro_start := start \<rparr>)" "event_options\<lparr> ro_start := Some (SeqNum 7) \<rparr> = event_options" for start
    by (simp_all add: read_options_exhausted_def event_options_def read_options_new_def stop_or_default_def read_stop_default_def
        split: option.splits read_start.splits)
  note parser = event_parsing
  let ?session = "event_session\<lparr> se_parser := parser_after 64 bytes_7 \<rparr>"
  have "sse_batch_event event_client event_7 ?session = (Some (Ok (Some b7)), event_after_7)"
    using event_delivers[OF b7 parse(1) event_cursors(1), of ?session]
    by (simp add: event_session_def running event_after_7_def reconnects_reset_def bounded_reconnects_new_def)
  then have "sse_session_step event_client event_connected event_session = (Some (Ok (Some b7)), event_connected, event_after_7)"
    using running(1)[of "Some (SeqNum 7)"]
    by (simp add: sse_session_step_def event_session_def running(2) parser sse_event_step_def kinds)
  then show ?first by (subst sse_next_batch.simps) simp
  let ?resumed = "event_after_7\<lparr> se_parser := parser_after 29 bytes_8, se_reconnects := \<lparr> bc_retries = 1, bc_max_connection_attempts = 3 \<rparr> \<rparr>"
  have "sse_reconnect event_client event_connected event_after_7 = (None, event_exhausted, ?resumed)"
    using event_connects[OF event_opens(2) event_elapsed, of "se_last_event event_after_7" "[]" "[event_request None]"]
    by (simp add: sse_reconnect_def event_after_7_def event_session_def next_delay_def bounded_reconnects_new_def event_connected_def
        event_connection_def validate_read_stream_metadata_def event_exhausted_def sample_metadata_def)
  then have again: "sse_session_step event_client event_connected event_after_7 = (None, event_exhausted, ?resumed)"
    using running(1)[of "Some (SeqNum 8)"]
    by (simp add: sse_session_step_def event_after_7_def event_session_def parser sse_read_request_def Let_def event_options_def read_options_new_def)
  have "sse_batch_event event_client event_8 (?resumed\<lparr> se_parser := parser_after 64 bytes_8 \<rparr>) = (Some (Ok (Some b8)), event_after_8)"
    using event_delivers[OF b8 parse(2) event_cursors(2), of "?resumed\<lparr> se_parser := parser_after 64 bytes_8 \<rparr>"]
    by (simp add: event_after_7_def event_session_def event_after_8_def reconnects_reset_def bounded_reconnects_new_def)
  then have "sse_session_step event_client event_exhausted ?resumed = (Some (Ok (Some b8)), event_exhausted, event_after_8)"
    using running(1)[of "Some (SeqNum 8)"]
    by (simp add: sse_session_step_def event_after_7_def event_session_def parser sse_event_step_def kinds)
  then have "sse_next_batch event_client event_exhausted ?resumed = (Ok (Some b8), event_exhausted, event_after_8)"
    by (subst sse_next_batch.simps) simp
  then show ?second using again by (subst sse_next_batch.simps) simp
qed

lemma event_run:
  obtains b7 b8 where "sse_next_batches 2 event_client event_connected event_session = ([Ok (Some b7), Ok (Some b8)], event_exhausted, event_after_8)"
    "sse_next_batches 1 event_client event_connected event_session = ([Ok (Some b7)], event_connected, event_after_7)"
    "sse_next_batch event_client event_connected event_after_7 = (Ok (Some b8), event_exhausted, event_after_8)"
    "batch_records b7 = [delivered_record 7]" "batch_records b8 = [delivered_record 8]"
proof -
  obtain b7 where b7: "sse_read_batch sample_decode_slice sample_decode_vec [event_record 7] = (Inr b7 :: (url, unit) client_error + read_batch)"
      "batch_records b7 = [delivered_record 7]" "wf_read_batch b7" by (rule event_batch)
  obtain b8 where b8: "sse_read_batch sample_decode_slice sample_decode_vec [event_record 8] = (Inr b8 :: (url, unit) client_error + read_batch)"
      "batch_records b8 = [delivered_record 8]" "wf_read_batch b8" by (rule event_batch)
  note run = event_batches[OF b7 b8]
  show thesis
    by (rule that[of b7 b8]) (simp_all add: sse_next_batches_def sse_call_def run b7 b8 eval_nat_numeral)
qed

text \<open>Two records arrive over two connections.\<close>

lemma sse_reader_delivers_contiguously_witness:
  "\<exists>results. sse_next_batches 2 event_client event_connected event_session = (results, event_exhausted, event_after_8)
    \<and> delivered results = [delivered_record 7, delivered_record 8] \<and> contiguous (map rr_seq_num (delivered results)) \<and> Panic \<notin> set results"
proof -
  obtain b7 b8 where run: "sse_next_batches 2 event_client event_connected event_session = ([Ok (Some b7), Ok (Some b8)], event_exhausted, event_after_8)"
      and b: "batch_records b7 = [delivered_record 7]" "batch_records b8 = [delivered_record 8]"
    by (rule event_run)
  have "0 < cc_bounded_operation_attempts (rc_config (ec_reader event_client))"
    by (simp add: event_attempts)
  from sse_reader_delivers_contiguously[OF event_fresh this run] show ?thesis
    using run b by (auto simp: delivered_def)
qed

text \<open>After the first record the reader asks once more, from the cursor \<open>v1,8,1\<close>.\<close>

lemma sse_reconnect_sends_cursor_witness:
  "\<exists>results r. sse_next_batches 1 event_client event_connected event_session = (results, event_connected, event_after_7)
    \<and> sse_next_batch event_client event_connected event_after_7 = (r, event_exhausted, event_after_8)
    \<and> (\<exists>k c. sn_requests event_exhausted = sn_requests event_connected @ replicate k
          (sq_url (sse_read_request event_client event_options), None, Some (cursor_id c))
        \<and> cr_next_seq_num c = 8 \<and> cr_consumed_records c = 1)"
proof -
  obtain b7 b8 where run: "sse_next_batches 1 event_client event_connected event_session = ([Ok (Some b7)], event_connected, event_after_7)"
      and call: "sse_next_batch event_client event_connected event_after_7 = (Ok (Some b8), event_exhausted, event_after_8)"
      and b: "batch_records b7 = [delivered_record 7]"
    by (rule event_run)
  have pos: "0 < cc_bounded_operation_attempts (rc_config (ec_reader event_client))"
    by (simp add: event_attempts)
  have one: "delivered [Ok (Some b7) :: unit read_result] = [delivered_record 7]"
    by (simp add: delivered_def b)
  have "delivered [Ok (Some b7) :: unit read_result] \<noteq> []"
    by (simp add: one)
  from sse_reconnect_sends_cursor[OF event_fresh pos run this call] have
    "\<exists>k c. sn_requests event_exhausted = sn_requests event_connected @ replicate k
          (sq_url (sse_read_request event_client event_options), None, Some (cursor_id c))
        \<and> cr_next_seq_num c = 8 \<and> cr_consumed_records c = 1"
    unfolding one by (auto simp: delivered_record_def word_unat_eq_iff event_options_def read_options_new_def)
  then show ?thesis using run call by blast
qed

end
