(* ===== verification/RestLinks.thy ===== *)
theory RestLinks
  imports RestClient
begin

text \<open>
  Listing the links of a stream (\<open>list_links\<close> and \<open>list_all_links\<close> of \<open>rust/src/client.rs\<close>): the request of a
  page, its check, and the loop that follows the cursors.
\<close>

record stream_link_summary =
  sl_link_id :: link_id
  sl_permissions :: link_permissions
  sl_status :: stream_link_status
  sl_created_at :: rstr
  sl_expires_at :: "rstr option"
  sl_revoked_at :: "rstr option"

record list_links_response =
  ll_authorizing_link_id :: link_id
  ll_links :: "stream_link_summary list"
  ll_next_cursor :: "rstr option"

record list_links_options =
  lo_limit :: "u8 option"
  lo_cursor :: "rstr option"

section \<open>Listing links\<close>

fun first_duplicate :: "link_id list \<Rightarrow> link_id set \<Rightarrow> bool" where
  "first_duplicate [] seen = False"
| "first_duplicate (l # ls) seen = (if l \<in> seen then True else first_duplicate ls (insert l seen))"

definition validate_link_page :: "list_links_response \<Rightarrow> nat \<Rightarrow> ('u, 'j) client_error + unit" where
  "validate_link_page page maximum_links =
     (if length (ll_links page) > maximum_links then Inl (InvalidLinkPage ''page contains more links than requested'')
      else if ll_next_cursor page \<noteq> None \<and> ll_links page = [] then Inl (InvalidLinkPage ''empty page carries a next cursor'')
      else if first_duplicate (map sl_link_id (ll_links page)) {} then Inl (InvalidLinkPage ''page contains duplicate link IDs'')
      else Inr ())"

text \<open>\<open>application/x-www-form-urlencoded\<close>, as \<open>append_pair\<close> writes it.\<close>

definition hex_digit :: "nat \<Rightarrow> u8" where
  "hex_digit n = of_nat (if n < 10 then 48 + n else 55 + n)"

definition form_byte :: "u8 \<Rightarrow> bytes" where
  "form_byte b =
     (if in_range 48 57 b \<or> in_range 65 90 b \<or> in_range 97 122 b \<or> b \<in> {42, 45, 46, 95} then [b]
      else if b = 32 then [43]
      else [37, hex_digit (unat b div 16), hex_digit (unat b mod 16)])"

definition list_links_url :: "('i, 'b, 's) rest_client \<Rightarrow> 'i \<Rightarrow> list_links_options \<Rightarrow> url" where
  "list_links_url client stream_id options =
     (let pairs = (case lo_limit options of Some l \<Rightarrow> [(lit ''limit'', decimal (unat l))] | None \<Rightarrow> [])
            @ (case lo_cursor options of Some c \<Rightarrow> [(lit ''cursor'', concat (map form_byte c))] | None \<Rightarrow> []) in
      (stream_url client stream_id (lit ''/links''))\<lparr> url_query := Some (query_string pairs) \<rparr>)"

definition list_links :: "('i, 'b, 's) rest_client \<Rightarrow> (bytes \<Rightarrow> 'j + list_links_response) \<Rightarrow> 'i \<Rightarrow> list_links_options \<Rightarrow> link_secret \<Rightarrow> 's
    \<Rightarrow> ((url, 'j) client_error, list_links_response) outcome \<times> 's" where
  "list_links client parse stream_id options owner s =
     (if (case lo_limit options of Some limit \<Rightarrow> \<not> (1 \<le> limit \<and> limit \<le> of_nat MAX_LINK_PAGE_ITEMS) | None \<Rightarrow> False)
      then (Err (InvalidListLinksOptions ''limit must be between 1 and 100''), s)
      else if lo_cursor options = Some [] then (Err (InvalidListLinksOptions ''cursor must not be empty''), s)
      else case retry_transient (tc_config client) (tc_jitter client)
          (send_json_with_bearer client parse (plain_request ''GET'' (list_links_url client stream_id options) NoBody)
             ''list links'' (Some owner)) s of
          (Ok page, s, _) \<Rightarrow>
            (case validate_link_page page (case lo_limit options of Some l \<Rightarrow> unat l | None \<Rightarrow> MAX_LINK_PAGE_ITEMS) of
               Inl e \<Rightarrow> (Err e, s) | Inr _ \<Rightarrow> (Ok page, s))
        | (Err e, s, _) \<Rightarrow> (Err e, s)
        | (Panic, s, _) \<Rightarrow> (Panic, s))"

text \<open>\<open>seen_link_ids\<close> after a page, or \<open>None\<close> when a link repeats.\<close>

fun insert_all :: "link_id set \<Rightarrow> link_id list \<Rightarrow> link_id set option" where
  "insert_all seen [] = Some seen"
| "insert_all seen (l # ls) = (if l \<in> seen then None else insert_all (insert l seen) ls)"

record listing_state =
  ls_links :: "stream_link_summary list"
  ls_cursor :: "rstr option"
  ls_expected :: "link_id option"
  ls_seen_cursors :: "rstr set"
  ls_seen_link_ids :: "link_id set"

definition listing_start :: listing_state where
  "listing_start = \<lparr> ls_links = [], ls_cursor = None, ls_expected = None, ls_seen_cursors = {}, ls_seen_link_ids = {} \<rparr>"

text \<open>What the loop does with a page: it returns, or goes on with a new state.\<close>

definition listing_page :: "list_links_response \<Rightarrow> listing_state \<Rightarrow> ((url, 'j) client_error + list_links_response) + listing_state" where
  "listing_page page st =
     (if (case ls_expected st of Some e \<Rightarrow> e \<noteq> ll_authorizing_link_id page | None \<Rightarrow> False)
      then Inl (Inl (InvalidLinkPage ''authorizing link changed across pages''))
      else case insert_all (ls_seen_link_ids st) (map sl_link_id (ll_links page)) of
          None \<Rightarrow> Inl (Inl (InvalidLinkPage ''link ID appears on multiple pages''))
        | Some seen \<Rightarrow>
            let links = ls_links st @ ll_links page in
            (case ll_next_cursor page of
               None \<Rightarrow> Inl (Inr \<lparr> ll_authorizing_link_id = ll_authorizing_link_id page, ll_links = links, ll_next_cursor = None \<rparr>)
             | Some cursor \<Rightarrow>
                 if cursor \<in> ls_seen_cursors st then Inl (Inl (InvalidLinkPage ''link pagination cursor repeated''))
                 else Inr \<lparr> ls_links = links, ls_cursor = Some cursor, ls_expected = Some (ll_authorizing_link_id page),
                     ls_seen_cursors = insert cursor (ls_seen_cursors st), ls_seen_link_ids = seen \<rparr>))"

text \<open>The loop with a bound on the number of pages: \<open>None\<close> when more are needed.\<close>

fun list_all_links_loop :: "('i, 'b, 's) rest_client \<Rightarrow> (bytes \<Rightarrow> 'j + list_links_response) \<Rightarrow> 'i \<Rightarrow> link_secret \<Rightarrow> nat \<Rightarrow> listing_state \<Rightarrow> 's
    \<Rightarrow> (((url, 'j) client_error, list_links_response) outcome \<times> 's) option" where
  "list_all_links_loop client parse stream_id owner 0 st s = None"
| "list_all_links_loop client parse stream_id owner (Suc pages) st s =
     (case list_links client parse stream_id \<lparr> lo_limit = Some (of_nat MAX_LINK_PAGE_ITEMS), lo_cursor = ls_cursor st \<rparr> owner s of
        (Ok page, s) \<Rightarrow> (case listing_page page st of
            Inl (Inl e) \<Rightarrow> Some (Err e, s)
          | Inl (Inr response) \<Rightarrow> Some (Ok response, s)
          | Inr st \<Rightarrow> list_all_links_loop client parse stream_id owner pages st s)
      | (Err e, s) \<Rightarrow> Some (Err e, s)
      | (Panic, s) \<Rightarrow> Some (Panic, s))"

definition list_all_links :: "('i, 'b, 's) rest_client \<Rightarrow> (bytes \<Rightarrow> 'j + list_links_response) \<Rightarrow> 'i \<Rightarrow> link_secret \<Rightarrow> nat \<Rightarrow> 's
    \<Rightarrow> (((url, 'j) client_error, list_links_response) outcome \<times> 's) option" where
  "list_all_links client parse stream_id owner pages s = list_all_links_loop client parse stream_id owner pages listing_start s"

section \<open>What the loop returns\<close>

text \<open>The pages \<open>list_links\<close> answers from a cursor on: each asks for the cursor of the page before, and only the
  last carries none.\<close>

inductive listed :: "('i, 'b, 's) rest_client \<Rightarrow> (bytes \<Rightarrow> 'j + list_links_response) \<Rightarrow> 'i \<Rightarrow> link_secret \<Rightarrow> rstr option \<Rightarrow> 's
    \<Rightarrow> list_links_response list \<Rightarrow> 's \<Rightarrow> bool" where
  final_page: "list_links client parse stream_id \<lparr> lo_limit = Some (of_nat MAX_LINK_PAGE_ITEMS), lo_cursor = cursor \<rparr> owner s = (Ok page, s')
    \<Longrightarrow> ll_next_cursor page = None \<Longrightarrow> listed client parse stream_id owner cursor s [page] s'"
| more_pages: "list_links client parse stream_id \<lparr> lo_limit = Some (of_nat MAX_LINK_PAGE_ITEMS), lo_cursor = cursor \<rparr> owner s = (Ok page, mid)
    \<Longrightarrow> ll_next_cursor page = Some c \<Longrightarrow> listed client parse stream_id owner (Some c) mid pages s'
    \<Longrightarrow> listed client parse stream_id owner cursor s (page # pages) s'"

lemma first_duplicate_iff: "first_duplicate ls seen \<longleftrightarrow> \<not> (distinct ls \<and> set ls \<inter> seen = {})"
  by (induction ls arbitrary: seen) auto

lemma insert_all_Some: "insert_all seen ls = Some seen' \<longleftrightarrow> distinct ls \<and> set ls \<inter> seen = {} \<and> seen' = seen \<union> set ls"
  by (induction ls arbitrary: seen) auto

lemma insert_all_None: "insert_all seen ls = None \<longleftrightarrow> \<not> (distinct ls \<and> set ls \<inter> seen = {})"
  by (induction ls arbitrary: seen) auto

lemma listing_page_next:
  "listing_page page st = Inr st' \<longleftrightarrow> (\<exists>cursor.
      (case ls_expected st of Some e \<Rightarrow> e = ll_authorizing_link_id page | None \<Rightarrow> True)
      \<and> distinct (map sl_link_id (ll_links page)) \<and> set (map sl_link_id (ll_links page)) \<inter> ls_seen_link_ids st = {}
      \<and> ll_next_cursor page = Some cursor \<and> cursor \<notin> ls_seen_cursors st
      \<and> st' = \<lparr> ls_links = ls_links st @ ll_links page, ls_cursor = Some cursor, ls_expected = Some (ll_authorizing_link_id page),
          ls_seen_cursors = insert cursor (ls_seen_cursors st),
          ls_seen_link_ids = ls_seen_link_ids st \<union> set (map sl_link_id (ll_links page)) \<rparr>)"
  by (auto simp: listing_page_def insert_all_Some insert_all_None Let_def split: option.splits)

lemma listing_page_final:
  "listing_page page st = Inl (Inr response) \<longleftrightarrow>
      (case ls_expected st of Some e \<Rightarrow> e = ll_authorizing_link_id page | None \<Rightarrow> True)
      \<and> distinct (map sl_link_id (ll_links page)) \<and> set (map sl_link_id (ll_links page)) \<inter> ls_seen_link_ids st = {}
      \<and> ll_next_cursor page = None
      \<and> response = \<lparr> ll_authorizing_link_id = ll_authorizing_link_id page, ll_links = ls_links st @ ll_links page, ll_next_cursor = None \<rparr>"
  by (auto simp: listing_page_def insert_all_Some insert_all_None Let_def split: option.splits)

lemma list_all_links_loop_Ok:
  fixes parse :: "bytes \<Rightarrow> 'j + list_links_response"
  assumes "list_all_links_loop client parse stream_id owner pages st s = Some (Ok response, s')"
    and "distinct (map sl_link_id (ls_links st))" "ls_seen_link_ids st = set (map sl_link_id (ls_links st))"
  shows "\<exists>answers. listed client parse stream_id owner (ls_cursor st) s answers s'
    \<and> ll_links response = ls_links st @ concat (map ll_links answers)
    \<and> distinct (map sl_link_id (ll_links response))
    \<and> (\<forall>page \<in> set answers. ll_authorizing_link_id page = ll_authorizing_link_id response)
    \<and> (case ls_expected st of Some e \<Rightarrow> e = ll_authorizing_link_id response | None \<Rightarrow> True)
    \<and> ll_next_cursor response = None"
  using assms
proof (induction pages arbitrary: st s)
  case (Suc pages)
  obtain r mid where page: "list_links client parse stream_id \<lparr> lo_limit = Some (of_nat MAX_LINK_PAGE_ITEMS), lo_cursor = ls_cursor st \<rparr> owner s = (r, mid)"
    by (cases "list_links client parse stream_id \<lparr> lo_limit = Some (of_nat MAX_LINK_PAGE_ITEMS), lo_cursor = ls_cursor st \<rparr> owner s")
  obtain p where p: "r = Ok p"
    using Suc.prems(1) page by (cases r) auto
  show ?case
  proof (cases "listing_page p st :: ((url, 'j) client_error + list_links_response) + listing_state")
    case (Inl out)
    then have out: "out = Inr response" "s' = mid"
      using Suc.prems(1) page p by (cases out; simp)+
    with Inl have final: "listing_page p st = (Inl (Inr response) :: ((url, 'j) client_error + list_links_response) + listing_state)" by simp
    have "listed client parse stream_id owner (ls_cursor st) s [p] s'"
      using page p out(2) final by (intro final_page) (auto simp: listing_page_final)
    then show ?thesis
      using final Suc.prems(2,3) by (intro exI[of _ "[p]"]) (auto simp: listing_page_final split: option.splits)
  next
    case (Inr st')
    then obtain c where st': "st' = \<lparr> ls_links = ls_links st @ ll_links p, ls_cursor = Some c, ls_expected = Some (ll_authorizing_link_id p),
          ls_seen_cursors = insert c (ls_seen_cursors st),
          ls_seen_link_ids = ls_seen_link_ids st \<union> set (map sl_link_id (ll_links p)) \<rparr>"
        and c: "ll_next_cursor p = Some c" "case ls_expected st of Some e \<Rightarrow> e = ll_authorizing_link_id p | None \<Rightarrow> True"
        and new: "distinct (map sl_link_id (ll_links p))" "set (map sl_link_id (ll_links p)) \<inter> ls_seen_link_ids st = {}"
      by (auto simp: listing_page_next)
    have "list_all_links_loop client parse stream_id owner pages st' mid = Some (Ok response, s')"
      using Suc.prems(1) page p Inr by simp
    then obtain answers where rest: "listed client parse stream_id owner (ls_cursor st') mid answers s'"
        "ll_links response = ls_links st' @ concat (map ll_links answers)" "distinct (map sl_link_id (ll_links response))"
        "\<forall>page \<in> set answers. ll_authorizing_link_id page = ll_authorizing_link_id response"
        "case ls_expected st' of Some e \<Rightarrow> e = ll_authorizing_link_id response | None \<Rightarrow> True" "ll_next_cursor response = None"
    proof -
      have "distinct (map sl_link_id (ls_links st'))" "ls_seen_link_ids st' = set (map sl_link_id (ls_links st'))"
        using Suc.prems(2,3) new st' by auto
      from Suc.IH[OF \<open>list_all_links_loop client parse stream_id owner pages st' mid = _\<close> this] that
      show thesis by blast
    qed
    have "listed client parse stream_id owner (ls_cursor st) s (p # answers) s'"
      using more_pages[OF page[unfolded p] c(1)] rest(1) st' by simp
    then show ?thesis
      using rest st' c(2) by (intro exI[of _ "p # answers"]) (auto split: option.splits)
  qed
qed simp

text \<open>When \<open>list_all_links\<close> succeeds it returns the links of all the pages the service answered, followed
  from the first page to one without a cursor, in order and once each, under the authorizing link that
  every page named.\<close>

theorem list_all_links_collects:
  assumes "list_all_links client parse stream_id owner pages s = Some (Ok response, s')"
  shows "\<exists>answers. listed client parse stream_id owner None s answers s'
    \<and> ll_links response = concat (map ll_links answers)
    \<and> distinct (map sl_link_id (ll_links response))
    \<and> (\<forall>page \<in> set answers. ll_authorizing_link_id page = ll_authorizing_link_id response)
    \<and> ll_next_cursor response = None"
  using list_all_links_loop_Ok[OF assms[unfolded list_all_links_def]] by (auto simp: listing_start_def)

section \<open>That it returns\<close>

lemma list_links_page:
  fixes parse :: "bytes \<Rightarrow> 'j + list_links_response"
  assumes "list_links client parse stream_id options owner s = (Ok page, s')"
  shows "(\<exists>body. parse body = Inr page) \<and> (ll_next_cursor page \<noteq> None \<longrightarrow> ll_links page \<noteq> [])"
proof -
  let ?run = "send_json_with_bearer client parse (plain_request ''GET'' (list_links_url client stream_id options) NoBody) ''list links'' (Some owner)"
  obtain r t slept where call: "retry_transient (tc_config client) (tc_jitter client) ?run s = (r, t, slept)"
    by (cases "retry_transient (tc_config client) (tc_jitter client) ?run s") auto
  have page: "r = Ok page" "\<exists>n u. validate_link_page page n = (Inr u :: (url, 'j) client_error + unit)"
    using assms call by (auto simp: list_links_def split: if_splits outcome.splits sum.splits)
  obtain k where "attempt_result ?run s k = Inr page"
    using retry_loop_run[OF call[unfolded retry_transient_def retry_when_def Let_def]] page(1) by blast
  then obtain t' where "fst (?run t') = Inr page"
    by (auto simp: attempt_result_def)
  then obtain response where "json_response (tc_parse_error client) parse response ''list links'' = (Inr page :: (url, 'j) client_error + _)"
    by (auto simp: send_json_with_bearer_def and_then_eq_Inr split: prod.splits)
  then show ?thesis
    using page(2) by (auto simp: json_response_def and_then_eq_Inr validate_link_page_def split: if_splits)
qed

text \<open>C40: Listing all links returns, with an error if need be, however the service cuts the pages: if the links
  it can name are in a finite set, at most one page more than its size is asked for, since a page that
  carries a cursor has a link and no link may come twice.\<close>

theorem list_all_links_returns:
  fixes parse :: "bytes \<Rightarrow> 'j + list_links_response"
  assumes "finite L" "\<And>body page. parse body = Inr page \<Longrightarrow> sl_link_id ` set (ll_links page) \<subseteq> L" "card L < pages"
  shows "\<exists>r s'. list_all_links client parse stream_id owner pages s = Some (r, s')"
proof -
  have "card (L - ls_seen_link_ids st) < pages \<Longrightarrow> \<exists>r s'. list_all_links_loop client parse stream_id owner pages st s = Some (r, s')"
    for st s pages
  proof (induction pages arbitrary: st s)
    case (Suc pages)
    obtain r mid where page: "list_links client parse stream_id \<lparr> lo_limit = Some (of_nat MAX_LINK_PAGE_ITEMS), lo_cursor = ls_cursor st \<rparr> owner s = (r, mid)"
      by (cases "list_links client parse stream_id \<lparr> lo_limit = Some (of_nat MAX_LINK_PAGE_ITEMS), lo_cursor = ls_cursor st \<rparr> owner s")
    show ?case
    proof (cases r)
      case (Ok p)
      show ?thesis
      proof (cases "listing_page p st :: ((url, 'j) client_error + list_links_response) + listing_state")
        case (Inl out)
        then show ?thesis using page Ok by (cases out) auto
      next
        case (Inr st')
        then have new: "set (map sl_link_id (ll_links p)) \<inter> ls_seen_link_ids st = {}" "ll_next_cursor p \<noteq> None"
            "ls_seen_link_ids st' = ls_seen_link_ids st \<union> set (map sl_link_id (ll_links p))"
          by (auto simp: listing_page_next)
        moreover have "sl_link_id ` set (ll_links p) \<subseteq> L" "ll_links p \<noteq> []"
          using list_links_page[OF page[unfolded Ok]] assms(2) new(2) by auto
        ultimately have "L - ls_seen_link_ids st' \<subset> L - ls_seen_link_ids st"
          by (cases "ll_links p") auto
        then have "card (L - ls_seen_link_ids st') < card (L - ls_seen_link_ids st)"
          using assms(1) by (intro psubset_card_mono) auto
        then show ?thesis
          using Suc.IH[of st' mid] Suc.prems page Ok Inr by simp
      qed
    qed (use page in simp_all)
  qed simp
  from this[of listing_start pages s] assms(3) show ?thesis
    by (simp add: list_all_links_def listing_start_def)
qed

text \<open>A service that answers two pages of one link each.\<close>

definition sample_link :: "string \<Rightarrow> stream_link_summary" where
  "sample_link name = \<lparr> sl_link_id = LinkId (lit name), sl_permissions = LinkPermissions 1, sl_status = Active,
     sl_created_at = [], sl_expires_at = None, sl_revoked_at = None \<rparr>"

definition sample_page :: "bytes \<Rightarrow> unit + list_links_response" where
  "sample_page body =
     Inr (if body = [1] then \<lparr> ll_authorizing_link_id = LinkId (lit ''o''), ll_links = [sample_link ''a''], ll_next_cursor = Some (lit ''c'') \<rparr>
      else \<lparr> ll_authorizing_link_id = LinkId (lit ''o''), ll_links = [sample_link ''b''], ll_next_cursor = None \<rparr>)"

definition sample_paging_client :: "(unit, unit, bool) rest_client" where
  "sample_paging_client = \<lparr> tc_config = sample_config, tc_jitter = id, tc_show_id = (\<lambda>_. []), tc_parse_error = (\<lambda>_. None),
     tc_server = (\<lambda>request first. (Inr (sample_response (if first then [1] else [2])), False)) \<rparr>"

definition sample_listing :: list_links_response where
  "sample_listing = \<lparr> ll_authorizing_link_id = LinkId (lit ''o''), ll_links = [sample_link ''a'', sample_link ''b''], ll_next_cursor = None \<rparr>"

lemma sample_list_links:
  assumes "lo_limit options = Some 100" "lo_cursor options \<noteq> Some []"
  shows "list_links sample_paging_client sample_page () options (LinkSecret []) first
    = (Ok (projr (sample_page (if first then [1] else [2]))), False)"
proof -
  have "send_json_with_bearer sample_paging_client sample_page request operation secret first
      = (Inr (projr (sample_page (if first then [1] else [2]))) :: (url, unit) client_error + _, False)" for request operation secret
    by (simp add: sample_paging_client_def send_json_with_bearer_def send_request_def json_response_def is_success_def
        sample_response_def sample_page_def bounded_response_body_def const_defs)
  then show ?thesis
    using assms by (simp add: list_links_def retry_transient_def retry_when_first sample_paging_client_def[THEN arg_cong[of _ _ tc_config]]
        validate_link_page_def sample_page_def const_defs)
qed

lemma sample_list_all:
  "list_all_links sample_paging_client sample_page () (LinkSecret []) 3 True = Some (Ok sample_listing, False)"
  by (simp add: list_all_links_def listing_start_def numeral_3_eq_3 sample_list_links const_defs sample_page_def
      listing_page_def sample_link_def sample_listing_def lit_def)

lemma list_all_links_collects_witness:
  "\<exists>answers. listed sample_paging_client sample_page () (LinkSecret []) None True answers False
    \<and> ll_links sample_listing = concat (map ll_links answers)
    \<and> list_all (\<lambda>page. ll_authorizing_link_id page = LinkId (lit ''o'')) answers"
  using list_all_links_collects[OF sample_list_all] by (auto simp: list_all_iff sample_listing_def)

lemma list_all_links_returns_witness:
  "\<exists>r s'. list_all_links sample_paging_client sample_page () (LinkSecret []) 3 True = Some (r, s')"
  by (rule list_all_links_returns[of "{LinkId (lit ''a''), LinkId (lit ''b'')}"])
    (auto simp: sample_page_def sample_link_def lit_def split: if_splits)

end
