(* ===== verification/RestAppend.thy ===== *)
theory RestAppend
  imports RestClient WriterQueue
begin

text \<open>
  The stateless append (\<open>append_records\<close> of \<open>rust/src/client.rs\<close>): the checks of a batch, its JSON form, the
  retried request and the check of the range the service reports.
\<close>

section \<open>Code\<close>

fun append_json_loop :: "(bytes \<Rightarrow> rstr) \<Rightarrow> u64 \<Rightarrow> nat \<Rightarrow> nat \<Rightarrow> append_json_record list \<Rightarrow> append_record list
    \<Rightarrow> ('u, 'j) client_error + nat \<times> append_json_record list" where
  "append_json_loop enc start index payload_len json_records [] = Inr (payload_len, json_records)"
| "append_json_loop enc start index payload_len json_records (r # rest) =
     and_then (map_err FrameError (validate_record_len (length (ar_data r)))) (\<lambda>_.
     and_then (ok_or (InvalidStatelessAppend ''payload size overflow'') (usize_checked_add payload_len (length (ar_data r))))
       (\<lambda>payload_len.
     and_then (ok_or (InvalidStatelessAppend ''writer sequence overflow'') (checked_add start (of_nat index))) (\<lambda>seq_num.
     if ar_writer_seq_num r \<noteq> seq_num then Inl (InvalidStatelessAppend ''writer sequence numbers must be contiguous'')
     else append_json_loop enc start (index + 1) payload_len
       (json_records @ [\<lparr> aj_part = Some \<lparr> rrp_index = part_index (ar_part r), rrp_is_final = is_final (ar_part r) \<rparr>,
          aj_payload = compact_record_payload enc (ar_data r) \<rparr>]) rest)))"

definition stateless_append_request :: "(bytes \<Rightarrow> rstr) \<Rightarrow> client_writer_id \<Rightarrow> append_record list \<Rightarrow> u64 option
    \<Rightarrow> ('u, 'j) client_error + append_records_request" where
  "stateless_append_request enc writer records expected_next_seq_num =
     (if records = [] \<or> length records > MAX_STATELESS_APPEND_RECORDS
      then Inl (InvalidStatelessAppend ''record count must be between 1 and 128'')
      else
        let start = ar_writer_seq_num (records ! 0) in
        and_then (ok_or (InvalidStatelessAppend ''writer sequence overflow'') (checked_add start (of_nat (length records - 1))))
          (\<lambda>final.
        if final = - 1 then Inl (InvalidStatelessAppend ''writer sequence range must end before u64::MAX'')
        else if (case expected_next_seq_num of Some v \<Rightarrow> v > of_nat MAX_SAFE_INTEGER_U64 | None \<Rightarrow> False)
        then Inl (InvalidStatelessAppend ''expected next sequence exceeds the data adapter range'')
        else
          and_then (append_json_loop enc start 0 0 [] records) (\<lambda>(payload_len, json_records).
          if payload_len > MAX_STATELESS_APPEND_PAYLOAD_BYTES
          then Inl (InvalidStatelessAppend ''append payload must not exceed 900 KiB'')
          else Inr \<lparr> arq_writer = Some \<lparr> aw_id = enc (client_writer_id_bytes writer), aw_seq_num = start \<rparr>,
            arq_records = json_records, arq_expected_next_seq_num = expected_next_seq_num \<rparr>)))"

definition append_http_request :: "('i, 'b, 's) rest_client \<Rightarrow> 'i \<Rightarrow> append_records_request \<Rightarrow> 'b http_request" where
  "append_http_request client stream_id request =
     plain_request ''POST'' (stream_url client stream_id (lit ''/records'')) (AppendBody request)"

definition append_records :: "('i, 'b, 's) rest_client \<Rightarrow> (bytes \<Rightarrow> rstr) \<Rightarrow> (bytes \<Rightarrow> 'j + append_range) \<Rightarrow> 'i \<Rightarrow> client_writer_id
    \<Rightarrow> append_record list \<Rightarrow> u64 option \<Rightarrow> link_secret \<Rightarrow> 's \<Rightarrow> ((url, 'j) client_error, append_range) outcome \<times> 's" where
  "append_records client enc parse stream_id writer records expected_next_seq_num secret s =
     (case stateless_append_request enc writer records expected_next_seq_num of
        Inl e \<Rightarrow> (Err e, s)
      | Inr request \<Rightarrow>
          (case retry_transient (tc_config client) (tc_jitter client)
              (send_json_with_bearer client parse (append_http_request client stream_id request) ''append records'' (Some secret)) s of
             (Ok rng, s, _) \<Rightarrow> (case validate_append_range rng (length records) of Inl e \<Rightarrow> (Err e, s) | Inr rng \<Rightarrow> (Ok rng, s))
           | (Err e, s, _) \<Rightarrow> (Err e, s)
           | (Panic, s, _) \<Rightarrow> (Panic, s)))"

section \<open>Specification\<close>

text \<open>The batches that may be appended, and what a JSON record carries.\<close>

definition appendable :: "append_record list \<Rightarrow> u64 option \<Rightarrow> bool" where
  "appendable records expected \<longleftrightarrow>
     records \<noteq> [] \<and> length records \<le> MAX_STATELESS_APPEND_RECORDS
     \<and> (\<forall>i < length records. unat (ar_writer_seq_num (records ! i)) = unat (ar_writer_seq_num (records ! 0)) + i)
     \<and> unat (ar_writer_seq_num (last records)) < 2 ^ 64 - 1
     \<and> (\<forall>r \<in> set records. length (ar_data r) \<le> MAX_RECORD_PAYLOAD_BYTES)
     \<and> sum_list (map (length \<circ> ar_data) records) \<le> MAX_STATELESS_APPEND_PAYLOAD_BYTES
     \<and> (case expected of Some v \<Rightarrow> unat v \<le> MAX_SAFE_INTEGER_U64 | None \<Rightarrow> True)"

definition json_of_record :: "(bytes \<Rightarrow> rstr) \<Rightarrow> append_record \<Rightarrow> append_json_record" where
  "json_of_record enc r = \<lparr> aj_part = Some \<lparr> rrp_index = part_index (ar_part r), rrp_is_final = is_final (ar_part r) \<rparr>,
     aj_payload = compact_record_payload enc (ar_data r) \<rparr>"

lemma append_json_loop_Inr:
  "n \<le> usize_max \<Longrightarrow> index + length records \<le> 2 ^ 64 \<Longrightarrow>
   append_json_loop enc start index n js records = (Inr (m, js') :: ('u, 'j) client_error + _) \<longleftrightarrow>
     (\<forall>r \<in> set records. length (ar_data r) \<le> MAX_RECORD_PAYLOAD_BYTES)
     \<and> n + sum_list (map (length \<circ> ar_data) records) \<le> usize_max
     \<and> (\<forall>i < length records. unat start + (index + i) < 2 ^ 64 \<and> unat (ar_writer_seq_num (records ! i)) = unat start + (index + i))
     \<and> m = n + sum_list (map (length \<circ> ar_data) records) \<and> js' = js @ map (json_of_record enc) records"
proof (induction records arbitrary: index n js)
  case (Cons r records)
  have index: "unat (of_nat index :: u64) = index"
    using Cons.prems(2) by (simp add: unat_of_nat)
  have seq: "checked_add start (of_nat index) = Some (ar_writer_seq_num r)
      \<longleftrightarrow> unat start + index < 2 ^ 64 \<and> unat (ar_writer_seq_num r) = unat start + index"
    using index by (auto simp: checked_add_def word_unat_eq_iff unat_word_ariths)
  have all: "(\<forall>i < length (r # records). P i ((r # records) ! i)) \<longleftrightarrow> P 0 r \<and> (\<forall>i < length records. P (Suc i) (records ! i))" for P
    by (auto simp: less_Suc_eq_0_disj)
  have step: "append_json_loop enc start index n js (r # records) = (Inr (m, js') :: ('u, 'j) client_error + _) \<longleftrightarrow>
      length (ar_data r) \<le> MAX_RECORD_PAYLOAD_BYTES \<and> n + length (ar_data r) \<le> usize_max
      \<and> (unat start + index < 2 ^ 64 \<and> unat (ar_writer_seq_num r) = unat start + index)
      \<and> append_json_loop enc start (index + 1) (n + length (ar_data r)) (js @ [json_of_record enc r]) records
          = (Inr (m, js') :: ('u, 'j) client_error + _)"
    unfolding seq[symmetric] by (auto simp: and_then_eq_Inr usize_checked_add_def json_of_record_def split: if_splits)
  note seqs = all[of "\<lambda>i x. unat start + (index + i) < 2 ^ 64 \<and> unat (ar_writer_seq_num x) = unat start + (index + i)"]
  have rest: "n + length (ar_data r) \<le> usize_max \<Longrightarrow>
      append_json_loop enc start (index + 1) (n + length (ar_data r)) (js @ [json_of_record enc r]) records
        = (Inr (m, js') :: ('u, 'j) client_error + _) \<longleftrightarrow>
     (\<forall>r \<in> set records. length (ar_data r) \<le> MAX_RECORD_PAYLOAD_BYTES)
     \<and> n + sum_list (map (length \<circ> ar_data) (r # records)) \<le> usize_max
     \<and> (\<forall>i < length records. unat start + (index + Suc i) < 2 ^ 64 \<and> unat (ar_writer_seq_num (records ! i)) = unat start + (index + Suc i))
     \<and> m = n + sum_list (map (length \<circ> ar_data) (r # records)) \<and> js' = js @ map (json_of_record enc) (r # records)"
    using Cons.IH[of "n + length (ar_data r)" "index + 1" "js @ [json_of_record enc r]"] Cons.prems(2)
    by (simp add: add.assoc o_def)
  show ?case
    unfolding step seqs using rest by (auto simp: o_def)
qed auto

lemma last_seq:
  "records \<noteq> [] \<Longrightarrow> \<forall>i < length records. unat (ar_writer_seq_num (records ! i)) = k + i
    \<Longrightarrow> unat (ar_writer_seq_num (last records)) = k + (length records - 1)"
  by (simp add: last_conv_nth)

lemma final_seq_num:
  assumes "n < 2 ^ 64"
  shows "(\<exists>f. checked_add (start :: u64) (of_nat n) = Some f \<and> f \<noteq> - 1) \<longleftrightarrow> unat start + n < 2 ^ 64 - 1"
proof -
  have n: "unat (of_nat n :: u64) = n" using assms by (simp add: unat_of_nat)
  have "unat (- 1 :: u64) = 2 ^ 64 - 1"
    by (simp add: unsigned_minus_1_eq_mask mask_eq_exp_minus_1)
  moreover have "unat (start + of_nat n) = unat start + n" if "unat start + n < 2 ^ 64"
    using that by (simp add: unat_word_ariths n)
  ultimately have "start + of_nat n = - 1 \<longleftrightarrow> unat start + n = 2 ^ 64 - 1" if "unat start + n < 2 ^ 64"
    using that by (metis word_unat_eq_iff)
  then show ?thesis
    by (cases "unat start + n < 2 ^ 64") (auto simp: checked_add_def n)
qed

lemma stateless_append_request_Inr:
  "stateless_append_request enc writer records expected = (Inr request :: ('u, 'j) client_error + _) \<longleftrightarrow>
     appendable records expected
     \<and> request = \<lparr> arq_writer = Some \<lparr> aw_id = enc (client_writer_id_bytes writer), aw_seq_num = ar_writer_seq_num (records ! 0) \<rparr>,
         arq_records = map (json_of_record enc) records, arq_expected_next_seq_num = expected \<rparr>"
proof (cases "records \<noteq> [] \<and> length records \<le> MAX_STATELESS_APPEND_RECORDS")
  case False
  then show ?thesis by (auto simp: stateless_append_request_def appendable_def)
next
  case True
  let ?start = "ar_writer_seq_num (records ! 0)"
  let ?total = "sum_list (map (length \<circ> ar_data) records)"
  from True have n: "length records \<le> 128" "0 < length records" by (auto simp: const_defs)
  have expected: "(case expected of Some v \<Rightarrow> v > (of_nat MAX_SAFE_INTEGER_U64 :: u64) | None \<Rightarrow> False)
      \<longleftrightarrow> \<not> (case expected of Some v \<Rightarrow> unat v \<le> MAX_SAFE_INTEGER_U64 | None \<Rightarrow> True)"
    by (auto simp: word_less_nat_alt const_defs split: option.splits)
  have loop: "append_json_loop enc ?start 0 0 [] records = (Inr (m, js) :: ('u, 'j) client_error + _) \<longleftrightarrow>
     (\<forall>r \<in> set records. length (ar_data r) \<le> MAX_RECORD_PAYLOAD_BYTES) \<and> ?total \<le> usize_max
     \<and> (\<forall>i < length records. unat ?start + i < 2 ^ 64 \<and> unat (ar_writer_seq_num (records ! i)) = unat ?start + i)
     \<and> m = ?total \<and> js = map (json_of_record enc) records" for m js
    using append_json_loop_Inr[of 0 0 records enc ?start "[]" m js, where 'u = 'u and 'j = 'j] n by simp
  have final: "(\<exists>f. checked_add ?start (of_nat (length records - 1)) = Some f \<and> f \<noteq> - 1)
      \<longleftrightarrow> unat ?start + (length records - 1) < 2 ^ 64 - 1"
    using n by (intro final_seq_num) simp
  have request: "stateless_append_request enc writer records expected = (Inr request :: ('u, 'j) client_error + _) \<longleftrightarrow>
     (\<exists>f. checked_add ?start (of_nat (length records - 1)) = Some f \<and> f \<noteq> - 1)
     \<and> (case expected of Some v \<Rightarrow> unat v \<le> MAX_SAFE_INTEGER_U64 | None \<Rightarrow> True)
     \<and> (\<exists>m js. append_json_loop enc ?start 0 0 [] records = (Inr (m, js) :: ('u, 'j) client_error + _)
        \<and> m \<le> MAX_STATELESS_APPEND_PAYLOAD_BYTES
        \<and> request = \<lparr> arq_writer = Some \<lparr> aw_id = enc (client_writer_id_bytes writer), aw_seq_num = ?start \<rparr>,
            arq_records = js, arq_expected_next_seq_num = expected \<rparr>)"
  proof -
    have guard: "(records = [] \<or> length records > MAX_STATELESS_APPEND_RECORDS) = False" using True by auto
    show ?thesis
      unfolding stateless_append_request_def Let_def expected guard if_False
      by (cases "checked_add ?start (of_nat (length records - 1))";
          cases "append_json_loop enc ?start 0 0 [] records :: ('u, 'j) client_error + nat \<times> append_json_record list")
        (auto simp only: ok_or_simps and_then_simps if_split_asm sum.simps option.simps prod.simps prod.case not_less simp_thms
          split: if_splits prod.splits)
  qed
  have usize: "MAX_STATELESS_APPEND_PAYLOAD_BYTES \<le> usize_max" by (simp add: const_defs)
  have last: "unat (ar_writer_seq_num (last records)) = unat ?start + (length records - 1)"
    if "\<forall>i < length records. unat (ar_writer_seq_num (records ! i)) = unat ?start + i"
    using last_seq[OF _ that] True by simp
  have seqs: "(\<forall>i < length records. unat ?start + i < 2 ^ 64 \<and> unat (ar_writer_seq_num (records ! i)) = unat ?start + i)
      \<longleftrightarrow> (\<forall>i < length records. unat (ar_writer_seq_num (records ! i)) = unat ?start + i)"
  proof -
    have "unat w = k \<Longrightarrow> k < 2 ^ 64" for w :: u64 and k
      using unat_lt[of w] by auto
    then show ?thesis by blast
  qed
  have size: "(\<exists>m js. ((\<forall>r \<in> set records. length (ar_data r) \<le> MAX_RECORD_PAYLOAD_BYTES) \<and> ?total \<le> usize_max
       \<and> S \<and> m = ?total \<and> js = map (json_of_record enc) records) \<and> m \<le> MAX_STATELESS_APPEND_PAYLOAD_BYTES \<and> Q js)
      \<longleftrightarrow> (\<forall>r \<in> set records. length (ar_data r) \<le> MAX_RECORD_PAYLOAD_BYTES) \<and> S
       \<and> ?total \<le> MAX_STATELESS_APPEND_PAYLOAD_BYTES \<and> Q (map (json_of_record enc) records)" for S Q
    using usize by auto
  have reorder: "N \<Longrightarrow> M \<Longrightarrow> (B \<Longrightarrow> F = L) \<Longrightarrow> (F \<and> E \<and> A \<and> B \<and> T \<and> R) = ((N \<and> M \<and> B \<and> L \<and> A \<and> T \<and> E) \<and> R)"
    for F E A B T R L N M by blast
  show ?thesis
    unfolding request final loop seqs size appendable_def
  proof (rule reorder)
    show "(unat ?start + (length records - 1) < 2 ^ 64 - 1) = (unat (ar_writer_seq_num (last records)) < 2 ^ 64 - 1)"
      if "\<forall>i < length records. unat (ar_writer_seq_num (records ! i)) = unat ?start + i"
      using last[OF that] by simp
  qed (use True in simp_all)
qed

definition carries :: "(rstr \<Rightarrow> bytes option) \<Rightarrow> append_json_record \<Rightarrow> append_record \<Rightarrow> bool" where
  "carries dec j r \<longleftrightarrow> payload_bytes dec (aj_payload j) = (Inr (ar_data r) :: (unit, unit) client_error + bytes)
     \<and> aj_part j = Some \<lparr> rrp_index = part_index (ar_part r), rrp_is_final = is_final (ar_part r) \<rparr>"

lemma validate_append_range_spans:
  "validate_append_range rng n = (Inr rng' :: ('u, 'j) client_error + _) \<Longrightarrow> n < 2 ^ 64
    \<Longrightarrow> rng' = rng \<and> unat (ag_end_seq_num rng) = unat (ag_start_seq_num rng) + n"
  by (auto simp: validate_append_range_def checked_sub_def word_le_nat_alt unat_sub unat_of_nat split: if_splits
      dest!: arg_cong[of _ _ unat])

text \<open>A stateless append refuses a batch it may not send without a request. Otherwise every attempt sends the
  one request that names the writer, its first sequence number and, record by record, the part header
  and exactly the payload, and a range is returned only if it spans as many records as were appended.\<close>

theorem append_records_sends_one_batch:
  assumes "\<forall>r \<in> set records. dec (enc (ar_data r)) = Some (ar_data r)"
    and "append_records client enc parse stream_id writer records expected secret s = (r, s')"
  shows "if appendable records expected
    then \<exists>request k. s' = attempt_state (send_json_with_bearer client parse (append_http_request client stream_id request)
            ''append records'' (Some secret) :: 's \<Rightarrow> ((url, 'j) client_error + append_range) \<times> 's) s k
        \<and> k \<le> cc_bounded_operation_attempts (tc_config client)
        \<and> arq_writer request = Some \<lparr> aw_id = enc (client_writer_id_bytes writer), aw_seq_num = ar_writer_seq_num (records ! 0) \<rparr>
        \<and> arq_expected_next_seq_num request = expected
        \<and> list_all2 (carries dec) (arq_records request) records
        \<and> (\<forall>rng. r = Ok rng \<longrightarrow> unat (ag_end_seq_num rng) = unat (ag_start_seq_num rng) + length records)
    else s' = s \<and> (\<exists>e. r = Err e)"
proof (cases "stateless_append_request enc writer records expected :: (url, 'j) client_error + append_records_request")
  case (Inl e)
  then have "\<not> appendable records expected"
    using stateless_append_request_Inr[of enc writer records expected, where 'u = url and 'j = 'j] by auto
  then show ?thesis
    using Inl assms(2) by (auto simp: append_records_def)
next
  case (Inr request)
  let ?run = "send_json_with_bearer client parse (append_http_request client stream_id request) ''append records'' (Some secret)
    :: 's \<Rightarrow> ((url, 'j) client_error + append_range) \<times> 's"
  have ok: "appendable records expected" and request: "request = \<lparr> arq_writer = Some \<lparr> aw_id = enc (client_writer_id_bytes writer),
        aw_seq_num = ar_writer_seq_num (records ! 0) \<rparr>, arq_records = map (json_of_record enc) records, arq_expected_next_seq_num = expected \<rparr>"
    using iffD1[OF stateless_append_request_Inr Inr] by auto
  obtain r1 s1 slept where call: "retry_transient (tc_config client) (tc_jitter client) ?run s = (r1, s1, slept)"
    by (cases "retry_transient (tc_config client) (tc_jitter client) ?run s") auto
  obtain k where k: "k \<le> cc_bounded_operation_attempts (tc_config client)" "s1 = attempt_state ?run s k"
    using retry_loop_run[OF call[unfolded retry_transient_def retry_when_def Let_def]] by (auto simp del: upt_Suc)
  have "length records < 2 ^ 64" using ok by (simp add: appendable_def const_defs)
  then have out: "s' = s1" "\<forall>rng. r = Ok rng \<longrightarrow> unat (ag_end_seq_num rng) = unat (ag_start_seq_num rng) + length records"
    using assms(2) Inr call validate_append_range_spans[of _ "length records"]
    by (auto simp: append_records_def split: outcome.splits sum.splits)
  have "list_all2 (carries dec) (map (json_of_record enc) records) records"
    using assms(1) by (auto simp: list_all2_conv_all_nth carries_def json_of_record_def intro!: payload_bytes_compact)
  then show ?thesis
    using ok request k out by (simp only: if_True simp_thms) (intro exI[of _ request] exI[of _ k], simp)
qed

definition sample_append :: "append_record list" where
  "sample_append = [\<lparr> ar_writer_seq_num = 4, ar_part = unsplit, ar_data = lit ''a'' \<rparr>,
     \<lparr> ar_writer_seq_num = 5, ar_part = unsplit, ar_data = [255] \<rparr>]"

definition sample_append_client :: "(unit, unit, nat) rest_client" where
  "sample_append_client = \<lparr> tc_config = sample_config, tc_jitter = id, tc_show_id = (\<lambda>_. []), tc_parse_error = (\<lambda>_. None),
     tc_server = (\<lambda>request n. (Inr (sample_response []), n + 1)) \<rparr>"

definition sample_range :: append_range where
  "sample_range = \<lparr> ag_start_seq_num = 10, ag_end_seq_num = 12 \<rparr>"

lemma sample_appendable: "appendable sample_append None"
  by (simp add: appendable_def sample_append_def less_Suc_eq lit_def const_defs)

lemma sample_append_runs:
  "append_records sample_append_client id (\<lambda>_. Inr sample_range :: unit + append_range) () (ClientWriterId []) sample_append None (LinkSecret []) 0
    = (Ok sample_range, 1)"
proof -
  have request: "stateless_append_request id (ClientWriterId []) sample_append None
      = (Inr \<lparr> arq_writer = Some \<lparr> aw_id = id (client_writer_id_bytes (ClientWriterId [])), aw_seq_num = ar_writer_seq_num (sample_append ! 0) \<rparr>,
         arq_records = map (json_of_record id) sample_append, arq_expected_next_seq_num = None \<rparr> :: (url, unit) client_error + _)"
    unfolding stateless_append_request_Inr using sample_appendable by simp
  have "send_json_with_bearer sample_append_client (\<lambda>_. Inr sample_range) request operation secret n
      = (Inr sample_range :: (url, unit) client_error + _, n + 1)" for request operation secret n
    by (simp add: sample_append_client_def send_json_with_bearer_def send_request_def json_response_def is_success_def
        sample_response_def bounded_response_body_def const_defs)
  moreover have "validate_append_range sample_range (length sample_append) = (Inr sample_range :: (url, unit) client_error + _)"
    by (simp add: validate_append_range_def checked_sub_def sample_range_def sample_append_def)
  ultimately show ?thesis
    unfolding append_records_def request
    by (simp add: retry_transient_def retry_when_first sample_append_client_def[THEN arg_cong[of _ _ tc_config]])
qed

lemma append_records_sends_one_batch_witness:
  "\<exists>request k. 1 = attempt_state (send_json_with_bearer sample_append_client (\<lambda>_. Inr sample_range :: unit + append_range)
              (append_http_request sample_append_client () request) ''append records'' (Some (LinkSecret []))) 0 k
        \<and> k \<le> cc_bounded_operation_attempts (tc_config sample_append_client)
        \<and> arq_writer request = Some \<lparr> aw_id = id (client_writer_id_bytes (ClientWriterId [])), aw_seq_num = ar_writer_seq_num (sample_append ! 0) \<rparr>
        \<and> list_all2 (carries Some) (arq_records request) sample_append
        \<and> unat (ag_end_seq_num sample_range) = unat (ag_start_seq_num sample_range) + length sample_append"
  using append_records_sends_one_batch[OF _ sample_append_runs, of Some] sample_appendable by auto

end
