(* ===== verification/StreamUrl.thy ===== *)
theory StreamUrl
  imports Identifiers ClientErrors Rest
begin

text \<open>
  \<open>rust/src/stream_url.rs\<close>: the links people exchange, \<open>/s/<id>#<permissions>=<secret>\<close> and \<open>/t/...\<close>, their
  construction and their parser. The URL library and form encoding are third-party code: \<open>url_codec\<close> holds
  the parser and printer of URLs, form encoding of one component, the parser of a form, base64url and the
  codec of stream ids. The setters of a URL are updates of its parts; \<open>set_username\<close> and \<open>set_password\<close> fail
  without a host.
\<close>

record ('i, 'p, 'd) url_codec =
  uc_parse :: "rstr \<Rightarrow> 'p + url"
  uc_show :: "url \<Rightarrow> rstr"
  uc_form_encode :: "rstr \<Rightarrow> rstr"
  uc_form_parse :: "rstr \<Rightarrow> (rstr \<times> rstr) list"
  uc_decode_secret :: base64_decoder
  uc_decode_id :: "rstr \<Rightarrow> 'd + 'i"
  uc_show_id :: "'i \<Rightarrow> rstr"

record stream_link_param =
  lp_declared_permissions :: link_permissions
  lp_secret :: link_secret

datatype stream_anchor = StreamAnchor (anchor_seq_num: u64)

datatype stream_route = RouteStream | RouteTerminal

record 'i stream_locator =
  sl_stream_id :: 'i
  sl_route :: stream_route
  sl_link :: "stream_link_param option"
  sl_anchor :: "stream_anchor option"

datatype ('p, 'd) stream_link_error =
    LinkUrl 'p
  | InvalidScheme rstr
  | InvalidBaseUrl
  | InvalidStreamPath
  | InvalidStreamId 'd
  | QueryNotAllowed
  | InvalidFragment
  | InvalidPermissions permissions_error
  | InvalidLinkSecret
  | MultipleLinks
  | InvalidAnchor
  | MultipleAnchors
  | TerminalAnchorNotAllowed

section \<open>Parsing\<close>

definition validate_web_scheme :: "url \<Rightarrow> ('p, 'd) stream_link_error + unit" where
  "validate_web_scheme url =
     (if url_scheme url = lit ''http'' \<or> url_scheme url = lit ''https'' then Inr () else Inl (InvalidScheme (url_scheme url)))"

definition path_segments :: "url \<Rightarrow> rstr list option" where
  "path_segments url = (case url_path url of b # rest \<Rightarrow> if b = 47 then Some (split_on 47 rest) else None | [] \<Rightarrow> None)"

definition parse_stream_path :: "('i, 'p, 'd) url_codec \<Rightarrow> url \<Rightarrow> ('p, 'd) stream_link_error + stream_route \<times> 'i" where
  "parse_stream_path codec url =
     and_then (ok_or InvalidStreamPath (path_segments url)) (\<lambda>segments.
       case segments of
         [prefix, stream_id] \<Rightarrow>
           if prefix = lit ''s'' \<or> prefix = lit ''t''
           then and_then (map_err InvalidStreamId (uc_decode_id codec stream_id)) (\<lambda>stream_id.
                  Inr (if prefix = lit ''t'' then RouteTerminal else RouteStream, stream_id))
           else Inl InvalidStreamPath
       | _ \<Rightarrow> Inl InvalidStreamPath)"

fun fragment_loop :: "('i, 'p, 'd) url_codec \<Rightarrow> (rstr \<times> rstr) list \<Rightarrow> stream_link_param option \<times> stream_anchor option
    \<Rightarrow> ('p, 'd) stream_link_error + stream_link_param option \<times> stream_anchor option" where
  "fragment_loop codec [] found = Inr found"
| "fragment_loop codec ((key, value) # pairs) (link, anchor) =
     (if key = lit ''at'' then
        if anchor \<noteq> None then Inl MultipleAnchors
        else and_then (ok_or InvalidAnchor (case parse_canonical_decimal_u64 value of
                 Some v \<Rightarrow> if unat v \<le> MAX_SAFE_INTEGER_U64 then Some v else None
               | None \<Rightarrow> None)) (\<lambda>seq_num.
             fragment_loop codec pairs (link, Some (StreamAnchor seq_num)))
      else if link \<noteq> None then Inl MultipleLinks
      else and_then (map_err InvalidPermissions (permissions_from_str key)) (\<lambda>permissions.
           and_then (map_err (\<lambda>_. InvalidLinkSecret) (link_secret_from_str (uc_decode_secret codec) value)) (\<lambda>secret.
           fragment_loop codec pairs (Some \<lparr> lp_declared_permissions = permissions, lp_secret = secret \<rparr>, anchor))))"

definition parse_fragment :: "('i, 'p, 'd) url_codec \<Rightarrow> rstr
    \<Rightarrow> ('p, 'd) stream_link_error + stream_link_param option \<times> stream_anchor option" where
  "parse_fragment codec fragment =
     (if fragment = [] \<or> list_ex (\<lambda>part. part = []) (split_on 38 fragment) then Inl InvalidFragment
      else fragment_loop codec (uc_form_parse codec fragment) (None, None))"

definition stream_locator_parse :: "('i, 'p, 'd) url_codec \<Rightarrow> rstr \<Rightarrow> ('p, 'd) stream_link_error + 'i stream_locator" where
  "stream_locator_parse codec input =
     and_then (map_err LinkUrl (uc_parse codec input)) (\<lambda>url.
     and_then (validate_web_scheme url) (\<lambda>_.
     if url_query url \<noteq> None then Inl QueryNotAllowed
     else and_then (parse_stream_path codec url) (\<lambda>(route, stream_id).
       and_then (case url_fragment url of None \<Rightarrow> Inr (None, None) | Some fragment \<Rightarrow> parse_fragment codec fragment) (\<lambda>(link, anchor).
       if route = RouteTerminal \<and> anchor \<noteq> None then Inl TerminalAnchorNotAllowed
       else Inr \<lparr> sl_stream_id = stream_id, sl_route = route, sl_link = link, sl_anchor = anchor \<rparr>))))"

definition link_declaring :: "(link_permissions \<Rightarrow> bool) \<Rightarrow> 'i stream_locator \<Rightarrow> link_secret option" where
  "link_declaring required locator = (case sl_link locator of
       Some candidate \<Rightarrow> if required (lp_declared_permissions candidate) then Some (lp_secret candidate) else None
     | None \<Rightarrow> None)"

section \<open>Construction\<close>

definition url_without_user :: "url \<Rightarrow> unit + url" where
  "url_without_user url = (if url_host url = None then Inl () else Inr (url\<lparr> url_username := [] \<rparr>))"

definition url_without_password :: "url \<Rightarrow> unit + url" where
  "url_without_password url = (if url_host url = None then Inl () else Inr (url\<lparr> url_password := None \<rparr>))"

definition link_resource_url :: "('i, 'p, 'd) url_codec \<Rightarrow> url \<Rightarrow> 'i \<Rightarrow> string \<Rightarrow> ('p, 'd) stream_link_error + url" where
  "link_resource_url codec base_url stream_id prefix =
     and_then (validate_web_scheme base_url) (\<lambda>_.
     and_then (map_err (\<lambda>_. InvalidBaseUrl) (url_without_user base_url)) (\<lambda>url.
     and_then (map_err (\<lambda>_. InvalidBaseUrl) (url_without_password url)) (\<lambda>url.
     Inr (url\<lparr> url_path := lit ''/'' @ lit prefix @ lit ''/'' @ uc_show_id codec stream_id, url_query := None, url_fragment := None \<rparr>))))"

definition build_link :: "('i, 'p, 'd) url_codec \<Rightarrow> url \<Rightarrow> 'i \<Rightarrow> link_permissions \<Rightarrow> link_secret \<Rightarrow> string
    \<Rightarrow> (('p, 'd) stream_link_error, url) outcome" where
  "build_link codec base_url stream_id permissions secret prefix =
     (case link_resource_url codec base_url stream_id prefix of
        Inl e \<Rightarrow> Err e
      | Inr url \<Rightarrow>
          (case permissions_as_str permissions of
             Ok key \<Rightarrow> Ok (url\<lparr> url_fragment := Some (uc_form_encode codec key @ lit ''='' @ uc_form_encode codec (expose_secret secret)) \<rparr>)
           | _ \<Rightarrow> Panic))"

definition stream_link :: "('i, 'p, 'd) url_codec \<Rightarrow> url \<Rightarrow> 'i \<Rightarrow> link_permissions \<Rightarrow> link_secret
    \<Rightarrow> (('p, 'd) stream_link_error, url) outcome" where
  "stream_link codec base_url stream_id permissions secret = build_link codec base_url stream_id permissions secret ''s''"

definition terminal_link :: "('i, 'p, 'd) url_codec \<Rightarrow> url \<Rightarrow> 'i \<Rightarrow> link_permissions \<Rightarrow> link_secret
    \<Rightarrow> (('p, 'd) stream_link_error, url) outcome" where
  "terminal_link codec base_url stream_id permissions secret = build_link codec base_url stream_id permissions secret ''t''"

definition public_stream_url :: "('i, 'p, 'd) url_codec \<Rightarrow> url \<Rightarrow> 'i \<Rightarrow> ('p, 'd) stream_link_error + url" where
  "public_stream_url codec base_url stream_id = link_resource_url codec base_url stream_id ''s''"

definition public_terminal_url :: "('i, 'p, 'd) url_codec \<Rightarrow> url \<Rightarrow> 'i \<Rightarrow> ('p, 'd) stream_link_error + url" where
  "public_terminal_url codec base_url stream_id = link_resource_url codec base_url stream_id ''t''"

section \<open>Properties\<close>

text \<open>What one kind of pair contributes: at most one of them, and what it says.\<close>

definition pair_anchor :: "(rstr \<times> rstr) list \<Rightarrow> stream_anchor option \<Rightarrow> bool" where
  "pair_anchor pairs anchor \<longleftrightarrow> (case anchor of
       None \<Rightarrow> pairs = []
     | Some a \<Rightarrow> map snd pairs = [to_string (anchor_seq_num a)] \<and> unat (anchor_seq_num a) \<le> MAX_SAFE_INTEGER_U64)"

definition pair_link :: "base64_decoder \<Rightarrow> (rstr \<times> rstr) list \<Rightarrow> stream_link_param option \<Rightarrow> bool" where
  "pair_link dec pairs link \<longleftrightarrow> (case link of
       None \<Rightarrow> pairs = []
     | Some l \<Rightarrow> (\<exists>key. pairs = [(key, expose_secret (lp_secret l))] \<and> permissions_from_str key = Inr (lp_declared_permissions l))
         \<and> is_canonical_base64url_24 dec (expose_secret (lp_secret l)))"

abbreviation is_anchor_pair :: "rstr \<times> rstr \<Rightarrow> bool" where
  "is_anchor_pair pair \<equiv> fst pair = lit ''at''"

lemma to_string_inject: "to_string v = to_string w \<longleftrightarrow> v = w"
  using parse_canonical_decimal[of "to_string v"] by (metis option.inject)

lemma pair_anchor_Cons:
  "pair_anchor ((key, val) # pairs) anchor \<longleftrightarrow> pairs = []
     \<and> (\<exists>v. parse_canonical_decimal_u64 val = Some v \<and> unat v \<le> MAX_SAFE_INTEGER_U64 \<and> anchor = Some (StreamAnchor v))"
  by (cases anchor) (auto simp: pair_anchor_def parse_canonical_decimal to_string_inject)

lemma pair_link_Cons:
  "pair_link dec ((key, val) # pairs) link \<longleftrightarrow> pairs = []
     \<and> (\<exists>p. permissions_from_str key = Inr p \<and> is_canonical_base64url_24 dec val
          \<and> link = Some \<lparr> lp_declared_permissions = p, lp_secret = LinkSecret val \<rparr>)"
proof (cases link)
  case (Some l)
  then show ?thesis by (cases l; cases "lp_secret l") (auto simp: pair_link_def)
qed (simp add: pair_link_def)

lemma pair_Nil [simp]: "pair_anchor [] anchor \<longleftrightarrow> anchor = None" "pair_link dec [] link \<longleftrightarrow> link = None"
  by (auto simp: pair_anchor_def pair_link_def split: option.splits)

lemma fragment_loop_Inr:
  fixes codec :: "('i, 'p, 'd) url_codec"
  shows "fragment_loop codec pairs (link0, anchor0) = (Inr (link, anchor) :: ('p, 'd) stream_link_error + _) \<longleftrightarrow>
    (if anchor0 = None then pair_anchor (filter is_anchor_pair pairs) anchor else filter is_anchor_pair pairs = [] \<and> anchor = anchor0)
    \<and> (if link0 = None then pair_link (uc_decode_secret codec) (filter (\<lambda>p. \<not> is_anchor_pair p) pairs) link
       else filter (\<lambda>p. \<not> is_anchor_pair p) pairs = [] \<and> link = link0)"
proof (induction pairs arbitrary: link0 anchor0)
  case Nil
  then show ?case by auto
next
  case (Cons pair pairs)
  obtain key val where pair: "pair = (key, val)" by (cases pair)
  show ?case
  proof (cases "key = lit ''at''")
    case True
    then show ?thesis
      unfolding pair
      by (cases "parse_canonical_decimal_u64 val") (auto simp: Cons.IH pair_anchor_Cons)
  next
    case False
    then show ?thesis
      unfolding pair
      by (cases "permissions_from_str key") (auto simp: Cons.IH pair_link_Cons link_secret_from_str_def)
  qed
qed

text \<open>A fragment is accepted exactly when it is not empty, has no empty part, and its pairs are, in any order, at
  most one \<open>at\<close> with a canonical decimal in the safe range and at most one other pair, whose key is a
  permission text and whose value a canonical secret; the result is what the two say.\<close>

theorem parse_fragment_iff:
  fixes codec :: "('i, 'p, 'd) url_codec"
  shows "parse_fragment codec fragment = (Inr (link, anchor) :: ('p, 'd) stream_link_error + _) \<longleftrightarrow>
    fragment \<noteq> [] \<and> [] \<notin> set (split_on 38 fragment)
    \<and> pair_anchor (filter is_anchor_pair (uc_form_parse codec fragment)) anchor
    \<and> pair_link (uc_decode_secret codec) (filter (\<lambda>p. \<not> is_anchor_pair p) (uc_form_parse codec fragment)) link"
  by (auto simp: parse_fragment_def fragment_loop_Inr list_ex_iff)

text \<open>What the form library documents, and what the id codec does: encoding one component leaves no separator, a
  form of one pair parses to that pair, and ids print without a slash and parse back.\<close>

definition form_codec :: "('i, 'p, 'd) url_codec \<Rightarrow> bool" where
  "form_codec codec \<longleftrightarrow> (\<forall>key val. 38 \<notin> set (uc_form_encode codec key)
     \<and> uc_form_parse codec (uc_form_encode codec key @ lit ''='' @ uc_form_encode codec val) = [(key, val)])"

definition id_codec :: "('i, 'p, 'd) url_codec \<Rightarrow> bool" where
  "id_codec codec \<longleftrightarrow> (\<forall>i. 47 \<notin> set (uc_show_id codec i) \<and> uc_decode_id codec (uc_show_id codec i) = Inr i)"

text \<open>The URL library parses what it has printed.\<close>

definition prints_back :: "('i, 'p, 'd) url_codec \<Rightarrow> url \<Rightarrow> bool" where
  "prints_back codec url \<longleftrightarrow> uc_parse codec (uc_show codec url) = Inr url"

lemma permissions_as_str_valid:
  "valid_permissions p \<Longrightarrow> \<exists>key. permissions_as_str p = Ok key \<and> permissions_from_str key = Inr p \<and> key \<noteq> lit ''at''"
proof -
  assume "valid_permissions p"
  then have "\<exists>s \<in> {''o'', ''r'', ''w'', ''rw''}. permissions_as_str p = Ok (lit s) \<and> (s, p) \<in> set parsed_permissions"
    by (auto simp: valid_permissions_def parsed_permissions_def permissions_as_str_def perm_consts perm_defs)
  moreover have "\<forall>s \<in> {''o'', ''r'', ''w'', ''rw''}. lit s \<noteq> lit ''at''"
    by (simp add: lit_def of_char_def)
  ultimately show ?thesis using parsed_permissions_ok by blast
qed

definition route_prefix :: "stream_route \<Rightarrow> string" where
  "route_prefix route = (case route of RouteStream \<Rightarrow> ''s'' | RouteTerminal \<Rightarrow> ''t'')"

lemma parse_built_path:
  assumes "id_codec codec" "url_path url = lit ''/'' @ lit (route_prefix route) @ lit ''/'' @ uc_show_id codec i"
  shows "parse_stream_path codec url = (Inr (route, i) :: ('p, 'd) stream_link_error + _)"
proof -
  have path: "url_path url = 47 # (lit (route_prefix route) @ 47 # uc_show_id codec i)"
    using assms(2) by (simp add: lit_def of_char_def)
  have "47 \<notin> set (lit (route_prefix route))"
    by (cases route) (simp_all add: route_prefix_def lit_def of_char_def)
  then have "path_segments url = Some [lit (route_prefix route), uc_show_id codec i]"
    using assms(1) by (simp add: path_segments_def path split_on_append split_on_no_sep id_codec_def)
  then show ?thesis
    using assms(1) by (cases route) (simp_all add: parse_stream_path_def route_prefix_def id_codec_def lit_def of_char_def)
qed

lemma parse_built_fragment:
  fixes codec :: "('i, 'p, 'd) url_codec"
  assumes "form_codec codec" "permissions_as_str p = Ok key" "permissions_from_str key = Inr p" "key \<noteq> lit ''at''"
    and "valid_link_secret (uc_decode_secret codec) secret"
  shows "parse_fragment codec (uc_form_encode codec key @ lit ''='' @ uc_form_encode codec (expose_secret secret))
    = (Inr (Some \<lparr> lp_declared_permissions = p, lp_secret = secret \<rparr>, None) :: ('p, 'd) stream_link_error + _)"
proof -
  let ?fragment = "uc_form_encode codec key @ lit ''='' @ uc_form_encode codec (expose_secret secret)"
  have "38 \<notin> set ?fragment" "?fragment \<noteq> []"
    using assms(1) by (auto simp: form_codec_def lit_def of_char_def)
  then have "split_on 38 ?fragment = [?fragment]"
    by (intro split_on_no_sep)
  then show ?thesis
    using assms \<open>?fragment \<noteq> []\<close>
    by (simp add: parse_fragment_def form_codec_def valid_link_secret_parse)
qed

lemma built_link_parses:
  fixes codec :: "('i, 'p, 'd) url_codec"
  assumes "form_codec codec" "id_codec codec" "valid_permissions p" "valid_link_secret (uc_decode_secret codec) secret"
    and build: "build_link codec base i p secret (route_prefix route) = Ok url" and "prints_back codec url"
  shows "stream_locator_parse codec (uc_show codec url) = Inr \<lparr> sl_stream_id = i, sl_route = route,
        sl_link = Some \<lparr> lp_declared_permissions = p, lp_secret = secret \<rparr>, sl_anchor = None \<rparr>"
    and "url_username url = []" "url_password url = None" "url_query url = None"
proof -
  obtain key where key: "permissions_as_str p = Ok key" "permissions_from_str key = Inr p" "key \<noteq> lit ''at''"
    using permissions_as_str_valid[OF assms(3)] by blast
  have url: "url_scheme base \<in> {lit ''http'', lit ''https''}" "url = base\<lparr> url_username := [], url_password := None,
      url_path := lit ''/'' @ lit (route_prefix route) @ lit ''/'' @ uc_show_id codec i, url_query := None,
      url_fragment := Some (uc_form_encode codec key @ lit ''='' @ uc_form_encode codec (expose_secret secret)) \<rparr>"
    using build key(1)
    by (auto simp: build_link_def link_resource_url_def validate_web_scheme_def url_without_user_def url_without_password_def split: if_splits)
  then show "url_username url = []" "url_password url = None" "url_query url = None" by simp_all
  have "validate_web_scheme url = (Inr () :: ('p, 'd) stream_link_error + unit)"
    using url by (auto simp: validate_web_scheme_def)
  moreover have "parse_stream_path codec url = (Inr (route, i) :: ('p, 'd) stream_link_error + _)"
    by (rule parse_built_path[OF assms(2)]) (simp add: url(2))
  ultimately show "stream_locator_parse codec (uc_show codec url) = Inr \<lparr> sl_stream_id = i, sl_route = route,
        sl_link = Some \<lparr> lp_declared_permissions = p, lp_secret = secret \<rparr>, sl_anchor = None \<rparr>"
    using parse_built_fragment[OF assms(1) key assms(4)] assms(6) by (simp add: url(2) stream_locator_parse_def prints_back_def)
qed

text \<open>C33: A stream or terminal link built from any HTTP base with a host parses back to its stream, route, permissions
  and secret, and carries nothing of the base but its origin: no user name, password or query.\<close>

theorem link_roundtrip:
  fixes codec :: "('i, 'p, 'd) url_codec"
  assumes "form_codec codec" "id_codec codec" "valid_permissions p" "valid_link_secret (uc_decode_secret codec) secret"
    and "url_scheme base \<in> {lit ''http'', lit ''https''}" "url_host base \<noteq> None"
    and "\<And>url. build_link codec base i p secret (route_prefix route) = Ok url \<Longrightarrow> prints_back codec url"
  shows "\<exists>url. (case route of RouteStream \<Rightarrow> stream_link codec base i p secret | RouteTerminal \<Rightarrow> terminal_link codec base i p secret) = Ok url
    \<and> stream_locator_parse codec (uc_show codec url) = Inr \<lparr> sl_stream_id = i, sl_route = route,
        sl_link = Some \<lparr> lp_declared_permissions = p, lp_secret = secret \<rparr>, sl_anchor = None \<rparr>
    \<and> url_username url = [] \<and> url_password url = None \<and> url_query url = None"
proof -
  obtain key where key: "permissions_as_str p = Ok key" "permissions_from_str key = Inr p" "key \<noteq> lit ''at''"
    using permissions_as_str_valid[OF assms(3)] by blast
  then obtain url where build: "build_link codec base i p secret (route_prefix route) = Ok url"
    using assms(5,6) by (auto simp: build_link_def link_resource_url_def validate_web_scheme_def url_without_user_def url_without_password_def)
  moreover have "(case route of RouteStream \<Rightarrow> stream_link codec base i p secret | RouteTerminal \<Rightarrow> terminal_link codec base i p secret) = Ok url"
    using build by (cases route) (simp_all add: stream_link_def terminal_link_def route_prefix_def)
  ultimately show ?thesis
    using built_link_parses[OF assms(1-4) build assms(7)[OF build]] by blast
qed

text \<open>A form codec that escapes only the separators, and one link.\<close>

fun escape :: "rstr \<Rightarrow> rstr" where
  "escape [] = []"
| "escape (b # bs) = (if b = 37 \<or> b = 38 \<or> b = 61 then [37, b + 64] else [b]) @ escape bs"

fun unescape :: "rstr \<Rightarrow> rstr" where
  "unescape (b # c # bs) = (if b = 37 then (c - 64) # unescape bs else b # unescape (c # bs))"
| "unescape bs = bs"

definition sample_form_parse :: "rstr \<Rightarrow> (rstr \<times> rstr) list" where
  "sample_form_parse form = (case split_once 61 form of Some (key, val) \<Rightarrow> [(unescape key, unescape val)] | None \<Rightarrow> [])"

lemma escape_separators: "38 \<notin> set (escape bs)" "61 \<notin> set (escape bs)"
  by (induction bs) auto

lemma unescape_plain: "b \<noteq> 37 \<Longrightarrow> unescape (b # bs) = b # unescape bs"
  by (cases bs) auto

lemma unescape_escape: "unescape (escape bs) = bs"
  by (induction bs) (auto simp: unescape_plain)

definition sample_url :: url where
  "sample_url = \<lparr> url_scheme = lit ''https'', url_host = Some (lit ''h''), url_username = [], url_password = None,
     url_path = lit ''/s/i'', url_query = None, url_fragment = Some (lit ''rw='' @ replicate 32 65) \<rparr>"

definition sample_codec :: "(unit, unit, unit) url_codec" where
  "sample_codec = \<lparr> uc_parse = (\<lambda>_. Inr sample_url), uc_show = (\<lambda>_. lit ''https://h/s/i''),
     uc_form_encode = escape, uc_form_parse = sample_form_parse, uc_decode_secret = (\<lambda>_ _. Some []),
     uc_decode_id = (\<lambda>_. Inr ()), uc_show_id = (\<lambda>_. lit ''i'') \<rparr>"

lemma sample_codecs: "form_codec sample_codec" "id_codec sample_codec"
  using escape_separators unescape_escape
  by (auto simp: form_codec_def id_codec_def sample_codec_def sample_form_parse_def lit_def of_char_def split_once_append)

lemma link_roundtrip_witness:
  "\<exists>url. stream_link sample_codec (sample_url\<lparr> url_username := lit ''me'', url_query := Some (lit ''q'') \<rparr>) () read_write_perm
        (LinkSecret (replicate 32 65)) = Ok url
    \<and> stream_locator_parse sample_codec (uc_show sample_codec url) = Inr \<lparr> sl_stream_id = (), sl_route = RouteStream,
        sl_link = Some \<lparr> lp_declared_permissions = read_write_perm, lp_secret = LinkSecret (replicate 32 65) \<rparr>, sl_anchor = None \<rparr>
    \<and> url_username url = [] \<and> url_password url = None \<and> url_query url = None"
proof -
  let ?base = "sample_url\<lparr> url_username := lit ''me'', url_query := Some (lit ''q'') \<rparr>"
  let ?secret = "LinkSecret (replicate 32 65)"
  have escaped: "escape (replicate n 65) = replicate n 65" for n
    by (induction n) auto
  have built: "build_link sample_codec ?base () read_write_perm ?secret (route_prefix RouteStream) = Ok sample_url"
    by (simp add: build_link_def link_resource_url_def validate_web_scheme_def url_without_user_def url_without_password_def
        sample_url_def sample_codec_def route_prefix_def permissions_as_str_def read_write_perm_def perm_consts escaped lit_def of_char_def)
  have "prints_back sample_codec sample_url"
    by (simp add: prints_back_def sample_codec_def)
  moreover have "valid_permissions read_write_perm" "valid_link_secret (uc_decode_secret sample_codec) ?secret"
    by (simp_all add: valid_permissions_def valid_link_secret_def sample_codec_def is_canonical_base64url_24_def BASE64URL_24_ENCODED_LEN_def
        utf8_chars_ascii)
  ultimately show ?thesis
    using link_roundtrip[OF sample_codecs, of read_write_perm ?secret ?base "()" RouteStream] built
    by (simp add: sample_url_def)
qed

end
