(* ===== verification/TerminalCheckpoint.thy ===== *)
theory TerminalCheckpoint
  imports TerminalProtocol Rest "HOL-Library.RBT"
begin

text \<open>
  \<open>cli/src/terminal/checkpoint.rs\<close>: the emitter of terminal checkpoints. Two third-party parsers
  see the output: \<open>vt100\<close>, a terminal emulator whose screen can be written out, and \<open>vte\<close>, the parser of
  control sequences. Both call back into the code, so each is a function from its state and some bytes to
  its new state and the calls it makes, in order; what the code does on a call is modelled. The
  \<open>BTreeMap\<close> of modes is the library's red-black tree.
\<close>

section \<open>The terminal libraries\<close>

datatype vt_call =
    UnhandledChar nat
  | UnhandledControl u8
  | UnhandledEscape "u8 option" "u8 option" u8
  | UnhandledCsi "u8 option" "u8 option" "u16 list list" nat
  | UnhandledOsc "bytes list"

datatype vte_call =
    VtePrint nat
  | VteExecute u8
  | VteHook
  | VtePut u8
  | VteUnhook
  | VteOsc "bytes list"
  | VteCsi "u16 list list" bytes bool nat
  | VteEsc bytes bool u8

text \<open>Sizes are rows and columns, as in the library.\<close>

record ('v, 'p) terminal_library =
  vt_new :: "u16 \<Rightarrow> u16 \<Rightarrow> 'v"
  vt_process :: "'v \<Rightarrow> bytes \<Rightarrow> 'v \<times> vt_call list"
  vt_size :: "'v \<Rightarrow> u16 \<times> u16"
  vt_alternate_screen :: "'v \<Rightarrow> bool"
  vt_state_formatted :: "'v \<Rightarrow> bytes"
  vt_set_size :: "'v \<Rightarrow> u16 \<Rightarrow> u16 \<Rightarrow> 'v"
  vte_new :: 'p
  vte_advance :: "'p \<Rightarrow> bytes \<Rightarrow> 'p \<times> vte_call list"

section \<open>Modes\<close>

definition vt100_handles_dec_mode :: "u16 \<Rightarrow> bool" where
  "vt100_handles_dec_mode mode \<longleftrightarrow> mode \<in> {1, 6, 9, 25, 47, 1000, 1002, 1003, 1005, 1006, 1049, 2004}"

definition is_passthrough_dec_mode :: "u16 \<Rightarrow> bool" where
  "is_passthrough_dec_mode mode \<longleftrightarrow> mode \<in> {4, 5, 8, 12, 66, 67, 1001, 1004, 1007, 1010, 1011, 1014, 1015, 1016, 1034, 1035,
     1036, 1037, 1039, 1040, 1041, 1042, 1043, 1044, 1050, 1051, 1052, 1053, 1060, 1061, 2001, 2002, 2003, 2005, 2006,
     2026, 2031, 2048, 5522, 7727, 9001}"

datatype alternate_screen_mode = Switch47 | Switch1047 | SaveCursor

datatype alternate_transition = Enter alternate_screen_mode | Exit alternate_screen_mode

definition esc :: "string \<Rightarrow> bytes" where "esc s = 0x1b # lit s"

definition enter_sequence :: "alternate_screen_mode \<Rightarrow> bytes" where
  "enter_sequence mode = (if mode = SaveCursor then esc ''[?1049h'' else esc ''[?47h'')"

section \<open>Compatibility\<close>

record checkpoint_compatibility =
  cm_compatible :: bool
  cm_transition :: "alternate_transition option"
  cm_passthrough_modes :: "(u16, bool) rbt"

definition compatibility_default :: checkpoint_compatibility where
  "compatibility_default = \<lparr> cm_compatible = True, cm_transition = None, cm_passthrough_modes = RBT.empty \<rparr>"

definition compatibility_reject :: "checkpoint_compatibility \<Rightarrow> checkpoint_compatibility" where
  "compatibility_reject c = c\<lparr> cm_compatible := False, cm_transition := None \<rparr>"

definition mode_bytes :: "u16 \<times> bool \<Rightarrow> bytes" where
  "mode_bytes entry = (case entry of (mode, enabled) \<Rightarrow>
     esc ''[?'' @ decimal (unat mode) @ [if enabled then 104 else 108])"

definition append_passthrough_modes :: "checkpoint_compatibility \<Rightarrow> bytes \<Rightarrow> bytes" where
  "append_passthrough_modes c state = state @ concat (map mode_bytes (RBT.entries (cm_passthrough_modes c)))"

text \<open>The parameters of one \<open>h\<close> or \<open>l\<close> sequence: the alternate-screen mode among them, if any, and how many there are.\<close>

fun csi_params_loop :: "nat \<Rightarrow> u16 list list \<Rightarrow> checkpoint_compatibility \<Rightarrow> alternate_screen_mode option \<Rightarrow> nat
    \<Rightarrow> checkpoint_compatibility \<times> alternate_screen_mode option \<times> nat" where
  "csi_params_loop action [] c mode count = (c, mode, count)"
| "csi_params_loop action (param # params) c mode count =
     (if param = [6] then csi_params_loop action params (compatibility_reject c) mode (count + 1)
      else if param = [47] then csi_params_loop action params c (Some Switch47) (count + 1)
      else if param = [1047] then csi_params_loop action params c (Some Switch1047) (count + 1)
      else if param = [1049] then csi_params_loop action params c (Some SaveCursor) (count + 1)
      else case param of
          [value] \<Rightarrow>
            if is_passthrough_dec_mode value
            then csi_params_loop action params
                   (c\<lparr> cm_passthrough_modes := RBT.insert value (action = 104) (cm_passthrough_modes c) \<rparr>) mode (count + 1)
            else if vt100_handles_dec_mode value then csi_params_loop action params c mode (count + 1)
            else csi_params_loop action params (compatibility_reject c) mode (count + 1)
        | _ \<Rightarrow> csi_params_loop action params (compatibility_reject c) mode (count + 1))"

definition csi_dispatch :: "u16 list list \<Rightarrow> bytes \<Rightarrow> bool \<Rightarrow> nat \<Rightarrow> checkpoint_compatibility \<Rightarrow> checkpoint_compatibility" where
  "csi_dispatch params intermediates ignored action c =
     (if ignored then compatibility_reject c
      else if intermediates = [] \<and> action = 114 then compatibility_reject c
      else if intermediates = [33] \<and> action = 112
      then compatibility_reject (c\<lparr> cm_passthrough_modes := RBT.empty \<rparr>)
      else if intermediates = [63] \<and> (action = 104 \<or> action = 108) then
        (case csi_params_loop action params c None 0 of (c, mode, count) \<Rightarrow>
           (case mode of
              None \<Rightarrow> c
            | Some mode \<Rightarrow>
                if count = 1 \<and> cm_compatible c
                then c\<lparr> cm_transition := Some (if action = 104 then Enter mode else Exit mode) \<rparr>
                else compatibility_reject c))
      else c)"

definition esc_dispatch :: "bytes \<Rightarrow> bool \<Rightarrow> u8 \<Rightarrow> checkpoint_compatibility \<Rightarrow> checkpoint_compatibility" where
  "esc_dispatch intermediates ignored byte c =
     (if ignored \<or> intermediates \<noteq> [] \<or> byte = 55 \<or> byte = 56 then compatibility_reject c
      else if byte = 99 then c\<lparr> cm_passthrough_modes := RBT.empty \<rparr>
      else c)"

definition vte_perform :: "vte_call \<Rightarrow> checkpoint_compatibility \<Rightarrow> checkpoint_compatibility" where
  "vte_perform call c = (case call of
       VteExecute byte \<Rightarrow> if 7 \<le> byte \<and> byte \<le> 13 then c else compatibility_reject c
     | VteHook \<Rightarrow> compatibility_reject c
     | VteEsc intermediates ignored byte \<Rightarrow> esc_dispatch intermediates ignored byte c
     | VteCsi params intermediates ignored action \<Rightarrow> csi_dispatch params intermediates ignored action c
     | _ \<Rightarrow> c)"

definition unhandled_csi_ok :: "u8 option \<Rightarrow> u8 option \<Rightarrow> u16 list list \<Rightarrow> nat \<Rightarrow> bool" where
  "unhandled_csi_ok first_intermediate second_intermediate params action \<longleftrightarrow>
     first_intermediate = Some 63 \<and> second_intermediate = None \<and> (action = 104 \<or> action = 108)
     \<and> list_all (\<lambda>param. case param of
          [mode] \<Rightarrow> vt100_handles_dec_mode mode \<or> mode = 1047 \<or> is_passthrough_dec_mode mode
        | _ \<Rightarrow> False) params"

definition vt_callback :: "vt_call \<Rightarrow> bool \<Rightarrow> bool" where
  "vt_callback call compatible = (case call of
       UnhandledCsi first_intermediate second_intermediate params action \<Rightarrow>
         compatible \<and> unhandled_csi_ok first_intermediate second_intermediate params action
     | _ \<Rightarrow> False)"

section \<open>The emitter\<close>

definition CHECKPOINT_BYTE_INTERVAL :: nat where [const_defs]: "CHECKPOINT_BYTE_INTERVAL = 256 * 1024"
definition MAX_CHECKPOINT_STATE_BYTES :: nat where
  "MAX_CHECKPOINT_STATE_BYTES = MAX_RECORD_PAYLOAD_BYTES - SIZE_EVENT_LEN"

record terminal_state_checkpoint =
  ck_columns :: u16
  ck_rows :: u16
  ck_state :: bytes

record alternate_restore =
  ar_primary_state :: bytes
  ar_columns :: u16
  ar_rows :: u16
  ar_mode :: alternate_screen_mode

record ('v, 'p) checkpoint_emitter =
  em_parser :: 'v
  em_callbacks_compatible :: bool
  em_compatibility_parser :: 'p
  em_compatibility :: checkpoint_compatibility
  em_restore_columns :: u16
  em_restore_rows :: u16
  em_restore_state :: "bytes option"
  em_alternate_restore :: "alternate_restore option"
  em_pending_bytes :: nat
  em_pending_records :: nat

definition emitter_new :: "('v, 'p) terminal_library \<Rightarrow> u16 \<Rightarrow> u16 \<Rightarrow> ('v, 'p) checkpoint_emitter" where
  "emitter_new lib columns rows =
     \<lparr> em_parser = vt_new lib rows columns, em_callbacks_compatible = True, em_compatibility_parser = vte_new lib,
       em_compatibility = compatibility_default, em_restore_columns = columns, em_restore_rows = rows,
       em_restore_state = Some [], em_alternate_restore = None, em_pending_bytes = 0, em_pending_records = 0 \<rparr>"

definition can_compact :: "('v, 'p) checkpoint_emitter \<Rightarrow> bool" where
  "can_compact e \<longleftrightarrow> em_callbacks_compatible e \<and> cm_compatible (em_compatibility e)"

text \<open>\<open>self.parser.process(data)\<close> with the callbacks it makes.\<close>

definition parser_process :: "('v, 'p) terminal_library \<Rightarrow> bytes \<Rightarrow> ('v, 'p) checkpoint_emitter \<Rightarrow> ('v, 'p) checkpoint_emitter" where
  "parser_process lib data e = (case vt_process lib (em_parser e) data of (v, vt_calls) \<Rightarrow>
     e\<lparr> em_parser := v, em_callbacks_compatible := fold vt_callback vt_calls (em_callbacks_compatible e) \<rparr>)"

definition compatibility_advance :: "('v, 'p) terminal_library \<Rightarrow> bytes \<Rightarrow> ('v, 'p) checkpoint_emitter \<Rightarrow> ('v, 'p) checkpoint_emitter" where
  "compatibility_advance lib data e = (case vte_advance lib (em_compatibility_parser e) data of (p, vte_calls) \<Rightarrow>
     e\<lparr> em_compatibility_parser := p, em_compatibility := fold vte_perform vte_calls (em_compatibility e) \<rparr>)"

definition append_restore_data :: "bytes \<Rightarrow> ('v, 'p) checkpoint_emitter \<Rightarrow> ('v, 'p) checkpoint_emitter" where
  "append_restore_data data e = (case em_restore_state e of
       None \<Rightarrow> e
     | Some state \<Rightarrow>
         if length data > MAX_CHECKPOINT_STATE_BYTES - length state then e\<lparr> em_restore_state := None \<rparr>
         else e\<lparr> em_restore_state := Some (state @ data) \<rparr>)"

definition process_segment :: "('v, 'p) terminal_library \<Rightarrow> bytes \<Rightarrow> ('v, 'p) checkpoint_emitter \<Rightarrow> ('v, 'p) checkpoint_emitter" where
  "process_segment lib data e = append_restore_data data (parser_process lib data e)"

definition compact_state :: "('v, 'p) terminal_library \<Rightarrow> ('v, 'p) checkpoint_emitter \<Rightarrow> (u16 \<times> u16 \<times> bytes) option" where
  "compact_state lib e =
     (if \<not> can_compact e then None
      else (case vt_size lib (em_parser e) of (rows, columns) \<Rightarrow>
        (case (if vt_alternate_screen lib (em_parser e)
               then map_option (\<lambda>restore. ar_primary_state restore @ enter_sequence (ar_mode restore)
                        @ vt_state_formatted lib (em_parser e)) (em_alternate_restore e)
               else Some (vt_state_formatted lib (em_parser e))) of
           None \<Rightarrow> None
         | Some state \<Rightarrow>
             let state = append_passthrough_modes (em_compatibility e) state in
             if length state \<le> MAX_CHECKPOINT_STATE_BYTES then Some (columns, rows, state) else None)))"

definition rebase_restore_state :: "('v, 'p) terminal_library \<Rightarrow> ('v, 'p) checkpoint_emitter \<Rightarrow> ('v, 'p) checkpoint_emitter" where
  "rebase_restore_state lib e = (case compact_state lib e of
       None \<Rightarrow> if can_compact e then e\<lparr> em_restore_state := None \<rparr> else e
     | Some (columns, rows, state) \<Rightarrow>
         e\<lparr> em_restore_columns := columns, em_restore_rows := rows, em_restore_state := Some state \<rparr>)"

definition translate_unsupported_alternate_mode :: "('v, 'p) terminal_library \<Rightarrow> alternate_screen_mode \<Rightarrow> bool
    \<Rightarrow> ('v, 'p) checkpoint_emitter \<Rightarrow> ('v, 'p) checkpoint_emitter" where
  "translate_unsupported_alternate_mode lib mode enter e =
     (if mode \<noteq> Switch1047 then e
      else (parser_process lib (esc (if enter then ''[?47h'' else ''[?47l'')) e)\<lparr> em_callbacks_compatible := True \<rparr>)"

definition emitter_reject :: "('v, 'p) checkpoint_emitter \<Rightarrow> ('v, 'p) checkpoint_emitter" where
  "emitter_reject e = e\<lparr> em_compatibility := compatibility_reject (em_compatibility e) \<rparr>"

definition enter_alternate :: "('v, 'p) terminal_library \<Rightarrow> alternate_screen_mode \<Rightarrow> u8
    \<Rightarrow> ('v, 'p) checkpoint_emitter \<Rightarrow> ('v, 'p) checkpoint_emitter" where
  "enter_alternate lib mode byte e =
     (let primary_state = (if can_compact e \<and> \<not> vt_alternate_screen lib (em_parser e)
            then Some (vt_state_formatted lib (em_parser e)) else None);
          e = (if primary_state = None then emitter_reject e else e);
          e = process_segment lib [byte] e;
          e = translate_unsupported_alternate_mode lib mode True e;
          e = (if \<not> vt_alternate_screen lib (em_parser e) then emitter_reject e else e);
          restore = (case primary_state of
              None \<Rightarrow> None
            | Some state \<Rightarrow>
                if vt_alternate_screen lib (em_parser e)
                then (case vt_size lib (em_parser e) of (rows, columns) \<Rightarrow>
                  Some \<lparr> ar_primary_state = state, ar_columns = columns, ar_rows = rows, ar_mode = mode \<rparr>)
                else None) in
      rebase_restore_state lib (e\<lparr> em_alternate_restore := restore \<rparr>))"

definition exit_alternate :: "('v, 'p) terminal_library \<Rightarrow> alternate_screen_mode \<Rightarrow> u8
    \<Rightarrow> ('v, 'p) checkpoint_emitter \<Rightarrow> ('v, 'p) checkpoint_emitter" where
  "exit_alternate lib mode byte e =
     (let matching_restore = (can_compact e \<and> vt_alternate_screen lib (em_parser e)
            \<and> (case em_alternate_restore e of None \<Rightarrow> False | Some restore \<Rightarrow> ar_mode restore = mode));
          e = (if \<not> matching_restore then emitter_reject e else e);
          e = process_segment lib [byte] e;
          e = translate_unsupported_alternate_mode lib mode False e;
          e = e\<lparr> em_alternate_restore := None \<rparr>;
          e = (if vt_alternate_screen lib (em_parser e) then emitter_reject e else e) in
      rebase_restore_state lib e)"

definition process_alternate_transition :: "('v, 'p) terminal_library \<Rightarrow> alternate_transition \<Rightarrow> u8
    \<Rightarrow> ('v, 'p) checkpoint_emitter \<Rightarrow> ('v, 'p) checkpoint_emitter" where
  "process_alternate_transition lib transition byte e = (case transition of
       Enter mode \<Rightarrow> enter_alternate lib mode byte e
     | Exit mode \<Rightarrow> exit_alternate lib mode byte e)"

definition emitter_flush :: "('v, 'p) terminal_library \<Rightarrow> ('v, 'p) checkpoint_emitter
    \<Rightarrow> terminal_state_checkpoint option \<times> ('v, 'p) checkpoint_emitter" where
  "emitter_flush lib e =
     (if em_pending_records e = 0 then (None, e)
      else let e = e\<lparr> em_pending_bytes := 0, em_pending_records := 0 \<rparr> in
        if can_compact e then
          (case compact_state lib e of
             None \<Rightarrow> (None, e\<lparr> em_restore_state := None \<rparr>)
           | Some (columns, rows, state) \<Rightarrow>
               (Some \<lparr> ck_columns = columns, ck_rows = rows, ck_state = state \<rparr>,
                e\<lparr> em_restore_columns := columns, em_restore_rows := rows, em_restore_state := Some state \<rparr>))
        else (map_option (\<lambda>state. \<lparr> ck_columns = em_restore_columns e, ck_rows = em_restore_rows e, ck_state = state \<rparr>)
                (em_restore_state e), e))"

text \<open>The loop over the bytes: where a transition ends, the bytes before its last one are processed, then the transition.\<close>

fun process_loop :: "('v, 'p) terminal_library \<Rightarrow> bytes \<Rightarrow> nat list \<Rightarrow> nat \<Rightarrow> nat
    \<Rightarrow> ('v, 'p) checkpoint_emitter \<Rightarrow> nat \<times> nat \<times> ('v, 'p) checkpoint_emitter" where
  "process_loop lib data [] compatibility_start terminal_start e = (compatibility_start, terminal_start, e)"
| "process_loop lib data (index # indices) compatibility_start terminal_start e =
     (if data ! index \<noteq> 104 \<and> data ! index \<noteq> 108 then process_loop lib data indices compatibility_start terminal_start e
      else let e = e\<lparr> em_compatibility := (em_compatibility e)\<lparr> cm_transition := None \<rparr> \<rparr>;
               e = compatibility_advance lib (slice data compatibility_start (index + 1)) e in
        (case cm_transition (em_compatibility e) of
           None \<Rightarrow> process_loop lib data indices (index + 1) terminal_start e
         | Some transition \<Rightarrow>
             let e = e\<lparr> em_compatibility := (em_compatibility e)\<lparr> cm_transition := None \<rparr> \<rparr>;
                 e = process_segment lib (slice data terminal_start index) e;
                 e = process_alternate_transition lib transition (data ! index) e in
             process_loop lib data indices (index + 1) (index + 1) e))"

definition emitter_process :: "('v, 'p) terminal_library \<Rightarrow> bytes \<Rightarrow> ('v, 'p) checkpoint_emitter
    \<Rightarrow> terminal_state_checkpoint option \<times> ('v, 'p) checkpoint_emitter" where
  "emitter_process lib data e =
     (case process_loop lib data [0..<length data] 0 0 e of (compatibility_start, terminal_start, e) \<Rightarrow>
        (let e = e\<lparr> em_compatibility := (em_compatibility e)\<lparr> cm_transition := None \<rparr> \<rparr>;
             e = compatibility_advance lib (drop compatibility_start data) e;
             e = process_segment lib (drop terminal_start data) e;
             e = e\<lparr> em_pending_bytes := sat_add (em_pending_bytes e) (length data),
                    em_pending_records := sat_add (em_pending_records e) 1 \<rparr> in
         if em_pending_bytes e \<ge> CHECKPOINT_BYTE_INTERVAL \<or> em_pending_records e \<ge> TERMINAL_CHECKPOINT_RECORD_INTERVAL
         then emitter_flush lib e else (None, e)))"

definition alternate_resize :: "('v, 'p) terminal_library \<Rightarrow> u16 \<Rightarrow> u16 \<Rightarrow> alternate_restore \<Rightarrow> bool \<times> alternate_restore" where
  "alternate_resize lib columns rows restore =
     (let parser = fst (vt_process lib (vt_new lib (ar_rows restore) (ar_columns restore)) (ar_primary_state restore));
          state = vt_state_formatted lib (vt_set_size lib parser rows columns) in
      if length state > MAX_CHECKPOINT_STATE_BYTES then (False, restore)
      else (True, restore\<lparr> ar_primary_state := state, ar_columns := columns, ar_rows := rows \<rparr>))"

definition emitter_resize :: "('v, 'p) terminal_library \<Rightarrow> u16 \<Rightarrow> u16 \<Rightarrow> ('v, 'p) checkpoint_emitter
    \<Rightarrow> terminal_state_checkpoint option \<times> ('v, 'p) checkpoint_emitter" where
  "emitter_resize lib columns rows e =
     (let e = (if vt_size lib (em_parser e) \<noteq> (rows, columns) then
            (let alternate_screen = vt_alternate_screen lib (em_parser e) in
             if alternate_screen \<and> can_compact e then
               (case em_alternate_restore e of
                  Some restore \<Rightarrow> (case alternate_resize lib columns rows restore of (resized, restore) \<Rightarrow>
                    let e = e\<lparr> em_alternate_restore := Some restore \<rparr> in
                    if \<not> resized then emitter_reject (e\<lparr> em_restore_state := None \<rparr>) else e)
                | None \<Rightarrow> e\<lparr> em_restore_state := None \<rparr>)
             else if alternate_screen \<or> \<not> can_compact e then e\<lparr> em_restore_state := None \<rparr>
             else e)
          else e) in
      emitter_flush lib (e\<lparr> em_parser := vt_set_size lib (em_parser e) rows columns,
         em_pending_records := sat_add (em_pending_records e) 1 \<rparr>))"

definition emitter_heartbeat :: "('v, 'p) terminal_library \<Rightarrow> ('v, 'p) checkpoint_emitter
    \<Rightarrow> terminal_state_checkpoint option \<times> ('v, 'p) checkpoint_emitter" where
  "emitter_heartbeat lib e =
     (let e = e\<lparr> em_pending_records := sat_add (em_pending_records e) 1 \<rparr> in
      if em_pending_records e \<ge> TERMINAL_CHECKPOINT_RECORD_INTERVAL then emitter_flush lib e else (None, e))"

section \<open>Bounds\<close>

text \<open>What the emulator documents about sizes: they are set by its constructor and by resizing only.\<close>

definition sized_library :: "('v, 'p) terminal_library \<Rightarrow> bool" where
  "sized_library lib \<longleftrightarrow> (\<forall>rows columns v data. vt_size lib (vt_new lib rows columns) = (rows, columns)
     \<and> vt_size lib (fst (vt_process lib v data)) = vt_size lib v
     \<and> vt_size lib (vt_set_size lib v rows columns) = (rows, columns))"

definition restorable :: "('v, 'p) terminal_library \<Rightarrow> ('v, 'p) checkpoint_emitter \<Rightarrow> bool" where
  "restorable lib e \<longleftrightarrow> (\<forall>state. em_restore_state e = Some state \<longrightarrow> length state \<le> MAX_CHECKPOINT_STATE_BYTES)
     \<and> valid_size (em_restore_columns e) (em_restore_rows e)
     \<and> valid_size (snd (vt_size lib (em_parser e))) (fst (vt_size lib (em_parser e)))"

lemma restorable_updates [simp]:
  "restorable lib (e\<lparr> em_callbacks_compatible := b \<rparr>) = restorable lib e"
  "restorable lib (e\<lparr> em_compatibility_parser := p \<rparr>) = restorable lib e"
  "restorable lib (e\<lparr> em_compatibility := c \<rparr>) = restorable lib e"
  "restorable lib (e\<lparr> em_alternate_restore := r \<rparr>) = restorable lib e"
  "restorable lib (e\<lparr> em_pending_bytes := m \<rparr>) = restorable lib e"
  "restorable lib (e\<lparr> em_pending_records := n \<rparr>) = restorable lib e"
  "restorable lib (emitter_reject e) = restorable lib e"
  "restorable lib (if P then emitter_reject e else e) = restorable lib e"
  by (simp_all add: restorable_def emitter_reject_def)

lemma restorable_forget: "restorable lib e \<Longrightarrow> restorable lib (e\<lparr> em_restore_state := None \<rparr>)"
  by (simp add: restorable_def)

text \<open>No step of a segment counts anything.\<close>

definition pending :: "('v, 'p) checkpoint_emitter \<Rightarrow> nat \<times> nat" where
  "pending e = (em_pending_bytes e, em_pending_records e)"

lemma pending_updates [simp]:
  "pending (e\<lparr> em_callbacks_compatible := b \<rparr>) = pending e"
  "pending (e\<lparr> em_compatibility_parser := p \<rparr>) = pending e"
  "pending (e\<lparr> em_compatibility := c \<rparr>) = pending e"
  "pending (e\<lparr> em_alternate_restore := r \<rparr>) = pending e"
  "pending (e\<lparr> em_restore_state := st \<rparr>) = pending e"
  "pending (emitter_reject e) = pending e"
  "pending (if P then emitter_reject e else e) = pending e"
  by (simp_all add: pending_def emitter_reject_def)

lemma parser_process_kept:
  "sized_library lib \<Longrightarrow> restorable lib e \<Longrightarrow> restorable lib (parser_process lib data e)"
  "pending (parser_process lib data e) = pending e"
proof -
  assume "sized_library lib" "restorable lib e"
  moreover obtain v vt_calls where "vt_process lib (em_parser e) data = (v, vt_calls)" by (cases "vt_process lib (em_parser e) data")
  moreover from this have "vt_size lib v = vt_size lib (em_parser e)"
    using \<open>sized_library lib\<close> unfolding sized_library_def by (metis fst_conv)
  ultimately show "restorable lib (parser_process lib data e)"
    by (simp add: parser_process_def restorable_def)
qed (simp add: parser_process_def pending_def split: prod.splits)

lemma compatibility_advance_kept:
  "restorable lib (compatibility_advance lib data e) = restorable lib e" "pending (compatibility_advance lib data e) = pending e"
  by (simp_all add: compatibility_advance_def restorable_def pending_def split: prod.splits)

lemma process_segment_kept:
  "sized_library lib \<Longrightarrow> restorable lib e \<Longrightarrow> restorable lib (process_segment lib data e)"
  "pending (process_segment lib data e) = pending e"
proof -
  assume "sized_library lib" "restorable lib e"
  then have "restorable lib (parser_process lib data e)" by (rule parser_process_kept)
  then show "restorable lib (process_segment lib data e)"
    by (auto simp: process_segment_def append_restore_data_def restorable_def split: option.splits)
next
  show "pending (process_segment lib data e) = pending e"
    using parser_process_kept(2)[of lib data e]
    by (simp add: process_segment_def append_restore_data_def pending_def split: option.splits)
qed

lemma translate_kept:
  "sized_library lib \<Longrightarrow> restorable lib e \<Longrightarrow> restorable lib (translate_unsupported_alternate_mode lib mode enter e)"
  "pending (translate_unsupported_alternate_mode lib mode enter e) = pending e"
  by (simp_all only: translate_unsupported_alternate_mode_def if_distrib[of "restorable lib"] if_distrib[of pending] restorable_updates
      pending_updates parser_process_kept if_cancel split: if_split)

lemma compact_state_bounds:
  "compact_state lib e = Some (columns, rows, state) \<Longrightarrow> length state \<le> MAX_CHECKPOINT_STATE_BYTES
    \<and> vt_size lib (em_parser e) = (rows, columns)"
  by (auto simp: compact_state_def Let_def split: if_splits prod.splits option.splits)

lemma rebase_kept:
  "restorable lib e \<Longrightarrow> restorable lib (rebase_restore_state lib e)"
  "pending (rebase_restore_state lib e) = pending e"
proof -
  assume ok: "restorable lib e"
  show "restorable lib (rebase_restore_state lib e)"
  proof (cases "compact_state lib e")
    case None
    then show ?thesis using ok by (simp add: rebase_restore_state_def restorable_def)
  next
    case (Some found)
    obtain columns rows state where "found = (columns, rows, state)" by (cases found)
    then show ?thesis
      using ok Some compact_state_bounds[of lib e columns rows state] by (simp add: rebase_restore_state_def restorable_def)
  qed
qed (simp add: rebase_restore_state_def pending_def split: option.splits prod.splits)

lemmas segment_kept = rebase_kept translate_kept process_segment_kept compatibility_advance_kept

lemma transition_kept:
  "sized_library lib \<Longrightarrow> restorable lib e \<Longrightarrow> restorable lib (process_alternate_transition lib transition byte e)"
  "pending (process_alternate_transition lib transition byte e) = pending e"
  by (cases transition; simp only: process_alternate_transition_def enter_alternate_def exit_alternate_def Let_def
      alternate_transition.case segment_kept restorable_updates pending_updates)+

lemma process_loop_kept:
  "process_loop lib data indices compatibility_start terminal_start e = (c, t, e') \<Longrightarrow> sized_library lib \<Longrightarrow> restorable lib e \<Longrightarrow>
    restorable lib e' \<and> pending e' = pending e"
proof (induction lib data indices compatibility_start terminal_start e rule: process_loop.induct)
  case (2 lib data index indices compatibility_start terminal_start e)
  let ?e = "compatibility_advance lib (slice data compatibility_start (index + 1))
      (e\<lparr> em_compatibility := (em_compatibility e)\<lparr> cm_transition := None \<rparr> \<rparr>)"
  have e: "restorable lib ?e" "pending ?e = pending e"
    using "2.prems"(3) by (simp_all add: segment_kept)
  show ?case
  proof (cases "data ! index \<noteq> 104 \<and> data ! index \<noteq> 108")
    case True
    then show ?thesis using "2.IH"(1) "2.prems" by simp
  next
    case False
    show ?thesis
    proof (cases "cm_transition (em_compatibility ?e)")
      case None
      then show ?thesis
        using "2.IH"(2)[OF False refl refl None] "2.prems"(1,2) False e by simp
    next
      case (Some transition)
      let ?next = "process_alternate_transition lib transition (data ! index) (process_segment lib (slice data terminal_start index)
          (?e\<lparr> em_compatibility := (em_compatibility ?e)\<lparr> cm_transition := None \<rparr> \<rparr>))"
      have "restorable lib ?next" "pending ?next = pending e"
        using e "2.prems"(2) by (simp_all add: segment_kept transition_kept)
      moreover have "process_loop lib data indices (index + 1) (index + 1) ?next = (c, t, e')"
        using "2.prems"(1) False Some by (simp add: Let_def cong: option.case_cong)
      ultimately show ?thesis
        using "2.IH"(3)[OF False refl refl Some refl refl refl] "2.prems"(2) by presburger
    qed
  qed
qed simp

text \<open>Between two operations fewer than the limits are pending, and every checkpoint fits a record.\<close>

definition emitter_inv :: "('v, 'p) terminal_library \<Rightarrow> ('v, 'p) checkpoint_emitter \<Rightarrow> bool" where
  "emitter_inv lib e \<longleftrightarrow> restorable lib e \<and> em_pending_bytes e < CHECKPOINT_BYTE_INTERVAL
     \<and> em_pending_records e < TERMINAL_CHECKPOINT_RECORD_INTERVAL"

definition fits_record :: "terminal_state_checkpoint \<Rightarrow> bool" where
  "fits_record ck \<longleftrightarrow> valid_size (ck_columns ck) (ck_rows ck) \<and> length (ck_state ck) \<le> MAX_CHECKPOINT_STATE_BYTES"

lemma fits_record_encodes:
  "fits_record ck \<Longrightarrow> \<exists>bs. encode_terminal_output (Checkpoint (ck_columns ck) (ck_rows ck) (ck_state ck)) = Inr bs
     \<and> length bs \<le> MAX_RECORD_PAYLOAD_BYTES"
  by (auto simp: fits_record_def encode_terminal_output_def encode_checkpoint_Inr MAX_CHECKPOINT_STATE_BYTES_def const_defs event_consts)

lemma emitter_new_inv: "sized_library lib \<Longrightarrow> valid_size columns rows \<Longrightarrow> emitter_inv lib (emitter_new lib columns rows)"
  by (simp add: emitter_inv_def emitter_new_def restorable_def sized_library_def const_defs)

text \<open>The emitter can write a checkpoint now.\<close>

definition checkpointable :: "('v, 'p) terminal_library \<Rightarrow> ('v, 'p) checkpoint_emitter \<Rightarrow> bool" where
  "checkpointable lib e \<longleftrightarrow> (if can_compact e then compact_state lib e \<noteq> None else em_restore_state e \<noteq> None)"

lemma compact_state_ignores [simp]:
  "compact_state lib (e\<lparr> em_restore_state := st \<rparr>) = compact_state lib e"
  "compact_state lib (e\<lparr> em_restore_columns := c, em_restore_rows := r, em_restore_state := st \<rparr>) = compact_state lib e"
  by (cases e; simp add: compact_state_def can_compact_def comp_def split: option.split prod.split)+

lemma emitter_flush_spec:
  assumes "emitter_flush lib e = (ck, e')" "restorable lib e" "em_pending_records e = 0 \<Longrightarrow> emitter_inv lib e"
  shows "emitter_inv lib e' \<and> em_pending_records e' = 0 \<and> (\<forall>c. ck = Some c \<longrightarrow> fits_record c)
    \<and> (em_pending_records e \<noteq> 0 \<longrightarrow> checkpointable lib e' \<longrightarrow> ck \<noteq> None)"
proof -
  let ?e = "e\<lparr> em_pending_bytes := 0, em_pending_records := 0 \<rparr>"
  have zero: "emitter_inv lib ?e" "em_pending_records ?e = 0"
    using assms(2) by (simp_all add: emitter_inv_def const_defs)
  show ?thesis
  proof (cases "em_pending_records e = 0")
    case True
    then show ?thesis using assms by (auto simp: emitter_flush_def emitter_inv_def const_defs)
  next
    case False
    show ?thesis
    proof (cases "can_compact ?e")
      case True
      then show ?thesis
        using assms(1,2) False compact_state_bounds[of lib ?e]
        by (auto simp: emitter_flush_def emitter_inv_def restorable_def fits_record_def checkpointable_def can_compact_def const_defs Let_def
            split: option.splits)
    next
      case no_compact: False
      then show ?thesis
        using assms(1,2) False by (auto simp: emitter_flush_def emitter_inv_def restorable_def fits_record_def checkpointable_def can_compact_def const_defs Let_def)
    qed
  qed
qed

text \<open>One operation on the emitter.\<close>

definition emitter_advances :: "('v, 'p) terminal_library \<Rightarrow> ('v, 'p) checkpoint_emitter \<Rightarrow> terminal_state_checkpoint option
    \<Rightarrow> ('v, 'p) checkpoint_emitter \<Rightarrow> bool" where
  "emitter_advances lib e ck e' \<longleftrightarrow> emitter_inv lib e' \<and> (\<forall>c. ck = Some c \<longrightarrow> fits_record c)
     \<and> ((em_pending_records e' = 0 \<and> (checkpointable lib e' \<longrightarrow> ck \<noteq> None))
        \<or> (ck = None \<and> em_pending_records e' = em_pending_records e + 1))"

lemma usize_large: "CHECKPOINT_BYTE_INTERVAL < usize_max" "TERMINAL_CHECKPOINT_RECORD_INTERVAL < usize_max"
  by (simp_all add: const_defs usize_max_def)

lemma one_record: "em_pending_records e < TERMINAL_CHECKPOINT_RECORD_INTERVAL \<Longrightarrow> sat_add (em_pending_records e) 1 = em_pending_records e + 1"
  using usize_large by (intro sat_add_eq) simp

lemma emitter_process_advances:
  assumes "emitter_process lib data e = (ck, e')" "sized_library lib" "emitter_inv lib e"
  shows "emitter_advances lib e ck e'"
proof -
  obtain c t e1 where loop: "process_loop lib data [0..<length data] 0 0 e = (c, t, e1)"
    by (cases "process_loop lib data [0..<length data] 0 0 e")
  let ?e2 = "process_segment lib (drop t data) (compatibility_advance lib (drop c data)
      (e1\<lparr> em_compatibility := (em_compatibility e1)\<lparr> cm_transition := None \<rparr> \<rparr>))"
  let ?e3 = "?e2\<lparr> em_pending_bytes := sat_add (em_pending_bytes ?e2) (length data), em_pending_records := sat_add (em_pending_records ?e2) 1 \<rparr>"
  have "restorable lib e1 \<and> pending e1 = pending e"
    using process_loop_kept[OF loop assms(2)] assms(3) by (simp add: emitter_inv_def)
  then have e2: "restorable lib ?e2" "pending ?e2 = pending e"
    using assms(2) by (simp_all add: segment_kept)
  have records: "em_pending_records ?e3 = em_pending_records e + 1"
    using e2(2) assms(3) one_record[of e] by (simp add: pending_def emitter_inv_def)
  have run: "(if em_pending_bytes ?e3 \<ge> CHECKPOINT_BYTE_INTERVAL \<or> em_pending_records ?e3 \<ge> TERMINAL_CHECKPOINT_RECORD_INTERVAL
       then emitter_flush lib ?e3 else (None, ?e3)) = (ck, e')"
    using assms(1) unfolding emitter_process_def loop prod.case Let_def .
  show ?thesis
  proof (cases "em_pending_bytes ?e3 \<ge> CHECKPOINT_BYTE_INTERVAL \<or> em_pending_records ?e3 \<ge> TERMINAL_CHECKPOINT_RECORD_INTERVAL")
    case True
    then have "emitter_flush lib ?e3 = (ck, e')" using run by simp
    from emitter_flush_spec[OF this] show ?thesis
      using e2(1) records by (simp add: emitter_advances_def)
  next
    case False
    then have "ck = None" "e' = ?e3" using run by simp_all
    then show ?thesis
      using False e2(1) records by (simp add: emitter_advances_def emitter_inv_def)
  qed
qed

lemma emitter_heartbeat_advances:
  assumes "emitter_heartbeat lib e = (ck, e')" "emitter_inv lib e"
  shows "emitter_advances lib e ck e'"
proof -
  let ?e = "e\<lparr> em_pending_records := em_pending_records e + 1 \<rparr>"
  have run: "(if em_pending_records e + 1 \<ge> TERMINAL_CHECKPOINT_RECORD_INTERVAL then emitter_flush lib ?e else (None, ?e)) = (ck, e')"
    using assms one_record[of e] by (simp add: emitter_heartbeat_def emitter_inv_def Let_def cong: if_cong)
  show ?thesis
  proof (cases "em_pending_records e + 1 \<ge> TERMINAL_CHECKPOINT_RECORD_INTERVAL")
    case True
    then have "emitter_flush lib ?e = (ck, e')" using run by simp
    from emitter_flush_spec[OF this] show ?thesis
      using assms(2) by (simp add: emitter_advances_def emitter_inv_def)
  next
    case False
    then have "ck = None" "e' = ?e" using run by simp_all
    then show ?thesis using False assms(2) by (simp add: emitter_advances_def emitter_inv_def)
  qed
qed

lemma emitter_resize_advances:
  assumes "emitter_resize lib columns rows e = (ck, e')" "sized_library lib" "emitter_inv lib e" "valid_size columns rows"
  shows "emitter_advances lib e ck e' \<and> em_pending_records e' = 0"
proof -
  define e1 where "e1 = (if vt_size lib (em_parser e) \<noteq> (rows, columns) then
            (let alternate_screen = vt_alternate_screen lib (em_parser e) in
             if alternate_screen \<and> can_compact e then
               (case em_alternate_restore e of
                  Some restore \<Rightarrow> (case alternate_resize lib columns rows restore of (resized, restore) \<Rightarrow>
                    let e = e\<lparr> em_alternate_restore := Some restore \<rparr> in
                    if \<not> resized then emitter_reject (e\<lparr> em_restore_state := None \<rparr>) else e)
                | None \<Rightarrow> e\<lparr> em_restore_state := None \<rparr>)
             else if alternate_screen \<or> \<not> can_compact e then e\<lparr> em_restore_state := None \<rparr>
             else e)
          else e)"
  have e1: "em_restore_columns e1 = em_restore_columns e" "em_restore_rows e1 = em_restore_rows e"
      "em_restore_state e1 = em_restore_state e \<or> em_restore_state e1 = None" "pending e1 = pending e"
    by (auto simp: e1_def Let_def pending_def emitter_reject_def split: option.splits prod.splits)
  have run: "emitter_flush lib (e1\<lparr> em_parser := vt_set_size lib (em_parser e1) rows columns,
         em_pending_records := sat_add (em_pending_records e1) 1 \<rparr>) = (ck, e')"
    using assms(1) unfolding emitter_resize_def e1_def by (subst (asm) Let_def)
  let ?e = "e1\<lparr> em_parser := vt_set_size lib (em_parser e1) rows columns, em_pending_records := sat_add (em_pending_records e1) 1 \<rparr>"
  have "restorable lib ?e"
    using e1 assms(2-4) by (auto simp: restorable_def emitter_inv_def sized_library_def)
  moreover have "em_pending_records ?e \<noteq> 0"
    using e1(4) assms(3) one_record[of e] by (simp add: pending_def emitter_inv_def)
  ultimately show ?thesis
    using emitter_flush_spec[OF run] by (simp add: emitter_advances_def)
qed

end
