(* ===== verification/TerminalHost.thy ===== *)
theory TerminalHost
  imports TerminalCheckpoint "HOL-Library.Sublist"
begin

text \<open>
  The output side of \<open>cli/src/terminal.rs\<close>: the events waiting for the publisher with their checkpoints,
  and the host as a step relation. A native thread reads the PTY and hands chunks over a bounded
  channel; a mutex-protected flag triple, a condition variable and a notification let the host stop it at a chunk
  boundary before a resize and recover the chunk in flight when it closes the channel. A step is one
  action of the thread or of the host between two points where the other can act.
\<close>

section \<open>Pending output\<close>

datatype owned_terminal_output =
    OwnedStarted u16 u16
  | OwnedData bytes
  | OwnedResize u16 u16
  | OwnedExited u32 bool
  | OwnedHeartbeat
  | OwnedCheckpoint u16 u16 bytes

fun as_event :: "owned_terminal_output \<Rightarrow> terminal_output_event" where
  "as_event (OwnedStarted columns rows) = Started columns rows"
| "as_event (OwnedData data) = OutputData data"
| "as_event (OwnedResize columns rows) = OutputResize columns rows"
| "as_event (OwnedExited status output_truncated) = Exited status output_truncated"
| "as_event OwnedHeartbeat = TerminalHeartbeat"
| "as_event (OwnedCheckpoint columns rows state) = Checkpoint columns rows state"

record ('v, 'p) pending_terminal_output =
  po_events :: "owned_terminal_output list"
  po_checkpoints :: "('v, 'p) checkpoint_emitter"

definition pending_output_new :: "('v, 'p) terminal_library \<Rightarrow> u16 \<Rightarrow> u16 \<Rightarrow> ('v, 'p) pending_terminal_output" where
  "pending_output_new lib columns rows = \<lparr> po_events = [], po_checkpoints = emitter_new lib columns rows \<rparr>"

definition pop_front :: "('v, 'p) pending_terminal_output \<Rightarrow> owned_terminal_output option \<times> ('v, 'p) pending_terminal_output" where
  "pop_front p = (case po_events p of [] \<Rightarrow> (None, p) | event # events \<Rightarrow> (Some event, p\<lparr> po_events := events \<rparr>))"

definition push_checkpoint :: "terminal_state_checkpoint option \<Rightarrow> ('v, 'p) pending_terminal_output \<Rightarrow> ('v, 'p) pending_terminal_output" where
  "push_checkpoint checkpoint p = (case checkpoint of
       None \<Rightarrow> p
     | Some ck \<Rightarrow> p\<lparr> po_events := po_events p @ [OwnedCheckpoint (ck_columns ck) (ck_rows ck) (ck_state ck)] \<rparr>)"

definition push_pty_data :: "('v, 'p) terminal_library \<Rightarrow> bytes \<Rightarrow> ('v, 'p) pending_terminal_output \<Rightarrow> ('v, 'p) pending_terminal_output" where
  "push_pty_data lib data p = (case emitter_process lib data (po_checkpoints p) of (checkpoint, e) \<Rightarrow>
     push_checkpoint checkpoint (p\<lparr> po_checkpoints := e, po_events := po_events p @ [OwnedData data] \<rparr>))"

definition push_resize :: "('v, 'p) terminal_library \<Rightarrow> u16 \<Rightarrow> u16 \<Rightarrow> ('v, 'p) pending_terminal_output \<Rightarrow> ('v, 'p) pending_terminal_output" where
  "push_resize lib columns rows p = (case emitter_resize lib columns rows (po_checkpoints p) of (checkpoint, e) \<Rightarrow>
     push_checkpoint checkpoint (p\<lparr> po_checkpoints := e, po_events := po_events p @ [OwnedResize columns rows] \<rparr>))"

definition push_heartbeat :: "('v, 'p) terminal_library \<Rightarrow> ('v, 'p) pending_terminal_output \<Rightarrow> ('v, 'p) pending_terminal_output" where
  "push_heartbeat lib p = (case emitter_heartbeat lib (po_checkpoints p) of (checkpoint, e) \<Rightarrow>
     push_checkpoint checkpoint (p\<lparr> po_checkpoints := e, po_events := po_events p @ [OwnedHeartbeat] \<rparr>))"

definition flush_checkpoint :: "('v, 'p) terminal_library \<Rightarrow> ('v, 'p) pending_terminal_output \<Rightarrow> ('v, 'p) pending_terminal_output" where
  "flush_checkpoint lib p = (case emitter_flush lib (po_checkpoints p) of (checkpoint, e) \<Rightarrow>
     push_checkpoint checkpoint (p\<lparr> po_checkpoints := e \<rparr>))"

section \<open>The host\<close>

type_synonym pty_output = "string + bytes"

text \<open>Where the reader thread is: before a read; holding a chunk and waiting for its turn; in \<open>blocking_send\<close>;
  after it, with the chunk and whether it was accepted; or returned, its sender dropped.\<close>

datatype reader_pc =
    Reading
  | Waiting pty_output
  | Sending pty_output
  | SentChunk pty_output bool
  | ReaderStopped

text \<open>Where the host is: in its select loop; in \<open>pause_and_queue_pty_output\<close> for a requested size; in
  \<open>close_and_queue_pty_output\<close>, before and while it drains the channel and waiting for the chunk in flight;
  after the loop; and at its end.\<close>

datatype host_pc =
    Selecting
  | PauseCheck u16 u16
  | PauseWait u16 u16
  | Draining u16 u16
  | Resizing u16 u16
  | CloseChannel bool
  | CloseDrain bool
  | CloseWait
  | Finishing
  | HostDone
  | HostFailed

record ('v, 'p) host =
  h_source :: "pty_output list"
  h_reader :: reader_pc
  h_closing :: bool
  h_resizing :: bool
  h_sending :: bool
  h_send_finished :: bool
  h_queue :: "pty_output list"
  h_receiver_open :: bool
  h_close_ack :: "pty_output option option"
  h_pc :: host_pc
  h_pending :: "('v, 'p) pending_terminal_output"
  h_published :: "owned_terminal_output list"
  h_output_open :: bool
  h_exit_status :: "u32 option"
  h_output_truncated :: bool
  h_interrupted :: bool

definition PTY_OUTPUT_QUEUE :: nat where "PTY_OUTPUT_QUEUE = 16"
definition INTERRUPT_EXIT_CODE :: u32 where "INTERRUPT_EXIT_CODE = 130"

text \<open>\<open>i32::try_from(status).unwrap_or(i32::MAX)\<close>\<close>

definition exit_status_of :: "u32 \<Rightarrow> u32" where
  "exit_status_of code = (if unat code < 2 ^ 31 then code else 0x7FFFFFFF)"

definition host_start :: "('v, 'p) terminal_library \<Rightarrow> u16 \<Rightarrow> u16 \<Rightarrow> pty_output list \<Rightarrow> ('v, 'p) host" where
  "host_start lib columns rows source =
     \<lparr> h_source = source, h_reader = Reading, h_closing = False, h_resizing = False, h_sending = False, h_send_finished = False,
       h_queue = [], h_receiver_open = True, h_close_ack = None, h_pc = Selecting, h_pending = pending_output_new lib columns rows,
       h_published = [OwnedStarted columns rows], h_output_open = True, h_exit_status = None, h_output_truncated = False,
       h_interrupted = False \<rparr>"

definition pending_empty :: "('v, 'p) host \<Rightarrow> bool" where
  "pending_empty h \<longleftrightarrow> po_events (h_pending h) = []"

definition push_data :: "('v, 'p) terminal_library \<Rightarrow> bytes \<Rightarrow> ('v, 'p) host \<Rightarrow> ('v, 'p) host" where
  "push_data lib data h = h\<lparr> h_pending := push_pty_data lib data (h_pending h) \<rparr>"

text \<open>The steps of the thread, in \<open>send_pty_output\<close> and the loop around it.\<close>

inductive reader_step :: "('v, 'p) host \<Rightarrow> ('v, 'p) host \<Rightarrow> bool" where
  read: "h_reader h = Reading \<Longrightarrow> h_source h = chunk # source
    \<Longrightarrow> reader_step h (h\<lparr> h_reader := Waiting chunk, h_source := source \<rparr>)"
| end_of_file: "h_reader h = Reading \<Longrightarrow> h_source h = [] \<Longrightarrow> reader_step h (h\<lparr> h_reader := ReaderStopped \<rparr>)"
| give_up: "h_reader h = Waiting chunk \<Longrightarrow> h_closing h \<Longrightarrow> reader_step h (h\<lparr> h_reader := ReaderStopped \<rparr>)"
| begin_send: "h_reader h = Waiting chunk \<Longrightarrow> \<not> h_closing h \<Longrightarrow> \<not> h_resizing h
    \<Longrightarrow> reader_step h (h\<lparr> h_reader := Sending chunk, h_sending := True \<rparr>)"
| send_ok: "h_reader h = Sending chunk \<Longrightarrow> h_receiver_open h \<Longrightarrow> length (h_queue h) < PTY_OUTPUT_QUEUE
    \<Longrightarrow> reader_step h (h\<lparr> h_reader := SentChunk chunk True, h_queue := h_queue h @ [chunk] \<rparr>)"
| send_refused: "h_reader h = Sending chunk \<Longrightarrow> \<not> h_receiver_open h
    \<Longrightarrow> reader_step h (h\<lparr> h_reader := SentChunk chunk False \<rparr>)"
| end_send: "h_reader h = SentChunk chunk accepted \<Longrightarrow> \<not> h_closing h
    \<Longrightarrow> reader_step h (h\<lparr> h_reader := (if accepted \<and> \<not> isl chunk then Reading else ReaderStopped),
          h_sending := False, h_send_finished := True \<rparr>)"
| end_send_closing: "h_reader h = SentChunk chunk accepted \<Longrightarrow> h_closing h
    \<Longrightarrow> reader_step h (h\<lparr> h_reader := ReaderStopped, h_sending := False, h_send_finished := True,
          h_close_ack := Some (if accepted then None else Some chunk) \<rparr>)"

text \<open>\<open>recv\<close> on the channel: a chunk, or nothing more because it is empty and the sender is gone or the
  receiver closed.\<close>

definition channel_ended :: "('v, 'p) host \<Rightarrow> bool" where
  "channel_ended h \<longleftrightarrow> h_queue h = [] \<and> (h_reader h = ReaderStopped \<or> \<not> h_receiver_open h)"

inductive host_step :: "('v, 'p) terminal_library \<Rightarrow> ('v, 'p) host \<Rightarrow> ('v, 'p) host \<Rightarrow> bool" for lib where
  publish: "h_pc h = Selecting \<Longrightarrow> h_exit_status h = None \<or> h_output_open h \<Longrightarrow> pop_front (h_pending h) = (Some event, left)
    \<Longrightarrow> host_step lib h (h\<lparr> h_pending := left, h_published := h_published h @ [event] \<rparr>)"
| receive: "h_pc h = Selecting \<Longrightarrow> h_output_open h \<Longrightarrow> pending_empty h \<Longrightarrow> h_queue h = Inr data # queue
    \<Longrightarrow> host_step lib h (push_data lib data (h\<lparr> h_queue := queue \<rparr>))"
| receive_error: "h_pc h = Selecting \<Longrightarrow> h_output_open h \<Longrightarrow> pending_empty h \<Longrightarrow> h_queue h = Inl error # queue
    \<Longrightarrow> host_step lib h (h\<lparr> h_queue := queue, h_pc := HostFailed \<rparr>)"
| receive_end: "h_pc h = Selecting \<Longrightarrow> h_output_open h \<Longrightarrow> pending_empty h \<Longrightarrow> channel_ended h
    \<Longrightarrow> host_step lib h (h\<lparr> h_output_open := False \<rparr>)"
| resize_requested: "h_pc h = Selecting \<Longrightarrow> h_exit_status h = None \<Longrightarrow> pending_empty h \<Longrightarrow> valid_size columns rows
    \<Longrightarrow> host_step lib h (h\<lparr> h_pc := PauseCheck columns rows, h_resizing := True \<rparr>)"
| pause_wait: "h_pc h = PauseCheck columns rows \<Longrightarrow> h_sending h \<Longrightarrow> host_step lib h (h\<lparr> h_pc := PauseWait columns rows \<rparr>)"
| pause_receive: "h_pc h = PauseWait columns rows \<Longrightarrow> h_queue h = Inr data # queue
    \<Longrightarrow> host_step lib h (push_data lib data (h\<lparr> h_queue := queue, h_pc := PauseCheck columns rows \<rparr>))"
| pause_error: "h_pc h = PauseWait columns rows \<Longrightarrow> h_queue h = Inl error # queue
    \<Longrightarrow> host_step lib h (h\<lparr> h_queue := queue, h_pc := HostFailed \<rparr>)"
| pause_end: "h_pc h = PauseWait columns rows \<Longrightarrow> channel_ended h
    \<Longrightarrow> host_step lib h (h\<lparr> h_output_open := False, h_pc := Resizing columns rows \<rparr>)"
| pause_notified: "h_pc h = PauseWait columns rows \<Longrightarrow> h_send_finished h
    \<Longrightarrow> host_step lib h (h\<lparr> h_send_finished := False, h_pc := PauseCheck columns rows \<rparr>)"
| paused: "h_pc h = PauseCheck columns rows \<Longrightarrow> \<not> h_sending h \<Longrightarrow> host_step lib h (h\<lparr> h_pc := Draining columns rows \<rparr>)"
| drain: "h_pc h = Draining columns rows \<Longrightarrow> h_queue h = Inr data # queue
    \<Longrightarrow> host_step lib h (push_data lib data (h\<lparr> h_queue := queue \<rparr>))"
| drain_error: "h_pc h = Draining columns rows \<Longrightarrow> h_queue h = Inl error # queue
    \<Longrightarrow> host_step lib h (h\<lparr> h_queue := queue, h_pc := HostFailed \<rparr>)"
| drained: "h_pc h = Draining columns rows \<Longrightarrow> h_queue h = []
    \<Longrightarrow> host_step lib h (h\<lparr> h_output_open := (h_reader h \<noteq> ReaderStopped), h_pc := Resizing columns rows \<rparr>)"
| resized: "h_pc h = Resizing columns rows
    \<Longrightarrow> host_step lib h (h\<lparr> h_pending := push_resize lib columns rows (h_pending h), h_resizing := False, h_pc := Selecting \<rparr>)"
| resize_failed: "h_pc h = Resizing columns rows \<Longrightarrow> host_step lib h (h\<lparr> h_resizing := False, h_pc := Selecting \<rparr>)"
| child_exited: "h_pc h = Selecting \<Longrightarrow> h_exit_status h = None
    \<Longrightarrow> host_step lib h (h\<lparr> h_exit_status := Some (exit_status_of code) \<rparr>)"
| drain_deadline: "h_pc h = Selecting \<Longrightarrow> h_output_open h \<Longrightarrow> h_exit_status h \<noteq> None
    \<Longrightarrow> host_step lib h (h\<lparr> h_pc := CloseChannel (h_sending h), h_closing := True, h_resizing := False \<rparr>)"
| close_channel: "h_pc h = CloseChannel in_flight
    \<Longrightarrow> host_step lib h (h\<lparr> h_pc := CloseDrain in_flight, h_receiver_open := False \<rparr>)"
| close_receive: "h_pc h = CloseDrain in_flight \<Longrightarrow> h_queue h = Inr data # queue
    \<Longrightarrow> host_step lib h (push_data lib data (h\<lparr> h_queue := queue \<rparr>))"
| close_error: "h_pc h = CloseDrain in_flight \<Longrightarrow> h_queue h = Inl error # queue
    \<Longrightarrow> host_step lib h (h\<lparr> h_queue := queue, h_pc := HostFailed \<rparr>)"
| close_drained: "h_pc h = CloseDrain in_flight \<Longrightarrow> channel_ended h
    \<Longrightarrow> host_step lib h (if in_flight then h\<lparr> h_pc := CloseWait \<rparr>
          else h\<lparr> h_pc := Selecting, h_output_open := False, h_output_truncated := True \<rparr>)"
| close_recovered: "h_pc h = CloseWait \<Longrightarrow> h_close_ack h = Some (Some (Inr data))
    \<Longrightarrow> host_step lib h (push_data lib data (h\<lparr> h_close_ack := None, h_pc := Selecting, h_output_open := False,
          h_output_truncated := True \<rparr>))"
| close_acknowledged: "h_pc h = CloseWait \<Longrightarrow> h_close_ack h = Some None
    \<Longrightarrow> host_step lib h (h\<lparr> h_close_ack := None, h_pc := Selecting, h_output_open := False, h_output_truncated := True \<rparr>)"
| close_failed: "h_pc h = CloseWait \<Longrightarrow> h_close_ack h = Some (Some (Inl error)) \<or> (h_close_ack h = None \<and> h_reader h = ReaderStopped)
    \<Longrightarrow> host_step lib h (h\<lparr> h_pc := HostFailed \<rparr>)"
| heartbeat: "h_pc h = Selecting \<Longrightarrow> h_exit_status h = None \<Longrightarrow> pending_empty h
    \<Longrightarrow> host_step lib h (h\<lparr> h_pending := push_heartbeat lib (h_pending h) \<rparr>)"
| interrupted: "h_pc h = Selecting \<Longrightarrow> h_exit_status h = None \<Longrightarrow> host_step lib h (h\<lparr> h_interrupted := True \<rparr>)"
| stopped: "h_pc h = Selecting \<or> h_pc h = Finishing \<Longrightarrow> host_step lib h (h\<lparr> h_pc := HostFailed \<rparr>)"
| loop_left: "h_pc h = Selecting \<Longrightarrow> h_exit_status h \<noteq> None \<Longrightarrow> \<not> h_output_open h
    \<Longrightarrow> host_step lib h (h\<lparr> h_receiver_open := False, h_pending := flush_checkpoint lib (h_pending h), h_pc := Finishing \<rparr>)"
| publish_rest: "h_pc h = Finishing \<Longrightarrow> pop_front (h_pending h) = (Some event, left)
    \<Longrightarrow> host_step lib h (h\<lparr> h_pending := left, h_published := h_published h @ [event] \<rparr>)"
| publish_exit: "h_pc h = Finishing \<Longrightarrow> pending_empty h \<Longrightarrow> h_exit_status h = Some status
    \<Longrightarrow> host_step lib h (h\<lparr> h_published := h_published h
          @ [OwnedExited (if h_interrupted h then INTERRUPT_EXIT_CODE else status) (h_output_truncated h)], h_pc := HostDone \<rparr>)"

inductive host_reachable :: "('v, 'p) terminal_library \<Rightarrow> u16 \<Rightarrow> u16 \<Rightarrow> pty_output list \<Rightarrow> ('v, 'p) host \<Rightarrow> bool"
  for lib columns rows source where
  start: "host_reachable lib columns rows source (host_start lib columns rows source)"
| reader: "host_reachable lib columns rows source h \<Longrightarrow> reader_step h h' \<Longrightarrow> host_reachable lib columns rows source h'"
| hosts: "host_reachable lib columns rows source h \<Longrightarrow> host_step lib h h' \<Longrightarrow> host_reachable lib columns rows source h'"

section \<open>Handing over chunks\<close>

fun data_of :: "owned_terminal_output \<Rightarrow> bytes list" where
  "data_of (OwnedData data) = [data]"
| "data_of _ = []"

definition all_events :: "('v, 'p) host \<Rightarrow> owned_terminal_output list" where
  "all_events h = h_published h @ po_events (h_pending h)"

definition received :: "('v, 'p) host \<Rightarrow> pty_output list" where
  "received h = map Inr (concat (map data_of (all_events h)))"

text \<open>What the thread holds: a chunk that may still be dropped, and one that \<open>blocking_send\<close> has taken.\<close>

definition held :: "('v, 'p) host \<Rightarrow> pty_output list" where
  "held h = (case h_reader h of Waiting chunk \<Rightarrow> [chunk] | _ \<Rightarrow> [])"

definition in_flight :: "('v, 'p) host \<Rightarrow> pty_output list" where
  "in_flight h = (case h_reader h of Sending chunk \<Rightarrow> [chunk] | SentChunk chunk accepted \<Rightarrow> if accepted then [] else [chunk] | _ \<Rightarrow> [])"

definition acknowledged :: "('v, 'p) host \<Rightarrow> pty_output list" where
  "acknowledged h = (case h_close_ack h of Some (Some chunk) \<Rightarrow> [chunk] | _ \<Rightarrow> [])"

definition in_send :: "reader_pc \<Rightarrow> bool" where
  "in_send pc \<longleftrightarrow> (case pc of Sending _ \<Rightarrow> True | SentChunk _ _ \<Rightarrow> True | _ \<Rightarrow> False)"

definition pausing :: "host_pc \<Rightarrow> bool" where
  "pausing pc \<longleftrightarrow> (case pc of PauseCheck _ _ \<Rightarrow> True | PauseWait _ _ \<Rightarrow> True | Draining _ _ \<Rightarrow> True | Resizing _ _ \<Rightarrow> True | _ \<Rightarrow> False)"

definition closing_pc :: "host_pc \<Rightarrow> bool" where
  "closing_pc pc \<longleftrightarrow> (case pc of CloseChannel _ \<Rightarrow> True | CloseDrain _ \<Rightarrow> True | CloseWait \<Rightarrow> True | _ \<Rightarrow> False)"

lemmas pc_defs = in_send_def pausing_def closing_pc_def

lemma push_checkpoint_events:
  "\<exists>cks. po_events (push_checkpoint ck p) = po_events p @ cks \<and> concat (map data_of cks) = []"
  by (cases ck) (auto simp: push_checkpoint_def)

lemma push_data_simps [simp]:
  "h_source (push_data lib data h) = h_source h" "h_reader (push_data lib data h) = h_reader h"
  "h_closing (push_data lib data h) = h_closing h" "h_resizing (push_data lib data h) = h_resizing h"
  "h_sending (push_data lib data h) = h_sending h" "h_queue (push_data lib data h) = h_queue h"
  "h_receiver_open (push_data lib data h) = h_receiver_open h" "h_close_ack (push_data lib data h) = h_close_ack h"
  "h_pc (push_data lib data h) = h_pc h" "h_output_open (push_data lib data h) = h_output_open h"
  "h_exit_status (push_data lib data h) = h_exit_status h" "h_output_truncated (push_data lib data h) = h_output_truncated h"
  "h_published (push_data lib data h) = h_published h" "h_interrupted (push_data lib data h) = h_interrupted h"
  by (simp_all add: push_data_def)

lemma concat_pushed:
  "concat (map data_of (po_events (push_pty_data lib data p))) = concat (map data_of (po_events p)) @ [data]"
  "concat (map data_of (po_events (push_resize lib columns rows p))) = concat (map data_of (po_events p))"
  "concat (map data_of (po_events (push_heartbeat lib p))) = concat (map data_of (po_events p))"
  "concat (map data_of (po_events (flush_checkpoint lib p))) = concat (map data_of (po_events p))"
  by (auto simp: push_pty_data_def push_resize_def push_heartbeat_def flush_checkpoint_def push_checkpoint_def
      split: prod.split option.split)

lemma received_push_data [simp]: "received (push_data lib data h) = received h @ [Inr data]"
  by (simp add: received_def all_events_def push_data_def concat_pushed)

lemma pop_front_Some: "pop_front p = (Some event, left) \<longleftrightarrow> po_events p = event # po_events left \<and> left = p\<lparr> po_events := po_events left \<rparr>"
  by (cases p; cases left) (auto simp: pop_front_def split: list.splits)

text \<open>The flags and the two program counters.\<close>

definition flags_inv :: "('v, 'p) host \<Rightarrow> bool" where
  "flags_inv h \<longleftrightarrow> (h_sending h \<longleftrightarrow> in_send (h_reader h))
     \<and> (h_resizing h \<longleftrightarrow> pausing (h_pc h))
     \<and> (h_closing h \<longleftrightarrow> closing_pc (h_pc h) \<or> h_output_truncated h) \<and> (h_closing h \<longrightarrow> h_exit_status h \<noteq> None)
     \<and> (h_output_truncated h \<longrightarrow> \<not> h_output_open h \<and> (h_pc h = Selecting \<or> h_pc h = Finishing \<or> h_pc h = HostDone))
     \<and> (\<not> h_receiver_open h \<longleftrightarrow> (\<exists>w. h_pc h = CloseDrain w) \<or> h_pc h = CloseWait \<or> h_output_truncated h
          \<or> h_pc h = Finishing \<or> h_pc h = HostDone)
     \<and> (h_pc h = Finishing \<or> h_pc h = HostDone \<longrightarrow> \<not> h_output_open h \<and> h_exit_status h \<noteq> None)"

lemma flags_inv_reader: "reader_step h h' \<Longrightarrow> flags_inv h \<Longrightarrow> flags_inv h'"
  by (induction rule: reader_step.induct) (simp_all add: flags_inv_def pc_defs)

lemma flags_inv_host: "host_step lib h h' \<Longrightarrow> h_pc h' \<noteq> HostFailed \<Longrightarrow> flags_inv h \<Longrightarrow> flags_inv h'"
  by (induction rule: host_step.induct) (auto simp: flags_inv_def pc_defs)


text \<open>The chunk in flight when the host closes the channel: it stays in flight until the thread acknowledges.\<close>

definition close_inv :: "('v, 'p) host \<Rightarrow> bool" where
  "close_inv h \<longleftrightarrow> (h_close_ack h \<noteq> None \<longrightarrow> h_closing h \<and> h_reader h = ReaderStopped \<and> closing_pc (h_pc h))
     \<and> (\<forall>w. h_pc h = CloseChannel w \<or> h_pc h = CloseDrain w \<longrightarrow> w = (h_sending h \<or> h_close_ack h \<noteq> None))
     \<and> (h_pc h = CloseWait \<longrightarrow> (h_sending h \<or> h_close_ack h \<noteq> None) \<and> h_queue h = [])
     \<and> (h_output_truncated h \<longrightarrow> \<not> h_sending h \<and> h_queue h = [])
     \<and> ((\<exists>columns rows. h_pc h = Draining columns rows \<or> h_pc h = Resizing columns rows) \<longrightarrow> \<not> h_sending h)
     \<and> (\<forall>columns rows. h_pc h = Resizing columns rows \<longrightarrow> h_queue h = [])"

lemma close_inv_reader: "reader_step h h' \<Longrightarrow> flags_inv h \<Longrightarrow> close_inv h \<Longrightarrow> close_inv h'"
  by (induction rule: reader_step.induct) (auto simp: close_inv_def flags_inv_def pc_defs split: host_pc.splits)

lemma close_inv_host: "host_step lib h h' \<Longrightarrow> h_pc h' \<noteq> HostFailed \<Longrightarrow> flags_inv h \<Longrightarrow> close_inv h \<Longrightarrow> close_inv h'"
  by (induction rule: host_step.induct) (auto simp: close_inv_def flags_inv_def pc_defs channel_ended_def)

text \<open>The thread stops by itself only at the end of the PTY's output or after an error that the host has yet to see.\<close>

definition stop_inv :: "('v, 'p) host \<Rightarrow> bool" where
  "stop_inv h \<longleftrightarrow> (h_closing h \<or>
       ((h_reader h = ReaderStopped \<longrightarrow> h_source h = [] \<or> (h_queue h \<noteq> [] \<and> isl (last (h_queue h))))
        \<and> (\<forall>chunk accepted. h_reader h = SentChunk chunk accepted \<longrightarrow> accepted \<and> (isl chunk \<longrightarrow> h_queue h \<noteq> [] \<and> last (h_queue h) = chunk))
        \<and> (\<not> h_output_open h \<longrightarrow> h_reader h = ReaderStopped \<and> h_queue h = [])))"

lemma stop_inv_reader: "reader_step h h' \<Longrightarrow> flags_inv h \<Longrightarrow> stop_inv h \<Longrightarrow> stop_inv h'"
  by (induction rule: reader_step.induct) (auto simp: stop_inv_def flags_inv_def pc_defs)

lemma stop_inv_host:
  "host_step lib h h' \<Longrightarrow> h_pc h' \<noteq> HostFailed \<Longrightarrow> flags_inv h \<Longrightarrow> close_inv h \<Longrightarrow> stop_inv h \<Longrightarrow> stop_inv h'"
  by (induction rule: host_step.induct) (auto simp: stop_inv_def flags_inv_def close_inv_def pc_defs channel_ended_def split: if_splits)

text \<open>Every chunk is in exactly one place, in the order it was read, until the host closes the channel.\<close>

definition order_inv :: "pty_output list \<Rightarrow> ('v, 'p) host \<Rightarrow> bool" where
  "order_inv source h \<longleftrightarrow> (if h_closing h then prefix (received h @ h_queue h @ acknowledged h @ in_flight h) source
     else received h @ h_queue h @ acknowledged h @ in_flight h @ held h @ h_source h = source)"

lemmas place_defs = held_def in_flight_def acknowledged_def

lemma received_simps [simp]:
  "received (h\<lparr> h_reader := pc \<rparr>) = received h" "received (h\<lparr> h_source := src \<rparr>) = received h"
  "received (h\<lparr> h_sending := b \<rparr>) = received h" "received (h\<lparr> h_queue := q \<rparr>) = received h"
  "received (h\<lparr> h_send_finished := b \<rparr>) = received h" "received (h\<lparr> h_close_ack := ack \<rparr>) = received h"
  "received (h\<lparr> h_pc := hpc \<rparr>) = received h" "received (h\<lparr> h_resizing := b \<rparr>) = received h"
  "received (h\<lparr> h_closing := b \<rparr>) = received h" "received (h\<lparr> h_receiver_open := b \<rparr>) = received h"
  "received (h\<lparr> h_output_open := b \<rparr>) = received h" "received (h\<lparr> h_exit_status := st \<rparr>) = received h"
  "received (h\<lparr> h_output_truncated := b \<rparr>) = received h" "received (h\<lparr> h_interrupted := b \<rparr>) = received h"
  by (simp_all add: received_def all_events_def)

lemma received_pop:
  "pop_front (h_pending h) = (Some event, left)
    \<Longrightarrow> received (h\<lparr> h_pending := left, h_published := h_published h @ [event] \<rparr>) = received h"
  by (simp add: received_def all_events_def pop_front_Some)

lemma received_push:
  "received (h\<lparr> h_pending := push_resize lib columns rows (h_pending h) \<rparr>) = received h"
  "received (h\<lparr> h_pending := push_heartbeat lib (h_pending h) \<rparr>) = received h"
  "received (h\<lparr> h_receiver_open := b, h_pending := flush_checkpoint lib (h_pending h) \<rparr>) = received h"
  "received (h\<lparr> h_published := h_published h @ [OwnedExited status truncated] \<rparr>) = received h"
  by (simp_all add: received_def all_events_def concat_pushed)

lemma order_inv_reader: "reader_step h h' \<Longrightarrow> close_inv h \<Longrightarrow> stop_inv h \<Longrightarrow> order_inv source h \<Longrightarrow> order_inv source h'"
  by (induction rule: reader_step.induct) (simp_all add: order_inv_def place_defs close_inv_def stop_inv_def split: option.splits if_splits)

lemma order_inv_host:
  "host_step lib h h' \<Longrightarrow> h_pc h' \<noteq> HostFailed \<Longrightarrow> flags_inv h \<Longrightarrow> close_inv h \<Longrightarrow> order_inv source h \<Longrightarrow> order_inv source h'"
proof (induction rule: host_step.induct)
  case (publish h event left)
  then show ?case by (auto simp: order_inv_def place_defs received_pop split: if_splits)
next
  case (publish_rest h event left)
  then show ?case by (auto simp: order_inv_def place_defs received_pop split: if_splits)
qed (auto simp: order_inv_def place_defs flags_inv_def close_inv_def pc_defs channel_ended_def received_push)


lemma host_running: "host_step lib h h' \<Longrightarrow> h_pc h \<noteq> HostFailed"
  by (induction rule: host_step.induct) auto

lemma reader_keeps: "reader_step h h' \<Longrightarrow> h_pc h' = h_pc h \<and> h_published h' = h_published h \<and> h_pending h' = h_pending h"
  by (induction rule: reader_step.induct) auto

lemma failing_keeps: "host_step lib h h' \<Longrightarrow> h_pc h' = HostFailed \<Longrightarrow> all_events h' = all_events h"
  by (induction rule: host_step.induct) (simp_all add: all_events_def split: if_splits)

definition host_inv :: "pty_output list \<Rightarrow> ('v, 'p) host \<Rightarrow> bool" where
  "host_inv source h \<longleftrightarrow> flags_inv h \<and> close_inv h \<and> stop_inv h \<and> order_inv source h"

lemma host_start_inv: "host_inv source (host_start lib columns rows source)"
  by (simp add: host_inv_def host_start_def flags_inv_def close_inv_def stop_inv_def order_inv_def pc_defs place_defs received_def
      all_events_def pending_output_new_def)

lemma reachable_inv:
  assumes "host_reachable lib columns rows source h" "h_pc h \<noteq> HostFailed"
  shows "host_inv source h"
  using assms
proof induction
  case start
  show ?case by (rule host_start_inv)
next
  case (reader h h')
  then have "h_pc h \<noteq> HostFailed" using reader_keeps by metis
  then show ?case
    using reader flags_inv_reader[OF reader(2)] close_inv_reader[OF reader(2)] stop_inv_reader[OF reader(2)]
      order_inv_reader[OF reader(2), of source] by (simp add: host_inv_def)
next
  case (hosts h h')
  then have "h_pc h \<noteq> HostFailed" using host_running by metis
  then show ?case
    using hosts flags_inv_host[OF hosts(2)] close_inv_host[OF hosts(2)] stop_inv_host[OF hosts(2)]
      order_inv_host[OF hosts(2), of source] by (simp add: host_inv_def)
qed

lemma reachable_received: "host_reachable lib columns rows source h \<Longrightarrow> prefix (received h) source"
proof (induction rule: host_reachable.induct)
  case start
  then show ?case by (simp add: host_start_def received_def all_events_def pending_output_new_def)
next
  case (reader h h')
  then show ?case using reader_keeps[of h h'] by (simp add: received_def all_events_def)
next
  case (hosts h h')
  show ?case
  proof (cases "h_pc h' = HostFailed")
    case True
    then show ?thesis using hosts failing_keeps[of lib h h'] by (simp add: received_def)
  next
    case False
    then have "host_inv source h'"
      using reachable_inv[OF host_reachable.hosts[OF hosts(1,2)]] by simp
    then show ?thesis
      by (auto simp: host_inv_def order_inv_def prefix_def split: if_splits)
  qed
qed

text \<open>The shape of the transcript: one \<open>started\<close> at its head, one \<open>exited\<close> at its end.\<close>

fun frames_session :: "owned_terminal_output \<Rightarrow> bool" where
  "frames_session (OwnedStarted _ _) = True"
| "frames_session (OwnedExited _ _) = True"
| "frames_session _ = False"

definition shape_inv :: "u16 \<Rightarrow> u16 \<Rightarrow> ('v, 'p) host \<Rightarrow> bool" where
  "shape_inv columns rows h \<longleftrightarrow> (\<exists>events. list_all (\<lambda>e. \<not> frames_session e) events
     \<and> (if h_pc h = HostDone
         then po_events (h_pending h) = [] \<and> (\<exists>status. h_exit_status h = Some status \<and> h_published h = OwnedStarted columns rows # events
             @ [OwnedExited (if h_interrupted h then INTERRUPT_EXIT_CODE else status) (h_output_truncated h)])
         else all_events h = OwnedStarted columns rows # events \<and> h_published h \<noteq> []))"

lemma pushed_events:
  "\<exists>cks. po_events (push_pty_data lib data p) = po_events p @ OwnedData data # cks \<and> list_all (\<lambda>e. \<not> frames_session e) cks"
  "\<exists>cks. po_events (push_resize lib columns rows p) = po_events p @ OwnedResize columns rows # cks \<and> list_all (\<lambda>e. \<not> frames_session e) cks"
  "\<exists>cks. po_events (push_heartbeat lib p) = po_events p @ OwnedHeartbeat # cks \<and> list_all (\<lambda>e. \<not> frames_session e) cks"
  "\<exists>cks. po_events (flush_checkpoint lib p) = po_events p @ cks \<and> list_all (\<lambda>e. \<not> frames_session e) cks"
  by (auto simp: push_pty_data_def push_resize_def push_heartbeat_def flush_checkpoint_def push_checkpoint_def
      split: prod.split option.split)

lemma shape_grows:
  assumes "shape_inv columns rows h" "h_pc h \<noteq> HostDone" "h_pc h' \<noteq> HostDone"
    and "h_published h' = h_published h" "po_events (h_pending h') = po_events (h_pending h) @ new" "list_all (\<lambda>e. \<not> frames_session e) new"
  shows "shape_inv columns rows h'"
proof -
  obtain events where "list_all (\<lambda>e. \<not> frames_session e) events" "all_events h = OwnedStarted columns rows # events" "h_published h \<noteq> []"
    using assms(1,2) by (auto simp: shape_inv_def)
  then show ?thesis
    using assms(3-6) unfolding shape_inv_def all_events_def by (intro exI[of _ "events @ new"]) simp
qed

lemma shape_inv_host: "host_step lib h h' \<Longrightarrow> h_pc h' \<noteq> HostFailed \<Longrightarrow> shape_inv columns rows h \<Longrightarrow> shape_inv columns rows h'"
proof (induction rule: host_step.induct)
  case (publish h event left)
  then show ?case by (auto simp: shape_inv_def all_events_def pop_front_Some)
next
  case (publish_rest h event left)
  then show ?case by (auto simp: shape_inv_def all_events_def pop_front_Some)
next
  case (receive h data queue)
  then show ?case
    using pushed_events(1)[of lib data "h_pending h"] by (auto intro!: shape_grows[OF receive.prems(2)] simp: push_data_def)
next
  case (pause_receive h columns' rows' data queue)
  then show ?case
    using pushed_events(1)[of lib data "h_pending h"] by (auto intro!: shape_grows[OF pause_receive.prems(2)] simp: push_data_def)
next
  case (drain h columns' rows' data queue)
  then show ?case
    using pushed_events(1)[of lib data "h_pending h"] by (auto intro!: shape_grows[OF drain.prems(2)] simp: push_data_def)
next
  case (close_receive h w data queue)
  then show ?case
    using pushed_events(1)[of lib data "h_pending h"] by (auto intro!: shape_grows[OF close_receive.prems(2)] simp: push_data_def)
next
  case (close_recovered h data)
  then show ?case
    using pushed_events(1)[of lib data "h_pending h"] by (auto intro!: shape_grows[OF close_recovered.prems(2)] simp: push_data_def)
next
  case (resized h columns' rows')
  then show ?case
    using pushed_events(2)[of lib columns' rows' "h_pending h"] by (auto intro!: shape_grows[OF resized.prems(2)])
next
  case (heartbeat h)
  then show ?case
    using pushed_events(3)[of lib "h_pending h"] by (auto intro!: shape_grows[OF heartbeat.prems(2)])
next
  case (loop_left h)
  then show ?case
    using pushed_events(4)[of lib "h_pending h"] by (auto intro!: shape_grows[OF loop_left.prems(2)])
next
  case (publish_exit h status)
  then show ?case by (auto simp: shape_inv_def all_events_def pending_empty_def)
qed (auto simp: shape_inv_def all_events_def split: if_splits)

lemma reachable_shape: "host_reachable lib columns rows source h \<Longrightarrow> h_pc h \<noteq> HostFailed \<Longrightarrow> shape_inv columns rows h"
proof (induction rule: host_reachable.induct)
  case start
  show ?case by (simp add: shape_inv_def host_start_def all_events_def pending_output_new_def)
next
  case (reader h h')
  then have "h_pc h' = h_pc h" "h_output_truncated h' = h_output_truncated h" "h_exit_status h' = h_exit_status h"
      "h_interrupted h' = h_interrupted h" "all_events h' = all_events h"
      "h_published h' = h_published h" "h_pending h' = h_pending h"
    using reader_keeps[of h h'] by (auto simp: all_events_def elim: reader_step.cases)
  then show ?case using reader by (simp only: shape_inv_def simp_thms)
next
  case (hosts h h')
  then show ?case using shape_inv_host host_running by metis
qed

text \<open>C9: When the host ends, what it has published is one \<open>started\<close> event, then the chunks the PTY produced with the other
  events between them, then one \<open>exited\<close> event with the child's status or that of an interrupt: the chunks are in the order they were read, without a gap or a
  repetition, up to where the output was cut off, and they are all of them unless the exit event says that the output was truncated.\<close>

theorem host_transcript:
  assumes "host_reachable lib columns rows source h" "h_pc h = HostDone"
  shows "\<exists>events status. h_published h = OwnedStarted columns rows # events
        @ [OwnedExited (if h_interrupted h then INTERRUPT_EXIT_CODE else status) (h_output_truncated h)]
    \<and> h_exit_status h = Some status
    \<and> list_all (\<lambda>e. \<not> frames_session e) events
    \<and> prefix (map Inr (concat (map data_of events))) source
    \<and> (if h_output_truncated h then True else map Inr (concat (map data_of events)) = source)"
proof -
  have "h_pc h \<noteq> HostFailed" using assms(2) by simp
  note inv = reachable_inv[OF assms(1) this] and shape = reachable_shape[OF assms(1) this]
  obtain events status where events: "list_all (\<lambda>e. \<not> frames_session e) events" "po_events (h_pending h) = []"
      "h_exit_status h = Some status" "h_published h = OwnedStarted columns rows # events
        @ [OwnedExited (if h_interrupted h then INTERRUPT_EXIT_CODE else status) (h_output_truncated h)]"
    using shape assms(2) by (auto simp: shape_inv_def)
  have received: "received h = map Inr (concat (map data_of events))"
    using events by (simp add: received_def all_events_def)
  have "received h = source" if "\<not> h_output_truncated h"
  proof -
    have "\<not> h_closing h" "\<not> h_output_open h" "h_close_ack h = None"
      using inv that assms(2) by (auto simp: host_inv_def flags_inv_def close_inv_def pc_defs)
    moreover from this have "h_reader h = ReaderStopped" "h_queue h = []" "h_source h = []"
      using inv by (auto simp: host_inv_def stop_inv_def)
    ultimately show ?thesis
      using inv by (simp add: host_inv_def order_inv_def place_defs)
  qed
  then show ?thesis
    using events received reachable_received[OF assms(1)] by auto
qed

section \<open>Resizes and shutdown\<close>

lemma barrier_reader:
  "reader_step\<^sup>*\<^sup>* h h' \<Longrightarrow> h_resizing h \<Longrightarrow> \<not> h_closing h \<Longrightarrow> \<not> in_send (h_reader h) \<Longrightarrow>
    h_resizing h' \<and> \<not> h_closing h' \<and> \<not> in_send (h_reader h') \<and> h_queue h' = h_queue h"
proof (induction rule: rtranclp_induct)
  case (step h1 h2)
  from step(2,3) step.prems show ?case
    by (induction rule: reader_step.induct) (auto simp: in_send_def)
qed simp

text \<open>C20: A resize is a barrier in the output: when the host applies it, every chunk the reader thread has handed over is already
  among the events, in order, and however long the thread runs it hands over no further chunk
  until the host goes on, so the bytes before the resize event are those produced for the old size.\<close>

theorem resize_is_barrier:
  assumes "host_reachable lib columns rows source h" "h_pc h = Resizing columns' rows'" "reader_step\<^sup>*\<^sup>* h h'"
  shows "received h @ held h @ h_source h = source \<and> h_queue h' = [] \<and> in_flight h' = []"
proof -
  have inv: "host_inv source h"
    using reachable_inv[OF assms(1)] assms(2) by simp
  then have h: "h_resizing h" "\<not> h_closing h" "\<not> in_send (h_reader h)" "h_queue h = []" "h_close_ack h = None"
    using assms(2) by (auto simp: host_inv_def flags_inv_def close_inv_def pausing_def closing_pc_def)
  then have "in_flight h = []"
    by (auto simp: in_flight_def in_send_def split: reader_pc.splits)
  then have "received h @ held h @ h_source h = source"
    using inv h by (simp add: host_inv_def order_inv_def acknowledged_def)
  moreover have "in_flight h' = []"
    using barrier_reader[OF assms(3) h(1-3)] by (auto simp: in_flight_def in_send_def split: reader_pc.splits)
  ultimately show ?thesis
    using barrier_reader[OF assms(3) h(1-3)] h(4) by simp
qed

text \<open>While the host waits in a pause, the send it has seen is still going on or has been announced.\<close>

definition wait_inv :: "('v, 'p) host \<Rightarrow> bool" where
  "wait_inv h \<longleftrightarrow> (\<forall>columns rows. h_pc h = PauseWait columns rows \<longrightarrow> h_sending h \<or> h_send_finished h)"

lemma wait_inv_reader: "reader_step h h' \<Longrightarrow> flags_inv h \<Longrightarrow> wait_inv h \<Longrightarrow> wait_inv h'"
  by (induction rule: reader_step.induct) (auto simp: wait_inv_def flags_inv_def in_send_def)

lemma wait_inv_host: "host_step lib h h' \<Longrightarrow> wait_inv h \<Longrightarrow> wait_inv h'"
  by (induction rule: host_step.induct) (auto simp: wait_inv_def)

lemma reachable_wait: "host_reachable lib columns rows source h \<Longrightarrow> h_pc h \<noteq> HostFailed \<Longrightarrow> wait_inv h"
proof (induction rule: host_reachable.induct)
  case start
  show ?case by (simp add: wait_inv_def host_start_def)
next
  case (reader h h')
  then have "h_pc h \<noteq> HostFailed" using reader_keeps by metis
  then show ?case
    using wait_inv_reader[OF reader(2)] reader reachable_inv[OF reader(1)] by (simp add: host_inv_def)
next
  case (hosts h h')
  then show ?case using wait_inv_host host_running by metis
qed

lemma send_returns:
  assumes "h_reader h = Sending chunk" "\<not> h_receiver_open h \<or> length (h_queue h) < PTY_OUTPUT_QUEUE"
  shows "\<exists>accepted h'. reader_step h h' \<and> h_reader h' = SentChunk chunk accepted \<and> h_closing h' = h_closing h"
proof (cases "h_receiver_open h")
  case True
  then show ?thesis using reader_step.send_ok[OF assms(1)] assms(2) by fastforce
next
  case False
  then show ?thesis using reader_step.send_refused[OF assms(1)] by fastforce
qed

text \<open>C39: The host never waits for ever on the reader thread: where it waits for a send to finish it can go on, or steps of the
  thread alone let it go on; where it waits for the chunk in flight at the end, the thread has
  acknowledged it or steps of the thread alone lead to the acknowledgement.\<close>

theorem reader_lets_host_go_on:
  assumes "host_reachable lib columns rows source h" "(\<exists>columns rows. h_pc h = PauseWait columns rows) \<or> h_pc h = CloseWait"
  shows "\<exists>h'. reader_step\<^sup>*\<^sup>* h h' \<and> h_pc h' = h_pc h
    \<and> (if h_pc h = CloseWait then h_close_ack h' \<noteq> None else h_queue h' \<noteq> [] \<or> h_send_finished h')"
proof -
  have running: "h_pc h \<noteq> HostFailed" using assms(2) by auto
  note inv = reachable_inv[OF assms(1) running, unfolded host_inv_def] and wait = reachable_wait[OF assms(1) running]
  let ?answered = "\<lambda>h'. if h_pc h = CloseWait then h_close_ack h' \<noteq> None else h_queue h' \<noteq> [] \<or> h_send_finished h'"
  show ?thesis
  proof (cases "?answered h")
    case True
    then show ?thesis by blast
  next
    case False
    then have sending: "in_send (h_reader h)"
      using inv wait assms(2) by (auto simp: flags_inv_def close_inv_def wait_inv_def split: if_splits)
    have can_send: "\<not> h_receiver_open h \<or> length (h_queue h) < PTY_OUTPUT_QUEUE"
      using False assms(2) inv by (auto simp: flags_inv_def PTY_OUTPUT_QUEUE_def split: if_splits)
    obtain chunk accepted h1 where h1: "reader_step\<^sup>*\<^sup>* h h1" "h_reader h1 = SentChunk chunk accepted" "h_closing h1 = h_closing h"
    proof (cases "h_reader h")
      case (Sending chunk)
      then show thesis using send_returns[OF Sending can_send] that by blast
    next
      case (SentChunk chunk accepted)
      then show thesis using that by blast
    qed (use sending in \<open>simp_all add: in_send_def\<close>)
    have pc: "h_pc h1 = h_pc h"
      using h1(1) by (induction rule: rtranclp_induct) (use reader_keeps in \<open>metis+\<close>)
    show ?thesis
    proof (cases "h_closing h")
      case True
      then have "h_pc h = CloseWait" using assms(2) inv by (auto simp: flags_inv_def pc_defs)
      then show ?thesis
        using rtranclp.rtrancl_into_rtrancl[OF h1(1) reader_step.end_send_closing[OF h1(2)]] True h1(3) pc by fastforce
    next
      case False
      then have "h_pc h \<noteq> CloseWait" using inv by (auto simp: flags_inv_def pc_defs)
      then show ?thesis
        using rtranclp.rtrancl_into_rtrancl[OF h1(1) reader_step.end_send[OF h1(2)]] False h1(3) pc by fastforce
    qed
  qed
qed

section \<open>Checkpoints in the output\<close>

fun is_checkpoint :: "owned_terminal_output \<Rightarrow> bool" where
  "is_checkpoint (OwnedCheckpoint _ _ _) = True"
| "is_checkpoint _ = False"

text \<open>The events after the last checkpoint, and how many consecutive events have none.\<close>

definition tail_run :: "owned_terminal_output list \<Rightarrow> nat" where
  "tail_run events = length (takeWhile (\<lambda>e. \<not> is_checkpoint e) (rev events))"

definition no_gap :: "owned_terminal_output list \<Rightarrow> bool" where
  "no_gap events \<longleftrightarrow> (\<forall>xs ys zs. events = xs @ ys @ zs \<longrightarrow> list_all (\<lambda>e. \<not> is_checkpoint e) ys
     \<longrightarrow> length ys \<le> TERMINAL_CHECKPOINT_RECORD_INTERVAL)"

lemma tail_run_snoc [simp]: "tail_run (events @ [e]) = (if is_checkpoint e then 0 else Suc (tail_run events))"
  by (simp add: tail_run_def)

lemma suffix_le_tail_run: "list_all (\<lambda>e. \<not> is_checkpoint e) ys \<Longrightarrow> length ys \<le> tail_run (xs @ ys)"
  by (induction ys rule: rev_induct) (simp_all flip: append_assoc)

lemma no_gap_Nil: "no_gap []"
  by (simp add: no_gap_def)

lemma no_gap_snoc:
  assumes "no_gap events" "is_checkpoint e \<or> tail_run events < TERMINAL_CHECKPOINT_RECORD_INTERVAL"
  shows "no_gap (events @ [e])"
  unfolding no_gap_def
proof (intro allI impI)
  fix xs ys zs
  assume split: "events @ [e] = xs @ ys @ zs" and plain: "list_all (\<lambda>e. \<not> is_checkpoint e) ys"
  show "length ys \<le> TERMINAL_CHECKPOINT_RECORD_INTERVAL"
  proof (cases zs rule: rev_cases)
    case (snoc zs' z)
    then have "events = xs @ ys @ zs'" using split by simp
    then show ?thesis using assms(1) plain unfolding no_gap_def by blast
  next
    case Nil
    show ?thesis
    proof (cases ys rule: rev_cases)
      case (snoc ys' y)
      then have "events = xs @ ys'" "y = e" using split Nil by simp_all
      then show ?thesis
        using assms(2) plain snoc suffix_le_tail_run[of ys' xs] by simp
    qed simp
  qed
qed

text \<open>An ordinary event with the checkpoint the emitter answers it with.\<close>

definition checkpoint_events :: "terminal_state_checkpoint option \<Rightarrow> owned_terminal_output list" where
  "checkpoint_events ck = (case ck of None \<Rightarrow> [] | Some c \<Rightarrow> [OwnedCheckpoint (ck_columns c) (ck_rows c) (ck_state c)])"

definition answered :: "('v, 'p) terminal_library \<Rightarrow> ('v, 'p) pending_terminal_output \<Rightarrow> owned_terminal_output
    \<Rightarrow> ('v, 'p) pending_terminal_output \<Rightarrow> bool" where
  "answered lib p event p' \<longleftrightarrow> (\<exists>ck. po_events p' = po_events p @ event # checkpoint_events ck
     \<and> emitter_advances lib (po_checkpoints p) ck (po_checkpoints p'))"

lemma push_checkpoint_eq: "push_checkpoint ck p = p\<lparr> po_events := po_events p @ checkpoint_events ck \<rparr>"
  by (cases ck) (simp_all add: push_checkpoint_def checkpoint_events_def)

lemma pushes_answered:
  assumes "sized_library lib" "emitter_inv lib (po_checkpoints p)"
  shows "answered lib p (OwnedData data) (push_pty_data lib data p)"
    and "valid_size columns rows \<Longrightarrow> answered lib p (OwnedResize columns rows) (push_resize lib columns rows p)"
    and "answered lib p OwnedHeartbeat (push_heartbeat lib p)"
  using assms emitter_process_advances[of lib data "po_checkpoints p"] emitter_resize_advances[of lib columns rows "po_checkpoints p"]
    emitter_heartbeat_advances[of lib "po_checkpoints p"]
  by (auto simp: answered_def push_pty_data_def push_resize_def push_heartbeat_def push_checkpoint_eq split: prod.splits)

definition encodable :: "owned_terminal_output \<Rightarrow> bool" where
  "encodable event \<longleftrightarrow> (\<exists>bs. encode_terminal_output (as_event event) = Inr bs \<and> length bs \<le> MAX_RECORD_PAYLOAD_BYTES)"

definition STDIN_READ_BYTES :: nat where "STDIN_READ_BYTES = 16 * 1024"

lemma encodable_events:
  "length data \<le> STDIN_READ_BYTES \<Longrightarrow> encodable (OwnedData data)"
  "valid_size columns rows \<Longrightarrow> encodable (OwnedResize columns rows)"
  "valid_size columns rows \<Longrightarrow> encodable (OwnedStarted columns rows)"
  "encodable (OwnedExited status truncated)" "encodable OwnedHeartbeat"
  "fits_record c \<Longrightarrow> encodable (OwnedCheckpoint (ck_columns c) (ck_rows c) (ck_state c))"
  using fits_record_encodes[of c]
  by (auto simp: encodable_def encode_terminal_output_def encode_data_eq encode_size_Inr STDIN_READ_BYTES_def const_defs
      write_at_def event_header_def event_consts Let_def)

text \<open>The chunks are reads into a buffer of \<open>STDIN_READ_BYTES\<close>, and requested sizes have been validated.\<close>

definition small :: "pty_output list \<Rightarrow> bool" where
  "small chunks \<longleftrightarrow> (\<forall>data. Inr data \<in> set chunks \<longrightarrow> length data \<le> STDIN_READ_BYTES)"

definition requested_valid :: "host_pc \<Rightarrow> bool" where
  "requested_valid pc \<longleftrightarrow> (case pc of PauseCheck columns rows \<Rightarrow> valid_size columns rows | PauseWait columns rows \<Rightarrow> valid_size columns rows
     | Draining columns rows \<Rightarrow> valid_size columns rows | Resizing columns rows \<Rightarrow> valid_size columns rows | _ \<Rightarrow> True)"

lemma requested_valid_host: "host_step lib h h' \<Longrightarrow> requested_valid (h_pc h) \<Longrightarrow> requested_valid (h_pc h')"
  by (induction rule: host_step.induct) (auto simp: requested_valid_def split: if_splits)

lemma small_places: "order_inv source h \<Longrightarrow> small source \<Longrightarrow> small (h_queue h) \<and> small (acknowledged h)"
  by (auto simp: order_inv_def small_def prefix_def split: if_splits)

text \<open>What a step of the host does to the events and the emitter.\<close>

datatype host_effect = NoEvent | OneEvent owned_terminal_output | FinalFlush | ExitEvent

definition has_effect :: "('v, 'p) terminal_library \<Rightarrow> host_effect \<Rightarrow> ('v, 'p) host \<Rightarrow> ('v, 'p) host \<Rightarrow> bool" where
  "has_effect lib effect h h' \<longleftrightarrow> (case effect of
       NoEvent \<Rightarrow> all_events h' = all_events h \<and> po_checkpoints (h_pending h') = po_checkpoints (h_pending h)
     | OneEvent event \<Rightarrow> h_published h' = h_published h \<and> answered lib (h_pending h) event (h_pending h')
         \<and> encodable event \<and> \<not> is_checkpoint event
     | FinalFlush \<Rightarrow> h_published h' = h_published h \<and> h_pending h' = flush_checkpoint lib (h_pending h)
     | ExitEvent \<Rightarrow> h_pc h' = HostDone \<and> po_checkpoints (h_pending h') = po_checkpoints (h_pending h)
         \<and> (\<exists>status truncated. all_events h' = all_events h @ [OwnedExited status truncated]))"

lemma host_step_effect:
  assumes "host_step lib h h'" "sized_library lib" "emitter_inv lib (po_checkpoints (h_pending h))"
    and "requested_valid (h_pc h)" "small (h_queue h)" "small (acknowledged h)"
  shows "\<exists>effect. has_effect lib effect h h'"
  using assms
proof (induction rule: host_step.induct)
  case (publish h event left)
  then show ?case by (intro exI[of _ NoEvent]) (auto simp: has_effect_def all_events_def pop_front_def split: list.splits)
next
  case (publish_rest h event left)
  then show ?case by (intro exI[of _ NoEvent]) (auto simp: has_effect_def all_events_def pop_front_def split: list.splits)
next
  case (receive h data queue)
  then show ?case
    by (intro exI[of _ "OneEvent (OwnedData data)"])
      (simp add: has_effect_def push_data_def pushes_answered(1) encodable_events(1) small_def)
next
  case (pause_receive h columns rows data queue)
  then show ?case
    by (intro exI[of _ "OneEvent (OwnedData data)"])
      (simp add: has_effect_def push_data_def pushes_answered(1) encodable_events(1) small_def)
next
  case (drain h columns rows data queue)
  then show ?case
    by (intro exI[of _ "OneEvent (OwnedData data)"])
      (simp add: has_effect_def push_data_def pushes_answered(1) encodable_events(1) small_def)
next
  case (close_receive h w data queue)
  then show ?case
    by (intro exI[of _ "OneEvent (OwnedData data)"])
      (simp add: has_effect_def push_data_def pushes_answered(1) encodable_events(1) small_def)
next
  case (close_recovered h data)
  then show ?case
    by (intro exI[of _ "OneEvent (OwnedData data)"])
      (simp add: has_effect_def push_data_def pushes_answered(1) encodable_events(1) small_def acknowledged_def)
next
  case (resized h columns rows)
  then show ?case
    by (intro exI[of _ "OneEvent (OwnedResize columns rows)"])
      (simp add: has_effect_def pushes_answered(2) encodable_events(2) requested_valid_def)
next
  case (heartbeat h)
  then show ?case
    by (intro exI[of _ "OneEvent OwnedHeartbeat"]) (simp add: has_effect_def pushes_answered(3) encodable_events(5))
next
  case (loop_left h)
  then show ?case by (intro exI[of _ FinalFlush]) (simp add: has_effect_def)
next
  case (publish_exit h status)
  then show ?case by (intro exI[of _ ExitEvent]) (auto simp: has_effect_def all_events_def pending_empty_def)
next
  case (close_drained h w)
  then show ?case by (intro exI[of _ NoEvent]) (simp add: has_effect_def all_events_def)
qed (intro exI[of _ NoEvent]; simp add: has_effect_def all_events_def)+

text \<open>Over a whole run: every event can be encoded, and \<open>counted\<close> events since the last checkpoint.\<close>

definition events_inv :: "('v, 'p) terminal_library \<Rightarrow> ('v, 'p) host \<Rightarrow> bool" where
  "events_inv lib h \<longleftrightarrow> emitter_inv lib (po_checkpoints (h_pending h)) \<and> list_all encodable (all_events h)"

definition window_inv :: "owned_terminal_output \<Rightarrow> ('v, 'p) host \<Rightarrow> bool" where
  "window_inv first h \<longleftrightarrow> all_events h \<noteq> [] \<and> hd (all_events h) = first \<and> no_gap (tl (all_events h))
     \<and> (h_pc h \<noteq> HostDone \<longrightarrow> tail_run (tl (all_events h)) \<le> em_pending_records (po_checkpoints (h_pending h)))"

lemma checkpoint_events_encodable: "(\<forall>c. ck = Some c \<longrightarrow> fits_record c) \<Longrightarrow> list_all encodable (checkpoint_events ck)"
  by (cases ck) (auto simp: checkpoint_events_def encodable_events(6))

lemma flush_events:
  assumes "emitter_inv lib (po_checkpoints p)"
  shows "\<exists>ck. po_events (flush_checkpoint lib p) = po_events p @ checkpoint_events ck
    \<and> emitter_inv lib (po_checkpoints (flush_checkpoint lib p)) \<and> (\<forall>c. ck = Some c \<longrightarrow> fits_record c)
    \<and> em_pending_records (po_checkpoints (flush_checkpoint lib p)) = 0
    \<and> (em_pending_records (po_checkpoints p) \<noteq> 0 \<longrightarrow> checkpointable lib (po_checkpoints (flush_checkpoint lib p)) \<longrightarrow> ck \<noteq> None)"
proof -
  obtain ck e where flush: "emitter_flush lib (po_checkpoints p) = (ck, e)"
    by (cases "emitter_flush lib (po_checkpoints p)")
  then show ?thesis
    using emitter_flush_spec[OF flush] assms
    by (intro exI[of _ ck]) (auto simp: flush_checkpoint_def push_checkpoint_eq emitter_inv_def)
qed

lemma events_inv_effect:
  assumes "has_effect lib effect h h'" "events_inv lib h"
  shows "events_inv lib h'"
proof (cases effect)
  case NoEvent
  then show ?thesis using assms by (simp add: has_effect_def events_inv_def)
next
  case (OneEvent event)
  then obtain ck where "po_events (h_pending h') = po_events (h_pending h) @ event # checkpoint_events ck"
      "emitter_advances lib (po_checkpoints (h_pending h)) ck (po_checkpoints (h_pending h'))"
    using assms(1) by (auto simp: has_effect_def answered_def)
  then show ?thesis
    using assms OneEvent checkpoint_events_encodable[of ck]
    by (simp add: events_inv_def all_events_def emitter_advances_def has_effect_def)
next
  case FinalFlush
  then obtain ck where "po_events (h_pending h') = po_events (h_pending h) @ checkpoint_events ck"
      "emitter_inv lib (po_checkpoints (h_pending h'))" "\<forall>c. ck = Some c \<longrightarrow> fits_record c"
    using assms flush_events[of lib "h_pending h"] by (auto simp: has_effect_def events_inv_def)
  then show ?thesis
    using assms FinalFlush checkpoint_events_encodable[of ck] by (simp add: events_inv_def all_events_def has_effect_def)
next
  case ExitEvent
  then show ?thesis using assms by (auto simp: has_effect_def events_inv_def encodable_events(4))
qed

lemma window_inv_effect:
  assumes "has_effect lib effect h h'" "emitter_inv lib (po_checkpoints (h_pending h))" "window_inv first h" "h_pc h \<noteq> HostDone"
    and "checkpointable lib (po_checkpoints (h_pending h'))"
  shows "window_inv first h'"
proof -
  let ?records = "em_pending_records (po_checkpoints (h_pending h))"
  have window: "no_gap (tl (all_events h))" "tail_run (tl (all_events h)) \<le> ?records" "all_events h \<noteq> []" "hd (all_events h) = first"
      "?records < TERMINAL_CHECKPOINT_RECORD_INTERVAL"
    using assms(2-4) by (auto simp: window_inv_def emitter_inv_def)
  have plain: "no_gap (tl (all_events h) @ [event])" for event
    using window by (intro no_gap_snoc) auto
  show ?thesis
  proof (cases effect)
    case NoEvent
    then show ?thesis using assms(1) window by (simp add: has_effect_def window_inv_def)
  next
    case (OneEvent event)
    then obtain ck where events: "all_events h' = all_events h @ event # checkpoint_events ck" and event: "\<not> is_checkpoint event"
        and ck: "emitter_advances lib (po_checkpoints (h_pending h)) ck (po_checkpoints (h_pending h'))"
      using assms(1) by (auto simp: has_effect_def answered_def all_events_def)
    show ?thesis
    proof (cases ck)
      case None
      then have "em_pending_records (po_checkpoints (h_pending h')) = ?records + 1"
        using ck assms(5) by (auto simp: emitter_advances_def)
      then show ?thesis
        using events window event plain None by (simp add: window_inv_def checkpoint_events_def)
    next
      case (Some c)
      then have "no_gap ((tl (all_events h) @ [event]) @ checkpoint_events ck)" "tail_run ((tl (all_events h) @ [event]) @ checkpoint_events ck) = 0"
        using no_gap_snoc[OF plain, of "hd (checkpoint_events ck)"] by (simp_all add: checkpoint_events_def flip: append_assoc)
      then show ?thesis
        using events window by (simp add: window_inv_def)
    qed
  next
    case FinalFlush
    then have flush: "h_pending h' = flush_checkpoint lib (h_pending h)" "h_published h' = h_published h"
      using assms(1) by (simp_all add: has_effect_def)
    obtain ck where events: "all_events h' = all_events h @ checkpoint_events ck"
        and ck: "em_pending_records (po_checkpoints (h_pending h')) = 0" "?records \<noteq> 0 \<longrightarrow> ck \<noteq> None"
      using flush_events[OF assms(2)] assms(5) flush by (auto simp: all_events_def)
    show ?thesis
    proof (cases ck)
      case None
      then show ?thesis using events ck window by (simp add: window_inv_def checkpoint_events_def)
    next
      case (Some c)
      then have "no_gap (tl (all_events h) @ checkpoint_events ck)" "tail_run (tl (all_events h) @ checkpoint_events ck) = 0"
        using no_gap_snoc[OF window(1), of "hd (checkpoint_events ck)"] by (simp_all add: checkpoint_events_def)
      then show ?thesis using events window by (simp add: window_inv_def)
    qed
  next
    case ExitEvent
    then show ?thesis using assms(1) window plain by (auto simp: has_effect_def window_inv_def)
  qed
qed

lemma reachable_events:
  assumes "host_reachable lib columns rows source h" "sized_library lib" "valid_size columns rows" "small source"
  shows "events_inv lib h \<and> requested_valid (h_pc h)"
  using assms(1)
proof induction
  case start
  show ?case
    using assms emitter_new_inv[of lib columns rows]
    by (simp add: events_inv_def host_start_def all_events_def pending_output_new_def requested_valid_def encodable_events(3))
next
  case (reader h h')
  then show ?case using reader_keeps[of h h'] by (simp add: events_inv_def all_events_def)
next
  case (hosts h h')
  then have "host_inv source h"
    using reachable_inv[OF hosts(1)] host_running by blast
  then have "small (h_queue h)" "small (acknowledged h)"
    using small_places assms(4) by (auto simp: host_inv_def)
  then obtain effect where "has_effect lib effect h h'"
    using host_step_effect[OF hosts(2) assms(2)] hosts(3) by (auto simp: events_inv_def)
  then show ?case
    using events_inv_effect hosts(3) requested_valid_host[OF hosts(2)] by blast
qed

text \<open>C34: Every event the host publishes can be encoded and fits a record: no checkpoint, however the terminal state and its fallback
  have grown, is too large, and no event has a size outside the protocol's limits.\<close>

theorem host_events_encode:
  assumes "host_reachable lib columns rows source h" "sized_library lib" "valid_size columns rows" "small source"
  shows "list_all encodable (h_published h @ po_events (h_pending h))"
  using reachable_events[OF assms] by (simp add: events_inv_def all_events_def)

lemma host_not_done: "host_step lib h h' \<Longrightarrow> h_pc h \<noteq> HostDone"
  by (induction rule: host_step.induct) auto

text \<open>A run through states in which the terminal can be written out. Where it cannot, the emitter has nothing to publish.\<close>

inductive checkpointable_run :: "('v, 'p) terminal_library \<Rightarrow> u16 \<Rightarrow> u16 \<Rightarrow> pty_output list \<Rightarrow> ('v, 'p) host \<Rightarrow> bool"
  for lib columns rows source where
  begun: "checkpointable_run lib columns rows source (host_start lib columns rows source)"
| reads: "checkpointable_run lib columns rows source h \<Longrightarrow> reader_step h h' \<Longrightarrow> checkpointable_run lib columns rows source h'"
| goes_on: "checkpointable_run lib columns rows source h \<Longrightarrow> host_step lib h h' \<Longrightarrow> checkpointable lib (po_checkpoints (h_pending h'))
    \<Longrightarrow> checkpointable_run lib columns rows source h'"

lemma checkpointable_run_reachable: "checkpointable_run lib columns rows source h \<Longrightarrow> host_reachable lib columns rows source h"
  by (induction rule: checkpointable_run.induct) (auto intro: host_reachable.intros)

text \<open>C36: In a run in which the terminal's state can be written out, the events after \<open>started\<close> never contain 513 in a row
  without a checkpoint, so a consumer that reads the latest 513 events finds one or the beginning of the session, as the
  protocol promises for output that can be checkpointed.\<close>

theorem host_checkpoints_in_window:
  assumes "checkpointable_run lib columns rows source h" "sized_library lib" "valid_size columns rows" "small source"
  shows "\<exists>events. h_published h @ po_events (h_pending h) = OwnedStarted columns rows # events \<and> no_gap events"
proof -
  have "window_inv (OwnedStarted columns rows) h"
    using assms(1)
  proof induction
    case begun
    show ?case
      by (simp add: window_inv_def host_start_def all_events_def pending_output_new_def no_gap_Nil tail_run_def emitter_new_def)
  next
    case (reads h h')
    then show ?case using reader_keeps[of h h'] by (simp add: window_inv_def all_events_def)
  next
    case (goes_on h h')
    note reached = checkpointable_run_reachable[OF goes_on(1)]
    have "host_inv source h"
      using reachable_inv[OF reached] host_running[OF goes_on(2)] by blast
    then have "small (h_queue h)" "small (acknowledged h)"
      using small_places assms(4) by (auto simp: host_inv_def)
    then obtain effect where "has_effect lib effect h h'"
      using host_step_effect[OF goes_on(2) assms(2)] reachable_events[OF reached assms(2-4)] by (auto simp: events_inv_def)
    then show ?case
      using window_inv_effect[of lib effect h h'] goes_on reachable_events[OF reached assms(2-4)] host_not_done[OF goes_on(2)]
      by (simp add: events_inv_def)
  qed
  then show ?thesis
    by (cases "all_events h") (auto simp: window_inv_def all_events_def)
qed

section \<open>Runs\<close>

text \<open>A terminal whose state needs no bytes, and a parser that finds no control sequence.\<close>

definition plain_terminal :: "(u16 \<times> u16, unit) terminal_library" where
  "plain_terminal = \<lparr> vt_new = (\<lambda>rows columns. (rows, columns)), vt_process = (\<lambda>v _. (v, [])), vt_size = (\<lambda>v. v),
     vt_alternate_screen = (\<lambda>_. False), vt_state_formatted = (\<lambda>_. []), vt_set_size = (\<lambda>_ rows columns. (rows, columns)),
     vte_new = (), vte_advance = (\<lambda>p _. (p, [])) \<rparr>"

lemma plain_terminal_sized: "sized_library plain_terminal"
  by (simp add: sized_library_def plain_terminal_def)

text \<open>Its emitter never meets anything it cannot write out.\<close>

definition quiet :: "(u16 \<times> u16, unit) checkpoint_emitter \<Rightarrow> bool" where
  "quiet e \<longleftrightarrow> em_callbacks_compatible e \<and> em_compatibility e = compatibility_default"

lemma no_entries: "RBT.entries RBT.empty = []"
  by (simp add: RBT.entries_def RBT.empty.rep_eq)

lemma quiet_checkpointable: "quiet e \<Longrightarrow> checkpointable plain_terminal e"
  by (simp add: quiet_def checkpointable_def can_compact_def compatibility_default_def compact_state_def plain_terminal_def
      append_passthrough_modes_def no_entries Let_def split: prod.split)

lemma no_transition [simp]: "compatibility_default\<lparr> cm_transition := None \<rparr> = compatibility_default"
  by (simp add: compatibility_default_def)

lemma quiet_advance: "compatibility_advance plain_terminal data e = e"
  by (simp add: compatibility_advance_def plain_terminal_def)

lemma quiet_segment: "quiet e \<Longrightarrow> quiet (process_segment plain_terminal data e)"
  by (auto simp: quiet_def process_segment_def append_restore_data_def parser_process_def plain_terminal_def split: option.splits)

lemma quiet_loop: "process_loop plain_terminal data indices m n e = (m', n', e') \<Longrightarrow> quiet e \<Longrightarrow> quiet e'"
proof (induction indices arbitrary: m n e)
  case (Cons index indices)
  have same: "e\<lparr> em_compatibility := (em_compatibility e)\<lparr> cm_transition := None \<rparr> \<rparr> = e"
    using Cons.prems(2) by (cases e) (simp add: quiet_def)
  have none: "cm_transition (em_compatibility e) = None"
    using Cons.prems(2) by (simp add: quiet_def compatibility_default_def)
  have "process_loop plain_terminal data (index # indices) m n e
      = process_loop plain_terminal data indices (if data ! index \<noteq> 104 \<and> data ! index \<noteq> 108 then m else index + 1) n e"
    unfolding process_loop.simps Let_def same quiet_advance none option.case by simp
  then show ?case using Cons.IH Cons.prems by simp
qed simp

lemma quiet_flush: "emitter_flush plain_terminal e = (ck, e') \<Longrightarrow> quiet e \<Longrightarrow> quiet e'"
  by (auto simp: emitter_flush_def quiet_def Let_def split: if_splits option.splits)

lemma quiet_updates:
  "quiet e \<Longrightarrow> quiet (e\<lparr> em_pending_bytes := m, em_pending_records := n \<rparr>)" "quiet e \<Longrightarrow> quiet (e\<lparr> em_pending_records := n \<rparr>)"
  "quiet e \<Longrightarrow> quiet (e\<lparr> em_compatibility := (em_compatibility e)\<lparr> cm_transition := None \<rparr> \<rparr>)"
  "quiet e \<Longrightarrow> quiet (e\<lparr> em_parser := v, em_pending_records := n \<rparr>)"
  by (simp_all add: quiet_def)

lemma quiet_operations:
  "quiet e \<Longrightarrow> quiet (snd (emitter_process plain_terminal data e))"
  "quiet e \<Longrightarrow> quiet (snd (emitter_heartbeat plain_terminal e))"
  "quiet e \<Longrightarrow> quiet (snd (emitter_resize plain_terminal columns rows e))"
proof -
  assume e: "quiet e"
  obtain m n e1 where loop: "process_loop plain_terminal data [0..<length data] 0 0 e = (m, n, e1)"
    by (cases "process_loop plain_terminal data [0..<length data] 0 0 e")
  have "quiet (process_segment plain_terminal (drop n data) (e1\<lparr> em_compatibility := (em_compatibility e1)\<lparr> cm_transition := None \<rparr> \<rparr>))"
    using quiet_loop[OF loop e] by (intro quiet_segment quiet_updates)
  from quiet_updates(1)[OF this] show "quiet (snd (emitter_process plain_terminal data e))"
    using quiet_flush[OF prod.collapse[symmetric]] by (simp add: emitter_process_def loop Let_def quiet_advance)
  show "quiet (snd (emitter_heartbeat plain_terminal e))"
    using quiet_updates(2)[OF e] quiet_flush[OF prod.collapse[symmetric]] by (simp add: emitter_heartbeat_def Let_def)
  have "can_compact e" "\<not> vt_alternate_screen plain_terminal (em_parser e)"
    using e by (simp_all add: quiet_def can_compact_def compatibility_default_def plain_terminal_def)
  then show "quiet (snd (emitter_resize plain_terminal columns rows e))"
    using quiet_updates(4)[OF e] quiet_flush[OF prod.collapse[symmetric]] by (simp add: emitter_resize_def Let_def)
qed

lemma quiet_pushes:
  "quiet (po_checkpoints p) \<Longrightarrow> quiet (po_checkpoints (push_pty_data plain_terminal data p))"
  "quiet (po_checkpoints p) \<Longrightarrow> quiet (po_checkpoints (push_resize plain_terminal columns rows p))"
  "quiet (po_checkpoints p) \<Longrightarrow> quiet (po_checkpoints (push_heartbeat plain_terminal p))"
  "quiet (po_checkpoints p) \<Longrightarrow> quiet (po_checkpoints (flush_checkpoint plain_terminal p))"
  using quiet_operations[of "po_checkpoints p"] quiet_flush[of "po_checkpoints p"]
  by (auto simp: push_pty_data_def push_resize_def push_heartbeat_def flush_checkpoint_def push_checkpoint_eq split: prod.splits)
    (metis snd_conv)+

lemma plain_reachable_quiet: "host_reachable plain_terminal columns rows source h \<Longrightarrow> quiet (po_checkpoints (h_pending h))"
proof (induction rule: host_reachable.induct)
  case start
  show ?case by (simp add: host_start_def pending_output_new_def emitter_new_def quiet_def)
next
  case (reader h h')
  then show ?case using reader_keeps[of h h'] by simp
next
  case (hosts h h')
  from hosts(2,3) show ?case
    by (induction rule: host_step.induct) (simp_all add: push_data_def quiet_pushes pop_front_def split: list.splits prod.splits, auto)
qed

text \<open>A host in the middle of a run on that terminal.\<close>

definition host_at :: "pty_output list \<Rightarrow> reader_pc \<Rightarrow> bool \<times> bool \<times> bool \<Rightarrow> pty_output list \<Rightarrow> host_pc
    \<Rightarrow> owned_terminal_output list \<times> (u16 \<times> u16, unit) pending_terminal_output \<Rightarrow> bool \<Rightarrow> u32 option \<Rightarrow> (u16 \<times> u16, unit) host" where
  "host_at source reader flags queue pc events is_open exit_status =
     \<lparr> h_source = source, h_reader = reader, h_closing = False, h_resizing = fst flags, h_sending = fst (snd flags),
       h_send_finished = snd (snd flags), h_queue = queue, h_receiver_open = True, h_close_ack = None, h_pc = pc,
       h_pending = snd events, h_published = fst events, h_output_open = is_open, h_exit_status = exit_status,
       h_output_truncated = False, h_interrupted = False \<rparr>"

abbreviation plain_reachable :: "pty_output list \<Rightarrow> (u16 \<times> u16, unit) host \<Rightarrow> bool" where
  "plain_reachable \<equiv> host_reachable plain_terminal 80 24"

abbreviation no_output :: "(u16 \<times> u16, unit) pending_terminal_output" where
  "no_output \<equiv> pending_output_new plain_terminal 80 24"

abbreviation session_started :: "owned_terminal_output list" where
  "session_started \<equiv> [OwnedStarted 80 24]"

lemma run_read:
  "plain_reachable source (host_at (chunk # rest) Reading flags queue pc events is_open exit_status)
    \<Longrightarrow> plain_reachable source (host_at rest (Waiting chunk) flags queue pc events is_open exit_status)"
  by (drule host_reachable.reader, rule reader_step.read) (simp_all add: host_at_def)

lemma run_begin:
  "plain_reachable source (host_at rest (Waiting chunk) (False, False, f) queue pc events is_open exit_status)
    \<Longrightarrow> plain_reachable source (host_at rest (Sending chunk) (False, True, f) queue pc events is_open exit_status)"
  by (drule host_reachable.reader, rule reader_step.begin_send) (simp_all add: host_at_def)

lemma run_send:
  "plain_reachable source (host_at rest (Sending chunk) flags [] pc events is_open exit_status)
    \<Longrightarrow> plain_reachable source (host_at rest (SentChunk chunk True) flags [chunk] pc events is_open exit_status)"
  by (drule host_reachable.reader, rule reader_step.send_ok) (simp_all add: host_at_def PTY_OUTPUT_QUEUE_def)

lemma run_end:
  assumes "plain_reachable source (host_at rest (SentChunk (Inr data) True) (r, True, f) queue pc events is_open exit_status)"
  shows "plain_reachable source (host_at rest Reading (r, False, True) queue pc events is_open exit_status)"
  using host_reachable.reader[OF assms reader_step.end_send] by (simp add: host_at_def)

lemma run_start: "plain_reachable source (host_at source Reading (False, False, False) [] Selecting (session_started, no_output) True None)"
  using host_reachable.start[of plain_terminal 80 24 source] by (simp add: host_at_def host_start_def)

lemma run_resize_request:
  "plain_reachable source (host_at rest reader (False, s, f) queue Selecting (events, no_output) is_open None)
    \<Longrightarrow> plain_reachable source (host_at rest reader (True, s, f) queue (PauseCheck 100 30) (events, no_output) is_open None)"
  by (drule host_reachable.hosts, rule host_step.resize_requested[where columns = 100 and rows = 30])
    (simp_all add: host_at_def pending_empty_def pending_output_new_def valid_size_def)

text \<open>The first state of each wait: a send in progress when a resize is requested, and a chunk held back by it.\<close>

lemma run_wait:
  "plain_reachable [Inr [65]] (host_at [] (Sending (Inr [65])) (True, True, False) [] (PauseWait 100 30) (session_started, no_output) True None)"
proof -
  have "plain_reachable [Inr [65]] (host_at [] (Sending (Inr [65])) (True, True, False) [] (PauseCheck 100 30) (session_started, no_output) True None)"
    by (intro run_resize_request run_begin run_read run_start)
  from host_reachable.hosts[OF this host_step.pause_wait] show ?thesis by (simp add: host_at_def)
qed

lemma run_resizing:
  "plain_reachable [Inr [65]] (host_at [] (Waiting (Inr [65])) (True, False, False) [] (Resizing 100 30) (session_started, no_output) True None)"
proof -
  have "plain_reachable [Inr [65]] (host_at [] (Waiting (Inr [65])) (True, False, False) [] (PauseCheck 100 30) (session_started, no_output) True None)"
    by (intro run_resize_request run_read run_start)
  from host_reachable.hosts[OF this host_step.paused]
  have "plain_reachable [Inr [65]] (host_at [] (Waiting (Inr [65])) (True, False, False) [] (Draining 100 30) (session_started, no_output) True None)"
    by (simp add: host_at_def)
  from host_reachable.hosts[OF this host_step.drained] show ?thesis by (simp add: host_at_def)
qed

lemma resize_is_barrier_witness:
  "received (host_at [] (Waiting (Inr [65])) (True, False, False) [] (Resizing 100 30) (session_started, no_output) True None)
      @ [Inr [65]] = [Inr [65]]
   \<and> plain_reachable [Inr [65]] (host_at [] (Waiting (Inr [65])) (True, False, False) [] (Resizing 100 30) (session_started, no_output) True None)"
  using resize_is_barrier[OF run_resizing, of 100 30 "host_at [] (Waiting (Inr [65])) (True, False, False) [] (Resizing 100 30) (session_started, no_output) True None"]
    run_resizing by (simp add: held_def host_at_def)

lemma reader_lets_host_go_on_witness:
  "\<exists>h'. reader_step\<^sup>*\<^sup>* (host_at [] (Sending (Inr [65])) (True, True, False) [] (PauseWait 100 30) (session_started, no_output) True None) h'
    \<and> h_pc h' = PauseWait 100 30 \<and> (h_queue h' \<noteq> [] \<or> h_send_finished h')"
  using reader_lets_host_go_on[OF run_wait] by (simp add: host_at_def)

text \<open>A whole session: one chunk, the end of the output and of the child, the final checkpoint.\<close>

definition emitter_65 :: "(u16 \<times> u16, unit) checkpoint_emitter" where
  "emitter_65 = (emitter_new plain_terminal 80 24)\<lparr> em_restore_state := Some [65], em_pending_bytes := 1, em_pending_records := 1 \<rparr>"

lemma push_65: "push_pty_data plain_terminal [65] no_output = \<lparr> po_events = [OwnedData [65]], po_checkpoints = emitter_65 \<rparr>"
  by (simp add: push_pty_data_def pending_output_new_def emitter_process_def emitter_new_def plain_terminal_def compatibility_advance_def
      process_segment_def append_restore_data_def parser_process_def emitter_65_def push_checkpoint_def usize_max_def const_defs
      MAX_CHECKPOINT_STATE_BYTES_def event_consts compatibility_default_def)

lemma flush_65:
  "\<exists>e. flush_checkpoint plain_terminal \<lparr> po_events = [], po_checkpoints = emitter_65 \<rparr> = \<lparr> po_events = [OwnedCheckpoint 80 24 []], po_checkpoints = e \<rparr>"
  by (simp add: flush_checkpoint_def emitter_flush_def emitter_65_def emitter_new_def can_compact_def compatibility_default_def
      compact_state_def plain_terminal_def append_passthrough_modes_def no_entries push_checkpoint_def)

lemma run_session:
  "\<exists>h. plain_reachable [Inr [65]] h \<and> h_pc h = HostDone \<and> \<not> h_output_truncated h
    \<and> h_published h = [OwnedStarted 80 24, OwnedData [65], OwnedCheckpoint 80 24 [], OwnedExited 0 False]"
proof -
  have "plain_reachable [Inr [65]] (host_at [] Reading (False, False, True) [Inr [65]] Selecting (session_started, no_output) True None)"
    by (rule run_end, rule run_send, rule run_begin, rule run_read, rule run_start)
  from host_reachable.hosts[OF this host_step.receive[where data = "[65]" and queue = "[]"]]
  have "plain_reachable [Inr [65]] (host_at [] Reading (False, False, True) [] Selecting
      (session_started, \<lparr> po_events = [OwnedData [65]], po_checkpoints = emitter_65 \<rparr>) True None)"
    by (simp add: host_at_def push_data_def push_65[unfolded pending_output_new_def] pending_empty_def pending_output_new_def)
  from host_reachable.hosts[OF this host_step.publish[where event = "OwnedData [65]" and left = "\<lparr> po_events = [], po_checkpoints = emitter_65 \<rparr>"]]
  have "plain_reachable [Inr [65]] (host_at [] Reading (False, False, True) [] Selecting
      (session_started @ [OwnedData [65]], \<lparr> po_events = [], po_checkpoints = emitter_65 \<rparr>) True None)"
    by (simp add: host_at_def pop_front_def)
  from host_reachable.reader[OF this reader_step.end_of_file]
  have "plain_reachable [Inr [65]] (host_at [] ReaderStopped (False, False, True) [] Selecting
      (session_started @ [OwnedData [65]], \<lparr> po_events = [], po_checkpoints = emitter_65 \<rparr>) True None)"
    by (simp add: host_at_def)
  from host_reachable.hosts[OF this host_step.receive_end]
  have "plain_reachable [Inr [65]] (host_at [] ReaderStopped (False, False, True) [] Selecting
      (session_started @ [OwnedData [65]], \<lparr> po_events = [], po_checkpoints = emitter_65 \<rparr>) False None)"
    by (simp add: host_at_def pending_empty_def channel_ended_def)
  from host_reachable.hosts[OF this host_step.child_exited[where code = 0]]
  have exited: "plain_reachable [Inr [65]] (host_at [] ReaderStopped (False, False, True) [] Selecting
      (session_started @ [OwnedData [65]], \<lparr> po_events = [], po_checkpoints = emitter_65 \<rparr>) False (Some 0))"
    by (simp add: host_at_def exit_status_of_def)
  obtain e where flush: "flush_checkpoint plain_terminal \<lparr> po_events = [], po_checkpoints = emitter_65 \<rparr>
      = \<lparr> po_events = [OwnedCheckpoint 80 24 []], po_checkpoints = e \<rparr>" using flush_65 by blast
  let ?final = "\<lambda>pc events checkpoints. (host_at [] ReaderStopped (False, False, True) [] pc
      (events, \<lparr> po_events = checkpoints, po_checkpoints = e \<rparr>) False (Some 0))\<lparr> h_receiver_open := False \<rparr>"
  from host_reachable.hosts[OF exited host_step.loop_left]
  have "plain_reachable [Inr [65]] (?final Finishing (session_started @ [OwnedData [65]]) [OwnedCheckpoint 80 24 []])"
    by (simp add: host_at_def flush)
  from host_reachable.hosts[OF this host_step.publish_rest[where event = "OwnedCheckpoint 80 24 []" and left = "\<lparr> po_events = [], po_checkpoints = e \<rparr>"]]
  have "plain_reachable [Inr [65]] (?final Finishing (session_started @ [OwnedData [65], OwnedCheckpoint 80 24 []]) [])"
    by (simp add: host_at_def pop_front_def)
  from host_reachable.hosts[OF this host_step.publish_exit[where status = 0]]
  have "plain_reachable [Inr [65]] (?final HostDone (session_started @ [OwnedData [65], OwnedCheckpoint 80 24 [], OwnedExited 0 False]) [])"
    by (simp add: host_at_def pending_empty_def)
  then show ?thesis by (intro exI conjI) (assumption, simp_all add: host_at_def)
qed

lemma host_transcript_witness:
  "\<exists>h events. plain_reachable [Inr [65]] h \<and> h_pc h = HostDone
    \<and> h_published h = OwnedStarted 80 24 # events @ [OwnedExited 0 False]
    \<and> map Inr (concat (map data_of events)) = [Inr [65] :: pty_output] \<and> list_all (\<lambda>e. \<not> frames_session e) events"
proof -
  obtain h where h: "plain_reachable [Inr [65]] h" "h_pc h = HostDone" "\<not> h_output_truncated h"
      "h_published h = [OwnedStarted 80 24, OwnedData [65], OwnedCheckpoint 80 24 [], OwnedExited 0 False]"
    using run_session by blast
  from host_transcript[OF h(1,2)] show ?thesis
    using h by (intro exI[of _ h]) auto
qed

lemma small_65: "small [Inr [65]]" and valid_80: "valid_size 80 24"
  by (simp_all add: small_def STDIN_READ_BYTES_def valid_size_def)

lemma host_events_encode_witness:
  "\<exists>h. plain_reachable [Inr [65]] h \<and> h_pc h = HostDone \<and> list_all encodable (h_published h @ po_events (h_pending h))"
  using run_session host_events_encode[OF _ plain_terminal_sized valid_80 small_65] by blast

lemma plain_checkpointable_run: "plain_reachable source h \<Longrightarrow> checkpointable_run plain_terminal 80 24 source h"
  by (induction rule: host_reachable.induct)
    (blast intro: checkpointable_run.intros quiet_checkpointable plain_reachable_quiet host_reachable.hosts)+

lemma host_checkpoints_in_window_witness:
  "\<exists>h events. plain_reachable [Inr [65]] h \<and> h_pc h = HostDone
    \<and> h_published h @ po_events (h_pending h) = OwnedStarted 80 24 # events \<and> no_gap events"
  using run_session host_checkpoints_in_window[OF plain_checkpointable_run plain_terminal_sized valid_80 small_65] by blast

end
