(* ===== verification/TerminalInput.thy ===== *)
theory TerminalInput
  imports TerminalProtocol Reassembly
begin

text \<open>
  The input side of \<open>cli/src/terminal.rs\<close>: \<open>forward_terminal_input\<close> reads the records of the terminal's input stream and
  applies each new event to the PTY before the next. The workers that own the PTY are an environment that
  answers each action: the channel to the worker or its answer is lost, or the action fails or is applied.
\<close>

section \<open>Forwarding input\<close>

definition MAX_INPUT_WRITERS :: nat where "MAX_INPUT_WRITERS = 4096"

datatype pty_action = PtyWrite bytes | PtyResize u16 u16

datatype 'e forward_error =
    ReadFailed 'e
  | InputEnded
  | TooManyWriters
  | SplitInputRecord
  | InvalidInput terminal_protocol_error
  | PtyWorkerStopped
  | HostStopped
  | PtyWriteFailed string
  | PtyResizeFailed string

text \<open>What becomes of an action that was sent to its worker: the channel is closed, or it is applied or fails.\<close>

datatype pty_reply = ReplyLost | ReplyFailed string | ReplyApplied

record 's pty_environment =
  pe_apply :: "pty_action \<Rightarrow> 's \<Rightarrow> pty_reply \<times> 's"

type_synonym writer_positions = "(writer_id \<times> u64) list"

definition confirm_write :: "pty_reply \<Rightarrow> 'e forward_error + unit" where
  "confirm_write reply = (case reply of ReplyLost \<Rightarrow> Inl PtyWorkerStopped | ReplyFailed e \<Rightarrow> Inl (PtyWriteFailed e) | ReplyApplied \<Rightarrow> Inr ())"

definition confirm_resize :: "pty_reply \<Rightarrow> 'e forward_error + unit" where
  "confirm_resize reply = (case reply of ReplyLost \<Rightarrow> Inl HostStopped | ReplyFailed e \<Rightarrow> Inl (PtyResizeFailed e) | ReplyApplied \<Rightarrow> Inr ())"

definition apply_input :: "'s pty_environment \<Rightarrow> terminal_input_event \<Rightarrow> 's \<Rightarrow> ('e forward_error + unit) \<times> 's" where
  "apply_input env event s = (case event of
       InputData data \<Rightarrow> (case pe_apply env (PtyWrite data) s of (reply, s) \<Rightarrow> (confirm_write reply, s))
     | InputResize columns rows \<Rightarrow> (case pe_apply env (PtyResize columns rows) s of (reply, s) \<Rightarrow> (confirm_resize reply, s)))"

definition forward_record :: "'s pty_environment \<Rightarrow> read_record \<Rightarrow> writer_positions \<Rightarrow> 's
    \<Rightarrow> ('e forward_error + unit) \<times> writer_positions \<times> 's" where
  "forward_record env record positions s =
     (if map_of positions (rr_writer_id record) = None \<and> length positions \<ge> MAX_INPUT_WRITERS then (Inl TooManyWriters, positions, s)
      else if (case map_of positions (rr_writer_id record) of Some position \<Rightarrow> position \<ge> rr_writer_seq_num record | None \<Rightarrow> False)
      then (Inr (), positions, s)
      else
        (let positions = AList.update (rr_writer_id record) (rr_writer_seq_num record) positions in
         if rr_part record \<noteq> unsplit then (Inl SplitInputRecord, positions, s)
         else case decode_terminal_input (rr_data record) of
             Inl e \<Rightarrow> (Inl (InvalidInput e), positions, s)
           | Inr event \<Rightarrow> (case apply_input env event s of (r, s) \<Rightarrow> (r, positions, s))))"

fun forward_records :: "'s pty_environment \<Rightarrow> read_record list \<Rightarrow> writer_positions \<Rightarrow> 's
    \<Rightarrow> ('e forward_error + unit) \<times> writer_positions \<times> 's" where
  "forward_records env [] positions s = (Inr (), positions, s)"
| "forward_records env (record # rest) positions s =
     (case forward_record env record positions s of
        (Inl e, positions, s) \<Rightarrow> (Inl e, positions, s)
      | (Inr _, positions, s) \<Rightarrow> forward_records env rest positions s)"

text \<open>The loop over what successive calls of \<open>next_batch\<close> return; it only ends with an error, or here with the list.\<close>

fun forward_terminal_input :: "'s pty_environment \<Rightarrow> ('e + read_batch option) list \<Rightarrow> writer_positions \<Rightarrow> 's
    \<Rightarrow> ('e forward_error + unit) \<times> writer_positions \<times> 's" where
  "forward_terminal_input env [] positions s = (Inr (), positions, s)"
| "forward_terminal_input env (result # rest) positions s =
     (case result of
        Inl e \<Rightarrow> (Inl (ReadFailed e), positions, s)
      | Inr None \<Rightarrow> (Inl InputEnded, positions, s)
      | Inr (Some batch) \<Rightarrow>
          (case forward_records env (batch_records batch) positions s of
             (Inl e, positions, s) \<Rightarrow> (Inl e, positions, s)
           | (Inr _, positions, s) \<Rightarrow> forward_terminal_input env rest positions s))"

section \<open>What is applied\<close>

text \<open>The PTY with a record of what it was asked and what it answered.\<close>

definition logged_pty :: "'s pty_environment \<Rightarrow> ('s \<times> (pty_action \<times> pty_reply) list) pty_environment" where
  "logged_pty env = \<lparr> pe_apply = (\<lambda>action (s, log). case pe_apply env action s of (reply, s) \<Rightarrow> (reply, s, log @ [(action, reply)])) \<rparr>"

text \<open>A record is new when every earlier record of its writer has a smaller sequence number. The new records
  of a stream, given the records before it, and the action that a record asks for.\<close>

definition is_new :: "read_record list \<Rightarrow> read_record \<Rightarrow> bool" where
  "is_new before r \<longleftrightarrow> list_all (\<lambda>q. rr_writer_id q = rr_writer_id r \<longrightarrow> rr_writer_seq_num q < rr_writer_seq_num r) before"

fun new_records :: "read_record list \<Rightarrow> read_record list \<Rightarrow> read_record list" where
  "new_records before [] = []"
| "new_records before (r # rs) = (if is_new before r then [r] else []) @ new_records (before @ [r]) rs"

definition input_action :: "read_record \<Rightarrow> terminal_protocol_error + pty_action" where
  "input_action r = (case decode_terminal_input (rr_data r) of
       Inl e \<Rightarrow> Inl e
     | Inr (InputData data) \<Rightarrow> Inr (PtyWrite data)
     | Inr (InputResize columns rows) \<Rightarrow> Inr (PtyResize columns rows))"

text \<open>The records of the batches up to the first call that fails or ends.\<close>

fun delivered_records :: "('e + read_batch option) list \<Rightarrow> read_record list" where
  "delivered_records (Inr (Some batch) # results) = batch_records batch @ delivered_records results"
| "delivered_records _ = []"

text \<open>What the positions stand for, and their bound.\<close>

definition tracks :: "read_record list \<Rightarrow> writer_positions \<Rightarrow> bool" where
  "tracks before positions \<longleftrightarrow> (\<forall>w n. (case map_of positions w of Some position \<Rightarrow> position < n | None \<Rightarrow> True)
      \<longleftrightarrow> list_all (\<lambda>q. rr_writer_id q = w \<longrightarrow> rr_writer_seq_num q < n) before)"

definition positions_bounded :: "writer_positions \<Rightarrow> bool" where
  "positions_bounded positions \<longleftrightarrow> distinct (map fst positions) \<and> length positions \<le> MAX_INPUT_WRITERS"

lemma tracks_Nil [simp]: "tracks [] []"
  by (simp add: tracks_def)

lemma is_new_positions:
  "tracks before positions \<Longrightarrow>
     is_new before r \<longleftrightarrow> \<not> (case map_of positions (rr_writer_id r) of Some position \<Rightarrow> position \<ge> rr_writer_seq_num r | None \<Rightarrow> False)"
  unfolding tracks_def is_new_def by (drule spec[of _ "rr_writer_id r"], drule spec[of _ "rr_writer_seq_num r"]) (auto split: option.splits)

lemma tracks_old: "tracks before positions \<Longrightarrow> \<not> is_new before r \<Longrightarrow> tracks (before @ [r]) positions"
  using is_new_positions[of before positions r] unfolding tracks_def by (fastforce split: option.splits)

lemma tracks_new:
  assumes "tracks before positions" "is_new before r"
  shows "tracks (before @ [r]) (AList.update (rr_writer_id r) (rr_writer_seq_num r) positions)"
  unfolding tracks_def
proof (intro allI)
  fix w n
  have "list_all (\<lambda>q. rr_writer_id q = rr_writer_id r \<longrightarrow> rr_writer_seq_num q < n) before" if "rr_writer_seq_num r < n"
    using assms(2) that unfolding is_new_def by (auto simp: list_all_iff)
  then show "(case map_of (AList.update (rr_writer_id r) (rr_writer_seq_num r) positions) w of Some position \<Rightarrow> position < n | None \<Rightarrow> True)
     = list_all (\<lambda>q. rr_writer_id q = w \<longrightarrow> rr_writer_seq_num q < n) (before @ [r])"
    using assms(1) by (cases "w = rr_writer_id r") (auto simp: update_conv' tracks_def)
qed

lemma length_update_new: "map_of positions w = None \<Longrightarrow> length (AList.update w v positions) = Suc (length positions)"
  by (induction positions) (auto split: if_splits)

lemma length_update_old: "map_of positions w \<noteq> None \<Longrightarrow> length (AList.update w v positions) = length positions"
  by (induction positions) (auto split: if_splits)

lemma positions_bounded_update:
  "positions_bounded positions \<Longrightarrow> \<not> (map_of positions w = None \<and> length positions \<ge> MAX_INPUT_WRITERS)
    \<Longrightarrow> positions_bounded (AList.update w v positions)"
  unfolding positions_bounded_def
  by (cases "map_of positions w") (auto simp: length_update_new length_update_old distinct_update)

lemma apply_input_logged:
  assumes "apply_input (logged_pty env) event (s, log) = ((outcome :: 'e forward_error + unit), s', log')" "decode_terminal_input (rr_data r) = Inr event"
  shows "\<exists>action reply. log' = log @ [(action, reply)] \<and> input_action r = Inr action \<and> (isl outcome \<longleftrightarrow> reply \<noteq> ReplyApplied)"
  using assms
  by (cases event) (auto simp: apply_input_def logged_pty_def input_action_def confirm_write_def confirm_resize_def
      split: prod.splits pty_reply.splits)

text \<open>One record: an old one changes nothing; a new one is applied, if it is not refused.\<close>

lemma forward_record_effect:
  assumes "forward_record (logged_pty env) r positions (s, log) = ((outcome :: 'e forward_error + unit), positions', s', log')"
    and "tracks before positions" "positions_bounded positions"
  shows "positions_bounded positions'"
    and "\<not> isl outcome \<Longrightarrow> tracks (before @ [r]) positions'"
    and "\<not> is_new before r \<Longrightarrow> \<not> isl outcome \<and> log' = log"
    and "is_new before r \<Longrightarrow> log' = log \<and> isl outcome
      \<or> (\<exists>action reply. log' = log @ [(action, reply)] \<and> input_action r = Inr action \<and> rr_part r = unsplit \<and> (isl outcome \<longleftrightarrow> reply \<noteq> ReplyApplied))"
proof -
  note new = is_new_positions[OF assms(2), of r]
  note update = positions_bounded_update[OF assms(3), of "rr_writer_id r" "rr_writer_seq_num r"]
  show "positions_bounded positions'"
    using assms(1,3) update by (auto simp: forward_record_def Let_def split: if_splits sum.splits prod.splits)
  show "\<not> isl outcome \<Longrightarrow> tracks (before @ [r]) positions'"
    using assms(1,2) new tracks_old[OF assms(2), of r] tracks_new[OF assms(2), of r]
    by (auto simp: forward_record_def Let_def split: if_splits sum.splits prod.splits)
  show "\<not> is_new before r \<Longrightarrow> \<not> isl outcome \<and> log' = log"
    using assms(1) new by (auto simp: forward_record_def split: if_splits option.splits)
  show "is_new before r \<Longrightarrow> log' = log \<and> isl outcome
      \<or> (\<exists>action reply. log' = log @ [(action, reply)] \<and> input_action r = Inr action \<and> rr_part r = unsplit \<and> (isl outcome \<longleftrightarrow> reply \<noteq> ReplyApplied))"
    using assms(1) new apply_input_logged[of env _ s log outcome s' log' r]
    by (auto simp: forward_record_def Let_def split: if_splits sum.splits prod.splits)
qed

text \<open>What a run has logged, against the new records it has seen: they are applied in order, none is skipped, and only
  the last can have failed.\<close>

definition applied_in_order :: "bool \<Rightarrow> (pty_action \<times> pty_reply) list \<Rightarrow> read_record list \<Rightarrow> bool" where
  "applied_in_order failed log records \<longleftrightarrow>
     length log \<le> length records
     \<and> map (Inr \<circ> fst) log = map input_action (take (length log) records)
     \<and> list_all (\<lambda>r. rr_part r = unsplit) (take (length log) records)
     \<and> list_all (\<lambda>(action, reply). reply = ReplyApplied) (butlast log)
     \<and> (failed \<or> length log = length records \<and> list_all (\<lambda>(action, reply). reply = ReplyApplied) log)"

lemma applied_Nil [simp]: "applied_in_order failed [] records \<longleftrightarrow> failed \<or> records = []"
  by (auto simp: applied_in_order_def)

lemma applied_Cons:
  "input_action r = Inr action \<Longrightarrow> rr_part r = unsplit \<Longrightarrow>
     applied_in_order failed ((action, ReplyApplied) # log) (r # records) = applied_in_order failed log records"
  by (auto simp: applied_in_order_def)

lemma applied_failed:
  "input_action r = Inr action \<Longrightarrow> rr_part r = unsplit \<Longrightarrow> applied_in_order True [(action, reply)] (r # records)"
  by (auto simp: applied_in_order_def)

lemma applied_append:
  "applied_in_order False log records \<Longrightarrow> applied_in_order failed log' records' \<Longrightarrow> applied_in_order failed (log @ log') (records @ records')"
  by (auto simp: applied_in_order_def butlast_append)

lemma new_records_append: "new_records before (rs @ rs') = new_records before rs @ new_records (before @ rs) rs'"
  by (induction rs arbitrary: before) auto

lemma forward_records_effect:
  fixes outcome :: "'e forward_error + unit"
  assumes "forward_records (logged_pty env) rs positions (s, log) = (outcome, positions', s', log')"
    and "tracks before positions" "positions_bounded positions"
  shows "positions_bounded positions' \<and> (isl outcome \<or> tracks (before @ rs) positions')
    \<and> (\<exists>new. log' = log @ new \<and> applied_in_order (isl outcome) new (new_records before rs))"
  using assms
proof (induction rs arbitrary: before positions s log)
  case Nil
  then show ?case by simp
next
  case (Cons r rs)
  obtain first p1 s1 log1 where first: "forward_record (logged_pty env) r positions (s, log) = ((first :: 'e forward_error + unit), p1, s1, log1)"
    by (metis prod_cases4)
  note effect = forward_record_effect[OF first Cons.prems(2,3)]
  show ?case
  proof (cases first)
    case (Inl e)
    then have "outcome = Inl e" "positions' = p1" "log' = log1" using Cons.prems(1) first by simp_all
    then show ?thesis using Inl effect(1,3,4) by (auto simp: applied_failed)
  next
    case (Inr u)
    then have "forward_records (logged_pty env) rs p1 (s1, log1) = (outcome, positions', s', log')"
      using Cons.prems(1) first by simp
    from Cons.IH[OF this effect(2) effect(1)] Inr obtain new where
      rest: "positions_bounded positions'" "isl outcome \<or> tracks (before @ r # rs) positions'"
        "log' = log1 @ new" "applied_in_order (isl outcome) new (new_records (before @ [r]) rs)"
      by auto
    show ?thesis
    proof (cases "is_new before r")
      case True
      then show ?thesis using effect(4) Inr rest by (auto simp: applied_Cons)
    next
      case False
      then show ?thesis using effect(3) rest by auto
    qed
  qed
qed

text \<open>Whether the forwarder gave up on a record, rather than come to the end of what it read.\<close>

definition gave_up :: "'e forward_error + unit \<Rightarrow> bool" where
  "gave_up outcome = (case outcome of
       Inl e \<Rightarrow> (case e of ReadFailed _ \<Rightarrow> False | InputEnded \<Rightarrow> False | _ \<Rightarrow> True)
     | Inr _ \<Rightarrow> False)"

lemma forward_record_gives_up:
  "forward_record env r positions s = ((outcome :: 'e forward_error + unit), positions', s') \<Longrightarrow> gave_up outcome = isl outcome"
  by (auto simp: forward_record_def Let_def apply_input_def confirm_write_def confirm_resize_def gave_up_def
      split: if_splits sum.splits prod.splits terminal_input_event.splits pty_reply.splits)

lemma forward_records_gives_up:
  "forward_records env rs positions s = ((outcome :: 'e forward_error + unit), positions', s') \<Longrightarrow> gave_up outcome = isl outcome"
proof (induction rs arbitrary: positions s)
  case Nil
  then show ?case by (auto simp: gave_up_def)
next
  case (Cons r rs)
  obtain first p1 s1 where first: "forward_record env r positions s = ((first :: 'e forward_error + unit), p1, s1)"
    by (metis prod_cases3)
  show ?case
    using Cons first forward_record_gives_up[OF first] by (cases first) auto
qed

lemma forward_input_effect:
  fixes outcome :: "'e forward_error + unit"
  assumes "forward_terminal_input (logged_pty env) results positions (s, log) = (outcome, positions', s', log')"
    and "tracks before positions" "positions_bounded positions"
  shows "positions_bounded positions'
    \<and> (\<exists>new. log' = log @ new \<and> applied_in_order (gave_up outcome) new (new_records before (delivered_records results)))"
  using assms
proof (induction results arbitrary: before positions s log)
  case Nil
  then show ?case by simp
next
  case (Cons result results)
  show ?case
  proof (cases "\<exists>batch. result = Inr (Some batch)")
    case True
    then obtain batch where batch: "result = Inr (Some batch)" by blast
    obtain first p1 s1 log1 where first: "forward_records (logged_pty env) (batch_records batch) positions (s, log) = ((first :: 'e forward_error + unit), p1, s1, log1)"
      by (metis prod_cases4)
    note effect = forward_records_effect[OF first Cons.prems(2,3)]
    then obtain new where new: "log1 = log @ new" "applied_in_order (isl first) new (new_records before (batch_records batch))" by blast
    show ?thesis
    proof (cases first)
      case (Inl e)
      then show ?thesis
        using Cons.prems(1) batch first effect new forward_records_gives_up[OF first]
        by (auto simp: new_records_append applied_in_order_def)
    next
      case (Inr u)
      then have rest: "forward_terminal_input (logged_pty env) results p1 (s1, log1) = (outcome, positions', s', log')"
        using Cons.prems(1) batch first by simp
      show ?thesis
        using Cons.IH[OF rest, of "before @ batch_records batch"] effect Inr batch new applied_append[of new]
        by (fastforce simp: new_records_append)
    qed
  next
    case False
    then have "delivered_records (result # results) = []"
      by (cases result) (auto split: option.splits)
    moreover have "outcome = (case result of Inl e \<Rightarrow> Inl (ReadFailed e) | Inr _ \<Rightarrow> Inl InputEnded) \<and> positions' = positions \<and> log' = log"
      using False Cons.prems(1) by (auto split: sum.splits option.splits)
    ultimately show ?thesis
      using Cons.prems(3) by (auto simp: gave_up_def split: sum.splits)
  qed
qed

text \<open>C24: Terminal input is applied in order and at most once, however often the reader delivers a record again: the actions
  sent to the PTY are those of the records that are newer than every earlier one of their writer, each sent only when the one before it was
  applied, all of them unless the forwarder gave up; and it never remembers more than 4096 writers.\<close>

theorem input_applied_in_order:
  fixes outcome :: "'e forward_error + unit"
  assumes "forward_terminal_input (logged_pty env) results [] (s, []) = (outcome, positions, s', log)"
  shows "applied_in_order (gave_up outcome) log (new_records [] (delivered_records results))
    \<and> distinct (map fst positions) \<and> length positions \<le> MAX_INPUT_WRITERS"
  using forward_input_effect[OF assms, of "[]"] by (auto simp: positions_bounded_def)

text \<open>A record delivered twice: two batches, of which the second repeats the record of the first.\<close>

definition sample_meta :: "u64 \<Rightarrow> u32 \<Rightarrow> record_meta" where
  "sample_meta n start = \<lparr> rm_seq_num = n, rm_timestamp_ms = 0, rm_writer_id = WriterId (replicate 16 0), rm_writer_seq_num = n,
     rm_part = unsplit, rm_data_start = start, rm_data_len = 3 \<rparr>"

definition sample_results :: "(unit + read_batch option) list" where
  "sample_results =
     [Inr (Some \<lparr> batch_payload = [1, DATA, 65], batch_metas = [sample_meta 4 0] \<rparr>),
      Inr (Some \<lparr> batch_payload = [1, DATA, 65, 1, DATA, 66], batch_metas = [sample_meta 4 0, sample_meta 5 3] \<rparr>),
      Inr None]"

definition obedient_pty :: "nat pty_environment" where
  "obedient_pty = \<lparr> pe_apply = (\<lambda>_ n. (ReplyApplied, n + 1)) \<rparr>"

lemma sample_input_run:
  "forward_terminal_input (logged_pty obedient_pty) sample_results [] (0, [])
     = (Inl InputEnded, [(WriterId (replicate 16 0), 5)], 2, [(PtyWrite [65], ReplyApplied), (PtyWrite [66], ReplyApplied)])"
  by (simp add: sample_results_def sample_meta_def obedient_pty_def logged_pty_def batch_records_def meta_record_def meta_data_def
      forward_record_def apply_input_def confirm_write_def MAX_INPUT_WRITERS_def decode_terminal_input_def event_type_def event_consts Let_def)

lemma input_applied_in_order_witness:
  "applied_in_order False [(PtyWrite [65], ReplyApplied), (PtyWrite [66], ReplyApplied)] (new_records [] (delivered_records sample_results))"
  using input_applied_in_order[OF sample_input_run] by (simp add: gave_up_def)

end
