(* ===== verification/WriterService.thy ===== *)
theory WriterService
  imports Frames
begin

text \<open>
  What the command-line client sees of the durable writer: batches are submitted and answered by a ticket or an error, a
  ticket is awaited or polled, the writer is closed. The writer and everything around it, the user's
  interrupt included, are a function of an environment state \<open>'s\<close>; \<open>sv_stop\<close> tells whether the interrupt that
  ends the process at once has come, or listening for it has failed. A logged service keeps the calls made to it and
  what they returned, against which the clients are specified.
\<close>

record ('t, 'e, 's) writer_service =
  sv_submit :: "append_batch \<Rightarrow> 's \<Rightarrow> ('e + 't) \<times> 's"
  sv_wait :: "'t \<Rightarrow> 's \<Rightarrow> ('e + unit) \<times> 's"
  sv_poll :: "'t \<Rightarrow> 's \<Rightarrow> ('e + unit) option \<times> 's"
  sv_wait_unless_interrupted :: "'t \<Rightarrow> 's \<Rightarrow> ('e + unit) option \<times> 's"
  sv_interrupted :: "'s \<Rightarrow> bool \<times> 's"
  sv_close :: "'s \<Rightarrow> ('e + unit) \<times> 's"
  sv_now :: "'s \<Rightarrow> nat \<times> 's"
  sv_confirm :: "nat \<Rightarrow> 's \<Rightarrow> 's"
  sv_stop :: "'s \<Rightarrow> ('e + unit) option \<times> 's"

datatype 't service_call =
    Submitted append_batch 't
  | SubmitRefused append_batch
  | TicketOk 't
  | TicketFailed 't
  | WriterClosed bool
  | Confirmed nat
  | InterruptSeen
  | StopSeen

fun ticket_call :: "'t \<Rightarrow> 'e + unit \<Rightarrow> 't service_call" where
  "ticket_call t (Inr _) = TicketOk t"
| "ticket_call t (Inl _) = TicketFailed t"

fun stop_calls :: "('e + unit) option \<Rightarrow> 't service_call list" where
  "stop_calls (Some (Inr _)) = [StopSeen]"
| "stop_calls _ = []"

type_synonym ('t, 's) logged = "'s \<times> 't service_call list"

definition logged_service :: "('t, 'e, 's) writer_service \<Rightarrow> ('t, 'e, ('t, 's) logged) writer_service" where
  "logged_service svc =
     \<lparr> sv_submit = (\<lambda>batch (s, log). case sv_submit svc batch s of
           (Inl e, s) \<Rightarrow> (Inl e, s, log @ [SubmitRefused batch])
         | (Inr t, s) \<Rightarrow> (Inr t, s, log @ [Submitted batch t])),
       sv_wait = (\<lambda>t (s, log). case sv_wait svc t s of (result, s) \<Rightarrow> (result, s, log @ [ticket_call t result])),
       sv_poll = (\<lambda>t (s, log). case sv_poll svc t s of
           (None, s) \<Rightarrow> (None, s, log)
         | (Some result, s) \<Rightarrow> (Some result, s, log @ [ticket_call t result])),
       sv_wait_unless_interrupted = (\<lambda>t (s, log). case sv_wait_unless_interrupted svc t s of
           (None, s) \<Rightarrow> (None, s, log @ [InterruptSeen])
         | (Some result, s) \<Rightarrow> (Some result, s, log @ [ticket_call t result])),
       sv_interrupted = (\<lambda>(s, log). case sv_interrupted svc s of (flag, s) \<Rightarrow> (flag, s, log @ (if flag then [InterruptSeen] else []))),
       sv_close = (\<lambda>(s, log). case sv_close svc s of (result, s) \<Rightarrow> (result, s, log @ [WriterClosed (\<not> isl result)])),
       sv_now = (\<lambda>(s, log). case sv_now svc s of (now, s) \<Rightarrow> (now, s, log)),
       sv_confirm = (\<lambda>k (s, log). (sv_confirm svc k s, log @ [Confirmed k])),
       sv_stop = (\<lambda>(s, log). case sv_stop svc s of (stop, s) \<Rightarrow> (stop, s, log @ stop_calls stop)) \<rparr>"

fun submitted_batch :: "'t service_call \<Rightarrow> append_batch list" where
  "submitted_batch (Submitted batch _) = [batch]"
| "submitted_batch _ = []"

definition submitted :: "'t service_call list \<Rightarrow> append_batch list" where
  "submitted log = concat (map submitted_batch log)"

lemma submitted_simps [simp]:
  "submitted [] = []" "submitted (call # log) = submitted_batch call @ submitted log" "submitted (log @ log') = submitted log @ submitted log'"
  by (simp_all add: submitted_def)

lemma submitted_ticket_call [simp]: "submitted_batch (ticket_call t result) = []"
  by (cases result) simp_all

lemma logged_submit:
  "sv_submit (logged_service svc) batch (s, log) = (r, s', log') \<Longrightarrow>
     log' = log @ [case r of Inl _ \<Rightarrow> SubmitRefused batch | Inr t \<Rightarrow> Submitted batch t]"
  by (auto simp: logged_service_def split: prod.splits sum.splits)

lemma logged_wait:
  "sv_wait (logged_service svc) t (s, log) = (r, s', log') \<Longrightarrow> log' = log @ [ticket_call t r]"
  by (auto simp: logged_service_def split: prod.splits)

lemma logged_poll:
  "sv_poll (logged_service svc) t (s, log) = (r, s', log') \<Longrightarrow>
     log' = log @ (case r of None \<Rightarrow> [] | Some r \<Rightarrow> [ticket_call t r])"
  by (auto simp: logged_service_def split: prod.splits option.splits)

lemma logged_race:
  "sv_wait_unless_interrupted (logged_service svc) t (s, log) = (r, s', log') \<Longrightarrow>
     log' = log @ [case r of None \<Rightarrow> InterruptSeen | Some r \<Rightarrow> ticket_call t r]"
  by (auto simp: logged_service_def split: prod.splits option.splits)

lemma logged_interrupted:
  "sv_interrupted (logged_service svc) (s, log) = (flag, s', log') \<Longrightarrow> log' = log @ (if flag then [InterruptSeen] else [])"
  by (auto simp: logged_service_def split: prod.splits)

lemma logged_now:
  "sv_now (logged_service svc) (s, log) = (now, s', log') \<Longrightarrow> log' = log"
  by (auto simp: logged_service_def split: prod.splits)

lemma logged_close:
  "sv_close (logged_service svc) (s, log) = (r, s', log') \<Longrightarrow> log' = log @ [WriterClosed (\<not> isl r)]"
  by (auto simp: logged_service_def split: prod.splits)

lemma logged_confirm: "sv_confirm (logged_service svc) k (s, log) = (s', log') \<Longrightarrow> log' = log @ [Confirmed k]"
  by (auto simp: logged_service_def)

lemma submitted_stop_calls [simp]: "submitted (stop_calls stop) = []"
  by (cases stop rule: stop_calls.cases) simp_all

lemma logged_stop: "sv_stop (logged_service svc) (s, log) = (stop, s', log') \<Longrightarrow> log' = log @ stop_calls stop"
  by (auto simp: logged_service_def split: prod.splits)

lemmas logged_calls = logged_submit logged_wait logged_poll logged_race logged_interrupted logged_now logged_close logged_confirm logged_stop

end
