(* ===== verification/TerminalPublisher.thy ===== *)
theory TerminalPublisher
  imports TerminalHost WriterService
begin

text \<open>
  The publisher of terminal events in \<open>cli/src/terminal.rs\<close>: \<open>OutputPublisher\<close> submits each event as one record and keeps
  at most 32 tickets; \<open>run_output_publisher\<close> serves the host's commands and confirms the ones that ask to be
  durable. The channel of commands is the list of those the host sends before it drops its end.
\<close>

definition MAX_PENDING_OUTPUT_RECORDS :: nat where "MAX_PENDING_OUTPUT_RECORDS = 32"

text \<open>A command with the identity of its one-shot sender, if it carries one.\<close>

record output_command =
  oc_event :: owned_terminal_output
  oc_durable :: "nat option"

datatype 'e publish_error =
    PublishFailed 'e
  | EncodeFailed terminal_protocol_error
  | BatchFailed "unit frame_codec_error"
  | CloseFailed 'e
  | QueueEmpty

type_synonym ('t, 'e, 's) publishing = "('e publish_error + unit) \<times> 't list \<times> 's"

definition wait_for_oldest_output :: "('t, 'e, 's) writer_service \<Rightarrow> 't list \<Rightarrow> 's \<Rightarrow> ('t, 'e, 's) publishing" where
  "wait_for_oldest_output svc waiting s = (case waiting of
       [] \<Rightarrow> (Inl QueueEmpty, waiting, s)
     | ticket # rest \<Rightarrow> (case sv_wait svc ticket s of
           (Inl e, s) \<Rightarrow> (Inl (PublishFailed e), rest, s)
         | (Inr _, s) \<Rightarrow> (Inr (), rest, s)))"

definition make_room :: "('t, 'e, 's) writer_service \<Rightarrow> 't list \<Rightarrow> 's \<Rightarrow> ('t, 'e, 's) publishing" where
  "make_room svc waiting s =
     (if length waiting \<ge> MAX_PENDING_OUTPUT_RECORDS then wait_for_oldest_output svc waiting s else (Inr (), waiting, s))"

definition publish_output :: "('t, 'e, 's) writer_service \<Rightarrow> terminal_output_event \<Rightarrow> 't list \<Rightarrow> 's \<Rightarrow> ('t, 'e, 's) publishing" where
  "publish_output svc event waiting s =
     (case make_room svc waiting s of
        (Inl e, waiting, s) \<Rightarrow> (Inl e, waiting, s)
      | (Inr _, waiting, s) \<Rightarrow>
          (case encode_terminal_output event of
             Inl e \<Rightarrow> (Inl (EncodeFailed e), waiting, s)
           | Inr payload \<Rightarrow>
               (case append_batch_single unsplit payload of
                  Inl e \<Rightarrow> (Inl (BatchFailed e), waiting, s)
                | Inr batch \<Rightarrow>
                    (case sv_submit svc batch s of
                       (Inl e, s) \<Rightarrow> (Inl (PublishFailed e), waiting, s)
                     | (Inr ticket, s) \<Rightarrow> (Inr (), waiting @ [ticket], s)))))"

text \<open>The loop of \<open>flush\<close> takes up one ticket in each round.\<close>

fun flush_output :: "('t, 'e, 's) writer_service \<Rightarrow> 't list \<Rightarrow> 's \<Rightarrow> ('t, 'e, 's) publishing" where
  "flush_output svc [] s = (Inr (), [], s)"
| "flush_output svc (ticket # rest) s =
     (case wait_for_oldest_output svc (ticket # rest) s of
        (Inl e, waiting, s) \<Rightarrow> (Inl e, waiting, s)
      | (Inr _, _, s) \<Rightarrow> flush_output svc rest s)"

definition close_output :: "('t, 'e, 's) writer_service \<Rightarrow> 't list \<Rightarrow> 's \<Rightarrow> ('t, 'e, 's) publishing" where
  "close_output svc waiting s =
     (case flush_output svc waiting s of
        (Inl e, waiting, s) \<Rightarrow> (Inl e, waiting, s)
      | (Inr _, waiting, s) \<Rightarrow>
          (case sv_close svc s of
             (Inl e, s) \<Rightarrow> (Inl (CloseFailed e), waiting, s)
           | (Inr _, s) \<Rightarrow> (Inr (), waiting, s)))"

definition serve_command :: "('t, 'e, 's) writer_service \<Rightarrow> output_command \<Rightarrow> 't list \<Rightarrow> 's \<Rightarrow> ('t, 'e, 's) publishing" where
  "serve_command svc command waiting s =
     (case publish_output svc (as_event (oc_event command)) waiting s of
        (Inl e, waiting, s) \<Rightarrow> (Inl e, waiting, s)
      | (Inr _, waiting, s) \<Rightarrow>
          (case oc_durable command of
             None \<Rightarrow> (Inr (), waiting, s)
           | Some sender \<Rightarrow>
               (case flush_output svc waiting s of
                  (Inl e, waiting, s) \<Rightarrow> (Inl e, waiting, s)
                | (Inr _, waiting, s) \<Rightarrow> (Inr (), waiting, sv_confirm svc sender s))))"

fun run_output_publisher :: "('t, 'e, 's) writer_service \<Rightarrow> output_command list \<Rightarrow> 't list \<Rightarrow> 's \<Rightarrow> ('t, 'e, 's) publishing" where
  "run_output_publisher svc [] waiting s = close_output svc waiting s"
| "run_output_publisher svc (command # commands) waiting s =
     (case serve_command svc command waiting s of
        (Inl e, waiting, s) \<Rightarrow> (Inl e, waiting, s)
      | (Inr _, waiting, s) \<Rightarrow> run_output_publisher svc commands waiting s)"

section \<open>The protocol of the publisher\<close>

text \<open>What a publisher may do: while it serves, its state is the commands it has yet to serve, the confirmation it owes
  and the tickets that are out, oldest first. It submits the next command's event when it owes nothing and has room, takes up
  tickets in order, confirms when nothing is out, and closes when all is done. After a refusal, a failed ticket or a
  close that failed it calls nothing more.\<close>

datatype 't publisher_state = PubServing "output_command list" "nat option" "'t list" | PubFailed | PubClosed

definition command_batch :: "output_command \<Rightarrow> append_batch option" where
  "command_batch command = (case encode_terminal_output (as_event (oc_event command)) of
       Inl _ \<Rightarrow> None
     | Inr payload \<Rightarrow> (case append_batch_single unsplit payload :: unit frame_codec_error + append_batch of
           Inl _ \<Rightarrow> None | Inr batch \<Rightarrow> Some batch))"

fun publisher_step :: "'t publisher_state \<Rightarrow> 't service_call \<Rightarrow> 't publisher_state option" where
  "publisher_step (PubServing (command # left) None out) (Submitted batch t) =
     (if command_batch command = Some batch \<and> length out < MAX_PENDING_OUTPUT_RECORDS
      then Some (PubServing left (oc_durable command) (out @ [t])) else None)"
| "publisher_step (PubServing (command # left) None out) (SubmitRefused batch) =
     (if command_batch command = Some batch then Some PubFailed else None)"
| "publisher_step (PubServing left owed (t' # out)) (TicketOk t) = (if t' = t then Some (PubServing left owed out) else None)"
| "publisher_step (PubServing left owed (t' # out)) (TicketFailed t) = (if t' = t then Some PubFailed else None)"
| "publisher_step (PubServing left (Some k') []) (Confirmed k) = (if k' = k then Some (PubServing left None []) else None)"
| "publisher_step (PubServing [] None []) (WriterClosed ok) = Some (if ok then PubClosed else PubFailed)"
| "publisher_step _ _ = None"

fun publisher_run :: "'t publisher_state \<Rightarrow> 't service_call list \<Rightarrow> 't publisher_state option" where
  "publisher_run st [] = Some st"
| "publisher_run st (call # calls) = (case publisher_step st call of None \<Rightarrow> None | Some st \<Rightarrow> publisher_run st calls)"

lemma publisher_run_snoc:
  "publisher_run st log = Some st' \<Longrightarrow> publisher_run st (log @ [call]) = publisher_step st' call"
  by (induction log arbitrary: st) (auto split: option.splits)

text \<open>Each operation continues a run of the protocol: to the state it returns, or to one that is not closed when it fails.\<close>

definition continues :: "'t publisher_state \<Rightarrow> 'x + unit \<Rightarrow> 't publisher_state \<Rightarrow> 't service_call list \<Rightarrow> bool" where
  "continues st result st' log \<longleftrightarrow> (if isl result then \<exists>final. publisher_run st log = Some final \<and> final \<noteq> PubClosed else publisher_run st log = Some st')"

lemma wait_oldest_continues:
  assumes "wait_for_oldest_output (logged_service svc) (t # waiting) (s, log) = (result, waiting', s', log')"
    and "publisher_run st log = Some (PubServing left owed (t # waiting))"
  shows "waiting' = waiting \<and> continues st result (PubServing left owed waiting') log'"
  using assms logged_wait[of svc t s log]
  by (auto simp: wait_for_oldest_output_def continues_def publisher_run_snoc split: prod.splits sum.splits)

lemma flush_continues:
  assumes "flush_output (logged_service svc) waiting (s, log) = (result, waiting', s', log')"
    and "publisher_run st log = Some (PubServing left owed waiting)"
  shows "continues st result (PubServing left owed []) log' \<and> (isl result \<or> waiting' = [])"
  using assms
proof (induction waiting arbitrary: s log)
  case Nil
  then show ?case by (auto simp: continues_def)
next
  case (Cons t waiting)
  obtain r1 w1 s1 log1 where first: "wait_for_oldest_output (logged_service svc) (t # waiting) (s, log) = (r1, w1, s1, log1)"
    by (metis prod_cases4)
  note wait = wait_oldest_continues[OF first Cons.prems(2)]
  show ?case
  proof (cases r1)
    case (Inl e)
    then show ?thesis using Cons.prems(1) first wait by (auto simp: continues_def)
  next
    case (Inr u)
    then show ?thesis using Cons.prems(1) first wait Cons.IH[of s1 log1] by (auto simp: continues_def)
  qed
qed

lemma make_room_continues:
  assumes "make_room (logged_service svc) waiting (s, log) = (result, waiting', s', log')"
    and "publisher_run st log = Some (PubServing left owed waiting)" "length waiting \<le> MAX_PENDING_OUTPUT_RECORDS"
  shows "continues st result (PubServing left owed waiting') log' \<and> length waiting' < MAX_PENDING_OUTPUT_RECORDS"
proof (cases "length waiting < MAX_PENDING_OUTPUT_RECORDS")
  case True
  then show ?thesis using assms by (auto simp: make_room_def continues_def)
next
  case False
  then obtain t rest where waiting: "waiting = t # rest" by (cases waiting) (auto simp: MAX_PENDING_OUTPUT_RECORDS_def)
  then show ?thesis
    using assms False wait_oldest_continues[of svc t rest s log result waiting' s' log' st left owed] by (auto simp: make_room_def)
qed

lemma publish_continues:
  assumes "publish_output (logged_service svc) (as_event (oc_event command)) waiting (s, log) = (result, waiting', s', log')"
    and "publisher_run st log = Some (PubServing (command # left) None waiting)" "length waiting \<le> MAX_PENDING_OUTPUT_RECORDS"
  shows "continues st result (PubServing left (oc_durable command) waiting') log' \<and> length waiting' \<le> MAX_PENDING_OUTPUT_RECORDS"
proof -
  obtain r1 w1 s1 log1 where room: "make_room (logged_service svc) waiting (s, log) = (r1, w1, s1, log1)"
    by (metis prod_cases4)
  note room_ok = make_room_continues[OF room assms(2,3)]
  show ?thesis
  proof (cases r1)
    case (Inl e)
    then show ?thesis using assms(1) room room_ok by (auto simp: publish_output_def continues_def)
  next
    case (Inr u)
    then show ?thesis
      using assms(1) room room_ok
      by (auto simp: publish_output_def continues_def publisher_run_snoc command_batch_def dest!: logged_submit
          split: sum.splits prod.splits)
  qed
qed

lemma serve_continues:
  assumes "serve_command (logged_service svc) command waiting (s, log) = (result, waiting', s', log')"
    and "publisher_run st log = Some (PubServing (command # left) None waiting)" "length waiting \<le> MAX_PENDING_OUTPUT_RECORDS"
  shows "continues st result (PubServing left None waiting') log' \<and> (isl result \<or> length waiting' \<le> MAX_PENDING_OUTPUT_RECORDS)"
proof -
  obtain r1 w1 s1 log1 where publish: "publish_output (logged_service svc) (as_event (oc_event command)) waiting (s, log) = (r1, w1, s1, log1)"
    by (metis prod_cases4)
  note published = publish_continues[OF publish assms(2,3)]
  obtain r2 w2 s2 log2 where flush: "flush_output (logged_service svc) w1 (s1, log1) = (r2, w2, s2, log2)"
    by (metis prod_cases4)
  show ?thesis
  proof (cases "isl r1 \<or> oc_durable command = None")
    case True
    then show ?thesis using assms(1) publish published by (auto simp: serve_command_def continues_def split: sum.splits)
  next
    case False
    then have run: "publisher_run st log1 = Some (PubServing left (oc_durable command) w1)" using published by (simp add: continues_def)
    show ?thesis
      using False assms(1) publish flush flush_continues[OF flush run]
      by (auto simp: serve_command_def continues_def publisher_run_snoc dest!: logged_confirm split: sum.splits)
  qed
qed

lemma close_continues:
  assumes "close_output (logged_service svc) waiting (s, log) = (result, waiting', s', log')"
    and "publisher_run st log = Some (PubServing [] None waiting)"
  shows "continues st result PubClosed log'"
proof -
  obtain r1 w1 s1 log1 where flush: "flush_output (logged_service svc) waiting (s, log) = (r1, w1, s1, log1)"
    by (metis prod_cases4)
  show ?thesis
    using assms(1) flush flush_continues[OF flush assms(2)]
    by (auto simp: close_output_def continues_def publisher_run_snoc dest!: logged_close split: sum.splits prod.splits)
qed

text \<open>C22: The publisher of terminal events refines its protocol, whatever the writer answers: it submits the events of its
  commands one by one in order, each as one record, with at most 32 tickets out; it takes the tickets up in the order of submission; after the
  first ticket that fails, or a submission that is refused, it submits, confirms and closes nothing more; it confirms a
  command as durable only when the ticket of every event so far came back with success; and it succeeds exactly when all
  events are durable and the writer was closed without an error.\<close>

theorem publisher_refines_protocol:
  assumes "run_output_publisher (logged_service svc) commands [] (s, []) = (result, waiting, s', log)"
  shows "\<exists>final. publisher_run (PubServing commands None []) log = Some final \<and> (final = PubClosed \<longleftrightarrow> \<not> isl result)"
proof -
  have "continues st result PubClosed log"
    if "run_output_publisher (logged_service svc) cs w (s1, log1) = (result, waiting, s', log)"
      "publisher_run st log1 = Some (PubServing cs None w)" "length w \<le> MAX_PENDING_OUTPUT_RECORDS" for st cs w s1 log1
    using that
  proof (induction cs arbitrary: w s1 log1)
    case Nil
    then show ?case using close_continues[of svc w s1 log1 result waiting s' log st] by auto
  next
    case (Cons c cs)
    obtain r1 w1 s2 log2 where serve: "serve_command (logged_service svc) c w (s1, log1) = (r1, w1, s2, log2)"
      by (metis prod_cases4)
    note served = serve_continues[OF serve Cons.prems(2,3)]
    show ?case
    proof (cases r1)
      case (Inl e)
      then show ?thesis using Cons.prems(1) serve served by (auto simp: continues_def)
    next
      case (Inr u)
      then show ?thesis using Cons.prems(1) serve served Cons.IH[of w1 s2 log2] by (auto simp: continues_def)
    qed
  qed
  from this[OF assms, of "PubServing commands None []"] show ?thesis by (auto simp: continues_def split: if_splits)
qed

text \<open>A writer that numbers its tickets and acknowledges each of them; the two first commands of a session.\<close>

definition counting_service :: "(nat, unit, nat) writer_service" where
  "counting_service =
     \<lparr> sv_submit = (\<lambda>_ n. (Inr n, n + 1)), sv_wait = (\<lambda>_ n. (Inr (), n)), sv_poll = (\<lambda>_ n. (None, n)),
       sv_wait_unless_interrupted = (\<lambda>_ n. (Some (Inr ()), n)), sv_interrupted = (\<lambda>n. (False, n)),
       sv_close = (\<lambda>n. (Inr (), n)), sv_now = (\<lambda>n. (0, n)), sv_confirm = (\<lambda>_ n. n),
       sv_stop = (\<lambda>n. (None, n)) \<rparr>"

definition sample_commands :: "output_command list" where
  "sample_commands = [\<lparr> oc_event = OwnedData [65], oc_durable = Some 7 \<rparr>, \<lparr> oc_event = OwnedHeartbeat, oc_durable = None \<rparr>]"

lemma sample_publisher_run:
  "run_output_publisher (logged_service counting_service) sample_commands [] (0, [])
    = (Inr (), [], 2, [Submitted (AppendBatch [\<lparr> rp_part = unsplit, rp_data = [1, 1, 65] \<rparr>]) 0, TicketOk 0, Confirmed 7,
        Submitted (AppendBatch [\<lparr> rp_part = unsplit, rp_data = [1, 5] \<rparr>]) 1, TicketOk 1, WriterClosed True])"
  by (simp add: sample_commands_def counting_service_def logged_service_def serve_command_def publish_output_def make_room_def
      MAX_PENDING_OUTPUT_RECORDS_def encode_terminal_output_def encode_data_eq append_batch_single_def append_batch_from_records_def
      event_consts validate_record_len_def const_defs result_simps event_header_def numeral_2_eq_2 close_output_def wait_for_oldest_output_def)

lemma publisher_refines_protocol_witness:
  "publisher_run (PubServing sample_commands None []) [Submitted (AppendBatch [\<lparr> rp_part = unsplit, rp_data = [1, 1, 65] \<rparr>]) 0, TicketOk 0, Confirmed 7,
        Submitted (AppendBatch [\<lparr> rp_part = unsplit, rp_data = [1, 5] \<rparr>]) (1 :: nat), TicketOk 1, WriterClosed True] = Some PubClosed"
  using publisher_refines_protocol[OF sample_publisher_run] by simp

end
