(* ===== verification/TranscriptWrite.thy ===== *)
theory TranscriptWrite
  imports FrameCodec WriterQueue WriterService "HOL-Library.Sublist"
begin

text \<open>
  \<open>tsf write\<close> (\<open>cli/src/main.rs\<close>): input chunks become records, either lines or bounded byte records with a linger
  deadline, and a \<open>WriterSession\<close> submits them while it keeps the records in flight within one socket window. The
  input loops see what their \<open>select!\<close> delivers: chunks, a failed read, the elapsed linger, the interrupt;
  the end of the list is the end of the input.
\<close>

section \<open>The session\<close>

record 't pending_append =
  pa_ticket :: 't
  pa_record_count :: nat
  pa_payload_bytes :: nat

record 't writer_session =
  ss_pending :: "'t pending_append list"
  ss_pending_records :: nat
  ss_pending_payload_bytes :: nat
  ss_records :: u64

text \<open>\<open>ExitedAtOnce\<close> stands for the exit of the process on an interrupt while the write is being finished.\<close>

datatype 'e write_error =
    SplitFailed "unit frame_codec_error"
  | BuildFailed "unit frame_codec_error"
  | SubmitFailed 'e
  | AppendFailed 'e
  | InputFailed
  | CloseFailed 'e
  | ListenFailed 'e
  | ExitedAtOnce

type_synonym ('t, 'e, 's) session_step = "('e write_error, unit) outcome \<times> 't writer_session \<times> 's"

definition session_new :: "'t writer_session" where
  "session_new = \<lparr> ss_pending = [], ss_pending_records = 0, ss_pending_payload_bytes = 0, ss_records = 0 \<rparr>"

definition remove_oldest :: "'t writer_session \<Rightarrow> 's \<Rightarrow> ('t, 'e, 's) session_step" where
  "remove_oldest session s = (case ss_pending session of
       [] \<Rightarrow> (Panic, session, s)
     | oldest # rest \<Rightarrow>
         if pa_record_count oldest \<le> ss_pending_records session \<and> pa_payload_bytes oldest \<le> ss_pending_payload_bytes session
         then (Ok (), session\<lparr> ss_pending := rest,
                 ss_pending_records := ss_pending_records session - pa_record_count oldest,
                 ss_pending_payload_bytes := ss_pending_payload_bytes session - pa_payload_bytes oldest \<rparr>, s)
         else (Panic, session\<lparr> ss_pending := rest \<rparr>, s))"

definition take_up :: "'e + unit \<Rightarrow> 't writer_session \<Rightarrow> 's \<Rightarrow> ('t, 'e, 's) session_step" where
  "take_up result session s = (case result of Inl e \<Rightarrow> (Err (AppendFailed e), session, s) | Inr _ \<Rightarrow> remove_oldest session s)"

definition wait_for_oldest :: "('t, 'e, 's) writer_service \<Rightarrow> 't writer_session \<Rightarrow> 's \<Rightarrow> ('t, 'e, 's) session_step" where
  "wait_for_oldest svc session s = (case ss_pending session of
       [] \<Rightarrow> (Panic, session, s)
     | oldest # _ \<Rightarrow> (case sv_wait svc (pa_ticket oldest) s of (result, s) \<Rightarrow> take_up result session s))"

text \<open>The loops over pending tickets end: each round takes one up. The counter is the number of them.\<close>

fun drain_loop :: "nat \<Rightarrow> ('t, 'e, 's) writer_service \<Rightarrow> 't writer_session \<Rightarrow> 's \<Rightarrow> ('t, 'e, 's) session_step" where
  "drain_loop 0 svc session s = (Ok (), session, s)"
| "drain_loop (Suc n) svc session s = (case ss_pending session of
       [] \<Rightarrow> (Ok (), session, s)
     | oldest # _ \<Rightarrow> (case sv_poll svc (pa_ticket oldest) s of
           (None, s) \<Rightarrow> (Ok (), session, s)
         | (Some result, s) \<Rightarrow> (case take_up result session s of
               (Ok _, session, s) \<Rightarrow> drain_loop n svc session s
             | stopped \<Rightarrow> stopped)))"

definition drain_ready_tickets :: "('t, 'e, 's) writer_service \<Rightarrow> 't writer_session \<Rightarrow> 's \<Rightarrow> ('t, 'e, 's) session_step" where
  "drain_ready_tickets svc session s = drain_loop (length (ss_pending session)) svc session s"

definition over_window :: "nat \<Rightarrow> nat \<Rightarrow> 't writer_session \<Rightarrow> bool" where
  "over_window count len session \<longleftrightarrow>
     sat_add (ss_pending_records session) count > MAX_WRITER_IN_FLIGHT_RECORDS
     \<or> sat_add (ss_pending_payload_bytes session) len > MAX_WRITER_IN_FLIGHT_PAYLOAD_BYTES"

fun capacity_loop :: "nat \<Rightarrow> ('t, 'e, 's) writer_service \<Rightarrow> nat \<Rightarrow> nat \<Rightarrow> 't writer_session \<Rightarrow> 's \<Rightarrow> ('t, 'e, 's) session_step" where
  "capacity_loop 0 svc count len session s = (Ok (), session, s)"
| "capacity_loop (Suc n) svc count len session s = (case ss_pending session of
       [] \<Rightarrow> (Ok (), session, s)
     | oldest # _ \<Rightarrow>
         (case sv_interrupted svc s of (interrupted, s) \<Rightarrow>
            if interrupted \<or> \<not> over_window count len session then (Ok (), session, s)
            else (case sv_wait_unless_interrupted svc (pa_ticket oldest) s of
                (None, s) \<Rightarrow> (Ok (), session, s)
              | (Some result, s) \<Rightarrow> (case take_up result session s of
                    (Ok _, session, s) \<Rightarrow> capacity_loop n svc count len session s
                  | stopped \<Rightarrow> stopped))))"

definition wait_for_capacity :: "('t, 'e, 's) writer_service \<Rightarrow> nat \<Rightarrow> nat \<Rightarrow> 't writer_session \<Rightarrow> 's \<Rightarrow> ('t, 'e, 's) session_step" where
  "wait_for_capacity svc count len session s =
     (case drain_ready_tickets svc session s of
        (Ok _, session, s) \<Rightarrow> capacity_loop (length (ss_pending session)) svc count len session s
      | stopped \<Rightarrow> stopped)"

definition submit_batch :: "('t, 'e, 's) writer_service \<Rightarrow> append_batch \<Rightarrow> nat \<Rightarrow> 't writer_session \<Rightarrow> 's \<Rightarrow> ('t, 'e, 's) session_step" where
  "submit_batch svc batch len session s =
     (let count = length (batch_payloads batch) in
      case wait_for_capacity svc count len session s of
        (Ok _, session, s) \<Rightarrow>
          (case sv_submit svc batch s of
             (Inl e, s) \<Rightarrow> (Err (SubmitFailed e), session, s)
           | (Inr ticket, s) \<Rightarrow>
               drain_ready_tickets svc (session\<lparr>
                 ss_records := ss_records session + of_nat count,
                 ss_pending_records := ss_pending_records session + count,
                 ss_pending_payload_bytes := ss_pending_payload_bytes session + len,
                 ss_pending := ss_pending session @ [\<lparr> pa_ticket = ticket, pa_record_count = count, pa_payload_bytes = len \<rparr>] \<rparr>) s)
      | stopped \<Rightarrow> stopped)"

definition append_logical_record :: "('t, 'e, 's) writer_service \<Rightarrow> bytes \<Rightarrow> 't writer_session \<Rightarrow> 's \<Rightarrow> ('t, 'e, 's) session_step" where
  "append_logical_record svc data session s = (case split_logical data of
       Inl e \<Rightarrow> (Err (SplitFailed e), session, s)
     | Inr batch \<Rightarrow> submit_batch svc batch (length data) session s)"

definition append_physical_record :: "('t, 'e, 's) writer_service \<Rightarrow> part_header \<Rightarrow> bytes \<Rightarrow> 't writer_session \<Rightarrow> 's \<Rightarrow> ('t, 'e, 's) session_step" where
  "append_physical_record svc part data session s = (case append_batch_single part data of
       Inl e \<Rightarrow> (Err (BuildFailed e), session, s)
     | Inr batch \<Rightarrow> submit_batch svc batch (length data) session s)"

text \<open>\<open>finish_write\<close> races the end of the session and then the close of the writer with the next interrupt: at each of their
  waits the interrupt may come first.\<close>

definition stop_requested :: "('t, 'e, 's) writer_service \<Rightarrow> 't writer_session \<Rightarrow> 's \<Rightarrow> ('t, 'e, 's) session_step" where
  "stop_requested svc session s = (case sv_stop svc s of
       (None, s) \<Rightarrow> (Ok (), session, s)
     | (Some (Inl e), s) \<Rightarrow> (Err (ListenFailed e), session, s)
     | (Some (Inr _), s) \<Rightarrow> (Err ExitedAtOnce, session, s))"

fun finish_loop :: "nat \<Rightarrow> ('t, 'e, 's) writer_service \<Rightarrow> 't writer_session \<Rightarrow> 's \<Rightarrow> ('t, 'e, 's) session_step" where
  "finish_loop 0 svc session s = (Ok (), session, s)"
| "finish_loop (Suc n) svc session s =
     (if ss_pending session = [] then (Ok (), session, s)
      else (case stop_requested svc session s of
          (Ok _, session, s) \<Rightarrow> (case wait_for_oldest svc session s of
              (Ok _, session, s) \<Rightarrow> finish_loop n svc session s
            | stopped \<Rightarrow> stopped)
        | stopped \<Rightarrow> stopped))"

definition session_finish :: "('t, 'e, 's) writer_service \<Rightarrow> 't writer_session \<Rightarrow> 's
    \<Rightarrow> ('e write_error, u64) outcome \<times> 't writer_session \<times> 's" where
  "session_finish svc session s = (case finish_loop (length (ss_pending session)) svc session s of
       (Ok _, session, s) \<Rightarrow> (Ok (ss_records session), session, s)
     | (Err e, session, s) \<Rightarrow> (Err e, session, s)
     | (Panic, session, s) \<Rightarrow> (Panic, session, s))"

section \<open>Lines\<close>

text \<open>The appender's state is its pending bytes; \<open>send_line\<close> takes them.\<close>

type_synonym ('t, 'e, 's) appending = "('e write_error, unit) outcome \<times> bytes \<times> 't writer_session \<times> 's"

definition send_line :: "('t, 'e, 's) writer_service \<Rightarrow> bytes \<Rightarrow> 't writer_session \<Rightarrow> 's \<Rightarrow> ('t, 'e, 's) appending" where
  "send_line svc pending session s = (case append_logical_record svc pending session s of (r, session, s) \<Rightarrow> (r, [], session, s))"

function push_lines :: "('t, 'e, 's) writer_service \<Rightarrow> bytes \<Rightarrow> bytes \<Rightarrow> 't writer_session \<Rightarrow> 's \<Rightarrow> ('t, 'e, 's) appending" where
  "push_lines svc data pending session s =
     (if data = [] then (Ok (), pending, session, s)
      else if 10 \<in> set data then
        (let index = length (takeWhile (\<lambda>b. b \<noteq> 10) data) in
         case send_line svc (pending @ take index data) session s of
           (Ok _, pending, session, s) \<Rightarrow> push_lines svc (drop (index + 1) data) pending session s
         | stopped \<Rightarrow> stopped)
      else (Ok (), pending @ data, session, s))"
  by pat_completeness auto
termination by (relation "measure (\<lambda>(svc, data, pending, session, s). length data)") auto

definition line_finish :: "('t, 'e, 's) writer_service \<Rightarrow> bytes \<Rightarrow> 't writer_session \<Rightarrow> 's \<Rightarrow> ('t, 'e, 's) appending" where
  "line_finish svc pending session s = (if pending \<noteq> [] then send_line svc pending session s else (Ok (), pending, session, s))"

section \<open>Byte records\<close>

record byte_appender =
  ba_pending :: bytes
  ba_deadline :: "nat option"
  ba_linger :: nat

definition byte_appender_new :: "nat \<Rightarrow> byte_appender" where
  "byte_appender_new linger = \<lparr> ba_pending = [], ba_deadline = None, ba_linger = linger \<rparr>"

type_synonym ('t, 'e, 's) byte_appending = "('e write_error, unit) outcome \<times> byte_appender \<times> 't writer_session \<times> 's"

definition byte_flush :: "('t, 'e, 's) writer_service \<Rightarrow> byte_appender \<Rightarrow> 't writer_session \<Rightarrow> 's \<Rightarrow> ('t, 'e, 's) byte_appending" where
  "byte_flush svc app session s =
     (if ba_pending app = [] then (Ok (), app\<lparr> ba_deadline := None \<rparr>, session, s)
      else (case append_physical_record svc unsplit (ba_pending app) session s of
          (r, session, s) \<Rightarrow> (r, app\<lparr> ba_pending := [], ba_deadline := None \<rparr>, session, s)))"

text \<open>A round of \<open>push_bytes\<close> starts the linger when the buffer was empty and fills it as far as the data goes.\<close>

definition fill_buffer :: "('t, 'e, 's) writer_service \<Rightarrow> bytes \<Rightarrow> byte_appender \<Rightarrow> 's \<Rightarrow> byte_appender \<times> 's" where
  "fill_buffer svc taken app s =
     (case (if ba_pending app = [] then (case sv_now svc s of (now, s) \<Rightarrow> (app\<lparr> ba_deadline := Some (now + ba_linger app) \<rparr>, s)) else (app, s)) of
        (app, s) \<Rightarrow> (app\<lparr> ba_pending := ba_pending app @ taken \<rparr>, s))"

text \<open>A full buffer would make the room negative or the loop endless; the appender flushes before it is full, so the
  guard below is never met (\<open>write_bytes_spec\<close>).\<close>

function push_byte_chunk :: "('t, 'e, 's) writer_service \<Rightarrow> bytes \<Rightarrow> byte_appender \<Rightarrow> 't writer_session \<Rightarrow> 's \<Rightarrow> ('t, 'e, 's) byte_appending" where
  "push_byte_chunk svc data app session s =
     (if data = [] then (Ok (), app, session, s)
      else if length (ba_pending app) \<ge> MAX_RECORD_PAYLOAD_BYTES then (Panic, app, session, s)
      else
        (let taken = min (MAX_RECORD_PAYLOAD_BYTES - length (ba_pending app)) (length data) in
         case fill_buffer svc (take taken data) app s of (app, s) \<Rightarrow>
           if length (ba_pending app) = MAX_RECORD_PAYLOAD_BYTES
           then (case byte_flush svc app session s of
               (Ok _, app, session, s) \<Rightarrow> push_byte_chunk svc (drop taken data) app session s
             | stopped \<Rightarrow> stopped)
           else push_byte_chunk svc (drop taken data) app session s))"
  by pat_completeness auto
termination by (relation "measure (\<lambda>(svc, data, app, session, s). length data)") auto

section \<open>The input loops\<close>

datatype input_event = Interrupted | Chunk bytes | ChunkFailed | LingerElapsed

fun line_chunks_loop :: "('t, 'e, 's) writer_service \<Rightarrow> input_event list \<Rightarrow> bytes \<Rightarrow> 't writer_session \<Rightarrow> 's \<Rightarrow> ('t, 'e, 's) appending" where
  "line_chunks_loop svc [] pending session s = line_finish svc pending session s"
| "line_chunks_loop svc (event # events) pending session s = (case event of
       Interrupted \<Rightarrow> line_finish svc pending session s
     | ChunkFailed \<Rightarrow> (Err InputFailed, pending, session, s)
     | LingerElapsed \<Rightarrow> line_chunks_loop svc events pending session s
     | Chunk data \<Rightarrow> (case push_lines svc data pending session s of
           (Ok _, pending, session, s) \<Rightarrow> line_chunks_loop svc events pending session s
         | stopped \<Rightarrow> stopped))"

definition BYTE_RECORD_LINGER :: nat where "BYTE_RECORD_LINGER = 10 * 1000000"

fun byte_chunks_loop :: "('t, 'e, 's) writer_service \<Rightarrow> input_event list \<Rightarrow> byte_appender \<Rightarrow> 't writer_session \<Rightarrow> 's \<Rightarrow> ('t, 'e, 's) byte_appending" where
  "byte_chunks_loop svc [] app session s = byte_flush svc app session s"
| "byte_chunks_loop svc (event # events) app session s = (case event of
       Interrupted \<Rightarrow> byte_flush svc app session s
     | ChunkFailed \<Rightarrow> (Err InputFailed, app, session, s)
     | LingerElapsed \<Rightarrow>
         if ba_deadline app = None then byte_chunks_loop svc events app session s
         else (case byte_flush svc app session s of
             (Ok _, app, session, s) \<Rightarrow> byte_chunks_loop svc events app session s
           | stopped \<Rightarrow> stopped)
     | Chunk data \<Rightarrow> (case push_byte_chunk svc data app session s of
           (Ok _, app, session, s) \<Rightarrow> byte_chunks_loop svc events app session s
         | stopped \<Rightarrow> stopped))"

datatype write_buffering = BufferBytes | BufferLines

definition stream_chunks_to_writer :: "('t, 'e, 's) writer_service \<Rightarrow> write_buffering \<Rightarrow> input_event list \<Rightarrow> 't writer_session \<Rightarrow> 's
    \<Rightarrow> ('t, 'e, 's) session_step" where
  "stream_chunks_to_writer svc buffering events session s = (case buffering of
       BufferBytes \<Rightarrow> (case byte_chunks_loop svc events (byte_appender_new BYTE_RECORD_LINGER) session s of (r, _, session, s) \<Rightarrow> (r, session, s))
     | BufferLines \<Rightarrow> (case line_chunks_loop svc events [] session s of (r, _, session, s) \<Rightarrow> (r, session, s)))"

definition write_buffering_of :: "stream_kind \<Rightarrow> string + write_buffering" where
  "write_buffering_of kind = (case kind of
       Transcript \<Rightarrow> Inr BufferLines
     | Bytes \<Rightarrow> Inr BufferBytes
     | Terminal \<Rightarrow> Inl ''`tsf write` accepts stream links, not terminal links'')"

definition finish_write :: "('t, 'e, 's) writer_service \<Rightarrow> 't writer_session \<Rightarrow> 's \<Rightarrow> ('e write_error, u64) outcome \<times> 's" where
  "finish_write svc session s = (case session_finish svc session s of
       (Ok records, session, s) \<Rightarrow> (case stop_requested svc session s of
           (Ok _, _, s) \<Rightarrow> (case sv_close svc s of
               (Inl e, s) \<Rightarrow> (Err (CloseFailed e), s)
             | (Inr _, s) \<Rightarrow> (Ok records, s))
         | (Err e, _, s) \<Rightarrow> (Err e, s)
         | (Panic, _, s) \<Rightarrow> (Panic, s))
     | (Err e, _, s) \<Rightarrow> (Err e, s)
     | (Panic, _, s) \<Rightarrow> (Panic, s))"

text \<open>The task that reads the input may itself have failed, which is seen when the loop is done.\<close>

definition write_stream_input :: "('t, 'e, 's) writer_service \<Rightarrow> write_buffering \<Rightarrow> input_event list \<Rightarrow> bool \<Rightarrow> 's
    \<Rightarrow> ('e write_error, u64) outcome \<times> 's" where
  "write_stream_input svc buffering events failed s =
     (case stream_chunks_to_writer svc buffering events session_new s of
        (Ok _, session, s) \<Rightarrow> if failed then (Err InputFailed, s) else finish_write svc session s
      | (Err e, _, s) \<Rightarrow> (Err e, s)
      | (Panic, _, s) \<Rightarrow> (Panic, s))"

section \<open>The protocol of a session\<close>

text \<open>What a session may do: with the batches out, oldest first, and whether an interrupt was seen, it submits when nothing is out,
  when the batch fits the window or after an interrupt; it takes tickets up in order, and closes when nothing is out.\<close>

type_synonym 't session_state = "('t \<times> append_batch) list \<times> bool"

definition batch_count :: "append_batch \<Rightarrow> nat" where "batch_count batch = length (batch_payloads batch)"
definition batch_data :: "append_batch \<Rightarrow> bytes" where "batch_data batch = concat (map rp_data (batch_payloads batch))"

definition fits_window :: "('t \<times> append_batch) list \<Rightarrow> append_batch \<Rightarrow> bool" where
  "fits_window out batch \<longleftrightarrow>
     (\<Sum>(_, b) \<leftarrow> out. batch_count b) + batch_count batch \<le> MAX_WRITER_IN_FLIGHT_RECORDS
     \<and> (\<Sum>(_, b) \<leftarrow> out. length (batch_data b)) + length (batch_data batch) \<le> MAX_WRITER_IN_FLIGHT_PAYLOAD_BYTES"

fun session_step :: "'t session_state \<Rightarrow> 't service_call \<Rightarrow> 't session_state option" where
  "session_step (out, interrupted) (Submitted batch t) =
     (if out = [] \<or> interrupted \<or> fits_window out batch then Some (out @ [(t, batch)], interrupted) else None)"
| "session_step (out, interrupted) (SubmitRefused batch) = Some (out, interrupted)"
| "session_step ((t', _) # out, interrupted) (TicketOk t) = (if t' = t then Some (out, interrupted) else None)"
| "session_step ((t', b) # out, interrupted) (TicketFailed t) = (if t' = t then Some ((t', b) # out, interrupted) else None)"
| "session_step ([], interrupted) (WriterClosed _) = Some ([], interrupted)"
| "session_step (out, _) InterruptSeen = Some (out, True)"
| "session_step (out, interrupted) StopSeen = Some (out, interrupted)"
| "session_step _ _ = None"

fun session_run :: "'t session_state \<Rightarrow> 't service_call list \<Rightarrow> 't session_state option" where
  "session_run st [] = Some st"
| "session_run st (call # calls) = (case session_step st call of None \<Rightarrow> None | Some st \<Rightarrow> session_run st calls)"

lemma session_run_snoc:
  "session_run st log = Some st' \<Longrightarrow> session_run st (log @ [call]) = session_step st' call"
  by (induction log arbitrary: st) (auto split: option.splits)

text \<open>A session mirrors what its log says is out.\<close>

definition mirrors :: "'t pending_append \<Rightarrow> 't \<times> append_batch \<Rightarrow> bool" where
  "mirrors p entry \<longleftrightarrow> pa_ticket p = fst entry \<and> pa_record_count p = batch_count (snd entry)
     \<and> pa_payload_bytes p = length (batch_data (snd entry))"

definition session_ok :: "'t writer_session \<Rightarrow> 't service_call list \<Rightarrow> 't session_state \<Rightarrow> bool" where
  "session_ok session log st \<longleftrightarrow> session_run ([], False) log = Some st
     \<and> list_all2 mirrors (ss_pending session) (fst st)
     \<and> ss_pending_records session = (\<Sum>(_, b) \<leftarrow> fst st. batch_count b)
     \<and> ss_pending_payload_bytes session = (\<Sum>(_, b) \<leftarrow> fst st. length (batch_data b))
     \<and> ss_records session = of_nat (\<Sum>b \<leftarrow> submitted log. batch_count b)"

text \<open>What an operation leaves that should submit \<open>items\<close> of input, \<open>R\<close> saying which batch carries which: it never panics, and its
  calls keep the protocol; it has submitted the first items in order, all of them when it succeeds, and then the
  session mirrors its log.\<close>

definition leaves :: "('i \<Rightarrow> append_batch \<Rightarrow> bool) \<Rightarrow> 't service_call list \<Rightarrow> 'i list
    \<Rightarrow> ('x, unit) outcome \<Rightarrow> 't writer_session \<Rightarrow> 't service_call list \<Rightarrow> bool" where
  "leaves R log items r session' log' \<longleftrightarrow> (\<exists>sent. submitted log' = submitted log @ sent \<and> (case r of
       Panic \<Rightarrow> False
     | Err _ \<Rightarrow> session_run ([], False) log' \<noteq> None \<and> (\<exists>first. prefix first items \<and> list_all2 R first sent)
     | Ok _ \<Rightarrow> (\<exists>st. session_ok session' log' st) \<and> list_all2 R items sent))"

lemma leaves_none: "session_ok session log st \<Longrightarrow> leaves R log [] (Ok u) session log"
  unfolding leaves_def by (intro exI[of _ "[]"]) (simp del: split_paired_Ex, blast)

lemma leaves_trans:
  assumes "leaves R log items (Ok u :: ('x, unit) outcome) session1 log1" "leaves R log1 items' (r :: ('x, unit) outcome) session' log'"
  shows "leaves R log (items @ items') r session' log'"
proof -
  obtain sent where sent: "submitted log1 = submitted log @ sent" "list_all2 R items sent" using assms(1) by (auto simp: leaves_def)
  obtain sent' where sent': "submitted log' = submitted log1 @ sent'" using assms(2) by (auto simp: leaves_def)
  show ?thesis
    using assms(2) sent sent' unfolding leaves_def
    by (intro exI[of _ "sent @ sent'"]) (auto split: outcome.splits intro: list_all2_appendI same_prefix_prefix[THEN iffD2])
qed

lemma leaves_more: "leaves R log items (Err e) session' log' \<Longrightarrow> leaves R log (items @ items') (Err e) session' log'"
  by (auto simp: leaves_def intro: prefix_prefix)

lemma session_ok_new: "session_ok session_new [] ([], False)"
  by (simp add: session_ok_def session_new_def)

lemma take_up_ok:
  assumes ok: "session_ok session log ((t, batch) # out, i)" and t: "pa_ticket (hd (ss_pending session)) = t"
    and run: "take_up result session (s, log @ [ticket_call t result]) = ((r :: ('e write_error, unit) outcome), session', s', log')"
  shows "(case r of Panic \<Rightarrow> False | Err _ \<Rightarrow> session_run ([], False) log' \<noteq> None | Ok _ \<Rightarrow> session_ok session' log' (out, i))
    \<and> log' = log @ [ticket_call t result] \<and> length (ss_pending session) = Suc (length out)"
proof -
  obtain p rest where p: "ss_pending session = p # rest" "mirrors p (t, batch)" "list_all2 mirrors rest out"
    using ok by (auto simp: session_ok_def list_all2_Cons2)
  have run_log: "session_run ([], False) log = Some ((t, batch) # out, i)" using ok by (simp add: session_ok_def)
  show ?thesis
  proof (cases result)
    case (Inl e)
    then show ?thesis using run p list_all2_lengthD[OF p(3)] session_run_snoc[OF run_log, of "TicketFailed t"]
      by (auto simp: take_up_def)
  next
    case (Inr u)
    then show ?thesis
      using run ok p list_all2_lengthD[OF p(3)] session_run_snoc[OF run_log, of "TicketOk t"]
      by (auto simp: take_up_def remove_oldest_def session_ok_def mirrors_def)
  qed
qed

lemma session_pending_out:
  "session_ok session log (out, i) \<Longrightarrow> ss_pending session = p # rest \<Longrightarrow> \<exists>batch out'. out = (pa_ticket p, batch) # out'"
  by (auto simp: session_ok_def list_all2_Cons1 mirrors_def)

text \<open>Operations that only take tickets up submit nothing.\<close>

definition settles :: "'t service_call list \<Rightarrow> ('x, 'y) outcome \<Rightarrow> 't writer_session \<Rightarrow> 't service_call list \<Rightarrow> bool" where
  "settles log r session' log' \<longleftrightarrow> submitted log' = submitted log
     \<and> (case r of Panic \<Rightarrow> False | Err _ \<Rightarrow> session_run ([], False) log' \<noteq> None | Ok _ \<Rightarrow> \<exists>out i. session_ok session' log' (out, i))"

lemma settles_Ok: "session_ok session' log' (out, i) \<Longrightarrow> submitted log' = submitted log \<Longrightarrow> settles log (Ok u) session' log'"
  unfolding settles_def by (simp, blast)

lemma settles_Err: "session_run ([], False) log' \<noteq> None \<Longrightarrow> submitted log' = submitted log \<Longrightarrow> settles log (Err e) session' log'"
  unfolding settles_def by simp

lemma settles_no_panic [simp]: "\<not> settles log Panic session' log'"
  by (simp add: settles_def)

lemma settles_trans: "settles log (Ok u :: ('x, unit) outcome) session1 log1 \<Longrightarrow> settles log1 (r :: ('x, unit) outcome) session2 log2 \<Longrightarrow> settles log r session2 log2"
  by (auto simp: settles_def)

lemma take_up_settles:
  assumes "session_ok session log ((t, batch) # out, i)" "pa_ticket (hd (ss_pending session)) = t"
    and "take_up result session (s, log @ [ticket_call t result]) = ((r :: ('e write_error, unit) outcome), session', s', log')"
  shows "settles log r session' log'" and "r = Ok u \<Longrightarrow> session_ok session' log' (out, i)"
  using take_up_ok[OF assms] settles_Ok[of session' log' out i log] settles_Err[of log' log]
  by (cases r; force)+

lemma drain_loop_settles:
  assumes "drain_loop n (logged_service svc) session (s, log) = ((r :: ('e write_error, unit) outcome), session', s', log')"
    and "session_ok session log (out, i)"
  shows "settles log r session' log'"
  using assms
proof (induction n arbitrary: session s log out i)
  case 0
  then show ?case by (auto intro: settles_Ok)
next
  case (Suc n)
  show ?case
  proof (cases "ss_pending session")
    case Nil
    then show ?thesis using Suc.prems by (auto intro: settles_Ok)
  next
    case (Cons p rest)
    then obtain batch out' where out: "out = (pa_ticket p, batch) # out'" using session_pending_out[OF Suc.prems(2)] by blast
    obtain polled s1 log1 where poll: "sv_poll (logged_service svc) (pa_ticket p) (s, log) = (polled, s1, log1)" by (metis prod_cases3)
    show ?thesis
    proof (cases polled)
      case None
      then show ?thesis using Suc.prems Cons poll logged_poll[OF poll] by (auto intro: settles_Ok)
    next
      case (Some result)
      obtain r1 session1 s2 log2 where up: "take_up result session (s1, log1) = ((r1 :: ('e write_error, unit) outcome), session1, s2, log2)"
        by (metis prod_cases4)
      have log1: "log1 = log @ [ticket_call (pa_ticket p) result]" using logged_poll[OF poll] Some by simp
      note taken = take_up_settles[OF Suc.prems(2)[unfolded out] _ up[unfolded log1]]
      show ?thesis
      proof (cases r1)
        case (Ok u)
        then have more: "drain_loop n (logged_service svc) session1 (s2, log2) = (r, session', s', log')"
          using Suc.prems(1) Cons poll Some up by simp
        from taken(2) Cons Ok have "session_ok session1 log2 (out', i)" by simp
        from Suc.IH[OF more this] settles_trans show ?thesis using taken(1) Cons Ok by fastforce
      qed (use Suc.prems(1) Cons poll Some up taken in auto)
    qed
  qed
qed

definition has_room :: "nat \<Rightarrow> nat \<Rightarrow> 't writer_session \<Rightarrow> bool \<Rightarrow> bool" where
  "has_room count len session interrupted \<longleftrightarrow> ss_pending session = [] \<or> interrupted \<or> \<not> over_window count len session"

lemma session_ok_interrupt:
  "session_ok session log (out, i) \<Longrightarrow> session_ok session (log @ [InterruptSeen]) (out, True)"
  by (cases out) (auto simp: session_ok_def session_run_snoc)

lemma capacity_loop_settles:
  assumes "capacity_loop n (logged_service svc) count len session (s, log) = ((r :: ('e write_error, unit) outcome), session', s', log')"
    and "session_ok session log (out, i)" "length (ss_pending session) \<le> n"
  shows "settles log r session' log' \<and> (r = Ok u \<longrightarrow> (\<exists>out i. session_ok session' log' (out, i) \<and> has_room count len session' i))"
  using assms
proof (induction n arbitrary: session s log out i)
  case 0
  then show ?case by (auto intro: settles_Ok simp: has_room_def)
next
  case (Suc n)
  show ?case
  proof (cases "ss_pending session")
    case Nil
    then show ?thesis using Suc.prems(1,2) by (auto intro: settles_Ok simp: has_room_def)
  next
    case (Cons p rest)
    obtain flag s1 log1 where flag: "sv_interrupted (logged_service svc) (s, log) = (flag, s1, log1)" by (metis prod_cases3)
    have log1: "log1 = log @ (if flag then [InterruptSeen] else [])" using logged_interrupted[OF flag] .
    then have seen: "session_ok session log1 (out, i \<or> flag)" "submitted log1 = submitted log"
      using session_ok_interrupt[OF Suc.prems(2)] Suc.prems(2) by auto
    show ?thesis
    proof (cases "flag \<or> \<not> over_window count len session")
      case True
      then have "r = Ok () \<and> session' = session \<and> log' = log1" using Suc.prems(1) Cons flag by auto
      moreover have "has_room count len session (i \<or> flag)" using True by (auto simp: has_room_def)
      ultimately show ?thesis using seen by (auto intro: settles_Ok)
    next
      case False
      then have same: "log1 = log" using log1 by simp
      obtain race s2 log2 where race: "sv_wait_unless_interrupted (logged_service svc) (pa_ticket p) (s1, log) = (race, s2, log2)"
        by (metis prod_cases3)
      obtain batch out' where out: "out = (pa_ticket p, batch) # out'" using session_pending_out[OF Suc.prems(2) Cons] by blast
      show ?thesis
      proof (cases race)
        case None
        then have "r = Ok () \<and> session' = session \<and> log' = log @ [InterruptSeen]"
          using Suc.prems(1) Cons flag False same race logged_race[OF race] by auto
        then show ?thesis using session_ok_interrupt[OF Suc.prems(2)] by (auto intro: settles_Ok simp: has_room_def)
      next
        case (Some result)
        obtain r1 session1 s3 log3 where up: "take_up result session (s2, log2) = ((r1 :: ('e write_error, unit) outcome), session1, s3, log3)"
          by (metis prod_cases4)
        have log2: "log2 = log @ [ticket_call (pa_ticket p) result]" using logged_race[OF race] Some by simp
        note taken = take_up_settles[OF Suc.prems(2)[unfolded out] _ up[unfolded log2]]
        show ?thesis
        proof (cases r1)
          case (Ok u)
          then have more: "capacity_loop n (logged_service svc) count len session1 (s3, log3) = (r, session', s', log')"
            using Suc.prems(1) Cons flag False same race Some up by simp
          from taken(2) Cons Ok have ok1: "session_ok session1 log3 (out', i)" by simp
          then have "length (ss_pending session1) = length out'" by (auto simp: session_ok_def list_all2_lengthD)
          moreover have "length (ss_pending session) = length out" using Suc.prems(2) by (auto simp: session_ok_def list_all2_lengthD)
          ultimately have "length (ss_pending session1) \<le> n" using Suc.prems(3) out by simp
          from Suc.IH[OF more ok1 this] settles_trans show ?thesis using taken(1) Cons Ok by fastforce
        qed (use Suc.prems(1) Cons flag False same race Some up taken in auto)
      qed
    qed
  qed
qed

lemma drain_settles:
  assumes "drain_ready_tickets (logged_service svc) session (s, log) = ((r :: ('e write_error, unit) outcome), session', s', log')"
    and "session_ok session log st"
  shows "settles log r session' log'"
  using drain_loop_settles[OF assms(1)[unfolded drain_ready_tickets_def], of "fst st" "snd st"] assms(2) by simp

lemma wait_for_capacity_settles:
  assumes "wait_for_capacity (logged_service svc) count len session (s, log) = ((r :: ('e write_error, unit) outcome), session', s', log')"
    and "session_ok session log st"
  shows "settles log r session' log' \<and> (r = Ok u \<longrightarrow> (\<exists>out i. session_ok session' log' (out, i) \<and> has_room count len session' i))"
proof -
  obtain r1 session1 s1 log1 where drain: "drain_ready_tickets (logged_service svc) session (s, log) = ((r1 :: ('e write_error, unit) outcome), session1, s1, log1)"
    by (metis prod_cases4)
  note drained = drain_settles[OF drain assms(2)]
  show ?thesis
  proof (cases r1)
    case (Ok v)
    then obtain out i where ok: "session_ok session1 log1 (out, i)" using drained by (auto simp: settles_def)
    from Ok have loop: "capacity_loop (length (ss_pending session1)) (logged_service svc) count len session1 (s1, log1) = (r, session', s', log')"
      using assms(1) drain by (simp add: wait_for_capacity_def)
    show ?thesis using capacity_loop_settles[OF loop ok] settles_trans[OF drained[unfolded Ok], of r] by simp
  qed (use assms(1) drain drained in \<open>auto simp: wait_for_capacity_def\<close>)
qed

lemma has_room_fits:
  assumes "session_ok session log (out, i)" "has_room (batch_count batch) (length (batch_data batch)) session i"
  shows "out = [] \<or> i \<or> fits_window out batch"
proof -
  have "a + b \<le> limit" if "\<not> sat_add a b > limit" "limit < usize_max" for a b limit
    using that by (simp add: sat_add_def min_def split: if_splits)
  moreover have "MAX_WRITER_IN_FLIGHT_RECORDS < usize_max" "MAX_WRITER_IN_FLIGHT_PAYLOAD_BYTES < usize_max"
    by (simp_all add: const_defs usize_max_def)
  ultimately show ?thesis
    using assms by (auto simp: has_room_def over_window_def fits_window_def session_ok_def)
qed

text \<open>Submitting one batch: it goes out, or nothing does.\<close>

lemma submit_batch_leaves:
  assumes "submit_batch (logged_service svc) batch (length (batch_data batch)) session (s, log) = ((r :: ('e write_error, unit) outcome), session', s', log')"
    and "session_ok session log st" "R item batch"
  shows "leaves R log [item] r session' log'"
proof -
  obtain r1 session1 s1 log1 where wait: "wait_for_capacity (logged_service svc) (batch_count batch) (length (batch_data batch)) session (s, log)
      = ((r1 :: ('e write_error, unit) outcome), session1, s1, log1)"
    by (metis prod_cases4)
  note waited = wait_for_capacity_settles[OF wait assms(2)]
  show ?thesis
  proof (cases r1)
    case (Ok u)
    with waited obtain out i where ok: "session_ok session1 log1 (out, i)" "has_room (batch_count batch) (length (batch_data batch)) session1 i"
      and same: "submitted log1 = submitted log" unfolding settles_def by blast
    obtain answer s2 log2 where submit: "sv_submit (logged_service svc) batch (s1, log1) = (answer, s2, log2)" by (metis prod_cases3)
    have run1: "session_run ([], False) log1 = Some (out, i)" using ok(1) by (simp add: session_ok_def)
    note log2 = logged_submit[OF submit]
    show ?thesis
    proof (cases answer)
      case (Inl e)
      then have "r = Err (SubmitFailed e) \<and> log' = log2" using assms(1) wait Ok submit by (auto simp: submit_batch_def batch_count_def Let_def)
      then show ?thesis using Inl log2 same session_run_snoc[OF run1] by (cases out) (auto simp: leaves_def)
    next
      case (Inr t)
      let ?session = "session1\<lparr> ss_records := ss_records session1 + of_nat (batch_count batch),
          ss_pending_records := ss_pending_records session1 + batch_count batch,
          ss_pending_payload_bytes := ss_pending_payload_bytes session1 + length (batch_data batch),
          ss_pending := ss_pending session1 @ [\<lparr> pa_ticket = t, pa_record_count = batch_count batch, pa_payload_bytes = length (batch_data batch) \<rparr>] \<rparr>"
      have drain: "drain_ready_tickets (logged_service svc) ?session (s2, log2) = (r, session', s', log')"
        using assms(1) wait Ok submit Inr by (simp add: submit_batch_def batch_count_def Let_def)
      have "out = [] \<or> i \<or> fits_window out batch" by (rule has_room_fits[OF ok])
      then have "session_ok ?session log2 (out @ [(t, batch)], i)"
        using ok(1) log2 Inr session_run_snoc[OF run1, of "Submitted batch t"]
        by (auto simp: session_ok_def mirrors_def list_all2_appendI)
      from drain_settles[OF drain this] show ?thesis
        using log2 Inr same assms(3) by (cases r) (auto simp: settles_def leaves_def intro: exI[of _ "[item]"])
    qed
  next
    case (Err e)
    then show ?thesis using assms(1) wait waited by (auto simp: submit_batch_def batch_count_def settles_def leaves_def Let_def)
  next
    case Panic
    then show ?thesis using waited by simp
  qed
qed

section \<open>Lines\<close>

text \<open>A batch that carries an item of input: a line split into its parts, or a byte record.\<close>

definition carries_line :: "bytes \<Rightarrow> append_batch \<Rightarrow> bool" where
  "carries_line line batch \<longleftrightarrow> (split_logical line :: unit frame_codec_error + append_batch) = Inr batch"

definition carries_record :: "bytes \<Rightarrow> append_batch \<Rightarrow> bool" where
  "carries_record data batch \<longleftrightarrow> batch = AppendBatch [\<lparr> rp_part = unsplit, rp_data = data \<rparr>]
     \<and> data \<noteq> [] \<and> length data \<le> MAX_RECORD_PAYLOAD_BYTES"

lemma carries_line_data: "carries_line line batch \<Longrightarrow> batch_data batch = line"
  using split_record_payloads_cases[of line, where 'j = unit]
  by (auto simp: carries_line_def split_logical_def and_then_eq_Inr append_batch_from_records_Inr batch_data_def split_of_def)

lemma carries_record_data: "carries_record data batch \<Longrightarrow> batch_data batch = data"
  by (simp add: carries_record_def batch_data_def)

lemma append_logical_leaves:
  assumes "append_logical_record (logged_service svc) line session (s, log) = ((r :: ('e write_error, unit) outcome), session', s', log')"
    and "session_ok session log st"
  shows "leaves carries_line log [line] r session' log'"
proof (cases "split_logical line :: unit frame_codec_error + append_batch")
  case (Inl e)
  then show ?thesis using assms by (auto simp: append_logical_record_def leaves_def session_ok_def)
next
  case (Inr batch)
  then have line: "carries_line line batch" by (simp add: carries_line_def)
  then show ?thesis
    using submit_batch_leaves[OF _ assms(2), of svc batch s r session' s' log' carries_line line] assms(1) Inr carries_line_data[OF line]
    by (simp add: append_logical_record_def)
qed

lemma append_physical_leaves:
  assumes "append_physical_record (logged_service svc) unsplit data session (s, log) = ((r :: ('e write_error, unit) outcome), session', s', log')"
    and "session_ok session log st" "data \<noteq> []" "length data \<le> MAX_RECORD_PAYLOAD_BYTES"
  shows "leaves carries_record log [data] r session' log'"
proof -
  let ?batch = "AppendBatch [\<lparr> rp_part = unsplit, rp_data = data \<rparr>]"
  have "append_batch_single unsplit data = (Inr ?batch :: unit frame_codec_error + append_batch)"
    using assms(4) by (simp add: append_batch_single_def append_batch_from_records_Inr wf_append_batch_def)
  moreover have "carries_record data ?batch" using assms(3,4) by (simp add: carries_record_def)
  moreover have "batch_data ?batch = data" by (simp add: batch_data_def)
  ultimately show ?thesis
    using submit_batch_leaves[OF _ assms(2), of svc ?batch s r session' s' log' carries_record data] assms(1)
    by (simp add: append_physical_record_def)
qed

text \<open>The lines of an input: its parts between line feeds, without an empty last one.\<close>

definition input_lines :: "bytes \<Rightarrow> bytes list" where
  "input_lines input = (let parts = split_on 10 input in if last parts = [] then butlast parts else parts)"

lemma split_on_not_Nil [simp]: "split_on b xs \<noteq> []"
  by (induction xs) (auto split: list.splits)

lemma split_on_none: "b \<notin> set xs \<Longrightarrow> split_on b xs = [xs]"
  by (induction xs) auto

lemma split_on_sep: "b \<notin> set xs \<Longrightarrow> split_on b (xs @ b # ys) = xs # split_on b ys"
  by (induction xs) auto

lemma split_on_glue: "split_on b (xs @ ys) = butlast (split_on b xs) @ split_on b (last (split_on b xs) @ ys)"
proof (induction xs)
  case (Cons x xs)
  obtain p ps where ps: "split_on b xs = p # ps" by (cases "split_on b xs") auto
  show ?case
  proof (cases "ps = []")
    case True
    then show ?thesis using Cons ps by (cases "split_on b ys") auto
  next
    case False
    then show ?thesis using Cons ps by (auto split: list.splits)
  qed
qed simp

lemma last_split_on: "b \<notin> set (last (split_on b xs))"
  by (induction xs) (auto split: list.splits if_splits)

lemma split_at_line:
  assumes "b \<in> set xs" defines "i \<equiv> length (takeWhile (\<lambda>x. x \<noteq> b) xs)"
  shows "xs = take i xs @ b # drop (i + 1) xs" "b \<notin> set (take i xs)"
proof -
  obtain ys zs where xs: "xs = ys @ b # zs" "b \<notin> set ys" using split_list_first[OF assms(1)] by blast
  then have "i = length ys" unfolding i_def by (induction ys arbitrary: xs) auto
  then show "xs = take i xs @ b # drop (i + 1) xs" "b \<notin> set (take i xs)" using xs by simp_all
qed

declare push_lines.simps [simp del]

lemma push_lines_no_line: "10 \<notin> set data \<Longrightarrow> push_lines svc data pending session s = (Ok (), pending @ data, session, s)"
  by (subst push_lines.simps) simp

lemma push_lines_line:
  "10 \<in> set data \<Longrightarrow> push_lines svc data pending session s =
     (case send_line svc (pending @ take (length (takeWhile (\<lambda>b. b \<noteq> 10) data)) data) session s of
        (Ok _, pending, session, s) \<Rightarrow> push_lines svc (drop (length (takeWhile (\<lambda>b. b \<noteq> 10) data) + 1) data) pending session s
      | stopped \<Rightarrow> stopped)"
  by (subst push_lines.simps) (auto simp: Let_def)

text \<open>Pushing bytes submits the lines they complete and keeps the rest.\<close>

lemma push_lines_leaves:
  assumes "push_lines (logged_service svc) data pending session (s, log) = ((r :: ('e write_error, unit) outcome), pending', session', s', log')"
    and "session_ok session log st" "10 \<notin> set pending"
  shows "leaves carries_line log (butlast (split_on 10 (pending @ data))) r session' log'
    \<and> (r = Ok u \<longrightarrow> pending' = last (split_on 10 (pending @ data)))"
  using assms
proof (induction "length data" arbitrary: data pending session s log st rule: less_induct)
  case less
  note run = less.prems(1)
  show ?case
  proof (cases "10 \<in> set data")
    case False
    then have "r = Ok ()" "pending' = pending @ data" "session' = session" "log' = log"
      using run by (simp_all add: push_lines_no_line)
    moreover have "split_on 10 (pending @ data) = [pending @ data]"
      using False less.prems(3) by (simp add: split_on_none)
    ultimately show ?thesis using leaves_none[OF less.prems(2)] by simp
  next
    case line: True
    let ?i = "length (takeWhile (\<lambda>b. b \<noteq> 10) data)"
    let ?ys = "drop (?i + 1) data"
    note split = split_at_line[OF line]
    obtain r1 p1 session1 s1 log1 where send: "send_line (logged_service svc) (pending @ take ?i data) session (s, log)
        = ((r1 :: ('e write_error, unit) outcome), p1, session1, s1, log1)"
      by (metis prod_cases5)
    then have p1: "p1 = []" and append: "append_logical_record (logged_service svc) (pending @ take ?i data) session (s, log) = (r1, session1, s1, log1)"
      by (auto simp: send_line_def split: prod.splits)
    note first = append_logical_leaves[OF append less.prems(2)]
    have "pending @ data = (pending @ take ?i data) @ 10 # ?ys" using split(1) by (metis append_assoc)
    then have parts: "split_on 10 (pending @ data) = (pending @ take ?i data) # split_on 10 ?ys"
      using split_on_sep[of 10 "pending @ take ?i data" ?ys] split(2) less.prems(3) by simp
    show ?thesis
    proof (cases r1)
      case (Ok v)
      then obtain st1 where ok1: "session_ok session1 log1 st1" using first by (auto simp: leaves_def)
      have more: "push_lines (logged_service svc) ?ys [] session1 (s1, log1) = (r, pending', session', s', log')"
        using run line send Ok p1 by (simp add: push_lines_line)
      have "length ?ys < length data" using line by (cases data) auto
      note less.hyps[OF this more ok1]
      then show ?thesis using leaves_trans[OF first[unfolded Ok], of _ r session' log'] parts by simp
    next
      case (Err e)
      then have "r = Err e \<and> session' = session1 \<and> log' = log1" using run line send by (auto simp: push_lines_line)
      then show ?thesis using first Err parts leaves_more[of carries_line log "[pending @ take ?i data]" e session1 log1] by simp
    next
      case Panic
      then show ?thesis using first by (simp add: leaves_def)
    qed
  qed
qed

text \<open>The bytes an input loop takes before it stops, and whether a read fails before.\<close>

fun taken_input :: "input_event list \<Rightarrow> bytes" where
  "taken_input [] = []"
| "taken_input (event # events) = (case event of
       Chunk data \<Rightarrow> data @ taken_input events
     | LingerElapsed \<Rightarrow> taken_input events
     | _ \<Rightarrow> [])"

lemma input_lines_pending:
  "10 \<notin> set pending \<Longrightarrow> input_lines (pending @ data @ later)
     = butlast (split_on 10 (pending @ data)) @ input_lines (last (split_on 10 (pending @ data)) @ later)"
  using split_on_glue[of 10 "pending @ data" later] by (simp add: input_lines_def Let_def butlast_append)

lemma input_lines_rest: "10 \<notin> set pending \<Longrightarrow> input_lines pending = (if pending = [] then [] else [pending])"
  by (simp add: input_lines_def split_on_none)

lemma leaves_stops: "leaves R log items (Err e) session' log' \<Longrightarrow> prefix items items' \<Longrightarrow> leaves R log items' (Err e) session' log'"
  by (auto simp: prefix_def leaves_more)

lemma line_finish_leaves:
  assumes "line_finish (logged_service svc) pending session (s, log) = ((r :: ('e write_error, unit) outcome), pending', session', s', log')"
    and "session_ok session log st" "10 \<notin> set pending"
  shows "leaves carries_line log (input_lines pending) r session' log'"
proof (cases "pending = []")
  case True
  then show ?thesis using assms by (auto simp: line_finish_def input_lines_rest intro: leaves_none)
next
  case False
  then have "append_logical_record (logged_service svc) pending session (s, log) = (r, session', s', log')"
    using assms(1) by (auto simp: line_finish_def send_line_def split: prod.splits)
  from append_logical_leaves[OF this assms(2)] show ?thesis using False assms(3) by (simp add: input_lines_rest)
qed

lemma line_chunks_leave:
  assumes "line_chunks_loop (logged_service svc) events pending session (s, log) = ((r :: ('e write_error, unit) outcome), pending', session', s', log')"
    and "session_ok session log st" "10 \<notin> set pending"
  shows "leaves carries_line log (input_lines (pending @ taken_input events)) r session' log'"
  using assms
proof (induction events arbitrary: pending session s log st)
  case Nil
  then show ?case using line_finish_leaves[of svc pending session s log r pending' session' s' log' st] by simp
next
  case (Cons event events)
  show ?case
  proof (cases event)
    case Interrupted
    then show ?thesis using Cons.prems line_finish_leaves[of svc pending session s log r pending' session' s' log' st] by simp
  next
    case ChunkFailed
    then have "r = Err InputFailed" "log' = log" using Cons.prems(1) by simp_all
    then show ?thesis using Cons.prems(2) by (auto simp: leaves_def session_ok_def)
  next
    case LingerElapsed
    then show ?thesis using Cons by simp
  next
    case (Chunk data)
    obtain r1 p1 session1 s1 log1 where push: "push_lines (logged_service svc) data pending session (s, log)
        = ((r1 :: ('e write_error, unit) outcome), p1, session1, s1, log1)"
      by (metis prod_cases5)
    note pushed = push_lines_leaves[OF push Cons.prems(2,3)]
    note lines = input_lines_pending[OF Cons.prems(3), of data "taken_input events"]
    show ?thesis
    proof (cases r1)
      case (Ok v)
      then obtain st1 where ok1: "session_ok session1 log1 st1" using pushed by (auto simp: leaves_def)
      have p1: "p1 = last (split_on 10 (pending @ data))" using pushed Ok by simp
      have more: "line_chunks_loop (logged_service svc) events p1 session1 (s1, log1) = (r, pending', session', s', log')"
        using Cons.prems(1) Chunk push Ok by simp
      have "leaves carries_line log1 (input_lines (p1 @ taken_input events)) r session' log'"
        using Cons.IH[OF more ok1] p1 last_split_on[of 10] by simp
      then show ?thesis using leaves_trans[of carries_line log _ v session1 log1 _ r session' log'] pushed Ok p1 lines Chunk by simp
    next
      case (Err e)
      then have "r = Err e \<and> session' = session1 \<and> log' = log1" using Cons.prems(1) Chunk push by auto
      then show ?thesis
        using pushed Err lines Chunk leaves_more[of carries_line log _ e session1 log1] by simp
    next
      case Panic
      then show ?thesis using pushed by (simp add: leaves_def)
    qed
  qed
qed

section \<open>Byte records\<close>

text \<open>What is submitted of some input as records, with the rest still in the buffer.\<close>

definition leaves_bytes :: "'t service_call list \<Rightarrow> bytes \<Rightarrow> bytes \<Rightarrow> ('x, unit) outcome \<Rightarrow> 't writer_session \<Rightarrow> 't service_call list \<Rightarrow> bool" where
  "leaves_bytes log input rest r session' log' \<longleftrightarrow> (\<exists>items. leaves carries_record log items r session' log'
     \<and> (if r = Ok () then concat items @ rest = input else prefix (concat items) input))"

lemma leaves_bytes_none: "session_ok session log st \<Longrightarrow> leaves_bytes log input input (Ok u) session log"
  using leaves_none[of session log st carries_record u] by (auto simp: leaves_bytes_def intro: exI[of _ "[]"])

lemma leaves_bytes_trans:
  assumes "leaves_bytes log input rest (Ok u :: ('x, unit) outcome) session1 log1"
    and "leaves_bytes log1 (rest @ later) rest' (r :: ('x, unit) outcome) session' log'"
  shows "leaves_bytes log (input @ later) rest' r session' log'"
proof -
  obtain items where items: "leaves carries_record log items (Ok u :: ('x, unit) outcome) session1 log1" "concat items @ rest = input"
    using assms(1) by (auto simp: leaves_bytes_def)
  obtain items' where items': "leaves carries_record log1 items' r session' log'"
      "if r = Ok () then concat items' @ rest' = rest @ later else prefix (concat items') (rest @ later)"
    using assms(2) by (auto simp: leaves_bytes_def)
  have "if r = Ok () then concat (items @ items') @ rest' = input @ later else prefix (concat (items @ items')) (input @ later)"
    using items(2) items'(2) by (auto split: if_splits)
  then show ?thesis using leaves_trans[OF items(1) items'(1)] unfolding leaves_bytes_def by blast
qed

lemma leaves_bytes_more: "leaves_bytes log input rest (Err e) session' log' \<Longrightarrow> leaves_bytes log (input @ later) rest' (Err e) session' log'"
  by (auto simp: leaves_bytes_def intro: prefix_prefix)

lemma leaves_no_panic [simp]: "\<not> leaves R log items Panic session' log'" "\<not> leaves_bytes log input rest Panic session' log'"
  by (simp_all add: leaves_def leaves_bytes_def)

text \<open>One step of a loop, and the loop after it.\<close>

lemma leaves_bytes_step:
  fixes r1 r :: "('x, unit) outcome"
  assumes first: "leaves_bytes log input rest r1 session1 log1"
    and ok: "\<And>v. r1 = Ok v \<Longrightarrow> leaves_bytes log1 (rest @ later) rest' r session' log'"
    and err: "\<And>e. r1 = Err e \<Longrightarrow> r = Err e \<and> session' = session1 \<and> log' = log1"
  shows "leaves_bytes log (input @ later) rest' r session' log'"
proof (cases r1)
  case (Ok v)
  show ?thesis by (rule leaves_bytes_trans[OF first[unfolded Ok] ok[OF Ok]])
next
  case (Err e)
  then show ?thesis using leaves_bytes_more[OF first[unfolded Err]] err by simp
qed (use first in simp)

lemma leaves_bytes_ok: "leaves_bytes log input rest (Ok u) session1 log1 \<Longrightarrow> \<exists>st. session_ok session1 log1 st"
  by (auto simp: leaves_bytes_def leaves_def)

lemma byte_flush_leaves:
  assumes "byte_flush (logged_service svc) app session (s, log) = ((r :: ('e write_error, unit) outcome), app', session', s', log')"
    and "session_ok session log st" "length (ba_pending app) \<le> MAX_RECORD_PAYLOAD_BYTES"
  shows "leaves_bytes log (ba_pending app) [] r session' log' \<and> ba_pending app' = [] \<and> ba_linger app' = ba_linger app"
proof (cases "ba_pending app = []")
  case True
  then show ?thesis using assms(1) leaves_bytes_none[OF assms(2)] by (auto simp: byte_flush_def)
next
  case False
  then have "append_physical_record (logged_service svc) unsplit (ba_pending app) session (s, log) = (r, session', s', log')"
      "ba_pending app' = [] \<and> ba_linger app' = ba_linger app"
    using assms(1) by (auto simp: byte_flush_def split: prod.splits)
  then show ?thesis
    using append_physical_leaves[OF _ assms(2) False assms(3)] by (auto simp: leaves_bytes_def intro!: exI[of _ "[ba_pending app]"])
qed

declare push_byte_chunk.simps [simp del]

lemma fill_buffer_logged:
  "fill_buffer (logged_service svc) taken app (s, log) = (app', s', log') \<Longrightarrow> log' = log \<and> ba_pending app' = ba_pending app @ taken"
  by (auto simp: fill_buffer_def dest: logged_now split: if_splits prod.splits)

lemma push_byte_chunk_round:
  assumes "data \<noteq> []" "length (ba_pending app) < MAX_RECORD_PAYLOAD_BYTES"
    and "taken = min (MAX_RECORD_PAYLOAD_BYTES - length (ba_pending app)) (length data)"
    and "fill_buffer svc (take taken data) app s = (app1, s1)"
  shows "push_byte_chunk svc data app session s =
     (if length (ba_pending app1) = MAX_RECORD_PAYLOAD_BYTES
      then (case byte_flush svc app1 session s1 of
          (Ok _, app, session, s) \<Rightarrow> push_byte_chunk svc (drop taken data) app session s
        | stopped \<Rightarrow> stopped)
      else push_byte_chunk svc (drop taken data) app1 session s1)"
  by (subst push_byte_chunk.simps) (simp add: assms(1,2) not_le[THEN iffD2, OF assms(2)] Let_def assms(4) flip: assms(3))

lemma push_byte_chunk_leaves:
  assumes "push_byte_chunk (logged_service svc) data app session (s, log) = ((r :: ('e write_error, unit) outcome), app', session', s', log')"
    and "session_ok session log st" "length (ba_pending app) < MAX_RECORD_PAYLOAD_BYTES"
  shows "leaves_bytes log (ba_pending app @ data) (ba_pending app') r session' log'
    \<and> (r = Ok u \<longrightarrow> length (ba_pending app') < MAX_RECORD_PAYLOAD_BYTES)"
  using assms
proof (induction "length data" arbitrary: data app session s log st rule: less_induct)
  case less
  show ?case
  proof (cases "data = []")
    case True
    then have "r = Ok ()" "app' = app" "session' = session" "log' = log" using less.prems(1) by (simp_all add: push_byte_chunk.simps)
    then show ?thesis using leaves_bytes_none[OF less.prems(2)] less.prems(3) True by simp
  next
    case False
    let ?taken = "min (MAX_RECORD_PAYLOAD_BYTES - length (ba_pending app)) (length data)"
    obtain app1 s1 log1 where fill: "fill_buffer (logged_service svc) (take ?taken data) app (s, log) = (app1, s1, log1)" by (metis prod_cases3)
    note filled = fill_buffer_logged[OF fill]
    have shorter: "length (drop ?taken data) < length data" using False less.prems(3) by (cases data) auto
    have buffer: "length (ba_pending app1) \<le> MAX_RECORD_PAYLOAD_BYTES" using filled less.prems(3) by auto
    have input: "ba_pending app @ data = ba_pending app1 @ drop ?taken data" using filled by simp
    note round = push_byte_chunk_round[OF False less.prems(3) refl fill, of session]
    show ?thesis
    proof (cases "length (ba_pending app1) = MAX_RECORD_PAYLOAD_BYTES")
      case True
      obtain r1 app2 session2 s2 log2 where flush: "byte_flush (logged_service svc) app1 session (s1, log1)
          = ((r1 :: ('e write_error, unit) outcome), app2, session2, s2, log2)"
        by (metis prod_cases5)
      from flush have flush': "byte_flush (logged_service svc) app1 session (s1, log) = (r1, app2, session2, s2, log2)" using filled by simp
      note flushed = byte_flush_leaves[OF flush' less.prems(2) buffer]
      have empty: "ba_pending app2 = []" using flushed by blast
      then have room: "length (ba_pending app2) < MAX_RECORD_PAYLOAD_BYTES" by (simp add: const_defs)
      have run_ok: "push_byte_chunk (logged_service svc) (drop ?taken data) app2 session2 (s2, log2) = (r, app', session', s', log')"
        if "r1 = Ok v" for v
        using less.prems(1) unfolding round by (simp add: True flush that)
      have run_err: "r = Err e \<and> session' = session2 \<and> log' = log2" if "r1 = Err e" for e
        using less.prems(1) unfolding round by (simp add: True flush that)
      have next_round: "leaves_bytes log2 (drop ?taken data) (ba_pending app') r session' log'
          \<and> (r = Ok u \<longrightarrow> length (ba_pending app') < MAX_RECORD_PAYLOAD_BYTES)" if ok: "r1 = Ok v" for v
      proof -
        obtain st2 where st2: "session_ok session2 log2 st2" using flushed leaves_bytes_ok unfolding ok by blast
        from less.hyps[OF shorter run_ok[OF ok] st2 room] show ?thesis using empty by simp
      qed
      have "leaves_bytes log (ba_pending app1 @ drop ?taken data) (ba_pending app') r session' log'"
        by (rule leaves_bytes_step[OF conjunct1[OF flushed]]) (use next_round run_err in auto)
      moreover have "r = Ok u \<Longrightarrow> length (ba_pending app') < MAX_RECORD_PAYLOAD_BYTES"
        using next_round run_err flushed by (cases r1) auto
      ultimately show ?thesis using input by simp
    next
      case False
      then have more: "push_byte_chunk (logged_service svc) (drop ?taken data) app1 session (s1, log) = (r, app', session', s', log')"
        using less.prems(1) round filled by simp
      have "length (ba_pending app1) < MAX_RECORD_PAYLOAD_BYTES" using False buffer by simp
      from less.hyps[OF shorter more less.prems(2) this] show ?thesis using input by simp
    qed
  qed
qed

lemma byte_chunks_leave:
  assumes "byte_chunks_loop (logged_service svc) events app session (s, log) = ((r :: ('e write_error, unit) outcome), app', session', s', log')"
    and "session_ok session log st" "length (ba_pending app) < MAX_RECORD_PAYLOAD_BYTES"
  shows "leaves_bytes log (ba_pending app @ taken_input events) [] r session' log'"
  using assms
proof (induction events arbitrary: app session s log st)
  case Nil
  then show ?case using byte_flush_leaves[of svc app session s log r app' session' s' log' st] by simp
next
  case (Cons event events)
  have go_on: "leaves_bytes log ((ba_pending app @ taken) @ taken_input events) [] r session' log'"
    if first: "leaves_bytes log (ba_pending app @ taken) (ba_pending app1) r1 session1 log1"
      and room: "length (ba_pending app1) < MAX_RECORD_PAYLOAD_BYTES \<or> r1 \<noteq> Ok ()"
      and run: "(r, app', session', s', log') = (case r1 of
          Ok _ \<Rightarrow> byte_chunks_loop (logged_service svc) events app1 session1 (s1, log1)
        | Err e \<Rightarrow> (Err e, app1, session1, s1, log1) | Panic \<Rightarrow> (Panic, app1, session1, s1, log1))"
    for taken app1 session1 s1 log1 and r1 :: "('e write_error, unit) outcome"
  proof (rule leaves_bytes_step[OF first])
    fix v assume ok: "r1 = Ok v"
    obtain st1 where "session_ok session1 log1 st1" using leaves_bytes_ok first unfolding ok by blast
    then show "leaves_bytes log1 (ba_pending app1 @ taken_input events) [] r session' log'"
      using Cons.IH[of app1 session1 s1 log1 st1] room run ok by simp
  qed (use run in auto)
  show ?case
  proof (cases event)
    case Interrupted
    then show ?thesis using Cons.prems byte_flush_leaves[of svc app session s log r app' session' s' log' st] by simp
  next
    case ChunkFailed
    then have "r = Err InputFailed" "log' = log" using Cons.prems(1) by simp_all
    then show ?thesis using Cons.prems(2) by (auto simp: leaves_bytes_def leaves_def session_ok_def intro!: exI[of _ "[]"])
  next
    case LingerElapsed
    show ?thesis
    proof (cases "ba_deadline app = None")
      case True
      then show ?thesis using Cons LingerElapsed by simp
    next
      case False
      obtain r1 app1 session1 s1 log1 where flush: "byte_flush (logged_service svc) app session (s, log)
          = ((r1 :: ('e write_error, unit) outcome), app1, session1, s1, log1)"
        by (metis prod_cases5)
      have flushed: "leaves_bytes log (ba_pending app @ []) [] r1 session1 log1 \<and> ba_pending app1 = []"
        using byte_flush_leaves[OF flush Cons.prems(2)] Cons.prems(3) by simp
      show ?thesis
        using go_on[of "[]" app1 r1 session1 log1 s1] flushed Cons.prems(1) LingerElapsed False flush
        by (simp add: const_defs split: outcome.splits)
    qed
  next
    case (Chunk data)
    obtain r1 app1 session1 s1 log1 where push: "push_byte_chunk (logged_service svc) data app session (s, log)
        = ((r1 :: ('e write_error, unit) outcome), app1, session1, s1, log1)"
      by (metis prod_cases5)
    note pushed = push_byte_chunk_leaves[OF push Cons.prems(2,3), of "()"]
    show ?thesis
      using go_on[of data app1 r1 session1 log1 s1] pushed Cons.prems(1) Chunk push by (simp split: outcome.splits)
  qed
qed

section \<open>A whole write\<close>

lemma stop_requested_settles:
  assumes "stop_requested (logged_service svc) session (s, log) = ((r :: ('e write_error, unit) outcome), session', s', log')"
    and "session_ok session log (out, i)"
  shows "settles log r session' log' \<and> (r = Ok u \<longrightarrow> session' = session \<and> log' = log)
    \<and> (r = Err ExitedAtOnce \<longrightarrow> last log' = StopSeen \<and> log' \<noteq> [])"
proof -
  obtain stop s1 log1 where seen: "sv_stop (logged_service svc) (s, log) = (stop, s1, log1)" by (metis prod_cases3)
  have run: "session_run ([], False) log = Some (out, i)" using assms(2) by (simp add: session_ok_def)
  show ?thesis
    using assms seen logged_stop[OF seen] run session_run_snoc[OF run, of StopSeen]
    by (cases stop rule: stop_calls.cases) (auto simp: stop_requested_def intro: settles_Ok settles_Err)
qed

lemma finish_loop_settles:
  assumes "finish_loop n (logged_service svc) session (s, log) = ((r :: ('e write_error, unit) outcome), session', s', log')"
    and "session_ok session log (out, i)" "length (ss_pending session) \<le> n"
  shows "settles log r session' log' \<and> (r = Ok u \<longrightarrow> (\<exists>i. session_ok session' log' ([], i)))
    \<and> (r = Err ExitedAtOnce \<longrightarrow> last log' = StopSeen \<and> log' \<noteq> [])"
  using assms
proof (induction n arbitrary: session s log out i)
  case 0
  then have "out = []" by (auto simp: session_ok_def)
  then show ?case using 0 by (auto intro: settles_Ok)
next
  case (Suc n)
  show ?case
  proof (cases "ss_pending session")
    case Nil
    then have "out = []" using Suc.prems(2) by (auto simp: session_ok_def)
    then show ?thesis using Suc.prems(1,2) Nil by (auto intro: settles_Ok)
  next
    case (Cons p rest)
    then obtain batch out' where out: "out = (pa_ticket p, batch) # out'" using session_pending_out[OF Suc.prems(2)] by blast
    obtain r0 session0 s0 log0 where stop: "stop_requested (logged_service svc) session (s, log) = ((r0 :: ('e write_error, unit) outcome), session0, s0, log0)"
      by (metis prod_cases4)
    note stopped = stop_requested_settles[OF stop Suc.prems(2)]
    show ?thesis
    proof (cases r0)
      case (Ok v)
      then have same: "session0 = session" "log0 = log" using stopped by auto
      obtain result s1 log1 where wait: "sv_wait (logged_service svc) (pa_ticket p) (s0, log) = (result, s1, log1)" by (metis prod_cases3)
      obtain r1 session1 s2 log2 where up: "take_up result session (s1, log1) = ((r1 :: ('e write_error, unit) outcome), session1, s2, log2)"
        by (metis prod_cases4)
      note taken = take_up_settles[OF Suc.prems(2)[unfolded out] _ up[unfolded logged_wait[OF wait]]]
      have oldest: "wait_for_oldest (logged_service svc) session (s0, log) = (r1, session1, s2, log2)"
        using Cons wait up by (simp add: wait_for_oldest_def)
      show ?thesis
      proof (cases r1)
        case (Ok v)
        then have rest: "finish_loop n (logged_service svc) session1 (s2, log2) = (r, session', s', log')"
          using Suc.prems(1) Cons oldest stop \<open>r0 = _\<close> same by simp
        from taken(2) Cons Ok have ok1: "session_ok session1 log2 (out', i)" by simp
        then have "length (ss_pending session1) = length out'" by (auto simp: session_ok_def list_all2_lengthD)
        moreover have "length (ss_pending session) = length out" using Suc.prems(2) by (auto simp: session_ok_def list_all2_lengthD)
        ultimately have "length (ss_pending session1) \<le> n" using Suc.prems(3) out by simp
        from Suc.IH[OF rest ok1 this] settles_trans show ?thesis using taken(1) Cons Ok by fastforce
      next
        case (Err e)
        moreover have "e \<noteq> ExitedAtOnce"
          using up Err by (auto simp: take_up_def remove_oldest_def split: sum.splits list.splits if_splits)
        ultimately show ?thesis
          using Suc.prems(1) Cons oldest stop \<open>r0 = _\<close> same taken(1) by auto
      next
        case Panic
        then show ?thesis using taken(1) Cons by simp
      qed
    qed (use Suc.prems(1) Cons stop stopped in \<open>auto simp: settles_def\<close>)
  qed
qed

text \<open>What a whole write has done of its \<open>items\<close>: never a panic; after an error the first of them, in order; and when it reports a
  number of records, exactly they, all durable, on a writer that closed cleanly.\<close>

definition written :: "('i \<Rightarrow> append_batch \<Rightarrow> bool) \<Rightarrow> 'i list \<Rightarrow> ('x, u64) outcome \<Rightarrow> 't service_call list \<Rightarrow> bool" where
  "written R items r log \<longleftrightarrow> (case r of
       Panic \<Rightarrow> False
     | Err _ \<Rightarrow> session_run ([], False) log \<noteq> None \<and> (\<exists>first. prefix first items \<and> list_all2 R first (submitted log))
     | Ok n \<Rightarrow> list_all2 R items (submitted log) \<and> (\<exists>i. session_run ([], False) log = Some ([], i)) \<and> last log = WriterClosed True
         \<and> n = of_nat (\<Sum>b \<leftarrow> submitted log. batch_count b))"

text \<open>A write that an interrupt ends at once has submitted all of its items.\<close>

definition stopped_after :: "('i \<Rightarrow> append_batch \<Rightarrow> bool) \<Rightarrow> 'i list \<Rightarrow> ('e write_error, u64) outcome \<Rightarrow> 't service_call list \<Rightarrow> bool" where
  "stopped_after R items r log \<longleftrightarrow>
     (r = Err ExitedAtOnce \<longrightarrow> list_all2 R items (submitted log) \<and> log \<noteq> [] \<and> last log = StopSeen)"

lemma finish_write_written:
  assumes "finish_write (logged_service svc) session (s, log) = ((r :: ('e write_error, u64) outcome), s', log')"
    and "leaves R [] items (Ok u :: ('e write_error, unit) outcome) session log"
  shows "written R items r log' \<and> stopped_after R items r log'"
proof -
  obtain st where ok: "session_ok session log st" and items: "list_all2 R items (submitted log)" using assms(2) by (auto simp: leaves_def)
  obtain r1 session1 s1 log1 where loop: "finish_loop (length (ss_pending session)) (logged_service svc) session (s, log)
      = ((r1 :: ('e write_error, unit) outcome), session1, s1, log1)"
    by (metis prod_cases4)
  obtain out i where "st = (out, i)" by force
  note settled = finish_loop_settles[OF loop ok[unfolded this] order_refl]
  show ?thesis
  proof (cases r1)
    case (Ok v)
    then obtain i1 where ok1: "session_ok session1 log1 ([], i1)" and same: "submitted log1 = submitted log"
      using settled by (auto simp: settles_def)
    obtain r2 session2 s2 log2 where stop: "stop_requested (logged_service svc) session1 (s1, log1) = ((r2 :: ('e write_error, unit) outcome), session2, s2, log2)"
      by (metis prod_cases4)
    note stopped = stop_requested_settles[OF stop ok1]
    show ?thesis
    proof (cases r2)
      case (Ok v)
      then have here: "log2 = log1" using stopped by auto
      obtain answer s3 log3 where close: "sv_close (logged_service svc) (s2, log1) = (answer, s3, log3)" by (metis prod_cases3)
      have run1: "session_run ([], False) log1 = Some ([], i1)" using ok1 by (simp add: session_ok_def)
      have after: "session_run ([], False) log3 = Some ([], i1)" "submitted log3 = submitted log" "last log3 = WriterClosed (\<not> isl answer)"
        using logged_close[OF close] session_run_snoc[OF run1, of "WriterClosed (\<not> isl answer)"] same by simp_all
      show ?thesis
        using assms(1) loop \<open>r1 = _\<close> stop Ok here close ok1 items after same
        by (cases answer) (auto simp: finish_write_def session_finish_def written_def stopped_after_def session_ok_def)
    next
      case (Err e)
      then have "r = Err e \<and> log' = log2" using assms(1) loop \<open>r1 = _\<close> stop by (auto simp: finish_write_def session_finish_def)
      then show ?thesis using stopped Err items same by (auto simp: written_def stopped_after_def settles_def)
    qed (use stopped in simp)
  next
    case (Err e)
    then have "submitted log1 = submitted log" "session_run ([], False) log1 \<noteq> None" using settled by (simp_all add: settles_def)
    moreover have "r = Err e \<and> log' = log1" using assms(1) loop Err by (auto simp: finish_write_def session_finish_def)
    ultimately show ?thesis using items settled Err by (auto simp: written_def stopped_after_def)
  qed (use settled in simp)
qed

lemma write_input_written:
  assumes "write_stream_input (logged_service svc) buffering events failed (s, []) = ((r :: ('e write_error, u64) outcome), s', log)"
    and "\<And>session s1 log1 (r1 :: ('e write_error, unit) outcome).
      stream_chunks_to_writer (logged_service svc) buffering events session_new (s, []) = (r1, session, s1, log1)
        \<Longrightarrow> leaves R [] items r1 session log1"
  shows "written R items r log"
proof -
  obtain r1 session s1 log1 where chunks: "stream_chunks_to_writer (logged_service svc) buffering events session_new (s, [])
      = ((r1 :: ('e write_error, unit) outcome), session, s1, log1)"
    by (metis prod_cases4)
  note first = assms(2)[OF chunks]
  show ?thesis
  proof (cases r1)
    case (Ok u)
    show ?thesis
    proof (cases failed)
      case True
      then have "r = Err InputFailed \<and> log = log1" using assms(1) chunks Ok by (auto simp: write_stream_input_def)
      then show ?thesis using first Ok by (auto simp: written_def leaves_def session_ok_def)
    next
      case False
      then have "finish_write (logged_service svc) session (s1, log1) = (r, s', log)"
        using assms(1) chunks Ok by (simp add: write_stream_input_def)
      from finish_write_written[OF this first[unfolded Ok]] show ?thesis by simp
    qed
  next
    case (Err e)
    then have "r = Err e \<and> log = log1" using assms(1) chunks by (auto simp: write_stream_input_def)
    then show ?thesis using first Err by (auto simp: written_def leaves_def)
  qed (use first in simp)
qed

lemma line_chunks_written:
  assumes "stream_chunks_to_writer (logged_service svc) BufferLines events session_new (s, []) = ((r1 :: ('e write_error, unit) outcome), session, s1, log1)"
  shows "leaves carries_line [] (input_lines (taken_input events)) r1 session log1"
proof -
  obtain p where "line_chunks_loop (logged_service svc) events [] session_new (s, []) = (r1, p, session, s1, log1)"
    using assms by (auto simp: stream_chunks_to_writer_def split: prod.splits)
  from line_chunks_leave[OF this session_ok_new] show ?thesis by simp
qed

lemma lines_written:
  assumes "write_stream_input (logged_service svc) BufferLines events failed (s, []) = ((r :: ('e write_error, u64) outcome), s', log)"
  shows "written carries_line (input_lines (taken_input events)) r log"
  by (rule write_input_written[OF assms line_chunks_written])

text \<open>C10: Writing lines: however the input is cut into chunks and whatever the writer and the user do, \<open>tsf write\<close> submits the lines of the
  input it took, in order, one batch of parts each, within the window unless interrupted; it never panics; after an
  error it has submitted the first of them; when it reports a number of records all lines are durable, and it is the number of
  their parts.\<close>

theorem write_lines_spec:
  assumes "write_stream_input (logged_service svc) BufferLines events failed (s, []) = ((r :: ('e write_error, u64) outcome), s', log)"
  shows "written carries_line (input_lines (taken_input events)) r log"
  by (rule lines_written[OF assms])

text \<open>C29: Writing bytes: the records \<open>tsf write\<close> submits are not empty, at most 512 KiB each and unsplit, and joined they are the
  input it took, in order, wherever the chunks and the linger cut it; the buffer never overflows; after an error they are the beginning of
  the input; and when a number of records is reported all of the input is durable in that many.\<close>

theorem write_bytes_spec:
  assumes "write_stream_input (logged_service svc) BufferBytes events failed (s, []) = ((r :: ('e write_error, u64) outcome), s', log)"
  shows "\<exists>records. concat records = taken_input events \<and> written carries_record records r log"
proof -
  obtain r1 app session s1 log1 where loop: "byte_chunks_loop (logged_service svc) events (byte_appender_new BYTE_RECORD_LINGER) session_new (s, [])
      = ((r1 :: ('e write_error, unit) outcome), app, session, s1, log1)"
    by (metis prod_cases5)
  have "leaves_bytes [] (taken_input events) [] r1 session log1"
    using byte_chunks_leave[OF loop session_ok_new] by (simp add: byte_appender_new_def const_defs)
  then obtain items where items: "leaves carries_record [] items r1 session log1"
      "if r1 = Ok () then concat items = taken_input events else prefix (concat items) (taken_input events)"
    by (auto simp: leaves_bytes_def split: if_splits)
  obtain records where records: "concat records = taken_input events" "leaves carries_record [] records r1 session log1"
  proof (cases r1)
    case (Err e)
    then obtain rest where "taken_input events = concat items @ rest" using items(2) by (auto simp: prefix_def)
    then show ?thesis using that[of "items @ [rest]"] leaves_more[of carries_record "[]" items e session log1 "[rest]"] items(1) Err by simp
  qed (use items that in auto)
  have "written carries_record records r log"
    by (rule write_input_written[OF assms]) (use loop records(2) in \<open>simp add: stream_chunks_to_writer_def\<close>)
  then show ?thesis using records(1) by blast
qed

text \<open>A writer that numbers its tickets and acknowledges each when it is asked.\<close>

definition prompt_service :: "(nat, unit, nat) writer_service" where
  "prompt_service =
     \<lparr> sv_submit = (\<lambda>_ n. (Inr n, n + 1)), sv_wait = (\<lambda>_ n. (Inr (), n)), sv_poll = (\<lambda>_ n. (None, n)),
       sv_wait_unless_interrupted = (\<lambda>_ n. (Some (Inr ()), n)), sv_interrupted = (\<lambda>n. (False, n)),
       sv_close = (\<lambda>n. (Inr (), n)), sv_now = (\<lambda>n. (0, n)), sv_confirm = (\<lambda>_ n. n),
       sv_stop = (\<lambda>n. (None, n)) \<rparr>"

abbreviation one_record :: "bytes \<Rightarrow> append_batch" where
  "one_record data \<equiv> AppendBatch [\<lparr> rp_part = unsplit, rp_data = data \<rparr>]"

lemmas write_run_defs = write_stream_input_def stream_chunks_to_writer_def line_finish_def send_line_def append_logical_record_def
  append_physical_record_def byte_flush_def fill_buffer_def byte_appender_new_def submit_batch_def wait_for_capacity_def drain_ready_tickets_def
  finish_write_def session_finish_def stop_requested_def wait_for_oldest_def take_up_def remove_oldest_def over_window_def sat_add_def usize_max_def
  session_new_def prompt_service_def logged_service_def split_logical_def split_record_payloads_def div_ceil_def
  append_batch_single_def append_batch_from_records_def validate_record_len_def const_defs

lemma sample_lines_run:
  "write_stream_input (logged_service prompt_service) BufferLines [Chunk [97, 10, 98], LingerElapsed, Chunk [99]] False (0, [])
    = ((Ok 2 :: (unit write_error, u64) outcome), 2,
       [Submitted (one_record [97]) 0, Submitted (one_record [98, 99]) 1, TicketOk 0, TicketOk 1, WriterClosed True])"
  by (simp add: write_run_defs push_lines_line push_lines_no_line result_simps)

lemma write_lines_spec_witness:
  "written carries_line [[97], [98, 99]] (Ok 2 :: (unit write_error, u64) outcome)
     [Submitted (one_record [97]) 0, Submitted (one_record [98, 99]) (1 :: nat), TicketOk 0, TicketOk 1, WriterClosed True]"
  using write_lines_spec[OF sample_lines_run] by (simp add: input_lines_def)

lemma sample_bytes_run:
  "write_stream_input (logged_service prompt_service) BufferBytes [Chunk [97, 10], Chunk [98], LingerElapsed, Chunk [99], Interrupted, Chunk [100]] False (0, [])
    = ((Ok 2 :: (unit write_error, u64) outcome), 2,
       [Submitted (one_record [97, 10, 98]) 0, Submitted (one_record [99]) 1, TicketOk 0, TicketOk 1, WriterClosed True])"
  by (simp add: write_run_defs push_byte_chunk.simps result_simps)

lemma write_bytes_spec_witness:
  "\<exists>records. concat records = [97, 10, 98, 99] \<and> written carries_record records (Ok 2 :: (unit write_error, u64) outcome)
     [Submitted (one_record [97, 10, 98]) 0, Submitted (one_record [99]) (1 :: nat), TicketOk 0, TicketOk 1, WriterClosed True]"
  using write_bytes_spec[OF sample_bytes_run] by simp

end
