(* ===== verification/TranscriptRead.thy ===== *)
theory TranscriptRead
  imports TranscriptWrite Reassembly ReadSocket StreamUrl
begin

text \<open>
  \<open>tsf tail\<close> and \<open>tsf replay\<close> (\<open>cli/src/main.rs\<close>): the read options of the arguments, the task that forwards batches, and the output of
  logical records. Standard output is a sink whose writes and flushes may fail; the channel of batches is the
  list of what it delivers, each batch with whether another one was already waiting. Then the
  whole way of a transcript: written line by line, numbered, delivered, reassembled and printed.
\<close>

section \<open>Read options\<close>

record read_args =
  ra_last :: "u64 option"
  ra_seq :: "u64 option"
  ra_since :: "u64 option"
  ra_count :: "u64 option"
  ra_max_reassembly_bytes :: nat

definition or_else :: "'a option \<Rightarrow> 'a option \<Rightarrow> 'a option" where
  "or_else x y = (case x of Some v \<Rightarrow> Some v | None \<Rightarrow> y)"

definition read_args_options :: "'i stream_locator \<Rightarrow> read_args \<Rightarrow> read_start \<Rightarrow> 'i read_options" where
  "read_args_options locator args default_start =
     (let options = read_options_new (sl_stream_id locator);
          options = options\<lparr> ro_start := Some (case or_else (map_option TailOffset (ra_last args))
              (or_else (map_option SeqNum (ra_seq args)) (map_option TimestampMs (ra_since args))) of
                Some start \<Rightarrow> start | None \<Rightarrow> default_start),
            ro_stop := map_option (\<lambda>count. read_stop_default\<lparr> stop_count := Some count \<rparr>) (ra_count args) \<rparr> in
      case link_declaring allows_read locator of
        Some link \<Rightarrow> options\<lparr> ro_link_secret := Some link \<rparr>
      | None \<Rightarrow> options)"

definition require_record_stream :: "'i stream_locator \<Rightarrow> string \<Rightarrow> string + unit" where
  "require_record_stream locator command =
     (if sl_route locator = RouteTerminal then Inl (''`tsf '' @ command @ ''` accepts stream links, not terminal links'') else Inr ())"

definition tail_options :: "'i stream_locator \<Rightarrow> read_args \<Rightarrow> string + 'i read_options" where
  "tail_options locator args = and_then (require_record_stream locator ''tail'') (\<lambda>_. Inr (read_args_options locator args (TailOffset 0)))"

definition replay_options :: "'i stream_locator \<Rightarrow> read_args \<Rightarrow> string + 'i read_options" where
  "replay_options locator args = and_then (require_record_stream locator ''replay'') (\<lambda>_.
     let options = read_args_options locator args (SeqNum 0) in
     Inr (options\<lparr> ro_stop := (case ro_stop options of
         Some stop \<Rightarrow> Some stop
       | None \<Rightarrow> Some (read_stop_default\<lparr> stop_wait_seconds := Some 0 \<rparr>)) \<rparr>))"

section \<open>Output\<close>

record ('e, 's) output_sink =
  os_write_all :: "bytes \<Rightarrow> 's \<Rightarrow> ('e + unit) \<times> 's"
  os_flush :: "'s \<Rightarrow> ('e + unit) \<times> 's"

datatype ('e, 'r) read_error =
    AssemblyFailed logical_record_error
  | EmptyChunk
  | WriteFailed 'e
  | FlushFailed 'e
  | StreamFailed 'r
  | ExitInterrupted

type_synonym ('e, 'r, 's) writing = "(('e, 'r) read_error, unit) outcome \<times> 's"

definition write_all :: "('e, 's) output_sink \<Rightarrow> bytes \<Rightarrow> 's \<Rightarrow> ('e, 'r, 's) writing" where
  "write_all sink data s = (case os_write_all sink data s of (Inl e, s) \<Rightarrow> (Err (WriteFailed e), s) | (Inr _, s) \<Rightarrow> (Ok (), s))"

definition flush_stdout :: "('e, 's) output_sink \<Rightarrow> 's \<Rightarrow> ('e, 'r, 's) writing" where
  "flush_stdout sink s = (case os_flush sink s of (Inl e, s) \<Rightarrow> (Err (FlushFailed e), s) | (Inr _, s) \<Rightarrow> (Ok (), s))"

function write_record_data :: "('e, 's) output_sink \<Rightarrow> logical_record_data \<Rightarrow> 's \<Rightarrow> ('e, 'r, 's) writing" where
  "write_record_data sink d s =
     (if data_remaining d = 0 then (Ok (), s)
      else case data_chunk d of
        Ok chunk \<Rightarrow>
          if chunk = [] then (Err EmptyChunk, s)
          else (case write_all sink chunk s of
              (Ok _, s) \<Rightarrow> (case data_advance (length chunk) d of
                  Ok d \<Rightarrow> write_record_data sink d s
                | _ \<Rightarrow> (Panic, s))
            | stopped \<Rightarrow> stopped)
      | _ \<Rightarrow> (Panic, s))"
  by pat_completeness auto
termination
  by (relation "measure (\<lambda>(sink, d, s). data_remaining d)") (auto dest!: data_advance_remaining)

declare write_record_data.simps [simp del]

definition write_logical_record :: "('e, 's) output_sink \<Rightarrow> stream_kind \<Rightarrow> logical_record \<Rightarrow> 's \<Rightarrow> ('e, 'r, 's) writing" where
  "write_logical_record sink kind l s = (case write_record_data sink (record_data l) s of
       (Ok _, s) \<Rightarrow> if kind = Transcript then write_all sink [10] s else (Ok (), s)
     | stopped \<Rightarrow> stopped)"

fun write_batch_records :: "('e, 's) output_sink \<Rightarrow> stream_kind \<Rightarrow> read_record list \<Rightarrow> assembler \<Rightarrow> 's
    \<Rightarrow> (('e, 'r) read_error, unit) outcome \<times> assembler \<times> 's" where
  "write_batch_records sink kind [] a s = (Ok (), a, s)"
| "write_batch_records sink kind (r # rs) a s =
     (case push_record a r of
        (a, Inl e) \<Rightarrow> (Err (AssemblyFailed e), a, s)
      | (a, Inr None) \<Rightarrow> write_batch_records sink kind rs a s
      | (a, Inr (Some l)) \<Rightarrow>
          (case write_logical_record sink kind l s of
             (Ok _, s) \<Rightarrow> write_batch_records sink kind rs a s
           | (Err e, s) \<Rightarrow> (Err e, a, s)
           | (Panic, s) \<Rightarrow> (Panic, a, s)))"

text \<open>What the loop receives. After an interrupt it flushes and exits; at the end of the list the channel is closed.\<close>

datatype 'r batch_event = BatchArrived read_batch bool | ReaderFailed 'r | ReadInterrupted

fun write_record_batches :: "('e, 's) output_sink \<Rightarrow> stream_kind \<Rightarrow> 'r batch_event list \<Rightarrow> assembler \<Rightarrow> 's
    \<Rightarrow> (('e, 'r) read_error, unit) outcome \<times> assembler \<times> 's" where
  "write_record_batches sink kind [] a s = (Ok (), a, s)"
| "write_record_batches sink kind (event # events) a s = (case event of
       ReadInterrupted \<Rightarrow> (case flush_stdout sink s of
           (Ok _, s) \<Rightarrow> (Err ExitInterrupted, a, s)
         | (Err e, s) \<Rightarrow> (Err e, a, s)
         | (Panic, s) \<Rightarrow> (Panic, a, s))
     | ReaderFailed e \<Rightarrow> (Err (StreamFailed e), a, s)
     | BatchArrived batch waiting \<Rightarrow>
         (case write_batch_records sink kind (batch_records batch) a s of
            (Ok _, a, s) \<Rightarrow>
              if waiting then write_record_batches sink kind events a s
              else (case flush_stdout sink s of
                  (Ok _, s) \<Rightarrow> write_record_batches sink kind events a s
                | (Err e, s) \<Rightarrow> (Err e, a, s)
                | (Panic, s) \<Rightarrow> (Panic, a, s))
          | stopped \<Rightarrow> stopped))"

text \<open>The task that reads ahead: the batches in order, then the error if there is one. \<open>room\<close> is how many sends succeed before
  the receiver is gone.\<close>

fun forward_read_batches :: "('r + read_batch option) list \<Rightarrow> nat \<Rightarrow> ('r + read_batch) list" where
  "forward_read_batches (Inr (Some batch) # results) (Suc room) = Inr batch # forward_read_batches results room"
| "forward_read_batches (Inl e # results) (Suc room) = [Inl e]"
| "forward_read_batches _ _ = []"

text \<open>\<open>read_transcript\<close> after the reader is connected: the loop, then a flush whatever came of it.\<close>

definition read_transcript :: "('e, 's) output_sink \<Rightarrow> stream_kind \<Rightarrow> 'r batch_event list \<Rightarrow> nat \<Rightarrow> 's
    \<Rightarrow> (string + (('e, 'r) read_error, unit) outcome) \<times> 's" where
  "read_transcript sink kind events max_bytes s =
     (if kind = Terminal then (Inl ''`tsf read` accepts stream links, not terminal links'', s)
      else (case write_record_batches sink kind events (with_max_reassembly_bytes max_bytes) s of
          (Err ExitInterrupted, _, s) \<Rightarrow> (Inr (Err ExitInterrupted), s)
        | (r, _, s) \<Rightarrow> (case flush_stdout sink s of
              (Ok _, s) \<Rightarrow> (Inr r, s)
            | (stopped, s) \<Rightarrow> (Inr stopped, s))))"

section \<open>What is printed\<close>

definition logged_sink :: "('e, 's) output_sink \<Rightarrow> ('e, 's \<times> bytes) output_sink" where
  "logged_sink sink =
     \<lparr> os_write_all = (\<lambda>data (s, out). case os_write_all sink data s of (Inl e, s) \<Rightarrow> (Inl e, s, out) | (Inr _, s) \<Rightarrow> (Inr (), s, out @ data)),
       os_flush = (\<lambda>(s, out). case os_flush sink s of (result, s) \<Rightarrow> (result, s, out)) \<rparr>"

text \<open>The output of a list of results of the assembler, up to its first error.\<close>

definition record_text :: "stream_kind \<Rightarrow> logical_record \<Rightarrow> bytes" where
  "record_text kind l = data_content (record_data l) @ (if kind = Transcript then [10] else [])"

fun rendered :: "stream_kind \<Rightarrow> (logical_record_error + logical_record option) list \<Rightarrow> bytes" where
  "rendered kind (Inr (Some l) # xs) = record_text kind l @ rendered kind xs"
| "rendered kind (Inr None # xs) = rendered kind xs"
| "rendered kind _ = []"

definition prints :: "bytes \<Rightarrow> bytes \<Rightarrow> ('x, unit) outcome \<Rightarrow> bytes \<Rightarrow> bool" where
  "prints out text r out' \<longleftrightarrow> (case r of
       Panic \<Rightarrow> False
     | Err _ \<Rightarrow> prefix out out' \<and> prefix out' (out @ text)
     | Ok _ \<Rightarrow> out' = out @ text)"

lemma prints_Ok [simp]: "prints out text (Ok u) out' \<longleftrightarrow> out' = out @ text"
  and prints_Panic [simp]: "\<not> prints out text Panic out'"
  and prints_Err: "prints out text (Err e) out' \<longleftrightarrow> prefix out out' \<and> prefix out' (out @ text)"
  by (simp_all add: prints_def)

lemma prints_none [simp]: "prints out text (Err e) out"
  by (simp add: prints_Err)

lemma prints_more: "prints out text (Err e) out' \<Longrightarrow> prints out (text @ text') (Err e') out'"
  using prefix_prefix[of out' "out @ text" text'] by (simp add: prints_Err)

lemma prints_append: "prints (out @ text) text' r out' \<Longrightarrow> prints out (text @ text') r out'"
  by (cases r) (simp_all add: prints_Err, metis append_prefixD)

lemma logged_write_all:
  "write_all (logged_sink sink) data (s, out) = ((r :: (('e, 'r) read_error, unit) outcome), s', out') \<Longrightarrow> prints out data r out'"
  by (auto simp: write_all_def logged_sink_def split: prod.splits sum.splits)

lemma logged_flush: "flush_stdout (logged_sink sink) (s, out) = ((r :: (('e, 'r) read_error, unit) outcome), s', out') \<Longrightarrow> out' = out \<and> r \<noteq> Panic"
  by (auto simp: flush_stdout_def logged_sink_def split: prod.splits sum.splits)

lemma write_record_data_prints:
  assumes "write_record_data (logged_sink sink) d (s, out) = ((r :: (('e, 'r) read_error, unit) outcome), s', out')" "wf_data d"
  shows "prints out (data_content d) r out'"
  using assms
proof (induction "data_remaining d" arbitrary: d s out rule: less_induct)
  case less
  show ?case
  proof (cases "data_remaining d = 0")
    case True
    then have "r = Ok () \<and> out' = out" using less.prems(1) by (simp add: write_record_data.simps)
    then show ?thesis using True data_remaining_content[OF less.prems(2)] by simp
  next
    case False
    obtain chunk rest where chunk: "data_chunk d = Ok chunk" "data_content d = chunk @ rest" "chunk = [] \<longrightarrow> data_content d = []"
      using data_chunk_spec[OF less.prems(2)] by blast
    have ne: "chunk \<noteq> []" using chunk(3) False data_remaining_content[OF less.prems(2)] by auto
    obtain r1 s1 out1 where wrote: "write_all (logged_sink sink) chunk (s, out) = ((r1 :: (('e, 'r) read_error, unit) outcome), s1, out1)"
      by (metis prod_cases3)
    obtain d1 where d1: "data_advance (length chunk) d = Ok d1" "wf_data d1" "data_content d1 = rest"
      using data_advance_spec[OF less.prems(2), of "length chunk"] chunk(2) by auto
    note first = logged_write_all[OF wrote]
    show ?thesis
    proof (cases r1)
      case (Ok u)
      then have "write_record_data (logged_sink sink) d1 (s1, out1) = (r, s', out')"
        using less.prems(1) False chunk(1) ne wrote d1(1) by (simp add: write_record_data.simps[of _ d])
      moreover have "data_remaining d1 < data_remaining d" using data_advance_remaining[OF d1(1)] ne by (cases chunk) auto
      ultimately have "prints out1 rest r out'" using less.hyps[of d1 s1 out1] d1 by simp
      then show ?thesis using prints_append[of out chunk rest r out'] first Ok chunk(2) by simp
    next
      case (Err e)
      then have "r = Err e \<and> out' = out1" using less.prems(1) False chunk(1) ne wrote by (auto simp: write_record_data.simps[of _ d])
      then show ?thesis using prints_more[of out chunk e out1 rest e] first Err chunk(2) by simp
    qed (use first in simp)
  qed
qed

lemma write_logical_record_prints:
  assumes "write_logical_record (logged_sink sink) kind l (s, out) = ((r :: (('e, 'r) read_error, unit) outcome), s', out')" "wf_data (record_data l)"
  shows "prints out (record_text kind l) r out'"
proof -
  obtain r1 s1 out1 where data: "write_record_data (logged_sink sink) (record_data l) (s, out) = ((r1 :: (('e, 'r) read_error, unit) outcome), s1, out1)"
    by (metis prod_cases3)
  note first = write_record_data_prints[OF data assms(2)]
  show ?thesis
  proof (cases r1)
    case (Ok u)
    have "prints out1 (if kind = Transcript then [10] else []) r out'"
      using assms(1) data Ok logged_write_all[of sink "[10]" s1 out1 r s' out'] by (auto simp: write_logical_record_def split: if_splits)
    then show ?thesis using prints_append[of out "data_content (record_data l)" _ r out'] first Ok by (simp add: record_text_def)
  next
    case (Err e)
    then have "r = Err e \<and> out' = out1" using assms(1) data by (auto simp: write_logical_record_def)
    then show ?thesis using prints_more[of out "data_content (record_data l)" e out1 _ e] first Err by (simp add: record_text_def)
  qed (use first in simp)
qed

lemma write_batch_records_prints:
  assumes "write_batch_records (logged_sink sink) kind rs a (s, out) = ((r :: (('e, 'r) read_error, unit) outcome), a', s', out')"
    and "wf_assembler H a" "push_records a rs = (b, xs)"
  shows "prints out (rendered kind xs) r out' \<and> (r = Ok u \<longrightarrow> a' = b \<and> list_all (\<lambda>x. \<not> isl x) xs)"
  using assms
proof (induction rs arbitrary: a s out xs H)
  case Nil
  then show ?case by auto
next
  case (Cons r0 rs)
  obtain a1 x where push: "push_record a r0 = (a1, x)" by force
  obtain ys where ys: "push_records a1 rs = (b, ys)" "xs = x # ys" using Cons.prems(3) push by (auto split: prod.splits)
  from push_record_inv[OF Cons.prems(2), of r0] push
  have wf1: "wf_assembler (insert r0 H) a1" and good: "\<And>l. x = Inr (Some l) \<Longrightarrow> wf_data (record_data l)"
    by (auto simp: assembled_def)
  consider (error) e where "x = Inl e" | (nothing) "x = Inr None" | (some) l where "x = Inr (Some l)"
    by (metis old.sum.exhaust option.exhaust)
  then show ?case
  proof cases
    case error
    then show ?thesis using Cons.prems(1) push ys(2) by (auto simp: prints_Err)
  next
    case nothing
    then show ?thesis using Cons.IH[OF _ wf1 ys(1), of s out] Cons.prems(1) push ys(2) by auto
  next
    case some
    obtain r1 s1 out1 where wrote: "write_logical_record (logged_sink sink) kind l (s, out) = ((r1 :: (('e, 'r) read_error, unit) outcome), s1, out1)"
      by (metis prod_cases3)
    note first = write_logical_record_prints[OF wrote good[OF some]]
    show ?thesis
    proof (cases r1)
      case (Ok v)
      then have "write_batch_records (logged_sink sink) kind rs a1 (s1, out1) = (r, a', s', out')"
        using Cons.prems(1) push some wrote by simp
      from Cons.IH[OF this wf1 ys(1)] show ?thesis using prints_append[of out "record_text kind l" "rendered kind ys" r out'] first Ok some ys(2) by simp
    next
      case (Err e)
      then have "r = Err e \<and> out' = out1" using Cons.prems(1) push some wrote by auto
      then show ?thesis using prints_more[of out "record_text kind l" e out1 "rendered kind ys" e] first Err some ys(2) by simp
    qed (use first in simp)
  qed
qed

text \<open>The records that arrive before the reader fails or the user interrupts.\<close>

fun arrived :: "'r batch_event list \<Rightarrow> read_record list" where
  "arrived (BatchArrived batch _ # events) = batch_records batch @ arrived events"
| "arrived _ = []"

lemma push_records_append:
  "push_records a (rs @ rs') = (case push_records a rs of (a, xs) \<Rightarrow> case push_records a rs' of (a, ys) \<Rightarrow> (a, xs @ ys))"
  by (induction rs arbitrary: a) (auto split: prod.splits)

lemma rendered_append: "list_all (\<lambda>x. \<not> isl x) xs \<Longrightarrow> rendered kind (xs @ ys) = rendered kind xs @ rendered kind ys"
  by (induction kind xs rule: rendered.induct) auto

lemma rendered_prefix: "prefix (rendered kind xs) (rendered kind (xs @ ys))"
  by (induction kind xs rule: rendered.induct) auto

lemma write_batches_print:
  assumes "write_record_batches (logged_sink sink) kind events a (s, out) = ((r :: (('e, 'r) read_error, unit) outcome), a', s', out')"
    and "wf_assembler H a" "push_records a (arrived events) = (b, xs)"
  shows "prints out (rendered kind xs) r out' \<and> (r = Ok u \<longrightarrow> list_all (\<lambda>x. \<not> isl x) xs)"
  using assms
proof (induction events arbitrary: a s out xs H)
  case Nil
  then show ?case by auto
next
  case (Cons event events)
  show ?case
  proof (cases "\<exists>batch waiting. event = BatchArrived batch waiting")
    case False
    then have "(\<exists>e. r = Err e) \<and> out' = out"
      using Cons.prems(1) logged_flush[of sink s out]
      by (cases event) (auto split: prod.splits outcome.splits)
    then show ?thesis by auto
  next
    case True
    then obtain batch waiting where event: "event = BatchArrived batch waiting" by blast
    obtain b1 ys where ys: "push_records a (batch_records batch) = (b1, ys)" by force
    obtain zs where zs: "push_records b1 (arrived events) = (b, zs)" "xs = ys @ zs"
      using Cons.prems(3) ys event by (auto simp: push_records_append split: prod.splits)
    have wf1: "wf_assembler (H \<union> set (batch_records batch)) b1" using push_records_inv[OF Cons.prems(2) ys] by blast
    obtain r1 a1 s1 out1 where wrote: "write_batch_records (logged_sink sink) kind (batch_records batch) a (s, out)
        = ((r1 :: (('e, 'r) read_error, unit) outcome), a1, s1, out1)"
      by (metis prod_cases4)
    note first = write_batch_records_prints[OF wrote Cons.prems(2) ys]
    show ?thesis
    proof (cases r1)
      case (Ok v)
      then have a1: "a1 = b1" "list_all (\<lambda>x. \<not> isl x) ys" using first by blast+
      obtain r2 s2 out2 where flush: "(if waiting then (Ok (), s1, out1) else flush_stdout (logged_sink sink) (s1, out1))
          = ((r2 :: (('e, 'r) read_error, unit) outcome), s2, out2)"
        by (metis prod_cases3)
      then have out2: "out2 = out1 \<and> r2 \<noteq> Panic" using logged_flush[of sink s1 out1 r2 s2 out2] by (auto split: if_splits)
      show ?thesis
      proof (cases r2)
        case (Ok w)
        then have "write_record_batches (logged_sink sink) kind events b1 (s2, out2) = (r, a', s', out')"
          using Cons.prems(1) event wrote \<open>r1 = Ok v\<close> flush a1 by (auto split: if_splits)
        from Cons.IH[OF this wf1 zs(1)] show ?thesis
          using prints_append[of out "rendered kind ys" "rendered kind zs" r out'] first \<open>r1 = Ok v\<close> out2 a1 zs(2) by (simp add: rendered_append)
      next
        case (Err e)
        then have "r = Err e \<and> out' = out2" using Cons.prems(1) event wrote \<open>r1 = Ok v\<close> flush by (auto split: if_splits)
        then show ?thesis using first \<open>r1 = Ok v\<close> out2 a1 zs(2) by (simp add: prints_Err rendered_append)
      qed (use out2 in simp)
    next
      case (Err e)
      then have "r = Err e \<and> out' = out1" using Cons.prems(1) event wrote by auto
      moreover obtain left where "rendered kind (ys @ zs) = rendered kind ys @ left" using rendered_prefix[of kind ys zs] by (auto simp: prefix_def)
      ultimately show ?thesis using prints_more[of out "rendered kind ys" e out1 left e] first Err zs(2) by simp
    qed (use first in simp)
  qed
qed

lemma read_transcript_prints:
  assumes "read_transcript (logged_sink sink) kind events max_bytes (s, []) = ((result :: string + (('e, 'r) read_error, unit) outcome), s', out)"
    and "max_bytes < usize_max" "push_records (with_max_reassembly_bytes max_bytes) (arrived events) = (b, xs)"
  shows "case result of
      Inl _ \<Rightarrow> kind = Terminal \<and> out = []
    | Inr r \<Rightarrow> prints [] (rendered kind xs) r out \<and> (r = Ok u \<longrightarrow> list_all (\<lambda>x. \<not> isl x) xs)"
proof (cases "kind = Terminal")
  case True
  then show ?thesis using assms(1) by (auto simp: read_transcript_def)
next
  case False
  obtain r1 a1 s1 out1 where loop: "write_record_batches (logged_sink sink) kind events (with_max_reassembly_bytes max_bytes) (s, [])
      = ((r1 :: (('e, 'r) read_error, unit) outcome), a1, s1, out1)"
    by (metis prod_cases4)
  note printed = write_batches_print[OF loop wf_assembler_initial[OF assms(2)] assms(3), of u]
  obtain r2 s2 out2 where flush: "flush_stdout (logged_sink sink) (s1, out1) = ((r2 :: (('e, 'r) read_error, unit) outcome), s2, out2)"
    by (metis prod_cases3)
  note flushed = logged_flush[OF flush]
  show ?thesis
  proof (cases "r1 = Err ExitInterrupted")
    case True
    then have "result = Inr r1 \<and> out = out1" using assms(1) False loop by (auto simp: read_transcript_def)
    then show ?thesis using printed by auto
  next
    case not_exit: False
    then have "(result, s', out) = (case (r2, s2, out2) of (Ok _, s) \<Rightarrow> (Inr r1, s) | (stopped, s) \<Rightarrow> (Inr stopped, s))"
      using assms(1) False loop flush by (auto simp: read_transcript_def split: outcome.splits read_error.splits)
    then have "(result = Inr r1 \<or> (\<exists>e. result = Inr (Err e))) \<and> out = out1" using flushed by (cases r2) auto
    moreover have "prints [] (rendered kind xs) (Err e) out1" for e :: "('e, 'r) read_error"
      using printed by (cases r1) (auto simp: prints_Err)
    ultimately show ?thesis using printed by auto
  qed
qed

text \<open>C26: \<open>tsf tail\<close> and \<open>tsf replay\<close> print the logical records that the records arriving stand for, in order, each with a line feed in a
  transcript: exactly when they succeed, and otherwise the beginning of that; the chunk-by-chunk output neither panics nor
  repeats or drops a byte, wherever writing stops.\<close>

theorem read_prints_logical_records:
  assumes "read_transcript (logged_sink sink) kind events max_bytes (s, []) = ((result :: string + (('e, 'r) read_error, unit) outcome), s', out)"
    and "max_bytes < usize_max" "push_records (with_max_reassembly_bytes max_bytes) (arrived events) = (b, xs)"
  shows "case result of
      Inl _ \<Rightarrow> kind = Terminal \<and> out = []
    | Inr r \<Rightarrow> prints [] (rendered kind xs) r out \<and> (r = Ok u \<longrightarrow> list_all (\<lambda>x. \<not> isl x) xs)"
  by (rule read_transcript_prints[OF assms])

section \<open>From input to output\<close>

text \<open>The records of submitted batches under the consecutive numbers the writer gives them.\<close>

definition sequenced :: "nat \<Rightarrow> append_batch list \<Rightarrow> append_record list" where
  "sequenced start batches = map (\<lambda>(n, p). \<lparr> ar_writer_seq_num = of_nat n, ar_part = rp_part p, ar_data = rp_data p \<rparr>)
     (enumerate start (concat (map batch_payloads batches)))"

lemma sequenced_Cons: "sequenced start (batch # batches) = sequenced start [batch] @ sequenced (start + batch_count batch) batches"
  by (simp add: sequenced_def batch_count_def enumerate_append_eq)

text \<open>A writer state between two logical records: nothing pending, nothing accounted, every number so far below \<open>n\<close>.\<close>

definition between :: "nat \<Rightarrow> writer_state \<Rightarrow> pending_totals \<Rightarrow> bool" where
  "between n w t \<longleftrightarrow> pending w = None \<and> t_bytes t = 0 \<and> t_parts t = 0 \<and> (\<forall>h. highest_seq w = Some h \<longrightarrow> unat h < n)"

lemma push_to_writer_delivers:
  assumes "push_to_writer mx w t r = (w', t', Inr (Some l))"
  shows "pending w' = None \<and> highest_seq w' = Some (rr_writer_seq_num r)"
proof -
  have clear: "pending (fst (clear_pending v u)) = None \<and> highest_seq (fst (clear_pending v u)) = highest_seq v" for v u
    by (simp add: clear_pending_def take_pending_def split: option.split)
  show ?thesis
    using assms clear[of "w\<lparr>highest_seq := Some (rr_writer_seq_num r)\<rparr>" t]
    by (auto simp: push_to_writer_def push_first_part_def push_next_part_def take_pending_def Let_def
        split: prod.splits sum.splits option.splits if_splits)
qed

lemma push_run_delivers:
  assumes "push_run mx w t (ds @ [d]) = (w', t', xs)" "xs \<noteq> []" "last xs = Inr (Some l)"
  shows "pending w' = None \<and> highest_seq w' = Some (rr_writer_seq_num d)"
  using assms
proof (induction ds arbitrary: w t xs)
  case Nil
  then show ?case using push_to_writer_delivers by (auto split: prod.splits)
next
  case (Cons d0 ds)
  then obtain w1 t1 x ys where "push_run mx w1 t1 (ds @ [d]) = (w', t', ys)" "xs = x # ys"
    by (auto split: prod.splits)
  moreover have "ys \<noteq> []" using calculation(1) by (cases ds) (auto split: prod.splits)
  ultimately show ?case using Cons.IH Cons.prems(3) by auto
qed

lemma push_run_accounted:
  assumes "push_run mx w t rs = (w', t', xs)" "accounted mx B P w t" "wf_writer H wid w" "\<forall>r \<in> set rs. r \<in> H \<and> rr_writer_id r = wid"
  shows "accounted mx B P w' t'"
  using assms
proof (induction rs arbitrary: w t xs)
  case Nil
  then show ?case by simp
next
  case (Cons r rs)
  obtain w1 t1 x where push: "push_to_writer mx w t r = (w1, t1, x)" by (metis prod_cases3)
  have "good_step H wid mx B P (w1, t1, x)" using push_to_writer_good[OF Cons.prems(2,3), of r] Cons.prems(4) push by simp
  then show ?case using Cons push by (auto simp: good_step_def split: prod.splits)
qed

text \<open>One line: its records deliver it, and leave the writer between records again.\<close>

lemma push_run_line:
  assumes "carries_line line batch" "list_all2 (delivers wid) (sequenced n [batch]) ds"
    and "between n w t" "n + batch_count batch \<le> 2 ^ 64" "length line \<le> mx" "mx < usize_max"
    and "batch_count batch \<le> MAX_RECORD_TOTAL_PENDING_PARTS"
  shows "\<exists>w' t' d. push_run mx w t ds = (w', t', replicate (batch_count batch - 1) (Inr None) @ [Inr (Some (LogicalRecord d))])
    \<and> data_content d = line \<and> between (n + batch_count batch) w' t'"
proof -
  obtain ps where ps: "batch = AppendBatch ps" "split_of line ps"
    using assms(1) split_record_payloads_cases[of line, where 'j = unit]
    by (auto simp: carries_line_def split_logical_def and_then_eq_Inr append_batch_from_records_Inr)
  have count: "batch_count batch = length ps" using ps by (simp add: batch_count_def)
  have len: "length ds = length ps" using assms(2) ps by (auto simp: sequenced_def dest!: list_all2_lengthD)
  have ne: "ps \<noteq> []" using ps by (simp add: split_of_def)
  have small: "unat (of_nat (n + i) :: u64) = n + i" if "i < length ps" for i
    using that assms(4) count by (simp add: unat_of_nat del: of_nat_add)
  have ds: "rr_writer_id (ds ! i) = wid" "unat (rr_writer_seq_num (ds ! i)) = n + i"
      "rr_part (ds ! i) = rp_part (ps ! i)" "rr_data (ds ! i) = rp_data (ps ! i)" if "i < length ps" for i
  proof -
    have "delivers wid (sequenced n [batch] ! i) (ds ! i)" using list_all2_nthD2[OF assms(2), of i] len that by simp
    moreover have "sequenced n [batch] ! i = \<lparr> ar_writer_seq_num = of_nat (n + i), ar_part = rp_part (ps ! i), ar_data = rp_data (ps ! i) \<rparr>"
      using that ps by (simp add: sequenced_def nth_enumerate_eq)
    ultimately show "rr_writer_id (ds ! i) = wid" "unat (rr_writer_seq_num (ds ! i)) = n + i"
      "rr_part (ds ! i) = rp_part (ps ! i)" "rr_data (ds ! i) = rp_data (ps ! i)"
      using small[OF that] by (simp_all add: delivers_def)
  qed
  have start: "unat (of_nat n :: u64) = n" using small[of 0] ne by (cases ps) simp_all
  have nth: "\<forall>i < length ds. nth_part wid (of_nat n) (length ds) i (ds ! i)"
    using ds ps(2) start by (simp add: nth_part_def len split_of_def)
  have "map rr_data ds = map rp_data ps" using ds(4) len by (simp add: list_eq_iff_nth_eq)
  then have data: "concat (map rr_data ds) = line" using ps(2) by (simp add: split_of_def)
  have one: "length ds = 1 \<longrightarrow> rr_part (hd ds) = unsplit"
  proof
    assume "length ds = 1"
    then have "nth_part wid (of_nat n) 1 0 (hd ds)" using nth by (cases ds) auto
    then show "rr_part (hd ds) = unsplit" by (intro part_zero_final) (simp_all add: nth_part_def word_unat_eq_iff)
  qed
  have acc: "accounted mx 0 0 w t" using assms(3,6) by (simp add: between_def accounted_def pend_len_def pend_parts_def)
  have old: "\<forall>h. highest_seq w = Some h \<longrightarrow> h < of_nat n" using assms(3) start by (auto simp: between_def word_less_nat_alt)
  have "sum_list (map (length \<circ> rr_data) ds) = length line" by (simp add: data[symmetric] length_concat o_def)
  then obtain w' t' d where run: "push_run mx w t ds = (w', t', replicate (length ds - 1) (Inr None) @ [Inr (Some (LogicalRecord d))])"
      "data_content d = concat (map rr_data ds)"
    using push_run_all[OF nth _ old acc _ _ one] assms(5,7) count len ne by fastforce
  obtain front where front: "ds = front @ [last ds]" using len ne by (metis append_butlast_last_id length_0_conv)
  have after: "pending w' = None" "highest_seq w' = Some (rr_writer_seq_num (last ds))"
    using push_run_delivers[of mx w t front "last ds" w' t'] run(1) front by auto
  have "unat (rr_writer_seq_num (last ds)) = n + (length ps - 1)"
    using ds(2)[of "length ps - 1"] len ne by (simp add: last_conv_nth flip: length_greater_0_conv)
  then have below: "unat (rr_writer_seq_num (last ds)) < n + length ps" using ne by (cases ps) simp_all
  have "\<forall>r \<in> set ds. r \<in> set ds \<and> rr_writer_id r = wid" using ds(1) len by (auto simp: in_set_conv_nth)
  then have "accounted mx 0 0 w' t'"
    using push_run_accounted[OF run(1) acc, of "set ds" wid] assms(3) by (simp add: wf_writer_def between_def)
  then have "t_bytes t' = 0" "t_parts t' = 0" using after(1) by (simp_all add: accounted_def pend_len_def pend_parts_def)
  then have "between (n + batch_count batch) w' t'" using after below count by (simp add: between_def)
  then show ?thesis using run data count len by auto
qed

lemma push_run_append:
  "push_run mx w t (rs @ rs') = (case push_run mx w t rs of (w, t, xs) \<Rightarrow> case push_run mx w t rs' of (w, t, ys) \<Rightarrow> (w, t, xs @ ys))"
  by (induction rs arbitrary: w t) (auto split: prod.splits)

lemma rendered_nothing [simp]: "rendered kind (replicate k (Inr None) @ xs) = rendered kind xs"
  by (induction k) auto

lemma delivers_writer: "list_all2 (delivers wid) sent ds \<Longrightarrow> \<forall>r \<in> set ds. rr_writer_id r = wid"
  by (induction rule: list_all2_induct) (auto simp: delivers_def)

lemma push_run_lines:
  assumes "list_all2 carries_line ls batches" "list_all2 (delivers wid) (sequenced n batches) ds"
    and "between n w t" "n + (\<Sum>b \<leftarrow> batches. batch_count b) \<le> 2 ^ 64" "\<forall>line \<in> set ls. length line \<le> mx" "mx < usize_max"
    and "\<forall>b \<in> set batches. batch_count b \<le> MAX_RECORD_TOTAL_PENDING_PARTS"
  shows "\<exists>w' t' xs. push_run mx w t ds = (w', t', xs) \<and> rendered Transcript xs = concat (map (\<lambda>line. line @ [10]) ls)"
  using assms
proof (induction ls batches arbitrary: n w t ds rule: list_all2_induct)
  case Nil
  then show ?case by (auto simp: sequenced_def)
next
  case (Cons line ls batch batches)
  obtain ds1 ds2 where ds: "ds = ds1 @ ds2" "list_all2 (delivers wid) (sequenced n [batch]) ds1"
      "list_all2 (delivers wid) (sequenced (n + batch_count batch) batches) ds2"
    using Cons.prems(1) unfolding sequenced_Cons[of n batch batches] list_all2_append1 by blast
  have bounds: "n + batch_count batch \<le> 2 ^ 64" "length line \<le> mx" "batch_count batch \<le> MAX_RECORD_TOTAL_PENDING_PARTS"
    using Cons.prems(3,4,6) by simp_all
  obtain w1 t1 d where first: "push_run mx w t ds1 = (w1, t1, replicate (batch_count batch - 1) (Inr None) @ [Inr (Some (LogicalRecord d))])"
      "data_content d = line" "between (n + batch_count batch) w1 t1"
    using push_run_line[OF Cons.hyps(1) ds(2) Cons.prems(2) bounds(1,2) Cons.prems(5) bounds(3)] by blast
  have left: "n + batch_count batch + (\<Sum>b \<leftarrow> batches. batch_count b) \<le> 2 ^ 64" "\<forall>line \<in> set ls. length line \<le> mx"
      "\<forall>b \<in> set batches. batch_count b \<le> MAX_RECORD_TOTAL_PENDING_PARTS"
    using Cons.prems(3,4,6) by simp_all
  obtain w2 t2 ys where "push_run mx w1 t1 ds2 = (w2, t2, ys)" "rendered Transcript ys = concat (map (\<lambda>line. line @ [10]) ls)"
    using Cons.IH[OF ds(3) first(3) left(1,2) Cons.prems(5) left(3)] by blast
  then show ?case using first ds(1) by (simp add: push_run_append record_text_def)
qed

text \<open>The text with its last line terminated.\<close>

definition terminated :: "bytes \<Rightarrow> bytes" where
  "terminated input = (if input = [] \<or> last input = 10 then input else input @ [10])"

lemma concat_split_on: "concat (map (\<lambda>line. line @ [b]) (split_on b xs)) = xs @ [b]"
  by (induction xs) (auto split: list.splits)

lemma split_on_one_empty: "split_on b xs = [[]] \<Longrightarrow> xs = []"
  by (cases xs) (auto split: list.splits if_splits)

lemma last_split_on_Nil: "last (split_on b xs) = [] \<longleftrightarrow> xs = [] \<or> last xs = b"
  by (induction xs) (auto split: list.splits dest: split_on_one_empty)

lemma input_lines_terminated: "concat (map (\<lambda>line. line @ [10]) (input_lines input)) = terminated input"
proof -
  obtain front rest where parts: "split_on 10 input = front @ [rest]" by (metis rev_exhaust split_on_not_Nil)
  then have "concat (map (\<lambda>line. line @ [10]) front) @ rest = input"
    using concat_split_on[of 10 input] by simp
  then show ?thesis
    using parts last_split_on_Nil[of 10 input] by (auto simp: input_lines_def terminated_def Let_def)
qed

text \<open>C1: A transcript comes back as it went in: when \<open>tsf write\<close> has reported its lines durable, and the service delivers the records
  submitted, numbered from some start, in any batches, then a reader whose limits the lines respect prints the input, with a last
  line feed where it lacked one; should its output fail, the beginning of that.\<close>

theorem transcript_roundtrip:
  assumes "write_stream_input (logged_service svc) BufferLines events failed (w, []) = ((Ok n :: ('e write_error, u64) outcome), w', calls)"
    and "list_all2 (delivers wid) (sequenced start (submitted calls)) (arrived batches)"
    and "read_transcript (logged_sink sink) Transcript batches max_bytes (v, []) = (Inr (r :: (('f, 'r) read_error, unit) outcome), v', out)"
    and "start + length (arrived batches) \<le> 2 ^ 64" "max_bytes < usize_max"
    and "\<forall>line \<in> set (input_lines (taken_input events)). length line \<le> max_bytes"
    and "\<forall>batch \<in> set (submitted calls). batch_count batch \<le> MAX_RECORD_TOTAL_PENDING_PARTS"
  shows "prints [] (terminated (taken_input events)) r out"
proof -
  let ?lines = "input_lines (taken_input events)" and ?a = "with_max_reassembly_bytes max_bytes"
  have carried: "list_all2 carries_line ?lines (submitted calls)"
    using lines_written[OF assms(1)] by (simp add: written_def)
  have "length (sequenced start (submitted calls)) = (\<Sum>b \<leftarrow> submitted calls. batch_count b)"
    by (simp add: sequenced_def length_concat o_def batch_count_def)
  then have numbers: "start + (\<Sum>b \<leftarrow> submitted calls. batch_count b) \<le> 2 ^ 64" using assms(2,4) by (auto dest!: list_all2_lengthD)
  have idle: "between start writer_state_default (totals ?a)"
    by (simp add: between_def writer_state_default_def with_max_reassembly_bytes_def)
  obtain w1 t1 xs where run: "push_run max_bytes writer_state_default (totals ?a) (arrived batches) = (w1, t1, xs)"
      "rendered Transcript xs = terminated (taken_input events)"
    using push_run_lines[OF carried assms(2) idle numbers assms(6,5,7)] input_lines_terminated by metis
  have "\<exists>b. push_records ?a (arrived batches) = (b, xs)"
  proof (cases "arrived batches = []")
    case True
    then show ?thesis using run(1) by simp
  next
    case False
    have "push_run (max_reassembly_bytes ?a) writer_state_default (totals ?a) (arrived batches) = (w1, t1, xs)"
      using run(1) by (simp add: with_max_reassembly_bytes_def)
    from push_records_one_writer[OF this delivers_writer[OF assms(2)] False] show ?thesis
      by (simp add: with_max_reassembly_bytes_def MAX_RECORD_WRITER_STATES_def)
  qed
  then obtain b where "push_records ?a (arrived batches) = (b, xs)" by blast
  from read_transcript_prints[OF assms(3,5) this] run(2) show ?thesis by simp
qed

text \<open>A session of two lines, written in three chunks, delivered in one batch and printed.\<close>

definition open_sink :: "(unit, nat) output_sink" where
  "open_sink = \<lparr> os_write_all = (\<lambda>_ n. (Inr (), n)), os_flush = (\<lambda>n. (Inr (), n + 1)) \<rparr>"

definition session_meta :: "u64 \<Rightarrow> u32 \<Rightarrow> u32 \<Rightarrow> record_meta" where
  "session_meta n start len = \<lparr> rm_seq_num = n, rm_timestamp_ms = 0, rm_writer_id = WriterId (replicate 16 0), rm_writer_seq_num = n,
     rm_part = unsplit, rm_data_start = start, rm_data_len = len \<rparr>"

definition session_events :: "unit batch_event list" where
  "session_events = [BatchArrived \<lparr> batch_payload = [97, 98, 99], batch_metas = [session_meta 0 0 1, session_meta 1 1 2] \<rparr> False]"

lemma session_arrived:
  "arrived session_events = [
     \<lparr> rr_seq_num = 0, rr_timestamp_ms = 0, rr_writer_id = WriterId (replicate 16 0), rr_writer_seq_num = 0, rr_part = unsplit, rr_data = [97] \<rparr>,
     \<lparr> rr_seq_num = 1, rr_timestamp_ms = 0, rr_writer_id = WriterId (replicate 16 0), rr_writer_seq_num = 1, rr_part = unsplit, rr_data = [98, 99] \<rparr>]"
  by (simp add: session_events_def session_meta_def batch_records_def meta_record_def meta_data_def)

lemmas read_run_defs = session_events_def session_meta_def batch_records_def meta_record_def meta_data_def open_sink_def logged_sink_def
  read_transcript_def write_logical_record_def write_record_data.simps write_all_def flush_stdout_def push_record_def push_to_writer_def
  clear_pending_def take_pending_def writer_state_default_def with_max_reassembly_bytes_def MAX_RECORD_WRITER_STATES_def
  data_remaining_def data_chunk_def data_advance_def

lemma session_printed:
  "read_transcript (logged_sink open_sink) Transcript session_events 100 (0, [])
     = (Inr (Ok () :: ((unit, unit) read_error, unit) outcome), 2, [97, 10, 98, 99, 10])"
  by (simp add: read_run_defs)

lemma session_pushed:
  "\<exists>b. push_records (with_max_reassembly_bytes 100) (arrived session_events)
     = (b, [Inr (Some (LogicalRecord (Borrowed [97]))), Inr (Some (LogicalRecord (Borrowed [98, 99])))])"
  unfolding session_arrived
  by (simp add: push_record_def push_to_writer_def clear_pending_def take_pending_def writer_state_default_def with_max_reassembly_bytes_def
      MAX_RECORD_WRITER_STATES_def)

lemma read_prints_logical_records_witness:
  "prints [] (rendered Transcript [Inr (Some (LogicalRecord (Borrowed [97]))), Inr (Some (LogicalRecord (Borrowed [98, 99])))])
     (Ok () :: ((unit, unit) read_error, unit) outcome) [97, 10, 98, 99, 10]"
proof -
  obtain b where "push_records (with_max_reassembly_bytes 100) (arrived session_events)
     = (b, [Inr (Some (LogicalRecord (Borrowed [97]))), Inr (Some (LogicalRecord (Borrowed [98, 99])))])"
    using session_pushed by blast
  from read_prints_logical_records[OF session_printed _ this] show ?thesis by (simp add: usize_max_def)
qed

lemma transcript_roundtrip_witness:
  "prints [] (terminated [97, 10, 98, 99]) (Ok () :: ((unit, unit) read_error, unit) outcome) [97, 10, 98, 99, 10]"
proof -
  let ?calls = "[Submitted (one_record [97]) 0, Submitted (one_record [98, 99]) (1 :: nat), TicketOk 0, TicketOk 1, WriterClosed True]"
  have delivered: "list_all2 (delivers (WriterId (replicate 16 0))) (sequenced 0 (submitted ?calls)) (arrived session_events)"
    by (simp add: session_arrived sequenced_def delivers_def)
  have "start + length (arrived session_events) \<le> 2 ^ 64" if "start = 0" for start
    using that by (simp add: session_arrived)
  moreover have "\<forall>line \<in> set (input_lines (taken_input [Chunk [97, 10, 98], LingerElapsed, Chunk [99]])). length line \<le> 100"
    by (simp add: input_lines_def)
  moreover have "\<forall>batch \<in> set (submitted ?calls). batch_count batch \<le> MAX_RECORD_TOTAL_PENDING_PARTS"
    by (simp add: batch_count_def MAX_RECORD_TOTAL_PENDING_PARTS_def)
  ultimately show ?thesis
    using transcript_roundtrip[OF sample_lines_run delivered session_printed] by (simp add: usize_max_def)
qed

end
