(* ===== verification/CliArguments.thy ===== *)
theory CliArguments
  imports StreamUrl RestClient
begin

text \<open>
  The arguments of the \<open>tsf\<close> commands (\<open>cli/src/main.rs\<close>): the values clap parses with \<open>FromStr\<close>, the links a new
  stream is created with, and the cache that spaces the automatic update checks. The duration and timestamp
  parsers, the clock, the file system and the JSON form of the cache are parameters; a \<open>SystemTime\<close> is the
  number of nanoseconds since the Unix epoch, with the range it has on Unix.
\<close>

section \<open>Link arguments\<close>

datatype link_input = LinkInput (link_input_str: rstr)

datatype 'e link_input_error =
    EmptyLinkPath
  | LinkFileUnreadable rstr 'e
  | LinkFileEmpty rstr
  | LinkFileNotOneLine rstr

definition strip_prefix :: "rstr \<Rightarrow> rstr \<Rightarrow> rstr option" where
  "strip_prefix p s = (if take (length p) s = p then Some (drop (length p) s) else None)"

text \<open>\<open>str::lines\<close>: what ends in a newline is a line without it and without a carriage return before it; what
  is left after the last newline is one too, unless it is empty.\<close>

definition strip_cr :: "rstr \<Rightarrow> rstr" where
  "strip_cr line = (if line \<noteq> [] \<and> last line = 13 then butlast line else line)"

definition str_lines :: "rstr \<Rightarrow> rstr list" where
  "str_lines s = (let parts = split_on 10 s in
     map strip_cr (butlast parts) @ (if last parts = [] then [] else [last parts]))"

definition link_input_from_str :: "(rstr \<Rightarrow> 'e + rstr) \<Rightarrow> rstr \<Rightarrow> 'e link_input_error + link_input" where
  "link_input_from_str read_to_string value =
     (case strip_prefix (lit ''@'') value of
        None \<Rightarrow> Inr (LinkInput value)
      | Some path \<Rightarrow>
          if path = [] then Inl EmptyLinkPath
          else and_then (map_err (LinkFileUnreadable path) (read_to_string path)) (\<lambda>link.
            let link = trim_str link in
            if link = [] then Inl (LinkFileEmpty path)
            else if length (str_lines link) \<noteq> 1 then Inl (LinkFileNotOneLine path)
            else Inr (LinkInput link)))"

datatype permission_arg_error = UnknownPermissionArg rstr

definition permission_arg_from_str :: "rstr \<Rightarrow> permission_arg_error + link_permissions" where
  "permission_arg_from_str value =
     (let value = map to_ascii_lowercase value;
          short = (if value = lit ''read'' then lit ''r''
            else if value = lit ''write'' then lit ''w''
            else if value = lit ''read-write'' then lit ''rw''
            else if value = lit ''owner'' then lit ''o''
            else value) in
      map_err (\<lambda>_. UnknownPermissionArg value) (permissions_from_str short))"

record initial_stream_link =
  il_link_id :: link_id
  il_permissions :: link_permissions

datatype initial_link_error = NoPermissionGiven | InvalidInitialLinkId link_id_error | InvalidInitialPermission permission_arg_error

definition initial_link_arg_from_str :: "rstr \<Rightarrow> initial_link_error + initial_stream_link" where
  "initial_link_arg_from_str value =
     and_then (ok_or NoPermissionGiven (split_once 61 value)) (\<lambda>(link_id, permission).
     and_then (map_err InvalidInitialLinkId (link_id_from_str link_id)) (\<lambda>link_id.
     and_then (map_err InvalidInitialPermission (permission_arg_from_str permission)) (\<lambda>permissions.
     Inr \<lparr> il_link_id = link_id, il_permissions = permissions \<rparr>)))"

section \<open>Times\<close>

type_synonym system_time = int

text \<open>\<open>ht_format_rfc3339_seconds\<close> is \<open>None\<close> where the formatter fails, on which \<open>to_string\<close> panics.\<close>

record 'e humantime =
  ht_parse_duration :: "rstr \<Rightarrow> 'e + duration"
  ht_parse_rfc3339 :: "rstr \<Rightarrow> 'e + system_time"
  ht_format_rfc3339_seconds :: "system_time \<Rightarrow> rstr option"

definition nanos :: "nat \<Rightarrow> duration" where "nanos secs = secs * 1000000000"

definition time_checked_add :: "system_time \<Rightarrow> duration \<Rightarrow> system_time option" where
  "time_checked_add t d = (if t + int d < 2 ^ 63 * 1000000000 then Some (t + int d) else None)"

definition time_checked_sub :: "system_time \<Rightarrow> duration \<Rightarrow> system_time option" where
  "time_checked_sub t d = (if - (2 ^ 63) * 1000000000 \<le> t - int d then Some (t - int d) else None)"

definition since_epoch :: "system_time \<Rightarrow> duration option" where
  "since_epoch t = (if t < 0 then None else Some (nat t))"

datatype since_error = RelativeStartTooEarly | NotAStartTime | StartBeforeEpoch | StartTooLarge

definition since_arg_from_str :: "'e humantime \<Rightarrow> system_time \<Rightarrow> rstr \<Rightarrow> since_error + u64" where
  "since_arg_from_str ht now value =
     and_then (case ht_parse_duration ht value of
         Inr duration \<Rightarrow> ok_or RelativeStartTooEarly (time_checked_sub now duration)
       | Inl _ \<Rightarrow> map_err (\<lambda>_. NotAStartTime) (ht_parse_rfc3339 ht value)) (\<lambda>timestamp.
     and_then (ok_or StartBeforeEpoch (since_epoch timestamp)) (\<lambda>since.
     let ms = since div 1000000 in
     if ms < 2 ^ 64 then Inr (of_nat ms) else Inl StartTooLarge))"

datatype 'e duration_error = InvalidDuration string 'e | DurationIsZero string | NotWholeSeconds

definition parse_duration_arg :: "'e humantime \<Rightarrow> rstr \<Rightarrow> string \<Rightarrow> 'e duration_error + duration" where
  "parse_duration_arg ht value what =
     and_then (map_err (InvalidDuration what) (ht_parse_duration ht value)) (\<lambda>duration.
     if duration = 0 then Inl (DurationIsZero what) else Inr duration)"

definition LAST_RFC3339_SECOND :: nat where "LAST_RFC3339_SECOND = 253402300799"

datatype time_error = TimeTooLarge string

definition rfc3339_from_now :: "'e humantime \<Rightarrow> system_time \<Rightarrow> duration \<Rightarrow> string \<Rightarrow> (time_error, rstr) outcome" where
  "rfc3339_from_now ht now duration what =
     (case time_checked_add now duration of
        None \<Rightarrow> Err (TimeTooLarge what)
      | Some expires_at \<Rightarrow>
          (case since_epoch expires_at of
             None \<Rightarrow> Err (TimeTooLarge what)
           | Some unix \<Rightarrow>
               if unix div 1000000000 > LAST_RFC3339_SECOND then Err (TimeTooLarge what)
               else (case ht_format_rfc3339_seconds ht expires_at of Some text \<Rightarrow> Ok text | None \<Rightarrow> Panic)))"

datatype stream_expiry_arg = StreamExpiryArg (expiry_duration: duration)

definition stream_expiry_from_str :: "'e humantime \<Rightarrow> rstr \<Rightarrow> 'e duration_error + stream_expiry_arg" where
  "stream_expiry_from_str ht value =
     and_then (parse_duration_arg ht value ''stream expiry'') (\<lambda>duration.
     if duration mod 1000000000 \<noteq> 0 then Inl NotWholeSeconds else Inr (StreamExpiryArg duration))"

definition expiry_seconds :: "stream_expiry_arg \<Rightarrow> u64" where
  "expiry_seconds e = of_nat (expiry_duration e div 1000000000)"

definition expiry_rfc3339 :: "'e humantime \<Rightarrow> system_time \<Rightarrow> stream_expiry_arg \<Rightarrow> (time_error, rstr) outcome" where
  "expiry_rfc3339 ht now e = rfc3339_from_now ht now (expiry_duration e) ''stream expiry''"

datatype expires_arg = ExpiresNever | ExpiresIn duration

definition expires_from_str :: "'e humantime \<Rightarrow> rstr \<Rightarrow> 'e duration_error + expires_arg" where
  "expires_from_str ht value =
     (if map to_ascii_lowercase value = map to_ascii_lowercase (lit ''never'') then Inr ExpiresNever
      else and_then (parse_duration_arg ht value ''expiry'') (\<lambda>duration. Inr (ExpiresIn duration)))"

definition expires_rfc3339 :: "'e humantime \<Rightarrow> system_time \<Rightarrow> expires_arg \<Rightarrow> (time_error, rstr option) outcome" where
  "expires_rfc3339 ht now e = (case e of
       ExpiresNever \<Rightarrow> Ok None
     | ExpiresIn duration \<Rightarrow> (case rfc3339_from_now ht now duration ''link expiry'' of
           Ok text \<Rightarrow> Ok (Some text) | Err e \<Rightarrow> Err e | Panic \<Rightarrow> Panic))"

section \<open>The links of a new stream\<close>

record new_args =
  na_title :: "stream_title option"
  na_public :: bool
  na_links :: "initial_stream_link list"
  na_expires :: "stream_expiry_arg option"
  na_json :: bool
  na_owner_link_file :: "rstr option"
  na_read_link_file :: "rstr option"
  na_write_link_file :: "rstr option"
  na_bytes :: bool
  na_program :: "rstr list"

definition MAX_INITIAL_STREAM_LINKS :: nat where "MAX_INITIAL_STREAM_LINKS = 3"

datatype new_links_error =
    OwnerIdReserved
  | ReaderIdReserved
  | DefaultIdInvalid link_id_error
  | TooManyInitialLinks
  | RepeatedLinkId
  | NoReadLink
  | NoWriteLink

definition initial_link :: "string \<Rightarrow> link_permissions \<Rightarrow> new_links_error + initial_stream_link" where
  "initial_link link_id permissions =
     and_then (map_err DefaultIdInvalid (link_id_from_str (lit link_id))) (\<lambda>link_id.
     Inr \<lparr> il_link_id = link_id, il_permissions = permissions \<rparr>)"

definition with_owner_link :: "initial_stream_link list \<Rightarrow> new_links_error + initial_stream_link list" where
  "with_owner_link links =
     (if list_ex (\<lambda>link. allows_owner (il_permissions link)) links then Inr links
      else if list_ex (\<lambda>link. link_id_str (il_link_id link) = lit ''owner'') links then Inl OwnerIdReserved
      else and_then (initial_link ''owner'' owner_perm) (\<lambda>link. Inr (link # links)))"

definition with_reader_link :: "visibility \<Rightarrow> initial_stream_link list \<Rightarrow> new_links_error + initial_stream_link list" where
  "with_reader_link visibility links =
     (if \<not> (visibility = Private \<and> \<not> list_ex (\<lambda>link. il_permissions link = read_perm) links) then Inr links
      else if list_ex (\<lambda>link. link_id_str (il_link_id link) = lit ''reader'') links then Inl ReaderIdReserved
      else and_then (initial_link ''reader'' read_perm) (\<lambda>link. Inr (links @ [link])))"

text \<open>\<open>any(|link| !link_ids.insert(..))\<close>.\<close>

fun any_repeated :: "'a set \<Rightarrow> 'a list \<Rightarrow> bool" where
  "any_repeated seen [] = False"
| "any_repeated seen (x # xs) = (x \<in> seen \<or> any_repeated (insert x seen) xs)"

definition new_stream_links :: "new_args \<Rightarrow> visibility \<Rightarrow> new_links_error + initial_stream_link list" where
  "new_stream_links args visibility =
     and_then (with_owner_link (na_links args)) (\<lambda>links.
     and_then (with_reader_link visibility links) (\<lambda>links.
     if length links > MAX_INITIAL_STREAM_LINKS then Inl TooManyInitialLinks
     else if any_repeated {} (map (\<lambda>link. link_id_str (il_link_id link)) links) then Inl RepeatedLinkId
     else if na_read_link_file args \<noteq> None \<and> \<not> list_ex (\<lambda>link. il_permissions link = read_perm) links then Inl NoReadLink
     else if na_write_link_file args \<noteq> None \<and> \<not> list_ex (\<lambda>link. il_permissions link = write_perm) links then Inl NoWriteLink
     else Inr links))"

section \<open>Update checks\<close>

record update_cache =
  uc_last_attempt_at :: u64
  uc_last_success_at :: "u64 option"

definition UPDATE_HINT_RETRY_INTERVAL :: u64 where "UPDATE_HINT_RETRY_INTERVAL = 3600"
definition UPDATE_HINT_SUCCESS_INTERVAL :: u64 where "UPDATE_HINT_SUCCESS_INTERVAL = 86400"

definition abs_diff :: "u64 \<Rightarrow> u64 \<Rightarrow> u64" where
  "abs_diff a b = (if a < b then b - a else a - b)"

definition update_hint_check_is_due :: "update_cache option \<Rightarrow> u64 \<Rightarrow> bool" where
  "update_hint_check_is_due cache now =
     (case cache of
        None \<Rightarrow> True
      | Some cache \<Rightarrow>
          let success_is_current = (case uc_last_success_at cache of
                Some last_success \<Rightarrow> abs_diff last_success now < UPDATE_HINT_SUCCESS_INTERVAL
              | None \<Rightarrow> False) in
          \<not> success_is_current \<and> UPDATE_HINT_RETRY_INTERVAL \<le> abs_diff (uc_last_attempt_at cache) now)"

text \<open>The cache file holds bytes or cannot be read. A write stores what it is given, fails before it changed
  the file, or fails and leaves something else.\<close>

record cache_json =
  cj_parse :: "bytes \<Rightarrow> update_cache option"
  cj_print :: "update_cache \<Rightarrow> bytes option"

type_synonym cache_file = "bytes option"
datatype file_write = WriteStores | WriteFails | WriteDamages cache_file

definition write_update_hint_check_cache :: "cache_json \<Rightarrow> file_write \<Rightarrow> update_cache \<Rightarrow> cache_file \<Rightarrow> bool \<times> cache_file" where
  "write_update_hint_check_cache json w cache file =
     (case cj_print json cache of
        None \<Rightarrow> (False, file)
      | Some value \<Rightarrow> (case w of
            WriteStores \<Rightarrow> (True, Some (value @ lit [CHR 0x0A]))
          | WriteFails \<Rightarrow> (False, file)
          | WriteDamages left \<Rightarrow> (False, left)))"

definition claim_update_hint_check :: "cache_json \<Rightarrow> file_write \<Rightarrow> u64 \<Rightarrow> cache_file \<Rightarrow> update_cache option \<times> cache_file" where
  "claim_update_hint_check json w now file =
     (let previous = Option.bind file (cj_parse json) in
      if \<not> update_hint_check_is_due previous now then (None, file)
      else let cache = \<lparr> uc_last_attempt_at = now, uc_last_success_at = Option.bind previous uc_last_success_at \<rparr> in
        (case write_update_hint_check_cache json w cache file of
           (written, file) \<Rightarrow> (if written then Some cache else None, file)))"

text \<open>One run of \<open>maybe_print_update_hint\<close> after the updater and the clock were found: \<open>update_needed\<close> is what
  the updater says within the timeout. The results: whether the updater was asked, and whether the hint is
  printed.\<close>

record hint_run =
  hn_now :: u64
  hn_claim_write :: file_write
  hn_update_needed :: "bool option"
  hn_success_write :: file_write

definition maybe_print_update_hint :: "cache_json \<Rightarrow> hint_run \<Rightarrow> cache_file \<Rightarrow> (bool \<times> bool) \<times> cache_file" where
  "maybe_print_update_hint json run file =
     (case claim_update_hint_check json (hn_claim_write run) (hn_now run) file of
        (None, file) \<Rightarrow> ((False, False), file)
      | (Some cache, file) \<Rightarrow>
          (case hn_update_needed run of
             None \<Rightarrow> ((True, False), file)
           | Some update_needed \<Rightarrow>
               (case write_update_hint_check_cache json (hn_success_write run) (cache\<lparr> uc_last_success_at := Some (hn_now run) \<rparr>) file of
                  (_, file) \<Rightarrow> ((True, update_needed), file))))"

fun hint_checks :: "cache_json \<Rightarrow> hint_run list \<Rightarrow> cache_file \<Rightarrow> hint_run list" where
  "hint_checks json [] file = []"
| "hint_checks json (run # runs) file =
     (case maybe_print_update_hint json run file of
        ((was_asked, _), file) \<Rightarrow> (if was_asked then [run] else []) @ hint_checks json runs file)"

section \<open>What the arguments mean\<close>

lemma to_ascii_lowercase_idem [simp]: "to_ascii_lowercase (to_ascii_lowercase b) = to_ascii_lowercase b"
  by (auto simp: to_ascii_lowercase_def in_range_def word_le_nat_alt unat_word_ariths)

definition permission_names :: "(string \<times> link_permissions) list" where
  "permission_names = [(''read'', read_perm), (''write'', write_perm), (''read-write'', read_write_perm), (''owner'', owner_perm)]
     @ parsed_permissions"

lemma permission_arg_from_str_iff:
  "permission_arg_from_str value = Inr p
    \<longleftrightarrow> (\<exists>s. map to_ascii_lowercase value = lit s \<and> (s, p) \<in> set permission_names)"
  (is "_ \<longleftrightarrow> ?R (map to_ascii_lowercase value)")
proof -
  define v where "v = map to_ascii_lowercase value"
  have names: "permissions_from_str (lit ''r'') = Inr read_perm" "permissions_from_str (lit ''w'') = Inr write_perm"
    "permissions_from_str (lit ''rw'') = Inr read_write_perm" "permissions_from_str (lit ''o'') = Inr owner_perm"
    by (rule parsed_permissions_ok; simp add: parsed_permissions_def)+
  have distinct: "lit ''read'' \<noteq> lit ''write''" "lit ''read'' \<noteq> lit ''read-write''" "lit ''read'' \<noteq> lit ''owner''"
    "lit ''write'' \<noteq> lit ''read-write''" "lit ''write'' \<noteq> lit ''owner''" "lit ''read-write'' \<noteq> lit ''owner''"
    by (simp_all add: lit_def)
  have long: "\<exists>s. v = lit s \<and> (s, q) \<in> set parsed_permissions \<Longrightarrow> length v \<le> 2" for q
    by (auto simp: parsed_permissions_def lit_def)
  have parsed: "permissions_from_str v = Inr p \<longleftrightarrow> (\<exists>s. v = lit s \<and> (s, p) \<in> set parsed_permissions)"
    using permissions_from_str_parsed[of v p] parsed_permissions_ok[of _ p] by blast
  have arg: "permission_arg_from_str value = Inr p \<longleftrightarrow> permissions_from_str (if v = lit ''read'' then lit ''r''
      else if v = lit ''write'' then lit ''w'' else if v = lit ''read-write'' then lit ''rw''
      else if v = lit ''owner'' then lit ''o'' else v) = Inr p"
    unfolding permission_arg_from_str_def v_def[symmetric] Let_def map_err_def by (simp split: sum.split)
  have names_iff: "?R v \<longleftrightarrow> v = lit ''read'' \<and> p = read_perm \<or> v = lit ''write'' \<and> p = write_perm
      \<or> v = lit ''read-write'' \<and> p = read_write_perm \<or> v = lit ''owner'' \<and> p = owner_perm
      \<or> (\<exists>s. v = lit s \<and> (s, p) \<in> set parsed_permissions)"
    unfolding permission_names_def by auto
  have sizes: "length (lit ''read'') = 4" "length (lit ''write'') = 5" "length (lit ''read-write'') = 10" "length (lit ''owner'') = 5"
    by (simp_all add: lit_def)
  have short: "(\<exists>s. v = lit s \<and> (s, p) \<in> set parsed_permissions) = False" if "2 < length v"
    using long[of p] that by auto
  have "permission_arg_from_str value = Inr p \<longleftrightarrow> ?R v"
  proof (cases "v = lit ''read'' \<or> v = lit ''write'' \<or> v = lit ''read-write'' \<or> v = lit ''owner''")
    case True
    then have "2 < length v" using sizes by auto
    with True show ?thesis
      unfolding arg names_iff short[OF \<open>2 < length v\<close>]
      by (elim disjE) (simp_all add: names distinct distinct[symmetric] eq_commute[of p])
  next
    case False
    then show ?thesis unfolding arg names_iff by (simp add: parsed)
  qed
  then show ?thesis by (simp only: v_def)
qed

text \<open>A link read from a file is one line of text.\<close>

lemma split_on_one: "split_on s bs = [f] \<Longrightarrow> bs = f \<and> s \<notin> set bs"
  by (induction bs arbitrary: f) (auto split: list.splits if_splits)

lemma split_on_two: "split_on s bs = [f, []] \<Longrightarrow> bs = f @ [s] \<and> s \<notin> set f"
  by (induction bs arbitrary: f) (auto split: list.splits if_splits dest: split_on_one)

lemma str_lines_single:
  assumes "length (str_lines s) = 1"
  shows "10 \<notin> set (butlast s)"
proof (cases "last (split_on 10 s) = []")
  case True
  with assms have "length (split_on 10 s) = 2"
    by (simp add: str_lines_def Let_def)
  then obtain f g where "split_on 10 s = [f, g]"
    by (auto simp: length_Suc_conv numeral_2_eq_2)
  with True split_on_two show ?thesis by fastforce
next
  case False
  with assms have "length (split_on 10 s) = Suc 0"
    by (simp add: str_lines_def Let_def)
  then obtain f where "split_on 10 s = [f]" by (auto simp: length_Suc_conv)
  then show ?thesis using split_on_one in_set_butlastD by fast
qed

lemma link_input_file_single_line:
  assumes "strip_prefix (lit ''@'') value = Some path" "link_input_from_str read_to_string value = Inr link"
  shows "\<exists>text. read_to_string path = Inr text \<and> link_input_str link = trim_str text \<and> link_input_str link \<noteq> []
    \<and> 10 \<notin> set (butlast (link_input_str link))"
  using assms by (auto simp: link_input_from_str_def Let_def and_then_eq_Inr map_err_def str_lines_single split: if_splits sum.splits)

section \<open>Expiries\<close>

lemma rfc3339_from_now_total:
  assumes "\<And>t. 0 \<le> t \<Longrightarrow> t < int (nanos (LAST_RFC3339_SECOND + 1)) \<Longrightarrow> ht_format_rfc3339_seconds ht t \<noteq> None"
  shows "rfc3339_from_now ht now duration what \<noteq> Panic"
proof -
  have "ht_format_rfc3339_seconds ht t \<noteq> None" if "since_epoch t = Some unix" "\<not> unix div 1000000000 > LAST_RFC3339_SECOND" for t unix
  proof (rule assms)
    show "0 \<le> t" using that(1) by (auto simp: since_epoch_def split: if_splits)
    have "unix < nanos (LAST_RFC3339_SECOND + 1)"
      using that(2) by (simp add: nanos_def LAST_RFC3339_SECOND_def div_less_iff_less_mult)
    moreover have "t = int unix" using that(1) by (auto simp: since_epoch_def split: if_splits)
    ultimately show "t < int (nanos (LAST_RFC3339_SECOND + 1))" by simp
  qed
  then have "\<forall>t unix. since_epoch t = Some unix \<longrightarrow> \<not> unix div 1000000000 > LAST_RFC3339_SECOND \<longrightarrow> ht_format_rfc3339_seconds ht t \<noteq> None"
    by blast
  then show ?thesis
    unfolding rfc3339_from_now_def by (simp split: option.splits) (metis option.distinct(1))
qed

lemma stream_expiry_whole_seconds:
  "stream_expiry_from_str ht value = Inr e \<Longrightarrow> 0 < expiry_duration e \<and> expiry_duration e mod 1000000000 = 0"
  by (auto simp: stream_expiry_from_str_def parse_duration_arg_def and_then_eq_Inr split: if_splits)

section \<open>Links of a new stream\<close>

lemma any_repeated_iff: "any_repeated seen xs \<longleftrightarrow> \<not> distinct xs \<or> set xs \<inter> seen \<noteq> {}"
  by (induction xs arbitrary: seen) auto

lemma default_ids:
  "link_id_from_str (lit ''owner'') = Inr (LinkId (lit ''owner''))"
  "link_id_from_str (lit ''reader'') = Inr (LinkId (lit ''reader''))"
  by (simp_all add: link_id_from_str_def MAX_LINK_ID_LEN_def is_segment_def is_ascii_lowercase_def is_ascii_digit_def
      in_range_def lit_def)

definition default_owner :: "initial_stream_link list \<Rightarrow> initial_stream_link list" where
  "default_owner links = (if \<exists>link \<in> set links. allows_owner (il_permissions link) then []
     else [\<lparr> il_link_id = LinkId (lit ''owner''), il_permissions = owner_perm \<rparr>])"

definition default_reader :: "visibility \<Rightarrow> initial_stream_link list \<Rightarrow> initial_stream_link list" where
  "default_reader visibility links = (if visibility = Public \<or> (\<exists>link \<in> set links. il_permissions link = read_perm) then []
     else [\<lparr> il_link_id = LinkId (lit ''reader''), il_permissions = read_perm \<rparr>])"

lemma owner_not_read: "owner_perm \<noteq> read_perm"
  by (simp add: owner_perm_def read_perm_def OWNER_def READ_def)

lemma link_id_str_eq: "link_id_str l = s \<longleftrightarrow> LinkId s = l"
  by (cases l) auto

lemma with_owner_link_eq:
  "with_owner_link links = (if default_owner links \<noteq> [] \<and> LinkId (lit ''owner'') \<in> il_link_id ` set links then Inl OwnerIdReserved
     else Inr (default_owner links @ links))"
  by (auto simp: with_owner_link_def default_owner_def list_ex_iff initial_link_def default_ids link_id_str_eq image_iff)

lemma with_reader_link_eq:
  "with_reader_link visibility links =
     (if default_reader visibility links \<noteq> [] \<and> LinkId (lit ''reader'') \<in> il_link_id ` set links then Inl ReaderIdReserved
      else Inr (links @ default_reader visibility links))"
  by (cases visibility) (auto simp: with_reader_link_def default_reader_def list_ex_iff initial_link_def default_ids link_id_str_eq image_iff)

lemma default_reader_owner: "default_reader visibility (default_owner links @ links) = default_reader visibility links"
  by (auto simp: default_reader_def default_owner_def owner_not_read)

definition requested_links :: "visibility \<Rightarrow> initial_stream_link list \<Rightarrow> initial_stream_link list" where
  "requested_links visibility links = default_owner links @ links @ default_reader visibility links"

lemma reserved_ids_clash:
  assumes "with_owner_link links = Inl e \<or> with_reader_link visibility (default_owner links @ links) = Inl e"
  shows "\<not> distinct (map il_link_id (requested_links visibility links))"
  using assms
proof
  assume "with_owner_link links = Inl e"
  then have "default_owner links \<noteq> []" "LinkId (lit ''owner'') \<in> il_link_id ` set links"
    by (auto simp: with_owner_link_eq split: if_splits)
  then show ?thesis by (simp add: requested_links_def default_owner_def split: if_splits)
next
  assume "with_reader_link visibility (default_owner links @ links) = Inl e"
  then have "default_reader visibility links \<noteq> []" "LinkId (lit ''reader'') \<in> il_link_id ` set (default_owner links @ links)"
    by (auto simp: with_reader_link_eq default_reader_owner split: if_splits)
  then show ?thesis by (auto simp add: requested_links_def default_reader_def split: if_splits)
qed

lemma with_defaults:
  "and_then (with_owner_link links) (\<lambda>links. and_then (with_reader_link visibility links) f)
    = (case with_owner_link links of Inl e \<Rightarrow> Inl e | Inr _ \<Rightarrow>
        (case with_reader_link visibility (default_owner links @ links) of Inl e \<Rightarrow> Inl e | Inr _ \<Rightarrow> f (requested_links visibility links)))"
  by (simp add: with_owner_link_eq with_reader_link_eq default_reader_owner requested_links_def)

lemma distinct_link_ids:
  "distinct (map (\<lambda>link. link_id_str (il_link_id link)) links) \<longleftrightarrow> distinct (map il_link_id links)"
  by (induction links) (auto simp: image_iff link_id_str_eq)

lemma list_ex_permission: "list_ex (\<lambda>link. il_permissions link = p) links \<longleftrightarrow> p \<in> il_permissions ` set links"
  by (induction links) auto

lemma new_links_Inr:
  assumes "new_stream_links args visibility = Inr links"
  shows "links = requested_links visibility (na_links args)"
    and "na_read_link_file args = None \<or> read_perm \<in> il_permissions ` set links"
    and "na_write_link_file args = None \<or> write_perm \<in> il_permissions ` set links"
  using assms unfolding new_stream_links_def with_defaults list_ex_permission
  by (auto split: sum.splits if_splits)

text \<open>C32: The links a new stream asks for. The call succeeds exactly when the requested links, with an owner link
  in front of them unless one of them is one and, for a private stream, a read-only link behind them unless
  one of them is one, are at most three, have distinct ids, and hold the link of every file that is asked
  for; these are then the links of the request, the requested ones in their order.\<close>

theorem new_stream_links_iff:
  "new_stream_links args visibility = Inr links \<longleftrightarrow>
     links = requested_links visibility (na_links args)
     \<and> length links \<le> 3 \<and> distinct (map il_link_id links)
     \<and> (na_read_link_file args = None \<or> read_perm \<in> il_permissions ` set links)
     \<and> (na_write_link_file args = None \<or> write_perm \<in> il_permissions ` set links)"
proof (cases "\<exists>e. with_owner_link (na_links args) = Inl e
    \<or> with_reader_link visibility (default_owner (na_links args) @ na_links args) = Inl e")
  case True
  then have "new_stream_links args visibility \<noteq> Inr links"
    unfolding new_stream_links_def with_defaults by (auto split: sum.splits)
  moreover have "\<not> distinct (map il_link_id (requested_links visibility (na_links args)))"
    using True reserved_ids_clash by blast
  ultimately show ?thesis by blast
next
  case False
  then obtain a b where "with_owner_link (na_links args) = Inr a"
    "with_reader_link visibility (default_owner (na_links args) @ na_links args) = Inr b"
    by (metis sum.exhaust)
  then show ?thesis
    unfolding new_stream_links_def with_defaults MAX_INITIAL_STREAM_LINKS_def any_repeated_iff distinct_link_ids list_ex_permission
    by auto
qed

section \<open>Spacing of update checks\<close>

definition cache_codec :: "cache_json \<Rightarrow> bool" where
  "cache_codec json \<longleftrightarrow> (\<forall>cache. \<exists>value. cj_print json cache = Some value \<and> cj_parse json (value @ lit [CHR 0x0A]) = Some cache)"

definition undamaged :: "hint_run \<Rightarrow> bool" where
  "undamaged run \<longleftrightarrow> hn_claim_write run \<in> {WriteStores, WriteFails} \<and> hn_success_write run \<in> {WriteStores, WriteFails}"

text \<open>Whether the updater answered and the answer was recorded.\<close>

definition recorded :: "hint_run \<Rightarrow> bool" where
  "recorded run \<longleftrightarrow> hn_update_needed run \<noteq> None \<and> hn_success_write run = WriteStores"

abbreviation hint_time :: "hint_run \<Rightarrow> nat" where "hint_time run \<equiv> unat (hn_now run)"

definition spaced :: "hint_run \<Rightarrow> hint_run \<Rightarrow> bool" where
  "spaced a b \<longleftrightarrow> hint_time a + 3600 \<le> hint_time b \<and> (recorded a \<longrightarrow> hint_time a + 86400 \<le> hint_time b)"

text \<open>The earliest next check the file allows.\<close>

definition earliest :: "cache_json \<Rightarrow> cache_file \<Rightarrow> nat" where
  "earliest json file = (case Option.bind file (cj_parse json) of
       None \<Rightarrow> 0
     | Some cache \<Rightarrow> max (unat (uc_last_attempt_at cache) + 3600)
         (case uc_last_success_at cache of Some s \<Rightarrow> unat s + 86400 | None \<Rightarrow> 0))"

definition recorded_before :: "cache_json \<Rightarrow> cache_file \<Rightarrow> nat \<Rightarrow> bool" where
  "recorded_before json file t = (case Option.bind file (cj_parse json) of
       None \<Rightarrow> True
     | Some cache \<Rightarrow> unat (uc_last_attempt_at cache) \<le> t
         \<and> (case uc_last_success_at cache of Some s \<Rightarrow> unat s \<le> t | None \<Rightarrow> True))"

lemma abs_diff_unat: "unat (abs_diff a b) = (if unat a < unat b then unat b - unat a else unat a - unat b)"
  by (simp add: abs_diff_def word_less_nat_alt unat_sub word_le_nat_alt)

lemma due_iff:
  assumes "recorded_before json file (unat now)"
  shows "update_hint_check_is_due (Option.bind file (cj_parse json)) now \<longleftrightarrow> earliest json file \<le> unat now"
  using assms
  by (auto simp: update_hint_check_is_due_def earliest_def recorded_before_def Let_def word_less_nat_alt word_le_nat_alt
      abs_diff_unat UPDATE_HINT_RETRY_INTERVAL_def UPDATE_HINT_SUCCESS_INTERVAL_def split: option.splits)

text \<open>One run: without a check the file stays as it is; a check happens no earlier than the file allows, and
  the file then holds the next check back.\<close>

lemma stored_cache:
  assumes "cache_codec json"
  obtains v where "cj_print json cache = Some v" "Option.bind (Some (v @ lit [CHR 0x0A])) (cj_parse json) = Some cache"
  using assms unfolding cache_codec_def by fastforce

lemma hint_run_idle:
  assumes "maybe_print_update_hint json run file = ((False, hint), file')" "undamaged run" "cache_codec json"
  shows "file' = file"
  using assms
  by (auto simp: maybe_print_update_hint_def claim_update_hint_check_def write_update_hint_check_cache_def Let_def undamaged_def
      cache_codec_def split: if_splits option.splits prod.splits file_write.splits)

lemma hint_run_asked:
  assumes "maybe_print_update_hint json run file = ((True, hint), file')" "undamaged run" "cache_codec json"
  shows "update_hint_check_is_due (Option.bind file (cj_parse json)) (hn_now run)"
    "Option.bind file' (cj_parse json) = Some \<lparr> uc_last_attempt_at = hn_now run, uc_last_success_at =
       (if recorded run then Some (hn_now run) else Option.bind (Option.bind file (cj_parse json)) uc_last_success_at) \<rparr>"
proof -
  define cache where "cache = \<lparr> uc_last_attempt_at = hn_now run, uc_last_success_at = Option.bind (Option.bind file (cj_parse json)) uc_last_success_at \<rparr>"
  obtain v where v: "cj_print json cache = Some v" "Option.bind (Some (v @ lit [CHR 0x0A])) (cj_parse json) = Some cache"
    using stored_cache[OF assms(3)] .
  obtain w where w: "cj_print json (cache\<lparr> uc_last_success_at := Some (hn_now run) \<rparr>) = Some w"
      "Option.bind (Some (w @ lit [CHR 0x0A])) (cj_parse json) = Some (cache\<lparr> uc_last_success_at := Some (hn_now run) \<rparr>)"
    using stored_cache[OF assms(3)] .
  have due: "update_hint_check_is_due (Option.bind file (cj_parse json)) (hn_now run)" "hn_claim_write run = WriteStores"
    using assms(1,2) by (auto simp: maybe_print_update_hint_def claim_update_hint_check_def write_update_hint_check_cache_def Let_def
        undamaged_def split: if_splits option.splits prod.splits file_write.splits)
  then have claim: "claim_update_hint_check json (hn_claim_write run) (hn_now run) file = (Some cache, Some (v @ lit [CHR 0x0A]))"
    using v(1) by (simp add: claim_update_hint_check_def write_update_hint_check_cache_def Let_def cache_def)
  have "Option.bind file' (cj_parse json) = Some (if recorded run then cache\<lparr> uc_last_success_at := Some (hn_now run) \<rparr> else cache)"
    using assms(1,2) v(2) w
    by (auto simp: maybe_print_update_hint_def claim write_update_hint_check_cache_def recorded_def undamaged_def split: option.splits)
  then show "Option.bind file' (cj_parse json) = Some \<lparr> uc_last_attempt_at = hn_now run, uc_last_success_at =
       (if recorded run then Some (hn_now run) else Option.bind (Option.bind file (cj_parse json)) uc_last_success_at) \<rparr>"
    by (simp add: cache_def split: if_splits)
  show "update_hint_check_is_due (Option.bind file (cj_parse json)) (hn_now run)" by (rule due(1))
qed

lemma hint_run_effect:
  assumes "cache_codec json" "undamaged run" "recorded_before json file (hint_time run)"
    and run: "maybe_print_update_hint json run file = ((True, hint), file')"
  shows "recorded_before json file' (hint_time run)" "earliest json file \<le> hint_time run"
    "hint_time run + 3600 \<le> earliest json file'" "recorded run \<longrightarrow> hint_time run + 86400 \<le> earliest json file'"
proof -
  note due = hint_run_asked(1)[OF run assms(2,1)] and left = hint_run_asked(2)[OF run assms(2,1)]
  show "earliest json file \<le> hint_time run" using due due_iff[OF assms(3)] by simp
  show "recorded_before json file' (hint_time run)"
    using assms(3) unfolding recorded_before_def left
    by (cases "Option.bind file (cj_parse json)") (auto simp del: Option.bind_assoc split: option.splits if_splits)
  show "hint_time run + 3600 \<le> earliest json file'" "recorded run \<longrightarrow> hint_time run + 86400 \<le> earliest json file'"
    unfolding earliest_def left by simp_all
qed

lemma recorded_before_mono: "recorded_before json file t \<Longrightarrow> t \<le> u \<Longrightarrow> recorded_before json file u"
  by (auto simp: recorded_before_def split: option.splits)

lemma checks_spaced:
  assumes "cache_codec json" "list_all undamaged runs" "sorted (map hint_time runs)"
    and "\<forall>run \<in> set runs. recorded_before json kept (hint_time run)"
  shows "sorted_wrt spaced (hint_checks json runs kept)
    \<and> (\<forall>run \<in> set (hint_checks json runs kept). earliest json kept \<le> hint_time run)"
  using assms(2-4)
proof (induction runs arbitrary: kept)
  case (Cons run runs)
  obtain was_asked hint kept' where step: "maybe_print_update_hint json run kept = ((was_asked, hint), kept')"
    by (metis surj_pair)
  show ?case
  proof (cases was_asked)
    case True
    have was_asked_run: "maybe_print_update_hint json run kept = ((True, hint), kept')"
      using step True by simp
    have "undamaged run" "recorded_before json kept (hint_time run)"
      using Cons.prems by simp_all
    note effect = hint_run_effect[OF assms(1) this was_asked_run]
    have "\<forall>r \<in> set runs. recorded_before json kept' (hint_time r)"
      using effect(1) Cons.prems recorded_before_mono by fastforce
    with Cons have rest: "sorted_wrt spaced (hint_checks json runs kept')"
        "\<forall>r \<in> set (hint_checks json runs kept'). earliest json kept' \<le> hint_time r"
      by simp_all
    have "\<forall>r \<in> set (hint_checks json runs kept'). spaced run r"
      using rest(2) effect(3,4) Cons.prems unfolding spaced_def by fastforce
    with rest effect(2,3) Cons.prems show ?thesis by (fastforce simp: step True)
  next
    case False
    then have "kept' = kept" using hint_run_idle[of json run kept hint kept'] step Cons.prems assms(1) by simp
    with Cons show ?thesis by (simp add: step False)
  qed
qed simp

text \<open>C35: Automatic update checks are spaced. However often commands run, and whichever of the writes of the cache
  fail, as long as a failing write leaves the file as it was and the clock does not go back: between two
  checks there is an hour, and a day after one that was answered and recorded.\<close>

theorem update_checks_are_spaced:
  assumes "cache_codec json" "list_all undamaged runs" "sorted (map hint_time runs)"
  shows "sorted_wrt spaced (hint_checks json runs None)"
  using checks_spaced[OF assms, of None] by (simp add: recorded_before_def)

text \<open>Four runs: the first check is answered, a run an hour later does not ask, one a day later does without an
  answer, and the next asks again an hour after that.\<close>

definition sample_cache_json :: cache_json where
  "sample_cache_json =
     \<lparr> cj_parse = (\<lambda>bs. case bs of
           [] \<Rightarrow> None
         | tag # rest \<Rightarrow> Some \<lparr> uc_last_attempt_at = un_be64 (take 8 rest),
             uc_last_success_at = (if tag = 0 then None else Some (un_be64 (take 8 (drop 8 rest)))) \<rparr>),
       cj_print = (\<lambda>cache. Some (case uc_last_success_at cache of
           None \<Rightarrow> 0 # be64 (uc_last_attempt_at cache)
         | Some s \<Rightarrow> 1 # be64 (uc_last_attempt_at cache) @ be64 s)) \<rparr>"

lemma sample_cache_codec: "cache_codec sample_cache_json"
proof -
  have "\<exists>value. cj_print sample_cache_json cache = Some value \<and> cj_parse sample_cache_json (value @ lit [CHR 0x0A]) = Some cache" for cache
    by (cases cache; cases "uc_last_success_at cache") (simp_all add: sample_cache_json_def)
  then show ?thesis by (simp add: cache_codec_def)
qed

definition sample_hint_run :: "u64 \<Rightarrow> bool option \<Rightarrow> hint_run" where
  "sample_hint_run now needed = \<lparr> hn_now = now, hn_claim_write = WriteStores, hn_update_needed = needed, hn_success_write = WriteStores \<rparr>"

definition sample_hint_runs :: "hint_run list" where
  "sample_hint_runs = [sample_hint_run 100000 (Some False), sample_hint_run 103700 (Some True), sample_hint_run 187000 None,
     sample_hint_run 191000 (Some True)]"

lemma sample_hint_checks:
  "map hn_now (hint_checks sample_cache_json sample_hint_runs None) = [100000, 187000, 191000]"
  by (simp add: sample_hint_runs_def sample_hint_run_def maybe_print_update_hint_def claim_update_hint_check_def
      write_update_hint_check_cache_def update_hint_check_is_due_def abs_diff_def UPDATE_HINT_RETRY_INTERVAL_def
      UPDATE_HINT_SUCCESS_INTERVAL_def sample_cache_json_def)

lemma update_checks_are_spaced_witness:
  "sorted_wrt spaced (hint_checks sample_cache_json sample_hint_runs None)
    \<and> map hn_now (hint_checks sample_cache_json sample_hint_runs None) = [100000, 187000, 191000]"
proof -
  have "list_all undamaged sample_hint_runs" "sorted (map hint_time sample_hint_runs)"
    by (simp_all add: sample_hint_runs_def sample_hint_run_def undamaged_def)
  from update_checks_are_spaced[OF sample_cache_codec this] show ?thesis
    by (simp add: sample_hint_checks)
qed

end
