(* ===== verification/CliCommands.thy ===== *)
theory CliCommands
  imports CliArguments RestLinks "HOL-Library.Multiset"
begin

text \<open>
  The commands of \<open>tsf\<close> that create and manage streams (\<open>cli/src/main.rs\<close>): what they send, what they print and
  the link files they write. A command runs on a world of the service, the files and what was printed so far;
  printing itself does not fail (\<open>println!\<close> panics on a closed pipe). The URL library, the service and the clock
  are parameters, as are the failures of file operations.
\<close>

section \<open>Data\<close>

record stream_link_credential =
  cl_link_id :: link_id
  cl_permissions :: link_permissions
  cl_secret :: link_secret

record 'i create_stream_response =
  cr_stream_id :: 'i
  cr_kind :: stream_kind
  cr_title :: "stream_title option"
  cr_visibility :: visibility
  cr_created_at :: rstr
  cr_expires_at :: rstr
  cr_web_origin :: url
  cr_links :: "stream_link_credential list"

record create_link_response =
  cn_web_origin :: url
  cn_credential :: stream_link_credential

record create_stream_input =
  ci_kind :: stream_kind
  ci_title :: "stream_title option"
  ci_visibility :: visibility
  ci_expires_in_seconds :: "u64 option"
  ci_links :: "initial_stream_link list"

record create_link_input =
  li_link_id :: link_id
  li_permissions :: link_permissions
  li_expires_at :: "rstr option"

datatype stream_title_update = TitleUnchanged | TitleSet stream_title | TitleClear

record update_stream_request =
  us_title :: stream_title_update
  us_visibility :: "visibility option"
  us_expires_at :: "rstr option"

definition update_stream_request_default :: update_stream_request where
  "update_stream_request_default = \<lparr> us_title = TitleUnchanged, us_visibility = None, us_expires_at = None \<rparr>"

text \<open>The JSON bodies the commands send, and the lines and JSON values they print; a \<open>Notice\<close> goes to standard error.\<close>

datatype cli_body = CreateStreamBody create_stream_input | CreateLinkBody create_link_input | UpdateStreamBody update_stream_request

record created_link_output =
  co_link_id :: rstr
  co_permissions :: string
  co_url :: rstr

record created_stream_output =
  cs_stream_id :: rstr
  cs_kind :: string
  cs_title :: "rstr option"
  cs_visibility :: string
  cs_expires_at :: rstr
  cs_links :: "created_link_output list"
  cs_public_url :: "rstr option"

datatype 'i cli_output =
    Line rstr
  | Notice rstr
  | JsonCreatedStream created_stream_output
  | JsonStreamMetadata "'i stream_metadata"
  | JsonCreatedLink created_link_output
  | JsonLinks list_links_response
  | JsonStatus string rstr string

section \<open>Files\<close>

record file_entry =
  fe_contents :: bytes
  fe_mode :: u32

type_synonym files = "rstr \<Rightarrow> file_entry option"

text \<open>Which of the four operations on one file fails; a failing write leaves a prefix of the data.\<close>

record 'e file_faults =
  ff_open :: "'e option"
  ff_set_permissions :: "'e option"
  ff_set_len :: "'e option"
  ff_write :: "(nat \<times> 'e) option"

definition PRIVATE_MODE :: u32 where "PRIVATE_MODE = 0x180"

definition open_private :: "u32 \<Rightarrow> rstr \<Rightarrow> files \<Rightarrow> files" where
  "open_private umask path files = (case files path of
       None \<Rightarrow> files(path \<mapsto> \<lparr> fe_contents = [], fe_mode = PRIVATE_MODE AND NOT umask \<rparr>)
     | Some _ \<Rightarrow> files)"

definition change_file :: "(file_entry \<Rightarrow> file_entry) \<Rightarrow> rstr \<Rightarrow> files \<Rightarrow> files" where
  "change_file change path files = files(path := map_option change (files path))"

text \<open>Writing starts at the beginning of the file and leaves what is behind the data.\<close>

definition overwrite :: "bytes \<Rightarrow> bytes \<Rightarrow> bytes" where
  "overwrite data contents = data @ drop (length data) contents"

text \<open>The file system after every operation, oldest first.\<close>

definition write_private_file :: "u32 \<Rightarrow> 'e file_faults \<Rightarrow> rstr \<Rightarrow> bytes \<Rightarrow> files \<Rightarrow> ('e + unit) \<times> files list" where
  "write_private_file umask faults path data files =
     (case ff_open faults of Some e \<Rightarrow> (Inl e, []) | None \<Rightarrow>
      let opened = open_private umask path files in
      case ff_set_permissions faults of Some e \<Rightarrow> (Inl e, [opened]) | None \<Rightarrow>
      let restricted = change_file (fe_mode_update (\<lambda>_. PRIVATE_MODE)) path opened in
      case ff_set_len faults of Some e \<Rightarrow> (Inl e, [opened, restricted]) | None \<Rightarrow>
      let emptied = change_file (fe_contents_update (\<lambda>_. [])) path restricted in
      case ff_write faults of
        Some (n, e) \<Rightarrow> (Inl e, [opened, restricted, emptied, change_file (fe_contents_update (overwrite (take n data))) path emptied])
      | None \<Rightarrow> (Inr (), [opened, restricted, emptied, change_file (fe_contents_update (overwrite data)) path emptied]))"

section \<open>The world of a command\<close>

record ('i, 's) world =
  w_service :: 's
  w_files :: files
  w_past :: "files list"
  w_out :: "'i cli_output list"

record ('i, 'p, 'd, 'e, 'h) cli_env =
  ce_codec :: "('i, 'p, 'd) url_codec"
  ce_umask :: u32
  ce_faults :: "rstr \<Rightarrow> 'e file_faults"
  ce_humantime :: "'h humantime"
  ce_now :: system_time

datatype ('p, 'd, 'j, 'e) command_error =
    InvalidLink "('p, 'd) stream_link_error"
  | NoOwnerPermission
  | LinkNotBuilt "('p, 'd) stream_link_error"
  | ClientFailed "(url, 'j) client_error"
  | TimeFailed time_error
  | NewLinksFailed new_links_error
  | LinkNotCreated string
  | OwnerLinkNotCreated
  | LinkFileFailed rstr 'e
  | ConfirmationNeedsYes
  | ConfirmationUnread

type_synonym ('w, 'e, 'a) command = "'w \<Rightarrow> ('e, 'a) outcome \<times> 'w"

definition return_ok :: "'a \<Rightarrow> ('w, 'e, 'a) command" where "return_ok a w = (Ok a, w)"

definition fail_with :: "'e \<Rightarrow> ('w, 'e, 'a) command" where "fail_with e w = (Err e, w)"

definition run_then :: "('w, 'e, 'a) command \<Rightarrow> ('a \<Rightarrow> ('w, 'e, 'b) command) \<Rightarrow> ('w, 'e, 'b) command" where
  "run_then c k w = (case c w of (Ok a, w) \<Rightarrow> k a w | (Err e, w) \<Rightarrow> (Err e, w) | (Panic, w) \<Rightarrow> (Panic, w))"

definition lift_result :: "('f \<Rightarrow> 'e) \<Rightarrow> 'f + 'a \<Rightarrow> ('w, 'e, 'a) command" where
  "lift_result f r w = (case r of Inl e \<Rightarrow> (Err (f e), w) | Inr a \<Rightarrow> (Ok a, w))"

definition lift_outcome :: "('f \<Rightarrow> 'e) \<Rightarrow> ('f, 'a) outcome \<Rightarrow> ('w, 'e, 'a) command" where
  "lift_outcome f r w = (case r of Err e \<Rightarrow> (Err (f e), w) | Ok a \<Rightarrow> (Ok a, w) | Panic \<Rightarrow> (Panic, w))"

definition on_service :: "('s \<Rightarrow> ('j, 'r, 's) rest_result) \<Rightarrow> (('i, 's) world, ('p, 'd, 'j, 'e) command_error, 'r) command" where
  "on_service f w = (case f (w_service w) of (r, s, _) \<Rightarrow> lift_outcome ClientFailed r (w\<lparr> w_service := s \<rparr>))"

definition print_out :: "'i cli_output list \<Rightarrow> (('i, 's) world, 'e, unit) command" where
  "print_out out w = (Ok (), w\<lparr> w_out := w_out w @ out \<rparr>)"

definition write_file :: "('i, 'p, 'd, 'e, 'h) cli_env \<Rightarrow> rstr \<Rightarrow> bytes \<Rightarrow> (('i, 's) world, ('p, 'd, 'j, 'e) command_error, unit) command" where
  "write_file env path data w =
     (case write_private_file (ce_umask env) (ce_faults env path) path data (w_files w) of
        (r, states) \<Rightarrow> lift_result (LinkFileFailed path) r
          (w\<lparr> w_past := w_past w @ butlast (w_files w # states), w_files := last (w_files w # states) \<rparr>))"

section \<open>Clients and owner links\<close>

definition client_config_new :: "url \<Rightarrow> (url, 'j) client_error + client_config" where
  "client_config_new api_origin =
     and_then (validate_api_origin api_origin) (\<lambda>_.
     Inr \<lparr> cc_api_origin = api_origin, cc_http_request_timeout = millis 10000, cc_websocket_connect_timeout = millis 10000,
       cc_websocket_progress_timeout = millis 30000, cc_bounded_operation_attempts = 3 \<rparr>)"

text \<open>The client is \<open>base\<close>, the connection the HTTP library provides, with its configuration.\<close>

definition with_config :: "('i, 'b, 's) rest_client \<Rightarrow> client_config \<Rightarrow> (url, 'j) client_error + ('i, 'b, 's) rest_client" where
  "with_config base config = and_then (validate_client_config config) (\<lambda>_. Inr (base\<lparr> tc_config := config \<rparr>))"

definition with_api_origin :: "('i, 'b, 's) rest_client \<Rightarrow> url \<Rightarrow> (url, 'j) client_error + ('i, 'b, 's) rest_client" where
  "with_api_origin base api_origin = and_then (client_config_new api_origin) (with_config base)"

record ('i, 's) owner_access =
  oa_client :: "('i, cli_body, 's) rest_client"
  oa_locator :: "'i stream_locator"
  oa_link_secret :: link_secret

definition owner_resolve :: "('i, 'p, 'd, 'e, 'h) cli_env \<Rightarrow> ('i, cli_body, 's) rest_client \<Rightarrow> url \<Rightarrow> link_input
    \<Rightarrow> ('p, 'd, 'j, 'e) command_error + ('i, 's) owner_access" where
  "owner_resolve env base origin link =
     and_then (map_err InvalidLink (stream_locator_parse (ce_codec env) (link_input_str link))) (\<lambda>locator.
     and_then (ok_or NoOwnerPermission (link_declaring allows_owner locator)) (\<lambda>link_secret.
     and_then (map_err ClientFailed (with_api_origin base origin)) (\<lambda>client.
     Inr \<lparr> oa_client = client, oa_locator = locator, oa_link_secret = link_secret \<rparr>)))"

section \<open>Links as they are shown\<close>

definition permission_label :: "link_permissions \<Rightarrow> string" where
  "permission_label p = (if p = owner_perm then ''owner'' else if p = read_perm then ''read''
     else if p = write_perm then ''write'' else ''read-write'')"

definition permission_rank :: "link_permissions \<Rightarrow> nat" where
  "permission_rank p = (if p = read_perm then 0 else if p = write_perm then 1 else if p = read_write_perm then 2 else 3)"

definition resource_link :: "('i, 'p, 'd) url_codec \<Rightarrow> url \<Rightarrow> 'i \<Rightarrow> stream_kind \<Rightarrow> link_permissions \<Rightarrow> link_secret
    \<Rightarrow> (('p, 'd) stream_link_error, url) outcome" where
  "resource_link codec web_origin stream_id kind permissions secret =
     (case kind of
        Terminal \<Rightarrow> terminal_link codec web_origin stream_id permissions secret
      | _ \<Rightarrow> stream_link codec web_origin stream_id permissions secret)"

definition public_resource_url :: "('i, 'p, 'd) url_codec \<Rightarrow> url \<Rightarrow> 'i \<Rightarrow> stream_kind \<Rightarrow> ('p, 'd) stream_link_error + url" where
  "public_resource_url codec web_origin stream_id kind =
     (case kind of
        Terminal \<Rightarrow> public_terminal_url codec web_origin stream_id
      | _ \<Rightarrow> public_stream_url codec web_origin stream_id)"

text \<open>\<open>collect::<Result<Vec<_>, _>>()\<close>.\<close>

fun collect_outcome :: "('a \<Rightarrow> ('e, 'b) outcome) \<Rightarrow> 'a list \<Rightarrow> ('e, 'b list) outcome" where
  "collect_outcome f [] = Ok []"
| "collect_outcome f (x # xs) =
     (case f x of
        Ok y \<Rightarrow> (case collect_outcome f xs of Ok ys \<Rightarrow> Ok (y # ys) | Err e \<Rightarrow> Err e | Panic \<Rightarrow> Panic)
      | Err e \<Rightarrow> Err e
      | Panic \<Rightarrow> Panic)"

definition credential_link :: "('i, 'p, 'd) url_codec \<Rightarrow> 'i create_stream_response \<Rightarrow> stream_link_credential
    \<Rightarrow> (('p, 'd) stream_link_error, url) outcome" where
  "credential_link codec created credential =
     resource_link codec (cr_web_origin created) (cr_stream_id created) (cr_kind created) (cl_permissions credential) (cl_secret credential)"

record link_row =
  lr_label :: rstr
  lr_permissions :: link_permissions
  lr_url :: url
  lr_suffix :: string

definition credential_row :: "('i, 'p, 'd) url_codec \<Rightarrow> 'i create_stream_response \<Rightarrow> stream_link_credential
    \<Rightarrow> (('p, 'd) stream_link_error, link_row) outcome" where
  "credential_row codec created credential = (case credential_link codec created credential of
       Ok url \<Rightarrow> Ok \<lparr> lr_label = link_id_str (cl_link_id credential), lr_permissions = cl_permissions credential, lr_url = url,
         lr_suffix = (if allows_owner (cl_permissions credential) then ''  (keep private)'' else '''') \<rparr>
     | Err e \<Rightarrow> Err e | Panic \<Rightarrow> Panic)"

definition created_rows :: "('i, 'p, 'd) url_codec \<Rightarrow> 'i create_stream_response \<Rightarrow> bool \<Rightarrow> (('p, 'd) stream_link_error, link_row list) outcome" where
  "created_rows codec created show_owner_link =
     (case collect_outcome (credential_row codec created)
         (filter (\<lambda>credential. show_owner_link \<or> \<not> allows_owner (cl_permissions credential)) (cr_links created)) of
        Err e \<Rightarrow> Err e | Panic \<Rightarrow> Panic
      | Ok links \<Rightarrow>
          (case cr_visibility created of
             Private \<Rightarrow> Ok (sort_key (\<lambda>row. permission_rank (lr_permissions row)) links)
           | Public \<Rightarrow> (case public_resource_url codec (cr_web_origin created) (cr_stream_id created) (cr_kind created) of
                 Inl e \<Rightarrow> Err e
               | Inr url \<Rightarrow> Ok (sort_key (\<lambda>row. permission_rank (lr_permissions row))
                   (links @ [\<lparr> lr_label = lit ''Public'', lr_permissions = read_perm, lr_url = url, lr_suffix = ''  (public)'' \<rparr>])))))"

definition pad_to :: "nat \<Rightarrow> rstr \<Rightarrow> rstr" where
  "pad_to width s = s @ replicate (width - length (chars s)) 32"

definition row_line :: "('i, 'p, 'd) url_codec \<Rightarrow> nat \<Rightarrow> link_row \<Rightarrow> rstr" where
  "row_line codec width row =
     lit ''  '' @ pad_to width (lr_label row) @ lit ''  '' @ pad_to 10 (lit (permission_label (lr_permissions row))) @ lit ''  ''
     @ uc_show codec (lr_url row) @ lit (lr_suffix row)"

definition resource_name :: "stream_kind \<Rightarrow> string" where
  "resource_name kind = (case kind of Transcript \<Rightarrow> ''transcript stream'' | Bytes \<Rightarrow> ''byte stream'' | Terminal \<Rightarrow> ''terminal'')"

definition created_heading :: "('i, 'p, 'd) url_codec \<Rightarrow> 'i create_stream_response \<Rightarrow> rstr list" where
  "created_heading codec created =
     (let resource = resource_name (cr_kind created) in
      [lit ''Created '' @ lit (visibility_as_str (cr_visibility created)) @ lit '' '' @ lit resource @ lit '' '' @ uc_show_id codec (cr_stream_id created),
       lit ''Title: '' @ (case cr_title created of None \<Rightarrow> lit ''Untitled '' @ lit resource | Some title \<Rightarrow> title_str title),
       lit ''Expires: '' @ cr_expires_at created])"

definition rows_text :: "('i, 'p, 'd) url_codec \<Rightarrow> link_row list \<Rightarrow> rstr list" where
  "rows_text codec rows =
     (if rows = [] then []
      else let width = Max (set (map (length \<circ> lr_label) rows)) in
        [[]] @ map (row_line codec width) rows @ [[], lit ''Links are shown once.''])"

definition credential_output :: "('i, 'p, 'd) url_codec \<Rightarrow> 'i create_stream_response \<Rightarrow> stream_link_credential
    \<Rightarrow> (('p, 'd) stream_link_error, created_link_output) outcome" where
  "credential_output codec created credential = (case credential_link codec created credential of
       Ok url \<Rightarrow> Ok \<lparr> co_link_id = link_id_str (cl_link_id credential), co_permissions = permission_label (cl_permissions credential),
         co_url = uc_show codec url \<rparr>
     | Err e \<Rightarrow> Err e | Panic \<Rightarrow> Panic)"

definition created_json :: "('i, 'p, 'd) url_codec \<Rightarrow> 'i create_stream_response \<Rightarrow> (('p, 'd) stream_link_error, created_stream_output) outcome" where
  "created_json codec created =
     (case collect_outcome (credential_output codec created) (cr_links created) of
        Err e \<Rightarrow> Err e | Panic \<Rightarrow> Panic
      | Ok links \<Rightarrow>
          let output = \<lparr> cs_stream_id = uc_show_id codec (cr_stream_id created), cs_kind = stream_kind_as_str (cr_kind created),
                cs_title = map_option title_str (cr_title created), cs_visibility = visibility_as_str (cr_visibility created),
                cs_expires_at = cr_expires_at created, cs_links = links, cs_public_url = None \<rparr> in
          (case cr_visibility created of
             Private \<Rightarrow> Ok output
           | Public \<Rightarrow> (case public_resource_url codec (cr_web_origin created) (cr_stream_id created) (cr_kind created) of
                 Inl e \<Rightarrow> Err e
               | Inr url \<Rightarrow> Ok (output\<lparr> cs_public_url := Some (uc_show codec url) \<rparr>))))"

definition print_created_stream :: "('i, 'p, 'd, 'e, 'h) cli_env \<Rightarrow> 'i create_stream_response \<Rightarrow> bool \<Rightarrow> bool
    \<Rightarrow> (('i, 's) world, ('p, 'd, 'j, 'e) command_error, unit) command" where
  "print_created_stream env created json show_owner_link =
     (if json then run_then (lift_outcome LinkNotBuilt (created_json (ce_codec env) created)) (\<lambda>output. print_out [JsonCreatedStream output])
      else
        run_then (print_out (map Line (created_heading (ce_codec env) created))) (\<lambda>_.
        run_then (lift_outcome LinkNotBuilt (created_rows (ce_codec env) created show_owner_link)) (\<lambda>rows.
        print_out (map Line (rows_text (ce_codec env) rows)))))"

definition print_stream_metadata :: "('i, 'p, 'd, 'e, 'h) cli_env \<Rightarrow> 'i stream_metadata \<Rightarrow> bool \<Rightarrow> (('i, 's) world, ('p, 'd, 'j, 'e) command_error, unit) command" where
  "print_stream_metadata env stream json =
     (if json then print_out [JsonStreamMetadata stream]
      else print_out (map Line
        [lit ''Stream '' @ uc_show_id (ce_codec env) (sm_stream_id stream),
         lit ''Kind: '' @ lit (stream_kind_as_str (sm_kind stream)),
         lit ''Title: '' @ (case sm_title stream of None \<Rightarrow> lit ''Untitled stream'' | Some title \<Rightarrow> title_str title),
         lit ''Visibility: '' @ lit (visibility_as_str (sm_visibility stream)),
         lit ''Created: '' @ sm_created_at stream,
         lit ''Expires: '' @ sm_expires_at stream]))"

definition print_created_link :: "('i, 'p, 'd, 'e, 'h) cli_env \<Rightarrow> url \<Rightarrow> stream_link_credential \<Rightarrow> bool
    \<Rightarrow> (('i, 's) world, ('p, 'd, 'j, 'e) command_error, unit) command" where
  "print_created_link env url credential json =
     (if json then print_out [JsonCreatedLink \<lparr> co_link_id = link_id_str (cl_link_id credential),
        co_permissions = permission_label (cl_permissions credential), co_url = uc_show (ce_codec env) url \<rparr>]
      else print_out (map Line
        [lit ''Created '' @ link_id_str (cl_link_id credential) @ lit '' ('' @ lit (permission_label (cl_permissions credential)) @ lit '')'',
         lit ''  Link     '' @ uc_show (ce_codec env) url,
         lit ''  Link ID  '' @ link_id_str (cl_link_id credential),
         lit ''Link is shown once. Revoke it with the id above.'']))"

section \<open>Link files\<close>

definition write_link_file :: "('i, 'p, 'd, 'e, 'h) cli_env \<Rightarrow> rstr option \<Rightarrow> 'i create_stream_response \<Rightarrow> link_permissions
    \<Rightarrow> (('i, 's) world, ('p, 'd, 'j, 'e) command_error, unit) command" where
  "write_link_file env path created permissions =
     (case path of None \<Rightarrow> return_ok () | Some path \<Rightarrow>
      run_then (lift_result id (ok_or (LinkNotCreated (permission_label permissions))
        (find (\<lambda>link. cl_permissions link = permissions) (cr_links created)))) (\<lambda>link.
      run_then (lift_outcome LinkNotBuilt (credential_link (ce_codec env) created link)) (\<lambda>url.
      write_file env path (uc_show (ce_codec env) url))))"

fun for_each :: "('a \<Rightarrow> ('w, 'e, unit) command) \<Rightarrow> 'a list \<Rightarrow> ('w, 'e, unit) command" where
  "for_each f [] = return_ok ()"
| "for_each f (x # xs) = run_then (f x) (\<lambda>_. for_each f xs)"

definition asked_files :: "new_args \<Rightarrow> (rstr option \<times> link_permissions) list" where
  "asked_files args = [(na_owner_link_file args, owner_perm), (na_read_link_file args, read_perm), (na_write_link_file args, write_perm)]"

definition write_link_files :: "('i, 'p, 'd, 'e, 'h) cli_env \<Rightarrow> 'i create_stream_response \<Rightarrow> new_args
    \<Rightarrow> (('i, 's) world, ('p, 'd, 'j, 'e) command_error, unit) command" where
  "write_link_files env created args = for_each (\<lambda>(path, permissions). write_link_file env path created permissions) (asked_files args)"

section \<open>Creating a stream\<close>

text \<open>\<open>create\<close> is the call of the client, which \<open>create_stream\<close> of the REST client is for a given random key and
  response parser. The result is what \<open>write_input\<close> is then run with, or nothing on a terminal without a
  program.\<close>

definition new_stream_request :: "new_args \<Rightarrow> visibility \<Rightarrow> initial_stream_link list \<Rightarrow> create_stream_input" where
  "new_stream_request args visibility links = \<lparr> ci_kind = (if na_bytes args then Bytes else Transcript), ci_title = na_title args,
     ci_visibility = visibility, ci_expires_in_seconds = map_option expiry_seconds (na_expires args), ci_links = links \<rparr>"

definition new_stream :: "('i, 'p, 'd, 'e, 'h) cli_env \<Rightarrow> ('i, cli_body, 's) rest_client \<Rightarrow> (bytes \<Rightarrow> rstr) \<Rightarrow> bytes
    \<Rightarrow> (bytes \<Rightarrow> 'j + 'i create_stream_response) \<Rightarrow> url \<Rightarrow> new_args \<Rightarrow> bool
    \<Rightarrow> (('i, 's) world, ('p, 'd, 'j, 'e) command_error, ('i \<times> link_secret) option) command" where
  "new_stream env base enc entropy parse origin args stdin_is_terminal =
     (let visibility = (if na_public args then Public else Private) in
      run_then (lift_result NewLinksFailed (new_stream_links args visibility)) (\<lambda>links.
      run_then (lift_result ClientFailed (with_api_origin base origin)) (\<lambda>client.
      run_then (on_service (create_stream client enc entropy parse (CreateStreamBody (new_stream_request args visibility links)))) (\<lambda>created.
      run_then (print_created_stream env created (na_json args) True) (\<lambda>_.
      run_then (write_link_files env created args) (\<lambda>_.
      if na_program args = [] \<and> stdin_is_terminal then return_ok None
      else run_then (lift_result id (ok_or OwnerLinkNotCreated (find (\<lambda>link. cl_permissions link = owner_perm) (cr_links created)))) (\<lambda>link.
        return_ok (Some (cr_stream_id created, cl_secret link)))))))))"

section \<open>Managing a stream\<close>

text \<open>What standard input is: not a terminal, or one on which a line is read or reading fails.\<close>

datatype stdin_state = NotATerminal | TerminalAnswers rstr | TerminalFails

definition confirm_delete :: "('i, 'p, 'd, 'e, 'h) cli_env \<Rightarrow> stdin_state \<Rightarrow> 'i \<Rightarrow> bool
    \<Rightarrow> (('i, 's) world, ('p, 'd, 'j, 'e) command_error, bool) command" where
  "confirm_delete env stdin stream_id yes =
     (if yes then return_ok True
      else (case stdin of
          NotATerminal \<Rightarrow> fail_with ConfirmationNeedsYes
        | _ \<Rightarrow>
            run_then (print_out [Notice (lit ''Permanently delete stream '' @ uc_show_id (ce_codec env) stream_id @ lit ''? [y/N] '')]) (\<lambda>_.
            case stdin of
              TerminalAnswers response \<Rightarrow>
                return_ok (map to_ascii_lowercase (trim_str response) \<in> {lit ''y'', lit ''yes''})
            | _ \<Rightarrow> fail_with ConfirmationUnread)))"

definition delete_stream_command :: "('i, 'p, 'd, 'e, 'h) cli_env \<Rightarrow> ('i, cli_body, 's) rest_client \<Rightarrow> url \<Rightarrow> link_input \<Rightarrow> bool \<Rightarrow> bool
    \<Rightarrow> stdin_state \<Rightarrow> (('i, 's) world, ('p, 'd, 'j, 'e) command_error, unit) command" where
  "delete_stream_command env base origin link json yes stdin =
     run_then (lift_result id (owner_resolve env base origin link)) (\<lambda>owner.
     let stream_id = sl_stream_id (oa_locator owner) in
     run_then (confirm_delete env stdin stream_id yes) (\<lambda>confirmed.
     if \<not> confirmed then print_out [Notice (lit ''Deletion cancelled.'')]
     else run_then (on_service (delete_stream (oa_client owner) stream_id (oa_link_secret owner))) (\<lambda>_.
       if json then print_out [JsonStatus ''stream_id'' (uc_show_id (ce_codec env) stream_id) ''deleted'']
       else print_out [Line (lit ''Deleted stream '' @ uc_show_id (ce_codec env) stream_id)])))"

definition stream_metadata_command :: "('i, 'p, 'd, 'e, 'h) cli_env \<Rightarrow> ('i, cli_body, 's) rest_client \<Rightarrow> (bytes \<Rightarrow> 'j + 'i stream_metadata)
    \<Rightarrow> url \<Rightarrow> link_input \<Rightarrow> bool \<Rightarrow> (('i, 's) world, ('p, 'd, 'j, 'e) command_error, unit) command" where
  "stream_metadata_command env base parse origin link json =
     run_then (lift_result InvalidLink (stream_locator_parse (ce_codec env) (link_input_str link))) (\<lambda>locator.
     run_then (lift_result ClientFailed (with_api_origin base origin)) (\<lambda>client.
     run_then (on_service (get_stream client parse (sl_stream_id locator) (map_option lp_secret (sl_link locator)))) (\<lambda>stream.
     print_stream_metadata env stream json)))"

definition update_and_print :: "('i, 'p, 'd, 'e, 'h) cli_env \<Rightarrow> ('i, cli_body, 's) rest_client \<Rightarrow> (bytes \<Rightarrow> 'j + 'i stream_metadata)
    \<Rightarrow> url \<Rightarrow> link_input \<Rightarrow> bool \<Rightarrow> update_stream_request \<Rightarrow> (('i, 's) world, ('p, 'd, 'j, 'e) command_error, unit) command" where
  "update_and_print env base parse origin link json request =
     run_then (lift_result id (owner_resolve env base origin link)) (\<lambda>access.
     run_then (on_service (update_stream (oa_client access) parse (sl_stream_id (oa_locator access)) (UpdateStreamBody request)
       (oa_link_secret access))) (\<lambda>stream.
     print_stream_metadata env stream json))"

definition update_visibility :: "('i, 'p, 'd, 'e, 'h) cli_env \<Rightarrow> ('i, cli_body, 's) rest_client \<Rightarrow> (bytes \<Rightarrow> 'j + 'i stream_metadata)
    \<Rightarrow> url \<Rightarrow> link_input \<Rightarrow> bool \<Rightarrow> visibility \<Rightarrow> (('i, 's) world, ('p, 'd, 'j, 'e) command_error, unit) command" where
  "update_visibility env base parse origin link json visibility =
     update_and_print env base parse origin link json (update_stream_request_default\<lparr> us_visibility := Some visibility \<rparr>)"

text \<open>\<open>title set\<close> with a title, \<open>title clear\<close> without.\<close>

definition update_title :: "('i, 'p, 'd, 'e, 'h) cli_env \<Rightarrow> ('i, cli_body, 's) rest_client \<Rightarrow> (bytes \<Rightarrow> 'j + 'i stream_metadata)
    \<Rightarrow> url \<Rightarrow> link_input \<Rightarrow> bool \<Rightarrow> stream_title option \<Rightarrow> (('i, 's) world, ('p, 'd, 'j, 'e) command_error, unit) command" where
  "update_title env base parse origin link json title =
     update_and_print env base parse origin link json
       (update_stream_request_default\<lparr> us_title := (case title of Some title \<Rightarrow> TitleSet title | None \<Rightarrow> TitleClear) \<rparr>)"

definition renew_stream :: "('i, 'p, 'd, 'e, 'h) cli_env \<Rightarrow> ('i, cli_body, 's) rest_client \<Rightarrow> (bytes \<Rightarrow> 'j + 'i stream_metadata)
    \<Rightarrow> url \<Rightarrow> link_input \<Rightarrow> bool \<Rightarrow> stream_expiry_arg \<Rightarrow> (('i, 's) world, ('p, 'd, 'j, 'e) command_error, unit) command" where
  "renew_stream env base parse origin link json expires =
     run_then (lift_outcome TimeFailed (expiry_rfc3339 (ce_humantime env) (ce_now env) expires)) (\<lambda>expires_at.
     update_and_print env base parse origin link json (update_stream_request_default\<lparr> us_expires_at := Some expires_at \<rparr>))"

section \<open>Managing links\<close>

definition link_row_text :: "list_links_response \<Rightarrow> stream_link_summary \<Rightarrow> rstr" where
  "link_row_text inventory link =
     pad_to 24 (link_id_str (sl_link_id link)) @ lit ''  '' @ pad_to 10 (lit (permission_label (sl_permissions link))) @ lit ''  ''
     @ pad_to 7 (lit (stream_link_status_as_str (sl_status link))) @ lit ''  expires ''
     @ (case sl_expires_at link of Some t \<Rightarrow> t | None \<Rightarrow> lit ''never'')
     @ (if sl_link_id link = ll_authorizing_link_id inventory then lit ''  (current)'' else [])"

text \<open>With a bound on the number of pages, as \<open>list_all_links\<close> has: \<open>None\<close> when more are needed.\<close>

definition list_links_command :: "('i, 'p, 'd, 'e, 'h) cli_env \<Rightarrow> ('i, cli_body, 's) rest_client \<Rightarrow> (bytes \<Rightarrow> 'j + list_links_response)
    \<Rightarrow> nat \<Rightarrow> url \<Rightarrow> link_input \<Rightarrow> bool \<Rightarrow> ('i, 's) world \<Rightarrow> ((('p, 'd, 'j, 'e) command_error, unit) outcome \<times> ('i, 's) world) option" where
  "list_links_command env base parse pages origin link json w =
     (case owner_resolve env base origin link of
        Inl e \<Rightarrow> Some (Err e, w)
      | Inr owner \<Rightarrow>
          map_option (\<lambda>(r, s). run_then (lift_outcome ClientFailed r) (\<lambda>inventory.
              if json then print_out [JsonLinks inventory] else print_out (map (Line \<circ> link_row_text inventory) (ll_links inventory)))
              (w\<lparr> w_service := s \<rparr>))
            (list_all_links (oa_client owner) parse (sl_stream_id (oa_locator owner)) (oa_link_secret owner) pages (w_service w)))"

definition create_link_command :: "('i, 'p, 'd, 'e, 'h) cli_env \<Rightarrow> ('i, cli_body, 's) rest_client \<Rightarrow> (bytes \<Rightarrow> rstr) \<Rightarrow> bytes
    \<Rightarrow> (bytes \<Rightarrow> 'j + create_link_response) \<Rightarrow> url \<Rightarrow> link_input \<Rightarrow> bool \<Rightarrow> initial_stream_link \<Rightarrow> expires_arg \<Rightarrow> rstr option
    \<Rightarrow> (('i, 's) world, ('p, 'd, 'j, 'e) command_error, unit) command" where
  "create_link_command env base enc entropy parse origin link json new_link expires link_file =
     run_then (lift_result id (owner_resolve env base origin link)) (\<lambda>owner.
     run_then (lift_outcome TimeFailed (expires_rfc3339 (ce_humantime env) (ce_now env) expires)) (\<lambda>expires_at.
     let stream_id = sl_stream_id (oa_locator owner) in
     run_then (on_service (create_link (oa_client owner) enc entropy parse stream_id (il_link_id new_link)
       (CreateLinkBody \<lparr> li_link_id = il_link_id new_link, li_permissions = il_permissions new_link, li_expires_at = expires_at \<rparr>)
       (oa_link_secret owner))) (\<lambda>created.
     let credential = cn_credential created;
         build = (case sl_route (oa_locator owner) of RouteStream \<Rightarrow> stream_link | RouteTerminal \<Rightarrow> terminal_link) in
     run_then (lift_outcome LinkNotBuilt (build (ce_codec env) (cn_web_origin created) stream_id (cl_permissions credential) (cl_secret credential))) (\<lambda>url.
     run_then (case link_file of Some path \<Rightarrow> write_file env path (uc_show (ce_codec env) url) | None \<Rightarrow> return_ok ()) (\<lambda>_.
     print_created_link env url credential json)))))"

definition revoke_link_command :: "('i, 'p, 'd, 'e, 'h) cli_env \<Rightarrow> ('i, cli_body, 's) rest_client \<Rightarrow> url \<Rightarrow> link_input \<Rightarrow> bool \<Rightarrow> link_id
    \<Rightarrow> (('i, 's) world, ('p, 'd, 'j, 'e) command_error, unit) command" where
  "revoke_link_command env base origin link json link_id =
     run_then (lift_result id (owner_resolve env base origin link)) (\<lambda>owner.
     run_then (on_service (revoke_link (oa_client owner) (sl_stream_id (oa_locator owner)) link_id (oa_link_secret owner))) (\<lambda>_.
     if json then print_out [JsonStatus ''link_id'' (link_id_str link_id) ''revoked'']
     else print_out [Line (lit ''Revoked link '' @ link_id_str link_id)]))"

section \<open>Processes\<close>

text \<open>How a child ended: with a code or by a signal; neither when it was stopped.\<close>

record exit_status =
  es_code :: "32 word option"
  es_signal :: "32 word option"

definition exit_code_from_status :: "exit_status \<Rightarrow> 32 word" where
  "exit_code_from_status status = (case es_code status of
       Some code \<Rightarrow> code
     | None \<Rightarrow> (case es_signal status of None \<Rightarrow> 1 | Some signal \<Rightarrow> 128 + signal))"

section \<open>Link files are private\<close>

text \<open>Compared with \<open>old\<close>, whatever is new in a file can be read by its owner only.\<close>

definition shielded :: "files \<Rightarrow> files \<Rightarrow> bool" where
  "shielded old files \<longleftrightarrow> (\<forall>path f. files path = Some f \<longrightarrow> fe_mode f = PRIVATE_MODE \<or> fe_contents f = [] \<or> old path = Some f)"

lemma shielded_refl: "shielded files files"
  by (simp add: shielded_def)

lemma shielded_open: "shielded old files \<Longrightarrow> shielded old (open_private umask path files)"
  by (auto simp: shielded_def open_private_def split: option.splits)

lemma shielded_restrict: "shielded old files \<Longrightarrow> shielded old (change_file (fe_mode_update (\<lambda>_. PRIVATE_MODE)) path files)"
  by (auto simp: shielded_def change_file_def)

lemma shielded_contents:
  "shielded old files \<Longrightarrow> \<forall>f. files path = Some f \<longrightarrow> fe_mode f = PRIVATE_MODE \<Longrightarrow> shielded old (change_file (fe_contents_update g) path files)"
  by (auto simp: shielded_def change_file_def)

lemma private_after_restrict: "change_file (fe_mode_update (\<lambda>_. PRIVATE_MODE)) path files path = Some f \<Longrightarrow> fe_mode f = PRIVATE_MODE"
  by (auto simp: change_file_def)

lemma mode_kept: "\<forall>f. files path = Some f \<longrightarrow> fe_mode f = PRIVATE_MODE
    \<Longrightarrow> change_file (fe_contents_update g) path files path = Some f \<Longrightarrow> fe_mode f = PRIVATE_MODE"
  by (auto simp: change_file_def)

lemma write_private_shielded:
  assumes "write_private_file umask faults path data files = (r, states)" "shielded old files"
  shows "\<forall>st \<in> set states. shielded old st"
proof -
  let ?restricted = "change_file (fe_mode_update (\<lambda>_. PRIVATE_MODE)) path (open_private umask path files)"
  have "shielded old ?restricted" by (intro shielded_restrict shielded_open assms)
  moreover have "\<forall>f. ?restricted path = Some f \<longrightarrow> fe_mode f = PRIVATE_MODE" using private_after_restrict by blast
  ultimately have "shielded old (change_file (fe_contents_update g) path ?restricted)"
      "shielded old (change_file (fe_contents_update h) path (change_file (fe_contents_update g) path ?restricted))" for g h
    using mode_kept by (blast intro: shielded_contents)+
  then show ?thesis
    using assms shielded_open[OF assms(2)] \<open>shielded old ?restricted\<close>
    by (auto simp: write_private_file_def Let_def split: option.splits prod.splits)
qed

lemma change_file_other: "p \<noteq> path \<Longrightarrow> change_file g path files p = files p"
  by (simp add: change_file_def)

lemma open_private_other: "p \<noteq> path \<Longrightarrow> open_private umask path files p = files p"
  by (auto simp: open_private_def split: option.splits)

lemma open_private_there: "\<exists>f. open_private umask path files path = Some f"
  by (auto simp: open_private_def split: option.splits)

lemma write_private_other:
  assumes "write_private_file umask faults path data files = (r, states)" "st \<in> set states" "p \<noteq> path"
  shows "st p = files p"
  using assms by (auto simp: write_private_file_def Let_def change_file_other open_private_other split: option.splits prod.splits)

lemma write_private_done:
  assumes "write_private_file umask faults path data files = (Inr (), states)"
  shows "states \<noteq> [] \<and> last states path = Some \<lparr> fe_contents = data, fe_mode = PRIVATE_MODE \<rparr>"
proof -
  obtain f where "open_private umask path files path = Some f" using open_private_there by blast
  then show ?thesis
    using assms by (cases f) (auto simp: write_private_file_def overwrite_def Let_def change_file_def split: option.splits prod.splits)
qed

text \<open>Running a sequence of file operations: the states it goes through.\<close>

definition passes :: "('i, 's) world \<Rightarrow> files list \<Rightarrow> ('i, 's) world \<Rightarrow> bool" where
  "passes w states w' \<longleftrightarrow> w_past w' @ [w_files w'] = w_past w @ w_files w # states
     \<and> w_service w' = w_service w \<and> w_out w' = w_out w"

lemma passes_refl: "passes w [] w"
  by (simp add: passes_def)

lemma passes_trans: "passes w xs w' \<Longrightarrow> passes w' ys w'' \<Longrightarrow> passes w (xs @ ys) w''"
  by (simp add: passes_def)

lemma passes_last: "passes w states w' \<Longrightarrow> w_files w' = last (w_files w # states)"
  unfolding passes_def by (metis last_snoc last_append list.distinct(1))

lemma write_file_passes:
  assumes "write_file env path data w = (r, w')"
  shows "\<exists>r0 states. write_private_file (ce_umask env) (ce_faults env path) path data (w_files w) = (r0, states)
    \<and> passes w states w' \<and> r \<noteq> Panic \<and> (r = Ok () \<longleftrightarrow> r0 = Inr ())"
proof -
  obtain r0 states where run: "write_private_file (ce_umask env) (ce_faults env path) path data (w_files w) = (r0, states)"
    by (metis surj_pair)
  have "butlast (w_files w # states) @ [last (w_files w # states)] = w_files w # states"
    by (rule append_butlast_last_id) simp
  then have "passes w states w'"
    using assms by (cases states) (auto simp: write_file_def run lift_result_def passes_def split: sum.splits)
  then show ?thesis
    using run assms by (auto simp: write_file_def lift_result_def split: sum.splits)
qed

lemma run_then_cases:
  assumes "run_then c k w = (r, w')"
  obtains a w1 where "c w = (Ok a, w1)" "k a w1 = (r, w')"
    | e where "c w = (Err e, w')" "r = Err e"
    | "c w = (Panic, w')" "r = Panic"
  using assms by (auto simp: run_then_def split: prod.splits outcome.splits)

lemma lift_cases:
  "lift_result f x w = (r, w') \<Longrightarrow> w' = w \<and> (case x of Inl e \<Rightarrow> r = Err (f e) | Inr a \<Rightarrow> r = Ok a)"
  "lift_outcome f y w = (r, w') \<Longrightarrow> w' = w \<and> (case y of Err e \<Rightarrow> r = Err (f e) | Ok a \<Rightarrow> r = Ok a | Panic \<Rightarrow> r = Panic)"
  by (auto simp: lift_result_def lift_outcome_def split: sum.splits outcome.splits)

text \<open>The file a link of \<open>created\<close> with these permissions is written to.\<close>

definition holds_link :: "('i, 'p, 'd, 'e, 'h) cli_env \<Rightarrow> 'i create_stream_response \<Rightarrow> link_permissions \<Rightarrow> rstr \<Rightarrow> files \<Rightarrow> bool" where
  "holds_link env created permissions path files \<longleftrightarrow> (\<exists>link url.
     find (\<lambda>link. cl_permissions link = permissions) (cr_links created) = Some link
     \<and> credential_link (ce_codec env) created link = Ok url
     \<and> files path = Some \<lparr> fe_contents = uc_show (ce_codec env) url, fe_mode = PRIVATE_MODE \<rparr>)"

lemma write_link_file_passes:
  assumes "write_link_file env path created permissions w = (r, w')" "shielded old (w_files w)"
  shows "\<exists>states. passes w states w' \<and> (\<forall>st \<in> set states. shielded old st)
    \<and> (\<forall>st \<in> set states. \<forall>p. path \<noteq> Some p \<longrightarrow> st p = w_files w p)
    \<and> (r = Ok () \<longrightarrow> (\<forall>p. path = Some p \<longrightarrow> holds_link env created permissions p (w_files w')))"
proof (cases path)
  case None
  with assms show ?thesis by (intro exI[of _ "[]"]) (auto simp: write_link_file_def return_ok_def passes_refl)
next
  case (Some p)
  note run = assms(1)[unfolded write_link_file_def Some option.case]
  show ?thesis
  proof (cases "find (\<lambda>link. cl_permissions link = permissions) (cr_links created)")
    case None
    with run have "w' = w" "r \<noteq> Ok ()" by (auto simp: run_then_def lift_result_def ok_or_def)
    then show ?thesis by (intro exI[of _ "[]"]) (auto simp: passes_refl)
  next
    case link: (Some link)
    show ?thesis
    proof (cases "credential_link (ce_codec env) created link")
      case (Ok url)
      with run link have "write_file env p (uc_show (ce_codec env) url) w = (r, w')"
        by (simp add: run_then_def lift_result_def ok_or_def lift_outcome_def)
      from write_file_passes[OF this] obtain r0 states where stored:
          "write_private_file (ce_umask env) (ce_faults env p) p (uc_show (ce_codec env) url) (w_files w) = (r0, states)"
          "passes w states w'" "r = Ok () \<longleftrightarrow> r0 = Inr ()" by blast
      have "holds_link env created permissions p (w_files w')" if "r = Ok ()"
        using write_private_done[of _ _ _ _ _ states] stored(1,3) that link Ok passes_last[OF stored(2)]
        by (fastforce simp: holds_link_def)
      then show ?thesis
        using write_private_shielded[OF stored(1) assms(2)] write_private_other[OF stored(1)] stored(2) Some
        by (intro exI[of _ states]) auto
    qed (use run link in \<open>auto simp: run_then_def lift_result_def ok_or_def lift_outcome_def passes_refl intro!: exI[of _ "[]"]\<close>)
  qed
qed

lemma for_each_link_files:
  fixes r :: "(('p, 'd, 'j, 'e) command_error, unit) outcome"
  assumes "for_each (\<lambda>(path, permissions). write_link_file env path created permissions) files w = (r, w')"
    and "shielded old (w_files w)"
  shows "\<exists>states. passes w states w' \<and> (\<forall>st \<in> set states. shielded old st)
    \<and> (\<forall>st \<in> set states. \<forall>p. Some p \<notin> fst ` set files \<longrightarrow> st p = w_files w p)
    \<and> (r = Ok () \<longrightarrow> (\<forall>p permissions. map_of (rev files) (Some p) = Some permissions \<longrightarrow> holds_link env created permissions p (w_files w')))"
  using assms
proof (induction files arbitrary: w)
  case Nil
  then show ?case by (intro exI[of _ "[]"]) (auto simp: return_ok_def passes_refl)
next
  case (Cons f files)
  obtain path permissions where f: "f = (path, permissions)" by (cases f)
  obtain r1 :: "(('p, 'd, 'j, 'e) command_error, unit) outcome" and w1 where
    first: "write_link_file env path created permissions w = (r1, w1)" by (metis surj_pair)
  from write_link_file_passes[OF first Cons.prems(2)] obtain states where head: "passes w states w1"
      "\<forall>st \<in> set states. shielded old st" "\<forall>st \<in> set states. \<forall>p. path \<noteq> Some p \<longrightarrow> st p = w_files w p"
      "r1 = Ok () \<longrightarrow> (\<forall>p. path = Some p \<longrightarrow> holds_link env created permissions p (w_files w1))" by blast
  have kept: "w_files w1 p = w_files w p" if "path \<noteq> Some p" for p
    using passes_last[OF head(1)] head(3) that by (cases states rule: rev_cases) auto
  show ?case
  proof (cases "r1 = Ok ()")
    case True
    with Cons.prems(1) first f have rest: "for_each (\<lambda>(path, permissions). write_link_file env path created permissions) files w1 = (r, w')"
      by (simp add: run_then_def)
    have "shielded old (w_files w1)"
      using passes_last[OF head(1)] head(2) Cons.prems(2) by (cases states rule: rev_cases) auto
    then obtain states' where tail: "passes w1 states' w'" "\<forall>st \<in> set states'. shielded old st"
        "\<forall>st \<in> set states'. \<forall>p. Some p \<notin> fst ` set files \<longrightarrow> st p = w_files w1 p"
        "r = Ok () \<longrightarrow> (\<forall>p permissions. map_of (rev files) (Some p) = Some permissions \<longrightarrow> holds_link env created permissions p (w_files w'))"
      using Cons.IH[OF rest] by blast
    have own: "holds_link env created permissions p (w_files w')" if "path = Some p" "map_of (rev files) (Some p) = None" for p
    proof -
      have "Some p \<notin> fst ` set files" using that(2) by (simp add: map_of_eq_None_iff)
      then have "w_files w' p = w_files w1 p"
        using passes_last[OF tail(1)] tail(3) by (cases states' rule: rev_cases) auto
      then show ?thesis using head(4) True that(1) by (simp add: holds_link_def)
    qed
    have "holds_link env created q p (w_files w')" if "r = Ok ()" "map_of (rev (f # files)) (Some p) = Some q" for p q
      using that tail(4) own[of p] f by (cases "map_of (rev files) (Some p)") (auto simp: map_add_def split: if_splits)
    then show ?thesis
      using passes_trans[OF head(1) tail(1)] head(2,3) tail(2,3) kept f
      by (intro exI[of _ "states @ states'"]) auto
  next
    case False
    then have "w' = w1 \<and> r \<noteq> Ok ()"
      using Cons.prems(1) first f by (auto simp: run_then_def split: outcome.splits)
    then show ?thesis using head f by (intro exI[of _ states]) auto
  qed
qed

text \<open>C16: Link files are private. Whatever fails, in every state of the file system while the link files of a new
  stream are written, a file whose contents are new is empty or its mode is 0600, a file that was there with
  other rights included; nothing else of the world changes. When the command goes on, every file that was
  asked for holds exactly the link of its permission and nothing that was in it before; a path given for several
  links, which the command does not forbid, holds the last of them, in the order owner, read, write.\<close>

theorem link_files_are_private:
  assumes "write_link_files env created args w = (r, w')"
  shows "\<exists>states. passes w states w' \<and> (\<forall>st \<in> set states. shielded (w_files w) st)
    \<and> (r = Ok () \<longrightarrow> (\<forall>p permissions. map_of (rev (asked_files args)) (Some p) = Some permissions
          \<longrightarrow> holds_link env created permissions p (w_files w')))"
  using for_each_link_files[OF assms(1)[unfolded write_link_files_def] shielded_refl] by blast

section \<open>A link file can be used\<close>

definition plain_text :: "rstr \<Rightarrow> bool" where
  "plain_text s \<longleftrightarrow> s \<noteq> [] \<and> (\<forall>b \<in> set s. 33 \<le> unat b \<and> unat b \<le> 126)"

lemma trim_str_plain: "plain_text s \<Longrightarrow> trim_str s = s"
proof -
  assume plain: "plain_text s"
  then have "\<forall>b \<in> set s. unat b < 0x80" by (auto simp: plain_text_def)
  then have cs: "chars s = map unat s" by (simp add: chars_def utf8_chars_ascii)
  have visible: "\<not> is_whitespace (unat b)" if "b \<in> set s" for b
    using plain that by (fastforce simp: plain_text_def is_whitespace_def)
  have "trim (map unat s) = map unat s"
    using plain visible by (simp add: trim_id_iff plain_text_def hd_map last_map)
  moreover have "concat (map utf8_encode (map unat s)) = s"
    using \<open>\<forall>b \<in> set s. unat b < 0x80\<close> by (induction s) (auto simp: utf8_encode_def)
  ultimately show ?thesis by (simp add: trim_str_def cs)
qed

lemma str_lines_plain: "plain_text s \<Longrightarrow> str_lines s = [s]"
proof -
  assume "plain_text s"
  then have "10 \<notin> set s" "s \<noteq> []" by (fastforce simp: plain_text_def)+
  then show ?thesis by (simp add: str_lines_def split_on_no_sep)
qed

definition read_file :: "files \<Rightarrow> rstr \<Rightarrow> unit + rstr" where
  "read_file files path = (case files path of
       Some f \<Rightarrow> ok_or () (from_utf8 (fe_contents f))
     | None \<Rightarrow> Inl ())"

lemma link_input_from_plain_file:
  assumes "files path = Some \<lparr> fe_contents = text, fe_mode = mode \<rparr>" "plain_text text" "path \<noteq> []"
  shows "link_input_from_str (read_file files) (lit ''@'' @ path) = Inr (LinkInput text)"
proof -
  have "\<forall>b \<in> set text. unat b < 0x80" "text \<noteq> []"
    using assms(2) by (auto simp: plain_text_def)
  then have "read_file files path = Inr text"
    by (simp add: read_file_def assms(1) from_utf8_ascii ok_or_def)
  then show ?thesis
    using assms(3) \<open>text \<noteq> []\<close>
    by (simp add: link_input_from_str_def strip_prefix_def lit_def map_err_def trim_str_plain[OF assms(2)] str_lines_plain[OF assms(2)])
qed

definition kind_route :: "stream_kind \<Rightarrow> stream_route" where
  "kind_route kind = (case kind of Terminal \<Rightarrow> RouteTerminal | _ \<Rightarrow> RouteStream)"

lemma resource_link_build:
  "resource_link codec web_origin i kind p secret = build_link codec web_origin i p secret (route_prefix (kind_route kind))"
  by (cases kind) (simp_all add: resource_link_def kind_route_def route_prefix_def stream_link_def terminal_link_def)

lemma valid_owner: "valid_permissions owner_perm" "allows_owner owner_perm"
  by (simp_all add: valid_permissions_def allows_owner_def owner_perm_def OWNER_def)

lemma find_eq_Some: "find P xs = Some x \<Longrightarrow> x \<in> set xs \<and> P x"
  by (auto simp: find_Some_iff)

text \<open>C13: A link file works as the owner link. When the link files of a created stream were written, and the read and the write
  link went to other paths, the command line argument \<open>@path\<close> naming the owner link file resolves to the created stream and the secret of its owner link,
  for every later command on the stream.\<close>

theorem owner_link_file_resolves:
  fixes env :: "('i, 'p, 'd, 'e, 'h) cli_env" and client :: "('i, cli_body, 's) rest_client"
    and r :: "(('p, 'd, 'j, 'e) command_error, unit) outcome"
  assumes "form_codec (ce_codec env)" "id_codec (ce_codec env)"
    and "\<And>link url. link \<in> set (cr_links created) \<Longrightarrow> credential_link (ce_codec env) created link = Ok url
      \<Longrightarrow> prints_back (ce_codec env) url \<and> plain_text (uc_show (ce_codec env) url)"
    and "\<And>link. link \<in> set (cr_links created) \<Longrightarrow> valid_link_secret (uc_decode_secret (ce_codec env)) (cl_secret link)"
    and "write_link_files env created args w = (r, w')" "r = Ok ()"
    and "na_read_link_file args \<noteq> Some path" "na_write_link_file args \<noteq> Some path"
    and "na_owner_link_file args = Some path" "path \<noteq> []"
    and "with_api_origin base origin = (Inr client :: (url, 'j) client_error + ('i, cli_body, 's) rest_client)"
  shows "\<exists>link \<in> set (cr_links created). cl_permissions link = owner_perm \<and> (\<exists>input.
    link_input_from_str (read_file (w_files w')) (lit ''@'' @ path) = Inr input
    \<and> owner_resolve env base origin input = (Inr \<lparr> oa_client = client,
        oa_locator = \<lparr> sl_stream_id = cr_stream_id created, sl_route = kind_route (cr_kind created),
          sl_link = Some \<lparr> lp_declared_permissions = owner_perm, lp_secret = cl_secret link \<rparr>, sl_anchor = None \<rparr>,
        oa_link_secret = cl_secret link \<rparr> :: ('p, 'd, 'j, 'e) command_error + ('i, 's) owner_access))"
proof -
  have "map_of (rev (asked_files args)) (Some path) = Some owner_perm"
    using assms(7-9) by (simp add: asked_files_def)
  then have "holds_link env created owner_perm path (w_files w')"
    using for_each_link_files[OF assms(5)[unfolded write_link_files_def] shielded_refl] assms(6) by blast
  then obtain link url where found: "find (\<lambda>link. cl_permissions link = owner_perm) (cr_links created) = Some link"
    and url: "credential_link (ce_codec env) created link = Ok url"
    and there: "w_files w' path = Some \<lparr> fe_contents = uc_show (ce_codec env) url, fe_mode = PRIVATE_MODE \<rparr>"
    unfolding holds_link_def by blast
  have link: "link \<in> set (cr_links created)" "cl_permissions link = owner_perm"
    using find_eq_Some[OF found] by blast+
  have "build_link (ce_codec env) (cr_web_origin created) (cr_stream_id created) owner_perm (cl_secret link)
      (route_prefix (kind_route (cr_kind created))) = Ok url"
    using url by (simp add: credential_link_def resource_link_build link(2))
  note parsed = built_link_parses(1)[OF assms(1,2) valid_owner(1) assms(4)[OF link(1)] this]
  have "prints_back (ce_codec env) url" "plain_text (uc_show (ce_codec env) url)"
    using assms(3)[OF link(1) url] by blast+
  then show ?thesis
    using link parsed link_input_from_plain_file[where files = "w_files w'", OF there _ assms(10)] assms(11)
    by (intro bexI[of _ link] conjI exI[of _ "LinkInput (uc_show (ce_codec env) url)"])
      (simp_all add: owner_resolve_def map_err_def ok_or_def link_declaring_def valid_owner(2))
qed

section \<open>Deletion\<close>

definition confirms :: "bool \<Rightarrow> stdin_state \<Rightarrow> bool" where
  "confirms yes stdin \<longleftrightarrow> yes
     \<or> (\<exists>response. stdin = TerminalAnswers response \<and> map to_ascii_lowercase (trim_str response) \<in> {lit ''y'', lit ''yes''})"

lemma confirm_delete_effect:
  assumes "confirm_delete env stdin stream_id yes w = (r, w')"
  shows "w_service w' = w_service w \<and> w_files w' = w_files w \<and> (r = Ok True \<longleftrightarrow> confirms yes stdin) \<and> r \<noteq> Panic"
  using assms
  by (auto simp: confirm_delete_def confirms_def return_ok_def fail_with_def run_then_def print_out_def
      split: if_splits stdin_state.splits)

lemma owner_resolve_Inr:
  assumes "owner_resolve env base origin link = Inr owner"
  shows "stream_locator_parse (ce_codec env) (link_input_str link) = Inr (oa_locator owner)"
    and "link_declaring allows_owner (oa_locator owner) = Some (oa_link_secret owner)"
  using assms
  by (auto simp: owner_resolve_def and_then_eq_Inr map_err_def ok_or_def split: sum.splits option.splits)

text \<open>Nothing is deleted by accident. The service is called only when the link declares owner permission and the
  user passed \<open>--yes\<close> or answered \<open>y\<close> or \<open>yes\<close> on a terminal; then the one call deletes the stream of the link
  with its secret, and the command succeeds exactly when that call does. Otherwise the service is left alone.\<close>

theorem deletion_is_confirmed:
  fixes r :: "(('p, 'd, 'j, 'e) command_error, unit) outcome" and w :: "('i, 's) world"
  assumes "delete_stream_command env base origin link json yes stdin w = (r, w')"
  shows "w_service w' = w_service w \<and> (\<forall>owner. owner_resolve env base origin link = (Inr owner :: ('p, 'd, 'j, 'e) command_error + _)
        \<longrightarrow> \<not> confirms yes stdin)
    \<or> (\<exists>(owner :: ('i, 's) owner_access) result slept. confirms yes stdin
        \<and> stream_locator_parse (ce_codec env) (link_input_str link) = Inr (oa_locator owner)
        \<and> link_declaring allows_owner (oa_locator owner) = Some (oa_link_secret owner)
        \<and> delete_stream (oa_client owner) (sl_stream_id (oa_locator owner)) (oa_link_secret owner) (w_service w)
            = (result :: ((url, 'j) client_error, unit) outcome, w_service w', slept)
        \<and> (r = Ok () \<longleftrightarrow> result = Ok ()))"
proof (cases "owner_resolve env base origin link :: ('p, 'd, 'j, 'e) command_error + _")
  case (Inl e)
  with assms show ?thesis by (auto simp: delete_stream_command_def run_then_def lift_result_def)
next
  case (Inr owner)
  obtain c :: "(('p, 'd, 'j, 'e) command_error, bool) outcome" and w1 where
    confirm: "confirm_delete env stdin (sl_stream_id (oa_locator owner)) yes w = (c, w1)" by (metis surj_pair)
  note asked = confirm_delete_effect[OF confirm]
  show ?thesis
  proof (cases "c = Ok True")
    case False
    with assms have "w_service w' = w_service w1"
      by (auto simp: delete_stream_command_def run_then_def lift_result_def Inr confirm print_out_def Let_def split: outcome.splits)
    with asked False show ?thesis by auto
  next
    case True
    obtain result :: "((url, 'j) client_error, unit) outcome" and s slept where
      call: "delete_stream (oa_client owner) (sl_stream_id (oa_locator owner)) (oa_link_secret owner) (w_service w) = (result, s, slept)"
      by (metis surj_pair)
    then have "w_service w' = s \<and> (r = Ok () \<longleftrightarrow> result = Ok ())"
      using assms asked True
      by (auto simp: delete_stream_command_def run_then_def lift_result_def lift_outcome_def Inr confirm print_out_def Let_def
          on_service_def split: outcome.splits if_splits)
    then show ?thesis
      using asked True call owner_resolve_Inr[OF Inr]
      by (intro disjI2 exI[of _ owner] exI[of _ result] exI[of _ slept]) simp
  qed
qed

section \<open>The links a new stream needs are there\<close>

lemma valid_allows_owner: "valid_permissions p \<Longrightarrow> allows_owner p \<Longrightarrow> p = owner_perm"
  by (auto simp: valid_permissions_def allows_owner_def perm_consts perm_defs)

lemma find_permission: "p \<in> cl_permissions ` set links \<Longrightarrow> \<exists>link. find (\<lambda>link. cl_permissions link = p) links = Some link"
  by (induction links) auto

lemma new_links_permissions:
  assumes "new_stream_links args visibility = Inr links" "\<forall>link \<in> set (na_links args). valid_permissions (il_permissions link)"
  shows "owner_perm \<in> il_permissions ` set links"
    and "(path, p) \<in> set (asked_files args) \<Longrightarrow> path \<noteq> None \<Longrightarrow> p \<in> il_permissions ` set links"
proof -
  have "links = requested_links visibility (na_links args)" using new_links_Inr(1)[OF assms(1)] .
  then show owner: "owner_perm \<in> il_permissions ` set links"
    using assms(2) valid_allows_owner
    by (cases "\<exists>link \<in> set (na_links args). allows_owner (il_permissions link)")
      (force simp: requested_links_def default_owner_def image_iff)+
  show "p \<in> il_permissions ` set links" if "(path, p) \<in> set (asked_files args)" "path \<noteq> None"
    using that owner new_links_Inr(2,3)[OF assms(1)] by (auto simp: asked_files_def)
qed

text \<open>The errors that say a link is missing from the response.\<close>

definition missing_link :: "('p, 'd, 'j, 'e) command_error \<Rightarrow> bool" where
  "missing_link e \<longleftrightarrow> (\<exists>what. e = LinkNotCreated what) \<or> e = OwnerLinkNotCreated"

lemma write_link_file_found:
  assumes "write_link_file env path created p w = (Err e, w')" "path = None \<or> p \<in> cl_permissions ` set (cr_links created)"
  shows "\<not> missing_link e"
proof (cases path)
  case (Some file_path)
  then obtain link where "find (\<lambda>link. cl_permissions link = p) (cr_links created) = Some link"
    using assms(2) find_permission by blast
  then show ?thesis
    using assms(1) Some
    by (auto simp: write_link_file_def run_then_def lift_result_def lift_outcome_def ok_or_def write_file_def missing_link_def
        split: outcome.splits sum.splits prod.splits)
qed (use assms(1) in \<open>auto simp: write_link_file_def return_ok_def\<close>)

lemma for_each_link_found:
  fixes e :: "('p, 'd, 'j, 'e) command_error"
  assumes "for_each (\<lambda>(path, permissions). write_link_file env path created permissions) files w = (Err e, w')"
    and "\<forall>(path, p) \<in> set files. path = None \<or> p \<in> cl_permissions ` set (cr_links created)"
  shows "\<not> missing_link e"
  using assms
proof (induction files arbitrary: w)
  case (Cons f files)
  obtain path p where f: "f = (path, p)" by (cases f)
  from Cons.prems(1)[unfolded f for_each.simps prod.case] show ?case
  proof (cases rule: run_then_cases)
    case (1 a w1)
    then show ?thesis using Cons by simp
  next
    case (2 e1)
    then show ?thesis using write_link_file_found Cons.prems(2) f by fastforce
  qed simp
qed (simp add: return_ok_def)

lemma print_created_stream_error:
  "print_created_stream env created json show_owner_link w = (Err e, w') \<Longrightarrow> \<not> missing_link e"
  by (auto simp: print_created_stream_def run_then_def lift_outcome_def print_out_def missing_link_def split: if_splits outcome.splits)

lemma on_service_error: "on_service f w = (Err e, w') \<Longrightarrow> \<not> missing_link e"
  by (auto simp: on_service_def lift_outcome_def missing_link_def split: prod.splits outcome.splits)

text \<open>C28: A new stream has the links the command goes on to use. If the service answers a creation with links of the
  permissions that were asked for, \<open>tsf new\<close> never fails because a link is missing from the answer: not for the
  file of any link, and not for the owner link it writes its input with, which it goes on to exactly when
  there is a program to run or input that is not a terminal.\<close>

theorem new_stream_finds_its_links:
  fixes r :: "(('p, 'd, 'j, 'e) command_error, ('i \<times> link_secret) option) outcome" and w :: "('i, 's) world"
  assumes run: "new_stream env base enc entropy parse origin args stdin_is_terminal w = (r, w')"
    and "\<forall>link \<in> set (na_links args). valid_permissions (il_permissions link)"
    and service: "\<And>client links created s slept.
      new_stream_links args (if na_public args then Public else Private) = Inr links
      \<Longrightarrow> with_api_origin base origin = (Inr client :: (url, 'j) client_error + ('i, cli_body, 's) rest_client)
      \<Longrightarrow> create_stream client enc entropy parse
            (CreateStreamBody (new_stream_request args (if na_public args then Public else Private) links)) (w_service w)
          = (Ok created :: ((url, 'j) client_error, 'i create_stream_response) outcome, s, slept)
      \<Longrightarrow> cl_permissions ` set (cr_links created) = il_permissions ` set links"
  shows "case r of
      Err e \<Rightarrow> \<not> missing_link e
    | Ok None \<Rightarrow> na_program args = [] \<and> stdin_is_terminal
    | Ok (Some _) \<Rightarrow> na_program args \<noteq> [] \<or> \<not> stdin_is_terminal
    | Panic \<Rightarrow> True"
proof -
  note steps = run[unfolded new_stream_def Let_def]
  from steps show ?thesis
  proof (cases rule: run_then_cases)
    case (1 links w1)
    then have links: "new_stream_links args (if na_public args then Public else Private) = Inr links" "w1 = w"
      by (auto dest!: lift_cases split: sum.splits)
    from 1(2) show ?thesis
    proof (cases rule: run_then_cases)
      case (1 client w2)
      then have client: "with_api_origin base origin = (Inr client :: (url, 'j) client_error + ('i, cli_body, 's) rest_client)" "w2 = w"
        using links by (auto dest!: lift_cases split: sum.splits)
      from 1(2) show ?thesis
      proof (cases rule: run_then_cases)
        case (1 created w3)
        then have "cl_permissions ` set (cr_links created) = il_permissions ` set links"
          using service[OF links(1) client(1), of created] client(2)
          by (auto simp: on_service_def lift_outcome_def split: prod.splits outcome.splits)
        note there = new_links_permissions[OF links(1) assms(2), folded this]
        have files: "\<forall>(path, p) \<in> set (asked_files args). path = None \<or> p \<in> cl_permissions ` set (cr_links created)"
          using there(2) by blast
        from 1(2) show ?thesis
        proof (cases rule: run_then_cases)
          case (1 u w4)
          from 1(2) show ?thesis
          proof (cases rule: run_then_cases)
            case (1 u w5)
            obtain owner where "find (\<lambda>link. cl_permissions link = owner_perm) (cr_links created) = Some owner"
              using there(1) find_permission by blast
            with 1(2) show ?thesis
              by (auto simp: run_then_def lift_result_def ok_or_def return_ok_def split: if_splits)
          next
            case (2 e)
            then show ?thesis
              using for_each_link_found[OF _ files, of env w4 e w'] by (simp add: write_link_files_def)
          qed simp
        qed (use print_created_stream_error in \<open>fastforce split: outcome.splits\<close>)+
      qed (use on_service_error in \<open>fastforce split: outcome.splits\<close>)+
    qed (auto dest!: lift_cases simp: missing_link_def split: sum.splits)
  qed (auto dest!: lift_cases simp: missing_link_def split: sum.splits)
qed

section \<open>Rows\<close>

lemma collect_outcome_Ok: "collect_outcome f xs = Ok ys \<Longrightarrow> list_all2 (\<lambda>x y. f x = Ok y) xs ys"
  by (induction xs arbitrary: ys) (auto split: outcome.splits)

lemma credential_row_permissions: "credential_row codec created credential = Ok row \<Longrightarrow> lr_permissions row = cl_permissions credential"
  by (auto simp: credential_row_def split: outcome.splits)

text \<open>The rows of a created stream: grouped by permission, reading first, and without those of owner links unless
  they are shown; every other link has its row.\<close>

lemma created_rows_spec:
  assumes "created_rows codec created show_owner_link = Ok rows"
  shows "sorted (map (permission_rank \<circ> lr_permissions) rows)
    \<and> mset (map lr_permissions rows) = mset (filter (\<lambda>p. show_owner_link \<or> \<not> allows_owner p) (map cl_permissions (cr_links created)))
        + (if cr_visibility created = Public then {# read_perm #} else {#})"
proof -
  obtain links where links: "collect_outcome (credential_row codec created)
      (filter (\<lambda>credential. show_owner_link \<or> \<not> allows_owner (cl_permissions credential)) (cr_links created)) = Ok links"
    using assms by (auto simp: created_rows_def split: outcome.splits)
  have "map lr_permissions links = map cl_permissions (filter (\<lambda>credential. show_owner_link \<or> \<not> allows_owner (cl_permissions credential)) (cr_links created))"
    using collect_outcome_Ok[OF links] by (induction rule: list_all2_induct) (auto simp: credential_row_permissions)
  then have perms: "map lr_permissions links = filter (\<lambda>p. show_owner_link \<or> \<not> allows_owner p) (map cl_permissions (cr_links created))"
    by (simp add: filter_map o_def)
  have "image_mset lr_permissions (mset links) = mset (filter (\<lambda>p. show_owner_link \<or> \<not> allows_owner p) (map cl_permissions (cr_links created)))"
    by (simp flip: perms)
  moreover have "mset (map lr_permissions (sort_key k ls)) = mset (map lr_permissions ls)" for k :: "link_row \<Rightarrow> nat" and ls
    by simp
  moreover have "sorted (map (permission_rank \<circ> lr_permissions) (sort_key (\<lambda>row. permission_rank (lr_permissions row)) ls))" for ls
    using sorted_sort_key[of "\<lambda>row. permission_rank (lr_permissions row)" ls] by (simp add: o_def)
  ultimately show ?thesis
    using assms by (auto simp: created_rows_def links split: visibility.splits sum.splits)
qed

section \<open>Examples\<close>

definition sample_owner_url :: url where
  "sample_owner_url = sample_url\<lparr> url_fragment := Some (lit ''o='' @ replicate 32 65) \<rparr>"

definition sample_env :: "(unit, unit, unit, unit, unit) cli_env" where
  "sample_env = \<lparr> ce_codec = sample_codec\<lparr> uc_parse := (\<lambda>_. Inr sample_owner_url) \<rparr>, ce_umask = 0,
     ce_faults = (\<lambda>_. \<lparr> ff_open = None, ff_set_permissions = None, ff_set_len = None, ff_write = None \<rparr>),
     ce_humantime = \<lparr> ht_parse_duration = (\<lambda>_. Inl ()), ht_parse_rfc3339 = (\<lambda>_. Inl ()), ht_format_rfc3339_seconds = (\<lambda>_. None) \<rparr>,
     ce_now = 0 \<rparr>"

definition sample_created :: "unit create_stream_response" where
  "sample_created = \<lparr> cr_stream_id = (), cr_kind = Transcript, cr_title = None, cr_visibility = Public, cr_created_at = [],
     cr_expires_at = [], cr_web_origin = sample_url,
     cr_links = [\<lparr> cl_link_id = LinkId (lit ''owner''), cl_permissions = owner_perm, cl_secret = LinkSecret (replicate 32 65) \<rparr>] \<rparr>"

definition sample_new_args :: new_args where
  "sample_new_args = \<lparr> na_title = None, na_public = True, na_links = [], na_expires = None, na_json = False,
     na_owner_link_file = Some (lit ''f''), na_read_link_file = None, na_write_link_file = None, na_bytes = False, na_program = [] \<rparr>"

text \<open>The file is there with other contents, and anyone may read it.\<close>

definition sample_world :: "(unit, nat) world" where
  "sample_world = \<lparr> w_service = 0, w_files = [lit ''f'' \<mapsto> \<lparr> fe_contents = lit ''something else'', fe_mode = 0x1A4 \<rparr>], w_past = [], w_out = [] \<rparr>"

lemma sample_link: "credential_link (ce_codec sample_env) sample_created (hd (cr_links sample_created)) = Ok sample_owner_url"
proof -
  have "escape (replicate n 65) = replicate n 65" for n
    by (induction n) auto
  then show ?thesis
    by (simp add: credential_link_def resource_link_def stream_link_def sample_created_def sample_env_def sample_codec_def
        build_link_def link_resource_url_def validate_web_scheme_def url_without_user_def url_without_password_def sample_url_def
        sample_owner_url_def permissions_as_str_def owner_perm_def perm_consts lit_def of_char_def)
qed

definition sample_world_after :: "(unit, nat) world" where
  "sample_world_after = snd (write_link_files sample_env sample_created sample_new_args sample_world
     :: ((unit, unit, unit, unit) command_error, unit) outcome \<times> _)"

lemma sample_write:
  "write_link_files sample_env sample_created sample_new_args sample_world
    = ((Ok (), sample_world_after) :: ((unit, unit, unit, unit) command_error, unit) outcome \<times> _)"
proof -
  have "fst (write_link_files sample_env sample_created sample_new_args sample_world
     :: ((unit, unit, unit, unit) command_error, unit) outcome \<times> _) = Ok ()"
    using sample_link
    by (simp add: write_link_files_def asked_files_def sample_new_args_def write_link_file_def run_then_def return_ok_def
        lift_result_def ok_or_def lift_outcome_def write_file_def write_private_file_def sample_env_def Let_def sample_created_def)
  then show ?thesis by (simp add: sample_world_after_def prod_eq_iff)
qed

lemma link_files_are_private_witness:
  "w_files sample_world_after (lit ''f'') = Some \<lparr> fe_contents = lit ''https://h/s/i'', fe_mode = 0x180 \<rparr>
    \<and> (\<exists>states. passes sample_world states sample_world_after \<and> list_all (shielded (w_files sample_world)) states)"
proof -
  note written = link_files_are_private[OF sample_write]
  then have "holds_link sample_env sample_created owner_perm (lit ''f'') (w_files sample_world_after)"
    by (auto simp: asked_files_def sample_new_args_def)
  moreover have "uc_show (ce_codec sample_env) url = lit ''https://h/s/i''" for url
    by (simp add: sample_env_def sample_codec_def)
  ultimately have "w_files sample_world_after (lit ''f'') = Some \<lparr> fe_contents = lit ''https://h/s/i'', fe_mode = 0x180 \<rparr>"
    by (auto simp: holds_link_def PRIVATE_MODE_def)
  with written show ?thesis by (auto simp: list_all_iff)
qed

text \<open>A client of a service that answers every request with success and counts them.\<close>

definition sample_base :: "(unit, cli_body, nat) rest_client" where
  "sample_base = \<lparr> tc_config = sample_config, tc_jitter = id, tc_show_id = (\<lambda>_. lit ''i''), tc_parse_error = (\<lambda>_. None),
     tc_server = (\<lambda>request n. (Inr ((sample_response [])\<lparr> hr_status := if hq_method request = ''DELETE'' then 204 else 200 \<rparr>), Suc n)) \<rparr>"

definition sample_origin :: url where "sample_origin = cc_api_origin sample_config"

definition sample_secret :: link_secret where "sample_secret = LinkSecret (replicate 32 65)"

definition sample_access :: "(unit, nat) owner_access" where
  "sample_access = \<lparr> oa_client = sample_base,
     oa_locator = \<lparr> sl_stream_id = (), sl_route = RouteStream,
       sl_link = Some \<lparr> lp_declared_permissions = owner_perm, lp_secret = sample_secret \<rparr>, sl_anchor = None \<rparr>,
     oa_link_secret = sample_secret \<rparr>"

lemma sample_client: "with_api_origin sample_base sample_origin = (Inr sample_base :: (url, unit) client_error + _)"
proof -
  have "client_config_new sample_origin = (Inr sample_config :: (url, unit) client_error + _)"
    by (simp add: client_config_new_def sample_origin_def sample_config_def validate_api_origin_def)
  then show ?thesis by (simp add: with_api_origin_def with_config_def) (simp add: sample_base_def)
qed

lemma sample_codec_valid: "form_codec (ce_codec sample_env)" "id_codec (ce_codec sample_env)"
  using sample_codecs by (simp_all add: form_codec_def id_codec_def sample_env_def)

lemma sample_secret_valid: "valid_link_secret (uc_decode_secret (ce_codec sample_env)) sample_secret"
  by (simp add: valid_link_secret_def sample_env_def sample_codec_def is_canonical_base64url_24_def BASE64URL_24_ENCODED_LEN_def
      utf8_chars_ascii sample_secret_def)

lemma sample_printed:
  "credential_link (ce_codec sample_env) sample_created (hd (cr_links sample_created)) = Ok url
    \<Longrightarrow> prints_back (ce_codec sample_env) url \<and> plain_text (uc_show (ce_codec sample_env) url)"
  by (simp add: sample_link) (simp add: prints_back_def plain_text_def sample_env_def sample_codec_def lit_def of_char_def)

lemma owner_link_file_resolves_witness:
  "\<exists>input. link_input_from_str (read_file (w_files sample_world_after)) (lit ''@f'') = Inr input
    \<and> owner_resolve sample_env sample_base sample_origin input = (Inr sample_access :: (unit, unit, unit, unit) command_error + _)"
proof -
  have "(Ok () :: ((unit, unit, unit, unit) command_error, unit) outcome) = Ok ()" by simp
  note resolves = owner_link_file_resolves[OF sample_codec_valid _ _ sample_write this _ _ _ _ sample_client, of "lit ''f''"]
  have "lit ''@f'' = lit ''@'' @ lit ''f''" "lit ''f'' \<noteq> []"
    by (simp_all add: lit_def)
  then show ?thesis
    using resolves sample_printed sample_secret_valid
    by (simp add: sample_created_def sample_new_args_def sample_access_def kind_route_def sample_secret_def)
qed

lemma sample_resolve:
  "owner_resolve sample_env sample_base sample_origin (LinkInput (lit ''https://h/s/i'')) = (Inr sample_access :: (unit, unit, unit, unit) command_error + _)"
proof -
  have url: "build_link (ce_codec sample_env) sample_url () owner_perm sample_secret (route_prefix RouteStream) = Ok sample_owner_url"
    using sample_link by (simp add: credential_link_def resource_link_build kind_route_def sample_created_def sample_secret_def)
  have "prints_back (ce_codec sample_env) sample_owner_url" "uc_show (ce_codec sample_env) sample_owner_url = lit ''https://h/s/i''"
    by (simp_all add: prints_back_def sample_env_def sample_codec_def)
  with built_link_parses(1)[OF sample_codec_valid valid_owner(1) sample_secret_valid url]
  have "stream_locator_parse (ce_codec sample_env) (lit ''https://h/s/i'') = Inr (oa_locator sample_access)"
    by (simp add: sample_access_def)
  then show ?thesis
    using sample_client
    by (simp add: owner_resolve_def map_err_def ok_or_def link_declaring_def valid_owner(2) sample_access_def)
qed

lemma sample_command_attempts: "[Suc 0..<cc_bounded_operation_attempts (tc_config sample_base) + 1] = [1, 2, 3]"
  by (simp add: sample_base_def upt_rec)

lemma sample_delete:
  "delete_stream sample_base () sample_secret n = ((Ok (), Suc n, []) :: (unit, unit, nat) rest_result)"
  by (simp add: delete_stream_def retry_transient_def retry_when_def Let_def sample_command_attempts[simplified] send_empty_def send_request_def
      sample_base_def plain_request_def sample_response_def map_err_def upt_rec)

lemma deletion_is_confirmed_witness:
  "\<exists>w'. delete_stream_command sample_env sample_base sample_origin (LinkInput (lit ''https://h/s/i'')) False False
        (TerminalAnswers (lit ''Yes'')) sample_world = ((Ok (), w') :: ((unit, unit, unit, unit) command_error, unit) outcome \<times> _)
    \<and> w_service w' = 1 \<and> confirms False (TerminalAnswers (lit ''Yes''))"
proof -
  have "trim_str (lit ''Yes'') = lit ''Yes''"
    by (intro trim_str_plain) (simp add: plain_text_def lit_def)
  then have yes: "map to_ascii_lowercase (trim_str (lit ''Yes'')) = lit ''yes''"
    by (simp add: to_ascii_lowercase_def in_range_def lit_def)
  define w' where "w' = snd (delete_stream_command sample_env sample_base sample_origin (LinkInput (lit ''https://h/s/i'')) False False
        (TerminalAnswers (lit ''Yes'')) sample_world :: ((unit, unit, unit, unit) command_error, unit) outcome \<times> _)"
  have command: "delete_stream_command sample_env sample_base sample_origin (LinkInput (lit ''https://h/s/i'')) False False
        (TerminalAnswers (lit ''Yes'')) sample_world = ((Ok (), w') :: ((unit, unit, unit, unit) command_error, unit) outcome \<times> _)"
    and one: "w_service w' = 1"
    unfolding w'_def
    by (simp_all add: delete_stream_command_def run_then_def lift_result_def sample_resolve confirm_delete_def yes return_ok_def
        print_out_def Let_def on_service_def lift_outcome_def sample_delete sample_world_def)
      (simp_all add: sample_access_def sample_delete print_out_def)
  show ?thesis
    using deletion_is_confirmed[OF command] command one by (auto simp: sample_world_def)
qed

definition sample_piped_args :: new_args where
  "sample_piped_args = sample_new_args\<lparr> na_json := True, na_program := [lit ''cat''] \<rparr>"

lemma sample_links: "new_stream_links sample_piped_args Public = Inr [\<lparr> il_link_id = LinkId (lit ''owner''), il_permissions = owner_perm \<rparr>]"
  by (simp add: new_stream_links_def with_owner_link_eq with_reader_link_eq default_owner_def default_reader_def sample_piped_args_def
      sample_new_args_def MAX_INITIAL_STREAM_LINKS_def)

lemma sample_create_stream:
  "create_stream sample_base id [] (\<lambda>_. Inr sample_created) request n = ((Ok sample_created, Suc n, []) :: (unit, unit create_stream_response, nat) rest_result)"
  by (simp add: create_stream_def create_stream_with_idempotency_key_def retry_when_def Let_def sample_command_attempts[simplified]
      send_json_with_bearer_def send_request_def json_response_def bounded_response_body_def is_success_def create_stream_request_def
      sample_base_def plain_request_def sample_response_def map_err_def upt_rec const_defs)

lemma sample_json: "\<exists>output. created_json (ce_codec sample_env) sample_created = (Ok output :: ((unit, unit) stream_link_error, _) outcome)"
  using sample_link
  by (simp add: created_json_def sample_created_def credential_output_def public_resource_url_def public_stream_url_def link_resource_url_def
      validate_web_scheme_def url_without_user_def url_without_password_def sample_url_def)

lemma new_stream_finds_its_links_witness:
  "\<exists>w'. new_stream sample_env sample_base id [] (\<lambda>_. Inr sample_created) sample_origin sample_piped_args False sample_world
      = ((Ok (Some ((), sample_secret)), w') :: ((unit, unit, unit, unit) command_error, (unit \<times> link_secret) option) outcome \<times> _)
    \<and> (na_program sample_piped_args \<noteq> [] \<or> \<not> False)"
proof -
  obtain shown where json: "created_json (ce_codec sample_env) sample_created = (Ok shown :: ((unit, unit) stream_link_error, _) outcome)"
    using sample_json by blast
  have owner: "find (\<lambda>link. cl_permissions link = owner_perm) (cr_links sample_created) = Some (hd (cr_links sample_created))"
      "cl_secret (hd (cr_links sample_created)) = sample_secret" "cr_stream_id sample_created = ()"
    by (simp_all add: sample_created_def sample_secret_def)
  have public: "na_public sample_piped_args" "na_json sample_piped_args" "na_program sample_piped_args = [lit ''cat'']"
      "asked_files sample_piped_args = [(Some (lit ''f''), owner_perm), (None, read_perm), (None, write_perm)]"
    by (simp_all add: sample_piped_args_def sample_new_args_def asked_files_def)
  define result where "result = (new_stream sample_env sample_base id [] (\<lambda>_. Inr sample_created) sample_origin sample_piped_args False sample_world
      :: ((unit, unit, unit, unit) command_error, (unit \<times> link_secret) option) outcome \<times> _)"
  have sample_permissions: "cl_permissions ` set (cr_links sample_created) = {owner_perm}"
    by (simp add: sample_created_def)
  have faults: "ce_faults sample_env path = \<lparr> ff_open = None, ff_set_permissions = None, ff_set_len = None, ff_write = None \<rparr>" for path
    by (simp add: sample_env_def)
  have "fst result = Ok (Some ((), sample_secret))"
    unfolding result_def
    by (simp add: new_stream_def public sample_links sample_client sample_create_stream run_then_def lift_result_def lift_outcome_def
        on_service_def print_created_stream_def json print_out_def write_link_files_def write_link_file_def return_ok_def owner ok_or_def
        sample_link write_file_def write_private_file_def faults Let_def)
  then have run: "new_stream sample_env sample_base id [] (\<lambda>_. Inr sample_created) sample_origin sample_piped_args False sample_world
      = ((Ok (Some ((), sample_secret)), snd result) :: ((unit, unit, unit, unit) command_error, (unit \<times> link_secret) option) outcome \<times> _)"
    by (simp add: result_def prod_eq_iff)
  have "case Ok (Some ((), sample_secret)) of
      Err e \<Rightarrow> \<not> missing_link (e :: (unit, unit, unit, unit) command_error)
    | Ok None \<Rightarrow> na_program sample_piped_args = [] \<and> False
    | Ok (Some _) \<Rightarrow> na_program sample_piped_args \<noteq> [] \<or> \<not> False
    | Panic \<Rightarrow> True"
  proof (rule new_stream_finds_its_links[OF run])
    show "\<forall>link \<in> set (na_links sample_piped_args). valid_permissions (il_permissions link)"
      by (simp add: sample_piped_args_def sample_new_args_def)
  next
    fix client links created s slept
    assume "new_stream_links sample_piped_args (if na_public sample_piped_args then Public else Private) = Inr links"
      and "with_api_origin sample_base sample_origin = (Inr client :: (url, unit) client_error + (unit, cli_body, nat) rest_client)"
      and "create_stream client id [] (\<lambda>_. Inr sample_created)
          (CreateStreamBody (new_stream_request sample_piped_args (if na_public sample_piped_args then Public else Private) links)) (w_service sample_world)
        = (Ok created :: ((url, unit) client_error, unit create_stream_response) outcome, s, slept)"
    then show "cl_permissions ` set (cr_links created) = il_permissions ` set links"
      using sample_permissions by (auto simp: public sample_links sample_client sample_create_stream)
  qed
  then show ?thesis using run by simp
qed

end
