(* ===== verification/CommandInput.thy ===== *)
theory CommandInput
  imports TranscriptWrite CliCommands
begin

text \<open>
  \<open>tsf write LINK -- program\<close> and \<open>tsf new -- program\<close> (\<open>cli/src/main.rs\<close>): the output of a child process is written to the
  stream, and \<open>tsf\<close> ends as the child did once the output is durable. The child is an environment: whether it can be
  spawned, how its two readers and the wait for it end. Its output is the events of the input loops, where an
  interrupt kills it and ends the input. Listening for the interrupt does not fail while the output is copied.
\<close>

section \<open>Which writer\<close>

text \<open>\<open>write_stream\<close> and \<open>write_input\<close>: the link a writer is connected with, and where its input comes from.\<close>

datatype 'x input_source = FromStdin | FromProgram "'x list"

definition input_source_of :: "rstr list \<Rightarrow> rstr input_source" where
  "input_source_of program = (if program = [] then FromStdin else FromProgram program)"

datatype ('p, 'd) write_target_error =
    WriteLinkInvalid "('p, 'd) stream_link_error"
  | NotARecordStream
  | NoWritePermission

definition write_target :: "('i, 'p, 'd) url_codec \<Rightarrow> link_input \<Rightarrow> ('p, 'd) write_target_error + 'i \<times> link_secret" where
  "write_target codec link =
     and_then (map_err WriteLinkInvalid (stream_locator_parse codec (link_input_str link))) (\<lambda>locator.
     if sl_route locator = RouteTerminal then Inl NotARecordStream
     else and_then (ok_or NoWritePermission (link_declaring allows_write locator)) (\<lambda>link_secret.
       Inr (sl_stream_id locator, link_secret)))"

section \<open>The child\<close>

record 'c child_env =
  cv_spawn :: "'c option"
  cv_stdout :: "'c + unit"
  cv_stderr :: "'c + unit"
  cv_wait :: "'c + exit_status"

datatype ('c, 'e) command_input_error =
    NoProgram
  | SpawnFailed 'c
  | OutputNotWritten "'e write_error"
  | ReaderFailed 'c
  | WaitFailed 'c

record child_outcome =
  cx_status :: exit_status
  cx_interrupted :: bool

text \<open>The result, whether the child was killed, and the writer session.\<close>

definition stream_child_command_output :: "('t, 'e, 's) writer_service \<Rightarrow> write_buffering \<Rightarrow> rstr list \<Rightarrow> 'c child_env \<Rightarrow> input_event list
    \<Rightarrow> 't writer_session \<Rightarrow> 's \<Rightarrow> (('c, 'e) command_input_error, child_outcome) outcome \<times> bool \<times> 't writer_session \<times> 's" where
  "stream_child_command_output svc buffering command child events session s =
     (if command = [] then (Err NoProgram, False, session, s)
      else case cv_spawn child of Some e \<Rightarrow> (Err (SpawnFailed e), False, session, s) | None \<Rightarrow>
      case stream_chunks_to_writer svc buffering events session s of
        (Err e, session, s) \<Rightarrow> (Err (OutputNotWritten e), True, session, s)
      | (Panic, session, s) \<Rightarrow> (Panic, Interrupted \<in> set events, session, s)
      | (Ok _, session, s) \<Rightarrow>
          let interrupted = Interrupted \<in> set events in
          (case and_then (cv_stdout child) (\<lambda>_. cv_stderr child) of
             Inl e \<Rightarrow> (Err (ReaderFailed e), interrupted, session, s)
           | Inr _ \<Rightarrow> (case cv_wait child of
                 Inl e \<Rightarrow> (Err (WaitFailed e), interrupted, session, s)
               | Inr status \<Rightarrow> (Ok \<lparr> cx_status = status, cx_interrupted = interrupted \<rparr>, interrupted, session, s))))"

text \<open>How the process ends: with an exit code, or with an error that \<open>main\<close> reports. While the write is being finished a further
  interrupt ends the process at once, whatever is durable by then.\<close>

datatype ('c, 'e) process_end = Exits "32 word" | Fails "('c, 'e) command_input_error" | Aborts

definition exit_success :: "exit_status \<Rightarrow> bool" where
  "exit_success status \<longleftrightarrow> es_code status = Some 0"

definition stream_command_to_writer :: "('t, 'e, 's) writer_service \<Rightarrow> write_buffering \<Rightarrow> rstr list \<Rightarrow> 'c child_env \<Rightarrow> input_event list \<Rightarrow> 's
    \<Rightarrow> ('c, 'e) process_end \<times> 's" where
  "stream_command_to_writer svc buffering command child events s =
     (case stream_child_command_output svc buffering command child events session_new s of
        (Err e, _, session, s) \<Rightarrow> (Fails e, s)
      | (Panic, _, session, s) \<Rightarrow> (Aborts, s)
      | (Ok child_end, _, session, s) \<Rightarrow>
          (case finish_write svc session s of
             (Err ExitedAtOnce, s) \<Rightarrow> (Exits 130, s)
           | (Err e, s) \<Rightarrow> (Fails (OutputNotWritten e), s)
           | (Panic, s) \<Rightarrow> (Aborts, s)
           | (Ok records, s) \<Rightarrow>
               if cx_interrupted child_end then (Exits 130, s)
               else if exit_success (cx_status child_end) then (Exits 0, s)
               else (Exits (exit_code_from_status (cx_status child_end)), s)))"

section \<open>Properties\<close>

text \<open>A command that exits has read all of its input; the rest is how its write was finished.\<close>

lemma command_writes_input:
  assumes "stream_command_to_writer svc buffering command child events s = ((Exits code :: ('c, 'e) process_end), s')"
  obtains session s1 status and r :: "('e write_error, u64) outcome"
  where "stream_chunks_to_writer svc buffering events session_new s = (Ok (), session, s1)" "finish_write svc session s1 = (r, s')"
    "cv_wait child = Inr status"
    "r = Err ExitedAtOnce \<and> code = 130 \<or> (\<exists>records. r = Ok records)
       \<and> code = (if Interrupted \<in> set events then 130 else if exit_success status then 0 else exit_code_from_status status)"
  using assms
  by (auto simp: stream_command_to_writer_def stream_child_command_output_def Let_def
      split: if_splits option.splits outcome.splits prod.splits sum.splits write_error.splits)

text \<open>How the operating system reports the end of a process: one of a code and a signal number.\<close>

definition exit_reported :: "exit_status \<Rightarrow> bool" where
  "exit_reported status \<longleftrightarrow> (case es_signal status of None \<Rightarrow> True | Some n \<Rightarrow> 0 < n \<and> n < 128)"

lemma exit_code_zero:
  assumes "exit_reported status" "\<not> exit_success status"
  shows "exit_code_from_status status \<noteq> 0"
proof (cases "es_code status")
  case None
  have "128 + n \<noteq> 0" if "n < 128" for n :: "32 word"
  proof -
    have "unat (128 + n) = 128 + unat n"
      using that by (simp add: unat_word_ariths word_less_nat_alt)
    then show ?thesis by auto
  qed
  with None assms show ?thesis by (auto simp: exit_code_from_status_def exit_reported_def split: option.splits)
qed (use assms in \<open>auto simp: exit_code_from_status_def exit_success_def\<close>)

text \<open>C27: The exit code of a command. When \<open>tsf write\<close> with a program exits with a code, either all the lines the program
  printed, up to an interrupt, are durable and the writer is closed, or a further interrupt came while \<open>tsf\<close> waited for that:
  then the code is 130, all those lines have been submitted, and nothing was done after the interrupt was seen. In the first case the
  code is zero exactly when nothing was interrupted and the program succeeded, and otherwise it is the program's own code,
  128 plus its signal, or 130 for an interrupt.\<close>

theorem command_exits_durably:
  assumes "stream_command_to_writer (logged_service svc) BufferLines command child events (s, [])
      = ((Exits code :: ('c, 'e) process_end), s', calls)"
    and "\<forall>status. cv_wait child = Inr status \<longrightarrow> exit_reported status"
  shows "(\<exists>records status. written carries_line (input_lines (taken_input events)) (Ok records :: ('e write_error, u64) outcome) calls
    \<and> cv_wait child = Inr status
    \<and> (code = 0 \<longleftrightarrow> Interrupted \<notin> set events \<and> exit_success status)
    \<and> (Interrupted \<notin> set events \<and> \<not> exit_success status \<longrightarrow> code = exit_code_from_status status)
    \<and> (Interrupted \<in> set events \<longrightarrow> code = 130))
   \<or> (code = 130 \<and> calls \<noteq> [] \<and> last calls = StopSeen
    \<and> list_all2 carries_line (input_lines (taken_input events)) (submitted calls))"
proof -
  obtain session s1 log1 status and r :: "('e write_error, u64) outcome"
    where chunks: "stream_chunks_to_writer (logged_service svc) BufferLines events session_new (s, [])
        = ((Ok () :: ('e write_error, unit) outcome), session, s1, log1)"
      and finish: "finish_write (logged_service svc) session (s1, log1) = (r, s', calls)" and status: "cv_wait child = Inr status"
      and code: "r = Err ExitedAtOnce \<and> code = 130 \<or> (\<exists>records. r = Ok records)
       \<and> code = (if Interrupted \<in> set events then 130 else if exit_success status then 0 else exit_code_from_status status)"
    using command_writes_input[OF assms(1)] by (metis surj_pair)
  have done_lines: "written carries_line (input_lines (taken_input events)) r calls"
    "stopped_after carries_line (input_lines (taken_input events)) r calls"
    using finish_write_written[OF finish line_chunks_written[OF chunks]] by simp_all
  have "exit_reported status" using assms(2) status by blast
  then have zero: "\<not> exit_success status \<Longrightarrow> exit_code_from_status status \<noteq> 0"
    by (rule exit_code_zero)
  from code show ?thesis
  proof
    assume "r = Err ExitedAtOnce \<and> code = 130"
    then show ?thesis using done_lines(2) by (simp add: stopped_after_def)
  next
    assume "(\<exists>records. r = Ok records)
       \<and> code = (if Interrupted \<in> set events then 130 else if exit_success status then 0 else exit_code_from_status status)"
    then show ?thesis using done_lines(1) status zero by (auto split: if_splits)
  qed
qed

text \<open>A program that prints two lines and exits with code 3.\<close>

definition sample_child :: "unit child_env" where
  "sample_child = \<lparr> cv_spawn = None, cv_stdout = Inr (), cv_stderr = Inr (), cv_wait = Inr \<lparr> es_code = Some 3, es_signal = None \<rparr> \<rparr>"

lemma sample_command_run:
  "stream_command_to_writer (logged_service prompt_service) BufferLines [lit ''p''] sample_child [Chunk [97, 10, 98], LingerElapsed, Chunk [99]] (0, [])
    = ((Exits 3 :: (unit, unit) process_end), 2,
       [Submitted (one_record [97]) 0, Submitted (one_record [98, 99]) 1, TicketOk 0, TicketOk 1, WriterClosed True])"
  by (simp add: stream_command_to_writer_def stream_child_command_output_def sample_child_def exit_success_def exit_code_from_status_def
      write_run_defs push_lines_line push_lines_no_line result_simps)

lemma command_exits_durably_witness:
  "\<exists>records. written carries_line [[97], [98, 99]] (Ok records :: (unit write_error, u64) outcome)
     [Submitted (one_record [97]) 0, Submitted (one_record [98, 99]) (1 :: nat), TicketOk 0, TicketOk 1, WriterClosed True]
    \<and> exit_code_from_status \<lparr> es_code = Some 3, es_signal = None \<rparr> = 3"
proof -
  have "exit_reported status" if "cv_wait sample_child = Inr status" for status
    using that by (auto simp: sample_child_def exit_reported_def)
  with command_exits_durably[OF sample_command_run] show ?thesis
    by (auto simp: input_lines_def sample_child_def exit_code_from_status_def)
qed

end
