(* ===== verification/WriteSession.thy ===== *)
theory WriteSession
  imports WriterActor ReadSocket
begin

text \<open>
  Connecting write sessions (\<open>rust/src/client.rs\<close>): the opening frame and its URL, one connection attempt, the bounded
  attempts of the first connection, the durable writers of the three routes, and the low-level session a caller
  numbers itself. The network is the script of the read sockets; the random identity is a parameter.
\<close>

section \<open>Options\<close>

record 'i write_session_options =
  wo_stream_id :: 'i
  wo_client_writer_id :: client_writer_id
  wo_link_secret :: link_secret
  wo_expected_next_seq_num :: "u64 option"

definition write_session_options_new :: "'i \<Rightarrow> client_writer_id \<Rightarrow> link_secret \<Rightarrow> 'i write_session_options" where
  "write_session_options_new stream_id client_writer_id link_secret = \<lparr> wo_stream_id = stream_id,
     wo_client_writer_id = client_writer_id, wo_link_secret = link_secret, wo_expected_next_seq_num = None \<rparr>"

record 'i durable_writer_options =
  dw_stream_id :: 'i
  dw_link_secret :: link_secret
  dw_expected_next_seq_num :: "u64 option"

definition durable_writer_options_new :: "'i \<Rightarrow> link_secret \<Rightarrow> 'i durable_writer_options" where
  "durable_writer_options_new stream_id link_secret =
     \<lparr> dw_stream_id = stream_id, dw_link_secret = link_secret, dw_expected_next_seq_num = None \<rparr>"

definition with_expected_next_seq_num :: "u64 \<Rightarrow> 'i durable_writer_options \<Rightarrow> 'i durable_writer_options" where
  "with_expected_next_seq_num expected options = options\<lparr> dw_expected_next_seq_num := Some expected \<rparr>"

section \<open>Connecting\<close>

text \<open>\<open>sn_buffered\<close> is what the socket holds back until it is flushed, \<open>sn_wire\<close> what the transport was given.\<close>

record write_session =
  sn_socket :: read_socket
  sn_progress_timeout :: duration
  sn_stream_kind :: stream_kind
  sn_buffered :: "bytes list"
  sn_wire :: "bytes list"

definition write_request :: "('i, 'j) read_client \<Rightarrow> 'i write_session_options \<Rightarrow> data_plane_route
    \<Rightarrow> ('u, 'j) client_error + url \<times> bytes" where
  "write_request client options route =
     and_then (websocket_url (rc_config client) (route_path (rc_show_id client) route (wo_stream_id options) ''write'')) (\<lambda>url.
     and_then (map_err FrameError (client_encode list_buf
       (OpenWrite (wo_client_writer_id options) (wo_link_secret options) (wo_expected_next_seq_num options)))) (\<lambda>opening_frame.
     Inr (url, opening_frame)))"

definition accept_write_session :: "('i, 'j) read_client \<Rightarrow> connect_script \<Rightarrow> ('u, 'j) client_error + write_session" where
  "accept_write_session client script =
     and_then (connect_websocket script) (\<lambda>(elapsed, waits).
     case expect_ready (rc_from_json client) (case waits of [] \<Rightarrow> [] | w # _ \<Rightarrow> w) of
       (ready, rest) \<Rightarrow>
         and_then (with_timeout elapsed ''writer ready'' ready) (\<lambda>kind.
         Inr \<lparr> sn_socket = rest # tl waits, sn_progress_timeout = cc_websocket_progress_timeout (rc_config client),
           sn_stream_kind = kind, sn_buffered = [], sn_wire = [] \<rparr>))"

definition connect_write_session_once :: "('i, 'j) read_client \<Rightarrow> 'i write_session_options \<Rightarrow> data_plane_route \<Rightarrow> network
    \<Rightarrow> (('u, 'j) client_error + write_session) \<times> network" where
  "connect_write_session_once client options route net =
     (case write_request client options route of
        Inl e \<Rightarrow> (Inl e, net)
      | Inr request \<Rightarrow> (case next_attempt request net of (script, net) \<Rightarrow> (accept_write_session client script, net)))"

definition open_write_session :: "('i, 'j) read_client \<Rightarrow> 'i write_session_options \<Rightarrow> data_plane_route \<Rightarrow> network
    \<Rightarrow> ((url, 'j) client_error, write_session) outcome \<times> network" where
  "open_write_session client options route net =
     (case retry_transient (rc_config client) (rc_jitter client) (connect_write_session_once client options route) net of
        (r, net, _) \<Rightarrow> (r, net))"

definition connect_write_session :: "('i, 'j) read_client \<Rightarrow> 'i write_session_options \<Rightarrow> network
    \<Rightarrow> ((url, 'j) client_error, write_session) outcome \<times> network" where
  "connect_write_session client options net = open_write_session client options RouteRecords net"

section \<open>Durable writers\<close>

text \<open>What \<open>TsfWriter::new\<close> spawns the actor with: its connection parameters, its socket and its first state.\<close>

record ('i, 'u, 'j, 't, 'd) durable_writer =
  dr_options :: "'i write_session_options"
  dr_route :: data_plane_route
  dr_session :: write_session
  dr_actor :: "('u, 'j, 't, 'd) writer_actor"

definition connect_writer_route :: "('i, 'j) read_client \<Rightarrow> bytes \<Rightarrow> 'i durable_writer_options \<Rightarrow> data_plane_route \<Rightarrow> network
    \<Rightarrow> ((url, 'j) client_error, ('i, 'u, 'j, 't, 'd) durable_writer) outcome \<times> network" where
  "connect_writer_route client entropy options route net =
     (let session_options = (write_session_options_new (dw_stream_id options) (ClientWriterId entropy) (dw_link_secret options))
            \<lparr> wo_expected_next_seq_num := dw_expected_next_seq_num options \<rparr> in
      case open_write_session client session_options route net of
        (Ok session, net) \<Rightarrow> (Ok \<lparr> dr_options = session_options\<lparr> wo_expected_next_seq_num := None \<rparr>, dr_route = route,
          dr_session = session, dr_actor = writer_new (sn_stream_kind session) \<rparr>, net)
      | (Err e, net) \<Rightarrow> (Err e, net)
      | (Panic, net) \<Rightarrow> (Panic, net))"

definition connect_writer :: "('i, 'j) read_client \<Rightarrow> bytes \<Rightarrow> 'i durable_writer_options \<Rightarrow> network
    \<Rightarrow> ((url, 'j) client_error, ('i, 'u, 'j, 't, 'd) durable_writer) outcome \<times> network" where
  "connect_writer client entropy options net = connect_writer_route client entropy options RouteRecords net"

definition connect_terminal_input_writer :: "('i, 'j) read_client \<Rightarrow> bytes \<Rightarrow> 'i durable_writer_options \<Rightarrow> network
    \<Rightarrow> ((url, 'j) client_error, ('i, 'u, 'j, 't, 'd) durable_writer) outcome \<times> network" where
  "connect_terminal_input_writer client entropy options net = connect_writer_route client entropy options RouteTerminalInput net"

definition connect_terminal_output_writer :: "('i, 'j) read_client \<Rightarrow> bytes \<Rightarrow> 'i durable_writer_options \<Rightarrow> network
    \<Rightarrow> ((url, 'j) client_error, ('i, 'u, 'j, 't, 'd) durable_writer) outcome \<times> network" where
  "connect_terminal_output_writer client entropy options net = connect_writer_route client entropy options RouteTerminalOutput net"

text \<open>The attempts of the writer's recovery (\<open>recover_pending_appends\<close>): what its loop is told about each.\<close>

fun reconnect_attempts :: "('i, 'j) read_client \<Rightarrow> ('i, 'u, 'j, 't, 'd) durable_writer \<Rightarrow> nat \<Rightarrow> network
    \<Rightarrow> (('u, 'j) client_error + stream_kind) list \<times> network" where
  "reconnect_attempts client writer 0 net = ([], net)"
| "reconnect_attempts client writer (Suc n) net =
     (case connect_write_session_once client (dr_options writer) (dr_route writer) net of
        (r, net) \<Rightarrow> (case reconnect_attempts client writer n net of
          (rest, net) \<Rightarrow> ((case r of Inl e \<Rightarrow> Inl e | Inr session \<Rightarrow> Inr (sn_stream_kind session)) # rest, net)))"

section \<open>Low-level sessions\<close>

text \<open>\<open>send\<close> with what the socket answers to the feed and the flush, and whether the progress timeout passes, which leaves
  the record buffered or not.\<close>

definition buffer_batch :: "websocket_error option \<Rightarrow> append_record list \<Rightarrow> write_session
    \<Rightarrow> (('u, 'j) client_error + unit) \<times> write_session" where
  "buffer_batch feed records session =
     (case map_err FrameError (encode_append_batch list_buf records) of
        Inl e \<Rightarrow> (Inl e, session)
      | Inr frame \<Rightarrow> (case feed of
            Some e \<Rightarrow> (Inl (WebSocket e), session)
          | None \<Rightarrow> (Inr (), session\<lparr> sn_buffered := sn_buffered session @ [frame] \<rparr>)))"

definition flush_session :: "websocket_error option \<Rightarrow> write_session \<Rightarrow> (('u, 'j) client_error + unit) \<times> write_session" where
  "flush_session io session = (case io of
       Some e \<Rightarrow> (Inl (WebSocket e), session)
     | None \<Rightarrow> (Inr (), session\<lparr> sn_buffered := [], sn_wire := sn_wire session @ sn_buffered session \<rparr>))"

datatype send_progress = FeedElapsed | FlushElapsed | Answers "websocket_error option" "websocket_error option"

definition send_record :: "send_progress \<Rightarrow> append_record \<Rightarrow> write_session \<Rightarrow> (('u, 'j) client_error + unit) \<times> write_session" where
  "send_record progress r session = (case progress of
       FeedElapsed \<Rightarrow> (Inl (Timeout ''send append frame''), session)
     | FlushElapsed \<Rightarrow> (case buffer_batch None [r] session of
           (Inl e, session) \<Rightarrow> (Inl e, session)
         | (Inr _, session) \<Rightarrow> (Inl (Timeout ''send append frame''), session))
     | Answers feed io \<Rightarrow> (case buffer_batch feed [r] session of
           (Inl e, session) \<Rightarrow> (Inl e, session)
         | (Inr _, session) \<Rightarrow> flush_session io session))"

text \<open>As for readers, a wait that ends in control messages while others follow has run into its timeout.\<close>

definition next_ack :: "(bytes \<Rightarrow> 'j + 'i stream_metadata) \<Rightarrow> write_session
    \<Rightarrow> (('u, 'j) client_error + append_ack option) \<times> write_session" where
  "next_ack from_json session = (case sn_socket session of
       [] \<Rightarrow> (fst (recv_ack from_json []), session)
     | w # waits \<Rightarrow>
         if list_all is_control w \<and> waits \<noteq> []
         then (with_timeout True ''append acknowledgement'' (fst (recv_ack from_json w)), session\<lparr> sn_socket := waits \<rparr>)
         else (case recv_ack from_json w of (r, rest) \<Rightarrow> (r, session\<lparr> sn_socket := rest # waits \<rparr>)))"

section \<open>Properties\<close>

text \<open>The bounded loop over something that logs each of its runs.\<close>

lemma retry_loop_log:
  assumes "\<And>s r s'. run s = (r, s') \<Longrightarrow> logged s' = logged s @ [x]"
  shows "retry_loop run should_retry backoff attempts ns s = (r, s', slept)
    \<Longrightarrow> \<exists>k \<le> length ns. logged s' = logged s @ replicate k x \<and> (ns \<noteq> [] \<longrightarrow> 0 < k)"
proof (induction ns arbitrary: s r s' slept)
  case (Cons n ns)
  obtain a mid where run: "run s = (a, mid)" by (cases "run s")
  note first = assms[OF run]
  show ?case
  proof (cases "logged s' = logged mid")
    case True
    then show ?thesis using first by (intro exI[of _ 1]) simp
  next
    case False
    then obtain r2 slept2 where rec: "retry_loop run should_retry backoff attempts ns mid = (r2, s', slept2)"
      using Cons.prems run by (auto simp: Let_def split: sum.splits if_splits prod.splits)
    obtain k where k: "k \<le> length ns" "logged s' = logged mid @ replicate k x" using Cons.IH[OF rec] by blast
    then show ?thesis
      using first by (intro exI[of _ "Suc k"]) simp
  qed
qed simp

lemma next_attempt_requests: "next_attempt request net = (script, net') \<Longrightarrow> nw_requests net' = nw_requests net @ [request]"
  by (auto simp: next_attempt_def Let_def split: list.splits)

lemma once_requests:
  assumes "write_request client options route = (Inr request :: ('u, 'j) client_error + _)"
    and "connect_write_session_once client options route net = (r :: ('u, 'j) client_error + _, net')"
  shows "nw_requests net' = nw_requests net @ [request]"
  using assms next_attempt_requests by (auto simp: connect_write_session_once_def split: prod.splits)

lemma reconnect_requests:
  fixes writer :: "('i, 'u, 'j, 't, 'd) durable_writer"
  assumes "write_request client (dr_options writer) (dr_route writer) = (Inr request :: ('u, 'j) client_error + _)"
  shows "reconnect_attempts client writer n net = (results, net') \<Longrightarrow>
    length results = n \<and> nw_requests net' = nw_requests net @ replicate n request"
proof (induction n arbitrary: net results net')
  case (Suc n)
  obtain r :: "('u, 'j) client_error + _" and mid where
    first: "connect_write_session_once client (dr_options writer) (dr_route writer) net = (r, mid)" by (metis surj_pair)
  obtain rest last where rec: "reconnect_attempts client writer n mid = (rest, last)" by (metis surj_pair)
  show ?case
    using Suc.prems once_requests[OF assms first] Suc.IH[OF rec] first rec by (auto split: sum.splits)
qed simp

text \<open>The request of every attempt, decoded by the other side.\<close>

definition opens :: "base64_decoder \<Rightarrow> 'i write_session_options \<Rightarrow> bytes \<Rightarrow> bool" where
  "opens dec options frame \<longleftrightarrow> decode_client_frame dec frame
     = (Inr (OpenWrite (wo_client_writer_id options) (wo_link_secret options) (wo_expected_next_seq_num options)) :: unit frame_codec_error + _)"

lemma write_request_opens:
  assumes "write_request client options route = Inr (url, frame)"
    and "valid_client_writer_id (wo_client_writer_id options)" "valid_link_secret dec (wo_link_secret options)"
  shows "opens dec options frame"
  using assms
  by (auto simp: write_request_def and_then_eq_Inr map_err_def client_encode_Inr[OF list_buf_appends] opens_def
      decode_client_frame_Inr typed_client_frame_def split: sum.splits)

lemma write_request_Inr:
  "write_request client options route = (Inr (url, frame) :: ('u, 'j) client_error + _) \<longleftrightarrow>
     websocket_url (rc_config client) (route_path (rc_show_id client) route (wo_stream_id options) ''write'') = (Inr url :: ('u, 'j) client_error + _)
     \<and> client_frame_bounds (OpenWrite (wo_client_writer_id options) (wo_link_secret options) (wo_expected_next_seq_num options))
     \<and> frame = client_frame_bytes (OpenWrite (wo_client_writer_id options) (wo_link_secret options) (wo_expected_next_seq_num options))"
  by (auto simp: write_request_def and_then_eq_Inr map_err_def client_encode_Inr[OF list_buf_appends] split: sum.splits)
     (metis client_encode_Inr[OF list_buf_appends] sum.simps(4))+

text \<open>C17: A writer keeps its identity. Once it is connected, every attempt of the first connection has sent the same
  request, with the fresh identity and the caller's precondition, at most the configured number of times;
  every attempt of a later recovery, however many there are, goes to the same place and presents the same
  identity and secret, and never the precondition again.\<close>

theorem writer_keeps_its_identity:
  fixes writer :: "('i, url, 'j, 't, 'd) durable_writer" and results :: "((url, 'j) client_error + stream_kind) list"
  assumes connect: "connect_writer_route client entropy options route net = (Ok writer, net1)"
    and recover: "reconnect_attempts client writer n net1 = (results, net2)"
    and "length entropy = 16" "valid_link_secret dec (dw_link_secret options)"
  shows "\<exists>url first later k. nw_requests net2 = nw_requests net @ replicate k (url, first) @ replicate n (url, later)
    \<and> 0 < k \<and> k \<le> cc_bounded_operation_attempts (rc_config client) \<and> length results = n
    \<and> decode_client_frame dec first = (Inr (OpenWrite (ClientWriterId entropy) (dw_link_secret options) (dw_expected_next_seq_num options))
        :: unit frame_codec_error + _)
    \<and> decode_client_frame dec later = (Inr (OpenWrite (ClientWriterId entropy) (dw_link_secret options) None) :: unit frame_codec_error + _)"
proof -
  define fresh where "fresh = (write_session_options_new (dw_stream_id options) (ClientWriterId entropy) (dw_link_secret options))
    \<lparr> wo_expected_next_seq_num := dw_expected_next_seq_num options \<rparr>"
  define attempts where "attempts = cc_bounded_operation_attempts (rc_config client)"
  define run where "run = (connect_write_session_once client fresh route :: network \<Rightarrow> ((url, 'j) client_error + _) \<times> _)"
  have fresh: "wo_client_writer_id fresh = ClientWriterId entropy" "wo_link_secret fresh = dw_link_secret options"
      "wo_expected_next_seq_num fresh = dw_expected_next_seq_num options"
    by (simp_all add: fresh_def write_session_options_new_def)
  obtain session where opened: "open_write_session client fresh route net = (Ok session, net1)"
    and writer: "dr_options writer = fresh\<lparr> wo_expected_next_seq_num := None \<rparr>" "dr_route writer = route"
    using connect unfolding connect_writer_route_def Let_def fresh_def[symmetric]
    by (cases "open_write_session client fresh route net"; cases "fst (open_write_session client fresh route net)") auto
  obtain slept where loop: "retry_loop run is_retryable (reconnect_delay (rc_jitter client)) attempts [1..<attempts + 1] net = (Ok session, net1, slept)"
    using opened unfolding open_write_session_def retry_transient_def retry_when_def Let_def run_def attempts_def
    by (auto split: prod.splits)
  have some: "[1..<attempts + 1] \<noteq> []"
    using loop by (cases "[1..<attempts + 1]") auto
  show ?thesis
  proof (cases "write_request client fresh route :: (url, 'j) client_error + _")
    case (Inl e)
    then have "run s = (Inl e, s)" for s by (simp add: run_def connect_write_session_once_def)
    then have "retry_loop run should_retry backoff attempts ns s \<noteq> (Ok session, s', d)" for should_retry backoff attempts ns s s' d
      by (induction ns arbitrary: d) (auto simp: Let_def split: prod.splits)
    with loop show ?thesis by blast
  next
    case (Inr request)
    obtain url first where request: "write_request client fresh route = (Inr (url, first) :: (url, 'j) client_error + _)"
      using Inr by (cases request) simp
    have log: "nw_requests s' = nw_requests s @ [(url, first)]" if "run s = (r, s')" for s r s'
      using once_requests[OF request] that by (simp add: run_def)
    obtain k where k: "k \<le> length [1..<attempts + 1]" "nw_requests net1 = nw_requests net @ replicate k (url, first)" "0 < k"
      using retry_loop_log[where logged = nw_requests and x = "(url, first)", OF _ loop] log some by metis
    obtain later where later: "write_request client (dr_options writer) (dr_route writer) = (Inr (url, later) :: (url, 'j) client_error + _)"
      using request unfolding write_request_Inr writer by (simp add: client_frame_bounds_def)
    have valid: "valid_client_writer_id (wo_client_writer_id fresh)" "valid_link_secret dec (wo_link_secret fresh)"
      using assms(3,4) by (simp_all add: fresh valid_client_writer_id_def WRITER_ID_BYTE_LEN_def)
    have "opens dec fresh first" "opens dec (dr_options writer) later"
      using write_request_opens[OF request valid] write_request_opens[OF later] valid writer by simp_all
    moreover have "k \<le> attempts"
      using k(1) by (simp only: length_upt)
    ultimately have "nw_requests net2 = nw_requests net @ replicate k (url, first) @ replicate n (url, later)
      \<and> 0 < k \<and> k \<le> cc_bounded_operation_attempts (rc_config client) \<and> length results = n
      \<and> decode_client_frame dec first = (Inr (OpenWrite (ClientWriterId entropy) (dw_link_secret options) (dw_expected_next_seq_num options))
          :: unit frame_codec_error + _)
      \<and> decode_client_frame dec later = (Inr (OpenWrite (ClientWriterId entropy) (dw_link_secret options) None) :: unit frame_codec_error + _)"
      using k(2,3) reconnect_requests[OF later recover] writer by (simp add: opens_def fresh attempts_def)
    then show ?thesis by blast
  qed
qed

text \<open>Two attempts, of which the first times out, then two attempts of a recovery.\<close>

definition sample_writer_client :: "(unit, unit) read_client" where
  "sample_writer_client = \<lparr> rc_config = sample_config, rc_from_json = (\<lambda>_. Inl ()), rc_show_id = (\<lambda>_. lit ''s''),
     rc_show_rate = (\<lambda>_. lit ''1''), rc_jitter = id \<rparr>"

definition sample_accepted :: connect_script where
  "sample_accepted = Accepted (Some (Some TSF_WEBSOCKET_PROTOCOL)) Sent False [[Inr (WsBinary [0x80, 1])]]"

definition sample_writer_network :: network where
  "sample_writer_network = \<lparr> nw_attempts = [ConnectElapsed, sample_accepted, ConnectElapsed, sample_accepted], nw_requests = [] \<rparr>"

definition sample_durable_options :: "unit durable_writer_options" where
  "sample_durable_options = with_expected_next_seq_num 7 (durable_writer_options_new () (LinkSecret (replicate 32 65)))"

definition sample_connected_writer :: "((url, unit) client_error, (unit, url, unit, nat, nat) durable_writer) outcome \<times> network" where
  "sample_connected_writer = connect_writer_route sample_writer_client (replicate 16 1) sample_durable_options RouteRecords sample_writer_network"

definition sample_session_options :: "unit write_session_options" where
  "sample_session_options = (write_session_options_new () (ClientWriterId (replicate 16 1)) (LinkSecret (replicate 32 65)))
     \<lparr> wo_expected_next_seq_num := Some 7 \<rparr>"

lemma sample_write_request:
  "\<exists>url frame. write_request sample_writer_client sample_session_options RouteRecords = (Inr (url, frame) :: (url, unit) client_error + _)"
  unfolding write_request_Inr
  by (simp add: websocket_url_def rest_url_def sample_writer_client_def sample_config_def client_frame_bounds_def sample_session_options_def
      write_session_options_new_def MAX_SAFE_INTEGER_U64_def lit_def)

lemma sample_write_open: "\<exists>session net. open_write_session sample_writer_client sample_session_options RouteRecords sample_writer_network = (Ok session, net)"
proof -
  obtain url frame where request: "write_request sample_writer_client sample_session_options RouteRecords = (Inr (url, frame) :: (url, unit) client_error + _)"
    using sample_write_request by blast
  have upt: "[1..<3 + 1] = [1, 2, 3 :: nat]"
    by (simp add: upt_rec)
  have config: "rc_config sample_writer_client = sample_config"
    by (simp add: sample_writer_client_def)
  have elapsed: "accept_write_session sample_writer_client ConnectElapsed = (Inl (Timeout ''connect websocket'') :: (url, unit) client_error + _)"
    by (simp add: accept_write_session_def connect_websocket_def)
  have "\<exists>session. accept_write_session sample_writer_client sample_accepted = (Inr session :: (url, unit) client_error + _)"
    by (simp add: accept_write_session_def sample_accepted_def connect_websocket_def expect_ready_def expect_frame_def decode_server_frame_def
        with_timeout_def map_err_def server_op_try_from_def fd_byte_def fd_finish_def fd_take_def stream_kind_from_byte_def)
  then obtain session where accepted: "accept_write_session sample_writer_client sample_accepted = (Inr session :: (url, unit) client_error + _)"
    by blast
  show ?thesis
    unfolding open_write_session_def retry_transient_def retry_when_def Let_def config sample_config_attempts upt
    by (simp add: connect_write_session_once_def request next_attempt_def sample_writer_network_def elapsed accepted is_retryable_def Let_def)
qed

lemma writer_keeps_its_identity_witness:
  "\<exists>(writer :: (unit, url, unit, nat, nat) durable_writer) net1 results net2 url first later k.
    connect_writer_route sample_writer_client (replicate 16 1) sample_durable_options RouteRecords sample_writer_network = (Ok writer, net1)
    \<and> reconnect_attempts sample_writer_client writer 2 net1 = (results :: ((url, unit) client_error + stream_kind) list, net2)
    \<and> nw_requests net2 = replicate k (url, first) @ replicate 2 (url, later) \<and> 0 < k
    \<and> decode_client_frame (\<lambda>_ _. Some []) later
        = (Inr (OpenWrite (ClientWriterId (replicate 16 1)) (LinkSecret (replicate 32 65)) None) :: unit frame_codec_error + _)"
proof -
  obtain session net1 where opened: "open_write_session sample_writer_client sample_session_options RouteRecords sample_writer_network = (Ok session, net1)"
    using sample_write_open by blast
  obtain writer :: "(unit, url, unit, nat, nat) durable_writer" where
    writer: "connect_writer_route sample_writer_client (replicate 16 1) sample_durable_options RouteRecords sample_writer_network = (Ok writer, net1)"
    using opened unfolding connect_writer_route_def Let_def
    by (simp add: sample_durable_options_def durable_writer_options_new_def with_expected_next_seq_num_def sample_session_options_def)
  obtain results net2 where recover:
      "reconnect_attempts sample_writer_client writer 2 net1 = (results :: ((url, unit) client_error + stream_kind) list, net2)"
    by (metis surj_pair)
  have "valid_link_secret (\<lambda>_ _. Some []) (dw_link_secret sample_durable_options)"
    by (simp add: valid_link_secret_def is_canonical_base64url_24_def BASE64URL_24_ENCODED_LEN_def sample_durable_options_def
        utf8_chars_ascii durable_writer_options_new_def with_expected_next_seq_num_def)
  from writer_keeps_its_identity[OF writer recover _ this] show ?thesis
    using writer recover
    by (simp add: sample_writer_network_def[THEN arg_cong[where f = nw_requests]] sample_durable_options_def durable_writer_options_new_def
        with_expected_next_seq_num_def) blast
qed

end
