(* ===== verification/TerminalStart.thy ===== *)
theory TerminalStart
  imports CliCommands WriteSession TerminalProtocol
begin

text \<open>
  Starting a hosted terminal (\<open>cli/src/terminal.rs\<close>): \<open>tsf terminal\<close> creates the stream, prints its links and hosts the
  command; when it fails before the start of the session is durable, it deletes the stream again. The
  operating system, the two connections and the running session (the host loop has its own theory) are an
  environment that says which step fails; what happens to the child is kept in its guard. The host talks to the
  data plane only, so the service of the REST calls is left to the calls that are modelled.
\<close>

section \<open>The child\<close>






section \<open>Starting\<close>

datatype host_stage = InputReader | OutputWriter | OpenPty | PtyOutput | PtyInput | SpawnCommand | SendStarted


datatype 'e host_error =
    StageFailed host_stage 'e
  | PublisherStopped
  | PublisherFailed 'e
  | InterruptUnavailable 'e
  | KillFailed 'e
  | KillTaskPanicked
  | StartupInterrupted
  | SessionFailed 'e








text \<open>What the host connects with: it reads its input from the beginning, and its output begins the stream.\<close>

definition host_read_options :: "'i \<Rightarrow> link_secret \<Rightarrow> 'i read_options" where
  "host_read_options stream_id owner_secret =
     (read_options_new stream_id)\<lparr> ro_link_secret := Some owner_secret, ro_start := Some (SeqNum 0) \<rparr>"

definition host_writer_options :: "'i \<Rightarrow> link_secret \<Rightarrow> 'i durable_writer_options" where
  "host_writer_options stream_id owner_secret = with_expected_next_seq_num 0 (durable_writer_options_new stream_id owner_secret)"

section \<open>The command\<close>


datatype ('p, 'd, 'j, 'e) terminal_error =
    InvalidTerminalSize terminal_protocol_error
  | CommandFailed "('p, 'd, 'j, 'e) command_error"
  | HostFailed "'e host_error"









text \<open>\<open>main\<close> then exits; an interrupted start has the exit code of an interrupt.\<close>

definition terminal_exit_code :: "(('p, 'd, 'j, 'e) terminal_error, unit) outcome \<Rightarrow> u32" where
  "terminal_exit_code r = (case r of
       Ok _ \<Rightarrow> 0
     | Err (HostFailed StartupInterrupted) \<Rightarrow> 130
     | _ \<Rightarrow> 1)"

section \<open>Properties\<close>


















end
