(* ===== verification/Spec2Isabelle.thy ===== *)
theory Spec2Isabelle
  imports Reassembly TerminalProtocol WriterActor ReadSession SseSession RestLinks RestAppend StreamUrl TerminalHost TerminalInput
    TerminalPublisher TranscriptRead CommandInput TerminalStart
begin

text \<open>
  A verification library for tailsurf: the client library under \<open>rust/src\<close> and the command-line client under
  \<open>cli/src\<close>. A stream is a sequence of physical records that a service keeps; the library appends to it through a durable
  WebSocket writer or a stateless REST call, reads it over WebSocket or server-sent events, manages streams and their
  links over REST, and splits logical records into physical ones and back. The command-line client pipes
  text into a stream and out of it, and hosts a terminal on one.

  \<^bold>\<open>How the parts of the program meet.\<close> A producer hands a batch to the writer's actor, which numbers its records, frames
  them under a window, sends them in \<open>Append\<close> frames and keeps them until the server's acknowledgement; a lost
  connection rewinds what was sent, and tickets are resolved in the order of submission. A reader connects with a
  start, a stop and a filter, checks every batch against what it asked for, and resumes after the last record it delivered.
  The assembler puts the parts of logical records together again, per writer. Frames, records and batches have one binary
  codec; the REST and event-stream forms are JSON with decimal strings and base64url payloads. The terminal host runs
  a PTY, turns what it prints into terminal events with checkpoints of the screen between them, publishes them
  through the durable writer and applies the input events it reads.

  \<^bold>\<open>Theories and sources.\<close>
  \<^item> \<open>Prelude\<close>, \<open>Strings\<close>: machine integers, outcomes with panics, checked arithmetic, big-endian integers, UTF-8 strings,
    lists and association lists; the locale \<open>byte_codec\<close> of a partial encoder with its decoder.
  \<^item> \<open>Identifiers\<close> (\<open>permissions.rs\<close>, \<open>ids.rs\<close>, \<open>stream_title.rs\<close>): validated scalars and their parsers.
  \<^item> \<open>Frames\<close>, \<open>FrameCodec\<close>, \<open>ServerCodec\<close> (\<open>protocol/ws/frame.rs\<close>): part headers, records, batches with their limits,
    \<open>split_logical\<close>; the client and the server frames with their decoders.
  \<^item> \<open>LogicalRecords\<close>, \<open>Reassembly\<close> (\<open>logical_records.rs\<close>): the assembler and the payload cursor; then its invariant,
    soundness, and the round trip with the splitter.
  \<^item> \<open>TerminalProtocol\<close> (\<open>protocol/terminal.rs\<close>): the versioned terminal events.
  \<^item> \<open>Rest\<close>, \<open>JsonRecords\<close> (\<open>protocol/rest.rs\<close>, \<open>client.rs\<close>): decimal strings, RFC 3339 timestamps, payload fields; the
    payload key of an append and the batches of an event stream.
  \<^item> \<open>ClientErrors\<close>, \<open>WriterQueue\<close>, \<open>WriterActor\<close>, \<open>Sockets\<close>, \<open>WriteSession\<close> (\<open>client.rs\<close>, \<open>protocol/ws.rs\<close>): errors and which of them are
    retried, the retry loop, the retained queue (locale \<open>retained_queue\<close>), the actor with producers and tickets, frames received
    from sockets, the connection of write sessions and durable writers. \<open>WriterService\<close> is the writer as its clients see it.
  \<^item> \<open>ReadSocket\<close>, \<open>ReadSession\<close>, \<open>SseParser\<close>, \<open>SseCursor\<close>, \<open>SseSession\<close> (\<open>client.rs\<close>, \<open>protocol/read.rs\<close>): read options and requests, the
    WebSocket reader, the incremental event parser, the cursor of event ids, the event-stream reader. Both readers
    interpret the locale \<open>resumable_reader\<close>.
  \<^item> \<open>RestClient\<close>, \<open>RestLinks\<close>, \<open>RestAppend\<close> (\<open>client.rs\<close>): requests, bounded bodies, errors, the operations on streams and links, the
    listing of links, the stateless append.
  \<^item> \<open>StreamUrl\<close> (\<open>stream_url.rs\<close>): the links people exchange.
  \<^item> \<open>TerminalCheckpoint\<close> (\<open>cli/src/terminal/checkpoint.rs\<close>), \<open>TerminalStart\<close>, \<open>TerminalHost\<close>, \<open>TerminalInput\<close>, \<open>TerminalPublisher\<close>
    (\<open>cli/src/terminal.rs\<close>): the checkpoint emitter; the start of a terminal and its cleanup; the host loop with the PTY
    reader thread and their handoff; the forwarding of input events; the publisher of output events.
  \<^item> \<open>TranscriptWrite\<close>, \<open>CommandInput\<close>, \<open>TranscriptRead\<close> (\<open>cli/src/main.rs\<close>): \<open>tsf write\<close> with its window, its lines and byte
    records, from standard input or a child process; \<open>tsf tail\<close> and \<open>tsf replay\<close>, and the whole way of a transcript.
  \<^item> \<open>CliArguments\<close>, \<open>CliCommands\<close> (\<open>cli/src/main.rs\<close>, \<open>protocol/rest.rs\<close>): the parsers of arguments, the links of a new stream, the spacing
    of update checks; the commands that create and manage streams and links, what they print, and the link files.

  \<^bold>\<open>How state and effects correspond.\<close> A Rust struct is a record with a prefix on its fields, an enum a datatype, \<open>Result\<close> a sum
  with \<open>Inl\<close> for the error, and an operation that can panic returns an \<open>outcome\<close>. A method with \<open>&mut self\<close> returns the new
  state, also when it fails. Word-sized integers are words, \<open>usize\<close> is \<open>nat\<close> with the checks and saturations written out.
  Where tasks or threads interleave (the writer's actor with producers, the terminal host with its reader thread), a step
  function or an inductive relation takes one step between two wait points and reachability ranges over all
  interleavings; elsewhere an \<open>async\<close> function is sequential and its waits are calls to the environment.

  \<^bold>\<open>What is a parameter.\<close> Code outside the repository is an argument of the definitions that use it: the \<open>BytesMut\<close> buffer (assumed to append
  big-endian bytes), base64url, serde's JSON parsers and printers, the URL and form libraries, UBIDs, the \<open>vt100\<close> and
  \<open>vte\<close> parsers, jitter and clocks. The network is a script of what connection attempts and sockets answer, or a function from a request
  and a service state to an outcome, so a theorem holds for every behaviour of it. Every theorem that assumes
  something of a parameter has a witness with a concrete one.

  \<^bold>\<open>What the lemmas show.\<close> Codecs: round trips, and that whatever a decoder accepts is within bounds and, JSON metadata
  apart, canonical. Assembler: an invariant
  of its totals and pending runs, that no record is invented, repeated or lost. Writer: its queue is a well-formed run of
  sequence numbers, what each connection carries refines the abstract sequence of records, tickets are resolved
  once, in order and always, a clean close is durable, it never panics and recovers from a silent server. Readers:
  delivered records are consecutive from the requested one across reconnects, within the requested bounds (for event streams
  as long as no handshake carries a cursor); the event parser refines a reference that sees the whole stream. REST: keyed creations happen at most once, the listing of links
  is complete, duplicate-free and returns. Terminal: the transcript is the PTY's output in order, resizes are
  barriers, events encode, checkpoints come often enough while the screen can be written out; input is applied in order,
  publishing refines a protocol that ends with the first failure, and a terminal that does not start is cleaned up once
  its owner link is known. Command line: lines and bytes are written
  as they were read, a transcript comes out as it went in, a new stream asks for the links it needs and keeps their files
  private, a link file resolves to its stream, a program's exit code is passed on once its output is durable, or a further
  interrupt ends the wait for that.

  \<^bold>\<open>Bounds and fuel.\<close> The retry loop recurses on the attempts left, at most the configured number, and is proved not to fall through.
  Loops over sockets and event streams recurse on the script, which shrinks with every message or attempt.
  \<open>list_all_links\<close> takes the number of pages as fuel, and one page more than there are links is proved to be enough.
  All other recursions are structural or have a termination proof; nothing is partial.

  \<^bold>\<open>Not modelled.\<close> Derived \<open>serde\<close>, \<open>Debug\<close> and \<open>Display\<close> code and messages of errors; random generation; tracing, timers and
  TLS set-up (a deadline is a branch that may be taken whenever it is enabled); \<open>clap\<close>, \<open>main\<close>, the download of updates and
  broken pipes of the command-line client, a failure to listen for Ctrl-C while the output of a program is copied, the worker threads that move bytes between the PTY, pipes and
  channels; the TypeScript packages, examples, scripts and tests.
\<close>

end
